(* ===== verification/SOS_Prelude.thy ===== *)
theory SOS_Prelude
  imports Main "HOL-Library.Word"
begin

text \<open>
  Shared vocabulary of the development.

  \<^item> The machine types of the C sources: bytes, \<open>int\<close>, \<open>long\<close> and \<open>uint64_t\<close> as words.
  \<^item> The ways a C call can fail to return (\<open>fault\<close>) and the result type \<open>'a res\<close>: every
    \<open>exit(EXIT_FAILURE)\<close>, every access outside an allocated block, every dereference of
    \<open>NULL\<close>, every self-deadlock on a mutex and every endless loop is a value \<open>Inl f\<close>.
  \<^item> Reads and writes of a block of bytes (\<open>mem_read\<close>, \<open>mem_write\<close>) with their bounds check,
    and C strings as the bytes before the first \<open>NUL\<close>.
  \<^item> The generic lemmas on these that the component theories share.
\<close>

section \<open>Machine types\<close>

type_synonym byte = "8 word"
type_synonym i32 = "32 word"
type_synonym i64 = "64 word"
type_synonym u32 = "32 word"
type_synonym u64 = "64 word"
type_synonym cstring = "byte list"

definition INT_MAX :: nat where
  "INT_MAX = 2 ^ 31 - 1"

named_theorems res_simps "rewriting the result monad"
named_theorems mem_simps "reading and writing blocks of bytes"

section \<open>Faults and results\<close>

datatype fault =
    Out_Of_Bounds
  | Null_Deref
  | Exit_Failure
  | Deadlock
  | Size_Overflow
  | Bad_Argument
  | Union_Misread
  | Uninitialised
  | Use_After_Free
  | Blocks
  | Diverges
  | Undefined

type_synonym 'a res = "fault + 'a"

fun bindR :: "'a res \<Rightarrow> ('a \<Rightarrow> 'b res) \<Rightarrow> 'b res" where
  "bindR (Inl e) f = Inl e"
| "bindR (Inr x) f = f x"

definition checkR :: "bool \<Rightarrow> fault \<Rightarrow> 'a res \<Rightarrow> 'a res" where
  "checkR c e r = (if c then r else Inl e)"

fun foldR :: "('a \<Rightarrow> 's \<Rightarrow> 's res) \<Rightarrow> 'a list \<Rightarrow> 's \<Rightarrow> 's res" where
  "foldR f [] s = Inr s"
| "foldR f (x # xs) s = bindR (f x s) (foldR f xs)"

lemma bindR_Inr_iff [res_simps]:
  "bindR r f = Inr y \<longleftrightarrow> (\<exists>x. r = Inr x \<and> f x = Inr y)"
  by (cases r) auto

lemma bindR_assoc [res_simps]: "bindR (bindR r f) g = bindR r (\<lambda>x. bindR (f x) g)"
  by (cases r) auto

lemma bindR_cong [fundef_cong]:
  "r = r' \<Longrightarrow> (\<And>x. r' = Inr x \<Longrightarrow> f x = f' x) \<Longrightarrow> bindR r f = bindR r' f'"
  by (cases r') auto

lemma checkR_True [simp]: "c \<Longrightarrow> checkR c e r = r"
  by (simp add: checkR_def)

lemma checkR_False [simp]: "\<not> c \<Longrightarrow> checkR c e r = Inl e"
  by (simp add: checkR_def)

lemma checkR_Inr_iff [res_simps]: "checkR c e r = Inr y \<longleftrightarrow> c \<and> r = Inr y"
  by (simp add: checkR_def)

lemma foldR_append: "foldR f (xs @ ys) s = bindR (foldR f xs s) (foldR f ys)"
  by (induction xs arbitrary: s) (auto simp: bindR_assoc intro: bindR_cong)

text \<open>An invariant of every step of a loop is an invariant of the loop.\<close>

lemma foldR_invariant:
  assumes "\<And>x s s'. x \<in> set xs \<Longrightarrow> I s \<Longrightarrow> f x s = Inr s' \<Longrightarrow> I s'"
  shows "I s \<Longrightarrow> foldR f xs s = Inr s' \<Longrightarrow> I s'"
  using assms by (induction xs arbitrary: s) (auto simp: res_simps)

section \<open>Blocks of memory\<close>

definition mem_read :: "nat \<Rightarrow> nat \<Rightarrow> 'b list \<Rightarrow> 'b list res" where
  "mem_read p n m = (if p + n \<le> length m then Inr (take n (drop p m)) else Inl Out_Of_Bounds)"

definition mem_write :: "nat \<Rightarrow> 'b list \<Rightarrow> 'b list \<Rightarrow> 'b list res" where
  "mem_write p bs m =
     (if p + length bs \<le> length m then Inr (take p m @ bs @ drop (p + length bs) m)
      else Inl Out_Of_Bounds)"

lemma mem_write_ok [mem_simps]:
  "p + length bs \<le> length m \<Longrightarrow>
   mem_write p bs m = Inr (take p m @ bs @ drop (p + length bs) m)"
  by (simp add: mem_write_def)

lemma mem_write_oob [mem_simps]:
  "length m < p + length bs \<Longrightarrow> mem_write p bs m = Inl Out_Of_Bounds"
  by (simp add: mem_write_def)

lemma mem_read_oob [mem_simps]: "length m < p + n \<Longrightarrow> mem_read p n m = Inl Out_Of_Bounds"
  by (simp add: mem_read_def)

lemma mem_write_length: "mem_write p bs m = Inr m' \<Longrightarrow> length m' = length m"
  by (auto simp: mem_write_def split: if_splits)

lemma mem_write_Inl_iff: "mem_write p bs m = Inl e \<longleftrightarrow> e = Out_Of_Bounds \<and> length m < p + length bs"
  by (auto simp: mem_write_def)

lemma mem_read_Inl_iff: "mem_read p n m = Inl e \<longleftrightarrow> e = Out_Of_Bounds \<and> length m < p + n"
  by (auto simp: mem_read_def)

text \<open>
  \<open>mem_at p bs m\<close>: the bytes \<open>bs\<close> lie at position \<open>p\<close> of the block \<open>m\<close>. Encoders establish
  it, decoders consume it, and it splits along \<open>@\<close>.
\<close>

definition mem_at :: "nat \<Rightarrow> 'b list \<Rightarrow> 'b list \<Rightarrow> bool" where
  "mem_at p bs m \<longleftrightarrow> p + length bs \<le> length m \<and> take (length bs) (drop p m) = bs"

lemma mem_at_Nil [mem_simps]: "mem_at p [] m \<longleftrightarrow> p \<le> length m"
  by (simp add: mem_at_def)

lemma mem_at_append [mem_simps]:
  "mem_at p (xs @ ys) m \<longleftrightarrow> mem_at p xs m \<and> mem_at (p + length xs) ys m"
proof -
  have *: "take (length xs + length ys) (drop p m) =
      take (length xs) (drop p m) @ take (length ys) (drop (p + length xs) m)"
    by (simp add: take_add add.commute)
  show ?thesis
    unfolding mem_at_def length_append *
    by (cases "p + (length xs + length ys) \<le> length m") (auto simp: append_eq_append_conv)
qed

lemma mem_at_read [mem_simps]: "mem_at p bs m \<Longrightarrow> mem_read p (length bs) m = Inr bs"
  by (simp add: mem_at_def mem_read_def)

lemma mem_at_read_n: "mem_at p bs m \<Longrightarrow> n = length bs \<Longrightarrow> mem_read p n m = Inr bs"
  by (simp add: mem_at_read)

lemma mem_at_writeI: "p + length bs \<le> length m \<Longrightarrow> mem_at p bs (take p m @ bs @ drop q m)"
  by (auto simp: mem_at_def)

lemma mem_at_write: "mem_write p bs m = Inr m' \<Longrightarrow> mem_at p bs m'"
  by (auto simp: mem_write_def mem_at_def split: if_splits)

lemma mem_at_write_before:
  assumes "mem_write p bs m = Inr m'" and "mem_at q cs m" and "q + length cs \<le> p"
  shows "mem_at q cs m'"
proof -
  from assms(1) have m': "m' = take p m @ bs @ drop (p + length bs) m"
    and le: "p + length bs \<le> length m"
    by (auto simp: mem_write_def split: if_splits)
  have "take (length cs) (drop q m') = take (length cs) (drop q (take p m))"
    using assms(3) le by (simp add: m' drop_append min_def)
  also have "\<dots> = take (length cs) (drop q m)"
    using assms(3) by (simp add: drop_take min_def)
  finally show ?thesis
    using assms(2) by (simp add: mem_at_def mem_write_length [OF assms(1)])
qed

lemma mem_at_write_after:
  assumes "mem_write p bs m = Inr m'" and "mem_at q cs m" and "p + length bs \<le> q"
  shows "mem_at q cs m'"
proof -
  from assms(1) have m': "m' = take p m @ bs @ drop (p + length bs) m"
    and le: "p + length bs \<le> length m"
    by (auto simp: mem_write_def split: if_splits)
  from assms(3) obtain d where q: "q = p + length bs + d"
    using le_Suc_ex by blast
  have "drop q m' = drop q m"
    using le by (simp add: m' q add.assoc add.commute)
  then show ?thesis
    using assms(2) by (simp add: mem_at_def mem_write_length [OF assms(1)])
qed

lemma mem_at_grow: "mem_at p bs m \<Longrightarrow> mem_at p bs (m @ ys)"
  by (auto simp: mem_at_def drop_append)

lemma mem_at_bound: "mem_at p bs m \<Longrightarrow> p + length bs \<le> length m"
  by (simp add: mem_at_def)

section \<open>C strings\<close>

definition byte_of_char :: "char \<Rightarrow> byte" where
  "byte_of_char c = word_of_nat (of_char c)"

definition str :: "string \<Rightarrow> cstring" where
  "str s = map byte_of_char s"

text \<open>The string a pointer to a block denotes: the bytes before the first \<open>NUL\<close>.\<close>

definition cstr :: "byte list \<Rightarrow> cstring" where
  "cstr m = takeWhile (\<lambda>b. b \<noteq> 0) m"

definition wf_cstring :: "cstring \<Rightarrow> bool" where
  "wf_cstring s \<longleftrightarrow> 0 \<notin> set s"

text \<open>\<open>strncpy(dest, src, n)\<close> for an array \<open>dest\<close> of exactly \<open>n\<close> bytes.\<close>

definition strncpy_array :: "nat \<Rightarrow> cstring \<Rightarrow> byte list" where
  "strncpy_array n src = take n (src @ replicate n 0)"

text \<open>\<open>snprintf(dest, n, "%s", src)\<close>: at most \<open>n - 1\<close> bytes and a terminating \<open>NUL\<close>.\<close>

definition snprintf_array :: "nat \<Rightarrow> cstring \<Rightarrow> byte list \<Rightarrow> byte list" where
  "snprintf_array n src old = take n (take (n - 1) src @ [0] @ drop (Suc (length (take (n - 1) src))) old)"

lemma length_strncpy_array [simp]: "length (strncpy_array n src) = n"
  by (simp add: strncpy_array_def)

lemma cstr_wf [simp]: "wf_cstring s \<Longrightarrow> cstr s = s"
  unfolding cstr_def wf_cstring_def by (rule takeWhile_eq_all_conv [THEN iffD2]) auto

lemma wf_cstr [simp]: "wf_cstring (cstr m)"
  by (auto simp: cstr_def wf_cstring_def dest: set_takeWhileD)

lemma cstr_append_NUL: "wf_cstring s \<Longrightarrow> cstr (s @ 0 # xs) = s"
  unfolding cstr_def wf_cstring_def by (subst takeWhile_append2) auto

lemma cstr_append: "wf_cstring s \<Longrightarrow> cstr (s @ xs) = s @ cstr xs"
  unfolding cstr_def wf_cstring_def by (subst takeWhile_append2) auto

lemma cstr_strncpy_array:
  assumes "wf_cstring s" and "length s < n"
  shows "cstr (strncpy_array n s) = s"
proof -
  from assms(2) obtain k where k: "n - length s = Suc k"
    by (metis Suc_diff_Suc)
  have "strncpy_array n s = s @ 0 # replicate k 0"
    using assms(2) k by (simp add: strncpy_array_def min_def) arith
  then show ?thesis using assms(1) by (simp add: cstr_append_NUL)
qed

lemma wf_str [simp]: "(\<forall>c \<in> set s. byte_of_char c \<noteq> 0) \<Longrightarrow> wf_cstring (str s)"
  by (auto simp: wf_cstring_def str_def)

lemma length_str [simp]: "length (str s) = length s"
  by (simp add: str_def)

section \<open>Words\<close>

lemma unat_word_of_nat_small [simp]:
  "n < 2 ^ LENGTH('a) \<Longrightarrow> unat (word_of_nat n :: 'a::len word) = n"
  by (simp add: of_nat_inverse unat_of_nat)

lemma unat_less_i32: "unat (w :: i32) < 2 ^ 32"
  by (rule less_le_trans [OF unsigned_less]) simp

text \<open>Two's complement at 32 bits: the signed reading of a word from its unsigned one.\<close>

lemma sint_i32: "sint (w :: i32) = (if unat w < 2 ^ 31 then int (unat w) else int (unat w) - 2 ^ 32)"
proof -
  have "sint w = signed_take_bit 31 (uint w)" by (simp add: sint_uint)
  also have "\<dots> = (if uint w < 2 ^ 31 then uint w else uint w - 2 ^ 32)"
  proof (cases "uint w < 2 ^ 31")
    case True
    moreover have "- (2 ^ 31) \<le> uint w" by (rule order_trans [of _ 0]) simp_all
    ultimately show ?thesis by (simp add: signed_take_bit_int_eq_self_iff)
  next
    case False
    have "uint w < 2 ^ 32" using uint_lt2p [of w] by simp
    with False have "signed_take_bit 31 (uint w - 2 ^ 32) = uint w - 2 ^ 32"
      by (intro signed_take_bit_int_eq_self) simp_all
    moreover have "signed_take_bit 31 (uint w - 2 ^ 32) = signed_take_bit 31 (uint w)"
      by (rule signed_take_bit_eq_iff_take_bit_eq [THEN iffD2]) (simp add: take_bit_eq_mod)
    ultimately show ?thesis using False by simp
  qed
  moreover have "uint w = int (unat w)" by simp
  ultimately show ?thesis by (metis of_nat_less_iff of_nat_numeral of_nat_power)
qed

lemma sint_i32_nonneg: "0 \<le> sint (w :: i32) \<longleftrightarrow> unat w < 2 ^ 31"
proof -
  have "unat w < 2 ^ 32" by (rule unat_less_i32)
  then show ?thesis unfolding sint_i32 by (cases "unat w < 2 ^ 31") (simp_all del: of_nat_unat)
qed

lemma sint_word_of_nat_small: "n < 2 ^ 31 \<Longrightarrow> sint (word_of_nat n :: i32) = int n"
  by (simp add: sint_i32)

end
