(* ===== verification/SOS_Float.thy ===== *)
theory SOS_Float
  imports Complex_Main SOS_Prelude
begin

text \<open>
  The portable encoding of \<open>double\<close> values (\<open>SOS_buffer_pack754\<close> and
  \<open>SOS_buffer_unpack754\<close> of \<open>sos_buffer.c\<close>, at the one width the sources use, the
  \<open>_64\<close> macros).

  A finite \<open>double\<close> is its exact rational value; the two zeros are one value, as they are for
  every comparison the code makes. Packing is exact on doubles: halving and doubling towards
  the interval from 1 to 2, the subtraction of 1 and the scaling by \<open>2 ^ 52\<close> do not round (the
  constant \<open>(1LL<<52) + 0.5f\<close> is a \<open>float\<close>, hence \<open>2 ^ 52\<close>). Unpacking scales by
  powers of two, where a double can overflow or lose bits below \<open>2 ^ -1022\<close>; both are modelled.
\<close>

unbundle bit_operations_syntax

datatype c_double = Fin rat | Infty bool | NaN

section \<open>Packing\<close>

function pack754_halve :: "rat \<Rightarrow> int \<Rightarrow> rat \<times> int" where
  "pack754_halve f s = (if 2 \<le> f then pack754_halve (f / 2) (s + 1) else (f, s))"
  by pat_completeness auto
termination
proof (relation "measure (\<lambda>(f, s). nat \<lfloor>f\<rfloor>)")
  show "wf (measure (\<lambda>(f :: rat, s :: int). nat \<lfloor>f\<rfloor>))"
    by simp
  fix f :: rat and s :: int
  assume "2 \<le> f"
  then have "f / 2 \<le> f - 1" by (simp add: field_simps)
  then have "\<lfloor>f / 2\<rfloor> \<le> \<lfloor>f\<rfloor> - 1"
    using floor_mono [of "f / 2" "f - 1"] by simp
  moreover from \<open>2 \<le> f\<close> have "2 \<le> \<lfloor>f\<rfloor>" by (simp add: le_floor_iff)
  ultimately show "((f / 2, s + 1), (f, s)) \<in> measure (\<lambda>(f, s). nat \<lfloor>f\<rfloor>)"
    by simp
qed

function pack754_double :: "rat \<Rightarrow> int \<Rightarrow> rat \<times> int" where
  "pack754_double f s = (if 0 < f \<and> f < 1 then pack754_double (f * 2) (s - 1) else (f, s))"
  by pat_completeness auto
termination
proof (relation "measure (\<lambda>(f, s). nat \<lfloor>2 / f\<rfloor>)")
  show "wf (measure (\<lambda>(f :: rat, s :: int). nat \<lfloor>2 / f\<rfloor>))"
    by simp
  fix f :: rat and s :: int
  assume f: "0 < f \<and> f < 1"
  then have "2 / (f * 2) \<le> 2 / f - 1" by (simp add: field_simps)
  then have "\<lfloor>2 / (f * 2)\<rfloor> \<le> \<lfloor>2 / f\<rfloor> - 1"
    using floor_mono [of "2 / (f * 2)" "2 / f - 1"] by simp
  moreover from f have "2 \<le> \<lfloor>2 / f\<rfloor>" by (simp add: le_floor_iff field_simps)
  ultimately show "((f * 2, s - 1), (f, s)) \<in> measure (\<lambda>(f, s). nat \<lfloor>2 / f\<rfloor>)"
    by simp
qed

declare pack754_halve.simps [simp del] pack754_double.simps [simp del]

text \<open>
  Infinity never leaves the first loop; converting \<open>NaN\<close> to \<open>long long\<close> is undefined.
\<close>

definition SOS_buffer_pack754_64 :: "c_double \<Rightarrow> u64 res" where
  "SOS_buffer_pack754_64 d =
     (case d of
        NaN \<Rightarrow> Inl Undefined
      | Infty _ \<Rightarrow> Inl Diverges
      | Fin f \<Rightarrow>
          if f = 0 then Inr 0
          else
            (let sign = (if f < 0 then 1 else 0);
                 (f1, shift1) = pack754_halve \<bar>f\<bar> 0;
                 (f2, shift) = pack754_double f1 shift1;
                 significand = word_of_int \<lfloor>(f2 - 1) * 2 ^ 52\<rfloor>;
                 exp = word_of_int (shift + 1023)
             in Inr (push_bit 63 sign OR push_bit 52 exp OR significand)))"

section \<open>Unpacking\<close>

definition round_half_even :: "rat \<Rightarrow> int" where
  "round_half_even x =
     (let f = \<lfloor>x\<rfloor>; d = x - of_int f
      in if d < 1 / 2 then f else if 1 / 2 < d then f + 1 else if even f then f else f + 1)"

definition double_times2 :: "c_double \<Rightarrow> c_double" where
  "double_times2 d = (case d of
     Fin r \<Rightarrow> if 2 ^ 1024 \<le> \<bar>2 * r\<bar> then Infty (r < 0) else Fin (2 * r)
   | _ \<Rightarrow> d)"

definition double_div2 :: "c_double \<Rightarrow> c_double" where
  "double_div2 d = (case d of
     Fin r \<Rightarrow> if 1 / 2 ^ 1022 \<le> \<bar>r / 2\<bar> then Fin (r / 2)
              else Fin (of_int (round_half_even (r / 2 * 2 ^ 1074)) / 2 ^ 1074)
   | _ \<Rightarrow> d)"

definition double_neg :: "c_double \<Rightarrow> c_double" where
  "double_neg d = (case d of Fin r \<Rightarrow> Fin (- r) | Infty s \<Rightarrow> Infty (\<not> s) | NaN \<Rightarrow> NaN)"

definition SOS_buffer_unpack754_64 :: "u64 \<Rightarrow> c_double" where
  "SOS_buffer_unpack754_64 i =
     (if i = 0 then Fin 0
      else
        (let frac = Fin (of_nat (unat (i AND mask 52)) / 2 ^ 52 + 1);
             shift = sint ((drop_bit 52 i AND mask 11) - 1023);
             up = (double_times2 ^^ nat shift) frac;
             dn = (double_div2 ^^ nat (- shift)) up
         in if drop_bit 63 i AND 1 = 1 then double_neg dn else dn))"

section \<open>Exactness on normal doubles\<close>

definition normal_double :: "bool \<Rightarrow> nat \<Rightarrow> int \<Rightarrow> rat" where
  "normal_double s m e = (if s then - 1 else 1) * (1 + of_nat m / 2 ^ 52) * 2 powi e"

text \<open>The bits of a normal double: sign, biased exponent and fraction fields.\<close>

definition ieee_bits :: "bool \<Rightarrow> nat \<Rightarrow> int \<Rightarrow> u64" where
  "ieee_bits s m e =
     push_bit 63 (if s then 1 else 0) OR push_bit 52 (word_of_int (e + 1023)) OR word_of_nat m"

definition is_normal :: "bool \<Rightarrow> nat \<Rightarrow> int \<Rightarrow> bool" where
  "is_normal s m e \<longleftrightarrow> m < 2 ^ 52 \<and> - 1022 \<le> e \<and> e \<le> 1023"

lemma pack754_halve_power:
  assumes "1 \<le> f" "f < 2"
  shows "pack754_halve (f * 2 ^ k) s = (f, s + int k)"
proof (induction k arbitrary: s)
  case 0
  then show ?case using assms by (subst pack754_halve.simps) simp
next
  case (Suc k)
  have "2 \<le> f * 2 ^ Suc k"
    using assms(1) mult_mono [of 1 f 2 "2 ^ Suc k"] by simp
  then show ?case
    using Suc.IH [of "s + 1"] by (subst pack754_halve.simps) (simp add: algebra_simps)
qed

lemma pack754_double_power:
  assumes "1 \<le> f" "f < 2"
  shows "pack754_double (f / 2 ^ k) s = (f, s - int k)"
proof (induction k arbitrary: s)
  case 0
  then show ?case using assms by (subst pack754_double.simps) simp
next
  case (Suc k)
  have "(2 :: rat) \<le> 2 ^ Suc k" by simp
  with assms(2) have "f < 2 ^ Suc k" by (rule less_le_trans)
  then have "f / 2 ^ Suc k < 1"
    by (simp only: divide_less_eq) simp
  moreover have "0 < f / 2 ^ Suc k" using assms by simp
  ultimately show ?case
    using Suc.IH [of "s - 1"] by (subst pack754_double.simps) (simp add: algebra_simps)
qed

lemma pack754_normalise:
  assumes "1 \<le> f" "f < 2"
  shows "(case pack754_halve (f * 2 powi e) 0 of (f1, s1) \<Rightarrow> pack754_double f1 s1) = (f, e)"
proof (cases "0 \<le> e")
  case True
  then obtain k where e: "e = int k" using nonneg_int_cases by blast
  show ?thesis
    using pack754_halve_power [OF assms, of k 0] pack754_double_power [OF assms, of 0 e]
    by (simp add: e power_int_of_nat)
next
  case False
  then obtain k where e: "e = - int k"
    by (metis int_cases2 of_nat_0_le_iff)
  have pw: "f * 2 powi e = f / 2 ^ k"
    by (simp add: e power_int_minus divide_inverse)
  have "f / 2 ^ k \<le> f / 1"
    using assms(1) by (intro divide_left_mono) auto
  then have "pack754_halve (f / 2 ^ k) 0 = (f / 2 ^ k, 0)"
    using assms by (subst pack754_halve.simps) auto
  then show ?thesis
    using pack754_double_power [OF assms, of k 0] unfolding pw by (simp add: e)
qed

lemma normal_fraction:
  assumes "m < 2 ^ 52"
  shows "1 \<le> 1 + (of_nat m :: rat) / 2 ^ 52" and "1 + (of_nat m :: rat) / 2 ^ 52 < 2"
proof -
  have "(of_nat m :: rat) < of_nat (2 ^ 52)" using assms by (simp only: of_nat_less_iff)
  then show "1 + (of_nat m :: rat) / 2 ^ 52 < 2" by simp
qed simp

lemma abs_normal_double:
  "\<bar>normal_double s m e\<bar> = (1 + of_nat m / 2 ^ 52) * 2 powi e"
  by (simp add: normal_double_def abs_mult zero_le_power_int)

lemma normal_double_sign:
  "normal_double s m e \<noteq> 0" "normal_double s m e < 0 \<longleftrightarrow> s"
proof -
  define a where "a = (1 + (of_nat m :: rat) / 2 ^ 52) * 2 powi e"
  have "0 < a"
    unfolding a_def by (intro mult_pos_pos zero_less_power_int add_pos_nonneg) auto
  moreover have "normal_double s m e = (if s then - a else a)"
    by (cases s) (simp_all add: normal_double_def a_def algebra_simps)
  ultimately show "normal_double s m e \<noteq> 0" "normal_double s m e < 0 \<longleftrightarrow> s"
    by auto
qed

lemma pack754_normal:
  assumes "is_normal s m e"
  shows "SOS_buffer_pack754_64 (Fin (normal_double s m e)) = Inr (ieee_bits s m e)"
proof -
  define f where "f = 1 + (of_nat m :: rat) / 2 ^ 52"
  have m: "m < 2 ^ 52" using assms by (simp add: is_normal_def)
  have f: "1 \<le> f" "f < 2" unfolding f_def by (rule normal_fraction [OF m])+
  obtain f1 s1 where 1: "pack754_halve (f * 2 powi e) 0 = (f1, s1)" by fastforce
  with pack754_normalise [OF f, of e]
  have 2: "pack754_double f1 s1 = (f, e)" by simp
  have 3: "\<lfloor>(f - 1) * 2 ^ 52\<rfloor> = int m" by (simp add: f_def)
  have 4: "\<bar>normal_double s m e\<bar> = f * 2 powi e"
    unfolding f_def by (rule abs_normal_double)
  show ?thesis
    unfolding SOS_buffer_pack754_64_def ieee_bits_def
    by (simp only: c_double.case normal_double_sign if_False Let_def 4 1 2 3 prod.case
        of_int_of_nat_eq)
qed

lemma bit_below:
  "n < 2 ^ k \<Longrightarrow> bit (n :: nat) j \<Longrightarrow> j < k"
  by (metis bit_take_bit_iff take_bit_nat_eq_self_iff)

lemma ieee_bits_fields:
  assumes "is_normal s m e"
  shows "ieee_bits s m e AND mask 52 = word_of_nat m"
    and "drop_bit 52 (ieee_bits s m e) AND mask 11 = word_of_int (e + 1023)"
    and "drop_bit 63 (ieee_bits s m e) AND 1 = (if s then 1 else 0)"
proof -
  define n where "n = nat (e + 1023)"
  have n: "word_of_int (e + 1023) = (word_of_nat n :: u64)"
    using assms by (simp add: n_def is_normal_def)
  have nb: "\<And>j. bit n j \<Longrightarrow> j < 11"
    using assms by (intro bit_below [of n 11]) (auto simp: n_def is_normal_def)
  have mb: "\<And>j. bit m j \<Longrightarrow> j < 52"
    using assms by (intro bit_below [of m 52]) (auto simp: is_normal_def)
  show "ieee_bits s m e AND mask 52 = word_of_nat m"
    unfolding ieee_bits_def n
    by (rule bit_word_eqI) (auto simp: bit_simps dest: nb mb)
  show "drop_bit 52 (ieee_bits s m e) AND mask 11 = word_of_int (e + 1023)"
    unfolding ieee_bits_def n
    by (rule bit_word_eqI) (auto simp: bit_simps dest: nb mb)
  show "drop_bit 63 (ieee_bits s m e) AND 1 = (if s then 1 else 0)"
    unfolding ieee_bits_def n
    by (rule bit_word_eqI) (auto simp: bit_simps dest: nb mb)
qed

lemma double_times2_power:
  assumes "1 \<le> f" "f < 2" "k \<le> 1023"
  shows "(double_times2 ^^ k) (Fin f) = Fin (f * 2 ^ k)"
  using assms(3)
proof (induction k)
  case (Suc k)
  then have IH: "(double_times2 ^^ k) (Fin f) = Fin (f * 2 ^ k)" by simp
  have "2 * (f * 2 ^ k) = f * 2 ^ Suc k" by simp
  moreover have "f * 2 ^ Suc k < 2 * 2 ^ Suc k"
    using assms(2) by (rule mult_strict_right_mono) simp
  moreover have "(2 :: rat) * 2 ^ Suc k = 2 ^ Suc (Suc k)" by simp
  moreover have "(2 :: rat) ^ Suc (Suc k) \<le> 2 ^ 1024"
    using Suc.prems by (intro power_increasing) auto
  ultimately have "2 * (f * 2 ^ k) < 2 ^ 1024" by linarith
  moreover have "0 \<le> 2 * (f * 2 ^ k)" using assms(1) by simp
  ultimately have "\<not> 2 ^ 1024 \<le> \<bar>2 * (f * 2 ^ k)\<bar>" by linarith
  then have "double_times2 (Fin (f * 2 ^ k)) = Fin (2 * (f * 2 ^ k))"
    by (simp only: double_times2_def c_double.case if_False)
  then show ?case by (simp add: IH mult.commute)
qed simp

lemma double_div2_power:
  assumes "1 \<le> f" "k \<le> 1022"
  shows "(double_div2 ^^ k) (Fin f) = Fin (f / 2 ^ k)"
  using assms(2)
proof (induction k)
  case (Suc k)
  then have IH: "(double_div2 ^^ k) (Fin f) = Fin (f / 2 ^ k)" by simp
  have eq: "f / 2 ^ k / 2 = f / 2 ^ Suc k" by simp
  have "(1 :: rat) / 2 ^ 1022 \<le> 1 / 2 ^ Suc k"
    using Suc.prems by (intro divide_left_mono power_increasing) auto
  also have "\<dots> \<le> f / 2 ^ Suc k"
    using assms(1) by (intro divide_right_mono) auto
  also have "\<dots> \<le> \<bar>f / 2 ^ Suc k\<bar>" by (rule abs_ge_self)
  finally have "1 / 2 ^ 1022 \<le> \<bar>f / 2 ^ k / 2\<bar>" by (simp only: eq)
  then have "double_div2 (Fin (f / 2 ^ k)) = Fin (f / 2 ^ k / 2)"
    by (simp only: double_div2_def c_double.case if_True)
  then show ?case by (simp add: IH)
qed simp

lemma sint_exponent:
  assumes "- 1022 \<le> e" "e \<le> 1023"
  shows "sint ((word_of_int (e + 1023) :: u64) - 1023) = e"
proof -
  have "(word_of_int (e + 1023) :: u64) - 1023 = word_of_int e" by simp
  then show ?thesis
    using assms by (simp add: sint_sbintrunc' signed_take_bit_int_eq_self)
qed

lemma unpack754_normal:
  assumes "is_normal s m e"
  shows "SOS_buffer_unpack754_64 (ieee_bits s m e) = Fin (normal_double s m e)"
proof -
  define f where "f = (of_nat m :: rat) / 2 ^ 52 + 1"
  have m: "m < 2 ^ 52" and e: "- 1022 \<le> e" "e \<le> 1023"
    using assms by (auto simp: is_normal_def)
  have f: "1 \<le> f" "f < 2"
    using normal_fraction [OF m] unfolding f_def by (simp_all only: add.commute)
  have um: "unat (word_of_nat m :: u64) = m"
    using m by (simp add: unat_of_nat take_bit_nat_eq_self)
  have scaled: "(double_div2 ^^ nat (- e)) ((double_times2 ^^ nat e) (Fin f)) = Fin (f * 2 powi e)"
  proof (cases "0 \<le> e")
    case True
    with e have "nat e \<le> 1023" by simp
    then show ?thesis
      using True double_times2_power [OF f] by (simp add: power_int_def)
  next
    case False
    then obtain k where k: "e = - int k" by (metis int_cases2 of_nat_0_le_iff)
    have "f * 2 powi e = f / 2 ^ k" by (simp add: k power_int_minus divide_inverse)
    moreover have "k \<le> 1022" using e k by simp
    ultimately show ?thesis
      using double_div2_power [OF f(1), of k] by (simp add: k)
  qed
  have nz: "ieee_bits s m e \<noteq> 0"
  proof
    assume "ieee_bits s m e = 0"
    with ieee_bits_fields(2) [OF assms] have "(word_of_int (e + 1023) :: u64) = 0"
      by (simp only: drop_bit_of_0 and_zero_eq) simp
    with sint_exponent [OF e] have "sint ((0 :: u64) - 1023) = e" by (simp only:)
    then show False using e by simp
  qed
  have "normal_double s m e = (if s then - 1 else 1) * f * 2 powi e"
    unfolding normal_double_def f_def by (simp only: add.commute)
  then have sgn: "normal_double s m e = (if s then - (f * 2 powi e) else f * 2 powi e)"
    by simp
  show ?thesis
    unfolding SOS_buffer_unpack754_64_def Let_def ieee_bits_fields [OF assms] sint_exponent [OF e]
      um f_def [symmetric] scaled
    by (simp add: nz sgn double_neg_def)
qed

end
