(* ===== verification/SOS_Types.thy ===== *)
theory SOS_Types
  imports SOS_Float
begin

text \<open>
  The constants of \<open>sos.h\<close> and the data types of \<open>sos_types.h\<close>.

  Every enumeration is a \<open>datatype\<close> with the constructors of the source and the list of its
  values in declaration order, which fixes the integer each constructor stands for. A struct
  field of enumeration type holds whatever 32-bit integer came over the wire, so the records
  keep such fields as \<open>i32\<close>; the interface \<open>c_enum\<close> relates the two views and is
  interpreted for every enumeration.
\<close>

section \<open>Constants\<close>

definition SOS_DEFAULT_BUFFER_MAX :: nat where
  "SOS_DEFAULT_BUFFER_MAX = 4096"

definition SOS_DEFAULT_REPLY_LEN :: nat where
  "SOS_DEFAULT_REPLY_LEN = 1024"

definition SOS_DEFAULT_STRING_LEN :: nat where
  "SOS_DEFAULT_STRING_LEN = 256"

definition SOS_DEFAULT_GUID_BLOCK :: u64 where
  "SOS_DEFAULT_GUID_BLOCK = 8001027"

definition SOS_DEFAULT_ELEM_MAX :: nat where
  "SOS_DEFAULT_ELEM_MAX = 1024"

definition SOS_DEFAULT_TABLE_SIZE :: nat where
  "SOS_DEFAULT_TABLE_SIZE = 655360"

definition SOS_DEFAULT_UID_MAX :: u64 where
  "SOS_DEFAULT_UID_MAX = 9223372036854775807"

definition SOS_VERSION_MAJOR :: i32 where
  "SOS_VERSION_MAJOR = 1"

definition SOS_VERSION_MINOR :: i32 where
  "SOS_VERSION_MINOR = 30"

section \<open>Enumerations\<close>

text \<open>The integer of an enumeration value, and the value of an integer where it has one.\<close>

fun enum_index :: "'e list \<Rightarrow> 'e \<Rightarrow> nat" where
  "enum_index [] e = 0"
| "enum_index (v # vs) e = (if v = e then 0 else Suc (enum_index vs e))"

definition enum_code :: "'e list \<Rightarrow> 'e \<Rightarrow> i32" where
  "enum_code vals e = word_of_nat (enum_index vals e)"

definition enum_decode :: "'e list \<Rightarrow> i32 \<Rightarrow> 'e option" where
  "enum_decode vals w = (if unat w < length vals then Some (vals ! unat w) else None)"

definition SOS_ENUM_IN_RANGE :: "i32 \<Rightarrow> i32 \<Rightarrow> bool" where
  "SOS_ENUM_IN_RANGE v mx \<longleftrightarrow> 0 \<le> sint v \<and> sint v < sint mx"

datatype SOS_role =
    SOS_ROLE_UNASSIGNED
  | SOS_ROLE_CLIENT
  | SOS_ROLE_LISTENER
  | SOS_ROLE_AGGREGATOR
  | SOS_ROLE_ANALYTICS
  | SOS_ROLE_RUNTIME_UTILITY
  | SOS_ROLE_OFFLINE_TEST_MODE
  | SOS_ROLE___MAX

definition SOS_role_vals :: "SOS_role list" where
  "SOS_role_vals = [SOS_ROLE_UNASSIGNED,
     SOS_ROLE_CLIENT,
     SOS_ROLE_LISTENER,
     SOS_ROLE_AGGREGATOR,
     SOS_ROLE_ANALYTICS,
     SOS_ROLE_RUNTIME_UTILITY,
     SOS_ROLE_OFFLINE_TEST_MODE,
     SOS_ROLE___MAX]"

datatype SOS_status =
    SOS_STATUS_INIT
  | SOS_STATUS_RUNNING
  | SOS_STATUS_HALTING
  | SOS_STATUS_SHUTDOWN
  | SOS_STATUS___MAX

definition SOS_status_vals :: "SOS_status list" where
  "SOS_status_vals = [SOS_STATUS_INIT,
     SOS_STATUS_RUNNING,
     SOS_STATUS_HALTING,
     SOS_STATUS_SHUTDOWN,
     SOS_STATUS___MAX]"

datatype SOS_msg_type =
    SOS_MSG_TYPE_NULLMSG
  | SOS_MSG_TYPE_REGISTER
  | SOS_MSG_TYPE_UNREGISTER
  | SOS_MSG_TYPE_GUID_BLOCK
  | SOS_MSG_TYPE_ANNOUNCE
  | SOS_MSG_TYPE_PUBLISH
  | SOS_MSG_TYPE_VAL_SNAPS
  | SOS_MSG_TYPE_ECHO
  | SOS_MSG_TYPE_PROBE
  | SOS_MSG_TYPE_MANIFEST
  | SOS_MSG_TYPE_SHUTDOWN
  | SOS_MSG_TYPE_ACK
  | SOS_MSG_TYPE_CHECK_IN
  | SOS_MSG_TYPE_QUERY
  | SOS_MSG_TYPE_CACHE_GRAB
  | SOS_MSG_TYPE_CACHE_SIZE
  | SOS_MSG_TYPE_FEEDBACK
  | SOS_MSG_TYPE_SENSITIVITY
  | SOS_MSG_TYPE_DESENSITIZE
  | SOS_MSG_TYPE_TRIGGERPULL
  | SOS_MSG_TYPE___MAX

definition SOS_msg_type_vals :: "SOS_msg_type list" where
  "SOS_msg_type_vals = [SOS_MSG_TYPE_NULLMSG,
     SOS_MSG_TYPE_REGISTER,
     SOS_MSG_TYPE_UNREGISTER,
     SOS_MSG_TYPE_GUID_BLOCK,
     SOS_MSG_TYPE_ANNOUNCE,
     SOS_MSG_TYPE_PUBLISH,
     SOS_MSG_TYPE_VAL_SNAPS,
     SOS_MSG_TYPE_ECHO,
     SOS_MSG_TYPE_PROBE,
     SOS_MSG_TYPE_MANIFEST,
     SOS_MSG_TYPE_SHUTDOWN,
     SOS_MSG_TYPE_ACK,
     SOS_MSG_TYPE_CHECK_IN,
     SOS_MSG_TYPE_QUERY,
     SOS_MSG_TYPE_CACHE_GRAB,
     SOS_MSG_TYPE_CACHE_SIZE,
     SOS_MSG_TYPE_FEEDBACK,
     SOS_MSG_TYPE_SENSITIVITY,
     SOS_MSG_TYPE_DESENSITIZE,
     SOS_MSG_TYPE_TRIGGERPULL,
     SOS_MSG_TYPE___MAX]"

datatype SOS_receives =
    SOS_RECEIVES_DIRECT_MESSAGES
  | SOS_RECEIVES_NO_FEEDBACK
  | SOS_RECEIVES_DAEMON_MODE
  | SOS_RECEIVES___MAX

definition SOS_receives_vals :: "SOS_receives list" where
  "SOS_receives_vals = [SOS_RECEIVES_DIRECT_MESSAGES,
     SOS_RECEIVES_NO_FEEDBACK,
     SOS_RECEIVES_DAEMON_MODE,
     SOS_RECEIVES___MAX]"

datatype SOS_feedback_type =
    SOS_FEEDBACK_TYPE_PAYLOAD
  | SOS_FEEDBACK_TYPE_QUERY
  | SOS_FEEDBACK_TYPE_CACHE
  | SOS_FEEDBACK_TYPE___MAX

definition SOS_feedback_type_vals :: "SOS_feedback_type list" where
  "SOS_feedback_type_vals = [SOS_FEEDBACK_TYPE_PAYLOAD,
     SOS_FEEDBACK_TYPE_QUERY,
     SOS_FEEDBACK_TYPE_CACHE,
     SOS_FEEDBACK_TYPE___MAX]"

datatype SOS_pub_option =
    SOS_PUB_OPTION_CACHE
  | SOS_PUB_OPTION___MAX

definition SOS_pub_option_vals :: "SOS_pub_option list" where
  "SOS_pub_option_vals = [SOS_PUB_OPTION_CACHE,
     SOS_PUB_OPTION___MAX]"

datatype SOS_query_state =
    SOS_QUERY_STATE_INCOMING
  | SOS_QUERY_STATE_PENDING
  | SOS_QUERY_STATE_PROCESSED
  | SOS_QUERY_STATE_REPLIED
  | SOS_QUERY_STATE___MAX

definition SOS_query_state_vals :: "SOS_query_state list" where
  "SOS_query_state_vals = [SOS_QUERY_STATE_INCOMING,
     SOS_QUERY_STATE_PENDING,
     SOS_QUERY_STATE_PROCESSED,
     SOS_QUERY_STATE_REPLIED,
     SOS_QUERY_STATE___MAX]"

datatype SOS_pri =
    SOS_PRI_DEFAULT
  | SOS_PRI_LOW
  | SOS_PRI_IMMEDIATE
  | SOS_PRI___MAX

definition SOS_pri_vals :: "SOS_pri list" where
  "SOS_pri_vals = [SOS_PRI_DEFAULT,
     SOS_PRI_LOW,
     SOS_PRI_IMMEDIATE,
     SOS_PRI___MAX]"

datatype SOS_geometry =
    SOS_GEOMETRY_POINT
  | SOS_GEOMETRY_HEXAHEDRON
  | SOS_GEOMETRY___MAX

definition SOS_geometry_vals :: "SOS_geometry list" where
  "SOS_geometry_vals = [SOS_GEOMETRY_POINT,
     SOS_GEOMETRY_HEXAHEDRON,
     SOS_GEOMETRY___MAX]"

datatype SOS_val_type =
    SOS_VAL_TYPE_INT
  | SOS_VAL_TYPE_LONG
  | SOS_VAL_TYPE_DOUBLE
  | SOS_VAL_TYPE_STRING
  | SOS_VAL_TYPE_BYTES
  | SOS_VAL_TYPE___MAX

definition SOS_val_type_vals :: "SOS_val_type list" where
  "SOS_val_type_vals = [SOS_VAL_TYPE_INT,
     SOS_VAL_TYPE_LONG,
     SOS_VAL_TYPE_DOUBLE,
     SOS_VAL_TYPE_STRING,
     SOS_VAL_TYPE_BYTES,
     SOS_VAL_TYPE___MAX]"

datatype SOS_val_sync =
    SOS_VAL_SYNC_DEFAULT
  | SOS_VAL_SYNC_RENEW
  | SOS_VAL_SYNC_LOCAL
  | SOS_VAL_SYNC_CLOUD
  | SOS_VAL_SYNC___MAX

definition SOS_val_sync_vals :: "SOS_val_sync list" where
  "SOS_val_sync_vals = [SOS_VAL_SYNC_DEFAULT,
     SOS_VAL_SYNC_RENEW,
     SOS_VAL_SYNC_LOCAL,
     SOS_VAL_SYNC_CLOUD,
     SOS_VAL_SYNC___MAX]"

datatype SOS_val_state =
    SOS_VAL_STATE_CLEAN
  | SOS_VAL_STATE_DIRTY
  | SOS_VAL_STATE_EMPTY
  | SOS_VAL_STATE___MAX

definition SOS_val_state_vals :: "SOS_val_state list" where
  "SOS_val_state_vals = [SOS_VAL_STATE_CLEAN,
     SOS_VAL_STATE_DIRTY,
     SOS_VAL_STATE_EMPTY,
     SOS_VAL_STATE___MAX]"

datatype SOS_val_class =
    SOS_VAL_CLASS_DATA
  | SOS_VAL_CLASS_EVENT
  | SOS_VAL_CLASS___MAX

definition SOS_val_class_vals :: "SOS_val_class list" where
  "SOS_val_class_vals = [SOS_VAL_CLASS_DATA,
     SOS_VAL_CLASS_EVENT,
     SOS_VAL_CLASS___MAX]"

datatype SOS_val_semantic =
    SOS_VAL_SEMANTIC_DEFAULT
  | SOS_VAL_SEMANTIC_TIME_START
  | SOS_VAL_SEMANTIC_TIME_STOP
  | SOS_VAL_SEMANTIC_TIME_STAMP
  | SOS_VAL_SEMANTIC_TIME_SPAN
  | SOS_VAL_SEMANTIC_SAMPLE
  | SOS_VAL_SEMANTIC_COUNTER
  | SOS_VAL_SEMANTIC_LOG
  | SOS_VAL_SEMANTIC___MAX

definition SOS_val_semantic_vals :: "SOS_val_semantic list" where
  "SOS_val_semantic_vals = [SOS_VAL_SEMANTIC_DEFAULT,
     SOS_VAL_SEMANTIC_TIME_START,
     SOS_VAL_SEMANTIC_TIME_STOP,
     SOS_VAL_SEMANTIC_TIME_STAMP,
     SOS_VAL_SEMANTIC_TIME_SPAN,
     SOS_VAL_SEMANTIC_SAMPLE,
     SOS_VAL_SEMANTIC_COUNTER,
     SOS_VAL_SEMANTIC_LOG,
     SOS_VAL_SEMANTIC___MAX]"

datatype SOS_val_freq =
    SOS_VAL_FREQ_DEFAULT
  | SOS_VAL_FREQ_RARE
  | SOS_VAL_FREQ_COMMON
  | SOS_VAL_FREQ_CONTINUOUS
  | SOS_VAL_FREQ_IRREGULAR
  | SOS_VAL_FREQ___MAX

definition SOS_val_freq_vals :: "SOS_val_freq list" where
  "SOS_val_freq_vals = [SOS_VAL_FREQ_DEFAULT,
     SOS_VAL_FREQ_RARE,
     SOS_VAL_FREQ_COMMON,
     SOS_VAL_FREQ_CONTINUOUS,
     SOS_VAL_FREQ_IRREGULAR,
     SOS_VAL_FREQ___MAX]"

datatype SOS_val_pattern =
    SOS_VAL_PATTERN_DEFAULT
  | SOS_VAL_PATTERN_STATIC
  | SOS_VAL_PATTERN_RISING
  | SOS_VAL_PATTERN_PLATEAU
  | SOS_VAL_PATTERN_OSCILLATING
  | SOS_VAL_PATTERN_ARC
  | SOS_VAL_PATTERN___MAX

definition SOS_val_pattern_vals :: "SOS_val_pattern list" where
  "SOS_val_pattern_vals = [SOS_VAL_PATTERN_DEFAULT,
     SOS_VAL_PATTERN_STATIC,
     SOS_VAL_PATTERN_RISING,
     SOS_VAL_PATTERN_PLATEAU,
     SOS_VAL_PATTERN_OSCILLATING,
     SOS_VAL_PATTERN_ARC,
     SOS_VAL_PATTERN___MAX]"

datatype SOS_regex_rule =
    SOS_REGEX_UNUSED
  | SOS_REGEX_DOT
  | SOS_REGEX_BEGIN
  | SOS_REGEX_END
  | SOS_REGEX_QUESTIONMARK
  | SOS_REGEX_STAR
  | SOS_REGEX_PLUS
  | SOS_REGEX_CHAR
  | SOS_REGEX_CHAR_CLASS
  | SOS_REGEX_INV_CHAR_CLASS
  | SOS_REGEX_DIGIT
  | SOS_REGEX_NOT_DIGIT
  | SOS_REGEX_ALPHA
  | SOS_REGEX_NOT_ALPHA
  | SOS_REGEX_WHITESPACE
  | SOS_REGEX_NOT_WHITESPACE
  | SOS_REGEX___MAX

definition SOS_regex_rule_vals :: "SOS_regex_rule list" where
  "SOS_regex_rule_vals = [SOS_REGEX_UNUSED,
     SOS_REGEX_DOT,
     SOS_REGEX_BEGIN,
     SOS_REGEX_END,
     SOS_REGEX_QUESTIONMARK,
     SOS_REGEX_STAR,
     SOS_REGEX_PLUS,
     SOS_REGEX_CHAR,
     SOS_REGEX_CHAR_CLASS,
     SOS_REGEX_INV_CHAR_CLASS,
     SOS_REGEX_DIGIT,
     SOS_REGEX_NOT_DIGIT,
     SOS_REGEX_ALPHA,
     SOS_REGEX_NOT_ALPHA,
     SOS_REGEX_WHITESPACE,
     SOS_REGEX_NOT_WHITESPACE,
     SOS_REGEX___MAX]"

datatype SOS_val_compare =
    SOS_VAL_COMPARE_SELF
  | SOS_VAL_COMPARE_RELATIONS
  | SOS_VAL_COMPARE___MAX

definition SOS_val_compare_vals :: "SOS_val_compare list" where
  "SOS_val_compare_vals = [SOS_VAL_COMPARE_SELF,
     SOS_VAL_COMPARE_RELATIONS,
     SOS_VAL_COMPARE___MAX]"

datatype SOS_scope =
    SOS_SCOPE_DEFAULT
  | SOS_SCOPE_SELF
  | SOS_SCOPE_NODE
  | SOS_SCOPE_AGGREGATOR
  | SOS_SCOPE_GLOBAL
  | SOS_SCOPE___MAX

definition SOS_scope_vals :: "SOS_scope list" where
  "SOS_scope_vals = [SOS_SCOPE_DEFAULT,
     SOS_SCOPE_SELF,
     SOS_SCOPE_NODE,
     SOS_SCOPE_AGGREGATOR,
     SOS_SCOPE_GLOBAL,
     SOS_SCOPE___MAX]"

datatype SOS_layer =
    SOS_LAYER_DEFAULT
  | SOS_LAYER_APP
  | SOS_LAYER_OS
  | SOS_LAYER_LIB
  | SOS_LAYER_ENVIRONMENT
  | SOS_LAYER_SOS_RUNTIME
  | SOS_LAYER___MAX

definition SOS_layer_vals :: "SOS_layer list" where
  "SOS_layer_vals = [SOS_LAYER_DEFAULT,
     SOS_LAYER_APP,
     SOS_LAYER_OS,
     SOS_LAYER_LIB,
     SOS_LAYER_ENVIRONMENT,
     SOS_LAYER_SOS_RUNTIME,
     SOS_LAYER___MAX]"

datatype SOS_nature =
    SOS_NATURE_DEFAULT
  | SOS_NATURE_DAEMON_INTERNAL
  | SOS_NATURE_CREATE_INPUT
  | SOS_NATURE_CREATE_OUTPUT
  | SOS_NATURE_CREATE_VIZ
  | SOS_NATURE_EXEC_WORK
  | SOS_NATURE_BUFFER
  | SOS_NATURE_SUPPORT_EXEC
  | SOS_NATURE_SUPPORT_FLOW
  | SOS_NATURE_CONTROL_FLOW
  | SOS_NATURE_SOS
  | SOS_NATURE___MAX

definition SOS_nature_vals :: "SOS_nature list" where
  "SOS_nature_vals = [SOS_NATURE_DEFAULT,
     SOS_NATURE_DAEMON_INTERNAL,
     SOS_NATURE_CREATE_INPUT,
     SOS_NATURE_CREATE_OUTPUT,
     SOS_NATURE_CREATE_VIZ,
     SOS_NATURE_EXEC_WORK,
     SOS_NATURE_BUFFER,
     SOS_NATURE_SUPPORT_EXEC,
     SOS_NATURE_SUPPORT_FLOW,
     SOS_NATURE_CONTROL_FLOW,
     SOS_NATURE_SOS,
     SOS_NATURE___MAX]"

datatype SOS_retain =
    SOS_RETAIN_DEFAULT
  | SOS_RETAIN_SESSION
  | SOS_RETAIN_IMMEDIATE
  | SOS_RETAIN___MAX

definition SOS_retain_vals :: "SOS_retain list" where
  "SOS_retain_vals = [SOS_RETAIN_DEFAULT,
     SOS_RETAIN_SESSION,
     SOS_RETAIN_IMMEDIATE,
     SOS_RETAIN___MAX]"

datatype SOS_locale =
    SOS_LOCALE_DEFAULT
  | SOS_LOCALE_INDEPENDENT
  | SOS_LOCALE_DAEMON_DBMS
  | SOS_LOCALE_APPLICATION
  | SOS_LOCALE___MAX

definition SOS_locale_vals :: "SOS_locale list" where
  "SOS_locale_vals = [SOS_LOCALE_DEFAULT,
     SOS_LOCALE_INDEPENDENT,
     SOS_LOCALE_DAEMON_DBMS,
     SOS_LOCALE_APPLICATION,
     SOS_LOCALE___MAX]"

section \<open>The enumeration interface\<close>

text \<open>
  What the code relies on when it sends an enumeration value as an integer and switches on the
  integer it receives: every value has one integer, and integers below the count decode.
\<close>

locale c_enum =
  fixes vals :: "'e list"
  assumes vals_distinct: "distinct vals"
    and vals_all: "set vals = UNIV"
    and vals_small: "length vals \<le> 2 ^ 31"
begin

lemma index_less: "enum_index vals e < length vals \<and> vals ! enum_index vals e = e"
proof -
  have "e \<in> set xs \<Longrightarrow> enum_index xs e < length xs \<and> xs ! enum_index xs e = e" for xs
    by (induction xs) auto
  then show ?thesis using vals_all by blast
qed

lemma index_nth: "i < length vals \<Longrightarrow> enum_index vals (vals ! i) = i"
  using index_less [of "vals ! i"] vals_distinct by (metis nth_eq_iff_index_eq)

lemma unat_code: "unat (enum_code vals e) = enum_index vals e"
proof -
  have "enum_index vals e < 2 ^ 32"
    using index_less [of e] vals_small by (auto intro: less_le_trans)
  then show ?thesis by (simp add: enum_code_def)
qed

lemma decode_code: "enum_decode vals (enum_code vals e) = Some e"
  using index_less [of e] by (simp add: enum_decode_def unat_code)

lemma code_inject: "enum_code vals e = enum_code vals e' \<longleftrightarrow> e = e'"
  by (metis decode_code option.inject)

lemma decode_Some_iff: "enum_decode vals w = Some e \<longleftrightarrow> w = enum_code vals e"
proof
  assume *: "enum_decode vals w = Some e"
  then have w: "unat w < length vals" "vals ! unat w = e"
    by (auto simp: enum_decode_def split: if_splits)
  then have "enum_index vals e = unat w"
    using index_nth by blast
  then show "w = enum_code vals e" by (simp add: enum_code_def)
qed (simp add: decode_code)

text \<open>The range macro accepts exactly the integers of the constructors below the bound.\<close>

lemma in_range_iff:
  "SOS_ENUM_IN_RANGE w (enum_code vals m) \<longleftrightarrow>
     (\<exists>e. w = enum_code vals e \<and> enum_index vals e < enum_index vals m)"
proof -
  have m: "enum_index vals m < 2 ^ 31"
    using index_less [of m] vals_small by simp
  then have sm: "sint (enum_code vals m) = int (enum_index vals m)"
    by (simp add: enum_code_def sint_word_of_nat_small)
  have "SOS_ENUM_IN_RANGE w (enum_code vals m) \<longleftrightarrow> unat w < enum_index vals m"
    unfolding SOS_ENUM_IN_RANGE_def sm sint_i32_nonneg using m
    by (cases "unat w < 2 ^ 31") (simp_all add: sint_i32 del: of_nat_unat)
  also have "\<dots> \<longleftrightarrow> (\<exists>e. enum_decode vals w = Some e \<and> enum_index vals e < enum_index vals m)"
    using index_less [of m] by (auto simp: enum_decode_def index_nth)
  finally show ?thesis by (simp add: decode_Some_iff)
qed

end

interpretation SOS_role_enum: c_enum SOS_role_vals
  by unfold_locales (auto simp: SOS_role_vals_def intro: SOS_role.exhaust)

interpretation SOS_status_enum: c_enum SOS_status_vals
  by unfold_locales (auto simp: SOS_status_vals_def intro: SOS_status.exhaust)

interpretation SOS_msg_type_enum: c_enum SOS_msg_type_vals
  by unfold_locales (auto simp: SOS_msg_type_vals_def intro: SOS_msg_type.exhaust)

interpretation SOS_receives_enum: c_enum SOS_receives_vals
  by unfold_locales (auto simp: SOS_receives_vals_def intro: SOS_receives.exhaust)

interpretation SOS_feedback_type_enum: c_enum SOS_feedback_type_vals
  by unfold_locales (auto simp: SOS_feedback_type_vals_def intro: SOS_feedback_type.exhaust)

interpretation SOS_pub_option_enum: c_enum SOS_pub_option_vals
  by unfold_locales (auto simp: SOS_pub_option_vals_def intro: SOS_pub_option.exhaust)

interpretation SOS_query_state_enum: c_enum SOS_query_state_vals
  by unfold_locales (auto simp: SOS_query_state_vals_def intro: SOS_query_state.exhaust)

interpretation SOS_pri_enum: c_enum SOS_pri_vals
  by unfold_locales (auto simp: SOS_pri_vals_def intro: SOS_pri.exhaust)

interpretation SOS_geometry_enum: c_enum SOS_geometry_vals
  by unfold_locales (auto simp: SOS_geometry_vals_def intro: SOS_geometry.exhaust)

interpretation SOS_val_type_enum: c_enum SOS_val_type_vals
  by unfold_locales (auto simp: SOS_val_type_vals_def intro: SOS_val_type.exhaust)

interpretation SOS_val_sync_enum: c_enum SOS_val_sync_vals
  by unfold_locales (auto simp: SOS_val_sync_vals_def intro: SOS_val_sync.exhaust)

interpretation SOS_val_state_enum: c_enum SOS_val_state_vals
  by unfold_locales (auto simp: SOS_val_state_vals_def intro: SOS_val_state.exhaust)

interpretation SOS_val_class_enum: c_enum SOS_val_class_vals
  by unfold_locales (auto simp: SOS_val_class_vals_def intro: SOS_val_class.exhaust)

interpretation SOS_val_semantic_enum: c_enum SOS_val_semantic_vals
  by unfold_locales (auto simp: SOS_val_semantic_vals_def intro: SOS_val_semantic.exhaust)

interpretation SOS_val_freq_enum: c_enum SOS_val_freq_vals
  by unfold_locales (auto simp: SOS_val_freq_vals_def intro: SOS_val_freq.exhaust)

interpretation SOS_val_pattern_enum: c_enum SOS_val_pattern_vals
  by unfold_locales (auto simp: SOS_val_pattern_vals_def intro: SOS_val_pattern.exhaust)

interpretation SOS_regex_rule_enum: c_enum SOS_regex_rule_vals
  by unfold_locales (auto simp: SOS_regex_rule_vals_def intro: SOS_regex_rule.exhaust)

interpretation SOS_val_compare_enum: c_enum SOS_val_compare_vals
  by unfold_locales (auto simp: SOS_val_compare_vals_def intro: SOS_val_compare.exhaust)

interpretation SOS_scope_enum: c_enum SOS_scope_vals
  by unfold_locales (auto simp: SOS_scope_vals_def intro: SOS_scope.exhaust)

interpretation SOS_layer_enum: c_enum SOS_layer_vals
  by unfold_locales (auto simp: SOS_layer_vals_def intro: SOS_layer.exhaust)

interpretation SOS_nature_enum: c_enum SOS_nature_vals
  by unfold_locales (auto simp: SOS_nature_vals_def intro: SOS_nature.exhaust)

interpretation SOS_retain_enum: c_enum SOS_retain_vals
  by unfold_locales (auto simp: SOS_retain_vals_def intro: SOS_retain.exhaust)

interpretation SOS_locale_enum: c_enum SOS_locale_vals
  by unfold_locales (auto simp: SOS_locale_vals_def intro: SOS_locale.exhaust)

end
