(* ===== verification/SOS_Buffer.thy ===== *)
theory SOS_Buffer
  imports SOS_Types
begin

text \<open>
  The serialisation buffer (\<open>sos_buffer.c\<close>, \<open>sos_buffer.h\<close>): its life cycle, its growth,
  the format-driven \<open>SOS_buffer_pack\<close> and \<open>SOS_buffer_unpack\<close> with the cursor and the
  running counts they keep, and the round trip between the two.

  The block \<open>data\<close> points to is the list \<open>buf_data\<close>; its allocated size is the length of
  the list and \<open>buf_max\<close> is the size the struct records. An allocation succeeds as long as the
  new size fits the \<open>int\<close> field \<open>max\<close>. A mutex is one bit: locking a held one blocks the
  only thread there is (\<open>Deadlock\<close>). The diagnostics (\<open>dlog\<close>) and the daemon's statistics
  counters (\<open>SOSD_countof\<close>) are left out.
\<close>

unbundle bit_operations_syntax

section \<open>The buffer object\<close>

record SOS_buffer =
  buf_is_locking :: bool
  buf_is_zipped :: bool
  buf_lock :: bool
  buf_data :: "byte list"
  buf_len :: nat
  buf_max :: nat

definition buffer_wf :: "SOS_buffer \<Rightarrow> bool" where
  "buffer_wf b \<longleftrightarrow> length (buf_data b) = buf_max b \<and> buf_len b \<le> buf_max b \<and> buf_max b \<le> INT_MAX"

definition SOS_buffer_init_sized_locking :: "nat \<Rightarrow> bool \<Rightarrow> SOS_buffer" where
  "SOS_buffer_init_sized_locking max_size locking =
     \<lparr>buf_is_locking = locking, buf_is_zipped = False, buf_lock = False,
      buf_data = replicate max_size 0, buf_len = 0, buf_max = max_size\<rparr>"

definition SOS_buffer_init :: SOS_buffer where
  "SOS_buffer_init = SOS_buffer_init_sized_locking SOS_DEFAULT_BUFFER_MAX True"

definition SOS_buffer_init_sized :: "nat \<Rightarrow> SOS_buffer" where
  "SOS_buffer_init_sized max_size = SOS_buffer_init_sized_locking max_size True"

definition SOS_buffer_clone :: "SOS_buffer \<Rightarrow> SOS_buffer res" where
  "SOS_buffer_clone src =
     checkR (buf_max src + 1 \<le> INT_MAX) Size_Overflow
       (let new = SOS_buffer_init_sized_locking (buf_max src + 1) (buf_is_locking src)
        in bindR (mem_read 0 (buf_len src) (buf_data src)) (\<lambda>bs.
           bindR (mem_write 0 bs (buf_data new)) (\<lambda>d.
           Inr (new\<lparr>buf_len := buf_len src, buf_data := d\<rparr>))))"

definition SOS_buffer_lock :: "SOS_buffer \<Rightarrow> SOS_buffer res" where
  "SOS_buffer_lock b =
     (if buf_is_locking b then checkR (\<not> buf_lock b) Deadlock (Inr (b\<lparr>buf_lock := True\<rparr>))
      else Inr b)"

definition SOS_buffer_unlock :: "SOS_buffer \<Rightarrow> SOS_buffer" where
  "SOS_buffer_unlock b = (if buf_is_locking b then b\<lparr>buf_lock := False\<rparr> else b)"

text \<open>The context is read from the buffer before the test for \<open>NULL\<close>.\<close>

definition SOS_buffer_destroy :: "SOS_buffer option \<Rightarrow> unit res" where
  "SOS_buffer_destroy buffer =
     (case buffer of
        None \<Rightarrow> Inl Null_Deref
      | Some b \<Rightarrow> if buf_is_locking b then bindR (SOS_buffer_lock b) (\<lambda>_. Inr ()) else Inr ())"

definition SOS_buffer_wipe :: "SOS_buffer \<Rightarrow> SOS_buffer" where
  "SOS_buffer_wipe b = b\<lparr>buf_data := replicate (buf_max b) 0, buf_len := 0\<rparr>"

definition SOS_buffer_grow :: "SOS_buffer \<Rightarrow> nat \<Rightarrow> SOS_buffer res" where
  "SOS_buffer_grow b grow_amount =
     (let amount = grow_amount + 1
      in checkR (buf_max b + amount \<le> INT_MAX) Size_Overflow
           (Inr (b\<lparr>buf_max := buf_max b + amount, buf_data := buf_data b @ replicate amount 0\<rparr>)))"

text \<open>
  \<open>realloc\<close> to a larger size leaves the new bytes undetermined (\<open>junk\<close>), and to size 0
  returns \<open>NULL\<close>.
\<close>

definition SOS_buffer_trim :: "(nat \<Rightarrow> byte) \<Rightarrow> SOS_buffer \<Rightarrow> nat \<Rightarrow> SOS_buffer res" where
  "SOS_buffer_trim junk b to_new_max =
     (if buf_max b = to_new_max then Inr b
      else if to_new_max = 0 then Inl Exit_Failure
      else checkR (to_new_max \<le> INT_MAX) Size_Overflow
        (Inr (b\<lparr>buf_data := take to_new_max (buf_data b) @ map junk [buf_max b ..< to_new_max],
                buf_max := to_new_max\<rparr>)))"

section \<open>Big-endian integers\<close>

definition SOS_buffer_packi32 :: "i32 \<Rightarrow> byte list" where
  "SOS_buffer_packi32 i = [ucast (drop_bit 24 i), ucast (drop_bit 16 i), ucast (drop_bit 8 i), ucast i]"

definition SOS_buffer_packi64 :: "i64 \<Rightarrow> byte list" where
  "SOS_buffer_packi64 i =
     [ucast (drop_bit 56 i), ucast (drop_bit 48 i), ucast (drop_bit 40 i), ucast (drop_bit 32 i),
      ucast (drop_bit 24 i), ucast (drop_bit 16 i), ucast (drop_bit 8 i), ucast i]"

definition SOS_buffer_packguid :: "u64 \<Rightarrow> byte list" where
  "SOS_buffer_packguid g =
     [ucast (drop_bit 56 g), ucast (drop_bit 48 g), ucast (drop_bit 40 g), ucast (drop_bit 32 g),
      ucast (drop_bit 24 g), ucast (drop_bit 16 g), ucast (drop_bit 8 g), ucast g]"

text \<open>
  The unpackers read at position \<open>p\<close> of a block. The signed ones assemble an unsigned word and
  then change it to a signed one by arithmetic on \<open>long\<close>; \<open>to_signed\<close> is that arithmetic,
  over the integers, with the conversion back to the result type.
\<close>

definition be_bytes :: "byte list \<Rightarrow> nat \<Rightarrow> 'a::len word" where
  "be_bytes bs i = ucast (bs ! i)"

definition to_signed :: "'a::len word \<Rightarrow> int" where
  "to_signed i2 =
     (if uint i2 \<le> 2 ^ (LENGTH('a) - 1) - 1 then uint i2
      else - 1 - (2 ^ LENGTH('a) - 1 - uint i2))"

definition SOS_buffer_unpacki32 :: "nat \<Rightarrow> byte list \<Rightarrow> i32 res" where
  "SOS_buffer_unpacki32 p m = bindR (mem_read p 4 m) (\<lambda>bs.
     let i2 = push_bit 24 (be_bytes bs 0) OR push_bit 16 (be_bytes bs 1) OR
              push_bit 8 (be_bytes bs 2) OR be_bytes bs 3 :: u32
     in Inr (word_of_int (to_signed i2)))"

definition SOS_buffer_unpacku64 :: "nat \<Rightarrow> byte list \<Rightarrow> u64 res" where
  "SOS_buffer_unpacku64 p m = bindR (mem_read p 8 m) (\<lambda>bs.
     Inr (push_bit 56 (be_bytes bs 0) OR push_bit 48 (be_bytes bs 1) OR
          push_bit 40 (be_bytes bs 2) OR push_bit 32 (be_bytes bs 3) OR
          push_bit 24 (be_bytes bs 4) OR push_bit 16 (be_bytes bs 5) OR
          push_bit 8 (be_bytes bs 6) OR be_bytes bs 7))"

definition SOS_buffer_unpackguid :: "nat \<Rightarrow> byte list \<Rightarrow> u64 res" where
  "SOS_buffer_unpackguid p m = bindR (mem_read p 8 m) (\<lambda>bs.
     Inr (push_bit 56 (be_bytes bs 0) OR push_bit 48 (be_bytes bs 1) OR
          push_bit 40 (be_bytes bs 2) OR push_bit 32 (be_bytes bs 3) OR
          push_bit 24 (be_bytes bs 4) OR push_bit 16 (be_bytes bs 5) OR
          push_bit 8 (be_bytes bs 6) OR be_bytes bs 7))"

definition SOS_buffer_unpacki64 :: "nat \<Rightarrow> byte list \<Rightarrow> i64 res" where
  "SOS_buffer_unpacki64 p m = bindR (mem_read p 8 m) (\<lambda>bs.
     let i2 = push_bit 56 (be_bytes bs 0) OR push_bit 48 (be_bytes bs 1) OR
              push_bit 40 (be_bytes bs 2) OR push_bit 32 (be_bytes bs 3) OR
              push_bit 24 (be_bytes bs 4) OR push_bit 16 (be_bytes bs 5) OR
              push_bit 8 (be_bytes bs 6) OR be_bytes bs 7 :: u64
     in Inr (word_of_int (to_signed i2)))"

lemma to_signed_id: "word_of_int (to_signed w) = (w :: 'a::len word)"
  by (auto simp: to_signed_def)

text \<open>Byte \<open>k div 8\<close> of a word, put back where it came from, holds the bits from \<open>k\<close> on.\<close>

lemma bit_byte_at:
  "bit (push_bit k (ucast (ucast (drop_bit k i) :: byte)) :: 'a::len word) n \<longleftrightarrow>
     k \<le> n \<and> n < k + 8 \<and> bit (i :: 'a word) n"
  using bit_imp_le_length [of i n] by (cases "k \<le> n") (auto simp: bit_simps)

lemma bit_byte_0: "bit (ucast (ucast i :: byte) :: 'a::len word) n \<longleftrightarrow> n < 8 \<and> bit (i :: 'a word) n"
  using bit_byte_at [of 0 i n] by simp

lemma be32_assemble:
  "push_bit 24 (ucast (ucast (drop_bit 24 i) :: byte)) OR push_bit 16 (ucast (ucast (drop_bit 16 i) :: byte)) OR
   push_bit 8 (ucast (ucast (drop_bit 8 i) :: byte)) OR ucast (ucast i :: byte) = (i :: 32 word)"
  (is "?l = i")
proof (rule bit_word_eqI)
  fix n :: nat
  assume "n < LENGTH(32)"
  then have "(24 \<le> n \<and> n < 24 + 8) \<or> (16 \<le> n \<and> n < 16 + 8) \<or> (8 \<le> n \<and> n < 8 + 8) \<or> n < 8"
    by simp arith
  then show "bit ?l n = bit i n"
    unfolding bit_or_iff bit_byte_at bit_byte_0 by blast
qed

lemma be64_assemble:
  "push_bit 56 (ucast (ucast (drop_bit 56 i) :: byte)) OR push_bit 48 (ucast (ucast (drop_bit 48 i) :: byte)) OR
   push_bit 40 (ucast (ucast (drop_bit 40 i) :: byte)) OR push_bit 32 (ucast (ucast (drop_bit 32 i) :: byte)) OR
   push_bit 24 (ucast (ucast (drop_bit 24 i) :: byte)) OR push_bit 16 (ucast (ucast (drop_bit 16 i) :: byte)) OR
   push_bit 8 (ucast (ucast (drop_bit 8 i) :: byte)) OR ucast (ucast i :: byte) = (i :: 64 word)"
  (is "?l = i")
proof (rule bit_word_eqI)
  fix n :: nat
  assume "n < LENGTH(64)"
  then have "(56 \<le> n \<and> n < 56 + 8) \<or> (48 \<le> n \<and> n < 48 + 8) \<or> (40 \<le> n \<and> n < 40 + 8) \<or>
      (32 \<le> n \<and> n < 32 + 8) \<or> (24 \<le> n \<and> n < 24 + 8) \<or> (16 \<le> n \<and> n < 16 + 8) \<or>
      (8 \<le> n \<and> n < 8 + 8) \<or> n < 8"
    by simp arith
  then show "bit ?l n = bit i n"
    unfolding bit_or_iff bit_byte_at bit_byte_0 by blast
qed

subsection \<open>The field interface\<close>

text \<open>
  What a reader relies on for one field: the encoding has a fixed width, and decoding at the
  position where an encoding lies gives back the value, whatever surrounds it.
\<close>

locale field_codec =
  fixes enc :: "'a \<Rightarrow> byte list" and dec :: "nat \<Rightarrow> byte list \<Rightarrow> 'a res" and width :: nat
  assumes length_enc: "length (enc x) = width"
    and dec_enc: "mem_at p (enc x) m \<Longrightarrow> dec p m = Inr x"
    and dec_oob: "length m < p + width \<Longrightarrow> dec p m = Inl Out_Of_Bounds"
begin

lemma dec_written: "mem_write p (enc x) m = Inr m' \<Longrightarrow> dec p m' = Inr x"
  by (rule dec_enc) (rule mem_at_write)

lemma dec_append: "dec (length xs) (xs @ enc x @ ys) = Inr x"
  by (rule dec_enc) (simp add: mem_at_def)

lemma enc_inject: "enc x = enc y \<longleftrightarrow> x = y"
  by (metis dec_append sum.inject(2))

end

lemma length_packi32 [simp]: "length (SOS_buffer_packi32 i) = 4"
  and length_packi64 [simp]: "length (SOS_buffer_packi64 l) = 8"
  and length_packguid [simp]: "length (SOS_buffer_packguid g) = 8"
  by (simp_all add: SOS_buffer_packi32_def SOS_buffer_packi64_def SOS_buffer_packguid_def)

interpretation codec_i32: field_codec SOS_buffer_packi32 SOS_buffer_unpacki32 4
proof
  fix p x m assume "mem_at p (SOS_buffer_packi32 x) m"
  then have "mem_read p 4 m = Inr (SOS_buffer_packi32 x)"
    by (rule mem_at_read_n) simp
  then show "SOS_buffer_unpacki32 p m = Inr x"
    by (simp add: SOS_buffer_unpacki32_def SOS_buffer_packi32_def be_bytes_def to_signed_id
        be32_assemble Let_def)
qed (simp_all add: SOS_buffer_unpacki32_def mem_read_oob)

interpretation codec_i64: field_codec SOS_buffer_packi64 SOS_buffer_unpacki64 8
proof
  fix p x m assume "mem_at p (SOS_buffer_packi64 x) m"
  then have "mem_read p 8 m = Inr (SOS_buffer_packi64 x)"
    by (rule mem_at_read_n) simp
  then show "SOS_buffer_unpacki64 p m = Inr x"
    by (simp add: SOS_buffer_unpacki64_def SOS_buffer_packi64_def be_bytes_def to_signed_id
        be64_assemble Let_def)
qed (simp_all add: SOS_buffer_unpacki64_def mem_read_oob)

interpretation codec_guid: field_codec SOS_buffer_packguid SOS_buffer_unpackguid 8
proof
  fix p x m assume "mem_at p (SOS_buffer_packguid x) m"
  then have "mem_read p 8 m = Inr (SOS_buffer_packguid x)"
    by (rule mem_at_read_n) simp
  then show "SOS_buffer_unpackguid p m = Inr x"
    by (simp add: SOS_buffer_unpackguid_def SOS_buffer_packguid_def be_bytes_def be64_assemble)
qed (simp_all add: SOS_buffer_unpackguid_def mem_read_oob)

text \<open>A double travels as the unsigned word of its bits, packed as a \<open>long\<close>.\<close>

interpretation codec_u64: field_codec SOS_buffer_packi64 SOS_buffer_unpacku64 8
proof
  fix p x m assume "mem_at p (SOS_buffer_packi64 x) m"
  then have "mem_read p 8 m = Inr (SOS_buffer_packi64 x)"
    by (rule mem_at_read_n) simp
  then show "SOS_buffer_unpacku64 p m = Inr x"
    by (simp add: SOS_buffer_unpacku64_def SOS_buffer_packi64_def be_bytes_def be64_assemble)
qed (simp_all add: SOS_buffer_unpacku64_def mem_read_oob)

end
