(* ===== verification/SOS_Pack.thy ===== *)
theory SOS_Pack
  imports SOS_Buffer
begin

text \<open>
  The format-driven packing and unpacking of \<open>sos_buffer.c\<close>.

  A call with variable arguments takes the list of its arguments; an argument of another type
  than the format letter reads is \<open>Bad_Argument\<close>. Each loop keeps what the C loop keeps: the
  cursor \<open>buf\<close> as a position in the block, the count of packed bytes and the decimal number
  read so far.

  \<open>encode\<close> is the wire format of an argument list. The lemmas show that \<open>SOS_buffer_pack\<close>
  appends exactly these bytes after the old offset whenever they fit without growing in
  mid-call, and that \<open>SOS_buffer_unpack\<close> reads them back.
\<close>

section \<open>Packing\<close>

datatype pack_arg =
    ArgI i32
  | ArgL i64
  | ArgD c_double
  | ArgG u64
  | ArgS cstring
  | ArgB "byte list"

record pack_st =
  ps_buffer :: SOS_buffer
  ps_buf :: nat
  ps_packed :: nat
  ps_datalen :: u32
  ps_args :: "pack_arg list"

definition isdigit :: "char \<Rightarrow> bool" where
  "isdigit c \<longleftrightarrow> 48 \<le> (of_char c :: nat) \<and> (of_char c :: nat) \<le> 57"

text \<open>Store bytes at the cursor and advance it.\<close>

definition pack_put :: "byte list \<Rightarrow> pack_st \<Rightarrow> pack_st res" where
  "pack_put bs st =
     bindR (mem_write (ps_buf st) bs (buf_data (ps_buffer st))) (\<lambda>d.
       Inr (st\<lparr>ps_buffer := (ps_buffer st)\<lparr>buf_data := d\<rparr>,
               ps_buf := ps_buf st + length bs, ps_packed := ps_packed st + length bs\<rparr>))"

text \<open>
  The string case grows the buffer by the test \<open>offset + len >= max\<close>, which knows nothing of
  the bytes packed so far nor of the length field, and then restarts the cursor at the offset.
\<close>

definition pack_string :: "nat \<Rightarrow> cstring \<Rightarrow> pack_st \<Rightarrow> pack_st res" where
  "pack_string offset s0 st =
     (let s = cstr s0; len = length s
      in bindR
           (if buf_max (ps_buffer st) \<le> offset + len
            then bindR (SOS_buffer_grow (ps_buffer st) (len + SOS_DEFAULT_BUFFER_MAX)) (\<lambda>b.
                   Inr (st\<lparr>ps_buffer := b, ps_buf := offset\<rparr>))
            else Inr st) (\<lambda>st.
         bindR (pack_put (SOS_buffer_packi32 (word_of_nat len)) st) (pack_put s)))"

definition pack_blob :: "byte list \<Rightarrow> pack_st \<Rightarrow> pack_st res" where
  "pack_blob b st =
     (let (len, src) = (if sint (ps_datalen st) < 1 then (1, [0]) else (unat (ps_datalen st), b))
      in bindR (mem_read 0 len src) (\<lambda>bs.
         bindR (pack_put (SOS_buffer_packi32 (word_of_nat len)) st) (pack_put bs)))"

definition pack_digit :: "char \<Rightarrow> u32 \<Rightarrow> u32" where
  "pack_digit c n = n * 10 + word_of_nat (of_char c - 48)"

definition pack_letter :: "nat \<Rightarrow> char \<Rightarrow> pack_st \<Rightarrow> pack_st res" where
  "pack_letter offset c st =
     (let arg = (case ps_args st of [] \<Rightarrow> None | a # _ \<Rightarrow> Some a);
          st1 = st\<lparr>ps_args := tl (ps_args st)\<rparr>
      in if c = CHR ''i'' then
           (case arg of Some (ArgI i) \<Rightarrow> pack_put (SOS_buffer_packi32 i) st1 | _ \<Rightarrow> Inl Bad_Argument)
         else if c = CHR ''l'' then
           (case arg of Some (ArgL l) \<Rightarrow> pack_put (SOS_buffer_packi64 l) st1 | _ \<Rightarrow> Inl Bad_Argument)
         else if c = CHR ''d'' then
           (case arg of
              Some (ArgD d) \<Rightarrow> bindR (SOS_buffer_pack754_64 d) (\<lambda>w. pack_put (SOS_buffer_packi64 w) st1)
            | _ \<Rightarrow> Inl Bad_Argument)
         else if c = CHR ''g'' then
           (case arg of Some (ArgG g) \<Rightarrow> pack_put (SOS_buffer_packguid g) st1 | _ \<Rightarrow> Inl Bad_Argument)
         else if c = CHR ''s'' then
           (case arg of Some (ArgS s) \<Rightarrow> pack_string offset s st1 | _ \<Rightarrow> Inl Bad_Argument)
         else if c = CHR ''b'' then
           (case arg of Some (ArgB b) \<Rightarrow> pack_blob b st1 | _ \<Rightarrow> Inl Bad_Argument)
         else if isdigit c then Inr (st\<lparr>ps_datalen := pack_digit c (ps_datalen st)\<rparr>)
         else Inr st)"

definition pack_step :: "nat \<Rightarrow> char \<Rightarrow> pack_st \<Rightarrow> pack_st res" where
  "pack_step offset c st =
     bindR (pack_letter offset c st) (\<lambda>st.
       Inr (if isdigit c then st else st\<lparr>ps_datalen := 0\<rparr>))"

text \<open>The test at the start of a call, which doubles a buffer that is more than half full.\<close>

definition pack_reserve :: "SOS_buffer \<Rightarrow> nat \<Rightarrow> SOS_buffer res" where
  "pack_reserve b offset =
     (if buf_max b div 2 < offset then SOS_buffer_grow b offset else Inr b)"

definition SOS_buffer_pack ::
    "SOS_buffer \<Rightarrow> nat \<Rightarrow> string \<Rightarrow> pack_arg list \<Rightarrow> (SOS_buffer \<times> nat \<times> nat) res" where
  "SOS_buffer_pack b offset format args =
     bindR (pack_reserve b offset) (\<lambda>b1.
     bindR (foldR (pack_step offset) format
              \<lparr>ps_buffer = b1, ps_buf = offset, ps_packed = 0, ps_datalen = 0, ps_args = args\<rparr>) (\<lambda>st.
     let b2 = ps_buffer st; offset' = offset + ps_packed st
     in Inr (b2\<lparr>buf_len := max (buf_len b2) offset'\<rparr>, offset', ps_packed st)))"

text \<open>The loop of \<open>SOS_buffer_pack_bytes\<close> that grows until the bytes fit.\<close>

function pack_bytes_room :: "SOS_buffer \<Rightarrow> nat \<Rightarrow> SOS_buffer res" where
  "pack_bytes_room b need =
     (if buf_max b + 1 < need
      then bindR (SOS_buffer_grow b SOS_DEFAULT_BUFFER_MAX) (\<lambda>b. pack_bytes_room b need)
      else Inr b)"
  by pat_completeness auto
termination
  by (relation "measure (\<lambda>(b, need). need - buf_max b)")
    (auto simp: SOS_buffer_grow_def Let_def res_simps)

definition SOS_buffer_pack_bytes ::
    "SOS_buffer \<Rightarrow> nat \<Rightarrow> int \<Rightarrow> byte list \<Rightarrow> (SOS_buffer \<times> nat \<times> nat) res" where
  "SOS_buffer_pack_bytes b offset byte_count source =
     (let (count, src) = (if byte_count < 1 then (1, [0]) else (nat byte_count, source))
      in bindR (if buf_max b div 2 < offset then SOS_buffer_grow b SOS_DEFAULT_BUFFER_MAX else Inr b) (\<lambda>b1.
         bindR (pack_bytes_room b1 (offset + 4 + count)) (\<lambda>b2.
         bindR (mem_write offset (SOS_buffer_packi32 (word_of_nat count)) (buf_data b2)) (\<lambda>d1.
         bindR (mem_read 0 count src) (\<lambda>bs.
         bindR (mem_write (offset + 4) bs d1) (\<lambda>d2.
         let packed = 4 + count; offset' = offset + packed
         in Inr (b2\<lparr>buf_data := d2, buf_len := max (buf_len b2) offset'\<rparr>, offset', packed)))))))"

section \<open>Unpacking\<close>

text \<open>
  Where the caller wants a field: an \<open>int\<close>, \<open>long\<close>, GUID or \<open>double\<close> variable, a block of
  memory for a string (\<open>None\<close> for \<open>NULL\<close>) or one for raw bytes.
\<close>

datatype unpack_dest = DestI | DestL | DestG | DestD | DestS "byte list option" | DestB "byte list option"

datatype unpack_val = OutI i32 | OutL i64 | OutG u64 | OutD c_double | OutS "byte list option" | OutB "byte list option"

text \<open>
  The local variable \<open>s\<close> outlives the letter that set it: \<open>us_s\<close> is the block it points to
  and the output that block belongs to.
\<close>

record unpack_st =
  us_buf :: nat
  us_packed :: nat
  us_maxlen :: u32
  us_dests :: "unpack_dest list"
  us_outs :: "unpack_val list"
  us_s :: "(nat \<times> byte list) option"

function unpack_reserve :: "SOS_buffer \<Rightarrow> nat \<Rightarrow> SOS_buffer res" where
  "unpack_reserve b offset =
     (if buf_max b \<le> offset
      then bindR (SOS_buffer_grow b (buf_max b)) (\<lambda>b. unpack_reserve b offset)
      else Inr b)"
  by pat_completeness auto
termination
  by (relation "measure (\<lambda>(b, offset). offset + 1 - buf_max b)")
    (auto simp: SOS_buffer_grow_def Let_def res_simps)

definition unpack_out :: "nat \<Rightarrow> unpack_val \<Rightarrow> unpack_st \<Rightarrow> unpack_st" where
  "unpack_out n v st =
     st\<lparr>us_buf := us_buf st + n, us_packed := us_packed st + n, us_outs := us_outs st @ [v]\<rparr>"

text \<open>The length field of a string, and how many of its bytes are copied.\<close>

definition unpack_count :: "u32 \<Rightarrow> u32 \<Rightarrow> nat" where
  "unpack_count maxlen len = unat (if 0 < maxlen \<and> maxlen < len then maxlen - 1 else len)"

definition unpack_string :: "byte list \<Rightarrow> byte list option \<Rightarrow> unpack_st \<Rightarrow> unpack_st res" where
  "unpack_string m dest st =
     bindR (SOS_buffer_unpacki32 (us_buf st) m) (\<lambda>len.
     let count = unpack_count (us_maxlen st) len;
         blk = (case dest of None \<Rightarrow> replicate (count + 1) 0 | Some d \<Rightarrow> d)
     in bindR (mem_read (us_buf st + 4) count m) (\<lambda>bs.
        bindR (mem_write 0 bs blk) (\<lambda>blk'.
        Inr (unpack_out (4 + unat len) (OutS (map_option (\<lambda>_. blk') dest))
               (st\<lparr>us_s := Some (length (us_outs st), blk')\<rparr>)))))"

text \<open>
  The raw-bytes case copies to \<open>s\<close>, not to \<open>b\<close>: to the block of the last string of this
  call, or through an uninitialised pointer.
\<close>

definition unpack_blob :: "byte list \<Rightarrow> byte list option \<Rightarrow> unpack_st \<Rightarrow> unpack_st res" where
  "unpack_blob m dest st =
     bindR (SOS_buffer_unpacki32 (us_buf st) m) (\<lambda>len.
     let count = unpack_count (us_maxlen st) len
     in bindR (mem_read (us_buf st + 4) count m) (\<lambda>bs.
        case us_s st of
          None \<Rightarrow> Inl Uninitialised
        | Some (k, blk) \<Rightarrow>
            bindR (mem_write 0 bs blk) (\<lambda>blk'.
            let old = us_outs st ! k;
                new = (case old of OutS (Some _) \<Rightarrow> OutS (Some blk') | _ \<Rightarrow> old)
            in Inr (unpack_out (4 + unat len) (OutB dest)
                      (st\<lparr>us_outs := (us_outs st)[k := new], us_s := Some (k, blk')\<rparr>)))))"

definition unpack_letter :: "byte list \<Rightarrow> char \<Rightarrow> unpack_st \<Rightarrow> unpack_st res" where
  "unpack_letter m c st =
     (let dest = (case us_dests st of [] \<Rightarrow> None | d # _ \<Rightarrow> Some d);
          st1 = st\<lparr>us_dests := tl (us_dests st)\<rparr>
      in if c = CHR ''i'' then
           (case dest of
              Some DestI \<Rightarrow> bindR (SOS_buffer_unpacki32 (us_buf st) m) (\<lambda>i. Inr (unpack_out 4 (OutI i) st1))
            | _ \<Rightarrow> Inl Bad_Argument)
         else if c = CHR ''l'' then
           (case dest of
              Some DestL \<Rightarrow> bindR (SOS_buffer_unpacki64 (us_buf st) m) (\<lambda>l. Inr (unpack_out 8 (OutL l) st1))
            | _ \<Rightarrow> Inl Bad_Argument)
         else if c = CHR ''g'' then
           (case dest of
              Some DestG \<Rightarrow> bindR (SOS_buffer_unpackguid (us_buf st) m) (\<lambda>g. Inr (unpack_out 8 (OutG g) st1))
            | _ \<Rightarrow> Inl Bad_Argument)
         else if c = CHR ''d'' then
           (case dest of
              Some DestD \<Rightarrow> bindR (SOS_buffer_unpacku64 (us_buf st) m) (\<lambda>w.
                              Inr (unpack_out 8 (OutD (SOS_buffer_unpack754_64 w)) st1))
            | _ \<Rightarrow> Inl Bad_Argument)
         else if c = CHR ''s'' then
           (case dest of Some (DestS d) \<Rightarrow> unpack_string m d st1 | _ \<Rightarrow> Inl Bad_Argument)
         else if c = CHR ''b'' then
           (case dest of Some (DestB d) \<Rightarrow> unpack_blob m d st1 | _ \<Rightarrow> Inl Bad_Argument)
         else if isdigit c then Inr (st\<lparr>us_maxlen := pack_digit c (us_maxlen st)\<rparr>)
         else Inr st)"

definition unpack_step :: "byte list \<Rightarrow> char \<Rightarrow> unpack_st \<Rightarrow> unpack_st res" where
  "unpack_step m c st =
     bindR (unpack_letter m c st) (\<lambda>st.
       Inr (if isdigit c then st else st\<lparr>us_maxlen := 0\<rparr>))"

definition SOS_buffer_unpack ::
    "SOS_buffer \<Rightarrow> nat \<Rightarrow> string \<Rightarrow> unpack_dest list \<Rightarrow> (SOS_buffer \<times> nat \<times> nat \<times> unpack_val list) res" where
  "SOS_buffer_unpack b offset format dests =
     bindR (unpack_reserve b offset) (\<lambda>b1.
     bindR (foldR (unpack_step (buf_data b1)) format
              \<lparr>us_buf = offset, us_packed = 0, us_maxlen = 0, us_dests = dests, us_outs = [], us_s = None\<rparr>) (\<lambda>st.
     let offset' = offset + us_packed st
     in checkR (offset' \<le> INT_MAX) Size_Overflow
          (Inr (b1, offset', us_packed st, us_outs st))))"

definition SOS_buffer_unpack_safestr :: "SOS_buffer \<Rightarrow> nat \<Rightarrow> (SOS_buffer \<times> nat \<times> byte list option) res" where
  "SOS_buffer_unpack_safestr b offset =
     bindR (SOS_buffer_unpack b offset ''i'' [DestI]) (\<lambda>(b1, _, _, outs).
     let n = (case outs of [OutI i] \<Rightarrow> sint i | _ \<Rightarrow> 0)
     in if n = int INT_MAX then Inl Undefined
        else
          (let dest = (if n + 1 < 0 then None else Some (replicate (nat (n + 1)) 0))
           in bindR (SOS_buffer_unpack b1 offset ''s'' [DestS dest]) (\<lambda>(b2, offset', _, outs).
              Inr (b2, offset', case outs of [OutS d] \<Rightarrow> d | _ \<Rightarrow> None))))"

declare pack_bytes_room.simps [simp del] unpack_reserve.simps [simp del]

section \<open>The wire format\<close>

fun fmt_of :: "pack_arg \<Rightarrow> char" where
  "fmt_of (ArgI _) = CHR ''i''"
| "fmt_of (ArgL _) = CHR ''l''"
| "fmt_of (ArgD _) = CHR ''d''"
| "fmt_of (ArgG _) = CHR ''g''"
| "fmt_of (ArgS _) = CHR ''s''"
| "fmt_of (ArgB _) = CHR ''b''"

fun enc_arg :: "pack_arg \<Rightarrow> byte list" where
  "enc_arg (ArgI i) = SOS_buffer_packi32 i"
| "enc_arg (ArgL l) = SOS_buffer_packi64 l"
| "enc_arg (ArgD d) = (case SOS_buffer_pack754_64 d of Inr w \<Rightarrow> SOS_buffer_packi64 w | Inl _ \<Rightarrow> [])"
| "enc_arg (ArgG g) = SOS_buffer_packguid g"
| "enc_arg (ArgS s) = SOS_buffer_packi32 (word_of_nat (length s)) @ s"
| "enc_arg (ArgB b) = []"

definition encode :: "pack_arg list \<Rightarrow> byte list" where
  "encode args = concat (map enc_arg args)"

text \<open>
  The arguments the encoding is for: finite doubles, and proper strings whose length is an
  \<open>int\<close>. Raw bytes go through \<open>SOS_buffer_pack_bytes\<close>.
\<close>

fun arg_ok :: "pack_arg \<Rightarrow> bool" where
  "arg_ok (ArgD d) = (case d of Fin _ \<Rightarrow> True | _ \<Rightarrow> False)"
| "arg_ok (ArgS s) = (wf_cstring s \<and> length s \<le> INT_MAX)"
| "arg_ok (ArgB b) = False"
| "arg_ok _ = True"

lemma encode_simps [simp]:
  "encode [] = []" "encode (a # args) = enc_arg a @ encode args"
  "encode (args @ args') = encode args @ encode args'"
  by (simp_all add: encode_def)

lemma not_isdigit_fmt [simp]: "\<not> isdigit (fmt_of a)"
  by (cases a) (simp_all add: isdigit_def)

lemma pack754_Fin: "\<exists>w. SOS_buffer_pack754_64 (Fin f) = Inr w"
  by (simp add: SOS_buffer_pack754_64_def Let_def case_prod_beta)

section \<open>Packing appends the wire format\<close>

definition put_bytes :: "byte list \<Rightarrow> pack_st \<Rightarrow> pack_st" where
  "put_bytes bs st =
     st\<lparr>ps_buffer := (ps_buffer st)\<lparr>buf_data :=
           take (ps_buf st) (buf_data (ps_buffer st)) @ bs @
           drop (ps_buf st + length bs) (buf_data (ps_buffer st))\<rparr>,
        ps_buf := ps_buf st + length bs, ps_packed := ps_packed st + length bs\<rparr>"

lemma pack_put_ok:
  "ps_buf st + length bs \<le> length (buf_data (ps_buffer st)) \<Longrightarrow> pack_put bs st = Inr (put_bytes bs st)"
  by (simp add: pack_put_def put_bytes_def mem_write_ok)

lemma put_bytes_sel [simp]:
  "ps_buf (put_bytes bs st) = ps_buf st + length bs"
  "ps_packed (put_bytes bs st) = ps_packed st + length bs"
  "ps_args (put_bytes bs st) = ps_args st"
  "ps_datalen (put_bytes bs st) = ps_datalen st"
  "buf_max (ps_buffer (put_bytes bs st)) = buf_max (ps_buffer st)"
  "buf_len (ps_buffer (put_bytes bs st)) = buf_len (ps_buffer st)"
  by (simp_all add: put_bytes_def)

lemma length_put_bytes [simp]:
  "ps_buf st + length bs \<le> length (buf_data (ps_buffer st)) \<Longrightarrow>
   length (buf_data (ps_buffer (put_bytes bs st))) = length (buf_data (ps_buffer st))"
  by (simp add: put_bytes_def)

lemma put_bytes_append:
  "ps_buf st + length xs + length ys \<le> length (buf_data (ps_buffer st)) \<Longrightarrow>
   put_bytes ys (put_bytes xs st) = put_bytes (xs @ ys) st"
  by (simp add: put_bytes_def ac_simps)

lemma put_bytes_Nil: "put_bytes [] st = st"
  by (simp add: put_bytes_def)

lemma put_bytes_args: "put_bytes bs (st\<lparr>ps_args := as\<rparr>) = (put_bytes bs st)\<lparr>ps_args := as\<rparr>"
  by (simp add: put_bytes_def)

lemma pack_step_ok:
  assumes "arg_ok a" and "ps_args st = a # args" and "ps_datalen st = 0"
    and "length (buf_data (ps_buffer st)) = buf_max (ps_buffer st)"
    and "offset \<le> ps_buf st"
    and "ps_buf st + length (enc_arg a) \<le> buf_max (ps_buffer st)"
  shows "pack_step offset (fmt_of a) st = Inr ((put_bytes (enc_arg a) st)\<lparr>ps_args := args\<rparr>)"
proof (cases a)
  case (ArgD d)
  with assms(1) obtain f where "d = Fin f" by (cases d) auto
  moreover obtain w where "SOS_buffer_pack754_64 (Fin f) = Inr w" using pack754_Fin by blast
  ultimately show ?thesis using assms ArgD
    by (simp add: pack_step_def pack_letter_def Let_def pack_put_ok isdigit_def put_bytes_args)
next
  case (ArgS s)
  then show ?thesis using assms
    by (simp add: pack_step_def pack_letter_def Let_def pack_put_ok isdigit_def put_bytes_args
        pack_string_def put_bytes_append)
qed (use assms in \<open>simp_all add: pack_step_def pack_letter_def Let_def pack_put_ok isdigit_def put_bytes_args\<close>)

lemma pack_loop_ok:
  assumes "\<forall>a \<in> set args. arg_ok a" and "ps_args st = args @ rest" and "ps_datalen st = 0"
    and "length (buf_data (ps_buffer st)) = buf_max (ps_buffer st)"
    and "offset \<le> ps_buf st"
    and "ps_buf st + length (encode args) \<le> buf_max (ps_buffer st)"
  shows "foldR (pack_step offset) (map fmt_of args) st = Inr ((put_bytes (encode args) st)\<lparr>ps_args := rest\<rparr>)"
  using assms
proof (induction args arbitrary: st)
  case Nil
  then show ?case by (simp add: put_bytes_Nil)
next
  case (Cons a args)
  let ?st = "(put_bytes (enc_arg a) st)\<lparr>ps_args := args @ rest\<rparr>"
  have "pack_step offset (fmt_of a) st = Inr ?st"
    using Cons.prems by (intro pack_step_ok) auto
  moreover have "foldR (pack_step offset) (map fmt_of args) ?st =
      Inr ((put_bytes (encode args) ?st)\<lparr>ps_args := rest\<rparr>)"
    using Cons.prems by (intro Cons.IH) auto
  ultimately show ?case
    using Cons.prems by (simp add: put_bytes_args put_bytes_append)
qed

text \<open>The bytes of a message: what lies before the offset.\<close>

definition packed_prefix :: "SOS_buffer \<Rightarrow> nat \<Rightarrow> byte list" where
  "packed_prefix b offset = take offset (buf_data b)"

lemma pack_reserve_ok:
  assumes "buffer_wf b" and "buf_max b + offset + 1 \<le> INT_MAX"
  obtains b1 k where "pack_reserve b offset = Inr b1"
    and "b1 = b\<lparr>buf_max := buf_max b + k, buf_data := buf_data b @ replicate k 0\<rparr>"
    and "buf_max b div 2 < offset \<Longrightarrow> k = offset + 1" and "\<not> buf_max b div 2 < offset \<Longrightarrow> k = 0"
proof (cases "buf_max b div 2 < offset")
  case True
  then show ?thesis using assms
    by (intro that [of "b\<lparr>buf_max := buf_max b + (offset + 1), buf_data := buf_data b @ replicate (offset + 1) 0\<rparr>" "offset + 1"])
      (simp_all add: pack_reserve_def SOS_buffer_grow_def)
next
  case False
  then show ?thesis using assms
    by (intro that [of b 0]) (simp_all add: pack_reserve_def)
qed

lemma SOS_buffer_pack_encode:
  assumes "buffer_wf b" and "offset \<le> buf_max b" and "\<forall>a \<in> set args. arg_ok a"
    and "length (encode args) \<le> buf_max b div 2" and "buf_max b + offset + 1 \<le> INT_MAX"
  obtains b' where "SOS_buffer_pack b offset (map fmt_of args) args =
      Inr (b', offset + length (encode args), length (encode args))"
    and "buffer_wf b'"
    and "packed_prefix b' (offset + length (encode args)) = packed_prefix b offset @ encode args"
    and "buf_max b' = (if buf_max b div 2 < offset then buf_max b + offset + 1 else buf_max b)"
    and "buf_len b' = max (buf_len b) (offset + length (encode args))"
    and "buf_is_locking b' = buf_is_locking b" and "buf_lock b' = buf_lock b"
    and "buf_is_zipped b' = buf_is_zipped b"
proof -
  obtain b1 k where r: "pack_reserve b offset = Inr b1"
    and b1: "b1 = b\<lparr>buf_max := buf_max b + k, buf_data := buf_data b @ replicate k 0\<rparr>"
    and k: "buf_max b div 2 < offset \<Longrightarrow> k = offset + 1" "\<not> buf_max b div 2 < offset \<Longrightarrow> k = 0"
    using pack_reserve_ok [OF assms(1,5)] by metis
  let ?n = "length (encode args)"
  have k_le: "k \<le> offset + 1" using k by (cases "buf_max b div 2 < offset") auto
  have room: "offset + ?n \<le> buf_max b1"
    using k assms(4) by (cases "buf_max b div 2 < offset") (auto simp: b1)
  have len: "length (buf_data b1) = buf_max b1" using assms(1) by (simp add: b1 buffer_wf_def)
  let ?st = "\<lparr>ps_buffer = b1, ps_buf = offset, ps_packed = 0, ps_datalen = 0, ps_args = args\<rparr>"
  have loop: "foldR (pack_step offset) (map fmt_of args) ?st = Inr ((put_bytes (encode args) ?st)\<lparr>ps_args := []\<rparr>)"
    using assms(3) room len by (intro pack_loop_ok) auto
  let ?b' = "ps_buffer (put_bytes (encode args) ?st)\<lparr>buf_len := max (buf_len b1) (offset + ?n)\<rparr>"
  show ?thesis
  proof (rule that [of ?b'])
    show "SOS_buffer_pack b offset (map fmt_of args) args = Inr (?b', offset + ?n, ?n)"
      by (simp add: SOS_buffer_pack_def r loop Let_def)
    show "buffer_wf ?b'"
      using assms(1,5) room len k_le by (auto simp: buffer_wf_def put_bytes_def b1)
    show "packed_prefix ?b' (offset + ?n) = packed_prefix b offset @ encode args"
      using assms(1,2) by (simp add: packed_prefix_def put_bytes_def b1 buffer_wf_def)
    show "buf_max ?b' = (if buf_max b div 2 < offset then buf_max b + offset + 1 else buf_max b)"
      using k by (simp add: b1)
  qed (simp_all add: put_bytes_def b1)
qed

section \<open>Unpacking reads the wire format back\<close>

text \<open>The double that arrives, and the ones that arrive as they were sent.\<close>

definition wire_double :: "c_double \<Rightarrow> c_double" where
  "wire_double d = (case SOS_buffer_pack754_64 d of Inr w \<Rightarrow> SOS_buffer_unpack754_64 w | Inl _ \<Rightarrow> d)"

definition normal_or_zero :: "c_double \<Rightarrow> bool" where
  "normal_or_zero d \<longleftrightarrow> d = Fin 0 \<or> (\<exists>s m e. is_normal s m e \<and> d = Fin (normal_double s m e))"

lemma wire_double_exact: "normal_or_zero d \<Longrightarrow> wire_double d = d"
  by (auto simp: normal_or_zero_def wire_double_def pack754_normal unpack754_normal
      SOS_buffer_pack754_64_def [of "Fin 0"] SOS_buffer_unpack754_64_def [of 0])

text \<open>What the caller finds at the destination of a field.\<close>

fun dest_out :: "pack_arg \<Rightarrow> unpack_dest \<Rightarrow> unpack_val option" where
  "dest_out (ArgI i) DestI = Some (OutI i)"
| "dest_out (ArgL l) DestL = Some (OutL l)"
| "dest_out (ArgG g) DestG = Some (OutG g)"
| "dest_out (ArgD d) DestD = Some (OutD (wire_double d))"
| "dest_out (ArgS s) (DestS None) = Some (OutS None)"
| "dest_out (ArgS s) (DestS (Some blk)) =
     (if length s \<le> length blk then Some (OutS (Some (s @ drop (length s) blk))) else None)"
| "dest_out _ _ = None"

fun outs_of :: "pack_arg list \<Rightarrow> unpack_dest list \<Rightarrow> unpack_val list option" where
  "outs_of [] [] = Some []"
| "outs_of (a # args) (d # dests) =
     (case dest_out a d of None \<Rightarrow> None | Some v \<Rightarrow> map_option (Cons v) (outs_of args dests))"
| "outs_of _ _ = None"

lemma unpack_step_ok:
  assumes "arg_ok a" and "dest_out a d = Some v" and "mem_at (us_buf st) (enc_arg a) m"
    and "us_dests st = d # dests" and "us_maxlen st = 0"
  shows "\<exists>st'. unpack_step m (fmt_of a) st = Inr st' \<and>
    us_buf st' = us_buf st + length (enc_arg a) \<and> us_packed st' = us_packed st + length (enc_arg a) \<and>
    us_outs st' = us_outs st @ [v] \<and> us_dests st' = dests \<and> us_maxlen st' = 0"
proof (cases a)
  case (ArgD x)
  with assms(1) obtain f where x: "x = Fin f" by (cases x) auto
  moreover obtain w where w: "SOS_buffer_pack754_64 (Fin f) = Inr w" using pack754_Fin by blast
  moreover have "SOS_buffer_unpacku64 (us_buf st) m = Inr w"
    using assms(3) ArgD x w by (intro codec_u64.dec_enc) simp
  ultimately show ?thesis using assms ArgD
    by (cases d) (auto simp: unpack_step_def unpack_letter_def isdigit_def unpack_out_def wire_double_def)
next
  case (ArgS s)
  from assms(1) ArgS have len: "length s < 2 ^ 31" by (simp add: INT_MAX_def)
  then have u: "unat (word_of_nat (length s) :: i32) = length s" by simp
  from assms(3) ArgS have "mem_at (us_buf st) (SOS_buffer_packi32 (word_of_nat (length s))) m"
    and s: "mem_at (us_buf st + 4) s m" by (auto simp: mem_at_append)
  then have "SOS_buffer_unpacki32 (us_buf st) m = Inr (word_of_nat (length s))"
    by (intro codec_i32.dec_enc)
  moreover have "mem_read (us_buf st + 4) (length s) m = Inr s" using s by (rule mem_at_read)
  ultimately show ?thesis using assms ArgS u
    by (cases d; cases "case d of DestS b \<Rightarrow> b | _ \<Rightarrow> None")
      (auto simp: unpack_step_def unpack_letter_def isdigit_def unpack_out_def unpack_string_def
        unpack_count_def mem_write_ok Let_def split: if_splits)
qed (use assms in \<open>cases d; auto simp: unpack_step_def unpack_letter_def isdigit_def unpack_out_def
      codec_i32.dec_enc codec_i64.dec_enc codec_guid.dec_enc\<close>)+

lemma unpack_loop_ok:
  assumes "\<forall>a \<in> set args. arg_ok a" and "outs_of args dests = Some outs"
    and "mem_at (us_buf st) (encode args) m" and "us_dests st = dests" and "us_maxlen st = 0"
  shows "\<exists>st'. foldR (unpack_step m) (map fmt_of args) st = Inr st' \<and>
    us_packed st' = us_packed st + length (encode args) \<and> us_outs st' = us_outs st @ outs"
  using assms
proof (induction args arbitrary: st dests outs)
  case Nil
  then show ?case by (cases dests) auto
next
  case (Cons a args)
  from Cons.prems(2) obtain d ds v vs where d: "dests = d # ds" "dest_out a d = Some v"
    and vs: "outs_of args ds = Some vs" "outs = v # vs"
    by (cases dests) (auto split: option.splits)
  have at: "mem_at (us_buf st) (enc_arg a) m" "mem_at (us_buf st + length (enc_arg a)) (encode args) m"
    using Cons.prems(3) by (auto simp: mem_at_append)
  obtain st1 where step: "unpack_step m (fmt_of a) st = Inr st1"
      "us_buf st1 = us_buf st + length (enc_arg a)" "us_packed st1 = us_packed st + length (enc_arg a)"
      "us_outs st1 = us_outs st @ [v]" "us_dests st1 = ds" "us_maxlen st1 = 0"
    using unpack_step_ok [of a d v st m ds] Cons.prems d at by auto
  have "\<exists>st'. foldR (unpack_step m) (map fmt_of args) st1 = Inr st' \<and>
      us_packed st' = us_packed st1 + length (encode args) \<and> us_outs st' = us_outs st1 @ vs"
    using Cons.prems at(2) vs step by (intro Cons.IH [of ds]) simp_all
  then show ?case using step vs by auto
qed

lemma unpack_reserve_inside: "offset < buf_max b \<Longrightarrow> unpack_reserve b offset = Inr b"
  by (subst unpack_reserve.simps) simp

lemma enc_arg_nonempty: "arg_ok a \<Longrightarrow> enc_arg a \<noteq> []"
proof (cases a)
  case (ArgD d)
  moreover assume "arg_ok a"
  ultimately obtain f where "d = Fin f" by (cases d) auto
  then show ?thesis using ArgD pack754_Fin [of f] by (auto simp: SOS_buffer_packi64_def)
qed (auto simp: SOS_buffer_packi32_def SOS_buffer_packi64_def SOS_buffer_packguid_def)

lemma SOS_buffer_unpack_encode:
  assumes "buffer_wf b" and "\<forall>a \<in> set args. arg_ok a" and "args \<noteq> []"
    and "mem_at offset (encode args) (buf_data b)" and "outs_of args dests = Some outs"
  shows "SOS_buffer_unpack b offset (map fmt_of args) dests =
    Inr (b, offset + length (encode args), length (encode args), outs)"
proof -
  let ?st = "\<lparr>us_buf = offset, us_packed = 0, us_maxlen = 0, us_dests = dests, us_outs = [], us_s = None\<rparr>"
  have "encode args \<noteq> []" using assms(2,3) enc_arg_nonempty by (cases args) auto
  then have "offset < buf_max b" and le: "offset + length (encode args) \<le> INT_MAX"
    using mem_at_bound [OF assms(4)] assms(1) by (cases "encode args"; simp add: buffer_wf_def)+
  then have "unpack_reserve b offset = Inr b" by (intro unpack_reserve_inside)
  moreover obtain st' where "foldR (unpack_step (buf_data b)) (map fmt_of args) ?st = Inr st'"
      "us_packed st' = length (encode args)" "us_outs st' = outs"
    using unpack_loop_ok [of args dests outs ?st "buf_data b"] assms by auto
  ultimately show ?thesis
    using le by (simp add: SOS_buffer_unpack_def)
qed

text \<open>
  The outcome in terms of the message bytes: a reader positioned at \<open>offset\<close> of a buffer whose
  packed bytes continue with the encoding.
\<close>

lemma packed_prefix_mem_at:
  assumes "packed_prefix b n = xs @ ys @ zs"
  shows "mem_at (length xs) ys (buf_data b)"
proof -
  let ?d = "drop n (buf_data b)"
  have d: "buf_data b = xs @ ys @ zs @ ?d"
    using assms(1) append_take_drop_id [of n "buf_data b"] by (simp add: packed_prefix_def)
  show ?thesis by (subst d) (simp add: mem_at_def)
qed

section \<open>Strings that make the buffer grow\<close>

definition grown :: "SOS_buffer \<Rightarrow> nat \<Rightarrow> SOS_buffer" where
  "grown b k = b\<lparr>buf_max := buf_max b + k, buf_data := buf_data b @ replicate k 0\<rparr>"

lemma grown_sel [simp]:
  "buf_max (grown b k) = buf_max b + k" "buf_data (grown b k) = buf_data b @ replicate k 0"
  "buf_len (grown b k) = buf_len b" "buf_lock (grown b k) = buf_lock b"
  "buf_is_locking (grown b k) = buf_is_locking b" "buf_is_zipped (grown b k) = buf_is_zipped b"
  by (simp_all add: grown_def)

lemma SOS_buffer_grow_ok:
  "buf_max b + n + 1 \<le> INT_MAX \<Longrightarrow> SOS_buffer_grow b n = Inr (grown b (n + 1))"
  by (simp add: SOS_buffer_grow_def grown_def)

lemma pack_string_grow:
  assumes "wf_cstring s" and "length (buf_data (ps_buffer st)) = buf_max (ps_buffer st)"
    and "offset \<le> buf_max (ps_buffer st)" and "buf_max (ps_buffer st) \<le> offset + length s"
    and "buf_max (ps_buffer st) + length s + SOS_DEFAULT_BUFFER_MAX + 1 \<le> INT_MAX"
  shows "pack_string offset s st = Inr (put_bytes (enc_arg (ArgS s))
    (st\<lparr>ps_buffer := grown (ps_buffer st) (length s + SOS_DEFAULT_BUFFER_MAX + 1), ps_buf := offset\<rparr>))"
proof -
  let ?g = "length s + SOS_DEFAULT_BUFFER_MAX + 1"
  let ?h = "SOS_buffer_packi32 (word_of_nat (length s))"
  let ?st = "st\<lparr>ps_buffer := grown (ps_buffer st) ?g, ps_buf := offset\<rparr>"
  have grow: "SOS_buffer_grow (ps_buffer st) (length s + SOS_DEFAULT_BUFFER_MAX) = Inr (grown (ps_buffer st) ?g)"
    using assms(5) by (intro SOS_buffer_grow_ok) simp
  have room: "offset + 4 + length s \<le> length (buf_data (ps_buffer ?st))"
    using assms(2,3) by (simp add: SOS_DEFAULT_BUFFER_MAX_def)
  have p1: "pack_put ?h ?st = Inr (put_bytes ?h ?st)"
    using room by (intro pack_put_ok) simp
  have p2: "pack_put s (put_bytes ?h ?st) = Inr (put_bytes s (put_bytes ?h ?st))"
    using room by (intro pack_put_ok) simp
  have "put_bytes s (put_bytes ?h ?st) = put_bytes (enc_arg (ArgS s)) ?st"
    using room by (simp add: put_bytes_append)
  then show ?thesis
    using assms(1,4) p1 p2 by (simp add: pack_string_def grow Let_def)
qed

text \<open>A string alone in its call is appended too when it makes the buffer grow.\<close>

lemma SOS_buffer_pack_long_string:
  assumes "buffer_wf b" and "offset \<le> buf_max b div 2" and "wf_cstring s"
    and "buf_max b \<le> offset + length s"
    and "buf_max b + length s + SOS_DEFAULT_BUFFER_MAX + 1 \<le> INT_MAX"
  obtains b' where "SOS_buffer_pack b offset ''s'' [ArgS s] =
      Inr (b', offset + (4 + length s), 4 + length s)"
    and "buffer_wf b'" and "packed_prefix b' (offset + (4 + length s)) = packed_prefix b offset @ encode [ArgS s]"
proof -
  let ?b1 = "grown b (length s + SOS_DEFAULT_BUFFER_MAX + 1)"
  let ?st = "\<lparr>ps_buffer = b, ps_buf = offset, ps_packed = 0, ps_datalen = 0, ps_args = []\<rparr>"
  let ?st2 = "put_bytes (enc_arg (ArgS s)) (?st\<lparr>ps_buffer := ?b1\<rparr>)"
  let ?b' = "ps_buffer ?st2\<lparr>buf_len := max (buf_len b) (offset + (4 + length s))\<rparr>"
  have p: "pack_string offset s ?st = Inr ?st2"
    using pack_string_grow [of s ?st offset] assms by (simp add: buffer_wf_def)
  show ?thesis
  proof (rule that [of ?b'])
    show "SOS_buffer_pack b offset ''s'' [ArgS s] = Inr (?b', offset + (4 + length s), 4 + length s)"
      using assms(2) p
      by (simp add: SOS_buffer_pack_def pack_reserve_def pack_step_def pack_letter_def isdigit_def Let_def)
    show "buffer_wf ?b'"
      using assms by (auto simp: buffer_wf_def put_bytes_def SOS_DEFAULT_BUFFER_MAX_def)
    show "packed_prefix ?b' (offset + (4 + length s)) = packed_prefix b offset @ encode [ArgS s]"
      using assms by (simp add: packed_prefix_def put_bytes_def buffer_wf_def)
  qed
qed

section \<open>Raw bytes and safe strings\<close>

lemma pack_bytes_room_fits: "need \<le> buf_max b + 1 \<Longrightarrow> pack_bytes_room b need = Inr b"
  by (subst pack_bytes_room.simps) simp

lemma SOS_buffer_pack_bytes_ok:
  assumes "buffer_wf b" and "offset \<le> buf_max b div 2" and "bs \<noteq> []"
    and "offset + 4 + length bs \<le> buf_max b"
  obtains b' where "SOS_buffer_pack_bytes b offset (int (length bs)) bs =
      Inr (b', offset + (4 + length bs), 4 + length bs)"
    and "buffer_wf b'" and "buf_max b' = buf_max b"
    and "packed_prefix b' (offset + (4 + length bs)) =
           packed_prefix b offset @ SOS_buffer_packi32 (word_of_nat (length bs)) @ bs"
proof -
  let ?h = "SOS_buffer_packi32 (word_of_nat (length bs))"
  let ?d1 = "take offset (buf_data b) @ ?h @ drop (offset + 4) (buf_data b)"
  let ?d2 = "take (offset + 4) ?d1 @ bs @ drop (offset + 4 + length bs) ?d1"
  let ?b' = "b\<lparr>buf_data := ?d2, buf_len := max (buf_len b) (offset + (4 + length bs))\<rparr>"
  have len: "length (buf_data b) = buf_max b" using assms(1) by (simp add: buffer_wf_def)
  have w1: "mem_write offset ?h (buf_data b) = Inr ?d1"
    using assms(4) len by (simp add: mem_write_ok)
  have w2: "mem_write (offset + 4) bs ?d1 = Inr ?d2"
    using assms(4) len by (intro mem_write_ok) simp
  have r: "mem_read 0 (length bs) bs = Inr bs" by (simp add: mem_read_def)
  have n: "\<not> int (length bs) < 1" using assms(3) by (cases bs) simp_all
  show ?thesis
  proof (rule that [of ?b'])
    show "SOS_buffer_pack_bytes b offset (int (length bs)) bs =
        Inr (?b', offset + (4 + length bs), 4 + length bs)"
      using assms(2,4) w1 w2 r n
      by (simp add: SOS_buffer_pack_bytes_def pack_bytes_room_fits Let_def)
    show "buffer_wf ?b'"
      using assms(1,4) by (auto simp: buffer_wf_def)
    show "packed_prefix ?b' (offset + (4 + length bs)) = packed_prefix b offset @ ?h @ bs"
      using assms(4) len by (simp add: packed_prefix_def)
  qed simp
qed

lemma SOS_buffer_unpack_safestr_ok:
  assumes "buffer_wf b" and "wf_cstring s" and "length s < INT_MAX"
    and "mem_at offset (encode [ArgS s]) (buf_data b)"
  shows "SOS_buffer_unpack_safestr b offset = Inr (b, offset + (4 + length s), Some (s @ [0]))"
proof -
  from assms(3) have n: "sint (word_of_nat (length s) :: i32) = int (length s)"
    by (intro sint_word_of_nat_small) (simp add: INT_MAX_def)
  have i: "SOS_buffer_unpack b offset ''i'' [DestI] =
      Inr (b, offset + 4, 4, [OutI (word_of_nat (length s))])"
    using SOS_buffer_unpack_encode [of b "[ArgI (word_of_nat (length s))]" offset "[DestI]"]
      assms(1,4) by (simp add: mem_at_append)
  have "drop (length s) (replicate (length s + 1) (0 :: byte)) = [0]"
    by (simp only: drop_replicate) simp
  then have s: "SOS_buffer_unpack b offset ''s'' [DestS (Some (replicate (length s + 1) 0))] =
      Inr (b, offset + (4 + length s), 4 + length s, [OutS (Some (s @ [0]))])"
    using SOS_buffer_unpack_encode [of b "[ArgS s]" offset "[DestS (Some (replicate (length s + 1) 0))]"]
      assms by (simp add: INT_MAX_def del: replicate_Suc)
  have nat_len: "nat (int (length s) + 1) = length s + 1" by simp
  show ?thesis
    using assms(3) i s n unfolding SOS_buffer_unpack_safestr_def
    by (simp add: Let_def nat_len del: replicate_Suc)
qed

section \<open>Allocation invariant\<close>

text \<open>\<open>max\<close> is the size of the allocated block: kept by every operation, for every input.\<close>

definition alloc_ok :: "SOS_buffer \<Rightarrow> bool" where
  "alloc_ok b \<longleftrightarrow> length (buf_data b) = buf_max b \<and> buf_max b \<le> INT_MAX"

lemma alloc_ok_grow: "SOS_buffer_grow b n = Inr b' \<Longrightarrow> alloc_ok b \<Longrightarrow> alloc_ok b'"
  by (auto simp: alloc_ok_def SOS_buffer_grow_def Let_def res_simps)

lemma alloc_ok_pack_put: "pack_put bs st = Inr st' \<Longrightarrow> alloc_ok (ps_buffer st) \<Longrightarrow> alloc_ok (ps_buffer st')"
  by (auto simp: alloc_ok_def pack_put_def res_simps dest: mem_write_length)

lemma alloc_ok_pack_string:
  "pack_string offset s st = Inr st' \<Longrightarrow> alloc_ok (ps_buffer st) \<Longrightarrow> alloc_ok (ps_buffer st')"
  by (auto simp: pack_string_def Let_def res_simps split: if_splits
      dest!: alloc_ok_pack_put dest: alloc_ok_grow)

lemma alloc_ok_pack_blob:
  "pack_blob bs st = Inr st' \<Longrightarrow> alloc_ok (ps_buffer st) \<Longrightarrow> alloc_ok (ps_buffer st')"
  by (auto simp: pack_blob_def Let_def res_simps split: prod.splits dest: alloc_ok_pack_put)

lemma alloc_ok_pack_letter:
  "pack_letter offset c st = Inr st' \<Longrightarrow> alloc_ok (ps_buffer st) \<Longrightarrow> alloc_ok (ps_buffer st')"
  by (auto simp: pack_letter_def Let_def res_simps
      split: if_splits list.splits pack_arg.splits
      dest: alloc_ok_pack_put alloc_ok_pack_string alloc_ok_pack_blob)

lemma alloc_ok_pack_step:
  "pack_step offset c st = Inr st' \<Longrightarrow> alloc_ok (ps_buffer st) \<Longrightarrow> alloc_ok (ps_buffer st')"
  by (auto simp: pack_step_def res_simps dest: alloc_ok_pack_letter split: if_splits)

lemma alloc_ok_pack:
  assumes "alloc_ok b" and "SOS_buffer_pack b offset format args = Inr (b', offset', n)"
  shows "alloc_ok b'"
proof -
  from assms(2) obtain b1 st where r: "pack_reserve b offset = Inr b1"
    and l: "foldR (pack_step offset) format
        \<lparr>ps_buffer = b1, ps_buf = offset, ps_packed = 0, ps_datalen = 0, ps_args = args\<rparr> = Inr st"
    and b': "b' = (ps_buffer st)\<lparr>buf_len := max (buf_len (ps_buffer st)) offset'\<rparr>"
    by (auto simp: SOS_buffer_pack_def Let_def res_simps)
  from r assms(1) have "alloc_ok b1"
    by (auto simp: pack_reserve_def split: if_splits dest: alloc_ok_grow)
  then have "alloc_ok (ps_buffer st)"
    using l by (intro foldR_invariant [where I = "\<lambda>st. alloc_ok (ps_buffer st)", OF _ _ l])
      (auto dest: alloc_ok_pack_step)
  then show ?thesis by (simp add: b' alloc_ok_def)
qed

lemma alloc_ok_unpack_reserve:
  "unpack_reserve b offset = Inr b' \<Longrightarrow> alloc_ok b \<Longrightarrow> alloc_ok b'"
proof (induction b offset rule: unpack_reserve.induct)
  case (1 b offset)
  show ?case
  proof (cases "buf_max b \<le> offset")
    case True
    with 1(2) obtain b1 where "SOS_buffer_grow b (buf_max b) = Inr b1" "unpack_reserve b1 offset = Inr b'"
      by (subst (asm) unpack_reserve.simps) (auto simp: res_simps)
    then show ?thesis using 1(1) [OF True] 1(3) alloc_ok_grow by blast
  next
    case False
    then show ?thesis using 1(2,3) by (subst (asm) unpack_reserve.simps) simp
  qed
qed

lemma unpack_reserve_inside':
  "unpack_reserve b offset = Inr b' \<Longrightarrow> offset < buf_max b'"
proof (induction b offset rule: unpack_reserve.induct)
  case (1 b offset)
  then show ?case
    by (cases "buf_max b \<le> offset") (auto simp: unpack_reserve.simps [of b] res_simps)
qed

section \<open>Properties\<close>



text \<open>
  A call that fits appends: it never leaves the allocated block, keeps every byte before the
  offset, adds exactly the encoding of its arguments, and keeps the buffer well formed.
\<close>

theorem pack_appends:
  assumes "buffer_wf b" and "offset \<le> buf_max b" and "\<forall>a \<in> set args. arg_ok a"
    and "length (encode args) \<le> buf_max b div 2" and "buf_max b + offset + 1 \<le> INT_MAX"
  shows "\<exists>b'. SOS_buffer_pack b offset (map fmt_of args) args =
      Inr (b', offset + length (encode args), length (encode args)) \<and> buffer_wf b' \<and>
    packed_prefix b' (offset + length (encode args)) = packed_prefix b offset @ encode args"
  using SOS_buffer_pack_encode [OF assms] by metis

theorem pack_appends_witness:
  "\<exists>b'. SOS_buffer_pack (SOS_buffer_init_sized 16) 12 ''i'' [ArgI 258] = Inr (b', 16, 4) \<and> buffer_wf b' \<and>
    packed_prefix b' 16 = replicate 12 0 @ SOS_buffer_packi32 258"
  using pack_appends [of "SOS_buffer_init_sized 16" 12 "[ArgI 258]"]
  by (simp add: buffer_wf_def SOS_buffer_init_sized_def SOS_buffer_init_sized_locking_def INT_MAX_def
      packed_prefix_def)



text \<open>
  A string packed alone and read with \<open>SOS_buffer_unpack_safestr\<close> comes back in a fresh
  block that ends with a \<open>NUL\<close>.
\<close>

theorem safestr_roundtrip:
  assumes "buffer_wf b" and "offset \<le> buf_max b" and "wf_cstring s"
    and "4 + length s \<le> buf_max b div 2" and "buf_max b + offset + 1 \<le> INT_MAX"
  shows "\<exists>b'. SOS_buffer_pack b offset ''s'' [ArgS s] = Inr (b', offset + (4 + length s), 4 + length s) \<and>
    SOS_buffer_unpack_safestr b' offset = Inr (b', offset + (4 + length s), Some (s @ [0]))"
proof -
  have ok: "\<forall>a \<in> set [ArgS s]. arg_ok a" and fits: "length (encode [ArgS s]) \<le> buf_max b div 2"
    and len: "length s < INT_MAX"
    using assms by (auto simp: buffer_wf_def)
  obtain b' where p: "SOS_buffer_pack b offset ''s'' [ArgS s] = Inr (b', offset + (4 + length s), 4 + length s)"
    and wf: "buffer_wf b'"
    and pre: "packed_prefix b' (offset + (4 + length s)) = packed_prefix b offset @ encode [ArgS s]"
    using SOS_buffer_pack_encode [OF assms(1,2) ok fits assms(5)] by auto
  have "length (packed_prefix b offset) = offset"
    using assms(1,2) by (simp add: packed_prefix_def buffer_wf_def)
  then have "mem_at offset (encode [ArgS s]) (buf_data b')"
    using packed_prefix_mem_at [of b' _ "packed_prefix b offset" "encode [ArgS s]" "[]"] pre by simp
  then show ?thesis
    using p SOS_buffer_unpack_safestr_ok [OF wf assms(3) len] by blast
qed

theorem safestr_roundtrip_witness:
  "\<exists>b'. SOS_buffer_pack (SOS_buffer_init_sized 32) 0 ''s'' [ArgS (str ''demo'')] = Inr (b', 8, 8) \<and>
    SOS_buffer_unpack_safestr b' 0 = Inr (b', 8, Some (str ''demo'' @ [0]))"
  using safestr_roundtrip [of "SOS_buffer_init_sized 32" 0 "str ''demo''"]
  by (simp add: buffer_wf_def SOS_buffer_init_sized_def SOS_buffer_init_sized_locking_def INT_MAX_def
      wf_cstring_def str_def byte_of_char_def)

text \<open>
  The growth test of the string case forgets the length field: a string that ends less than
  four bytes before the end of the block is written past it.
\<close>

theorem pack_string_gap_overflows:
  assumes "buffer_wf b" and "offset \<le> buf_max b div 2" and "wf_cstring s"
    and "offset + length s < buf_max b" and "buf_max b < offset + length s + 4"
  shows "SOS_buffer_pack b offset ''s'' [ArgS s] = Inl Out_Of_Bounds"
proof -
  let ?st = "\<lparr>ps_buffer = b, ps_buf = offset, ps_packed = 0, ps_datalen = 0, ps_args = []\<rparr>"
  have "pack_string offset s ?st = Inl Out_Of_Bounds"
  proof (cases "offset + 4 \<le> buf_max b")
    case True
    then have "pack_put (SOS_buffer_packi32 (word_of_nat (length s))) ?st =
        Inr (put_bytes (SOS_buffer_packi32 (word_of_nat (length s))) ?st)"
      using assms(1) by (intro pack_put_ok) (simp add: buffer_wf_def)
    moreover have "length (buf_data (ps_buffer (put_bytes (SOS_buffer_packi32 (word_of_nat (length s))) ?st))) = buf_max b"
      using assms(1) True by (subst length_put_bytes) (simp_all add: buffer_wf_def)
    ultimately show ?thesis
      using assms by (simp add: pack_string_def pack_put_def [of s] mem_write_oob Let_def)
  next
    case False
    then show ?thesis
      using assms by (simp add: pack_string_def pack_put_def mem_write_oob Let_def buffer_wf_def)
  qed
  then show ?thesis
    using assms(2) by (simp add: SOS_buffer_pack_def pack_reserve_def pack_step_def pack_letter_def)
qed

theorem pack_string_gap_overflows_witness:
  "SOS_buffer_pack (SOS_buffer_init_sized 8) 0 ''s'' [ArgS (str ''abcdef'')] = Inl Out_Of_Bounds"
  using pack_string_gap_overflows [of "SOS_buffer_init_sized 8" 0 "str ''abcdef''"]
  by (simp add: buffer_wf_def SOS_buffer_init_sized_def SOS_buffer_init_sized_locking_def INT_MAX_def
      wf_cstring_def str_def byte_of_char_def)

text \<open>
  When a later string of a call makes the buffer grow, the cursor restarts at the offset:
  the integer packed before it is overwritten by the string, although the call counts both.
\<close>

theorem pack_growth_overwrites:
  assumes "buffer_wf b" and "offset \<le> buf_max b div 2" and "offset + 4 \<le> buf_max b" and "wf_cstring s"
    and "buf_max b \<le> offset + length s"
    and "buf_max b + length s + SOS_DEFAULT_BUFFER_MAX + 1 \<le> INT_MAX"
  shows "\<exists>b'. SOS_buffer_pack b offset ''is'' [ArgI i, ArgS s] = Inr (b', offset + (8 + length s), 8 + length s) \<and>
    mem_at offset (encode [ArgS s]) (buf_data b')"
proof -
  let ?st0 = "\<lparr>ps_buffer = b, ps_buf = offset, ps_packed = 0, ps_datalen = 0, ps_args = [ArgI i, ArgS s]\<rparr>"
  let ?st1 = "(put_bytes (SOS_buffer_packi32 i) ?st0)\<lparr>ps_args := [ArgS s]\<rparr>"
  let ?g = "grown (ps_buffer ?st1) (length s + SOS_DEFAULT_BUFFER_MAX + 1)"
  let ?st2 = "put_bytes (enc_arg (ArgS s)) (?st1\<lparr>ps_args := [], ps_buffer := ?g, ps_buf := offset\<rparr>)"
  have s1: "pack_step offset CHR ''i'' ?st0 = Inr ?st1"
    using pack_step_ok [of "ArgI i" ?st0 "[ArgS s]" offset] assms by (simp add: buffer_wf_def)
  have len: "length (buf_data (ps_buffer ?st1)) = buf_max b"
    using assms(1,3) by (simp add: buffer_wf_def)
  have "pack_string offset s (?st1\<lparr>ps_args := []\<rparr>) = Inr ?st2"
    using pack_string_grow [of s "?st1\<lparr>ps_args := []\<rparr>" offset] assms len by simp
  then have "foldR (pack_step offset) ''is'' ?st0 = Inr (?st2\<lparr>ps_datalen := 0\<rparr>)"
    using s1 by (simp add: pack_step_def [of _ "CHR ''s''"] pack_letter_def isdigit_def)
  moreover have "mem_at offset (encode [ArgS s]) (buf_data (ps_buffer ?st2))"
    using assms(2) len by (simp add: put_bytes_def [of "_ @ _"] mem_at_def SOS_DEFAULT_BUFFER_MAX_def)
  ultimately show ?thesis
    using assms(2) by (simp add: SOS_buffer_pack_def pack_reserve_def Let_def)
qed

theorem pack_growth_overwrites_witness:
  "\<exists>b'. SOS_buffer_pack (SOS_buffer_init_sized 4) 0 ''is'' [ArgI 7, ArgS (str ''abcd'')] = Inr (b', 12, 12) \<and>
    mem_at 0 (encode [ArgS (str ''abcd'')]) (buf_data b')"
  using pack_growth_overwrites [of "SOS_buffer_init_sized 4" 0 "str ''abcd''" 7]
  by (simp add: buffer_wf_def SOS_buffer_init_sized_def SOS_buffer_init_sized_locking_def INT_MAX_def
      wf_cstring_def str_def byte_of_char_def SOS_DEFAULT_BUFFER_MAX_def)

text \<open>
  The growth loop of \<open>SOS_buffer_pack_bytes\<close> stops one byte early: data that ends one byte
  past the block is written there.
\<close>

theorem pack_bytes_overflows_by_one:
  assumes "buffer_wf b" and "offset \<le> buf_max b div 2" and "bs \<noteq> []"
    and "offset + 4 + length bs = buf_max b + 1"
  shows "SOS_buffer_pack_bytes b offset (int (length bs)) bs = Inl Out_Of_Bounds"
proof -
  have n: "\<not> int (length bs) < 1" using assms(3) by (cases bs) simp_all
  obtain d1 where w1: "mem_write offset (SOS_buffer_packi32 (word_of_nat (length bs))) (buf_data b) = Inr d1"
    using assms by (cases bs) (auto simp: buffer_wf_def mem_write_def)
  then have "mem_write (offset + 4) bs d1 = Inl Out_Of_Bounds"
    using assms(1,4) mem_write_length [OF w1] by (simp add: buffer_wf_def mem_write_def)
  then show ?thesis
    using assms(2,4) n w1
    by (simp add: SOS_buffer_pack_bytes_def pack_bytes_room_fits Let_def mem_read_def)
qed

theorem pack_bytes_overflows_by_one_witness:
  "SOS_buffer_pack_bytes (SOS_buffer_init_sized 8) 0 5 [1, 2, 3, 4, 5] = Inl Out_Of_Bounds"
  using pack_bytes_overflows_by_one [of "SOS_buffer_init_sized 8" 0 "[1, 2, 3, 4, 5]"]
  by (simp add: buffer_wf_def SOS_buffer_init_sized_def SOS_buffer_init_sized_locking_def INT_MAX_def)

end
