(* ===== verification/SOS_Msg.thy ===== *)
theory SOS_Msg
  imports SOS_Pack
begin

text \<open>
  The message envelope of \<open>sos.c\<close> (\<open>SOS_msg_zip\<close>, \<open>SOS_msg_unzip\<close>, \<open>SOS_msg_seal\<close>): a
  header of 24 bytes with the message size, its type, the sender and the object it is about.
  The optional Munge credential (\<open>USE_MUNGE\<close>) is not part of the modelled build.

  \<open>building\<close> says what a sender knows of a message under construction; its lemmas carry the
  encoders of announcements, publications, snapshots and query results.
\<close>

section \<open>The header\<close>

record SOS_msg_header =
  hd_msg_size :: i32
  hd_msg_type :: i32
  hd_msg_from :: u64
  hd_ref_guid :: u64

definition header_args :: "SOS_msg_header \<Rightarrow> pack_arg list" where
  "header_args h = [ArgI (hd_msg_size h), ArgI (hd_msg_type h), ArgG (hd_msg_from h), ArgG (hd_ref_guid h)]"

text \<open>The mutex of a message buffer is taken and released directly, not by \<open>SOS_buffer_lock\<close>.\<close>

definition msg_lock :: "SOS_buffer \<Rightarrow> SOS_buffer res" where
  "msg_lock msg =
     (if buf_is_locking msg then checkR (\<not> buf_lock msg) Deadlock (Inr (msg\<lparr>buf_lock := True\<rparr>)) else Inr msg)"

definition msg_unlock :: "SOS_buffer \<Rightarrow> SOS_buffer" where
  "msg_unlock msg = (if buf_is_locking msg then msg\<lparr>buf_lock := False\<rparr> else msg)"

text \<open>Each returns the buffer, the offset after the header and the result of the C function.\<close>

definition SOS_msg_zip :: "SOS_buffer \<Rightarrow> SOS_msg_header \<Rightarrow> nat \<Rightarrow> (SOS_buffer \<times> nat \<times> nat) res" where
  "SOS_msg_zip msg header starting_offset =
     bindR (msg_lock msg) (\<lambda>msg1.
     bindR (SOS_buffer_pack msg1 starting_offset ''iigg'' (header_args header)) (\<lambda>(msg2, offset, _).
     Inr (msg_unlock (msg2\<lparr>buf_is_zipped := True\<rparr>), offset, offset - starting_offset)))"

definition header_of_outs :: "unpack_val list \<Rightarrow> SOS_msg_header res" where
  "header_of_outs outs =
     (case outs of
        [OutI sz, OutI ty, OutG sender, OutG ref] \<Rightarrow>
          Inr \<lparr>hd_msg_size = sz, hd_msg_type = ty, hd_msg_from = sender, hd_ref_guid = ref\<rparr>
      | _ \<Rightarrow> Inl Bad_Argument)"

text \<open>\<open>SOS_msg_unzip\<close> releases the mutex where it means to take it.\<close>

definition SOS_msg_unzip :: "SOS_buffer \<Rightarrow> nat \<Rightarrow> (SOS_buffer \<times> SOS_msg_header \<times> nat) res" where
  "SOS_msg_unzip msg starting_offset =
     bindR (SOS_buffer_unpack (msg_unlock msg) starting_offset ''iigg'' [DestI, DestI, DestG, DestG]) (\<lambda>(msg1, offset, _, outs).
     bindR (header_of_outs outs) (\<lambda>header.
     Inr (msg_unlock (msg1\<lparr>buf_is_zipped := False\<rparr>), header, offset)))"

definition SOS_msg_seal :: "SOS_buffer \<Rightarrow> SOS_msg_header \<Rightarrow> nat \<Rightarrow> (SOS_buffer \<times> nat) res" where
  "SOS_msg_seal msg header starting_offset =
     bindR (msg_lock msg) (\<lambda>msg1.
     bindR (SOS_buffer_pack msg1 starting_offset ''i'' [ArgI (hd_msg_size header)]) (\<lambda>(msg2, offset, _).
     Inr (msg_unlock msg2, offset)))"

section \<open>Building a message\<close>

text \<open>
  \<open>building b offset bs\<close>: the bytes packed so far are \<open>bs\<close>. The bound on \<open>max\<close> is what
  \<open>pack_reserve\<close> keeps, because it grows only a buffer that is less than twice the offset; with
  it no message below \<open>MSG_LIMIT\<close> bytes can overflow an \<open>int\<close>.
\<close>

definition MSG_LIMIT :: nat where
  "MSG_LIMIT = 500000000"

definition building :: "SOS_buffer \<Rightarrow> nat \<Rightarrow> byte list \<Rightarrow> bool" where
  "building b offset bs \<longleftrightarrow>
     buffer_wf b \<and> offset = length bs \<and> packed_prefix b offset = bs \<and> buf_len b = offset \<and>
     SOS_DEFAULT_BUFFER_MAX \<le> buf_max b \<and> buf_max b \<le> 3 * MSG_LIMIT + 3"

lemma building_bound: "building b offset bs \<Longrightarrow> offset \<le> buf_max b"
  by (auto simp: building_def buffer_wf_def)

lemma building_pack:
  assumes "building b offset bs" and "\<forall>a \<in> set args. arg_ok a"
    and "length (encode args) \<le> SOS_DEFAULT_BUFFER_MAX div 2" and "offset \<le> MSG_LIMIT"
  obtains b' where "SOS_buffer_pack b offset (map fmt_of args) args =
      Inr (b', offset + length (encode args), length (encode args))"
    and "building b' (offset + length (encode args)) (bs @ encode args)"
    and "buf_is_locking b' = buf_is_locking b" and "buf_lock b' = buf_lock b"
    and "buf_is_zipped b' = buf_is_zipped b"
proof -
  let ?n = "length (encode args)"
  have b: "buffer_wf b" "offset = length bs" "packed_prefix b offset = bs" "buf_len b = offset"
      "SOS_DEFAULT_BUFFER_MAX \<le> buf_max b" "buf_max b \<le> 3 * MSG_LIMIT + 3"
    using assms(1) by (auto simp: building_def)
  have room: "?n \<le> buf_max b div 2" using assms(3) b(5) by linarith
  have small: "buf_max b + offset + 1 \<le> INT_MAX"
    using b(6) assms(4) by (simp add: MSG_LIMIT_def INT_MAX_def SOS_DEFAULT_BUFFER_MAX_def)
  obtain b' where b': "SOS_buffer_pack b offset (map fmt_of args) args = Inr (b', offset + ?n, ?n)" "buffer_wf b'"
      "packed_prefix b' (offset + ?n) = packed_prefix b offset @ encode args"
      "buf_len b' = max (buf_len b) (offset + ?n)" "buf_is_locking b' = buf_is_locking b" "buf_lock b' = buf_lock b"
      "buf_is_zipped b' = buf_is_zipped b" "buf_max b' = (if buf_max b div 2 < offset then buf_max b + offset + 1 else buf_max b)"
    using SOS_buffer_pack_encode [OF b(1) building_bound [OF assms(1)] assms(2) room small] by metis
  have "buf_max b' \<le> 3 * MSG_LIMIT + 3"
    using b(6) b'(8) assms(4) by (auto split: if_splits)
  then have "building b' (offset + ?n) (bs @ encode args)"
    using b b' by (simp add: building_def)
  then show ?thesis using that b' by blast
qed


text \<open>Packing over bytes that are already there changes just these.\<close>

lemma SOS_buffer_pack_inplace:
  assumes "length (buf_data b) = buf_max b" and "offset \<le> buf_max b div 2" and "\<forall>a \<in> set args. arg_ok a"
    and "offset + length (encode args) \<le> buf_max b"
  shows "SOS_buffer_pack b offset (map fmt_of args) args =
    Inr (b\<lparr>buf_data := take offset (buf_data b) @ encode args @ drop (offset + length (encode args)) (buf_data b),
           buf_len := max (buf_len b) (offset + length (encode args))\<rparr>,
      offset + length (encode args), length (encode args))"
proof -
  let ?st = "\<lparr>ps_buffer = b, ps_buf = offset, ps_packed = 0, ps_datalen = 0, ps_args = args\<rparr>"
  have "foldR (pack_step offset) (map fmt_of args) ?st = Inr ((put_bytes (encode args) ?st)\<lparr>ps_args := []\<rparr>)"
    using assms by (intro pack_loop_ok) auto
  then show ?thesis
    using assms(2) by (simp add: SOS_buffer_pack_def pack_reserve_def Let_def put_bytes_def)
qed

lemma header_args_ok [simp]: "\<forall>a \<in> set (header_args h). arg_ok a"
  and fmt_header [simp]: "map fmt_of (header_args h) = ''iigg''"
  and length_header [simp]: "length (encode (header_args h)) = 24"
  by (auto simp: header_args_def)

lemma msg_lock_free: "\<not> buf_lock msg \<Longrightarrow> msg_lock msg = Inr (msg\<lparr>buf_lock := buf_is_locking msg\<rparr>)"
  by (cases msg) (simp add: msg_lock_def)

lemma building_lock [simp]: "building (msg\<lparr>buf_lock := l\<rparr>) offset bs = building msg offset bs"
  and building_zipped [simp]: "building (msg\<lparr>buf_is_zipped := z\<rparr>) offset bs = building msg offset bs"
  by (simp_all add: building_def buffer_wf_def packed_prefix_def)

lemma building_msg_unlock [simp]: "building (msg_unlock msg) offset bs = building msg offset bs"
  by (simp add: msg_unlock_def)

text \<open>The first \<open>SOS_msg_zip\<close> of a message writes its header at the start.\<close>

lemma SOS_msg_zip_start:
  assumes "building msg 0 []" and "\<not> buf_lock msg"
  obtains msg' where "SOS_msg_zip msg header 0 = Inr (msg', 24, 24)"
    and "building msg' 24 (encode (header_args header))" and "\<not> buf_lock msg'"
    and "buf_is_locking msg' = buf_is_locking msg"
proof -
  let ?m = "msg\<lparr>buf_lock := buf_is_locking msg\<rparr>"
  have "building ?m 0 []" using assms(1) by simp
  from building_pack [OF this header_args_ok [of header]] obtain m1 where
    m1: "SOS_buffer_pack ?m 0 ''iigg'' (header_args header) = Inr (m1, 24, 24)"
      "building m1 24 (encode (header_args header))" "buf_is_locking m1 = buf_is_locking msg"
      "buf_lock m1 = buf_is_locking msg"
    by (auto simp: SOS_DEFAULT_BUFFER_MAX_def)
  show ?thesis
  proof (rule that [of "msg_unlock (m1\<lparr>buf_is_zipped := True\<rparr>)"])
    show "SOS_msg_zip msg header 0 = Inr (msg_unlock (m1\<lparr>buf_is_zipped := True\<rparr>), 24, 24)"
      using assms(2) m1(1) by (simp add: SOS_msg_zip_def msg_lock_free)
  qed (use m1 in \<open>auto simp: msg_unlock_def\<close>)
qed

text \<open>The last one replaces the header, now with the size, and keeps the rest of the message.\<close>

lemma SOS_msg_zip_again:
  assumes "building msg offset (encode (header_args h0) @ body)" and "\<not> buf_lock msg"
  obtains msg' where "SOS_msg_zip msg header 0 = Inr (msg', 24, 24)"
    and "building msg' offset (encode (header_args header) @ body)" and "\<not> buf_lock msg'"
    and "buf_is_locking msg' = buf_is_locking msg"
proof -
  let ?m = "msg\<lparr>buf_lock := buf_is_locking msg\<rparr>"
  let ?m1 = "?m\<lparr>buf_data := encode (header_args header) @ drop 24 (buf_data msg)\<rparr>"
  have b: "buffer_wf msg" "offset = 24 + length body" "buf_len msg = offset"
      "take offset (buf_data msg) = encode (header_args h0) @ body" "offset \<le> length (buf_data msg)"
    using assms(1) building_bound [OF assms(1)] by (auto simp: building_def packed_prefix_def buffer_wf_def)
  have pack: "SOS_buffer_pack ?m 0 ''iigg'' (header_args header) = Inr (?m1, 24, 24)"
    using SOS_buffer_pack_inplace [of ?m 0 "header_args header"] b by (simp add: buffer_wf_def)
  have "take (length body) (drop 24 (buf_data msg)) = body"
  proof -
    have "drop 24 (take offset (buf_data msg)) = body" using b(4) by simp
    then show ?thesis using b(2) by (simp add: drop_take)
  qed
  then have "building ?m1 offset (encode (header_args header) @ body)"
    using assms(1) b by (auto simp: building_def packed_prefix_def buffer_wf_def)
  moreover have "SOS_msg_zip msg header 0 = Inr (msg_unlock (?m1\<lparr>buf_is_zipped := True\<rparr>), 24, 24)"
    using assms(2) pack by (simp add: SOS_msg_zip_def msg_lock_free)
  moreover have "\<not> buf_lock (msg_unlock (?m1\<lparr>buf_is_zipped := True\<rparr>))"
    and "buf_is_locking (msg_unlock (?m1\<lparr>buf_is_zipped := True\<rparr>)) = buf_is_locking msg"
    by (simp_all add: msg_unlock_def)
  ultimately show ?thesis using that building_msg_unlock building_zipped by metis
qed

text \<open>
  Reading at a position of a finished message: \<open>holding b n bs\<close> says that the first \<open>n\<close> bytes of the buffer are \<open>bs\<close>,
  whatever its size and length field.
\<close>

definition holding :: "SOS_buffer \<Rightarrow> nat \<Rightarrow> byte list \<Rightarrow> bool" where
  "holding b n bs \<longleftrightarrow> buffer_wf b \<and> n = length bs \<and> packed_prefix b n = bs"

lemma building_holding: "building b n bs \<Longrightarrow> holding b n bs"
  by (auto simp: building_def holding_def)

lemma holding_zipped [simp]: "holding (msg\<lparr>buf_is_zipped := z\<rparr>) n bs = holding msg n bs"
  and holding_msg_unlock [simp]: "holding (msg_unlock msg) n bs = holding msg n bs"
  by (simp_all add: holding_def msg_unlock_def buffer_wf_def packed_prefix_def)

lemma holding_mem_at: "holding b offset (xs @ ys @ zs) \<Longrightarrow> mem_at (length xs) ys (buf_data b)"
  by (rule packed_prefix_mem_at [of _ offset _ _ zs]) (auto simp: holding_def)

lemma holding_unpack:
  assumes "holding b offset (xs @ encode args @ zs)" and "\<forall>a \<in> set args. arg_ok a" and "args \<noteq> []"
    and "outs_of args dests = Some outs"
  shows "SOS_buffer_unpack b (length xs) (map fmt_of args) dests =
    Inr (b, length xs + length (encode args), length (encode args), outs)"
  using SOS_buffer_unpack_encode [OF _ assms(2,3) holding_mem_at [OF assms(1)] assms(4)] assms(1)
  by (simp add: holding_def)

lemmas building_unpack = holding_unpack [OF building_holding]

lemma SOS_msg_unzip_held:
  assumes "holding msg offset (encode (header_args header) @ body)"
  shows "SOS_msg_unzip msg 0 = Inr (msg_unlock (msg\<lparr>buf_is_zipped := False\<rparr>), header, 24)"
proof -
  have "SOS_buffer_unpack (msg_unlock msg) 0 ''iigg'' [DestI, DestI, DestG, DestG] =
      Inr (msg_unlock msg, 24, 24,
        [OutI (hd_msg_size header), OutI (hd_msg_type header), OutG (hd_msg_from header), OutG (hd_ref_guid header)])"
    using holding_unpack [of "msg_unlock msg" offset "[]" "header_args header" body] assms
    by (simp add: header_args_def)
  then show ?thesis
    by (cases header) (auto simp: SOS_msg_unzip_def header_of_outs_def msg_unlock_def)
qed

lemmas SOS_msg_unzip_ok = SOS_msg_unzip_held [OF building_holding]


section \<open>Properties\<close>

text \<open>
  C9: A message built the way every sender builds it (header with a dummy size, body, header
  again with the size) carries the final header and the body: \<open>SOS_msg_unzip\<close> returns the
  header, whose size field is the offset after the body, and \<open>SOS_buffer_unpack\<close> from the
  offset it returns gives the body's values.
\<close>

theorem message_roundtrip:
  assumes "building msg 0 []" and "\<not> buf_lock msg" and "\<forall>a \<in> set args. arg_ok a" and "args \<noteq> []"
    and "length (encode args) \<le> SOS_DEFAULT_BUFFER_MAX div 2" and "outs_of args dests = Some outs"
  shows "\<exists>m1 m2 m3 off. SOS_msg_zip msg (header\<lparr>hd_msg_size := - 1\<rparr>) 0 = Inr (m1, 24, 24) \<and>
    SOS_buffer_pack m1 24 (map fmt_of args) args = Inr (m2, off, off - 24) \<and>
    SOS_msg_zip m2 (header\<lparr>hd_msg_size := word_of_nat off\<rparr>) 0 = Inr (m3, 24, 24) \<and>
    (\<exists>m4. SOS_msg_unzip m3 0 = Inr (m4, header\<lparr>hd_msg_size := word_of_nat off\<rparr>, 24) \<and>
      SOS_buffer_unpack m4 24 (map fmt_of args) dests = Inr (m4, off, off - 24, outs))"
proof -
  let ?dummy = "header\<lparr>hd_msg_size := - 1\<rparr>" and ?off = "24 + length (encode args)"
  let ?h = "header\<lparr>hd_msg_size := word_of_nat ?off\<rparr>"
  obtain m1 where m1: "SOS_msg_zip msg ?dummy 0 = Inr (m1, 24, 24)" "building m1 24 (encode (header_args ?dummy))" "\<not> buf_lock m1"
    using SOS_msg_zip_start [OF assms(1,2)] by metis
  obtain m2 where m2: "SOS_buffer_pack m1 24 (map fmt_of args) args = Inr (m2, ?off, length (encode args))"
      "building m2 ?off (encode (header_args ?dummy) @ encode args)" "\<not> buf_lock m2"
    using building_pack [OF m1(2) assms(3,5)] m1(3) by (auto simp: MSG_LIMIT_def)
  obtain m3 where m3: "SOS_msg_zip m2 ?h 0 = Inr (m3, 24, 24)" "building m3 ?off (encode (header_args ?h) @ encode args)"
    using SOS_msg_zip_again [OF m2(2,3)] by metis
  let ?m4 = "msg_unlock (m3\<lparr>buf_is_zipped := False\<rparr>)"
  have "SOS_msg_unzip m3 0 = Inr (?m4, ?h, 24)" by (rule SOS_msg_unzip_ok [OF m3(2)])
  moreover have "building ?m4 ?off (encode (header_args ?h) @ encode args @ [])" using m3(2) by simp
  from building_unpack [OF this assms(3,4,6)]
  have "SOS_buffer_unpack ?m4 24 (map fmt_of args) dests = Inr (?m4, ?off, length (encode args), outs)" by simp
  ultimately show ?thesis
    using m1(1) m2(1) m3(1) by (metis diff_add_inverse)
qed

theorem message_roundtrip_witness:
  "\<exists>m1 m2 m3 off. SOS_msg_zip SOS_buffer_init \<lparr>hd_msg_size = - 1, hd_msg_type = 7, hd_msg_from = 5, hd_ref_guid = 0\<rparr> 0 = Inr (m1, 24, 24) \<and>
    SOS_buffer_pack m1 24 ''l'' [ArgL 3] = Inr (m2, off, off - 24) \<and>
    SOS_msg_zip m2 \<lparr>hd_msg_size = word_of_nat off, hd_msg_type = 7, hd_msg_from = 5, hd_ref_guid = 0\<rparr> 0 = Inr (m3, 24, 24) \<and>
    (\<exists>m4. SOS_msg_unzip m3 0 = Inr (m4, \<lparr>hd_msg_size = word_of_nat off, hd_msg_type = 7, hd_msg_from = 5, hd_ref_guid = 0\<rparr>, 24) \<and>
      SOS_buffer_unpack m4 24 ''l'' [DestL] = Inr (m4, off, off - 24, [OutL 3]))"
  using message_roundtrip [of SOS_buffer_init "[ArgL 3]" "[DestL]" "[OutL 3]"
      "\<lparr>hd_msg_size = 0, hd_msg_type = 7, hd_msg_from = 5, hd_ref_guid = 0\<rparr>"]
  by (simp add: building_def MSG_LIMIT_def buffer_wf_def SOS_buffer_init_def SOS_buffer_init_sized_locking_def packed_prefix_def
      SOS_DEFAULT_BUFFER_MAX_def INT_MAX_def)

text \<open>
  \<open>SOS_msg_unzip\<close> does not take the buffer's mutex, it releases it: a caller that holds the
  lock of a message has lost it when the call returns.
\<close>

theorem msg_unzip_drops_lock:
  assumes "buf_is_locking msg" and "buf_lock msg" and "building msg offset (encode (header_args header) @ body)"
  shows "\<exists>msg'. SOS_msg_unzip msg 0 = Inr (msg', header, 24) \<and> \<not> buf_lock msg'"
  using SOS_msg_unzip_ok [OF assms(3)] assms(1) by (simp add: msg_unlock_def)

theorem msg_unzip_drops_lock_witness:
  "\<exists>msg msg' header. buf_lock msg \<and> SOS_msg_unzip msg 0 = Inr (msg', header, 24) \<and> \<not> buf_lock msg'"
proof -
  let ?h = "\<lparr>hd_msg_size = 24, hd_msg_type = 1, hd_msg_from = 0, hd_ref_guid = 0\<rparr>"
  let ?m = "SOS_buffer_init\<lparr>buf_lock := True, buf_len := 24,
      buf_data := encode (header_args ?h) @ replicate 4072 0\<rparr>"
  have "building ?m 24 (encode (header_args ?h) @ [])"
    by (simp add: building_def MSG_LIMIT_def buffer_wf_def SOS_buffer_init_def SOS_buffer_init_sized_locking_def packed_prefix_def
        SOS_DEFAULT_BUFFER_MAX_def INT_MAX_def)
  moreover have locked: "buf_is_locking ?m" "buf_lock ?m"
    by (simp_all add: SOS_buffer_init_def SOS_buffer_init_sized_locking_def)
  ultimately show ?thesis using msg_unzip_drops_lock [OF locked] by blast
qed

end
