(* ===== verification/SOS_Uid.thy ===== *)
theory SOS_Uid
  imports SOS_Msg
begin

text \<open>
  The identifiers of clients, publications and values: the pool a process draws from
  (\<open>SOS_uid_init\<close>, \<open>SOS_uid_next\<close> of \<open>sos.c\<close>), the share of a daemon and the blocks it
  hands out (\<open>SOSD_init\<close>, \<open>SOSD_claim_guid_block\<close>, \<open>SOSD_handle_guid_block\<close> and
  \<open>SOSD_handle_register\<close> of \<open>sosd.c\<close>).

  The lemmas show that no identifier is handed out twice: the ranges of the daemons are
  disjoint, the blocks of one daemon are disjoint, and a pool yields each of its values once.
\<close>

section \<open>Identifier pools\<close>

record SOS_uid =
  uid_next :: u64
  uid_last :: u64
  uid_lock :: bool

definition SOS_uid_init :: "u64 \<Rightarrow> u64 \<Rightarrow> SOS_uid" where
  "SOS_uid_init set_from set_to =
     \<lparr>uid_next = (if 0 < set_from then set_from else 1),
      uid_last = (if set_to < SOS_DEFAULT_UID_MAX then set_to else SOS_DEFAULT_UID_MAX),
      uid_lock = False\<rparr>"

definition SOS_uid_destroy :: "SOS_uid \<Rightarrow> unit res" where
  "SOS_uid_destroy uid = checkR (\<not> uid_lock uid) Deadlock (Inr ())"

text \<open>
  The request for a new block: \<open>send\<close> stands for \<open>SOS_send_to_daemon\<close>, which takes the
  message and the reply buffer and returns the reply buffer as it was filled.
\<close>

definition uid_request_msg :: "u64 \<Rightarrow> SOS_buffer res" where
  "uid_request_msg my_guid =
     (let header = \<lparr>hd_msg_size = - 1, hd_msg_type = enum_code SOS_msg_type_vals SOS_MSG_TYPE_GUID_BLOCK,
                    hd_msg_from = my_guid, hd_ref_guid = 0\<rparr>
      in bindR (SOS_msg_zip (SOS_buffer_init_sized_locking 24 False) header 0) (\<lambda>(buf, offset, _).
         bindR (SOS_msg_zip buf (header\<lparr>hd_msg_size := word_of_nat offset\<rparr>) 0) (\<lambda>(buf, _, _). Inr buf)))"

definition unpack_guid :: "SOS_buffer \<Rightarrow> nat \<Rightarrow> (SOS_buffer \<times> nat \<times> u64) res" where
  "unpack_guid b offset =
     bindR (SOS_buffer_unpack b offset ''g'' [DestG]) (\<lambda>(b, offset, _, outs).
       case outs of [OutG g] \<Rightarrow> Inr (b, offset, g) | _ \<Rightarrow> Inl Bad_Argument)"

definition uid_refill :: "(SOS_buffer \<Rightarrow> SOS_buffer \<Rightarrow> SOS_buffer res) \<Rightarrow> u64 \<Rightarrow> bool \<Rightarrow> SOS_uid \<Rightarrow> SOS_uid res" where
  "uid_refill send my_guid offline_test_mode uid =
     bindR (uid_request_msg my_guid) (\<lambda>buf.
     bindR (send buf (SOS_buffer_init_sized_locking SOS_DEFAULT_BUFFER_MAX False)) (\<lambda>reply.
     bindR (SOS_msg_unzip reply 0) (\<lambda>(reply, header, offset).
     bindR (if offline_test_mode then Inr (reply, uid)
            else bindR (unpack_guid reply offset) (\<lambda>(reply, offset, nxt).
                 bindR (unpack_guid reply offset) (\<lambda>(reply, _, lst).
                 Inr (reply, uid\<lparr>uid_next := nxt, uid_last := lst\<rparr>)))) (\<lambda>(reply, uid).
     bindR (SOS_buffer_destroy (Some buf)) (\<lambda>_.
     bindR (SOS_buffer_destroy (Some reply)) (\<lambda>_.
     Inr uid))))))"

definition SOS_uid_next ::
    "(SOS_buffer \<Rightarrow> SOS_buffer \<Rightarrow> SOS_buffer res) \<Rightarrow> SOS_role \<Rightarrow> u64 \<Rightarrow> bool \<Rightarrow> SOS_uid \<Rightarrow> (SOS_uid \<times> u64) res" where
  "SOS_uid_next send role my_guid offline_test_mode uid0 =
     checkR (\<not> uid_lock uid0) Deadlock
       (let next_serial = uid_next uid0;
            uid = uid0\<lparr>uid_lock := True, uid_next := uid_next uid0 + 1\<rparr>
        in bindR (if uid_last uid < uid_next uid
                  then if role = SOS_ROLE_LISTENER \<or> role = SOS_ROLE_AGGREGATOR then Inl Exit_Failure
                       else uid_refill send my_guid offline_test_mode uid
                  else Inr uid) (\<lambda>uid.
           Inr (uid\<lparr>uid_lock := False\<rparr>, next_serial)))"

section \<open>The daemon's side\<close>

text \<open>The range of a daemon: each rank gets an equal share of the identifiers.\<close>

definition SOSD_guid_range :: "i32 \<Rightarrow> i32 \<Rightarrow> SOS_uid" where
  "SOSD_guid_range comm_size comm_rank =
     (let guid_block_size = SOS_DEFAULT_UID_MAX div scast comm_size;
          guid_my_first = scast comm_rank * guid_block_size
      in SOS_uid_init guid_my_first (guid_my_first + (guid_block_size - 1)))"

definition SOSD_claim_guid_block :: "SOS_uid \<Rightarrow> i32 \<Rightarrow> (SOS_uid \<times> u64 \<times> u64) res" where
  "SOSD_claim_guid_block uid size0 =
     checkR (\<not> uid_lock uid) Deadlock
       (let sz = scast size0
        in if uid_last uid < uid_next uid + sz
           then Inr (uid\<lparr>uid_next := uid_last uid + 1\<rparr>, uid_next uid, uid_last uid)
           else Inr (uid\<lparr>uid_next := uid_next uid + sz + 1\<rparr>, uid_next uid, uid_next uid + sz))"

definition SOSD_PACK_ACK :: "SOS_buffer \<Rightarrow> SOS_buffer res" where
  "SOSD_PACK_ACK buffer =
     (let header = \<lparr>hd_msg_size = - 1, hd_msg_type = enum_code SOS_msg_type_vals SOS_MSG_TYPE_ACK,
                    hd_msg_from = 0, hd_ref_guid = 0\<rparr>
      in bindR (SOS_msg_zip buffer header 0) (\<lambda>(b, offset, _).
         bindR (SOS_msg_zip b (header\<lparr>hd_msg_size := word_of_nat offset\<rparr>) 0) (\<lambda>(b, _, _). Inr b)))"

text \<open>
  The handlers return the pool and the reply buffer they hand to \<open>send\<close>, whose result they
  only log; the buffer is destroyed afterwards.
\<close>

definition SOSD_handle_guid_block :: "i32 \<Rightarrow> SOS_uid \<Rightarrow> (SOS_uid \<times> SOS_buffer) res" where
  "SOSD_handle_guid_block comm_rank guid =
     (let reply = SOS_buffer_init_sized_locking SOS_DEFAULT_BUFFER_MAX False
      in bindR (SOSD_claim_guid_block guid (ucast SOS_DEFAULT_GUID_BLOCK)) (\<lambda>(guid, block_from, block_to).
         let header = \<lparr>hd_msg_size = - 1, hd_msg_type = enum_code SOS_msg_type_vals SOS_MSG_TYPE_GUID_BLOCK,
                       hd_msg_from = scast comm_rank, hd_ref_guid = 0\<rparr>
         in bindR (SOS_msg_zip reply header 0) (\<lambda>(reply, offset, _).
            bindR (SOS_buffer_pack reply offset ''gg'' [ArgG block_from, ArgG block_to]) (\<lambda>(reply, offset, _).
            bindR (SOS_msg_zip reply (header\<lparr>hd_msg_size := word_of_nat offset\<rparr>) 0) (\<lambda>(reply, _, _).
            bindR (SOS_buffer_destroy (Some reply)) (\<lambda>_. Inr (guid, reply)))))))"

definition register_reply_refused :: "SOS_buffer \<Rightarrow> SOS_msg_header \<Rightarrow> i32 \<Rightarrow> (SOS_buffer \<times> SOS_msg_header) res" where
  "register_reply_refused reply header server_uid =
     bindR (SOS_msg_zip reply header 0) (\<lambda>(reply, offset, _).
     bindR (SOS_buffer_pack reply offset ''ggiii''
              [ArgG 0, ArgG 0, ArgI SOS_VERSION_MAJOR, ArgI SOS_VERSION_MINOR, ArgI server_uid]) (\<lambda>(reply, offset, _).
     let header = header\<lparr>hd_msg_size := word_of_nat offset\<rparr>
     in bindR (SOS_msg_zip reply header 0) (\<lambda>(reply, _, _). Inr (reply, header))))"

definition register_reply_guids :: "SOS_buffer \<Rightarrow> i32 \<Rightarrow> i32 \<Rightarrow> u64 \<Rightarrow> u64 \<Rightarrow> SOS_buffer res" where
  "register_reply_guids reply comm_rank server_uid guid_block_from guid_block_to =
     (let header = \<lparr>hd_msg_size = - 1, hd_msg_type = enum_code SOS_msg_type_vals SOS_MSG_TYPE_REGISTER,
                    hd_msg_from = scast comm_rank, hd_ref_guid = 0\<rparr>
      in bindR (SOS_msg_zip reply header 0) (\<lambda>(reply, offset, _).
         bindR (SOS_buffer_pack reply offset ''gg'' [ArgG guid_block_from, ArgG guid_block_to]) (\<lambda>(reply, offset, _).
         bindR (SOS_buffer_pack reply offset ''ii'' [ArgI SOS_VERSION_MAJOR, ArgI SOS_VERSION_MINOR]) (\<lambda>(reply, offset, _).
         bindR (SOS_buffer_pack reply offset ''i'' [ArgI server_uid]) (\<lambda>(reply, offset, _).
         bindR (SOS_msg_zip reply (header\<lparr>hd_msg_size := word_of_nat offset\<rparr>) 0) (\<lambda>(reply, _, _). Inr reply))))))"

definition SOSD_handle_register ::
    "i32 \<Rightarrow> i32 \<Rightarrow> SOS_uid \<Rightarrow> SOS_buffer \<Rightarrow> (SOS_uid \<times> SOS_buffer \<times> SOS_buffer) res" where
  "SOSD_handle_register server_uid comm_rank guid buffer =
     (let reply = SOS_buffer_init_sized SOS_DEFAULT_BUFFER_MAX
      in bindR (SOS_msg_unzip buffer 0) (\<lambda>(buffer, header, offset).
         bindR (SOS_buffer_unpack buffer offset ''ii'' [DestI, DestI]) (\<lambda>(buffer, offset, _, _).
         bindR (SOS_buffer_unpack buffer offset ''i'' [DestI]) (\<lambda>(buffer, _, _, outs).
         let client_uid = (case outs of [OutI i] \<Rightarrow> i | _ \<Rightarrow> - 1)
         in bindR (if client_uid \<noteq> server_uid then register_reply_refused reply header server_uid
                   else Inr (reply, header)) (\<lambda>(reply, header).
            bindR (if hd_msg_from header = 0
                   then bindR (SOSD_claim_guid_block guid (ucast SOS_DEFAULT_GUID_BLOCK)) (\<lambda>(guid, f, t).
                        bindR (register_reply_guids reply comm_rank server_uid f t) (\<lambda>reply. Inr (guid, reply)))
                   else bindR (SOSD_PACK_ACK reply) (\<lambda>reply. Inr (guid, reply))) (\<lambda>(guid, reply).
            bindR (SOS_buffer_destroy (Some reply)) (\<lambda>_. Inr (guid, buffer, reply))))))))"

section \<open>Ranges of daemons\<close>

lemma scast_i32_small:
  assumes "n < 2 ^ 31"
  shows "(scast (word_of_nat n :: i32) :: u64) = word_of_nat n"
proof -
  have "sint (word_of_nat n :: i32) = int n" using assms by (rule sint_word_of_nat_small)
  then show ?thesis by (metis of_int_of_nat_eq scast_eq)
qed

lemma unat_u64_small: "n < 2 ^ 64 \<Longrightarrow> unat (word_of_nat n :: u64) = n"
  by (rule unat_word_of_nat_small) simp

lemma UID_MAX_word: "SOS_DEFAULT_UID_MAX = word_of_nat (2 ^ 63 - 1)"
  by (simp add: SOS_DEFAULT_UID_MAX_def)

lemma SOSD_guid_range_values:
  assumes "0 < n" and "n < 2 ^ 31" and "r < n"
  defines "B \<equiv> (2 ^ 63 - 1) div n"
  shows "unat (uid_next (SOSD_guid_range (word_of_nat n) (word_of_nat r))) = max 1 (r * B)"
    and "unat (uid_last (SOSD_guid_range (word_of_nat n) (word_of_nat r))) = r * B + B - 1"
    and "2 \<le> B"
proof -
  have le: "n * B \<le> 2 ^ 63 - 1" by (simp add: B_def)
  have "(2 :: nat) * 2 ^ 31 \<le> 2 ^ 63 - 1" by simp
  then have "2 * n \<le> 2 ^ 63 - 1" using assms(2) by linarith
  then show B2: "2 \<le> B" using assms(1) by (simp add: B_def less_eq_div_iff_mult_less_eq)
  have rB: "r * B + B \<le> 2 ^ 63 - 1"
    using order_trans [OF mult_le_mono1 [of "Suc r" n B] le] assms(3) by simp
  have "SOS_DEFAULT_UID_MAX div word_of_nat n = (word_of_nat B :: u64)"
    using assms(1,2) unat_u64_small [of n]
    by (simp add: B_def UID_MAX_word word_arith_nat_div unat_u64_small del: of_nat_diff)
  then have range: "SOSD_guid_range (word_of_nat n) (word_of_nat r) =
      SOS_uid_init (word_of_nat (r * B)) (word_of_nat (r * B + B - 1))"
    using assms(2,3) B2 by (simp add: SOSD_guid_range_def scast_i32_small Let_def of_nat_diff algebra_simps)
  have u: "unat (word_of_nat (r * B) :: u64) = r * B" "unat (word_of_nat (r * B + B - 1) :: u64) = r * B + B - 1"
    by (rule unat_u64_small, use rB in simp)+
  have "(word_of_nat (r * B + B - 1) :: u64) < SOS_DEFAULT_UID_MAX"
    unfolding word_less_nat_alt u UID_MAX_word using rB B2 by (simp add: unat_u64_small)
  then show "unat (uid_last (SOSD_guid_range (word_of_nat n) (word_of_nat r))) = r * B + B - 1"
    using u by (simp add: range SOS_uid_init_def)
  have "0 < (word_of_nat (r * B) :: u64) \<longleftrightarrow> 0 < r * B"
    unfolding word_less_nat_alt u by simp
  then show "unat (uid_next (SOSD_guid_range (word_of_nat n) (word_of_nat r))) = max 1 (r * B)"
    using u by (cases "r * B = 0") (auto simp: range SOS_uid_init_def)
qed

section \<open>Blocks of a daemon\<close>

lemma GUID_BLOCK_word: "scast (ucast SOS_DEFAULT_GUID_BLOCK :: i32) = (8001027 :: u64)"
  by (simp add: SOS_DEFAULT_GUID_BLOCK_def)

lemma SOSD_claim_guid_block_ok:
  assumes "\<not> uid_lock uid" and "uid_last uid \<le> SOS_DEFAULT_UID_MAX"
    and "unat (uid_next uid) + 8001027 \<le> unat (uid_last uid)"
  shows "\<exists>t. SOSD_claim_guid_block uid (ucast SOS_DEFAULT_GUID_BLOCK) =
      Inr (uid\<lparr>uid_next := t + 1\<rparr>, uid_next uid, t) \<and>
    unat t = unat (uid_next uid) + 8001027 \<and> unat (t + 1) = unat (uid_next uid) + 8001028"
proof -
  have mx: "unat (uid_last uid) < 2 ^ 63"
    using assms(2) unfolding word_le_nat_alt UID_MAX_word by (simp add: unat_u64_small)
  have t: "unat (uid_next uid + 8001027) = unat (uid_next uid) + 8001027"
    using mx assms(3) by (subst unat_plus_simple [THEN iffD1]) (auto simp: word_le_nat_alt unat_word_ariths)
  have "unat (uid_next uid + 8001027 + 1) = unat (uid_next uid) + 8001028"
    using mx assms(3) t by (simp add: unat_word_ariths)
  moreover have "\<not> uid_last uid < uid_next uid + 8001027"
    unfolding word_less_nat_alt t using assms(3) by simp
  ultimately show ?thesis
    using assms(1) t
    by (intro exI [of _ "uid_next uid + 8001027"]) (simp add: SOSD_claim_guid_block_def GUID_BLOCK_word Let_def)
qed

text \<open>\<open>k\<close> requests in a row, and \<open>k\<close> draws from a pool.\<close>

fun claim_blocks :: "nat \<Rightarrow> SOS_uid \<Rightarrow> (SOS_uid \<times> (u64 \<times> u64) list) res" where
  "claim_blocks 0 uid = Inr (uid, [])"
| "claim_blocks (Suc k) uid =
     bindR (SOSD_claim_guid_block uid (ucast SOS_DEFAULT_GUID_BLOCK)) (\<lambda>(uid, f, t).
     bindR (claim_blocks k uid) (\<lambda>(uid, bs). Inr (uid, (f, t) # bs)))"

fun uid_draws :: "(SOS_buffer \<Rightarrow> SOS_buffer \<Rightarrow> SOS_buffer res) \<Rightarrow> SOS_role \<Rightarrow> u64 \<Rightarrow> bool \<Rightarrow> nat \<Rightarrow> SOS_uid \<Rightarrow> (SOS_uid \<times> u64 list) res" where
  "uid_draws send role me off 0 uid = Inr (uid, [])"
| "uid_draws send role me off (Suc k) uid =
     bindR (SOS_uid_next send role me off uid) (\<lambda>(uid, g).
     bindR (uid_draws send role me off k uid) (\<lambda>(uid, gs). Inr (uid, g # gs)))"

lemma claim_blocks_ok:
  assumes "\<not> uid_lock uid" and "uid_last uid \<le> SOS_DEFAULT_UID_MAX"
    and "unat (uid_next uid) + k * 8001028 \<le> unat (uid_last uid) + 1"
  shows "\<exists>uid' bs. claim_blocks k uid = Inr (uid', bs) \<and> length bs = k \<and>
    sorted_wrt (\<lambda>(f, t) (f', t'). t < f') bs \<and>
    (\<forall>(f, t) \<in> set bs. uid_next uid \<le> f \<and> f \<le> t \<and> t \<le> uid_last uid)"
  using assms
proof (induction k arbitrary: uid)
  case (Suc k)
  have fits: "unat (uid_next uid) + 8001027 \<le> unat (uid_last uid)" using Suc.prems(3) by simp
  from SOSD_claim_guid_block_ok [OF Suc.prems(1,2) fits] obtain t where
    t: "SOSD_claim_guid_block uid (ucast SOS_DEFAULT_GUID_BLOCK) = Inr (uid\<lparr>uid_next := t + 1\<rparr>, uid_next uid, t)"
      "unat t = unat (uid_next uid) + 8001027" "unat (t + 1) = unat (uid_next uid) + 8001028" by blast
  let ?uid = "uid\<lparr>uid_next := t + 1\<rparr>"
  obtain uid' bs where bs: "claim_blocks k ?uid = Inr (uid', bs)" "length bs = k"
      "sorted_wrt (\<lambda>(f, t) (f', t'). t < f') bs"
      "\<forall>(f, t') \<in> set bs. t + 1 \<le> f \<and> f \<le> t' \<and> t' \<le> uid_last uid"
    using Suc.IH [of ?uid] Suc.prems t by auto
  have le: "uid_next uid \<le> t" "t \<le> uid_last uid" "uid_next uid \<le> t + 1" "t < t + 1"
    using t fits by (simp_all add: word_le_nat_alt word_less_nat_alt)
  have "t < f \<and> uid_next uid \<le> f" if "(f, t') \<in> set bs" for f t'
    using bs(4) that le(3,4) by (auto intro: less_le_trans order_trans)
  then show ?case using t(1) bs le by fastforce
qed simp

lemma SOS_uid_next_inside:
  assumes "\<not> uid_lock uid" and "unat (uid_next uid) < unat (uid_last uid)"
  shows "SOS_uid_next send role me off uid = Inr (uid\<lparr>uid_next := uid_next uid + 1\<rparr>, uid_next uid)"
    and "unat (uid_next uid + 1) = unat (uid_next uid) + 1"
proof -
  have "unat (uid_last uid) < 2 ^ 64" using unsigned_less [of "uid_last uid"] by simp
  then show u: "unat (uid_next uid + 1) = unat (uid_next uid) + 1"
    using assms(2) by (simp add: unat_word_ariths)
  have "\<not> uid_last uid < uid_next uid + 1" unfolding word_less_nat_alt u using assms(2) by simp
  then show "SOS_uid_next send role me off uid = Inr (uid\<lparr>uid_next := uid_next uid + 1\<rparr>, uid_next uid)"
    using assms(1) by (simp add: SOS_uid_next_def Let_def)
qed

lemma uid_draws_ok:
  "\<not> uid_lock uid \<Longrightarrow> unat (uid_next uid) + k \<le> unat (uid_last uid) \<Longrightarrow>
   \<exists>uid' gs. uid_draws send role me off k uid = Inr (uid', gs) \<and> map unat gs = [unat (uid_next uid) ..< unat (uid_next uid) + k] \<and>
     uid_last uid' = uid_last uid"
proof (induction k arbitrary: uid)
  case (Suc k)
  then have inside: "unat (uid_next uid) < unat (uid_last uid)" by simp
  note step = SOS_uid_next_inside [OF Suc.prems(1) inside]
  obtain uid' gs where "uid_draws send role me off k (uid\<lparr>uid_next := uid_next uid + 1\<rparr>) = Inr (uid', gs)"
      "map unat gs = [unat (uid_next uid) + 1 ..< unat (uid_next uid) + 1 + k]" "uid_last uid' = uid_last uid"
    using Suc.IH [of "uid\<lparr>uid_next := uid_next uid + 1\<rparr>"] Suc.prems step(2) by auto
  then show ?case using step(1) by (auto simp: upt_conv_Cons)
qed simp

section \<open>A client's refill\<close>

text \<open>What arrives in the reply buffer of the client: the bytes the daemon sent.\<close>

definition deliver :: "SOS_buffer \<Rightarrow> SOS_buffer \<Rightarrow> SOS_buffer" where
  "deliver sent reply =
     reply\<lparr>buf_data := take (buf_len sent) (buf_data sent) @ drop (buf_len sent) (buf_data reply), buf_len := buf_len sent\<rparr>"

lemma fresh_building: "building (SOS_buffer_init_sized_locking SOS_DEFAULT_BUFFER_MAX l) 0 []"
  by (simp add: building_def MSG_LIMIT_def buffer_wf_def SOS_buffer_init_sized_locking_def packed_prefix_def
      SOS_DEFAULT_BUFFER_MAX_def INT_MAX_def)

lemma building_deliver:
  assumes "building sent offset bs" and "offset \<le> SOS_DEFAULT_BUFFER_MAX"
  shows "building (deliver sent (SOS_buffer_init_sized_locking SOS_DEFAULT_BUFFER_MAX l)) offset bs"
proof -
  have "offset \<le> length (buf_data sent)" using building_bound [OF assms(1)] assms(1)
    by (simp add: building_def MSG_LIMIT_def buffer_wf_def)
  then show ?thesis
    using assms by (auto simp: building_def MSG_LIMIT_def buffer_wf_def deliver_def packed_prefix_def
        SOS_buffer_init_sized_locking_def INT_MAX_def SOS_DEFAULT_BUFFER_MAX_def)
qed

lemma uid_request_msg_ok: "\<exists>b. uid_request_msg me = Inr b \<and> \<not> buf_is_locking b"
proof -
  let ?b = "SOS_buffer_init_sized_locking 24 False"
  have z: "\<exists>b'. SOS_msg_zip b h 0 = Inr (b', 24, 24) \<and> length (buf_data b') = 24 \<and> buf_max b' = 24 \<and> \<not> buf_is_locking b'"
    if "length (buf_data b) = 24" "buf_max b = 24" "\<not> buf_is_locking b" for b h
    using SOS_buffer_pack_inplace [of b 0 "header_args h"] that
    by (simp add: SOS_msg_zip_def msg_lock_def msg_unlock_def)
  let ?h = "\<lparr>hd_msg_size = - 1, hd_msg_type = enum_code SOS_msg_type_vals SOS_MSG_TYPE_GUID_BLOCK,
      hd_msg_from = me, hd_ref_guid = 0\<rparr>"
  have "length (buf_data ?b) = 24" "buf_max ?b = 24" "\<not> buf_is_locking ?b"
    by (simp_all add: SOS_buffer_init_sized_locking_def)
  from z [OF this, of ?h] obtain b1 where
    b1: "SOS_msg_zip ?b ?h 0 = Inr (b1, 24, 24)" "length (buf_data b1) = 24" "buf_max b1 = 24" "\<not> buf_is_locking b1" by blast
  from z [OF b1(2-4), of "?h\<lparr>hd_msg_size := word_of_nat 24\<rparr>"] b1(1) show ?thesis
    by (auto simp: uid_request_msg_def Let_def)
qed

lemma SOSD_handle_guid_block_ok:
  assumes "SOSD_claim_guid_block d (ucast SOS_DEFAULT_GUID_BLOCK) = Inr (d', f, t)"
  obtains reply header where "SOSD_handle_guid_block rank d = Inr (d', reply)"
    and "building reply 40 (encode (header_args header) @ encode [ArgG f, ArgG t])"
proof -
  let ?h = "\<lparr>hd_msg_size = - 1, hd_msg_type = enum_code SOS_msg_type_vals SOS_MSG_TYPE_GUID_BLOCK,
      hd_msg_from = scast rank, hd_ref_guid = 0\<rparr>"
  let ?r = "SOS_buffer_init_sized_locking SOS_DEFAULT_BUFFER_MAX False"
  have lk: "\<not> buf_lock ?r" by (simp add: SOS_buffer_init_sized_locking_def)
  obtain r1 where r1: "SOS_msg_zip ?r ?h 0 = Inr (r1, 24, 24)" "building r1 24 (encode (header_args ?h))" "\<not> buf_lock r1"
      "buf_is_locking r1 = buf_is_locking ?r"
    using SOS_msg_zip_start [OF fresh_building lk] by metis
  obtain r2 where r2: "SOS_buffer_pack r1 24 ''gg'' [ArgG f, ArgG t] = Inr (r2, 40, 16)"
      "building r2 40 (encode (header_args ?h) @ encode [ArgG f, ArgG t])" "\<not> buf_lock r2" "buf_is_locking r2 = buf_is_locking r1"
    using building_pack [OF r1(2), of "[ArgG f, ArgG t]"] r1(3) by (auto simp: MSG_LIMIT_def SOS_DEFAULT_BUFFER_MAX_def)
  let ?g = "?h\<lparr>hd_msg_size := word_of_nat 40\<rparr>"
  obtain r3 where r3: "SOS_msg_zip r2 ?g 0 = Inr (r3, 24, 24)"
      "building r3 40 (encode (header_args ?g) @ encode [ArgG f, ArgG t])" "\<not> buf_lock r3" "buf_is_locking r3 = buf_is_locking r2"
    using SOS_msg_zip_again [OF r2(2,3)] by metis
  have "\<not> buf_is_locking r3" using r3(4) r2(4) r1(4) by (simp add: SOS_buffer_init_sized_locking_def)
  then have "SOSD_handle_guid_block rank d = Inr (d', r3)"
    using assms r1(1) r2(1) r3(1) by (simp add: SOSD_handle_guid_block_def Let_def SOS_buffer_destroy_def)
  then show ?thesis using that r3(2) by blast
qed

section \<open>Properties\<close>

text \<open>
  C33: The daemons of a run share out the identifiers without overlap: the range of every rank
  is non-empty, ends below \<open>SOS_DEFAULT_UID_MAX\<close>, and lies wholly before the range of any
  higher rank.
\<close>

theorem guid_ranges_disjoint:
  assumes "0 < n" and "n < 2 ^ 31" and "r < s" and "s < n"
  shows "uid_next (SOSD_guid_range (word_of_nat n) (word_of_nat r)) \<le> uid_last (SOSD_guid_range (word_of_nat n) (word_of_nat r)) \<and>
    uid_last (SOSD_guid_range (word_of_nat n) (word_of_nat r)) < uid_next (SOSD_guid_range (word_of_nat n) (word_of_nat s)) \<and>
    uid_last (SOSD_guid_range (word_of_nat n) (word_of_nat s)) < SOS_DEFAULT_UID_MAX"
proof -
  let ?B = "(2 ^ 63 - 1) div n :: nat"
  have r: "r < n" using assms by simp
  note vr = SOSD_guid_range_values [OF assms(1,2) r] and vs = SOSD_guid_range_values [OF assms(1,2,4)]
  have "r * ?B + ?B \<le> s * ?B" using mult_le_mono1 [of "Suc r" s ?B] assms(3) by simp
  moreover have "s * ?B + ?B \<le> 2 ^ 63 - 1"
  proof -
    have "s * ?B + ?B \<le> n * ?B" using mult_le_mono1 [of "Suc s" n ?B] assms(4) by simp
    also have "\<dots> \<le> 2 ^ 63 - 1" by simp
    finally show ?thesis .
  qed
  moreover have "unat SOS_DEFAULT_UID_MAX = 2 ^ 63 - 1" unfolding UID_MAX_word by (rule unat_u64_small) simp
  ultimately show ?thesis
    unfolding word_le_nat_alt word_less_nat_alt vr(1,2) vs(1,2) using vr(3) assms(3) by (auto simp: max_def)
qed

theorem guid_ranges_disjoint_witness:
  "uid_last (SOSD_guid_range (word_of_nat 4) (word_of_nat 0)) < uid_next (SOSD_guid_range (word_of_nat 4) (word_of_nat 3))"
  using guid_ranges_disjoint [of 4 0 3] by simp



text \<open>
  A pool never yields a value twice: a run of draws that stays inside the pool returns the
  consecutive values from \<open>next\<close> on.
\<close>

theorem uid_draws_consecutive:
  assumes "\<not> uid_lock uid" and "unat (uid_next uid) + k \<le> unat (uid_last uid)"
  shows "\<exists>uid' gs. uid_draws send role me off k uid = Inr (uid', gs) \<and>
    map unat gs = [unat (uid_next uid) ..< unat (uid_next uid) + k] \<and> distinct gs"
proof -
  obtain uid' gs where g: "uid_draws send role me off k uid = Inr (uid', gs)"
      "map unat gs = [unat (uid_next uid) ..< unat (uid_next uid) + k]"
    using uid_draws_ok [OF assms] by blast
  then have "distinct (map unat gs)" by simp
  then show ?thesis using g distinct_map by blast
qed

theorem uid_draws_consecutive_witness:
  "\<exists>uid' gs. uid_draws (\<lambda>_ r. Inr r) SOS_ROLE_CLIENT 0 False 3 (SOS_uid_init 5 100) = Inr (uid', gs) \<and> map unat gs = [5, 6, 7]"
  using uid_draws_consecutive [of "SOS_uid_init 5 100" 3 "\<lambda>_ r. Inr r" SOS_ROLE_CLIENT 0 False]
  by (auto simp: SOS_uid_init_def SOS_DEFAULT_UID_MAX_def upt_rec [of 5] upt_rec [of 6] upt_rec [of 7] upt_rec [of 8])

text \<open>
  C32: A client that draws the last value of its pool continues with the block its daemon claims
  for it: the request, the daemon's handler, the reply and its decoding compose to exactly the
  claimed bounds, and the value drawn is the old one.
\<close>

theorem client_refill_gets_claimed_block:
  assumes "\<not> uid_lock uid" and "uid_next uid = uid_last uid" and "uid_last uid < SOS_DEFAULT_UID_MAX"
    and "role \<noteq> SOS_ROLE_LISTENER" and "role \<noteq> SOS_ROLE_AGGREGATOR"
    and "SOSD_claim_guid_block d (ucast SOS_DEFAULT_GUID_BLOCK) = Inr (d', f, t)"
  shows "SOS_uid_next (\<lambda>msg reply. bindR (SOSD_handle_guid_block rank d) (\<lambda>(d', sent). Inr (deliver sent reply)))
      role me False uid =
    Inr (\<lparr>uid_next = f, uid_last = t, uid_lock = False\<rparr>, uid_next uid)"
proof -
  let ?send = "\<lambda>msg reply. bindR (SOSD_handle_guid_block rank d) (\<lambda>(d', sent). Inr (deliver sent reply))"
  let ?fresh = "SOS_buffer_init_sized_locking SOS_DEFAULT_BUFFER_MAX False"
  obtain sent h where s: "SOSD_handle_guid_block rank d = Inr (d', sent)"
      "building sent 40 (encode (header_args h) @ encode [ArgG f, ArgG t])"
    using SOSD_handle_guid_block_ok [OF assms(6)] by metis
  let ?r = "deliver sent ?fresh"
  have nl: "\<not> buf_is_locking ?r" by (simp add: deliver_def SOS_buffer_init_sized_locking_def)
  have b: "building ?r 40 (encode (header_args h) @ encode [ArgG f, ArgG t])"
    using building_deliver [OF s(2)] by (simp add: SOS_DEFAULT_BUFFER_MAX_def)
  define r where "r = msg_unlock (?r\<lparr>buf_is_zipped := False\<rparr>)"
  have br: "building r 40 (encode (header_args h) @ encode [ArgG f] @ encode [ArgG t])"
    using b by (simp add: r_def)
  have unz: "SOS_msg_unzip ?r 0 = Inr (r, h, 24)" unfolding r_def by (rule SOS_msg_unzip_ok [OF b])
  have g1: "unpack_guid r 24 = Inr (r, 32, f)"
    using building_unpack [OF br, of "[DestG]" "[OutG f]"] by (simp add: unpack_guid_def)
  have "building r 40 ((encode (header_args h) @ encode [ArgG f]) @ encode [ArgG t] @ [])" using br by simp
  from building_unpack [OF this, of "[DestG]" "[OutG t]"]
  have g2: "unpack_guid r 32 = Inr (r, 40, t)" by (simp add: unpack_guid_def)
  obtain buf where buf: "uid_request_msg me = Inr buf" "\<not> buf_is_locking buf" using uid_request_msg_ok by blast
  have "\<not> buf_is_locking r" using nl by (simp add: r_def msg_unlock_def)
  then have refill: "uid_refill ?send me False u = Inr (u\<lparr>uid_next := f, uid_last := t\<rparr>)" for u
    using buf s(1) unz g1 g2 by (simp add: uid_refill_def SOS_buffer_destroy_def)
  have "unat (uid_last uid) < 2 ^ 63 - 1"
    using assms(3) unfolding word_less_nat_alt UID_MAX_word by (simp add: unat_u64_small)
  then have "unat (uid_last uid + 1) = unat (uid_last uid) + 1" by (simp add: unat_word_ariths)
  then have "uid_last uid < uid_last uid + 1" by (simp add: word_less_nat_alt)
  then show ?thesis
    using assms(1,2,4,5) refill by (simp add: SOS_uid_next_def Let_def)
qed

theorem client_refill_gets_claimed_block_witness:
  "SOS_uid_next (\<lambda>msg reply. bindR (SOSD_handle_guid_block 0 (SOS_uid_init 100 90000000)) (\<lambda>(d', sent). Inr (deliver sent reply)))
      SOS_ROLE_CLIENT 0 False (SOS_uid_init 50 50) =
    Inr (\<lparr>uid_next = 100, uid_last = 8001127, uid_lock = False\<rparr>, 50)"
  using client_refill_gets_claimed_block [of "SOS_uid_init 50 50" SOS_ROLE_CLIENT "SOS_uid_init 100 90000000"
      "SOS_uid_init 100 90000000\<lparr>uid_next := 8001128\<rparr>" 100 8001127 0 0]
  by (simp add: SOS_uid_init_def SOS_DEFAULT_UID_MAX_def SOSD_claim_guid_block_def SOS_DEFAULT_GUID_BLOCK_def Let_def)

text \<open>
  A daemon whose range is used up still answers: it hands out the empty block from
  \<open>last + 1\<close> to \<open>last\<close>, whose first value lies outside its range.
\<close>

theorem exhausted_claim_leaves_range:
  assumes "\<not> uid_lock uid" and "uid_last uid < SOS_DEFAULT_UID_MAX" and "uid_next uid = uid_last uid + 1"
  shows "SOSD_claim_guid_block uid (ucast SOS_DEFAULT_GUID_BLOCK) = Inr (uid, uid_last uid + 1, uid_last uid) \<and>
    uid_last uid < uid_last uid + 1"
proof -
  have l: "unat (uid_last uid) < 2 ^ 63 - 1"
    using assms(2) unfolding word_less_nat_alt UID_MAX_word by (simp add: unat_u64_small)
  then have "unat (uid_last uid + 1 + 8001027) = unat (uid_last uid) + 8001028"
    "unat (uid_last uid + 1) = unat (uid_last uid) + 1" by (simp_all add: unat_word_ariths)
  then have "uid_last uid < uid_last uid + 1 + 8001027" "uid_last uid < uid_last uid + 1"
    unfolding word_less_nat_alt by simp_all
  then show ?thesis
    using assms(1,3) by (simp add: SOSD_claim_guid_block_def GUID_BLOCK_word Let_def)
qed

theorem exhausted_claim_leaves_range_witness:
  "SOSD_claim_guid_block \<lparr>uid_next = 11, uid_last = 10, uid_lock = False\<rparr> (ucast SOS_DEFAULT_GUID_BLOCK) =
    Inr (\<lparr>uid_next = 11, uid_last = 10, uid_lock = False\<rparr>, 11, 10)"
  using exhausted_claim_leaves_range [of "\<lparr>uid_next = 11, uid_last = 10, uid_lock = False\<rparr>"]
  by (simp add: SOS_DEFAULT_UID_MAX_def)

end
