(* ===== verification/SOS_Hashtbl.thy ===== *)
theory SOS_Hashtbl
  imports SOS_Types
begin

text \<open>
  The string-keyed hash table (\<open>sos_qhashtbl.c\<close>, \<open>sos_qhashtbl.h\<close>) behind the name table of
  a publication, the daemon's table of publications and the client's reference and sensitivity
  tables.

  A slot is the chain of its objects from \<open>head\<close> to \<open>tail\<close>; appending at the tail is
  appending to the list. A stored \<open>void *\<close> is a value of type \<open>'v option\<close>, \<open>None\<close> being
  \<open>NULL\<close>. The counters of calls and walks, which only \<open>debug\<close> prints, are left out.

  The interface \<open>first_wins_map\<close> states what clients rely on: a key keeps the value of its first
  insertion until it is removed. It is interpreted on the table.
\<close>

unbundle bit_operations_syntax

section \<open>The hash function\<close>

definition rotl_bits :: "nat \<Rightarrow> nat \<Rightarrow> u32 \<Rightarrow> u32" where
  "rotl_bits l r k = push_bit l k OR drop_bit r k"

text \<open>A block is four bytes in the order of the machine (little endian).\<close>

definition murmur_block :: "byte \<Rightarrow> byte \<Rightarrow> byte \<Rightarrow> byte \<Rightarrow> u32" where
  "murmur_block a b c d =
     ucast a OR push_bit 8 (ucast b) OR push_bit 16 (ucast c) OR push_bit 24 (ucast d)"

definition murmur_mix :: "u32 \<Rightarrow> u32 \<Rightarrow> u32" where
  "murmur_mix k h =
     (let k1 = rotl_bits 15 17 (k * 0xcc9e2d51) * 0x1b873593;
          h1 = rotl_bits 13 19 (h XOR k1)
      in h1 * 5 + 0xe6546b64)"

text \<open>The loop over the whole blocks; it returns the tail and the hash so far.\<close>

fun murmur_blocks :: "byte list \<Rightarrow> u32 \<Rightarrow> byte list \<times> u32" where
  "murmur_blocks (a # b # c # d # bs) h = murmur_blocks bs (murmur_mix (murmur_block a b c d) h)"
| "murmur_blocks bs h = (bs, h)"

definition murmur_tail :: "byte list \<Rightarrow> u32 \<Rightarrow> u32" where
  "murmur_tail rest h =
     (if rest = [] then h
      else
        (let k2 = (if 3 \<le> length rest then push_bit 16 (ucast (rest ! 2)) else 0);
             k1 = (if 2 \<le> length rest then k2 XOR push_bit 8 (ucast (rest ! 1)) else k2);
             k = k1 XOR ucast (rest ! 0)
         in h XOR rotl_bits 13 17 (k * 0xcc9e2d51) * 0x1b873593))"

definition murmur_final :: "u32 \<Rightarrow> u32" where
  "murmur_final h0 =
     (let h1 = (h0 XOR drop_bit 16 h0) * 0x85ebca6b;
          h2 = (h1 XOR drop_bit 13 h1) * 0xc2b2ae35
      in h2 XOR drop_bit 16 h2)"

definition qhashmurmur3_32 :: "byte list \<Rightarrow> u32" where
  "qhashmurmur3_32 data =
     (if data = [] then 0
      else
        (let (rest, h) = murmur_blocks data 0
         in murmur_final (murmur_tail rest h XOR word_of_nat (length data))))"

section \<open>The table\<close>

record 'v qhnobj =
  qh_hash :: u32
  qh_key :: cstring
  qh_value :: "'v option"

record 'v qhashtbl =
  qt_num :: int
  qt_range :: nat
  qt_slots :: "'v qhnobj list list"

definition qhashtbl_new :: "int \<Rightarrow> 'v qhashtbl option" where
  "qhashtbl_new rng =
     (if rng \<le> 0 then None
      else Some \<lparr>qt_num = 0, qt_range = nat rng, qt_slots = replicate (nat rng) []\<rparr>)"

definition genkey :: "cstring option \<Rightarrow> cstring \<Rightarrow> cstring" where
  "genkey path name =
     (case path of
        None \<Rightarrow> cstr name
      | Some p \<Rightarrow>
          if cstr p = [] then cstr name
          else if cstr p = str ''/'' then str ''/'' @ cstr name
          else cstr p @ str ''/'' @ cstr name)"

definition qh_match :: "u32 \<Rightarrow> cstring \<Rightarrow> 'v qhnobj \<Rightarrow> bool" where
  "qh_match hash key obj \<longleftrightarrow> qh_hash obj = hash \<and> qh_key obj = key"

text \<open>The walk along a chain that every operation starts with.\<close>

fun qh_walk :: "u32 \<Rightarrow> cstring \<Rightarrow> 'v qhnobj list \<Rightarrow> 'v qhnobj option" where
  "qh_walk hash key [] = None"
| "qh_walk hash key (obj # objs) = (if qh_match hash key obj then Some obj else qh_walk hash key objs)"

definition qh_idx :: "'v qhashtbl \<Rightarrow> u32 \<Rightarrow> nat" where
  "qh_idx tbl hash = unat hash mod qt_range tbl"

definition qhput :: "'v qhashtbl \<Rightarrow> cstring \<Rightarrow> 'v option \<Rightarrow> 'v qhashtbl \<times> bool" where
  "qhput tbl key data =
     (let hash = qhashmurmur3_32 key; idx = qh_idx tbl hash; slot = qt_slots tbl ! idx
      in case qh_walk hash key slot of
           None \<Rightarrow>
             (tbl\<lparr>qt_slots := (qt_slots tbl)[idx := slot @ [\<lparr>qh_hash = hash, qh_key = key, qh_value = data\<rparr>]],
                  qt_num := qt_num tbl + 1\<rparr>, True)
         | Some _ \<Rightarrow> (tbl, True))"

definition qh_put :: "'v qhashtbl \<Rightarrow> cstring option \<Rightarrow> 'v option \<Rightarrow> 'v qhashtbl \<times> bool" where
  "qh_put tbl fullpath data =
     (case fullpath of None \<Rightarrow> (tbl, False) | Some p \<Rightarrow> qhput tbl (cstr p) data)"

definition qh_put2 :: "'v qhashtbl \<Rightarrow> cstring option \<Rightarrow> cstring \<Rightarrow> 'v option \<Rightarrow> 'v qhashtbl \<times> bool" where
  "qh_put2 tbl path name data = qhput tbl (genkey path name) data"

definition qhget :: "'v qhashtbl \<Rightarrow> cstring \<Rightarrow> 'v option" where
  "qhget tbl key =
     (let hash = qhashmurmur3_32 key; slot = qt_slots tbl ! qh_idx tbl hash
      in case qh_walk hash key slot of None \<Rightarrow> None | Some obj \<Rightarrow> qh_value obj)"

definition qh_get :: "'v qhashtbl \<Rightarrow> cstring option \<Rightarrow> 'v option" where
  "qh_get tbl fullpath = (case fullpath of None \<Rightarrow> None | Some p \<Rightarrow> qhget tbl (cstr p))"

definition qh_get2 :: "'v qhashtbl \<Rightarrow> cstring option \<Rightarrow> cstring \<Rightarrow> 'v option" where
  "qh_get2 tbl path name = qhget tbl (genkey path name)"

fun qh_unlink :: "u32 \<Rightarrow> cstring \<Rightarrow> 'v qhnobj list \<Rightarrow> 'v qhnobj list" where
  "qh_unlink hash key [] = []"
| "qh_unlink hash key (obj # objs) = (if qh_match hash key obj then objs else obj # qh_unlink hash key objs)"

definition qhremove :: "'v qhashtbl \<Rightarrow> cstring \<Rightarrow> 'v qhashtbl \<times> bool" where
  "qhremove tbl key =
     (let hash = qhashmurmur3_32 key; idx = qh_idx tbl hash; slot = qt_slots tbl ! idx
      in case qh_walk hash key slot of
           None \<Rightarrow> (tbl, False)
         | Some _ \<Rightarrow> (tbl\<lparr>qt_slots := (qt_slots tbl)[idx := qh_unlink hash key slot],
                          qt_num := qt_num tbl - 1\<rparr>, True))"

definition qh_remove :: "'v qhashtbl \<Rightarrow> cstring \<Rightarrow> 'v qhashtbl \<times> bool" where
  "qh_remove tbl fullpath = qhremove tbl (cstr fullpath)"

definition qh_size :: "'v qhashtbl \<Rightarrow> int" where
  "qh_size tbl = qt_num tbl"

text \<open>\<open>clear\<close> stops at the first slot where no object is left to free.\<close>

fun qh_clear_slots :: "int \<Rightarrow> 'v qhnobj list list \<Rightarrow> int \<times> 'v qhnobj list list" where
  "qh_clear_slots num [] = (num, [])"
| "qh_clear_slots num (slot # slots) =
     (if 0 < num
      then (let (num', slots') = qh_clear_slots (num - int (length slot)) slots in (num', [] # slots'))
      else (num, slot # slots))"

definition qh_clear :: "'v qhashtbl option \<Rightarrow> 'v qhashtbl option" where
  "qh_clear tbl =
     (case tbl of
        None \<Rightarrow> None
      | Some t \<Rightarrow>
          (let (num', slots') = qh_clear_slots (qt_num t) (qt_slots t)
           in Some (t\<lparr>qt_num := num', qt_slots := slots'\<rparr>)))"

section \<open>Invariant\<close>

definition slot_ok :: "nat \<Rightarrow> nat \<Rightarrow> 'v qhnobj list \<Rightarrow> bool" where
  "slot_ok rng idx slot \<longleftrightarrow>
     distinct (map qh_key slot) \<and>
     (\<forall>obj \<in> set slot. qh_hash obj = qhashmurmur3_32 (qh_key obj) \<and> unat (qh_hash obj) mod rng = idx)"

definition table_ok :: "'v qhashtbl \<Rightarrow> bool" where
  "table_ok t \<longleftrightarrow>
     0 < qt_range t \<and> length (qt_slots t) = qt_range t \<and>
     (\<forall>i < qt_range t. slot_ok (qt_range t) i (qt_slots t ! i)) \<and>
     qt_num t = int (sum_list (map length (qt_slots t)))"

text \<open>The abstract table: the object stored for a key.\<close>

definition qh_lookup :: "'v qhashtbl \<Rightarrow> cstring \<Rightarrow> 'v option option" where
  "qh_lookup t key =
     map_option qh_value
       (qh_walk (qhashmurmur3_32 key) key (qt_slots t ! qh_idx t (qhashmurmur3_32 key)))"

lemma qhget_lookup: "qhget t key = (case qh_lookup t key of None \<Rightarrow> None | Some v \<Rightarrow> v)"
  by (simp add: qhget_def qh_lookup_def Let_def split: option.splits)

lemma qh_idx_less: "table_ok t \<Longrightarrow> qh_idx t h < length (qt_slots t)"
  by (simp add: table_ok_def qh_idx_def)

lemma qh_walk_None: "qh_walk h k slot = None \<longleftrightarrow> (\<forall>obj \<in> set slot. \<not> qh_match h k obj)"
  by (induction slot) auto

lemma qh_walk_append:
  "qh_walk h k (xs @ ys) = (case qh_walk h k xs of None \<Rightarrow> qh_walk h k ys | Some x \<Rightarrow> Some x)"
  by (induction xs) auto

lemma qh_walk_unlink_other:
  "k \<noteq> k' \<Longrightarrow> qh_walk h' k' (qh_unlink h k slot) = qh_walk h' k' slot"
  by (induction slot) (auto simp: qh_match_def)

lemma qh_walk_unlink_same:
  "distinct (map qh_key slot) \<Longrightarrow> qh_walk h k (qh_unlink h k slot) = None"
  by (induction slot) (auto simp: qh_match_def qh_walk_None image_iff)

lemma qh_unlink_subset: "set (qh_unlink h k slot) \<subseteq> set slot"
  by (induction slot) auto

lemma distinct_unlink: "distinct (map qh_key slot) \<Longrightarrow> distinct (map qh_key (qh_unlink h k slot))"
  using qh_unlink_subset by (induction slot) fastforce+

lemma length_unlink:
  "qh_walk h k slot \<noteq> None \<Longrightarrow> Suc (length (qh_unlink h k slot)) = length slot"
  by (induction slot) auto

lemma slot_ok_unlink: "slot_ok r i slot \<Longrightarrow> slot_ok r i (qh_unlink h k slot)"
  using qh_unlink_subset unfolding slot_ok_def by (blast intro: distinct_unlink)

lemma sum_list_update_slot:
  "i < length xs \<Longrightarrow>
   int (sum_list (map length (xs[i := y]))) = int (sum_list (map length xs)) + int (length y) - int (length (xs ! i))"
  by (induction xs arbitrary: i) (auto simp: less_Suc_eq_0_disj)

lemma table_ok_update:
  assumes "table_ok t" and "i < qt_range t" and "slot_ok (qt_range t) i slot"
  shows "table_ok (t\<lparr>qt_slots := (qt_slots t)[i := slot],
      qt_num := qt_num t + int (length slot) - int (length (qt_slots t ! i))\<rparr>)"
  using assms by (auto simp: table_ok_def nth_list_update sum_list_update_slot)

section \<open>The interface\<close>

text \<open>
  A map from strings in which a key keeps the value of its first insertion until it is
  removed. \<open>card_keys\<close> counts the keys.
\<close>

locale first_wins_map =
  fixes invar :: "'t \<Rightarrow> bool"
    and lookup :: "'t \<Rightarrow> cstring \<Rightarrow> 'v option"
    and insert :: "'t \<Rightarrow> cstring \<Rightarrow> 'v \<Rightarrow> 't"
    and delete :: "'t \<Rightarrow> cstring \<Rightarrow> 't"
    and count :: "'t \<Rightarrow> int"
  assumes invar_insert: "invar t \<Longrightarrow> invar (insert t k v)"
    and invar_delete: "invar t \<Longrightarrow> invar (delete t k)"
    and lookup_insert: "invar t \<Longrightarrow>
      lookup (insert t k v) k' = (if k' = k \<and> lookup t k = None then Some v else lookup t k')"
    and lookup_delete: "invar t \<Longrightarrow> lookup (delete t k) k' = (if k' = k then None else lookup t k')"
    and count_insert: "invar t \<Longrightarrow> count (insert t k v) = count t + (if lookup t k = None then 1 else 0)"
    and count_delete: "invar t \<Longrightarrow> count (delete t k) = count t - (if lookup t k = None then 0 else 1)"
begin

definition insert_all :: "'t \<Rightarrow> (cstring \<times> 'v) list \<Rightarrow> 't" where
  "insert_all t kvs = fold (\<lambda>(k, v) t. insert t k v) kvs t"

lemma insert_all_simps:
  "insert_all t [] = t" "insert_all t ((k, v) # kvs) = insert_all (insert t k v) kvs"
  by (simp_all add: insert_all_def)

lemma invar_insert_all: "invar t \<Longrightarrow> invar (insert_all t kvs)"
  by (induction kvs arbitrary: t) (auto simp: insert_all_simps invar_insert)

lemma lookup_insert_all:
  "invar t \<Longrightarrow> lookup (insert_all t kvs) k = (case lookup t k of None \<Rightarrow> map_of kvs k | Some v \<Rightarrow> Some v)"
  by (induction kvs arbitrary: t)
    (auto simp: insert_all_simps invar_insert lookup_insert split: option.splits)

lemma insert_present: "invar t \<Longrightarrow> lookup t k = Some v \<Longrightarrow> lookup (insert t k v') = lookup t"
  by (auto simp: lookup_insert)

lemma insert_after_delete: "invar t \<Longrightarrow> lookup (insert (delete t k) k v) k = Some v"
  by (simp add: lookup_insert invar_delete lookup_delete)

lemma delete_insert_absent:
  "invar t \<Longrightarrow> lookup t k = None \<Longrightarrow> lookup (delete (insert t k v) k) = lookup t"
  by (auto simp: lookup_insert lookup_delete invar_insert)

end

lemma qhput_table_ok:
  assumes "table_ok t"
  shows "table_ok (fst (qhput t k v))"
proof -
  let ?h = "qhashmurmur3_32 k" and ?i = "qh_idx t (qhashmurmur3_32 k)"
  let ?slot = "qt_slots t ! ?i" and ?o = "\<lparr>qh_hash = qhashmurmur3_32 k, qh_key = k, qh_value = v\<rparr>"
  have i: "?i < qt_range t" using assms by (simp add: table_ok_def qh_idx_def)
  have ok: "slot_ok (qt_range t) ?i ?slot" using assms i by (simp add: table_ok_def)
  show ?thesis
  proof (cases "qh_walk ?h k ?slot")
    case None
    then have "k \<notin> qh_key ` set ?slot"
      using ok by (auto simp: qh_walk_None qh_match_def slot_ok_def)
    then have "slot_ok (qt_range t) ?i (?slot @ [?o])"
      using ok by (auto simp: slot_ok_def qh_idx_def)
    from table_ok_update [OF assms i this] None show ?thesis
      by (simp add: qhput_def Let_def)
  qed (simp add: qhput_def Let_def assms)
qed

lemma qh_lookup_qhput:
  assumes "table_ok t"
  shows "qh_lookup (fst (qhput t k v)) k' = (if k' = k \<and> qh_lookup t k = None then Some v else qh_lookup t k')"
  using qh_idx_less [OF assms, of "qhashmurmur3_32 k"]
  by (cases "qh_walk (qhashmurmur3_32 k) k (qt_slots t ! qh_idx t (qhashmurmur3_32 k))")
    (auto simp: qhput_def qh_lookup_def Let_def qh_idx_def nth_list_update qh_walk_append qh_match_def
      split: option.splits)

lemma qhput_size:
  "qh_size (fst (qhput t k v)) = qh_size t + (if qh_lookup t k = None then 1 else 0)"
  by (simp add: qhput_def qh_size_def qh_lookup_def Let_def split: option.splits)

lemma qhremove_table_ok:
  assumes "table_ok t"
  shows "table_ok (fst (qhremove t k))"
proof -
  let ?h = "qhashmurmur3_32 k" and ?i = "qh_idx t (qhashmurmur3_32 k)"
  let ?slot = "qt_slots t ! ?i"
  have i: "?i < qt_range t" using assms by (simp add: table_ok_def qh_idx_def)
  have ok: "slot_ok (qt_range t) ?i (qh_unlink ?h k ?slot)"
    using assms i by (intro slot_ok_unlink) (simp add: table_ok_def)
  show ?thesis
  proof (cases "qh_walk ?h k ?slot")
    case (Some obj)
    then have "qt_num t + int (length (qh_unlink ?h k ?slot)) - int (length ?slot) = qt_num t - 1"
      using length_unlink [of ?h k ?slot] by simp
    with table_ok_update [OF assms i ok] Some show ?thesis
      by (simp add: qhremove_def Let_def)
  qed (simp add: qhremove_def Let_def assms)
qed

lemma qh_lookup_remove:
  assumes "table_ok t"
  shows "qh_lookup (fst (qhremove t k)) k' = (if k' = k then None else qh_lookup t k')"
proof -
  let ?h = "qhashmurmur3_32 k" and ?i = "qh_idx t (qhashmurmur3_32 k)"
  have i: "?i < qt_range t" using assms by (simp add: table_ok_def qh_idx_def)
  then have d: "distinct (map qh_key (qt_slots t ! ?i))" "?i < length (qt_slots t)"
    using assms by (auto simp: table_ok_def slot_ok_def)
  then show ?thesis
    by (cases "qh_walk ?h k (qt_slots t ! ?i)")
      (auto simp: qhremove_def qh_lookup_def Let_def qh_idx_def nth_list_update qh_walk_unlink_other
        qh_walk_unlink_same)
qed

lemma qhremove_size:
  "qh_size (fst (qhremove t k)) = qh_size t - (if qh_lookup t (k) = None then 0 else 1)"
  by (simp add: qhremove_def qh_size_def qh_lookup_def Let_def split: option.splits)

interpretation qtbl: first_wins_map table_ok qh_lookup "\<lambda>t k v. fst (qhput t k v)" "\<lambda>t k. fst (qhremove t k)" qh_size
  by unfold_locales
    (auto simp: qhput_table_ok qhremove_table_ok qh_lookup_qhput qh_lookup_remove qhput_size qhremove_size)

lemma qhashtbl_new_ok:
  assumes "qhashtbl_new r = Some t"
  shows "table_ok t" and "qh_lookup t k = None" and "qh_size t = 0"
proof -
  from assms have t: "0 < r" "t = \<lparr>qt_num = 0, qt_range = nat r, qt_slots = replicate (nat r) []\<rparr>"
    by (auto simp: qhashtbl_new_def split: if_splits)
  have "sum_list (map length (replicate n ([] :: 'a qhnobj list))) = 0" for n
    by (induction n) simp_all
  then show "table_ok t" using t by (simp add: table_ok_def slot_ok_def)
  have "unat (qhashmurmur3_32 k) mod nat r < nat r" using t by simp
  then show "qh_lookup t k = None" by (simp add: t qh_lookup_def qh_idx_def)
  show "qh_size t = 0" by (simp add: t qh_size_def)
qed

text \<open>\<open>clear\<close> empties every slot although it stops when the counter reaches 0.\<close>

lemma qh_clear_slots_all:
  "num = int (sum_list (map length slots)) \<Longrightarrow>
   qh_clear_slots num slots = (0, replicate (length slots) [])"
proof (induction slots arbitrary: num)
  case (Cons slot slots)
  show ?case
  proof (cases "0 < num")
    case True
    then show ?thesis using Cons.IH [of "num - int (length slot)"] Cons.prems by simp
  next
    case False
    then have z: "sum_list (map length (slot # slots)) = 0" using Cons.prems by linarith
    then have e: "slot = []" "replicate (length slots) [] = slots"
      by (auto intro: replicate_length_same)
    have "num = 0" using z Cons.prems by simp
    then show ?thesis using e by simp
  qed
qed simp

lemma qh_clear_ok:
  assumes "table_ok t"
  shows "qh_clear (Some t) = Some (t\<lparr>qt_num := 0, qt_slots := replicate (qt_range t) []\<rparr>)"
  using assms qh_clear_slots_all [OF refl, of "qt_slots t"] by (simp add: qh_clear_def table_ok_def)

section \<open>Properties\<close>

lemma fold_qh_put:
  "\<forall>(k, v) \<in> set kvs. wf_cstring k \<Longrightarrow>
   fold (\<lambda>(k, v) t. fst (qh_put t (Some k) v)) kvs t = qtbl.insert_all t kvs"
  by (induction kvs arbitrary: t) (auto simp: qtbl.insert_all_simps qh_put_def)

text \<open>
  C14: The table refines a map in which the first definition of a key stays: after any sequence
  of \<open>put\<close> calls on a new table, \<open>get\<close> returns the value of the first \<open>put\<close> of that key,
  and \<open>NULL\<close> for a key that was never put, whatever the hash collisions.
\<close>

theorem put_get_first_wins:
  assumes "qhashtbl_new r = Some t" and "\<forall>(k, v) \<in> set kvs. wf_cstring k" and "wf_cstring k"
  shows "qh_get (fold (\<lambda>(k, v) t. fst (qh_put t (Some k) v)) kvs t) (Some k) =
    (case map_of kvs k of None \<Rightarrow> None | Some v \<Rightarrow> v)"
  using qtbl.lookup_insert_all [OF qhashtbl_new_ok(1) [OF assms(1)], of kvs k]
    qhashtbl_new_ok(2) [OF assms(1)] assms(2,3)
  by (simp add: fold_qh_put qh_get_def qhget_lookup)

theorem put_get_first_wins_witness:
  "\<exists>t. qhashtbl_new 1 = Some t \<and>
     qh_get (fold (\<lambda>(k, v) t. fst (qh_put t (Some k) v))
       [(str ''a'', Some 1), (str ''b'', Some 2), (str ''a'', Some (3 :: nat))] t) (Some (str ''a'')) = Some 1"
  using put_get_first_wins [of 1 "\<lparr>qt_num = 0, qt_range = 1, qt_slots = [[]]\<rparr>"
      "[(str ''a'', Some 1), (str ''b'', Some 2), (str ''a'', Some (3 :: nat))]" "str ''a''"]
  by (simp add: qhashtbl_new_def wf_cstring_def str_def byte_of_char_def)

text \<open>
  \<open>remove\<close> deletes exactly its key from a well-formed table and says whether it was there;
  the table stays well formed and its size drops by one in that case.
\<close>

theorem remove_deletes_key:
  assumes "table_ok t"
  shows "table_ok (fst (qh_remove t p)) \<and>
    (snd (qh_remove t p) \<longleftrightarrow> qh_lookup t (cstr p) \<noteq> None) \<and>
    qh_size (fst (qh_remove t p)) = qh_size t - (if snd (qh_remove t p) then 1 else 0) \<and>
    qh_get (fst (qh_remove t p)) (Some p) = None \<and>
    (cstr q \<noteq> cstr p \<longrightarrow> qh_get (fst (qh_remove t p)) (Some q) = qh_get t (Some q))"
proof -
  have found: "snd (qh_remove t p) \<longleftrightarrow> qh_lookup t (cstr p) \<noteq> None"
    by (simp add: qh_remove_def qhremove_def qh_lookup_def Let_def split: option.splits)
  show ?thesis
    using qtbl.count_delete [OF assms] qtbl.lookup_delete [OF assms] qtbl.invar_delete [OF assms] found
    by (simp add: qh_remove_def qh_get_def qhget_lookup)
qed

theorem remove_deletes_key_witness:
  "\<exists>t :: nat qhashtbl. table_ok t \<and> qh_get (fst (qh_remove t (str ''a''))) (Some (str ''a'')) = None"
proof -
  have "table_ok \<lparr>qt_num = 0, qt_range = 1, qt_slots = [[] :: nat qhnobj list]\<rparr>"
    by (auto simp: table_ok_def slot_ok_def)
  with remove_deletes_key [OF this] show ?thesis by blast
qed

text \<open>
  Every operation keeps the table well formed: each object lies in the slot of its hash,
  no slot holds a key twice, and \<open>num\<close> is the number of objects.
\<close>

theorem hashtbl_invariant:
  assumes "table_ok t"
  shows "table_ok (fst (qh_put t fullpath v)) \<and> table_ok (fst (qh_put2 t path name v)) \<and>
    table_ok (fst (qh_remove t p)) \<and> (\<forall>t'. qh_clear (Some t) = Some t' \<longrightarrow> table_ok t' \<and> qh_size t' = 0)"
proof -
  have "table_ok t'" "qh_size t' = 0" if "qh_clear (Some t) = Some t'" for t'
  proof -
    from that have t': "t' = t\<lparr>qt_num := 0, qt_slots := replicate (qt_range t) []\<rparr>"
      using qh_clear_ok [OF assms] by simp
    have "sum_list (map length (replicate n ([] :: 'a qhnobj list))) = 0" for n
      by (induction n) simp_all
    then show "table_ok t'" using assms by (simp add: t' table_ok_def slot_ok_def)
    show "qh_size t' = 0" by (simp add: t' qh_size_def)
  qed
  then show ?thesis
    using qtbl.invar_insert [OF assms] qtbl.invar_delete [OF assms] assms
    by (auto simp: qh_put_def qh_put2_def qh_remove_def split: option.splits)
qed

theorem hashtbl_invariant_witness:
  "table_ok (fst (qh_put \<lparr>qt_num = 0, qt_range = 2, qt_slots = [[], []]\<rparr> (Some (str ''a'')) (Some (5 :: nat))))"
proof -
  have "table_ok \<lparr>qt_num = 0, qt_range = 2, qt_slots = [[], [] :: nat qhnobj list]\<rparr>"
    by (auto simp: table_ok_def slot_ok_def less_2_cases_iff)
  from hashtbl_invariant [OF this] show ?thesis by blast
qed

end
