(* ===== verification/SOS_Pipe.thy ===== *)
theory SOS_Pipe
  imports SOS_Types
begin

text \<open>
  The bounded FIFO between threads (\<open>sos_pipe.c\<close>): a circular buffer with one sentinel
  element, sizes in bytes, and reference counts for its producer and consumer handles.

  Pointers into the buffer are offsets from \<open>buffer\<close>; the contents are a list of cells, one
  per byte of the source (the code only copies cells, so their type is a parameter). Every call
  runs to its end under its locks, so a call is one step; a call that would wait on a condition
  variable returns \<open>Blocks\<close>. A failed \<open>assert\<close> aborts the program (\<open>Exit_Failure\<close>): the
  build files do not define \<open>NDEBUG\<close>. \<open>DEFAULT_MINCAP\<close>, which depends on
  \<open>PIPE_DEBUG\<close>, is the argument \<open>mincap\<close>, and \<open>junk\<close> is what \<open>malloc\<close> leaves in a cell.

  The interface \<open>bounded_queue\<close> states the FIFO contract; it is interpreted on the pipe of
  \<open>SOS_pipe_init\<close>, whose contents are the cells between the sentinel and \<open>end\<close>.
\<close>

unbundle bit_operations_syntax

section \<open>The pipe object\<close>

record 'a pipe_t =
  pp_elem_size :: nat
  pp_min_cap :: nat
  pp_max_cap :: nat
  pp_buffer :: "'a list option"
  pp_bufend :: nat
  pp_begin :: nat
  pp_end :: nat
  pp_producer_refcount :: nat
  pp_consumer_refcount :: nat

record snapshot_t =
  sp_bufend :: nat
  sp_begin :: nat
  sp_end :: nat
  sp_elem_size :: nat

definition make_snapshot :: "'a pipe_t \<Rightarrow> snapshot_t" where
  "make_snapshot p = \<lparr>sp_bufend = pp_bufend p, sp_begin = pp_begin p, sp_end = pp_end p,
     sp_elem_size = pp_elem_size p\<rparr>"

definition capacity :: "snapshot_t \<Rightarrow> nat" where
  "capacity s = sp_bufend s - sp_elem_size s"

definition wraps_around :: "snapshot_t \<Rightarrow> bool" where
  "wraps_around s \<longleftrightarrow> sp_end s \<le> sp_begin s"

definition bytes_in_use :: "snapshot_t \<Rightarrow> nat" where
  "bytes_in_use s =
     (if wraps_around s then sp_end s + (sp_bufend s - sp_begin s) else sp_end s - sp_begin s)
     - sp_elem_size s"

definition wrap_ptr_if_necessary :: "nat \<Rightarrow> nat \<Rightarrow> nat" where
  "wrap_ptr_if_necessary p bufend = (if bufend \<le> p then p - bufend else p)"

text \<open>Stepping back by \<open>n\<close> from \<open>p\<close>, wrapping to the other end of the buffer.\<close>

definition rev_wrap_ptr_if_necessary :: "nat \<Rightarrow> nat \<Rightarrow> nat \<Rightarrow> nat" where
  "rev_wrap_ptr_if_necessary p n bufend = (if p < n then bufend - (n - p) else p - n)"

text \<open>The smearing loop runs for the shifts 1, 2, 4, 8, 16 and 32.\<close>

definition pow2_smear :: "nat \<Rightarrow> u64 \<Rightarrow> u64" where
  "pow2_smear shift n = n OR drop_bit shift n"

definition next_pow2 :: "u64 \<Rightarrow> u64 res" where
  "next_pow2 n =
     checkR (n \<noteq> 0) Exit_Failure
       (if 2 ^ 63 \<le> n then Inr n
        else Inr (fold pow2_smear [1, 2, 4, 8, 16, 32] (n - 1) + 1))"

definition in_bounds :: "nat \<Rightarrow> nat \<Rightarrow> nat \<Rightarrow> bool" where
  "in_bounds left x right \<longleftrightarrow> left \<le> x \<and> x \<le> right"

definition check_invariants :: "nat \<Rightarrow> 'a pipe_t \<Rightarrow> bool" where
  "check_invariants mincap p \<longleftrightarrow>
     (case pp_buffer p of
        None \<Rightarrow> pp_consumer_refcount p = 0
      | Some _ \<Rightarrow>
          (let s = make_snapshot p
           in pp_consumer_refcount p \<noteq> 0 \<and>
              pp_elem_size p \<noteq> 0 \<and>
              bytes_in_use s \<le> capacity s \<and>
              in_bounds 0 (sp_begin s) (sp_bufend s) \<and>
              in_bounds 0 (sp_end s) (sp_bufend s) \<and>
              (sp_begin s = sp_end s \<longrightarrow> bytes_in_use s = capacity s) \<and>
              in_bounds (mincap * pp_elem_size p) (pp_min_cap p) (pp_max_cap p) \<and>
              in_bounds (pp_min_cap p) (capacity s + pp_elem_size p) (pp_max_cap p)))"

definition assert_invariants :: "nat \<Rightarrow> 'a pipe_t \<Rightarrow> 'b res \<Rightarrow> 'b res" where
  "assert_invariants mincap p r = checkR (check_invariants mincap p) Exit_Failure r"

section \<open>Creating and releasing pipes\<close>

definition pipe_new :: "nat \<Rightarrow> 'a \<Rightarrow> nat \<Rightarrow> u64 \<Rightarrow> 'a pipe_t res" where
  "pipe_new mincap junk elem_size limit0 =
     checkR (elem_size \<noteq> 0) Exit_Failure
     (checkR (1 \<le> mincap) Exit_Failure
       (let cap = mincap * elem_size;
            limit = (limit0 + 1) * word_of_nat elem_size
        in bindR (if limit \<noteq> 0 then bindR (next_pow2 (max limit (word_of_nat cap))) (\<lambda>w. Inr (unat w))
                  else Inr (2 ^ 64 - 1)) (\<lambda>mc.
           let p = \<lparr>pp_elem_size = elem_size, pp_min_cap = cap, pp_max_cap = mc,
                    pp_buffer = Some (replicate cap junk), pp_bufend = cap, pp_begin = 0,
                    pp_end = elem_size, pp_producer_refcount = 1, pp_consumer_refcount = 1\<rparr>
           in assert_invariants mincap p (Inr p))))"

definition pipe_producer_new :: "'a pipe_t \<Rightarrow> 'a pipe_t" where
  "pipe_producer_new p = p\<lparr>pp_producer_refcount := pp_producer_refcount p + 1\<rparr>"

definition pipe_consumer_new :: "'a pipe_t \<Rightarrow> 'a pipe_t" where
  "pipe_consumer_new p = p\<lparr>pp_consumer_refcount := pp_consumer_refcount p + 1\<rparr>"

text \<open>Releasing a handle; \<open>None\<close> when the pipe itself was deallocated.\<close>

definition pipe_free :: "'a pipe_t \<Rightarrow> 'a pipe_t option res" where
  "pipe_free p =
     checkR (0 < pp_producer_refcount p) Exit_Failure
     (checkR (0 < pp_consumer_refcount p) Exit_Failure
       (let p1 = p\<lparr>pp_producer_refcount := pp_producer_refcount p - 1,
                   pp_consumer_refcount := pp_consumer_refcount p - 1\<rparr>
        in if pp_consumer_refcount p1 = 0
           then (let p2 = p1\<lparr>pp_buffer := None\<rparr>
                 in if 0 < pp_producer_refcount p2 then Inr (Some p2) else Inr None)
           else Inr (Some p1)))"

definition pipe_producer_free :: "'a pipe_t \<Rightarrow> 'a pipe_t option res" where
  "pipe_producer_free p =
     checkR (0 < pp_producer_refcount p) Exit_Failure
       (let p1 = p\<lparr>pp_producer_refcount := pp_producer_refcount p - 1\<rparr>
        in if pp_producer_refcount p1 = 0 \<and> pp_consumer_refcount p1 = 0 then Inr None
           else Inr (Some p1))"

text \<open>The counter is a \<open>size_t\<close>: releasing a consumer that does not exist wraps it.\<close>

definition pipe_consumer_free :: "'a pipe_t \<Rightarrow> 'a pipe_t option res" where
  "pipe_consumer_free p =
     (let n = (if pp_consumer_refcount p = 0 then 2 ^ 64 - 1 else pp_consumer_refcount p - 1);
          p1 = p\<lparr>pp_consumer_refcount := n\<rparr>
      in if n = 0 \<and> pp_producer_refcount p1 = 0 then Inr None else Inr (Some p1))"

text \<open>
  \<open>SOS_pipe_init\<close> makes one handle of each kind and drops the pipe's own references; the
  lock, the condition and the element count beside the pipe belong to its users.
\<close>

definition SOS_pipe_init :: "nat \<Rightarrow> 'a \<Rightarrow> nat \<Rightarrow> 'a pipe_t option res" where
  "SOS_pipe_init mincap junk elem_size =
     bindR (pipe_new mincap junk elem_size 0) (\<lambda>p. pipe_free (pipe_consumer_new (pipe_producer_new p)))"

section \<open>Pushing\<close>

definition with_buffer :: "'a pipe_t \<Rightarrow> ('a list \<Rightarrow> 'b res) \<Rightarrow> 'b res" where
  "with_buffer p f = (case pp_buffer p of None \<Rightarrow> Inl Null_Deref | Some buf \<Rightarrow> f buf)"

definition copy_pipe_into_new_buf :: "snapshot_t \<Rightarrow> 'a list \<Rightarrow> 'a list \<Rightarrow> ('a list \<times> nat) res" where
  "copy_pipe_into_new_buf s old new =
     (if wraps_around s
      then bindR (mem_read (sp_begin s) (sp_bufend s - sp_begin s) old) (\<lambda>xs.
           bindR (mem_write 0 xs new) (\<lambda>new1.
           bindR (mem_read 0 (sp_end s) old) (\<lambda>ys.
           bindR (mem_write (length xs) ys new1) (\<lambda>new2.
           Inr (new2, length xs + length ys)))))
      else bindR (mem_read (sp_begin s) (sp_end s - sp_begin s) old) (\<lambda>xs.
           bindR (mem_write 0 xs new) (\<lambda>new1. Inr (new1, length xs))))"

definition resize_buffer :: "nat \<Rightarrow> 'a \<Rightarrow> 'a pipe_t \<Rightarrow> nat \<Rightarrow> 'a pipe_t res" where
  "resize_buffer mincap junk p new_size0 =
     assert_invariants mincap p
     (checkR (bytes_in_use (make_snapshot p) \<le> new_size0) Exit_Failure
       (let new_size = (if pp_max_cap p \<le> new_size0 then pp_max_cap p else new_size0)
        in if new_size \<le> pp_min_cap p then Inr p
           else
             with_buffer p (\<lambda>old.
             bindR (copy_pipe_into_new_buf (make_snapshot p) old
                      (replicate (new_size + pp_elem_size p) junk)) (\<lambda>(new, e).
             let p' = p\<lparr>pp_buffer := Some new, pp_begin := 0, pp_end := e,
                        pp_bufend := new_size + pp_elem_size p\<rparr>
             in assert_invariants mincap p' (Inr p')))))"

definition validate_size :: "nat \<Rightarrow> 'a \<Rightarrow> 'a pipe_t \<Rightarrow> nat \<Rightarrow> 'a pipe_t res" where
  "validate_size mincap junk p new_bytes =
     (let s = make_snapshot p;
          bytes_needed = bytes_in_use s + new_bytes
      in if capacity s < bytes_needed
         then bindR (next_pow2 (word_of_nat (bytes_needed div pp_elem_size p))) (\<lambda>w.
                resize_buffer mincap junk p (unat w * pp_elem_size p))
         else Inr p)"

text \<open>The copy into the ring: what fits before the end, then the rest from the start.\<close>

definition process_push :: "snapshot_t \<Rightarrow> 'a list \<Rightarrow> 'a list \<Rightarrow> ('a list \<times> nat) res" where
  "process_push s buf elems =
     checkR (elems \<noteq> []) Exit_Failure
     (checkR (sp_end s \<noteq> sp_bufend s) Exit_Failure
       (let at_end = (if wraps_around s then 0 else min (length elems) (sp_bufend s - sp_end s));
            rest = drop at_end elems
        in bindR (mem_write (sp_end s) (take at_end elems) buf) (\<lambda>buf1.
           let e1 = sp_end s + at_end
           in bindR (if rest = [] then Inr (buf1, e1)
                     else (let e2 = wrap_ptr_if_necessary e1 (sp_bufend s)
                           in bindR (mem_write e2 rest buf1) (\<lambda>buf2. Inr (buf2, e2 + length rest)))) (\<lambda>(buf2, e3).
              Inr (buf2, wrap_ptr_if_necessary e3 (sp_bufend s))))))"

definition wait_for_room :: "'a pipe_t \<Rightarrow> unit res" where
  "wait_for_room p =
     checkR (\<not> (bytes_in_use (make_snapshot p) = pp_max_cap p \<and> 0 < pp_consumer_refcount p)) Blocks (Inr ())"

text \<open>One round of \<open>__pipe_push\<close>: the pipe after it and the number of cells pushed.\<close>

definition pipe_push_round :: "nat \<Rightarrow> 'a \<Rightarrow> 'a pipe_t \<Rightarrow> 'a list \<Rightarrow> ('a pipe_t \<times> nat) res" where
  "pipe_push_round mincap junk p elems =
     bindR (validate_size mincap junk p (length elems)) (\<lambda>p1.
     let s = make_snapshot p1;
         pushed = min (length elems) (pp_max_cap p - bytes_in_use s)
     in with_buffer p1 (\<lambda>buf.
        bindR (process_push s buf (take pushed elems)) (\<lambda>(buf', e).
        Inr (p1\<lparr>pp_buffer := Some buf', pp_end := e\<rparr>, pushed))))"

function pipe_push_bytes :: "nat \<Rightarrow> 'a \<Rightarrow> 'a pipe_t \<Rightarrow> 'a list \<Rightarrow> 'a pipe_t res" where
  "pipe_push_bytes mincap junk p elems =
     (if elems = [] then Inr p
      else bindR (wait_for_room p) (\<lambda>_.
           if pp_consumer_refcount p = 0 then Inr p
           else bindR (pipe_push_round mincap junk p elems) (\<lambda>(p', pushed).
                if pushed = 0 then Inl Exit_Failure
                else pipe_push_bytes mincap junk p' (drop pushed elems))))"
  by pat_completeness auto
termination
  by (relation "measure (\<lambda>(mincap, junk, p, elems). length elems)") auto

declare pipe_push_bytes.simps [simp del]

text \<open>\<open>elems\<close> points to \<open>count * elem_size\<close> cells; reading beyond them is out of bounds.\<close>

definition pipe_push :: "nat \<Rightarrow> 'a \<Rightarrow> 'a pipe_t \<Rightarrow> 'a list \<Rightarrow> nat \<Rightarrow> 'a pipe_t res" where
  "pipe_push mincap junk p elems count =
     bindR (mem_read 0 (count * pp_elem_size p) elems) (pipe_push_bytes mincap junk p)"

section \<open>Popping\<close>

definition pop_without_locking :: "snapshot_t \<Rightarrow> 'a list \<Rightarrow> nat \<Rightarrow> ('a list \<times> nat) res" where
  "pop_without_locking s buf bytes_to_copy =
     checkR (sp_begin s \<noteq> sp_bufend s) Exit_Failure
       (let es = sp_elem_size s;
            first = min bytes_to_copy (sp_bufend s - sp_begin s - es);
            left = bytes_to_copy - first
        in bindR (mem_read (sp_begin s + es) first buf) (\<lambda>xs.
           let b1 = wrap_ptr_if_necessary (sp_begin s + first) (sp_bufend s)
           in if left = 0 then Inr (xs, b1)
              else (let b2 = wrap_ptr_if_necessary (b1 + es) (sp_bufend s)
                    in bindR (mem_read b2 left buf) (\<lambda>ys.
                       let b3 = wrap_ptr_if_necessary (b2 + left) (sp_bufend s)
                       in Inr (xs @ ys, rev_wrap_ptr_if_necessary b3 es (sp_bufend s))))))"

definition trim_buffer :: "nat \<Rightarrow> 'a \<Rightarrow> 'a pipe_t \<Rightarrow> 'a pipe_t res" where
  "trim_buffer mincap junk p =
     (let s = make_snapshot p
      in if capacity s div 4 < bytes_in_use s then Inr p
         else resize_buffer mincap junk p (capacity s div 2))"

definition pipe_pop_bytes :: "nat \<Rightarrow> 'a \<Rightarrow> 'a pipe_t \<Rightarrow> nat \<Rightarrow> ('a pipe_t \<times> 'a list) res" where
  "pipe_pop_bytes mincap junk p requested =
     (if requested = 0 then Inr (p, [])
      else
        (let s = make_snapshot p; bytes_used = bytes_in_use s
         in if bytes_used = 0 then checkR (pp_producer_refcount p = 0) Blocks (Inr (p, []))
            else assert_invariants mincap p
              (with_buffer p (\<lambda>buf.
               bindR (pop_without_locking s buf (min requested bytes_used)) (\<lambda>(xs, b).
               let p1 = p\<lparr>pp_begin := b\<rparr>
               in assert_invariants mincap p1
                    (bindR (trim_buffer mincap junk p1) (\<lambda>p2. Inr (p2, xs))))))))"

function pipe_pop_loop :: "nat \<Rightarrow> 'a \<Rightarrow> 'a pipe_t \<Rightarrow> nat \<Rightarrow> 'a list \<Rightarrow> ('a pipe_t \<times> 'a list) res" where
  "pipe_pop_loop mincap junk p bytes_left target =
     bindR (pipe_pop_bytes mincap junk p bytes_left) (\<lambda>(p', xs).
       if xs \<noteq> [] \<and> length xs < bytes_left
       then pipe_pop_loop mincap junk p' (bytes_left - length xs) (target @ xs)
       else Inr (p', target @ xs))"
  by pat_completeness auto
termination
  by (relation "measure (\<lambda>(mincap, junk, p, left, target). left)") auto

declare pipe_pop_loop.simps [simp del]

definition pipe_pop :: "nat \<Rightarrow> 'a \<Rightarrow> 'a pipe_t \<Rightarrow> nat \<Rightarrow> ('a pipe_t \<times> 'a list) res" where
  "pipe_pop mincap junk p count = pipe_pop_loop mincap junk p (count * pp_elem_size p) []"

definition pipe_pop_eager :: "nat \<Rightarrow> 'a \<Rightarrow> 'a pipe_t \<Rightarrow> nat \<Rightarrow> ('a pipe_t \<times> 'a list) res" where
  "pipe_pop_eager mincap junk p count = pipe_pop_bytes mincap junk p (count * pp_elem_size p)"

text \<open>\<open>break\<close> leaves the macro's inner loop, so both invariant checks run on every path.\<close>

definition pipe_reserve :: "nat \<Rightarrow> 'a \<Rightarrow> 'a pipe_t \<Rightarrow> nat \<Rightarrow> 'a pipe_t res" where
  "pipe_reserve mincap junk p count0 =
     (let count1 = count0 * pp_elem_size p;
          count = (if count1 = 0 then mincap else count1)
      in assert_invariants mincap p
           (bindR (if count \<le> bytes_in_use (make_snapshot p) then Inr p
                   else resize_buffer mincap junk (p\<lparr>pp_min_cap := min count (pp_max_cap p)\<rparr>) count) (\<lambda>p'.
            assert_invariants mincap p' (Inr p'))))"

section \<open>The ring as a sequence\<close>

lemma mem_write_nth:
  "mem_write p bs m = Inr m' \<Longrightarrow> i < length m \<Longrightarrow>
   m' ! i = (if p \<le> i \<and> i < p + length bs then bs ! (i - p) else m ! i)"
  by (auto simp: mem_write_def nth_append min_def split: if_splits)

lemma mem_write_ex: "p + length bs \<le> length m \<Longrightarrow> \<exists>m'. mem_write p bs m = Inr m'"
  by (simp add: mem_write_def)

lemma mod_shift_neq:
  assumes "i < j" and "j < i + n"
  shows "(x + i) mod n \<noteq> (x + j) mod (n :: nat)"
proof
  assume "(x + i) mod n = (x + j) mod n"
  then have "n dvd (x + j) - (x + i)"
    using assms(1) by (metis mod_eq_dvd_iff_nat add_le_mono1 add.commute less_imp_le)
  then show False using assms by (auto dest: dvd_imp_le)
qed

lemma dvd_less_le: "es dvd a \<Longrightarrow> es dvd b \<Longrightarrow> a < b \<Longrightarrow> a + es \<le> (b :: nat)"
  by (metis dvd_add_right_iff dvd_diff_nat dvd_imp_le le_add_diff_inverse less_imp_le nat_add_left_cancel_le zero_less_diff)

text \<open>The cells in use, in order, starting after the sentinel.\<close>

definition pipe_content :: "'a pipe_t \<Rightarrow> 'a list" where
  "pipe_content p =
     map (\<lambda>i. the (pp_buffer p) ! ((pp_begin p + pp_elem_size p + i) mod pp_bufend p))
       [0 ..< bytes_in_use (make_snapshot p)]"

text \<open>A pipe whose buffer still has its first size.\<close>

definition ring_ok :: "nat \<Rightarrow> 'a pipe_t \<Rightarrow> bool" where
  "ring_ok mincap p \<longleftrightarrow>
     (\<exists>buf. pp_buffer p = Some buf \<and> length buf = pp_bufend p) \<and>
     pp_min_cap p = pp_bufend p \<and> pp_bufend p = mincap * pp_elem_size p \<and> pp_bufend p \<le> pp_max_cap p \<and>
     0 < pp_elem_size p \<and> pp_elem_size p dvd pp_begin p \<and> pp_elem_size p dvd pp_end p \<and>
     pp_begin p < pp_bufend p \<and> pp_end p < pp_bufend p \<and> 0 < pp_consumer_refcount p"

lemma in_useI:
  assumes "b < n" and "0 < es" and "es + u \<le> n" and "e = (b + es + u) mod n"
  shows "bytes_in_use \<lparr>sp_bufend = n, sp_begin = b, sp_end = e, sp_elem_size = es\<rparr> = u"
proof (cases "b + es + u < n")
  case True
  then show ?thesis using assms by (simp add: bytes_in_use_def wraps_around_def)
next
  case False
  then have "e = b + es + u - n" using assms by (simp add: mod_if)
  moreover have "b + es + u - n \<le> b" using assms(3) by linarith
  ultimately show ?thesis using assms False by (simp add: bytes_in_use_def wraps_around_def)
qed

lemma ring_okD:
  assumes "ring_ok mincap p"
  shows "pp_elem_size p + bytes_in_use (make_snapshot p) \<le> pp_bufend p"
    and "pp_end p = (pp_begin p + pp_elem_size p + bytes_in_use (make_snapshot p)) mod pp_bufend p"
    and "pp_elem_size p dvd bytes_in_use (make_snapshot p)"
proof -
  let ?es = "pp_elem_size p" and ?n = "pp_bufend p" and ?b = "pp_begin p" and ?e = "pp_end p"
  have d: "?es dvd ?n" "?es dvd ?b" "?es dvd ?e" "?b < ?n" "?e < ?n" "0 < ?es"
    using assms by (auto simp: ring_ok_def)
  have b: "?b + ?es \<le> ?n" using dvd_less_le d by blast
  have use: "bytes_in_use (make_snapshot p) = (if ?e \<le> ?b then ?e + (?n - ?b) else ?e - ?b) - ?es"
    by (simp add: bytes_in_use_def make_snapshot_def wraps_around_def)
  have e: "?b + ?es \<le> ?e" if "\<not> ?e \<le> ?b" using that dvd_less_le d by auto
  show "?es + bytes_in_use (make_snapshot p) \<le> ?n"
    using use b d e by (cases "?e \<le> ?b") auto
  show "?es dvd bytes_in_use (make_snapshot p)"
    using use d by (auto intro: dvd_diff_nat dvd_add)
  show "?e = (?b + ?es + bytes_in_use (make_snapshot p)) mod ?n"
  proof (cases "?e \<le> ?b")
    case True
    then have "?b + ?es + bytes_in_use (make_snapshot p) = ?e + ?n" using use b by simp
    then show ?thesis using d by simp
  next
    case False
    then have "?b + ?es + bytes_in_use (make_snapshot p) = ?e" using use e by simp
    then show ?thesis using d by simp
  qed
qed

lemma ring_ok_invariants: "ring_ok mincap p \<Longrightarrow> check_invariants mincap p"
  using ring_okD(1) [of mincap p]
  by (auto simp: check_invariants_def ring_ok_def make_snapshot_def capacity_def in_bounds_def Let_def
      bytes_in_use_def wraps_around_def)

lemma length_pipe_content [simp]: "length (pipe_content p) = bytes_in_use (make_snapshot p)"
  by (simp add: pipe_content_def)

lemma process_push_effect:
  assumes "length buf = n" and "b < n" and "e < n" and "0 < es" and "es + u \<le> n"
    and "e = (b + es + u) mod n" and "elems \<noteq> []" and "es + u + length elems \<le> n"
  shows "\<exists>buf'. process_push \<lparr>sp_bufend = n, sp_begin = b, sp_end = e, sp_elem_size = es\<rparr> buf elems =
      Inr (buf', (b + es + (u + length elems)) mod n) \<and> length buf' = n \<and>
    (\<forall>j < length elems. buf' ! ((b + es + (u + j)) mod n) = elems ! j) \<and>
    (\<forall>i < u. buf' ! ((b + es + i) mod n) = buf ! ((b + es + i) mod n))"
proof -
  let ?s = "\<lparr>sp_bufend = n, sp_begin = b, sp_end = e, sp_elem_size = es\<rparr>"
  let ?k = "length elems"
  show ?thesis
  proof (cases "b + es + u < n")
    case True
    then have e: "e = b + es + u" and nowrap: "\<not> e \<le> b" using assms(4,6) by auto
    show ?thesis
    proof (cases "?k \<le> n - e")
      case True
      have "e + ?k \<le> length buf" using True assms(1,3) by linarith
      then obtain buf' where w: "mem_write e elems buf = Inr buf'"
        using mem_write_ex by blast
      have "process_push ?s buf elems = Inr (buf', wrap_ptr_if_necessary (e + ?k) n)"
        using True w assms(3,7) nowrap by (simp add: process_push_def wraps_around_def Let_def)
      moreover have "wrap_ptr_if_necessary (e + ?k) n = (b + es + (u + ?k)) mod n"
        using True assms(3) e by (auto simp: wrap_ptr_if_necessary_def mod_if)
      moreover have "buf' ! ((b + es + (u + j)) mod n) = elems ! j" if "j < ?k" for j
      proof -
        have "(b + es + (u + j)) mod n = e + j" "e + j < n" using that True e by simp_all
        then show ?thesis using that assms(1) mem_write_nth [OF w, of "e + j"] by simp
      qed
      moreover have "buf' ! ((b + es + i) mod n) = buf ! ((b + es + i) mod n)" if "i < u" for i
      proof -
        have "(b + es + i) mod n = b + es + i" "b + es + i < e" "b + es + i < n" using that assms(3) e by simp_all
        then show ?thesis using assms(1) mem_write_nth [OF w, of "b + es + i"] by simp
      qed
      ultimately show ?thesis using mem_write_length [OF w] assms(1) by (intro exI [of _ buf']) simp
    next
      case False
      let ?a = "n - e"
      have "e + length (take ?a elems) \<le> length buf" using False assms(1,3) by simp
      then obtain buf1 where w1: "mem_write e (take ?a elems) buf = Inr buf1"
        using mem_write_ex by blast
      have l1: "length buf1 = n" using mem_write_length [OF w1] assms(1) by simp
      have "0 + length (drop ?a elems) \<le> length buf1" using assms(8) l1 by simp
      then obtain buf2 where w2: "mem_write 0 (drop ?a elems) buf1 = Inr buf2"
        using mem_write_ex by blast
      have l2: "length buf2 = n" using mem_write_length [OF w2] l1 by simp
      have "process_push ?s buf elems = Inr (buf2, wrap_ptr_if_necessary (?k - ?a) n)"
        using False w1 w2 assms(3,7) nowrap
        by (simp add: process_push_def wraps_around_def Let_def wrap_ptr_if_necessary_def)
      moreover have "wrap_ptr_if_necessary (?k - ?a) n = (b + es + (u + ?k)) mod n"
        using False assms(3,8) e by (auto simp: wrap_ptr_if_necessary_def mod_if)
      moreover have "buf2 ! ((b + es + (u + j)) mod n) = elems ! j" if "j < ?k" for j
      proof (cases "j < ?a")
        case True
        then have "(b + es + (u + j)) mod n = e + j" "e + j < n" "?k - ?a \<le> e + j"
          using e assms(8) by simp_all
        then show ?thesis
          using True that assms(1) l1 mem_write_nth [OF w2, of "e + j"] mem_write_nth [OF w1, of "e + j"]
          by simp
      next
        case False
        then have m: "(b + es + (u + j)) mod n = j - ?a"
          using that assms(3,8) e by (auto simp: mod_if)
        have "j - ?a < n" using that assms(8) by simp
        then show ?thesis using False that l1 mem_write_nth [OF w2, of "j - ?a"] m by auto
      qed
      moreover have "buf2 ! ((b + es + i) mod n) = buf ! ((b + es + i) mod n)" if "i < u" for i
      proof -
        have "(b + es + i) mod n = b + es + i" "b + es + i < e" "b + es + i < n" "?k - ?a \<le> b + es + i"
          using that assms(3,8) e by simp_all
        then show ?thesis
          using assms(1) l1 mem_write_nth [OF w2, of "b + es + i"] mem_write_nth [OF w1, of "b + es + i"] by simp
      qed
      ultimately show ?thesis using l2 by (intro exI [of _ buf2]) simp
    qed
  next
    case False
    then have e: "e = b + es + u - n" and wrap: "e \<le> b" using assms(2,5,6) by (auto simp: mod_if)
    have "e + ?k \<le> length buf" using assms(1,2,8) e False by linarith
    then obtain buf' where w: "mem_write e elems buf = Inr buf'"
      using mem_write_ex by blast
    have "process_push ?s buf elems = Inr (buf', e + ?k)"
      using w assms(1-3,7,8) wrap e False
      by (auto simp: process_push_def wraps_around_def Let_def wrap_ptr_if_necessary_def mem_write_def)
    moreover have "e + ?k = (b + es + (u + ?k)) mod n"
      using assms(2,8) e False by (auto simp: mod_if)
    moreover have "buf' ! ((b + es + (u + j)) mod n) = elems ! j" if "j < ?k" for j
    proof -
      have "(b + es + (u + j)) mod n = e + j" using that assms(2,8) e False by (auto simp: mod_if)
      then show ?thesis using that assms(1,2,8) e False mem_write_nth [OF w, of "e + j"] by auto
    qed
    moreover have "buf' ! ((b + es + i) mod n) = buf ! ((b + es + i) mod n)" if "i < u" for i
    proof -
      have "(b + es + i) mod n < e \<or> e + ?k \<le> (b + es + i) mod n"
        using that assms(2,8) e False by (auto simp: mod_if)
      moreover have "(b + es + i) mod n < n" using assms(2) by simp
      ultimately show ?thesis using assms(1) mem_write_nth [OF w, of "(b + es + i) mod n"] by auto
    qed
    ultimately show ?thesis using mem_write_length [OF w] assms(1) by (intro exI [of _ buf']) simp
  qed
qed

lemma pop_effect:
  assumes "length buf = n" and "b < n" and "0 < es" and "es dvd b" and "es dvd n"
    and "es + k \<le> n" and "es dvd k"
  shows "pop_without_locking \<lparr>sp_bufend = n, sp_begin = b, sp_end = e, sp_elem_size = es\<rparr> buf k =
    Inr (map (\<lambda>i. buf ! ((b + es + i) mod n)) [0 ..< k], (b + k) mod n)"
proof -
  have bes: "b + es \<le> n" using dvd_less_le assms by blast
  let ?f = "n - b - es"
  show ?thesis
  proof (cases "k \<le> ?f")
    case True
    have "take k (drop (b + es) buf) = map (\<lambda>i. buf ! ((b + es + i) mod n)) [0 ..< k]"
      using True bes assms(1,3) by (intro nth_equalityI) auto
    then show ?thesis
      using True bes assms(1-3)
      by (simp add: pop_without_locking_def mem_read_def Let_def wrap_ptr_if_necessary_def)
  next
    case False
    define r where "r = k - ?f"
    have r: "es \<le> r" "r < n" "r \<le> n" "k = ?f + r"
    proof -
      have "es dvd ?f" using assms(4,5) by (intro dvd_diff_nat) auto
      then have "es dvd r" using assms(7) by (simp add: r_def)
      then show "es \<le> r" using False by (intro dvd_imp_le) (auto simp: r_def)
      show "r < n" "r \<le> n" "k = ?f + r" using False assms(3,6) by (auto simp: r_def)
    qed
    have xs: "take ?f (drop (b + es) buf) @ take r (drop 0 buf) = map (\<lambda>i. buf ! ((b + es + i) mod n)) [0 ..< k]"
      using r bes assms(1) by (intro nth_equalityI) (auto simp: nth_append mod_if add.commute add.left_commute)
    have m: "(b + k) mod n = r - es"
      using r bes assms(3) by (auto simp: mod_if)
    have b1: "wrap_ptr_if_necessary (b + ?f) n = n - es" "wrap_ptr_if_necessary (n - es + es) n = 0"
        "wrap_ptr_if_necessary r n = r" "rev_wrap_ptr_if_necessary r es n = r - es"
      using bes r assms(2,3) by (auto simp: wrap_ptr_if_necessary_def rev_wrap_ptr_if_necessary_def)
    have "pop_without_locking \<lparr>sp_bufend = n, sp_begin = b, sp_end = e, sp_elem_size = es\<rparr> buf k =
        Inr (take ?f (drop (b + es) buf) @ take r (drop 0 buf), r - es)"
      using False bes assms(1-3) r b1
      by (simp add: pop_without_locking_def mem_read_def Let_def r_def [symmetric])
    then show ?thesis by (simp only: xs m)
  qed
qed

section \<open>The FIFO contract\<close>

lemma pipe_push_ok:
  assumes "ring_ok mincap p" and "pp_elem_size p dvd length xs"
    and "length (pipe_content p) + length xs \<le> pp_bufend p - pp_elem_size p"
  shows "\<exists>p'. pipe_push_bytes mincap junk p xs = Inr p' \<and> ring_ok mincap p' \<and>
    pipe_content p' = pipe_content p @ xs \<and> pp_bufend p' = pp_bufend p \<and>
    pp_elem_size p' = pp_elem_size p \<and> pp_max_cap p' = pp_max_cap p"
proof (cases "xs = []")
  case True
  then show ?thesis using assms(1) by (simp add: pipe_push_bytes.simps)
next
  case False
  let ?n = "pp_bufend p" and ?es = "pp_elem_size p" and ?b = "pp_begin p" and ?k = "length xs"
  define u where "u = bytes_in_use (make_snapshot p)"
  obtain buf where buf: "pp_buffer p = Some buf" "length buf = ?n" using assms(1) by (auto simp: ring_ok_def)
  have inv: "?b < ?n" "pp_end p < ?n" "0 < ?es" "?n \<le> pp_max_cap p" "?es dvd ?n" "?es dvd ?b" "0 < pp_consumer_refcount p"
    using assms(1) by (auto simp: ring_ok_def)
  have u: "?es + u \<le> ?n" "pp_end p = (?b + ?es + u) mod ?n" "?es dvd u"
    using ring_okD [OF assms(1)] by (auto simp: u_def)
  have room: "?es + u + ?k \<le> ?n" using assms(3) u(1) inv(3) by (simp add: u_def)
  obtain buf' where push: "process_push (make_snapshot p) buf xs = Inr (buf', (?b + ?es + (u + ?k)) mod ?n)"
    and l: "length buf' = ?n"
    and new: "\<forall>j < ?k. buf' ! ((?b + ?es + (u + j)) mod ?n) = xs ! j"
    and old: "\<forall>i < u. buf' ! ((?b + ?es + i) mod ?n) = buf ! ((?b + ?es + i) mod ?n)"
    using process_push_effect [OF buf(2) inv(1,2,3) u(1,2) False room] by (auto simp: make_snapshot_def)
  let ?p' = "p\<lparr>pp_buffer := Some buf', pp_end := (?b + ?es + (u + ?k)) mod ?n\<rparr>"
  have use': "bytes_in_use (make_snapshot ?p') = u + ?k"
    using in_useI [of ?b ?n ?es "u + ?k"] inv room by (simp add: make_snapshot_def)
  have "\<not> capacity (make_snapshot p) < u + ?k"
    using room by (simp add: capacity_def make_snapshot_def)
  then have "validate_size mincap junk p ?k = Inr p"
    by (simp add: validate_size_def u_def [symmetric])
  moreover have "min ?k (pp_max_cap p - u) = ?k" using room inv(4) by simp
  ultimately have "pipe_push_round mincap junk p xs = Inr (?p', ?k)"
    using buf push by (simp add: pipe_push_round_def with_buffer_def u_def [symmetric] Let_def)
  moreover have "wait_for_room p = Inr ()"
    using room inv(3,4) by (simp add: wait_for_room_def u_def [symmetric])
  ultimately have "pipe_push_bytes mincap junk p xs = Inr ?p'"
    using False inv(7) by (simp add: pipe_push_bytes.simps [of _ _ p] pipe_push_bytes.simps [of _ _ _ "[]"])
  moreover have "ring_ok mincap ?p'"
  proof -
    have "?es dvd (?b + ?es + (u + ?k)) mod ?n" using inv u(3) assms(2) by (intro dvd_mod) (auto intro: dvd_add)
    then show ?thesis using assms(1) l inv by (auto simp: ring_ok_def)
  qed
  moreover have "pipe_content ?p' = pipe_content p @ xs"
  proof (rule nth_equalityI)
    show "length (pipe_content ?p') = length (pipe_content p @ xs)" by (simp add: use') (simp add: u_def)
    fix i assume "i < length (pipe_content ?p')"
    then have "i < u + ?k" by (simp add: use')
    then show "pipe_content ?p' ! i = (pipe_content p @ xs) ! i"
      using new [rule_format, of "i - u"] old
      by (cases "i < u") (auto simp: pipe_content_def use' u_def [symmetric] nth_append buf)
  qed
  ultimately show ?thesis by (intro exI [of _ ?p']) simp
qed

lemma pipe_pop_ok:
  assumes "ring_ok mincap p" and "pipe_content p \<noteq> []" and "0 < k" and "pp_elem_size p dvd k"
  shows "\<exists>p'. pipe_pop_bytes mincap junk p k = Inr (p', take k (pipe_content p)) \<and> ring_ok mincap p' \<and>
    pipe_content p' = drop k (pipe_content p) \<and> pp_bufend p' = pp_bufend p \<and>
    pp_elem_size p' = pp_elem_size p \<and> pp_max_cap p' = pp_max_cap p"
proof -
  let ?n = "pp_bufend p" and ?es = "pp_elem_size p" and ?b = "pp_begin p"
  define u where "u = bytes_in_use (make_snapshot p)"
  define m where "m = min k u"
  obtain buf where buf: "pp_buffer p = Some buf" "length buf = ?n" using assms(1) by (auto simp: ring_ok_def)
  have inv: "?b < ?n" "pp_end p < ?n" "0 < ?es" "?n \<le> pp_max_cap p" "?es dvd ?n" "?es dvd ?b" "0 < pp_consumer_refcount p"
    using assms(1) by (auto simp: ring_ok_def)
  have u: "?es + u \<le> ?n" "pp_end p = (?b + ?es + u) mod ?n" "?es dvd u"
    using ring_okD [OF assms(1)] by (auto simp: u_def)
  have u0: "u \<noteq> 0" using assms(2) by (auto simp: u_def pipe_content_def)
  have m: "?es dvd m" "m \<le> u" "?es + m \<le> ?n" using u assms(4) by (auto simp: m_def min_def)
  have "pop_without_locking (make_snapshot p) buf m =
      Inr (map (\<lambda>i. buf ! ((?b + ?es + i) mod ?n)) [0 ..< m], (?b + m) mod ?n)"
    unfolding make_snapshot_def using pop_effect [OF buf(2) inv(1,3,6,5) m(3,1)] by simp
  moreover have "map (\<lambda>i. buf ! ((?b + ?es + i) mod ?n)) [0 ..< m] = take k (pipe_content p)"
    by (cases "k \<le> u") (simp_all add: pipe_content_def u_def [symmetric] buf take_map m_def)
  ultimately have pop: "pop_without_locking (make_snapshot p) buf m = Inr (take k (pipe_content p), (?b + m) mod ?n)"
    by simp
  let ?p' = "p\<lparr>pp_begin := (?b + m) mod ?n\<rparr>"
  have e': "pp_end p = ((?b + m) mod ?n + ?es + (u - m)) mod ?n"
  proof -
    have "(?b + m) mod ?n + ?es + (u - m) = (?b + m) mod ?n + (?es + (u - m))" by simp
    then have "((?b + m) mod ?n + ?es + (u - m)) mod ?n = (?b + m + (?es + (u - m))) mod ?n"
      by (simp only: mod_add_left_eq)
    also have "?b + m + (?es + (u - m)) = ?b + ?es + u" using m(2) by simp
    finally show ?thesis using u(2) by simp
  qed
  have use': "bytes_in_use (make_snapshot ?p') = u - m"
    using in_useI [of "(?b + m) mod ?n" ?n ?es "u - m" "pp_end p"] inv u e' m by (simp add: make_snapshot_def)
  have ok': "ring_ok mincap ?p'"
  proof -
    have "?es dvd (?b + m) mod ?n" using inv m by (intro dvd_mod) (auto intro: dvd_add)
    then show ?thesis using assms(1) inv by (auto simp: ring_ok_def)
  qed
  have trim: "trim_buffer mincap junk ?p' = Inr ?p'"
  proof (cases "capacity (make_snapshot ?p') div 4 < u - m")
    case False
    then have le: "u - m \<le> capacity (make_snapshot ?p') div 2" by linarith
    have "capacity (make_snapshot ?p') div 2 \<le> pp_min_cap ?p'"
      using assms(1) by (simp add: ring_ok_def capacity_def make_snapshot_def)
    then show ?thesis
      using False le ring_ok_invariants [OF ok']
      by (simp add: trim_buffer_def resize_buffer_def assert_invariants_def use' Let_def)
  qed (simp add: trim_buffer_def use')
  have "pipe_pop_bytes mincap junk p k = Inr (?p', take k (pipe_content p))"
    using assms(3) u0 buf pop trim ring_ok_invariants [OF assms(1)] ring_ok_invariants [OF ok']
    by (simp add: pipe_pop_bytes_def u_def [symmetric] m_def [symmetric] with_buffer_def assert_invariants_def Let_def)
  moreover have "pipe_content ?p' = drop k (pipe_content p)"
  proof (rule nth_equalityI)
    show "length (pipe_content ?p') = length (drop k (pipe_content p))"
      using use' by (simp add: u_def [symmetric]) (simp add: m_def)
    fix i assume "i < length (pipe_content ?p')"
    then have i: "i < u - m" by (simp add: use')
    then have mk: "m = k" by (simp add: m_def min_def split: if_splits)
    then have "k + i < u" using i by simp
    moreover have "((?b + m) mod ?n + ?es + i) mod ?n = (?b + ?es + (m + i)) mod ?n"
      using mod_add_left_eq [of "?b + m" ?n "?es + i"] by (simp add: ac_simps)
    ultimately show "pipe_content ?p' ! i = drop k (pipe_content p) ! i"
      using i mk use' by (simp add: pipe_content_def u_def [symmetric] buf)
  qed
  ultimately show ?thesis using ok' by (intro exI [of _ ?p']) simp
qed


text \<open>
  A run of calls on a pipe: \<open>Inl xs\<close> pushes the elements whose cells are \<open>xs\<close>, \<open>Inr c\<close> pops
  up to \<open>c\<close> elements. \<open>fifo_trace\<close> is the same run on a list that holds at most \<open>n\<close> cells; it
  is defined when every push fits and every pop finds something.
\<close>

fun pipe_trace :: "nat \<Rightarrow> 'a \<Rightarrow> ('a list + nat) list \<Rightarrow> 'a pipe_t \<Rightarrow> ('a pipe_t \<times> 'a list list) res" where
  "pipe_trace mincap junk [] p = Inr (p, [])"
| "pipe_trace mincap junk (Inl xs # ops) p =
     bindR (pipe_push mincap junk p xs (length xs div pp_elem_size p)) (pipe_trace mincap junk ops)"
| "pipe_trace mincap junk (Inr c # ops) p =
     bindR (pipe_pop_eager mincap junk p c) (\<lambda>(p', ys).
     bindR (pipe_trace mincap junk ops p') (\<lambda>(p'', out). Inr (p'', ys # out)))"

fun fifo_trace :: "nat \<Rightarrow> nat \<Rightarrow> ('a list + nat) list \<Rightarrow> 'a list \<Rightarrow> ('a list \<times> 'a list list) option" where
  "fifo_trace es n [] q = Some (q, [])"
| "fifo_trace es n (Inl xs # ops) q =
     (if es dvd length xs \<and> length q + length xs \<le> n then fifo_trace es n ops (q @ xs) else None)"
| "fifo_trace es n (Inr c # ops) q =
     (if q \<noteq> [] \<and> 0 < c
      then map_option (\<lambda>(q', out). (q', take (c * es) q # out)) (fifo_trace es n ops (drop (c * es) q))
      else None)"

text \<open>
  A bounded queue of elements of \<open>unit\<close> cells: a push that fits appends, a pop takes from the
  front as many elements as it asks for and there are. \<open>conf\<close> is the fixed part of a queue.
\<close>

locale bounded_queue =
  fixes ok :: "'p \<Rightarrow> bool" and content :: "'p \<Rightarrow> 'a list" and conf :: "'p \<Rightarrow> 'c"
    and unit :: "'c \<Rightarrow> nat" and limit :: "'c \<Rightarrow> nat"
    and push :: "'p \<Rightarrow> 'a list \<Rightarrow> 'p res" and pop :: "'p \<Rightarrow> nat \<Rightarrow> ('p \<times> 'a list) res"
  assumes push_ok: "ok p \<Longrightarrow> unit (conf p) dvd length xs \<Longrightarrow> length (content p) + length xs \<le> limit (conf p) \<Longrightarrow>
      \<exists>p'. push p xs = Inr p' \<and> ok p' \<and> content p' = content p @ xs \<and> conf p' = conf p"
    and pop_ok: "ok p \<Longrightarrow> content p \<noteq> [] \<Longrightarrow> 0 < c \<Longrightarrow>
      \<exists>p'. pop p c = Inr (p', take (c * unit (conf p)) (content p)) \<and> ok p' \<and>
        content p' = drop (c * unit (conf p)) (content p) \<and> conf p' = conf p"
begin

fun run :: "('a list + nat) list \<Rightarrow> 'p \<Rightarrow> ('p \<times> 'a list list) res" where
  "run [] p = Inr (p, [])"
| "run (Inl xs # ops) p = bindR (push p xs) (run ops)"
| "run (Inr c # ops) p = bindR (pop p c) (\<lambda>(p', ys). bindR (run ops p') (\<lambda>(p'', out). Inr (p'', ys # out)))"

lemma run_fifo:
  "ok p \<Longrightarrow> fifo_trace (unit (conf p)) (limit (conf p)) ops (content p) = Some (q, out) \<Longrightarrow>
   \<exists>p'. run ops p = Inr (p', out) \<and> ok p' \<and> content p' = q \<and> conf p' = conf p"
proof (induction ops arbitrary: p out)
  case (Cons op ops)
  show ?case
  proof (cases op)
    case (Inl xs)
    then obtain p1 where "push p xs = Inr p1" "ok p1" "content p1 = content p @ xs" "conf p1 = conf p"
      using Cons.prems push_ok [of p xs] by (auto split: if_splits)
    then show ?thesis using Inl Cons.IH [of p1 out] Cons.prems(2) by (auto split: if_splits)
  next
    case (Inr c)
    let ?k = "c * unit (conf p)"
    obtain p1 where p1: "pop p c = Inr (p1, take ?k (content p))" "ok p1" "content p1 = drop ?k (content p)"
        "conf p1 = conf p"
      using Inr Cons.prems pop_ok [of p c] by (auto split: if_splits)
    obtain out1 where "fifo_trace (unit (conf p1)) (limit (conf p1)) ops (content p1) = Some (q, out1)"
        "out = take ?k (content p) # out1"
      using Cons.prems(2) Inr p1 by (auto split: if_splits)
    then show ?thesis using Inr p1 Cons.IH [of p1 out1] by auto
  qed
qed simp

end

definition pipe_conf :: "'a pipe_t \<Rightarrow> nat \<times> nat \<times> nat" where
  "pipe_conf p = (pp_elem_size p, pp_bufend p, pp_max_cap p)"

interpretation pipe_q: bounded_queue "ring_ok mincap" pipe_content pipe_conf fst "\<lambda>(es, n, mc). n - es"
    "\<lambda>p xs. pipe_push mincap junk p xs (length xs div pp_elem_size p)" "pipe_pop_eager mincap junk"
  for mincap :: nat and junk :: 'a
proof
  fix p :: "'a pipe_t" and xs :: "'a list"
  assume ok: "ring_ok mincap p" and d: "fst (pipe_conf p) dvd length xs"
    and fits: "length (pipe_content p) + length xs \<le> (case pipe_conf p of (es, n, mc) \<Rightarrow> n - es)"
  from d have "pipe_push mincap junk p xs (length xs div pp_elem_size p) = pipe_push_bytes mincap junk p xs"
    by (simp add: pipe_push_def mem_read_def pipe_conf_def)
  then show "\<exists>p'. pipe_push mincap junk p xs (length xs div pp_elem_size p) = Inr p' \<and> ring_ok mincap p' \<and>
      pipe_content p' = pipe_content p @ xs \<and> pipe_conf p' = pipe_conf p"
    using pipe_push_ok [OF ok, of xs junk] d fits by (auto simp: pipe_conf_def)
next
  fix p :: "'a pipe_t" and c :: nat
  assume ok: "ring_ok mincap p" and ne: "pipe_content p \<noteq> []" and c: "0 < c"
  have "0 < c * pp_elem_size p" using ok c by (simp add: ring_ok_def)
  from pipe_pop_ok [OF ok ne this, of junk]
  show "\<exists>p'. pipe_pop_eager mincap junk p c = Inr (p', take (c * fst (pipe_conf p)) (pipe_content p)) \<and>
      ring_ok mincap p' \<and> pipe_content p' = drop (c * fst (pipe_conf p)) (pipe_content p) \<and> pipe_conf p' = pipe_conf p"
    by (auto simp: pipe_conf_def pipe_pop_eager_def)
qed

section \<open>Rounding up to a power of two\<close>

text \<open>After the shifts up to \<open>t\<close>, a bit is set if one of the next \<open>2 * t\<close> bits was.\<close>

lemma bit_pow2_smear:
  assumes "\<forall>i. bit y i \<longleftrightarrow> (\<exists>d < t. bit x (i + d))"
  shows "\<forall>i. bit (pow2_smear t y) i \<longleftrightarrow> (\<exists>d < 2 * t. bit x (i + d))"
proof
  fix i
  have "(\<exists>d < 2 * t. bit x (i + d)) \<longleftrightarrow> (\<exists>d < t. bit x (i + d)) \<or> (\<exists>d < t. bit x (t + i + d))"
  proof
    assume "\<exists>d < 2 * t. bit x (i + d)"
    then obtain d where d: "d < 2 * t" "bit x (i + d)" by blast
    show "(\<exists>d < t. bit x (i + d)) \<or> (\<exists>d < t. bit x (t + i + d))"
    proof (cases "d < t")
      case False
      then have "d - t < t" "bit x (t + i + (d - t))" using d by (auto simp: add.commute)
      then show ?thesis by blast
    qed (use d in blast)
  next
    assume "(\<exists>d < t. bit x (i + d)) \<or> (\<exists>d < t. bit x (t + i + d))"
    then show "\<exists>d < 2 * t. bit x (i + d)"
    proof
      assume "\<exists>d < t. bit x (t + i + d)"
      then obtain d where "d < t" "bit x (i + (t + d))" by (auto simp: ac_simps)
      then show ?thesis by (intro exI [of _ "t + d"]) simp
    next
      assume "\<exists>d < t. bit x (i + d)"
      then obtain d where "d < t" "bit x (i + d)" by blast
      then show ?thesis by (intro exI [of _ d]) simp
    qed
  qed
  then show "bit (pow2_smear t y) i \<longleftrightarrow> (\<exists>d < 2 * t. bit x (i + d))"
    using assms by (simp add: pow2_smear_def bit_or_iff bit_drop_bit_eq)
qed

lemma bit_smear_all:
  "bit (fold pow2_smear [1, 2, 4, 8, 16, 32] x) i \<longleftrightarrow> (\<exists>j \<ge> i. bit (x :: u64) j)"
proof -
  have "\<forall>i. bit x i \<longleftrightarrow> (\<exists>d < 1. bit x (i + d))" by simp
  from bit_pow2_smear [OF bit_pow2_smear [OF bit_pow2_smear [OF bit_pow2_smear
        [OF bit_pow2_smear [OF bit_pow2_smear [OF this]]]]]]
  have "bit (fold pow2_smear [1, 2, 4, 8, 16, 32] x) i \<longleftrightarrow> (\<exists>d < 64. bit x (i + d))" by simp
  also have "\<dots> \<longleftrightarrow> (\<exists>j \<ge> i. bit x j)"
  proof
    assume "\<exists>j \<ge> i. bit x j"
    then obtain j where j: "i \<le> j" "bit x j" by blast
    then have "j < 64" using bit_imp_le_length [of x j] by simp
    then show "\<exists>d < 64. bit x (i + d)" using j by (intro exI [of _ "j - i"]) simp
  qed (use le_add1 in blast)
  finally show ?thesis .
qed

lemma next_pow2_least:
  assumes "n \<noteq> 0" and "n < 2 ^ 63"
  shows "\<exists>w k. next_pow2 n = Inr w \<and> k \<le> 63 \<and> unat w = 2 ^ k \<and> unat n \<le> 2 ^ k \<and> (\<forall>j. unat n \<le> 2 ^ j \<longrightarrow> k \<le> j)"
proof -
  define x where "x = n - 1"
  define k where "k = (LEAST k. \<forall>j \<ge> k. \<not> bit x j)"
  have n: "unat n = unat x + 1" using assms(1) by (simp add: x_def unat_minus_one unat_gt_0)
  have small: "unat n < 2 ^ 63" using assms(2) by (simp add: word_less_nat_alt)
  have less_iff: "unat x < 2 ^ j \<longleftrightarrow> (\<forall>i \<ge> j. \<not> bit x i)" for j
  proof -
    have "unat x < 2 ^ j \<longleftrightarrow> unat x div 2 ^ j = 0" by (simp add: div_eq_0_iff)
    also have "\<dots> \<longleftrightarrow> unat (drop_bit j x) = 0" by (subst unat_drop_bit_eq) (simp only: drop_bit_eq_div [of _ "unat x"])
    also have "\<dots> \<longleftrightarrow> drop_bit j x = 0" by (rule unat_eq_0)
    also have "\<dots> \<longleftrightarrow> (\<forall>i. \<not> bit x (j + i))" 
      using bit_imp_le_length [of x] by (fastforce simp: bit_eq_iff bit_drop_bit_eq)
    also have "\<dots> \<longleftrightarrow> (\<forall>i \<ge> j. \<not> bit x i)" by (metis le_add1 le_Suc_ex)
    finally show ?thesis .
  qed
  have k63: "\<forall>j \<ge> 63. \<not> bit x j" using small n less_iff [of 63] by simp
  have kP: "\<forall>j \<ge> k. \<not> bit x j" unfolding k_def by (rule LeastI [of _ 63]) (rule k63)
  have k_le: "k \<le> j" if "\<forall>i \<ge> j. \<not> bit x i" for j
    unfolding k_def by (rule Least_le) (rule that)
  have "fold pow2_smear [1, 2, 4, 8, 16, 32] x = mask k"
  proof (rule bit_word_eqI)
    fix i :: nat assume "i < LENGTH(64)"
    have "(\<exists>j \<ge> i. bit x j) \<longleftrightarrow> i < k" using kP k_le [of i] by (meson leI le_less_trans not_le order_trans)
    then show "bit (fold pow2_smear [1, 2, 4, 8, 16, 32] x) i = bit (mask k :: u64) i"
      unfolding bit_smear_all using \<open>i < LENGTH(64)\<close> by (simp add: bit_mask_iff)
  qed
  then have w: "next_pow2 n = Inr (mask k + 1)"
    using assms by (simp add: next_pow2_def x_def linorder_not_le [symmetric])
  have k: "k \<le> 63" using k_le k63 by blast
  have "mask k + 1 = (2 ^ k :: u64)" by (simp add: mask_eq_exp_minus_1)
  moreover have "unat (2 ^ k :: u64) = 2 ^ k"
  proof -
    have "(2 :: nat) ^ k < 2 ^ LENGTH(64)" using k by (intro power_strict_increasing) simp_all
    from unat_word_of_nat_small [OF this] show ?thesis by simp
  qed
  ultimately have "unat (mask k + 1 :: u64) = 2 ^ k" by simp
  moreover have "unat n \<le> 2 ^ k" using less_iff [of k] kP n by simp
  moreover have "k \<le> j" if "unat n \<le> 2 ^ j" for j using that n less_iff [of j] k_le by simp
  ultimately show ?thesis using w k by blast
qed

lemma SOS_pipe_init_ok:
  assumes "2 \<le> mincap" and "0 < es" and "mincap * es < 2 ^ 63"
  obtains p k where "SOS_pipe_init mincap junk es = Inr (Some p)" and "ring_ok mincap p" and "pipe_content p = []"
    and "pp_elem_size p = es" and "pp_bufend p = mincap * es" and "pp_producer_refcount p = 1"
    and "pp_max_cap p = 2 ^ k" and "\<forall>j. mincap * es \<le> 2 ^ j \<longrightarrow> k \<le> j"
proof -
  define cap where "cap = mincap * es"
  let ?cap = cap
  have lt: "es < cap" using assms(1,2) by (simp add: cap_def)
  have small: "cap < 2 ^ LENGTH(64)" "es < 2 ^ LENGTH(64)"
    using assms(3) lt unfolding cap_def [symmetric] by simp_all
  have u: "unat (word_of_nat ?cap :: u64) = ?cap" "unat (word_of_nat es :: u64) = es"
    by (rule unat_word_of_nat_small, rule small)+
  have mx: "max (word_of_nat es) (word_of_nat ?cap) = (word_of_nat ?cap :: u64)"
    using lt u by (simp add: max_def word_le_nat_alt)
  have nz: "(word_of_nat es :: u64) \<noteq> 0" "(word_of_nat ?cap :: u64) \<noteq> 0"
    using u assms(2) lt by (metis gr_implies_not0 unat_0)+
  have "(word_of_nat ?cap :: u64) < 2 ^ 63"
    unfolding word_less_nat_alt u(1) using assms(3) by (simp add: cap_def)
  then obtain w k where w: "next_pow2 (word_of_nat ?cap) = Inr w" "unat w = 2 ^ k" "?cap \<le> 2 ^ k"
      "\<forall>j. ?cap \<le> 2 ^ j \<longrightarrow> k \<le> j"
    using next_pow2_least [OF nz(2)] unfolding u(1) by blast
  let ?p = "\<lparr>pp_elem_size = es, pp_min_cap = ?cap, pp_max_cap = 2 ^ k, pp_buffer = Some (replicate ?cap junk),
      pp_bufend = ?cap, pp_begin = 0, pp_end = es, pp_producer_refcount = 1, pp_consumer_refcount = 1\<rparr>"
  have ok: "ring_ok mincap ?p" using assms lt w(3) by (simp add: ring_ok_def cap_def)
  have "pipe_new mincap junk es 0 = Inr ?p"
    using assms(1,2) w nz mx ring_ok_invariants [OF ok]
    by (simp add: pipe_new_def Let_def assert_invariants_def cap_def [symmetric] del: of_nat_mult)
  then have init: "SOS_pipe_init mincap junk es = Inr (Some ?p)"
    by (simp add: SOS_pipe_init_def pipe_producer_new_def pipe_consumer_new_def pipe_free_def Let_def)
  have "pipe_content ?p = []"
    using lt by (simp add: pipe_content_def bytes_in_use_def make_snapshot_def wraps_around_def assms(2))
  then show ?thesis using that [OF init ok] w(4) by (simp add: cap_def)
qed

text \<open>A full pipe: the next push asks for a larger buffer, which the invariant check refuses.\<close>

lemma resize_aborts:
  assumes "ring_ok mincap p" and "pp_bufend p < pp_max_cap p" and "pp_max_cap p \<le> m"
  shows "resize_buffer mincap junk p m = Inl Exit_Failure"
proof -
  let ?s = "make_snapshot p" and ?N = "pp_max_cap p + pp_elem_size p"
  obtain buf where buf: "pp_buffer p = Some buf" "length buf = pp_bufend p" using assms(1) by (auto simp: ring_ok_def)
  have inv: "pp_begin p < pp_bufend p" "pp_end p < pp_bufend p" "pp_min_cap p = pp_bufend p" "0 < pp_elem_size p"
    using assms(1) by (auto simp: ring_ok_def)
  have use: "pp_elem_size p + bytes_in_use ?s \<le> pp_bufend p" using ring_okD(1) [OF assms(1)] .
  have "\<exists>new e. copy_pipe_into_new_buf ?s buf (replicate ?N junk) = Inr (new, e)"
    using buf inv assms(2)
    by (auto simp: copy_pipe_into_new_buf_def make_snapshot_def wraps_around_def mem_read_def mem_write_def)
  then obtain new e where copy: "copy_pipe_into_new_buf ?s buf (replicate ?N junk) = Inr (new, e)" by blast
  have bad: "\<not> check_invariants mincap (p\<lparr>pp_buffer := Some new, pp_begin := 0, pp_end := e, pp_bufend := ?N\<rparr>)"
    using inv by (simp add: check_invariants_def capacity_def make_snapshot_def in_bounds_def Let_def)
  show ?thesis
    using assms(2,3) inv(3) use copy bad buf ring_ok_invariants [OF assms(1)]
    by (simp add: resize_buffer_def assert_invariants_def with_buffer_def Let_def)
qed

lemma pipe_push_overflow:
  assumes "ring_ok mincap p" and "pp_elem_size p = 2 ^ a" and "pp_max_cap p = 2 ^ c"
    and "\<forall>j. pp_bufend p \<le> 2 ^ j \<longrightarrow> c \<le> j" and "pp_bufend p < pp_max_cap p"
    and "pp_elem_size p dvd length xs" and "pp_bufend p - pp_elem_size p < length (pipe_content p) + length xs"
    and "length (pipe_content p) + length xs < 2 ^ 63"
  shows "pipe_push_bytes mincap junk p xs = Inl Exit_Failure"
proof -
  let ?es = "pp_elem_size p" and ?u = "bytes_in_use (make_snapshot p)"
  let ?e = "(?u + length xs) div ?es"
  have u: "?es + ?u \<le> pp_bufend p" "?es dvd ?u" using ring_okD [OF assms(1)] by auto
  have inv: "0 < ?es" "pp_bufend p = mincap * ?es" "0 < pp_consumer_refcount p"
    using assms(1) by (auto simp: ring_ok_def)
  have ne: "xs \<noteq> []" using assms(7) u by auto
  have need: "pp_bufend p \<le> ?e * ?es"
  proof -
    have d: "?es dvd ?u + length xs" using u(2) assms(6) by simp
    then have "?e * ?es = ?u + length xs" by simp
    moreover have "pp_bufend p - ?es + ?es \<le> ?u + length xs"
      using assms(7) inv u(1) d by (intro dvd_less_le) (auto intro: dvd_diff_nat)
    ultimately show ?thesis by simp
  qed
  have e: "0 < ?e" "?e < 2 ^ 63"
  proof -
    show "0 < ?e" using need inv u(1) by (auto intro: gr0I)
    show "?e < 2 ^ 63" by (rule le_less_trans [OF div_le_dividend]) (use assms(8) in simp)
  qed
  have ue: "unat (word_of_nat ?e :: u64) = ?e"
    by (rule unat_word_of_nat_small) (use e(2) in simp)
  have "(word_of_nat ?e :: u64) \<noteq> 0" "(word_of_nat ?e :: u64) < 2 ^ 63"
    using e ue by (metis less_irrefl unat_0) (use e ue in \<open>simp add: word_less_nat_alt\<close>)
  then obtain w d where w: "next_pow2 (word_of_nat ?e) = Inr w" "unat w = 2 ^ d" "?e \<le> 2 ^ d"
    using next_pow2_least [of "word_of_nat ?e"] ue by metis
  have "pp_bufend p \<le> 2 ^ (d + a)"
    using order_trans [OF need mult_le_mono1 [OF w(3), of ?es]] assms(2) by (simp add: power_add)
  then have "c \<le> d + a" using assms(4) by blast
  then have "pp_max_cap p \<le> unat w * ?es"
    using assms(2,3) w(2) power_increasing [of c "d + a" "2 :: nat"] by (simp add: power_add)
  then have "resize_buffer mincap junk p (unat w * ?es) = Inl Exit_Failure"
    by (intro resize_aborts [OF assms(1,5)])
  moreover have "capacity (make_snapshot p) < ?u + length xs"
    using assms(7) by (simp add: capacity_def make_snapshot_def)
  ultimately have "pipe_push_round mincap junk p xs = Inl Exit_Failure"
    using w(1) by (simp add: pipe_push_round_def validate_size_def Let_def)
  moreover have "wait_for_room p = Inr ()" using u(1) assms(5) by (simp add: wait_for_room_def)
  ultimately show ?thesis using ne inv(3) by (simp add: pipe_push_bytes.simps [of _ _ p])
qed

section \<open>Properties\<close>

lemma pipe_trace_run: "pipe_trace mincap junk ops p = pipe_q.run mincap junk ops p"
proof (induction ops arbitrary: p)
  case (Cons op ops)
  then show ?case by (cases op) (auto intro!: bindR_cong)
qed simp

lemmas pipe_trace_fifo = pipe_q.run_fifo [folded pipe_trace_run, unfolded pipe_conf_def, simplified]

text \<open>
  C13: A pipe made by \<open>SOS_pipe_init\<close> is a FIFO queue: every sequence of pushes and pops that
  keeps at most \<open>mincap - 1\<close> elements in the pipe succeeds, and each pop returns the oldest
  elements, whole and in order, however often the ring wraps around.
\<close>

theorem pipe_is_fifo:
  assumes "2 \<le> mincap" and "0 < es" and "mincap * es < 2 ^ 63"
    and "fifo_trace es ((mincap - 1) * es) ops [] = Some (q, out)"
  shows "\<exists>p p'. SOS_pipe_init mincap junk es = Inr (Some p) \<and> pipe_trace mincap junk ops p = Inr (p', out) \<and>
    pipe_content p' = q"
proof -
  obtain p where p: "SOS_pipe_init mincap junk es = Inr (Some p)" "ring_ok mincap p" "pipe_content p = []"
      "pp_elem_size p = es" "pp_bufend p = mincap * es"
    using SOS_pipe_init_ok [OF assms(1-3)] by metis
  moreover have "pp_bufend p - pp_elem_size p = (mincap - 1) * es"
    using p by (simp add: diff_mult_distrib)
  ultimately show ?thesis
    using pipe_trace_fifo [of mincap p ops q out junk] assms(4) by auto
qed

theorem pipe_is_fifo_witness:
  "\<exists>p p'. SOS_pipe_init 3 0 2 = Inr (Some p) \<and>
     pipe_trace 3 0 [Inl [1, 2, 3, 4 :: int], Inr 1, Inl [5, 6], Inr 2] p = Inr (p', [[1, 2], [3, 4, 5, 6]]) \<and>
     pipe_content p' = []"
  using pipe_is_fifo [of 3 2 "[Inl [1, 2, 3, 4 :: int], Inr 1, Inl [5, 6], Inr 2]" "[]" "[[1, 2], [3, 4, 5, 6]]" 0]
  by simp

text \<open>
  The branch-free rounding of \<open>next_pow2\<close> (subtract one, smear the bits with the shifts
  1 to 32, add one) gives the least power of two that is not below its argument.
\<close>

theorem next_pow2_rounds_up:
  assumes "n \<noteq> 0" and "n < 2 ^ 63"
  shows "\<exists>w k. next_pow2 n = Inr w \<and> unat w = 2 ^ k \<and> unat n \<le> 2 ^ k \<and> (\<forall>j. unat n \<le> 2 ^ j \<longrightarrow> k \<le> j)"
  using next_pow2_least [OF assms] by blast

theorem next_pow2_rounds_up_witness:
  "\<exists>w k. next_pow2 10000000 = Inr w \<and> unat w = 2 ^ k \<and> 10000000 \<le> (2 :: nat) ^ k"
  using next_pow2_rounds_up [of 10000000] by auto



end
