(* ===== verification/SOS_Pub.thy ===== *)
theory SOS_Pub
  imports SOS_Uid SOS_Hashtbl SOS_Pipe
begin

text \<open>
  Publications (\<open>sos.c\<close>): the handle with its value definitions, the name table, the queue of
  value snapshots and the frame cache, and the calls that create it and pack values into it.

  Objects are values: a pointer the code stores is the object it points to, a linked list of
  snapshots is the list from its head. The union \<open>SOS_val\<close> remembers the member that was
  written last; reading another one is \<open>Union_Misread\<close>, except from memory that is all zero.
  The queue holds one cell per snapshot pointer.

  \<open>pub_ok\<close> is the invariant of a handle. The lemmas show that packing keeps it, that a name
  always denotes the same element, and that every packed value goes into the queue in order.
\<close>

section \<open>Data\<close>

datatype SOS_val =
    Val_zero
  | Val_i i32
  | Val_l i64
  | Val_d c_double
  | Val_c "byte list option"
  | Val_bytes "byte list option"

fun read_i_val :: "SOS_val \<Rightarrow> i32 res" where
  "read_i_val Val_zero = Inr 0"
| "read_i_val (Val_i i) = Inr i"
| "read_i_val _ = Inl Union_Misread"

fun read_l_val :: "SOS_val \<Rightarrow> i64 res" where
  "read_l_val Val_zero = Inr 0"
| "read_l_val (Val_l l) = Inr l"
| "read_l_val _ = Inl Union_Misread"

fun read_d_val :: "SOS_val \<Rightarrow> c_double res" where
  "read_d_val Val_zero = Inr (Fin 0)"
| "read_d_val (Val_d d) = Inr d"
| "read_d_val _ = Inl Union_Misread"

fun read_c_val :: "SOS_val \<Rightarrow> byte list option res" where
  "read_c_val Val_zero = Inr None"
| "read_c_val (Val_c p) = Inr p"
| "read_c_val _ = Inl Union_Misread"

fun read_bytes_val :: "SOS_val \<Rightarrow> byte list option res" where
  "read_bytes_val Val_zero = Inr None"
| "read_bytes_val (Val_bytes p) = Inr p"
| "read_bytes_val _ = Inl Union_Misread"

record SOS_time =
  tm_pack :: c_double
  tm_send :: c_double
  tm_recv :: c_double

record SOS_val_meta =
  vm_freq :: i32
  vm_semantic :: i32
  vm_classifier :: i32
  vm_pattern :: i32
  vm_compare :: i32
  vm_relation_id :: u64

record SOS_val_snap =
  sn_elem :: i32
  sn_guid :: u64
  sn_pub_guid :: u64
  sn_relation_id :: u64
  sn_frame :: i64
  sn_time :: SOS_time
  sn_semantic :: i32
  sn_type :: i32
  sn_val_len :: i32
  sn_val :: SOS_val

record SOS_data =
  dt_guid :: u64
  dt_val_len :: i32
  dt_val :: SOS_val
  dt_type :: i32
  dt_meta :: SOS_val_meta
  dt_state :: i32
  dt_sync :: i32
  dt_time :: SOS_time
  dt_name :: "byte list"

record SOS_pub_meta =
  pm_channel :: i32
  pm_nature :: i32
  pm_layer :: i32
  pm_pri_hint :: i32
  pm_scope_hint :: i32
  pm_retain_hint :: i32

text \<open>A slot of the frame cache: a list of snapshots, or one that is its own successor.\<close>

datatype snap_chain = Chain "SOS_val_snap list" | Self_Loop SOS_val_snap

record snap_pipe =
  sq_pipe :: "SOS_val_snap pipe_t"
  sq_elem_count :: int
  sq_sync_lock :: bool

record SOS_pub =
  pb_lock :: bool
  pb_sync_pending :: i32
  pb_guid :: u64
  pb_guid_str :: "byte list"
  pb_process_id :: i32
  pb_thread_id :: i32
  pb_comm_rank :: i32
  pb_meta :: SOS_pub_meta
  pb_announced :: i32
  pb_frame :: i64
  pb_elem_max :: int
  pb_elem_count :: int
  pb_pragma_len :: i32
  pb_pragma_msg :: "byte list"
  pb_node_id :: "byte list"
  pb_prog_name :: "byte list"
  pb_prog_ver :: "byte list"
  pb_title :: "byte list"
  pb_cache :: "snap_chain list option"
  pb_cache_head :: int
  pb_cache_depth :: i32
  pb_data :: "SOS_data list"
  pb_name_table :: "int qhashtbl"
  pb_snap_queue :: "snap_pipe option"

text \<open>
  What the calls read of the runtime (\<open>SOS_runtime\<close> and its configuration), and the two things
  outside it: \<open>cx_send\<close> is the exchange with the daemon, \<open>cx_mincap\<close> the pipe's
  \<open>DEFAULT_MINCAP\<close>.
\<close>

record SOS_ctx =
  cx_role :: SOS_role
  cx_my_guid :: u64
  cx_offline_test_mode :: bool
  cx_comm_rank :: i32
  cx_layer :: i32
  cx_node_id :: cstring
  cx_program_name :: cstring
  cx_process_id :: i32
  cx_pub_cache_depth :: i32
  cx_send :: "SOS_buffer \<Rightarrow> SOS_buffer \<Rightarrow> SOS_buffer res"
  cx_mincap :: nat

abbreviation val_type_code :: "SOS_val_type \<Rightarrow> i32" where
  "val_type_code \<equiv> enum_code SOS_val_type_vals"

abbreviation val_state_code :: "SOS_val_state \<Rightarrow> i32" where
  "val_state_code \<equiv> enum_code SOS_val_state_vals"

definition zero_time :: SOS_time where
  "zero_time = \<lparr>tm_pack = Fin 0, tm_send = Fin 0, tm_recv = Fin 0\<rparr>"

definition zero_snap :: SOS_val_snap where
  "zero_snap = \<lparr>sn_elem = 0, sn_guid = 0, sn_pub_guid = 0, sn_relation_id = 0, sn_frame = 0, sn_time = zero_time,
     sn_semantic = 0, sn_type = 0, sn_val_len = 0, sn_val = Val_zero\<rparr>"

section \<open>Creating a publication\<close>

definition new_data :: SOS_data where
  "new_data = \<lparr>dt_guid = 0, dt_val_len = 0, dt_val = Val_zero, dt_type = val_type_code SOS_VAL_TYPE_INT,
     dt_meta = \<lparr>vm_freq = enum_code SOS_val_freq_vals SOS_VAL_FREQ_DEFAULT,
                vm_semantic = enum_code SOS_val_semantic_vals SOS_VAL_SEMANTIC_DEFAULT,
                vm_classifier = enum_code SOS_val_class_vals SOS_VAL_CLASS_DATA,
                vm_pattern = enum_code SOS_val_pattern_vals SOS_VAL_PATTERN_DEFAULT,
                vm_compare = enum_code SOS_val_compare_vals SOS_VAL_COMPARE_SELF, vm_relation_id = 0\<rparr>,
     dt_state = val_state_code SOS_VAL_STATE_EMPTY, dt_sync = 0, dt_time = zero_time,
     dt_name = replicate SOS_DEFAULT_STRING_LEN 0\<rparr>"

text \<open>\<open>printf("%" PRIu64)\<close>.\<close>

fun dec_digits :: "nat \<Rightarrow> cstring" where
  "dec_digits n = (if n < 10 then [word_of_nat (48 + n)] else dec_digits (n div 10) @ [word_of_nat (48 + n mod 10)])"

declare dec_digits.simps [simp del]

definition guid_str :: "u64 \<Rightarrow> cstring" where
  "guid_str g = dec_digits (unat g)"

definition SOS_pub_init_sized ::
    "SOS_ctx \<Rightarrow> SOS_uid \<Rightarrow> cstring \<Rightarrow> SOS_nature \<Rightarrow> int \<Rightarrow> (SOS_uid \<times> SOS_pub) res" where
  "SOS_pub_init_sized cx pool title nature new_size =
     bindR (SOS_uid_next (cx_send cx) (cx_role cx) (cx_my_guid cx) (cx_offline_test_mode cx) pool) (\<lambda>(pool, guid).
     bindR (if cx_role cx = SOS_ROLE_CLIENT
            then bindR (SOS_pipe_init (cx_mincap cx) zero_snap 1) (\<lambda>p.
                 case p of None \<Rightarrow> Inl Null_Deref
                 | Some p \<Rightarrow> Inr (Some \<lparr>sq_pipe = p, sq_elem_count = 0, sq_sync_lock = False\<rparr>))
            else Inr None) (\<lambda>queue.
     case qhashtbl_new (int SOS_DEFAULT_TABLE_SIZE) of
       None \<Rightarrow> Inl Null_Deref
     | Some tbl \<Rightarrow>
         Inr (pool,
           \<lparr>pb_lock = False, pb_sync_pending = 0, pb_guid = guid,
            pb_guid_str = snprintf_array SOS_DEFAULT_STRING_LEN (guid_str guid) (replicate SOS_DEFAULT_STRING_LEN 0),
            pb_process_id = cx_process_id cx, pb_thread_id = 0, pb_comm_rank = cx_comm_rank cx,
            pb_meta = \<lparr>pm_channel = 0, pm_nature = enum_code SOS_nature_vals nature, pm_layer = cx_layer cx,
                       pm_pri_hint = enum_code SOS_pri_vals SOS_PRI_DEFAULT,
                       pm_scope_hint = enum_code SOS_scope_vals SOS_SCOPE_DEFAULT,
                       pm_retain_hint = enum_code SOS_retain_vals SOS_RETAIN_DEFAULT\<rparr>,
            pb_announced = 0, pb_frame = 0, pb_elem_max = new_size, pb_elem_count = 0, pb_pragma_len = 0,
            pb_pragma_msg = replicate SOS_DEFAULT_STRING_LEN 0,
            pb_node_id = strncpy_array SOS_DEFAULT_STRING_LEN (cstr (cx_node_id cx)),
            pb_prog_name = strncpy_array SOS_DEFAULT_STRING_LEN (cstr (cx_program_name cx)),
            pb_prog_ver = replicate SOS_DEFAULT_STRING_LEN 0,
            pb_title = strncpy_array SOS_DEFAULT_STRING_LEN (cstr title),
            pb_cache = None, pb_cache_head = 0, pb_cache_depth = cx_pub_cache_depth cx,
            pb_data = replicate (nat new_size) new_data, pb_name_table = tbl, pb_snap_queue = queue\<rparr>)))"

definition SOS_pub_init :: "SOS_ctx \<Rightarrow> SOS_uid \<Rightarrow> cstring \<Rightarrow> SOS_nature \<Rightarrow> (SOS_uid \<times> SOS_pub) res" where
  "SOS_pub_init cx pool title nature = SOS_pub_init_sized cx pool title nature (int SOS_DEFAULT_ELEM_MAX)"

definition SOS_expand_data :: "SOS_pub \<Rightarrow> SOS_pub res" where
  "SOS_expand_data pub =
     (let to_new_max = pb_elem_max pub + int SOS_DEFAULT_ELEM_MAX
      in checkR (to_new_max \<le> int INT_MAX) Size_Overflow
           (Inr (pub\<lparr>pb_data := pb_data pub @ replicate SOS_DEFAULT_ELEM_MAX new_data, pb_elem_max := to_new_max\<rparr>)))"

text \<open>Positions are stored plus one, so that \<open>NULL\<close> is the absent name.\<close>

definition SOS_pub_search :: "SOS_pub \<Rightarrow> cstring \<Rightarrow> int" where
  "SOS_pub_search pub name =
     (case qh_get (pb_name_table pub) (Some name) of None \<Rightarrow> 0 | Some i \<Rightarrow> i) - 1"

definition pub_data_at :: "SOS_pub \<Rightarrow> int \<Rightarrow> SOS_data res" where
  "pub_data_at pub i =
     checkR (0 \<le> i \<and> i < int (length (pb_data pub))) Out_Of_Bounds (Inr (pb_data pub ! nat i))"

definition pub_set_data :: "SOS_pub \<Rightarrow> int \<Rightarrow> SOS_data \<Rightarrow> SOS_pub" where
  "pub_set_data pub i d = pub\<lparr>pb_data := (pb_data pub)[nat i := d]\<rparr>"

section \<open>Packing a value\<close>

text \<open>The value of a new snapshot; \<open>None\<close> for the types the call refuses.\<close>

definition snap_take_val :: "SOS_val_snap \<Rightarrow> SOS_val_type \<Rightarrow> pack_arg \<Rightarrow> SOS_val_snap option res" where
  "snap_take_val snap type val =
     (case type of
        SOS_VAL_TYPE_INT \<Rightarrow> (case val of ArgI i \<Rightarrow> Inr (Some (snap\<lparr>sn_val := Val_i i\<rparr>)) | _ \<Rightarrow> Inl Bad_Argument)
      | SOS_VAL_TYPE_LONG \<Rightarrow> (case val of ArgL l \<Rightarrow> Inr (Some (snap\<lparr>sn_val := Val_l l\<rparr>)) | _ \<Rightarrow> Inl Bad_Argument)
      | SOS_VAL_TYPE_DOUBLE \<Rightarrow> (case val of ArgD d \<Rightarrow> Inr (Some (snap\<lparr>sn_val := Val_d d\<rparr>)) | _ \<Rightarrow> Inl Bad_Argument)
      | SOS_VAL_TYPE_STRING \<Rightarrow>
          (case val of
             ArgS s \<Rightarrow> Inr (Some (snap\<lparr>sn_val := Val_c (Some (cstr s @ [0])), sn_val_len := word_of_nat (length (cstr s))\<rparr>))
           | _ \<Rightarrow> Inl Bad_Argument)
      | SOS_VAL_TYPE_BYTES \<Rightarrow> Inr None
      | SOS_VAL_TYPE___MAX \<Rightarrow> Inr None)"

definition pub_add_name ::
    "SOS_ctx \<Rightarrow> SOS_uid \<Rightarrow> SOS_pub \<Rightarrow> cstring \<Rightarrow> SOS_val_type \<Rightarrow> (SOS_uid \<times> SOS_pub \<times> int) res" where
  "pub_add_name cx pool pub0 name type =
     bindR (if pb_elem_max pub0 \<le> pb_elem_count pub0 then SOS_expand_data pub0 else Inr pub0) (\<lambda>pub1.
     let pos = pb_elem_count pub1;
         pub2 = pub1\<lparr>pb_announced := 0, pb_elem_count := pos + 1,
                     pb_name_table := fst (qh_put (pb_name_table pub1) (Some name) (Some (pos + 1)))\<rparr>
     in bindR (pub_data_at pub2 pos) (\<lambda>data.
        bindR (SOS_uid_next (cx_send cx) (cx_role cx) (cx_my_guid cx) (cx_offline_test_mode cx) pool) (\<lambda>(pool, guid).
        Inr (pool,
             pub_set_data pub2 pos
               (data\<lparr>dt_type := val_type_code type, dt_guid := guid, dt_val := Val_zero, dt_val_len := 0,
                     dt_name := strncpy_array SOS_DEFAULT_STRING_LEN (cstr name)\<rparr>),
             pos))))"

definition SOS_pack_snap_situate_in_pub ::
    "SOS_ctx \<Rightarrow> SOS_uid \<Rightarrow> SOS_pub \<Rightarrow> SOS_val_snap \<Rightarrow> cstring \<Rightarrow> SOS_val_type \<Rightarrow> pack_arg \<Rightarrow>
     (SOS_uid \<times> SOS_pub \<times> SOS_val_snap \<times> int) res" where
  "SOS_pack_snap_situate_in_pub cx pool pub snap0 name type val =
     bindR (snap_take_val snap0 type val) (\<lambda>taken.
     case taken of
       None \<Rightarrow> Inr (pool, pub, snap0, - 1)
     | Some snap \<Rightarrow>
         bindR (if SOS_pub_search pub name < 0 then pub_add_name cx pool pub name type
                else Inr (pool, pub, SOS_pub_search pub name)) (\<lambda>(pool, pub, pos).
         bindR (pub_data_at pub pos) (\<lambda>data.
         Inr (pool, pub,
              snap\<lparr>sn_elem := word_of_int pos, sn_guid := dt_guid data, sn_pub_guid := pb_guid pub,
                   sn_frame := pb_frame pub, sn_type := dt_type data\<rparr>, pos))))"

definition data_take_val :: "SOS_data \<Rightarrow> SOS_val_snap \<Rightarrow> SOS_data res" where
  "data_take_val data snap =
     (case enum_decode SOS_val_type_vals (sn_type snap) of
        Some SOS_VAL_TYPE_STRING \<Rightarrow>
          bindR (read_c_val (dt_val data)) (\<lambda>_.
          bindR (read_c_val (sn_val snap)) (\<lambda>p.
          case p of
            Some blk \<Rightarrow>
              Inr (data\<lparr>dt_val := Val_c (Some (take SOS_DEFAULT_STRING_LEN (cstr blk) @ [0])),
                        dt_val_len := word_of_nat (length (cstr blk))\<rparr>)
          | None \<Rightarrow> Inr (data\<lparr>dt_val := Val_c (Some [0]), dt_val_len := 0\<rparr>)))
      | Some SOS_VAL_TYPE_INT \<Rightarrow> bindR (read_i_val (sn_val snap)) (\<lambda>i. Inr (data\<lparr>dt_val := Val_i i, dt_val_len := 4\<rparr>))
      | Some SOS_VAL_TYPE_LONG \<Rightarrow> bindR (read_l_val (sn_val snap)) (\<lambda>l. Inr (data\<lparr>dt_val := Val_l l, dt_val_len := 8\<rparr>))
      | Some SOS_VAL_TYPE_DOUBLE \<Rightarrow> bindR (read_d_val (sn_val snap)) (\<lambda>d. Inr (data\<lparr>dt_val := Val_d d, dt_val_len := 8\<rparr>))
      | _ \<Rightarrow> Inl Exit_Failure)"

definition SOS_pack_snap_renew_pub_data ::
    "c_double \<Rightarrow> SOS_pub \<Rightarrow> SOS_val_snap \<Rightarrow> (SOS_pub \<times> SOS_val_snap) res" where
  "SOS_pack_snap_renew_pub_data now pub snap =
     bindR (pub_data_at pub (sint (sn_elem snap))) (\<lambda>data.
     bindR (data_take_val data snap) (\<lambda>data.
     Inr (pub_set_data pub (sint (sn_elem snap))
            (data\<lparr>dt_state := val_state_code SOS_VAL_STATE_DIRTY, dt_time := (dt_time data)\<lparr>tm_pack := now\<rparr>\<rparr>),
          snap\<lparr>sn_time := (sn_time snap)\<lparr>tm_pack := now\<rparr>\<rparr>)))"

section \<open>The frame cache\<close>

text \<open>The ring moves backwards: the newest frame is at \<open>cache_head\<close>.\<close>

definition cache_insert_pos :: "SOS_pub \<Rightarrow> int" where
  "cache_insert_pos pub = (if pb_cache_head pub = 0 then sint (pb_cache_depth pub) - 1 else pb_cache_head pub - 1)"

definition SOS_pack_snap_list_into_pub_cache :: "SOS_pub \<Rightarrow> SOS_val_snap list \<Rightarrow> SOS_pub res" where
  "SOS_pack_snap_list_into_pub_cache pub snap_list =
     (if sint (pb_cache_depth pub) < 1 then Inr pub
      else
        (case snap_list of
           [] \<Rightarrow> Inr pub
         | first # _ \<Rightarrow>
             if pm_nature (pb_meta pub) = enum_code SOS_nature_vals SOS_NATURE_SOS then Inr pub
             else
               (case pb_cache pub of
                  None \<Rightarrow> Inl Null_Deref
                | Some cache \<Rightarrow>
                    (let pos = cache_insert_pos pub
                     in checkR (0 \<le> pos \<and> pos < int (length cache)) Out_Of_Bounds
                          (case cache ! nat pos of
                             Self_Loop _ \<Rightarrow> Inl Use_After_Free
                           | Chain _ \<Rightarrow>
                               Inr (pub\<lparr>pb_cache := Some (cache[nat pos := Chain snap_list]),
                                        pb_frame := (if sint (pb_frame pub) < sint (sn_frame first) then sn_frame first
                                                     else pb_frame pub),
                                        pb_cache_head := pos\<rparr>))))))"

definition cache_first :: "SOS_pub \<Rightarrow> SOS_val_snap res" where
  "cache_first pub =
     (case pb_cache pub of
        Some (Chain (s # _) # _) \<Rightarrow> Inr s
      | Some (Self_Loop s # _) \<Rightarrow> Inr s
      | _ \<Rightarrow> Inl Null_Deref)"

text \<open>
  The copy made for the cache is timestamped and then left unused: the snapshot itself goes into
  the cache. Where it was just inserted as a list of its own, it becomes its own successor.
\<close>

definition SOS_pack_snap_add_to_pub_cache :: "SOS_ctx \<Rightarrow> SOS_pub \<Rightarrow> SOS_val_snap \<Rightarrow> SOS_pub res" where
  "SOS_pack_snap_add_to_pub_cache cx pub snap =
     (if cx_role cx = SOS_ROLE_CLIENT \<or> sint (pb_cache_depth pub) < 1 then Inr pub
      else
        bindR (cache_first pub) (\<lambda>first.
        let fresh = (sn_frame first \<noteq> sn_frame snap \<and> pm_nature (pb_meta pub) \<noteq> enum_code SOS_nature_vals SOS_NATURE_SOS)
        in bindR (if sn_frame first \<noteq> sn_frame snap then SOS_pack_snap_list_into_pub_cache pub [snap] else Inr pub) (\<lambda>pub.
           case pb_cache pub of
             None \<Rightarrow> Inl Null_Deref
           | Some cache \<Rightarrow>
               checkR (0 \<le> pb_cache_head pub \<and> pb_cache_head pub < int (length cache)) Out_Of_Bounds
                 (let h = nat (pb_cache_head pub)
                  in if fresh then Inr (pub\<lparr>pb_cache := Some (cache[h := Self_Loop snap])\<rparr>)
                     else (case cache ! h of
                             Chain snaps \<Rightarrow> Inr (pub\<lparr>pb_cache := Some (cache[h := Chain (snap # snaps)])\<rparr>)
                           | Self_Loop _ \<Rightarrow> Inl Diverges)))))"

section \<open>The snapshot queue and the calls of the interface\<close>

definition SOS_pack_snap_into_val_queue :: "SOS_ctx \<Rightarrow> SOS_pub \<Rightarrow> SOS_val_snap \<Rightarrow> SOS_pub res" where
  "SOS_pack_snap_into_val_queue cx pub snap =
     (case pb_snap_queue pub of
        None \<Rightarrow> Inr pub
      | Some q \<Rightarrow>
          checkR (\<not> sq_sync_lock q) Deadlock
            (bindR (pipe_push (cx_mincap cx) zero_snap (sq_pipe q) [snap] 1) (\<lambda>p.
             Inr (pub\<lparr>pb_snap_queue := Some (q\<lparr>sq_pipe := p, sq_elem_count := sq_elem_count q + 1\<rparr>)\<rparr>))))"

text \<open>An error leaves the function before the lock of the publication is released.\<close>

definition pack_value ::
    "SOS_ctx \<Rightarrow> c_double \<Rightarrow> SOS_uid \<Rightarrow> SOS_pub \<Rightarrow> (SOS_val_snap \<Rightarrow> SOS_val_snap) \<Rightarrow> cstring \<Rightarrow> SOS_val_type \<Rightarrow> pack_arg \<Rightarrow>
     (SOS_uid \<times> SOS_pub \<times> int) res" where
  "pack_value cx now pool pub relate name type val =
     checkR (\<not> pb_lock pub) Deadlock
       (bindR (SOS_pack_snap_situate_in_pub cx pool (pub\<lparr>pb_lock := True\<rparr>) zero_snap name type val) (\<lambda>(pool, pub, snap, rc).
        if rc < 0 then Inr (pool, pub, rc)
        else
          bindR (SOS_pack_snap_renew_pub_data now pub (relate snap)) (\<lambda>(pub, snap).
          bindR (SOS_pack_snap_add_to_pub_cache cx pub snap) (\<lambda>pub.
          bindR (SOS_pack_snap_into_val_queue cx pub snap) (\<lambda>pub.
          Inr (pool, pub\<lparr>pb_lock := False\<rparr>, sint (sn_elem snap)))))))"

definition SOS_pack ::
    "SOS_ctx \<Rightarrow> c_double \<Rightarrow> SOS_uid \<Rightarrow> SOS_pub \<Rightarrow> cstring \<Rightarrow> SOS_val_type \<Rightarrow> pack_arg \<Rightarrow> (SOS_uid \<times> SOS_pub \<times> int) res" where
  "SOS_pack cx now pool pub name type val = pack_value cx now pool pub (\<lambda>snap. snap) name type val"

definition SOS_pack_related ::
    "SOS_ctx \<Rightarrow> c_double \<Rightarrow> SOS_uid \<Rightarrow> SOS_pub \<Rightarrow> i64 \<Rightarrow> cstring \<Rightarrow> SOS_val_type \<Rightarrow> pack_arg \<Rightarrow> (SOS_uid \<times> SOS_pub \<times> int) res" where
  "SOS_pack_related cx now pool pub relation_id name type val =
     pack_value cx now pool pub (\<lambda>snap. snap\<lparr>sn_relation_id := relation_id\<rparr>) name type val"

section \<open>Invariant\<close>

text \<open>An element holds a value of its type, or none yet.\<close>

definition val_fits :: "i32 \<Rightarrow> SOS_val \<Rightarrow> bool" where
  "val_fits t v =
     (case enum_decode SOS_val_type_vals t of
        Some SOS_VAL_TYPE_INT \<Rightarrow> (case v of Val_zero \<Rightarrow> True | Val_i _ \<Rightarrow> True | _ \<Rightarrow> False)
      | Some SOS_VAL_TYPE_LONG \<Rightarrow> (case v of Val_zero \<Rightarrow> True | Val_l _ \<Rightarrow> True | _ \<Rightarrow> False)
      | Some SOS_VAL_TYPE_DOUBLE \<Rightarrow> (case v of Val_zero \<Rightarrow> True | Val_d _ \<Rightarrow> True | _ \<Rightarrow> False)
      | Some SOS_VAL_TYPE_STRING \<Rightarrow> (case v of Val_zero \<Rightarrow> True | Val_c _ \<Rightarrow> True | _ \<Rightarrow> False)
      | _ \<Rightarrow> False)"

definition names_ok :: "SOS_pub \<Rightarrow> bool" where
  "names_ok pub \<longleftrightarrow>
     table_ok (pb_name_table pub) \<and> 0 \<le> pb_elem_count pub \<and>
     (\<forall>k v. qh_lookup (pb_name_table pub) k = Some v \<longrightarrow> (\<exists>n. v = Some n \<and> 1 \<le> n \<and> n \<le> pb_elem_count pub)) \<and>
     (\<forall>k k' v. qh_lookup (pb_name_table pub) k = Some v \<and> qh_lookup (pb_name_table pub) k' = Some v \<longrightarrow> k = k')"

definition elems_ok :: "SOS_pub \<Rightarrow> bool" where
  "elems_ok pub \<longleftrightarrow>
     int (length (pb_data pub)) = pb_elem_max pub \<and> pb_elem_count pub \<le> pb_elem_max pub \<and> pb_elem_max pub \<le> int INT_MAX \<and>
     (\<forall>i < nat (pb_elem_count pub). val_fits (dt_type (pb_data pub ! i)) (dt_val (pb_data pub ! i)))"

definition queue_ok :: "nat \<Rightarrow> snap_pipe \<Rightarrow> bool" where
  "queue_ok mincap q \<longleftrightarrow>
     ring_ok mincap (sq_pipe q) \<and> pp_elem_size (sq_pipe q) = 1 \<and>
     sq_elem_count q = int (length (pipe_content (sq_pipe q))) \<and> \<not> sq_sync_lock q"

text \<open>A client's handle between two calls.\<close>

definition pub_ok :: "nat \<Rightarrow> SOS_pub \<Rightarrow> bool" where
  "pub_ok mincap pub \<longleftrightarrow>
     names_ok pub \<and> elems_ok pub \<and> \<not> pb_lock pub \<and>
     (case pb_snap_queue pub of None \<Rightarrow> False | Some q \<Rightarrow> queue_ok mincap q)"

definition queued :: "SOS_pub \<Rightarrow> SOS_val_snap list" where
  "queued pub = (case pb_snap_queue pub of None \<Rightarrow> [] | Some q \<Rightarrow> pipe_content (sq_pipe q))"

lemma SOS_pub_search_lookup:
  "SOS_pub_search pub name =
     (case qh_lookup (pb_name_table pub) (cstr name) of Some (Some n) \<Rightarrow> n - 1 | _ \<Rightarrow> - 1)"
  by (simp add: SOS_pub_search_def qh_get_def qhget_lookup split: option.splits)

lemma search_cases:
  assumes "names_ok pub"
  obtains "qh_lookup (pb_name_table pub) (cstr name) = None" and "SOS_pub_search pub name = - 1"
  | n where "qh_lookup (pb_name_table pub) (cstr name) = Some (Some n)" and "SOS_pub_search pub name = n - 1"
      and "1 \<le> n" and "n \<le> pb_elem_count pub"
proof (cases "qh_lookup (pb_name_table pub) (cstr name)")
  case None
  then show ?thesis using that(1) by (simp add: SOS_pub_search_lookup)
next
  case (Some v)
  moreover obtain n where "v = Some n" "1 \<le> n" "n \<le> pb_elem_count pub"
    using assms Some unfolding names_ok_def by blast
  ultimately show ?thesis using that(2) by (simp add: SOS_pub_search_lookup)
qed

lemma search_range: "names_ok pub \<Longrightarrow> SOS_pub_search pub name < pb_elem_count pub"
  using search_cases [of pub name] unfolding names_ok_def by fastforce

lemma search_neg:
  "names_ok pub \<Longrightarrow> SOS_pub_search pub name < 0 \<longleftrightarrow> qh_lookup (pb_name_table pub) (cstr name) = None"
  by (rule search_cases [of pub name]) auto

section \<open>Packing\<close>

text \<open>What a value becomes in the snapshot and in the element.\<close>

fun snap_val_of :: "pack_arg \<Rightarrow> SOS_val" where
  "snap_val_of (ArgI i) = Val_i i"
| "snap_val_of (ArgL l) = Val_l l"
| "snap_val_of (ArgD d) = Val_d d"
| "snap_val_of (ArgS s) = Val_c (Some (cstr s @ [0]))"
| "snap_val_of _ = Val_zero"

fun data_val_of :: "pack_arg \<Rightarrow> SOS_val" where
  "data_val_of (ArgI i) = Val_i i"
| "data_val_of (ArgL l) = Val_l l"
| "data_val_of (ArgD d) = Val_d d"
| "data_val_of (ArgS s) = Val_c (Some (take SOS_DEFAULT_STRING_LEN (cstr s) @ [0]))"
| "data_val_of _ = Val_zero"

fun arg_matches :: "SOS_val_type \<Rightarrow> pack_arg \<Rightarrow> bool" where
  "arg_matches SOS_VAL_TYPE_INT (ArgI _) = True"
| "arg_matches SOS_VAL_TYPE_LONG (ArgL _) = True"
| "arg_matches SOS_VAL_TYPE_DOUBLE (ArgD _) = True"
| "arg_matches SOS_VAL_TYPE_STRING (ArgS _) = True"
| "arg_matches _ _ = False"

fun snap_len_of :: "pack_arg \<Rightarrow> i32" where
  "snap_len_of (ArgS s) = word_of_nat (length (cstr s))"
| "snap_len_of _ = 0"

text \<open>The snapshot a call makes of a value for the element at \<open>pos\<close>.\<close>

definition new_snap :: "SOS_pub \<Rightarrow> int \<Rightarrow> SOS_val_type \<Rightarrow> pack_arg \<Rightarrow> SOS_val_snap" where
  "new_snap pub pos type val =
     zero_snap\<lparr>sn_elem := word_of_int pos, sn_guid := dt_guid (pb_data pub ! nat pos), sn_pub_guid := pb_guid pub,
       sn_frame := pb_frame pub, sn_type := val_type_code type, sn_val_len := snap_len_of val, sn_val := snap_val_of val\<rparr>"

lemma snap_take_val_ok:
  assumes "arg_matches type val"
  shows "snap_take_val zero_snap type val = Inr (Some (zero_snap\<lparr>sn_val := snap_val_of val, sn_val_len := snap_len_of val\<rparr>))"
  using assms by (cases "(type, val)" rule: arg_matches.cases) (auto simp: snap_take_val_def zero_snap_def)

lemma data_take_val_ok:
  assumes "arg_matches type val" and "sn_type snap = val_type_code type" and "sn_val snap = snap_val_of val"
    and "dt_type data = val_type_code type" and "val_fits (dt_type data) (dt_val data)"
  shows "\<exists>data'. data_take_val data snap = Inr data' \<and> dt_val data' = data_val_of val \<and>
    dt_type data' = dt_type data \<and> dt_guid data' = dt_guid data \<and> dt_name data' = dt_name data"
  using assms
  by (cases "(type, val)" rule: arg_matches.cases)
    (auto simp: data_take_val_def SOS_val_type_enum.decode_code val_fits_def cstr_append_NUL split: SOS_val.splits)

lemma val_fits_data_val: "arg_matches type val \<Longrightarrow> val_fits (val_type_code type) (data_val_of val)"
  by (cases "(type, val)" rule: arg_matches.cases) (auto simp: val_fits_def SOS_val_type_enum.decode_code)

lemma val_fits_zero: "arg_matches type val \<Longrightarrow> val_fits (val_type_code type) Val_zero"
  by (cases "(type, val)" rule: arg_matches.cases) (auto simp: val_fits_def SOS_val_type_enum.decode_code)

lemma queue_push_ok:
  assumes "queue_ok mincap q" and "length (pipe_content (sq_pipe q)) + 2 \<le> mincap"
  shows "\<exists>p. pipe_push mincap junk (sq_pipe q) [snap] 1 = Inr p \<and>
    queue_ok mincap (q\<lparr>sq_pipe := p, sq_elem_count := sq_elem_count q + 1\<rparr>) \<and>
    pipe_content p = pipe_content (sq_pipe q) @ [snap]"
proof -
  have q: "ring_ok mincap (sq_pipe q)" "pp_elem_size (sq_pipe q) = 1" using assms(1) by (auto simp: queue_ok_def)
  then have "pp_bufend (sq_pipe q) = mincap" by (simp add: ring_ok_def)
  then have fits: "length (pipe_content (sq_pipe q)) + length [snap] \<le> pp_bufend (sq_pipe q) - pp_elem_size (sq_pipe q)"
    using q(2) assms(2) by simp
  obtain p where p: "pipe_push mincap junk (sq_pipe q) [snap] 1 = Inr p" "ring_ok mincap p"
      "pipe_content p = pipe_content (sq_pipe q) @ [snap]" "pipe_conf p = pipe_conf (sq_pipe q)"
    using pipe_q.push_ok [OF q(1), of "[snap]" junk] q(2) fits by (auto simp: pipe_conf_def)
  then have "length (pipe_content p) = Suc (length (pipe_content (sq_pipe q)))" by (simp only: length_append) simp
  with p show ?thesis
    using assms(1) unfolding queue_ok_def by (simp add: pipe_conf_def del: length_pipe_content)
qed

text \<open>A name the publication does not have yet, or one it has at this type.\<close>

definition name_takes :: "SOS_pub \<Rightarrow> cstring \<Rightarrow> SOS_val_type \<Rightarrow> bool" where
  "name_takes pub name type \<longleftrightarrow>
     SOS_pub_search pub name < 0 \<or> dt_type (pb_data pub ! nat (SOS_pub_search pub name)) = val_type_code type"

text \<open>A pool that can serve \<open>k\<close> draws without a request to the daemon.\<close>

definition pool_ready :: "nat \<Rightarrow> SOS_uid \<Rightarrow> bool" where
  "pool_ready k pool \<longleftrightarrow> \<not> uid_lock pool \<and> unat (uid_next pool) + k \<le> unat (uid_last pool)"

lemma pool_ready_mono: "pool_ready k pool \<Longrightarrow> j \<le> k \<Longrightarrow> pool_ready j pool"
  by (simp add: pool_ready_def)

lemma pool_ready_next:
  assumes "pool_ready (Suc k) pool"
  shows "\<exists>pool'. SOS_uid_next send role me off pool = Inr (pool', uid_next pool) \<and> pool_ready k pool'"
  using SOS_uid_next_inside [of pool] assms by (auto simp: pool_ready_def)

lemma expand_ok:
  assumes "elems_ok pub" and "pb_elem_max pub + 1024 \<le> int INT_MAX"
  shows "\<exists>pub' ds. (if pb_elem_max pub \<le> pb_elem_count pub then SOS_expand_data pub else Inr pub) = Inr pub' \<and>
    pub' = pub\<lparr>pb_data := pb_data pub @ ds, pb_elem_max := pb_elem_max pub + int (length ds)\<rparr> \<and>
    elems_ok pub' \<and> pb_elem_count pub < pb_elem_max pub' \<and> pb_elem_max pub' \<le> max (pb_elem_max pub) (pb_elem_count pub + 1024)"
proof (cases "pb_elem_max pub \<le> pb_elem_count pub")
  case True
  then show ?thesis
    using assms
    by (intro exI [of _ "replicate SOS_DEFAULT_ELEM_MAX new_data"] exI)
      (auto simp: SOS_expand_data_def elems_ok_def SOS_DEFAULT_ELEM_MAX_def nth_append)
next
  case False
  then show ?thesis using assms by (intro exI [of _ pub] exI [of _ "[]"]) simp
qed

lemma names_ok_add:
  assumes "names_ok pub" and "SOS_pub_search pub name < 0"
    and "pb_name_table pub' = fst (qh_put (pb_name_table pub) (Some name) (Some (pb_elem_count pub + 1)))"
    and "pb_elem_count pub' = pb_elem_count pub + 1"
  shows "names_ok pub'" and "SOS_pub_search pub' name = pb_elem_count pub"
    and "cstr other \<noteq> cstr name \<Longrightarrow> SOS_pub_search pub' other = SOS_pub_search pub other"
proof -
  let ?n = "pb_elem_count pub + 1"
  have t: "table_ok (pb_name_table pub)" using assms(1) by (simp add: names_ok_def)
  have new: "qh_lookup (pb_name_table pub) (cstr name) = None" using assms(1,2) by (simp add: search_neg)
  have look: "qh_lookup (pb_name_table pub') k = (if k = cstr name then Some (Some ?n) else qh_lookup (pb_name_table pub) k)" for k
    using qh_lookup_qhput [OF t] new by (simp add: assms(3) qh_put_def)
  have small: "\<exists>m. v = Some m \<and> 1 \<le> m \<and> m < ?n" if "qh_lookup (pb_name_table pub) k = Some v" for k v
    using assms(1) that unfolding names_ok_def by fastforce
  have tab: "table_ok (pb_name_table pub')" using qhput_table_ok [OF t] by (simp add: assms(3) qh_put_def)
  have rng: "\<exists>m. v = Some m \<and> 1 \<le> m \<and> m \<le> ?n" if "qh_lookup (pb_name_table pub') k = Some v" for k v
  proof (cases "k = cstr name")
    case True
    then show ?thesis using that assms(1) by (auto simp: look names_ok_def)
  next
    case False
    then show ?thesis using that small [of k v] by (auto simp: look)
  qed
  have inj: "k = k'" if "qh_lookup (pb_name_table pub') k = Some v" "qh_lookup (pb_name_table pub') k' = Some v" for k k' v
  proof -
    have "k = k'" if "qh_lookup (pb_name_table pub) k = Some v" "qh_lookup (pb_name_table pub) k' = Some v"
      using assms(1) that unfolding names_ok_def by blast
    then show ?thesis using that small [of k v] small [of k' v] by (auto simp: look split: if_splits)
  qed
  have "0 \<le> pb_elem_count pub" using assms(1) by (simp add: names_ok_def)
  then show "names_ok pub'" unfolding names_ok_def assms(4) using tab rng inj by auto
  show "SOS_pub_search pub' name = pb_elem_count pub" by (simp add: SOS_pub_search_lookup look)
  show "cstr other \<noteq> cstr name \<Longrightarrow> SOS_pub_search pub' other = SOS_pub_search pub other"
    by (simp add: SOS_pub_search_lookup look)
qed


text \<open>
  \<open>placed pub name type pub' pos\<close>: in \<open>pub'\<close> the name denotes the element at \<open>pos\<close>, of that
  type, and nothing else of \<open>pub\<close> has changed that a client can see.
\<close>

definition placed :: "SOS_pub \<Rightarrow> cstring \<Rightarrow> SOS_val_type \<Rightarrow> SOS_pub \<Rightarrow> int \<Rightarrow> bool" where
  "placed pub name type pub' pos \<longleftrightarrow>
     names_ok pub' \<and> elems_ok pub' \<and> SOS_pub_search pub' name = pos \<and> 0 \<le> pos \<and> pos < pb_elem_count pub' \<and>
     dt_type (pb_data pub' ! nat pos) = val_type_code type \<and>
     (0 \<le> SOS_pub_search pub name \<longrightarrow> SOS_pub_search pub name = pos) \<and>
     (\<forall>other. cstr other \<noteq> cstr name \<longrightarrow> SOS_pub_search pub' other = SOS_pub_search pub other) \<and>
     (\<forall>i < nat (pb_elem_count pub). i \<noteq> nat pos \<longrightarrow> pb_data pub' ! i = pb_data pub ! i) \<and>
     pb_elem_count pub \<le> pb_elem_count pub' \<and> pb_elem_count pub' \<le> pb_elem_count pub + 1 \<and>
     pb_elem_max pub' \<le> max (pb_elem_max pub) (pb_elem_count pub + 1024) \<and>
     pb_lock pub' = pb_lock pub \<and> pb_snap_queue pub' = pb_snap_queue pub \<and> pb_guid pub' = pb_guid pub \<and> pb_frame pub' = pb_frame pub"

lemma placed_known:
  assumes "names_ok pub" and "elems_ok pub" and "name_takes pub name type" and "\<not> SOS_pub_search pub name < 0"
  shows "placed pub name type pub (SOS_pub_search pub name)"
  using assms search_range [OF assms(1)] by (auto simp: placed_def name_takes_def)

lemma pub_add_name_ok:
  assumes "names_ok pub" and "elems_ok pub" and "pb_elem_max pub + 1024 \<le> int INT_MAX" and "pool_ready (Suc k) pool"
    and "arg_matches type val" and new: "SOS_pub_search pub name < 0"
  shows "\<exists>pool' pub'. pub_add_name cx pool pub name type = Inr (pool', pub', pb_elem_count pub) \<and> pool_ready k pool' \<and>
    placed pub name type pub' (pb_elem_count pub)"
proof -
  let ?c = "pb_elem_count pub"
  obtain pub1 ds where p1: "(if pb_elem_max pub \<le> pb_elem_count pub then SOS_expand_data pub else Inr pub) = Inr pub1"
      "pub1 = pub\<lparr>pb_data := pb_data pub @ ds, pb_elem_max := pb_elem_max pub + int (length ds)\<rparr>"
      "elems_ok pub1" "?c < pb_elem_max pub1" "pb_elem_max pub1 \<le> max (pb_elem_max pub) (?c + 1024)"
    using expand_ok [OF assms(2,3)] by metis
  have c0: "0 \<le> ?c" using assms(1) by (simp add: names_ok_def)
  obtain g pool' where g: "SOS_uid_next (cx_send cx) (cx_role cx) (cx_my_guid cx) (cx_offline_test_mode cx) pool = Inr (pool', g)"
      and pr: "pool_ready k pool'"
    using pool_ready_next [OF assms(4)] by blast
  define d where "d = (pb_data pub1 ! nat ?c)\<lparr>dt_type := val_type_code type, dt_guid := g, dt_val := Val_zero, dt_val_len := 0,
      dt_name := strncpy_array SOS_DEFAULT_STRING_LEN (cstr name)\<rparr>"
  define pub3 where "pub3 = pub1\<lparr>pb_announced := 0, pb_elem_count := ?c + 1,
      pb_name_table := fst (qh_put (pb_name_table pub) (Some name) (Some (?c + 1))), pb_data := (pb_data pub1)[nat ?c := d]\<rparr>"
  have len: "int (length (pb_data pub1)) = pb_elem_max pub1" using p1(3) by (simp add: elems_ok_def)
  then have ci: "nat ?c < length (pb_data pub1)" using c0 p1(4) by linarith
  have "pub_add_name cx pool pub name type = Inr (pool', pub3, ?c)"
    using p1(1) g ci c0 by (simp add: pub_add_name_def Let_def p1(2) pub3_def d_def pub_data_at_def pub_set_data_def)
  moreover have "placed pub name type pub3 ?c"
  proof -
    have tbl: "pb_name_table pub3 = fst (qh_put (pb_name_table pub) (Some name) (Some (?c + 1)))" "pb_elem_count pub3 = ?c + 1"
      by (simp_all add: pub3_def)
    have "pb_elem_count pub1 = ?c" by (simp add: p1(2))
    then have old: "val_fits (dt_type (pb_data pub1 ! i)) (dt_val (pb_data pub1 ! i))" if "i < nat (?c + 1)" "i \<noteq> nat ?c" for i
      using that p1(3) c0 unfolding elems_ok_def by (metis Suc_as_int less_antisym Suc_nat_eq_nat_zadd1 add.commute)
    then have el3: "elems_ok pub3"
      using p1(3,4) val_fits_zero [OF assms(5)] c0
      by (auto simp: elems_ok_def d_def nth_list_update pub3_def)
    have keep: "pb_data pub3 ! i = pb_data pub ! i" if "i < nat ?c" for i
    proof -
      have "i < length (pb_data pub)" using that assms(2) unfolding elems_ok_def by linarith
      then show ?thesis using that by (simp add: pub3_def p1(2) nth_append)
    qed
    show ?thesis
      using new names_ok_add [OF assms(1) new tbl] el3 keep c0 ci p1(5)
      by (simp add: placed_def tbl(2)) (simp add: pub3_def d_def p1(2))
  qed
  ultimately show ?thesis using pr by blast
qed

lemma SOS_pack_snap_situate_ok:
  assumes "names_ok pub" and "elems_ok pub" and "pb_elem_max pub + 1024 \<le> int INT_MAX" and "pool_ready (Suc k) pool"
    and "arg_matches type val" and "name_takes pub name type"
  shows "\<exists>pool' pub' pos. placed pub name type pub' pos \<and> pool_ready k pool' \<and>
    SOS_pack_snap_situate_in_pub cx pool pub zero_snap name type val = Inr (pool', pub', new_snap pub' pos type val, pos)"
proof -
  have "pool_ready k pool" using assms(4) by (rule pool_ready_mono) simp
  then obtain pool' pub' pos where a: "placed pub name type pub' pos" "pool_ready k pool'"
      "(if SOS_pub_search pub name < 0 then pub_add_name cx pool pub name type
        else Inr (pool, pub, SOS_pub_search pub name)) = Inr (pool', pub', pos)"
    using pub_add_name_ok [OF assms(1-5)] placed_known [OF assms(1,2,6)] by (metis (no_types))
  have "nat pos < length (pb_data pub')" using a(1) by (auto simp: placed_def elems_ok_def)
  then have "pub_data_at pub' pos = Inr (pb_data pub' ! nat pos)" using a(1) by (auto simp: placed_def pub_data_at_def)
  then show ?thesis
    using a snap_take_val_ok [OF assms(5)]
    by (intro exI [of _ pool'] exI [of _ pub'] exI [of _ pos])
      (simp add: SOS_pack_snap_situate_in_pub_def new_snap_def placed_def)
qed


lemma SOS_pack_snap_renew_ok:
  assumes "placed pub0 name type pub pos" and "arg_matches type val"
    and "sn_elem snap = word_of_int pos" and "sn_type snap = val_type_code type" and "sn_val snap = snap_val_of val"
  shows "\<exists>data'. SOS_pack_snap_renew_pub_data now pub snap =
      Inr (pub_set_data pub pos data', snap\<lparr>sn_time := (sn_time snap)\<lparr>tm_pack := now\<rparr>\<rparr>) \<and>
    dt_val data' = data_val_of val \<and> dt_state data' = val_state_code SOS_VAL_STATE_DIRTY \<and>
    dt_type data' = val_type_code type \<and> dt_guid data' = dt_guid (pb_data pub ! nat pos)"
proof -
  let ?data = "pb_data pub ! nat pos"
  have b: "0 \<le> pos" "pos < pb_elem_count pub" "elems_ok pub" "dt_type ?data = val_type_code type"
    using assms(1) by (auto simp: placed_def)
  then have "nat pos < nat (pb_elem_count pub)" by simp
  then have fits: "val_fits (dt_type ?data) (dt_val ?data)" using b(3) by (simp add: elems_ok_def)
  have "pos < int INT_MAX" using b by (auto simp: elems_ok_def)
  then have el: "sint (sn_elem snap) = pos"
    using b(1) sint_word_of_nat_small [of "nat pos"] by (simp add: INT_MAX_def assms(3))
  have "pub_data_at pub pos = Inr ?data" using b by (auto simp: pub_data_at_def elems_ok_def)
  moreover obtain data' where "data_take_val ?data snap = Inr data'" "dt_val data' = data_val_of val"
      "dt_type data' = dt_type ?data" "dt_guid data' = dt_guid ?data"
    using data_take_val_ok [OF assms(2,4,5) b(4) fits] by blast
  ultimately show ?thesis by (auto simp: SOS_pack_snap_renew_pub_data_def el b(4))
qed

text \<open>The effect of a successful call on the handle of a client.\<close>

definition packed_into :: "nat \<Rightarrow> c_double \<Rightarrow> (SOS_val_snap \<Rightarrow> SOS_val_snap) \<Rightarrow> SOS_pub \<Rightarrow> cstring \<Rightarrow> SOS_val_type \<Rightarrow> pack_arg \<Rightarrow> SOS_pub \<Rightarrow> int \<Rightarrow> bool" where
  "packed_into mincap now relate pub name type val pub' pos \<longleftrightarrow>
     pub_ok mincap pub' \<and> SOS_pub_search pub' name = pos \<and> 0 \<le> pos \<and> pos < pb_elem_count pub' \<and>
     dt_type (pb_data pub' ! nat pos) = val_type_code type \<and> dt_val (pb_data pub' ! nat pos) = data_val_of val \<and>
     dt_state (pb_data pub' ! nat pos) = val_state_code SOS_VAL_STATE_DIRTY \<and>
     (0 \<le> SOS_pub_search pub name \<longrightarrow> SOS_pub_search pub name = pos) \<and>
     (\<forall>other. cstr other \<noteq> cstr name \<longrightarrow> SOS_pub_search pub' other = SOS_pub_search pub other) \<and>
     (\<forall>i < nat (pb_elem_count pub). i \<noteq> nat pos \<longrightarrow> pb_data pub' ! i = pb_data pub ! i) \<and>
     pb_elem_count pub \<le> pb_elem_count pub' \<and> pb_elem_count pub' \<le> pb_elem_count pub + 1 \<and>
     pb_elem_max pub' \<le> max (pb_elem_max pub) (pb_elem_count pub + 1024) \<and>
     pb_guid pub' = pb_guid pub \<and> pb_frame pub' = pb_frame pub \<and>
     queued pub' = queued pub @ [(relate (new_snap pub' pos type val))\<lparr>sn_time := zero_time\<lparr>tm_pack := now\<rparr>\<rparr>]"

lemma elems_ok_set:
  assumes "elems_ok pub" and "val_fits (dt_type d) (dt_val d)"
  shows "elems_ok (pub_set_data pub i d)"
proof -
  have "val_fits (dt_type ((pb_data pub)[nat i := d] ! k)) (dt_val ((pb_data pub)[nat i := d] ! k))"
    if k: "k < nat (pb_elem_count pub)" for k
  proof (cases "k = nat i")
    case True
    have "k < length (pb_data pub)" using k assms(1) unfolding elems_ok_def by linarith
    then show ?thesis using True assms(2) by simp
  next
    case False
    then show ?thesis using k assms(1) by (simp add: elems_ok_def)
  qed
  then show ?thesis using assms(1) by (simp add: elems_ok_def pub_set_data_def)
qed

lemma pack_value_ok:
  assumes "pub_ok (cx_mincap cx) pub" and "cx_role cx = SOS_ROLE_CLIENT" and "pool_ready (Suc k) pool"
    and "pb_elem_max pub + 1024 \<le> int INT_MAX" and "length (queued pub) + 2 \<le> cx_mincap cx"
    and "arg_matches type val" and "name_takes pub name type"
    and rel: "\<And>snap. relate snap = snap\<lparr>sn_relation_id := r (sn_relation_id snap)\<rparr>"
  shows "\<exists>pool' pub' pos. pack_value cx now pool pub relate name type val = Inr (pool', pub', pos) \<and> pool_ready k pool' \<and>
    packed_into (cx_mincap cx) now relate pub name type val pub' pos"
proof -
  let ?pub0 = "pub\<lparr>pb_lock := True\<rparr>"
  obtain q where q: "pb_snap_queue pub = Some q" "queue_ok (cx_mincap cx) q" "names_ok pub" "elems_ok pub" "\<not> pb_lock pub"
    using assms(1) by (auto simp: pub_ok_def split: option.splits)
  have "names_ok ?pub0" "elems_ok ?pub0" "name_takes ?pub0 name type"
    using q assms(7) by (simp_all add: names_ok_def elems_ok_def name_takes_def SOS_pub_search_def)
  then obtain pool' pub1 pos where pr: "pool_ready k pool'" and s: "placed ?pub0 name type pub1 pos"
      "SOS_pack_snap_situate_in_pub cx pool ?pub0 zero_snap name type val = Inr (pool', pub1, new_snap pub1 pos type val, pos)"
    using SOS_pack_snap_situate_ok [of ?pub0 k pool type val name cx] assms(3,4,6) by auto
  let ?snap = "relate (new_snap pub1 pos type val)"
  let ?snap' = "?snap\<lparr>sn_time := zero_time\<lparr>tm_pack := now\<rparr>\<rparr>"
  obtain d where d: "SOS_pack_snap_renew_pub_data now pub1 ?snap = Inr (pub_set_data pub1 pos d, ?snap')"
      "dt_val d = data_val_of val" "dt_state d = val_state_code SOS_VAL_STATE_DIRTY"
      "dt_type d = val_type_code type" "dt_guid d = dt_guid (pb_data pub1 ! nat pos)"
    using SOS_pack_snap_renew_ok [OF s(1) assms(6), of ?snap now] by (auto simp: rel new_snap_def zero_snap_def)
  obtain p where p: "pipe_push (cx_mincap cx) zero_snap (sq_pipe q) [?snap'] 1 = Inr p"
      "queue_ok (cx_mincap cx) (q\<lparr>sq_pipe := p, sq_elem_count := sq_elem_count q + 1\<rparr>)"
      "pipe_content p = pipe_content (sq_pipe q) @ [?snap']"
    using queue_push_ok [OF q(2)] assms(5) q(1) by (auto simp: queued_def)
  let ?pub' = "(pub_set_data pub1 pos d)\<lparr>pb_snap_queue := Some (q\<lparr>sq_pipe := p, sq_elem_count := sq_elem_count q + 1\<rparr>), pb_lock := False\<rparr>"
  have run: "pack_value cx now pool pub relate name type val = Inr (pool', ?pub', sint (sn_elem ?snap'))"
    using q s(2) d(1) p(1) s(1) assms(2)
    by (simp add: pack_value_def SOS_pack_snap_add_to_pub_cache_def SOS_pack_snap_into_val_queue_def placed_def
        pub_set_data_def queue_ok_def)
  have pos: "0 \<le> pos" "pos < pb_elem_count pub1" "elems_ok pub1" "names_ok pub1" using s(1) by (auto simp: placed_def)
  then have il: "nat pos < length (pb_data pub1)" by (auto simp: elems_ok_def)
  have "pos < int INT_MAX" using pos by (auto simp: elems_ok_def)
  then have el: "sint (sn_elem ?snap') = pos"
    using pos(1) sint_word_of_nat_small [of "nat pos"] by (simp add: INT_MAX_def rel new_snap_def)
  have "elems_ok (pub_set_data pub1 pos d)"
    using elems_ok_set [OF pos(3)] val_fits_data_val [OF assms(6)] d(2,4) by simp
  then have ok: "pub_ok (cx_mincap cx) ?pub'"
    using pos(4) p(2) by (simp add: pub_ok_def elems_ok_def names_ok_def pub_set_data_def)
  have snap: "new_snap ?pub' pos type val = new_snap pub1 pos type val"
    using il d(5) by (simp add: new_snap_def pub_set_data_def)
  have "packed_into (cx_mincap cx) now relate pub name type val ?pub' pos"
    using ok snap s(1) il d(2-4) p(3) q(1)
    by (auto simp: packed_into_def placed_def queued_def SOS_pub_search_def pub_set_data_def)
  then show ?thesis using run el pr by auto
qed


lemma SOS_pub_init_ok:
  assumes "pool_ready (Suc k) pool" and "cx_role cx = SOS_ROLE_CLIENT" and "2 \<le> cx_mincap cx" and "cx_mincap cx < 2 ^ 63"
  shows "\<exists>pool' pub. SOS_pub_init cx pool title nature = Inr (pool', pub) \<and> pool_ready k pool' \<and> pub_ok (cx_mincap cx) pub \<and> queued pub = [] \<and>
    pb_guid pub = uid_next pool \<and> pb_elem_count pub = 0 \<and> pb_elem_max pub = 1024 \<and> (\<forall>name. SOS_pub_search pub name = - 1)"
proof -
  obtain p where p: "SOS_pipe_init (cx_mincap cx) zero_snap 1 = Inr (Some p)" "ring_ok (cx_mincap cx) p" "pipe_content p = []"
      "pp_elem_size p = 1"
    using SOS_pipe_init_ok [of "cx_mincap cx" 1 zero_snap] assms(3,4) by auto
  obtain tbl :: "int qhashtbl" where t: "qhashtbl_new (int SOS_DEFAULT_TABLE_SIZE) = Some tbl"
    by (simp add: qhashtbl_new_def SOS_DEFAULT_TABLE_SIZE_def)
  note tbl = qhashtbl_new_ok [OF t]
  note g = pool_ready_next [OF assms(1), of "cx_send cx" "cx_role cx" "cx_my_guid cx" "cx_offline_test_mode cx"]
  show ?thesis
    using g p t tbl assms(2)
    by (auto simp: SOS_pub_init_def SOS_pub_init_sized_def pub_ok_def names_ok_def elems_ok_def queue_ok_def queued_def
        SOS_pub_search_lookup SOS_DEFAULT_ELEM_MAX_def INT_MAX_def length_pipe_content [symmetric] simp del: length_pipe_content)
qed

section \<open>Sequences of packs\<close>

fun pack_all :: "SOS_ctx \<Rightarrow> c_double \<Rightarrow> SOS_uid \<Rightarrow> SOS_pub \<Rightarrow> (cstring \<times> SOS_val_type \<times> pack_arg) list \<Rightarrow> (SOS_uid \<times> SOS_pub) res" where
  "pack_all cx now pool pub [] = Inr (pool, pub)"
| "pack_all cx now pool pub ((name, type, val) # packs) =
     bindR (SOS_pack cx now pool pub name type val) (\<lambda>(pool, pub, _). pack_all cx now pool pub packs)"

text \<open>The value packed last under a name, and the type every name is used at.\<close>

definition last_val :: "(cstring \<times> SOS_val_type \<times> pack_arg) list \<Rightarrow> cstring \<Rightarrow> pack_arg option" where
  "last_val packs name = map_of (rev (map (\<lambda>(n, t, v). (cstr n, v)) packs)) (cstr name)"

definition typed_by :: "(cstring \<Rightarrow> SOS_val_type) \<Rightarrow> (cstring \<times> SOS_val_type \<times> pack_arg) list \<Rightarrow> bool" where
  "typed_by ty packs \<longleftrightarrow> (\<forall>(n, t, v) \<in> set packs. t = ty (cstr n) \<and> arg_matches t v)"

text \<open>The handle after the packs \<open>packs\<close>.\<close>

definition holds_packs :: "(cstring \<Rightarrow> SOS_val_type) \<Rightarrow> (cstring \<times> SOS_val_type \<times> pack_arg) list \<Rightarrow> SOS_pub \<Rightarrow> bool" where
  "holds_packs ty packs pub \<longleftrightarrow>
     map (\<lambda>s. (sint (sn_elem s), sn_val s)) (queued pub) = map (\<lambda>(n, t, v). (SOS_pub_search pub n, snap_val_of v)) packs \<and>
     pb_elem_count pub \<le> int (length packs) \<and> pb_elem_max pub \<le> int (length packs) + 1024 \<and>
     (\<forall>name. SOS_pub_search pub name < 0 \<longleftrightarrow> last_val packs name = None) \<and>
     (\<forall>name v. last_val packs name = Some v \<longrightarrow>
        dt_type (pb_data pub ! nat (SOS_pub_search pub name)) = val_type_code (ty (cstr name)) \<and>
        dt_val (pb_data pub ! nat (SOS_pub_search pub name)) = data_val_of v)"

lemma last_val_snoc:
  "last_val (packs @ [(n, t, v)]) name = (if cstr name = cstr n then Some v else last_val packs name)"
  by (simp add: last_val_def)

lemma last_val_mem: "(n, t, v) \<in> set packs \<Longrightarrow> last_val packs n \<noteq> None"
  unfolding last_val_def map_of_eq_None_iff by (auto intro!: image_eqI [where x = "(n, t, v)"] simp: image_image)

lemma search_cong: "cstr n = cstr m \<Longrightarrow> SOS_pub_search pub n = SOS_pub_search pub m"
  by (simp add: SOS_pub_search_lookup)

lemma search_inj:
  assumes "names_ok pub" and "0 \<le> SOS_pub_search pub n" and "SOS_pub_search pub n = SOS_pub_search pub m"
  shows "cstr n = cstr m"
proof (cases rule: search_cases [OF assms(1), of n])
  case (2 i)
  then show ?thesis
    using assms by (cases rule: search_cases [OF assms(1), of m]) (auto simp: names_ok_def)
qed (use assms(2) in simp)

lemma packed_into_names:
  assumes "packed_into mincap now relate pub n t v pub' pos"
  shows "SOS_pub_search pub' m = (if cstr m = cstr n then pos else SOS_pub_search pub m)"
    and "0 \<le> SOS_pub_search pub m \<Longrightarrow> SOS_pub_search pub' m = SOS_pub_search pub m"
proof -
  have p: "SOS_pub_search pub' n = pos" "0 \<le> SOS_pub_search pub n \<longrightarrow> SOS_pub_search pub n = pos"
      "cstr m \<noteq> cstr n \<Longrightarrow> SOS_pub_search pub' m = SOS_pub_search pub m"
    using assms by (auto simp: packed_into_def)
  show *: "SOS_pub_search pub' m = (if cstr m = cstr n then pos else SOS_pub_search pub m)"
    using p search_cong [of m n pub'] by simp
  show "SOS_pub_search pub' m = SOS_pub_search pub m" if "0 \<le> SOS_pub_search pub m"
    using that p(2) * search_cong [of m n pub] by auto
qed

lemma packed_into_other:
  assumes "packed_into mincap now relate pub n t v pub' pos" and "names_ok pub" and "0 \<le> SOS_pub_search pub m" and "cstr m \<noteq> cstr n"
  shows "pb_data pub' ! nat (SOS_pub_search pub m) = pb_data pub ! nat (SOS_pub_search pub m)"
proof -
  have s: "SOS_pub_search pub' m = SOS_pub_search pub m" "SOS_pub_search pub' n = pos" "names_ok pub'" "0 \<le> pos"
    using assms(1,4) by (auto simp: packed_into_def pub_ok_def)
  then have "SOS_pub_search pub m \<noteq> pos" using search_inj [of pub' m n] assms(3,4) by auto
  then have "nat (SOS_pub_search pub m) \<noteq> nat pos" using assms(3) s(4) by simp
  moreover have "nat (SOS_pub_search pub m) < nat (pb_elem_count pub)" using search_range [OF assms(2), of m] assms(3) by simp
  ultimately show ?thesis using assms(1) by (simp add: packed_into_def)
qed

lemma holds_packs_snoc:
  assumes "holds_packs ty packs pub" and "names_ok pub" and "packed_into mincap now (\<lambda>s. s) pub n (ty (cstr n)) v pub' pos"
  shows "holds_packs ty (packs @ [(n, ty (cstr n), v)]) pub'"
proof -
  note h = assms(1) [unfolded holds_packs_def] and p = assms(3) [unfolded packed_into_def]
  note names = packed_into_names [OF assms(3)]
  have pos: "0 \<le> pos" "pos < int INT_MAX" using p by (auto simp: pub_ok_def elems_ok_def)
  then have el: "sint (word_of_int pos :: i32) = pos" using sint_word_of_nat_small [of "nat pos"] by (simp add: INT_MAX_def)
  have known: "0 \<le> SOS_pub_search pub m" if "last_val packs m \<noteq> None" for m using h that by (meson not_le)
  have "map (\<lambda>(n, t, v). (SOS_pub_search pub n, snap_val_of v)) packs = map (\<lambda>(n, t, v). (SOS_pub_search pub' n, snap_val_of v)) packs"
    using names(2) known last_val_mem by (fastforce intro!: map_cong)
  then have queue: "map (\<lambda>s. (sint (sn_elem s), sn_val s)) (queued pub') =
      map (\<lambda>(n, t, v). (SOS_pub_search pub' n, snap_val_of v)) (packs @ [(n, ty (cstr n), v)])"
    using h p el by (simp add: new_snap_def)
  have vals: "dt_type (pb_data pub' ! nat (SOS_pub_search pub' m)) = val_type_code (ty (cstr m)) \<and>
      dt_val (pb_data pub' ! nat (SOS_pub_search pub' m)) = data_val_of w"
    if "last_val (packs @ [(n, ty (cstr n), v)]) m = Some w" for m w
  proof (cases "cstr m = cstr n")
    case True
    then show ?thesis using that p names(1) [of m] by (simp add: last_val_snoc)
  next
    case False
    then have "last_val packs m = Some w" using that by (simp add: last_val_snoc)
    then show ?thesis
      using h names(2) [OF known] packed_into_other [OF assms(3,2) known False] by simp
  qed
  have sign: "SOS_pub_search pub' m < 0 \<longleftrightarrow> last_val (packs @ [(n, ty (cstr n), v)]) m = None" for m
    using h pos(1) by (simp add: names(1) last_val_snoc)
  show ?thesis
    unfolding holds_packs_def using queue vals sign h p by auto
qed

lemma holds_packs_takes:
  assumes "holds_packs ty packs pub"
  shows "name_takes pub n (ty (cstr n))"
  using assms unfolding holds_packs_def name_takes_def by (metis not_Some_eq)

lemma holds_packs_length: "holds_packs ty packs pub \<Longrightarrow> length (queued pub) = length packs"
  unfolding holds_packs_def by (drule conjunct1) (drule arg_cong [where f = length], simp)

lemma pack_all_ok:
  assumes "pub_ok (cx_mincap cx) pub" and "cx_role cx = SOS_ROLE_CLIENT" and "holds_packs ty done pub"
    and "pool_ready (length packs) pool" and "typed_by ty packs"
    and "length done + length packs + 1 \<le> cx_mincap cx" and "length done + length packs + 2048 \<le> INT_MAX"
  shows "\<exists>pool' pub'. pack_all cx now pool pub packs = Inr (pool', pub') \<and> pub_ok (cx_mincap cx) pub' \<and> holds_packs ty (done @ packs) pub'"
  using assms
proof (induction packs arbitrary: pool pub "done")
  case (Cons pk packs)
  obtain n t v where pk: "pk = (n, t, v)" by (cases pk)
  have t: "t = ty (cstr n)" "arg_matches t v" "typed_by ty packs" using Cons.prems(5) by (auto simp: typed_by_def pk)
  have "length (queued pub) = length done"
    by (rule holds_packs_length [OF Cons.prems(3)])
  then have q: "length (queued pub) + 2 \<le> cx_mincap cx" using Cons.prems(6) by simp
  have m: "pb_elem_max pub + 1024 \<le> int INT_MAX" using Cons.prems(3,7) by (simp add: holds_packs_def)
  obtain pool' pub' pos where 1: "SOS_pack cx now pool pub n t v = Inr (pool', pub', pos)" "pool_ready (length packs) pool'"
      "packed_into (cx_mincap cx) now (\<lambda>s. s) pub n t v pub' pos"
    using pack_value_ok [OF Cons.prems(1,2) _ m q t(2), of "length packs" pool n "\<lambda>s. s" "\<lambda>r. r" now]
      holds_packs_takes [OF Cons.prems(3), of n] Cons.prems(4) t(1)
    by (auto simp: SOS_pack_def)
  have "names_ok pub" using Cons.prems(1) by (simp add: pub_ok_def)
  then have "holds_packs ty (done @ [(n, t, v)]) pub'" using holds_packs_snoc [OF Cons.prems(3)] 1(3) t(1) by simp
  moreover have "pub_ok (cx_mincap cx) pub'" using 1(3) by (simp add: packed_into_def)
  ultimately show ?case
    using Cons.IH [of pub' "done @ [(n, t, v)]" pool'] Cons.prems(2,6,7) 1(1,2) t(3) by (simp add: pk)
qed simp

section \<open>The cache ring\<close>

definition cache_ok :: "SOS_pub \<Rightarrow> bool" where
  "cache_ok pub \<longleftrightarrow> 1 \<le> sint (pb_cache_depth pub) \<and> 0 \<le> pb_cache_head pub \<and> pb_cache_head pub < sint (pb_cache_depth pub) \<and>
     pm_nature (pb_meta pub) \<noteq> enum_code SOS_nature_vals SOS_NATURE_SOS \<and>
     (\<exists>cache. pb_cache pub = Some cache \<and> int (length cache) = sint (pb_cache_depth pub) \<and> (\<forall>c \<in> set cache. \<exists>l. c = Chain l))"

text \<open>The frames of the ring, the newest first.\<close>

definition cache_frames :: "SOS_pub \<Rightarrow> snap_chain list" where
  "cache_frames pub = (case pb_cache pub of None \<Rightarrow> [] | Some cache \<Rightarrow> rotate (nat (pb_cache_head pub)) cache)"

lemma rotate_split: "h \<le> length xs \<Longrightarrow> rotate h xs = drop h xs @ take h xs"
  by (cases "h = length xs") (simp_all add: rotate_drop_take)

lemma rotate_prev:
  assumes "h < length xs" and "q = (if h = 0 then length xs - 1 else h - 1)"
  shows "rotate q (xs[q := x]) = x # butlast (rotate h xs)"
proof (cases "h = 0")
  case True
  then have q: "q = length xs - 1" "xs \<noteq> []" using assms by auto
  then have "rotate q (xs[q := x]) = [x] @ take q xs"
    by (subst rotate_split) (auto simp: drop_update_cancel Cons_nth_drop_Suc [symmetric])
  then show ?thesis using True q by (simp add: butlast_conv_take)
next
  case False
  then obtain k where h: "h = Suc k" by (cases h) auto
  then have q: "q = k" "k < length xs" using assms by auto
  have "rotate q (xs[q := x]) = (x # drop h xs) @ take k xs"
    using q by (subst rotate_split) (simp_all add: h Cons_nth_drop_Suc [symmetric])
  moreover have "rotate h xs = drop h xs @ take k xs @ [xs ! k]"
    using q assms(1) by (subst rotate_split) (simp_all add: h take_Suc_conv_app_nth)
  ultimately show ?thesis by (simp add: butlast_append)
qed

lemma cache_insert_ok:
  assumes "cache_ok pub" and "snaps \<noteq> []"
  shows "\<exists>pub'. SOS_pack_snap_list_into_pub_cache pub snaps = Inr pub' \<and> cache_ok pub' \<and>
    cache_frames pub' = Chain snaps # butlast (cache_frames pub) \<and>
    sint (pb_frame pub') = max (sint (pb_frame pub)) (sint (sn_frame (hd snaps)))"
proof -
  obtain cache where c: "pb_cache pub = Some cache" "int (length cache) = sint (pb_cache_depth pub)" "\<forall>c \<in> set cache. \<exists>l. c = Chain l"
    using assms(1) by (auto simp: cache_ok_def)
  obtain s0 rest where s: "snaps = s0 # rest" using assms(2) by (cases snaps) auto
  define h where "h = nat (pb_cache_head pub)"
  define q where "q = (if h = 0 then length cache - 1 else h - 1)"
  have h: "h < length cache" "pb_cache_head pub = int h" using assms(1) c(2) by (auto simp: cache_ok_def h_def)
  then have ql: "q < length cache" by (auto simp: q_def)
  have pos: "cache_insert_pos pub = int q" using h c(2) by (auto simp: cache_insert_pos_def q_def)
  obtain l where l: "cache ! q = Chain l" using c(3) ql nth_mem by blast
  have "cache_ok (pub\<lparr>pb_cache := Some (cache[q := Chain snaps]), pb_frame := f, pb_cache_head := int q\<rparr>)" for f
    using assms(1) c ql by (auto simp: cache_ok_def set_update_subset_insert [THEN subsetD, THEN insertE] dest!: set_update_subset_insert [THEN subsetD])
  moreover have "rotate q (cache[q := Chain snaps]) = Chain snaps # butlast (rotate h cache)"
    by (rule rotate_prev [OF h(1) q_def])
  ultimately show ?thesis
    using assms(1) c(1) l ql pos
    by (simp add: SOS_pack_snap_list_into_pub_cache_def s Let_def cache_ok_def cache_frames_def h_def max_def)
qed

lemma cache_frames_length: "cache_ok pub \<Longrightarrow> length (cache_frames pub) = nat (sint (pb_cache_depth pub))"
  by (auto simp: cache_ok_def cache_frames_def)

lemma cache_insert_depth:
  "SOS_pack_snap_list_into_pub_cache pub snaps = Inr pub' \<Longrightarrow> pb_cache_depth pub' = pb_cache_depth pub"
  by (auto simp: SOS_pack_snap_list_into_pub_cache_def Let_def res_simps split: if_splits list.splits option.splits snap_chain.splits)

lemma cache_inserts_ok:
  assumes "cache_ok pub" and "[] \<notin> set frames"
  shows "\<exists>pub'. foldR (\<lambda>snaps p. SOS_pack_snap_list_into_pub_cache p snaps) frames pub = Inr pub' \<and> cache_ok pub' \<and>
    cache_frames pub' = take (length (cache_frames pub)) (rev (map Chain frames) @ cache_frames pub)"
  using assms
proof (induction frames arbitrary: pub)
  case (Cons l frames)
  obtain pub1 where 1: "SOS_pack_snap_list_into_pub_cache pub l = Inr pub1" "cache_ok pub1"
      "cache_frames pub1 = Chain l # butlast (cache_frames pub)"
    using cache_insert_ok [OF Cons.prems(1), of l] Cons.prems(2) by auto
  have n: "length (cache_frames pub1) = length (cache_frames pub)"
    using cache_insert_depth [OF 1(1)] cache_frames_length Cons.prems(1) 1(2) by simp
  let ?n = "length (cache_frames pub)"
  have "0 < ?n" using n 1(3) by (cases "?n") auto
  then have "take ?n (rev (map Chain frames) @ cache_frames pub1) = take ?n (rev (map Chain (l # frames)) @ cache_frames pub)"
    by (auto simp: 1(3) butlast_conv_take take_Cons' min_def)
  then show ?case using Cons.IH [OF 1(2)] Cons.prems(2) 1(1) n by auto
qed simp

lemma holds_packs_val:
  "holds_packs ty packs pub \<Longrightarrow> last_val packs name = Some v \<Longrightarrow> dt_val (pb_data pub ! nat (SOS_pub_search pub name)) = data_val_of v"
  by (simp add: holds_packs_def)

text \<open>A client and a daemon's publication for the examples below.\<close>

definition example_ctx :: SOS_ctx where
  "example_ctx = \<lparr>cx_role = SOS_ROLE_CLIENT, cx_my_guid = 7, cx_offline_test_mode = False, cx_comm_rank = 0, cx_layer = 0,
     cx_node_id = str ''node'', cx_program_name = str ''demo'', cx_process_id = 42, cx_pub_cache_depth = 0,
     cx_send = (\<lambda>_ r. Inr r), cx_mincap = 5\<rparr>"

definition example_pub :: SOS_pub where
  "example_pub =
     \<lparr>pb_lock = False, pb_sync_pending = 0, pb_guid = 3, pb_guid_str = [51, 0], pb_process_id = 0, pb_thread_id = 0, pb_comm_rank = 0,
      pb_meta = \<lparr>pm_channel = 0, pm_nature = enum_code SOS_nature_vals SOS_NATURE_DEFAULT, pm_layer = 0, pm_pri_hint = 0,
                 pm_scope_hint = 0, pm_retain_hint = 0\<rparr>,
      pb_announced = 0, pb_frame = 0, pb_elem_max = 0, pb_elem_count = 0, pb_pragma_len = 0, pb_pragma_msg = [], pb_node_id = [],
      pb_prog_name = [], pb_prog_ver = [], pb_title = [], pb_cache = Some [Chain [], Chain []], pb_cache_head = 0, pb_cache_depth = 2,
      pb_data = [], pb_name_table = \<lparr>qt_num = 0, qt_range = 1, qt_slots = [[]]\<rparr>, pb_snap_queue = None\<rparr>"

section \<open>Properties\<close>

text \<open>
  C8: A client that creates a publication and packs any sequence of values, each name always at
  the same type, ends with a well-formed handle in which the queue holds one snapshot per call in
  the order of the calls, with the value and the element of its name; every name packed denotes
  one element, which holds the value packed last under it, and no other name is found.
\<close>

theorem client_packs_in_order:
  assumes "cx_role cx = SOS_ROLE_CLIENT" and "2 \<le> cx_mincap cx" and "cx_mincap cx < 2 ^ 63"
    and "typed_by ty packs" and "pool_ready (length packs + 1) pool"
    and "length packs + 1 \<le> cx_mincap cx" and "length packs + 2048 \<le> INT_MAX"
  shows "\<exists>pool1 pub pool' pub'. SOS_pub_init cx pool title nature = Inr (pool1, pub) \<and>
    pack_all cx now pool1 pub packs = Inr (pool', pub') \<and> pub_ok (cx_mincap cx) pub' \<and> holds_packs ty packs pub'"
proof -
  obtain pool1 pub where i: "SOS_pub_init cx pool title nature = Inr (pool1, pub)" "pool_ready (length packs) pool1"
      "pub_ok (cx_mincap cx) pub" "queued pub = []" "pb_elem_count pub = 0" "pb_elem_max pub = 1024"
      "\<forall>name. SOS_pub_search pub name = - 1"
    using SOS_pub_init_ok [of "length packs" pool cx title nature] assms by auto
  have "holds_packs ty [] pub" using i by (simp add: holds_packs_def last_val_def)
  from pack_all_ok [OF i(3) assms(1) this i(2) assms(4)] show ?thesis using i(1) assms(6,7) by auto
qed

theorem client_packs_in_order_witness:
  "\<exists>pool1 pub pool' pub'. SOS_pub_init example_ctx (SOS_uid_init 1 100) (str ''t'') SOS_NATURE_DEFAULT = Inr (pool1, pub) \<and>
    pack_all example_ctx (Fin 0) pool1 pub
      [(str ''a'', SOS_VAL_TYPE_INT, ArgI 1), (str ''b'', SOS_VAL_TYPE_STRING, ArgS (str ''x'')), (str ''a'', SOS_VAL_TYPE_INT, ArgI 2)] =
      Inr (pool', pub') \<and>
    map sn_val (queued pub') = [Val_i 1, Val_c (Some (str ''x'' @ [0])), Val_i 2] \<and>
    dt_val (pb_data pub' ! nat (SOS_pub_search pub' (str ''a''))) = Val_i 2"
proof -
  let ?packs = "[(str ''a'', SOS_VAL_TYPE_INT, ArgI 1), (str ''b'', SOS_VAL_TYPE_STRING, ArgS (str ''x'')), (str ''a'', SOS_VAL_TYPE_INT, ArgI 2)]"
  let ?ty = "\<lambda>n. if n = str ''a'' then SOS_VAL_TYPE_INT else SOS_VAL_TYPE_STRING"
  have ab: "cstr (str ''a'') = str ''a''" "cstr (str ''b'') = str ''b''" "str ''b'' \<noteq> str ''a''" "cstr (str ''x'') = str ''x''"
    by (simp_all add: str_def byte_of_char_def cstr_def)
  have "typed_by ?ty ?packs" using ab by (simp add: typed_by_def)
  moreover have "cx_role example_ctx = SOS_ROLE_CLIENT" "cx_mincap example_ctx = 5" by (simp_all add: example_ctx_def)
  moreover have "pool_ready (Suc (Suc (Suc (Suc 0)))) (SOS_uid_init 1 100)" by (simp add: pool_ready_def SOS_uid_init_def SOS_DEFAULT_UID_MAX_def)
  ultimately obtain pool1 pub pool' pub' where r: "SOS_pub_init example_ctx (SOS_uid_init 1 100) (str ''t'') SOS_NATURE_DEFAULT = Inr (pool1, pub)"
      "pack_all example_ctx (Fin 0) pool1 pub ?packs = Inr (pool', pub')" "holds_packs ?ty ?packs pub'"
    using client_packs_in_order [of example_ctx ?ty ?packs "SOS_uid_init 1 100" "str ''t''" SOS_NATURE_DEFAULT "Fin 0"]
    by (auto simp: INT_MAX_def)
  have "map snd (map (\<lambda>s. (sint (sn_elem s), sn_val s)) (queued pub')) = [Val_i 1, Val_c (Some (str ''x'' @ [0])), Val_i 2]"
    using r(3) ab(4) unfolding holds_packs_def by (simp del: map_map)
  then have "map sn_val (queued pub') = [Val_i 1, Val_c (Some (str ''x'' @ [0])), Val_i 2]" by (simp add: comp_def)
  moreover have "last_val ?packs (str ''a'') = Some (ArgI 2)" using ab by (simp add: last_val_def)
  then have "dt_val (pb_data pub' ! nat (SOS_pub_search pub' (str ''a''))) = Val_i 2"
    using holds_packs_val [OF r(3)] by simp
  ultimately show ?thesis using r(1,2) by (intro exI conjI)
qed

text \<open>
  One call of \<open>SOS_pack_related\<close> on a well-formed handle: the element of the name takes the
  value and becomes dirty, the snapshot with the relation is queued last, every other name and
  element stays as it is, the lock is free again, and the position of the name is returned.
\<close>

theorem pack_related_effect:
  assumes "pub_ok (cx_mincap cx) pub" and "cx_role cx = SOS_ROLE_CLIENT" and "pool_ready 1 pool"
    and "pb_elem_max pub + 1024 \<le> int INT_MAX" and "length (queued pub) + 2 \<le> cx_mincap cx"
    and "arg_matches type val" and "name_takes pub name type"
  shows "\<exists>pool' pub' pos. SOS_pack_related cx now pool pub rel name type val = Inr (pool', pub', pos) \<and>
    packed_into (cx_mincap cx) now (\<lambda>snap. snap\<lparr>sn_relation_id := rel\<rparr>) pub name type val pub' pos"
  using pack_value_ok [OF assms(1,2) _ assms(4-7), of 0 pool "\<lambda>snap. snap\<lparr>sn_relation_id := rel\<rparr>" "\<lambda>_. rel" now] assms(3)
  by (auto simp: SOS_pack_related_def)

theorem pack_related_effect_witness:
  "\<exists>pool pub pool' pub' pos. SOS_pub_init example_ctx (SOS_uid_init 1 100) (str ''t'') SOS_NATURE_DEFAULT = Inr (pool, pub) \<and>
    SOS_pack_related example_ctx (Fin 0) pool pub 9 (str ''a'') SOS_VAL_TYPE_LONG (ArgL 5) = Inr (pool', pub', pos) \<and>
    map sn_relation_id (queued pub') = [9]"
proof -
  obtain pool pub where i: "SOS_pub_init example_ctx (SOS_uid_init 1 100) (str ''t'') SOS_NATURE_DEFAULT = Inr (pool, pub)" "pool_ready 1 pool"
      "pub_ok 5 pub" "queued pub = []" "pb_elem_max pub = 1024" "SOS_pub_search pub (str ''a'') = - 1"
    using SOS_pub_init_ok [of 1 "SOS_uid_init 1 100" example_ctx "str ''t''" SOS_NATURE_DEFAULT]
    by (auto simp: example_ctx_def pool_ready_def SOS_uid_init_def SOS_DEFAULT_UID_MAX_def)
  then show ?thesis
    using pack_related_effect [of example_ctx pub pool SOS_VAL_TYPE_LONG "ArgL 5" "str ''a''" "Fin 0" 9]
    by (auto simp: example_ctx_def INT_MAX_def name_takes_def packed_into_def)
qed

text \<open>
  C36: The frame cache is a ring of the newest frames: after any number of insertions it holds the
  lists inserted last, the newest first, and behind them what was there before, up to its depth.
\<close>

theorem cache_keeps_newest:
  assumes "cache_ok pub" and "[] \<notin> set frames"
  shows "\<exists>pub'. foldR (\<lambda>snaps p. SOS_pack_snap_list_into_pub_cache p snaps) frames pub = Inr pub' \<and> cache_ok pub' \<and>
    cache_frames pub' = take (nat (sint (pb_cache_depth pub))) (rev (map Chain frames) @ cache_frames pub)"
  using cache_inserts_ok [OF assms] cache_frames_length [OF assms(1)] by simp

theorem cache_keeps_newest_witness:
  "\<exists>pub'. foldR (\<lambda>snaps p. SOS_pack_snap_list_into_pub_cache p snaps)
      [[zero_snap\<lparr>sn_frame := 1\<rparr>], [zero_snap\<lparr>sn_frame := 2\<rparr>], [zero_snap\<lparr>sn_frame := 3\<rparr>]] example_pub = Inr pub' \<and>
    cache_frames pub' = [Chain [zero_snap\<lparr>sn_frame := 3\<rparr>], Chain [zero_snap\<lparr>sn_frame := 2\<rparr>]]"
proof -
  have "cache_ok example_pub" by (simp add: cache_ok_def example_pub_def SOS_nature_enum.code_inject)
  then show ?thesis
    using cache_keeps_newest [of example_pub "[[zero_snap\<lparr>sn_frame := 1\<rparr>], [zero_snap\<lparr>sn_frame := 2\<rparr>], [zero_snap\<lparr>sn_frame := 3\<rparr>]]"]
    by (auto simp: example_pub_def)
qed

text \<open>
  A call that is refused (bytes, or an invalid type) returns -1 with the lock of the
  publication still held: the next pack on the handle, whatever it is, deadlocks.
\<close>

theorem refused_pack_keeps_lock:
  assumes "\<not> pb_lock pub" and "type = SOS_VAL_TYPE_BYTES \<or> type = SOS_VAL_TYPE___MAX"
  shows "SOS_pack cx now pool pub name type val = Inr (pool, pub\<lparr>pb_lock := True\<rparr>, - 1) \<and>
    SOS_pack cx now' pool' (pub\<lparr>pb_lock := True\<rparr>) name' type' val' = Inl Deadlock"
  using assms by (auto simp: SOS_pack_def pack_value_def SOS_pack_snap_situate_in_pub_def snap_take_val_def)

theorem refused_pack_keeps_lock_witness:
  "SOS_pack example_ctx (Fin 0) (SOS_uid_init 1 100) example_pub (str ''a'') SOS_VAL_TYPE_BYTES (ArgB [1]) =
     Inr (SOS_uid_init 1 100, example_pub\<lparr>pb_lock := True\<rparr>, - 1)"
  using refused_pack_keeps_lock [of example_pub SOS_VAL_TYPE_BYTES] by (simp add: example_pub_def)

text \<open>
  The type of a value is not checked against the element's: packing an integer under a name
  that holds strings reads the integer as a pointer.
\<close>

theorem pack_int_as_string_misreads:
  assumes "\<not> pb_lock pub" and "0 \<le> SOS_pub_search pub name" and "SOS_pub_search pub name < int (length (pb_data pub))"
    and "int (length (pb_data pub)) \<le> int INT_MAX"
    and "dt_type (pb_data pub ! nat (SOS_pub_search pub name)) = val_type_code SOS_VAL_TYPE_STRING"
  shows "SOS_pack cx now pool pub name SOS_VAL_TYPE_INT (ArgI i) = Inl Union_Misread"
proof -
  let ?pos = "SOS_pub_search pub name"
  have "sint (word_of_int ?pos :: i32) = ?pos"
    using assms(2-4) sint_word_of_nat_small [of "nat ?pos"] by (simp add: INT_MAX_def)
  then show ?thesis
    using assms
    by (cases "read_c_val (dt_val (pb_data pub ! nat ?pos))" rule: sum.exhaust)
      (auto simp: SOS_pack_def pack_value_def SOS_pack_snap_situate_in_pub_def snap_take_val_def SOS_pub_search_def
        pub_data_at_def SOS_pack_snap_renew_pub_data_def data_take_val_def SOS_val_type_enum.decode_code
        elim!: read_c_val.elims)
qed

theorem pack_int_as_string_misreads_witness:
  "\<exists>pool pub pool' pub' pos. SOS_pub_init example_ctx (SOS_uid_init 1 100) (str ''t'') SOS_NATURE_DEFAULT = Inr (pool, pub) \<and>
    SOS_pack example_ctx (Fin 0) pool pub (str ''a'') SOS_VAL_TYPE_STRING (ArgS (str ''x'')) = Inr (pool', pub', pos) \<and>
    SOS_pack example_ctx (Fin 1) pool' pub' (str ''a'') SOS_VAL_TYPE_INT (ArgI 5) = Inl Union_Misread"
proof -
  obtain pool pub where i: "SOS_pub_init example_ctx (SOS_uid_init 1 100) (str ''t'') SOS_NATURE_DEFAULT = Inr (pool, pub)" "pool_ready 1 pool"
      "pub_ok 5 pub" "queued pub = []" "pb_elem_max pub = 1024" "SOS_pub_search pub (str ''a'') = - 1"
    using SOS_pub_init_ok [of 1 "SOS_uid_init 1 100" example_ctx "str ''t''" SOS_NATURE_DEFAULT]
    by (auto simp: example_ctx_def pool_ready_def SOS_uid_init_def SOS_DEFAULT_UID_MAX_def)
  obtain pool' pub' pos where p: "SOS_pack example_ctx (Fin 0) pool pub (str ''a'') SOS_VAL_TYPE_STRING (ArgS (str ''x'')) = Inr (pool', pub', pos)"
      "packed_into 5 (Fin 0) (\<lambda>s. s) pub (str ''a'') SOS_VAL_TYPE_STRING (ArgS (str ''x'')) pub' pos"
    using pack_value_ok [of example_ctx pub 0 pool SOS_VAL_TYPE_STRING "ArgS (str ''x'')" "str ''a''" "\<lambda>s. s" "\<lambda>r. r" "Fin 0"] i
    by (auto simp: example_ctx_def INT_MAX_def name_takes_def SOS_pack_def)
  then show ?thesis
    using pack_int_as_string_misreads [of pub' "str ''a''" example_ctx "Fin 1" pool' 5] i(1)
    by (auto simp: packed_into_def pub_ok_def elems_ok_def)
qed

end
