(* ===== verification/SOS_Wire.thy ===== *)
theory SOS_Wire
  imports SOS_Pub
begin

text \<open>
  What a publication sends and how the daemon applies it (\<open>sos.c\<close>): announcements of the
  element definitions, publications of the dirty elements, and the queue of value snapshots.

  A writer takes the buffer and the offset and returns them advanced. \<open>clock i\<close> is what the
  \<open>i\<close>-th reading of the time in a call returns. The variable argument \<open>meta.semantic\<close> of a
  publication is an \<open>int\<close> that is read as a \<open>long\<close>: C leaves the upper half of its slot open,
  it is the parameter \<open>hi\<close>; the reader stores the eight bytes over \<open>semantic\<close> and the field
  behind it, \<open>classifier\<close>. The lemmas here show that the loop over a publication advances.
\<close>

section \<open>Snapshots\<close>

text \<open>A string argument: the bytes of the array before its \<open>NUL\<close>.\<close>

definition array_arg :: "byte list \<Rightarrow> pack_arg res" where
  "array_arg a = checkR (0 \<in> set a) Out_Of_Bounds (Inr (ArgS (cstr a)))"

definition pack_fields :: "string \<Rightarrow> pack_arg list \<Rightarrow> SOS_buffer \<times> nat \<Rightarrow> (SOS_buffer \<times> nat) res" where
  "pack_fields format args bo =
     bindR (SOS_buffer_pack (fst bo) (snd bo) format args) (\<lambda>(b, offset, _). Inr (b, offset))"

definition unpack_fields ::
    "string \<Rightarrow> unpack_dest list \<Rightarrow> SOS_buffer \<times> nat \<Rightarrow> (SOS_buffer \<times> nat \<times> unpack_val list) res" where
  "unpack_fields format dests bo =
     bindR (SOS_buffer_unpack (fst bo) (snd bo) format dests) (\<lambda>(b, offset, _, outs). Inr (b, offset, outs))"

text \<open>The output of a call that unpacks one field.\<close>

fun out_i :: "unpack_val list \<Rightarrow> i32 res" where
  "out_i [OutI x] = Inr x"
| "out_i _ = Inl Bad_Argument"

fun out_l :: "unpack_val list \<Rightarrow> i64 res" where
  "out_l [OutL x] = Inr x"
| "out_l _ = Inl Bad_Argument"

fun out_d :: "unpack_val list \<Rightarrow> c_double res" where
  "out_d [OutD x] = Inr x"
| "out_d _ = Inl Bad_Argument"

fun out_s :: "unpack_val list \<Rightarrow> (byte list option) res" where
  "out_s [OutS x] = Inr x"
| "out_s _ = Inl Bad_Argument"

fun out_b :: "unpack_val list \<Rightarrow> (byte list option) res" where
  "out_b [OutB x] = Inr x"
| "out_b _ = Inl Bad_Argument"

text \<open>A value in the format of its element's type.\<close>

definition val_to_buffer :: "i32 \<Rightarrow> SOS_val \<Rightarrow> i32 \<Rightarrow> SOS_buffer \<times> nat \<Rightarrow> (SOS_buffer \<times> nat) res" where
  "val_to_buffer type val val_len bo =
     (case enum_decode SOS_val_type_vals type of
        Some SOS_VAL_TYPE_INT \<Rightarrow> bindR (read_i_val val) (\<lambda>i. pack_fields ''i'' [ArgI i] bo)
      | Some SOS_VAL_TYPE_LONG \<Rightarrow> bindR (read_l_val val) (\<lambda>l. pack_fields ''l'' [ArgL l] bo)
      | Some SOS_VAL_TYPE_DOUBLE \<Rightarrow> bindR (read_d_val val) (\<lambda>d. pack_fields ''d'' [ArgD d] bo)
      | Some SOS_VAL_TYPE_STRING \<Rightarrow>
          bindR (read_c_val val) (\<lambda>p.
          case p of None \<Rightarrow> Inl Null_Deref | Some blk \<Rightarrow> bindR (array_arg blk) (\<lambda>a. pack_fields ''s'' [a] bo))
      | Some SOS_VAL_TYPE_BYTES \<Rightarrow>
          bindR (read_bytes_val val) (\<lambda>p.
          bindR (case p of Some blk \<Rightarrow> Inr blk | None \<Rightarrow> if sint val_len < 1 then Inr [] else Inl Null_Deref) (\<lambda>blk.
          bindR (SOS_buffer_pack_bytes (fst bo) (snd bo) (sint val_len) blk) (\<lambda>(b, offset, _). Inr (b, offset))))
      | _ \<Rightarrow> Inr bo)"

definition snap_args :: "SOS_val_snap \<Rightarrow> pack_arg list" where
  "snap_args s = [ArgI (sn_elem s), ArgG (sn_guid s), ArgG (sn_relation_id s), ArgI (sn_semantic s), ArgI (sn_type s),
     ArgI (sn_val_len s), ArgD (tm_pack (sn_time s)), ArgD (tm_send (sn_time s)), ArgD (tm_recv (sn_time s)), ArgL (sn_frame s)]"

text \<open>The value is written in the format of the element's type, not of the snapshot's.\<close>

definition snap_to_buffer ::
    "(nat \<Rightarrow> c_double) \<Rightarrow> SOS_pub \<Rightarrow> nat \<times> SOS_val_snap \<Rightarrow> SOS_buffer \<times> nat \<Rightarrow> (SOS_buffer \<times> nat) res" where
  "snap_to_buffer clock pub = (\<lambda>(i, snap) bo.
     let s = snap\<lparr>sn_time := (sn_time snap)\<lparr>tm_send := clock i\<rparr>\<rparr>
     in bindR (pack_fields ''iggiiidddl'' (snap_args s) bo) (\<lambda>bo.
        bindR (pub_data_at pub (sint (sn_elem s))) (\<lambda>data.
        val_to_buffer (dt_type data) (sn_val s) (sn_val_len s) bo)))"

definition msg_header_of :: "SOS_msg_type \<Rightarrow> u64 \<Rightarrow> u64 \<Rightarrow> SOS_msg_header" where
  "msg_header_of type from ref =
     \<lparr>hd_msg_size = - 1, hd_msg_type = enum_code SOS_msg_type_vals type, hd_msg_from = from, hd_ref_guid = ref\<rparr>"

text \<open>Header, body, and the header again with the size.\<close>

definition write_msg ::
    "SOS_msg_header \<Rightarrow> (SOS_buffer \<times> nat \<Rightarrow> (SOS_buffer \<times> nat) res) \<Rightarrow> SOS_buffer \<Rightarrow> SOS_buffer res" where
  "write_msg header body buffer =
     bindR (SOS_msg_zip buffer header 0) (\<lambda>(b, offset, _).
     bindR (body (b, offset)) (\<lambda>(b, offset).
     bindR (SOS_msg_zip b (header\<lparr>hd_msg_size := word_of_nat offset\<rparr>) 0) (\<lambda>(b, _, _). Inr b)))"

text \<open>With an empty queue the call also releases the lock of the publication.\<close>

definition SOS_val_snap_queue_to_buffer ::
    "SOS_ctx \<Rightarrow> (nat \<Rightarrow> c_double) \<Rightarrow> SOS_pub \<Rightarrow> SOS_buffer \<Rightarrow> (SOS_pub \<times> SOS_buffer) res" where
  "SOS_val_snap_queue_to_buffer cx clock pub buffer =
     (case pb_snap_queue pub of
        None \<Rightarrow> Inl Null_Deref
      | Some q \<Rightarrow>
          checkR (\<not> sq_sync_lock q) Deadlock
            (if sq_elem_count q < 1 then Inr (pub\<lparr>pb_lock := False\<rparr>, buffer)
             else
               bindR (pipe_pop (cx_mincap cx) zero_snap (sq_pipe q) (nat (sq_elem_count q))) (\<lambda>(p, snaps).
               let count = length snaps div pp_elem_size p;
                   pub = pub\<lparr>pb_snap_queue := Some (q\<lparr>sq_pipe := p, sq_elem_count := sq_elem_count q - int count\<rparr>)\<rparr>
               in bindR (write_msg (msg_header_of SOS_MSG_TYPE_VAL_SNAPS (cx_my_guid cx) (pb_guid pub))
                    (\<lambda>bo. bindR (pack_fields ''i'' [ArgI (word_of_nat count)] bo)
                       (foldR (snap_to_buffer clock pub) (zip [0..<count] snaps))) buffer) (\<lambda>buffer.
                  Inr (pub, buffer)))))"

text \<open>A zeroed block of \<open>n + 1\<close> bytes; a negative size is too large for \<open>calloc\<close>.\<close>

definition calloc_string :: "i32 \<Rightarrow> byte list option res" where
  "calloc_string n =
     (if sint n = int INT_MAX then Inl Undefined
      else Inr (if sint n + 1 < 0 then None else Some (replicate (nat (sint n + 1)) 0)))"

definition snap_of_outs :: "SOS_val_snap \<Rightarrow> unpack_val list \<Rightarrow> SOS_val_snap res" where
  "snap_of_outs s outs =
     (case outs of
        [OutI elem, OutG guid, OutG rel, OutI sem, OutI type, OutI vlen, OutD pack, OutD send, OutD recv, OutL frame] \<Rightarrow>
          Inr (s\<lparr>sn_elem := elem, sn_guid := guid, sn_relation_id := rel, sn_semantic := sem, sn_type := type, sn_val_len := vlen,
                 sn_time := \<lparr>tm_pack = pack, tm_send = send, tm_recv = recv\<rparr>, sn_frame := frame\<rparr>)
      | _ \<Rightarrow> Inl Bad_Argument)"

definition snap_val_from_buffer :: "SOS_val_snap \<Rightarrow> SOS_buffer \<times> nat \<Rightarrow> (SOS_buffer \<times> nat \<times> SOS_val_snap) res" where
  "snap_val_from_buffer s bo =
     (case enum_decode SOS_val_type_vals (sn_type s) of
        Some SOS_VAL_TYPE_INT \<Rightarrow>
          bindR (unpack_fields ''i'' [DestI] bo) (\<lambda>(b, offset, outs).
          bindR (out_i outs) (\<lambda>i. Inr (b, offset, s\<lparr>sn_val := Val_i i\<rparr>)))
      | Some SOS_VAL_TYPE_LONG \<Rightarrow>
          bindR (unpack_fields ''l'' [DestL] bo) (\<lambda>(b, offset, outs).
          bindR (out_l outs) (\<lambda>l. Inr (b, offset, s\<lparr>sn_val := Val_l l\<rparr>)))
      | Some SOS_VAL_TYPE_DOUBLE \<Rightarrow>
          bindR (unpack_fields ''d'' [DestD] bo) (\<lambda>(b, offset, outs).
          bindR (out_d outs) (\<lambda>d. Inr (b, offset, s\<lparr>sn_val := Val_d d\<rparr>)))
      | Some SOS_VAL_TYPE_STRING \<Rightarrow>
          bindR (calloc_string (sn_val_len s)) (\<lambda>p.
          bindR (unpack_fields ''s'' [DestS p] bo) (\<lambda>(b, offset, outs).
          bindR (out_s outs) (\<lambda>p. Inr (b, offset, s\<lparr>sn_val := Val_c p\<rparr>))))
      | Some SOS_VAL_TYPE_BYTES \<Rightarrow>
          bindR (unpack_fields ''i'' [DestI] bo) (\<lambda>(b, _, outs).
          bindR (out_i outs) (\<lambda>byte_count.
          bindR (calloc_string byte_count) (\<lambda>p.
          bindR (unpack_fields ''b'' [DestB p] (b, snd bo)) (\<lambda>(b, offset, outs).
          bindR (out_b outs) (\<lambda>p.
          Inr (b, offset, s\<lparr>sn_val_len := byte_count, sn_val := Val_bytes p\<rparr>))))))
      | _ \<Rightarrow> Inr (fst bo, snd bo, s))"

definition snap_from_buffer :: "SOS_pub \<Rightarrow> SOS_buffer \<times> nat \<Rightarrow> (SOS_buffer \<times> nat \<times> SOS_val_snap) res" where
  "snap_from_buffer pub bo =
     bindR (unpack_fields ''iggiiidddl'' [DestI, DestG, DestG, DestI, DestI, DestI, DestD, DestD, DestD, DestL] bo) (\<lambda>(b, offset, outs).
     bindR (snap_of_outs (zero_snap\<lparr>sn_pub_guid := pb_guid pub\<rparr>) outs) (\<lambda>s.
     snap_val_from_buffer s (b, offset)))"

definition snap_step :: "SOS_pub \<Rightarrow> SOS_buffer \<times> nat \<times> SOS_val_snap list \<Rightarrow> (SOS_buffer \<times> nat \<times> SOS_val_snap list) res" where
  "snap_step pub = (\<lambda>(b, offset, snaps).
     bindR (snap_from_buffer pub (b, offset)) (\<lambda>(b, offset, s). Inr (b, offset, snaps @ [s])))"

definition snaps_from_buffer :: "SOS_pub \<Rightarrow> nat \<Rightarrow> SOS_buffer \<times> nat \<Rightarrow> (SOS_buffer \<times> nat \<times> SOS_val_snap list) res" where
  "snaps_from_buffer pub n bo = foldR (\<lambda>_. snap_step pub) [0..<n] (fst bo, snd bo, [])"

text \<open>The duplicate for the cache: its string is a copy of its own.\<close>

definition snap_copy :: "c_double \<Rightarrow> SOS_val_snap \<Rightarrow> SOS_val_snap res" where
  "snap_copy now s =
     bindR (case enum_decode SOS_val_type_vals (sn_type s) of
              Some SOS_VAL_TYPE_STRING \<Rightarrow>
                bindR (read_c_val (sn_val s)) (\<lambda>p.
                case p of
                  None \<Rightarrow> Inl Null_Deref
                | Some blk \<Rightarrow> checkR (0 \<in> set blk) Out_Of_Bounds (Inr (Val_c (Some (cstr blk @ [0])))))
            | Some SOS_VAL_TYPE_BYTES \<Rightarrow>
                bindR (read_bytes_val (sn_val s)) (\<lambda>p.
                case p of
                  None \<Rightarrow> Inl Null_Deref
                | Some blk \<Rightarrow> bindR (mem_read 0 (unat (sn_val_len s)) blk) (\<lambda>bs. Inr (Val_bytes (Some bs))))
            | _ \<Rightarrow> Inr (sn_val s)) (\<lambda>v.
     Inr (s\<lparr>sn_val := v, sn_time := (sn_time s)\<lparr>tm_recv := now\<rparr>\<rparr>))"

fun snap_copies :: "(nat \<Rightarrow> c_double) \<Rightarrow> nat \<Rightarrow> SOS_val_snap list \<Rightarrow> SOS_val_snap list res" where
  "snap_copies clock i [] = Inr []"
| "snap_copies clock i (s # ss) = bindR (snap_copy (clock i) s) (\<lambda>c. bindR (snap_copies clock (Suc i) ss) (\<lambda>cs. Inr (c # cs)))"

definition snap_queue_push :: "nat \<Rightarrow> snap_pipe \<Rightarrow> SOS_val_snap list \<Rightarrow> snap_pipe res" where
  "snap_queue_push mincap q snaps =
     checkR (\<not> sq_sync_lock q) Deadlock
       (bindR (pipe_push mincap zero_snap (sq_pipe q) snaps (length snaps)) (\<lambda>p.
        Inr (q\<lparr>sq_pipe := p, sq_elem_count := sq_elem_count q + int (length snaps)\<rparr>)))"

definition adds_to_cache :: "SOS_pub \<Rightarrow> bool" where
  "adds_to_cache pub \<longleftrightarrow> 0 < sint (pb_cache_depth pub) \<and> pm_nature (pb_meta pub) \<noteq> enum_code SOS_nature_vals SOS_NATURE_SOS"

definition SOS_val_snap_queue_from_buffer ::
    "nat \<Rightarrow> (nat \<Rightarrow> c_double) \<Rightarrow> SOS_buffer \<Rightarrow> snap_pipe option \<Rightarrow> SOS_pub option \<Rightarrow>
     (SOS_buffer \<times> snap_pipe option \<times> SOS_pub option) res" where
  "SOS_val_snap_queue_from_buffer mincap clock buffer snap_queue pub =
     (case pub of
        None \<Rightarrow> Inr (buffer, snap_queue, None)
      | Some pub \<Rightarrow>
          bindR (SOS_msg_unzip buffer 0) (\<lambda>(b, header, offset).
          bindR (unpack_fields ''i'' [DestI] (b, offset)) (\<lambda>(b, offset, outs).
          bindR (out_i outs) (\<lambda>snap_count.
              if sint snap_count < 1 then Inr (b, snap_queue, Some pub)
              else
                bindR (snaps_from_buffer pub (nat (sint snap_count)) (b, offset)) (\<lambda>(b, offset, snaps).
                bindR (if adds_to_cache pub
                       then bindR (snap_copies clock 0 snaps) (SOS_pack_snap_list_into_pub_cache pub)
                       else Inr pub) (\<lambda>pub.
                bindR (case snap_queue of
                         None \<Rightarrow> Inr None
                       | Some q \<Rightarrow> bindR (snap_queue_push mincap q snaps) (\<lambda>q. Inr (Some q))) (\<lambda>snap_queue.
                Inr (b, snap_queue, Some pub))))))))"

section \<open>Announcements\<close>

definition array_args :: "byte list list \<Rightarrow> pack_arg list res" where
  "array_args as = foldR (\<lambda>a acc. bindR (array_arg a) (\<lambda>x. Inr (acc @ [x]))) as []"

definition announce_args :: "SOS_pub \<Rightarrow> pack_arg list res" where
  "announce_args pub =
     bindR (array_args [pb_node_id pub, pb_prog_name pub, pb_prog_ver pub, pb_pragma_msg pub, pb_title pub]) (\<lambda>strs.
     Inr [strs ! 0, ArgI (pb_process_id pub), ArgI (pb_thread_id pub), ArgI (pb_comm_rank pub), strs ! 1, strs ! 2,
       ArgI (pb_pragma_len pub), strs ! 3, strs ! 4, ArgI (word_of_int (pb_elem_count pub)),
       ArgI (pm_channel (pb_meta pub)), ArgI (pm_layer (pb_meta pub)), ArgI (pm_nature (pb_meta pub)),
       ArgI (pm_pri_hint (pb_meta pub)), ArgI (pm_scope_hint (pb_meta pub)), ArgI (pm_retain_hint (pb_meta pub)),
       ArgI (pb_cache_depth pub)])"

definition elem_to_buffer :: "SOS_data \<Rightarrow> SOS_buffer \<times> nat \<Rightarrow> (SOS_buffer \<times> nat) res" where
  "elem_to_buffer d bo =
     bindR (array_arg (dt_name d)) (\<lambda>name.
     pack_fields ''gsiiiiiig''
       [ArgG (dt_guid d), name, ArgI (dt_type d), ArgI (vm_freq (dt_meta d)), ArgI (vm_semantic (dt_meta d)),
        ArgI (vm_classifier (dt_meta d)), ArgI (vm_pattern (dt_meta d)), ArgI (vm_compare (dt_meta d)),
        ArgG (vm_relation_id (dt_meta d))] bo)"

text \<open>The elements in use; the array has \<open>elem_max\<close> of them.\<close>

definition pub_elems :: "SOS_pub \<Rightarrow> SOS_data list res" where
  "pub_elems pub = mem_read 0 (nat (pb_elem_count pub)) (pb_data pub)"

definition SOS_announce_to_buffer :: "SOS_ctx \<Rightarrow> SOS_pub \<Rightarrow> SOS_buffer \<Rightarrow> (SOS_pub \<times> SOS_buffer) res" where
  "SOS_announce_to_buffer cx pub buffer =
     bindR (write_msg (msg_header_of SOS_MSG_TYPE_ANNOUNCE (cx_my_guid cx) (pb_guid pub))
       (\<lambda>bo. bindR (announce_args pub) (\<lambda>args.
             bindR (pack_fields ''siiississiiiiiiii'' args bo) (\<lambda>bo.
             bindR (pub_elems pub) (\<lambda>ds. foldR elem_to_buffer ds bo)))) buffer) (\<lambda>buffer.
     Inr (pub\<lparr>pb_announced := 1\<rparr>, buffer))"

definition alloc_cache :: "i32 \<Rightarrow> snap_chain list option" where
  "alloc_cache depth = (if sint depth < 0 then None else Some (replicate (nat (sint depth)) (Chain [])))"

function pub_grow_to :: "int \<Rightarrow> SOS_pub \<Rightarrow> SOS_pub res" where
  "pub_grow_to n pub =
     (if pb_elem_max pub < n then bindR (SOS_expand_data pub) (pub_grow_to n) else Inr pub)"
  by pat_completeness auto
termination
  by (relation "measure (\<lambda>(n, pub). nat (n - pb_elem_max pub))")
    (auto simp: SOS_expand_data_def SOS_DEFAULT_ELEM_MAX_def Let_def res_simps)

declare pub_grow_to.simps [simp del]

definition announce_of_outs :: "SOS_pub \<Rightarrow> unpack_val list \<Rightarrow> (SOS_pub \<times> i32) res" where
  "announce_of_outs pub outs =
     (case outs of
        [OutS (Some node), OutI pid, OutI tid, OutI rank, OutS (Some prog), OutS (Some ver), OutI plen, OutS (Some pmsg),
         OutS (Some title), OutI elem, OutI channel, OutI layer, OutI nature, OutI pri, OutI scope, OutI retain, OutI depth] \<Rightarrow>
          Inr (pub\<lparr>pb_node_id := node, pb_process_id := pid, pb_thread_id := tid, pb_comm_rank := rank, pb_prog_name := prog,
                   pb_prog_ver := ver, pb_pragma_len := plen, pb_pragma_msg := pmsg, pb_title := title,
                   pb_meta := \<lparr>pm_channel = channel, pm_nature = nature, pm_layer = layer, pm_pri_hint = pri,
                              pm_scope_hint = scope, pm_retain_hint = retain\<rparr>,
                   pb_cache_depth := depth\<rparr>, elem)
      | _ \<Rightarrow> Inl Bad_Argument)"

definition elem_of_outs :: "unpack_val list \<Rightarrow> SOS_data res" where
  "elem_of_outs outs =
     (case outs of
        [OutG guid, OutS (Some name), OutI type, OutI freq, OutI sem, OutI cls, OutI pat, OutI cmp, OutG rel] \<Rightarrow>
          Inr \<lparr>dt_guid = guid, dt_val_len = 0, dt_val = Val_zero, dt_type = type,
               dt_meta = \<lparr>vm_freq = freq, vm_semantic = sem, vm_classifier = cls, vm_pattern = pat, vm_compare = cmp,
                          vm_relation_id = rel\<rparr>,
               dt_state = 0, dt_sync = 0, dt_time = zero_time, dt_name = name\<rparr>
      | _ \<Rightarrow> Inl Bad_Argument)"

text \<open>Everything but the name is compared; only a definition that differs is taken over.\<close>

definition take_elem :: "SOS_pub \<Rightarrow> nat \<Rightarrow> SOS_data \<Rightarrow> SOS_pub res" where
  "take_elem pub elem upd =
     bindR (pub_data_at pub (int elem)) (\<lambda>d.
     if dt_guid d = dt_guid upd \<and> dt_type d = dt_type upd \<and> dt_meta d = dt_meta upd then Inr pub
     else
       checkR (0 \<in> set (dt_name upd)) Out_Of_Bounds
         (let name = snprintf_array SOS_DEFAULT_STRING_LEN (cstr (dt_name upd)) (dt_name d)
          in Inr ((pub_set_data pub (int elem)
               (d\<lparr>dt_sync := enum_code SOS_val_sync_vals SOS_VAL_SYNC_RENEW, dt_name := name, dt_guid := dt_guid upd,
                  dt_type := dt_type upd, dt_meta := dt_meta upd\<rparr>))
             \<lparr>pb_name_table := fst (qh_put (pb_name_table pub) (Some name) (Some (int elem + 1)))\<rparr>)))"

definition elem_from_buffer :: "nat \<Rightarrow> SOS_buffer \<times> nat \<times> SOS_pub \<Rightarrow> (SOS_buffer \<times> nat \<times> SOS_pub) res" where
  "elem_from_buffer elem = (\<lambda>(b, offset, pub).
     bindR (unpack_fields ''gsiiiiiig''
       [DestG, DestS (Some (replicate SOS_DEFAULT_STRING_LEN 0)), DestI, DestI, DestI, DestI, DestI, DestI, DestG] (b, offset)) (\<lambda>(b, offset, outs).
     bindR (elem_of_outs outs) (\<lambda>upd.
     bindR (take_elem pub elem upd) (\<lambda>pub.
     Inr (b, offset, pub)))))"

definition SOS_announce_from_buffer :: "SOS_buffer \<Rightarrow> SOS_pub \<Rightarrow> (SOS_buffer \<times> SOS_pub) res" where
  "SOS_announce_from_buffer buffer pub =
     checkR (\<not> pb_lock pub) Deadlock
       (bindR (SOS_msg_unzip buffer 0) (\<lambda>(b, header, offset).
        let pub = pub\<lparr>pb_lock := True, pb_guid := hd_ref_guid header,
                      pb_guid_str := snprintf_array SOS_DEFAULT_STRING_LEN (guid_str (hd_ref_guid header)) (pb_guid_str pub)\<rparr>
        in bindR (unpack_fields ''siiississiiiiiiii''
             [DestS (Some (pb_node_id pub)), DestI, DestI, DestI, DestS (Some (pb_prog_name pub)), DestS (Some (pb_prog_ver pub)), DestI,
              DestS (Some (pb_pragma_msg pub)), DestS (Some (pb_title pub)), DestI, DestI, DestI, DestI, DestI, DestI, DestI, DestI]
             (b, offset)) (\<lambda>(b, offset, outs).
           bindR (announce_of_outs pub outs) (\<lambda>(pub, elem).
           bindR (pub_grow_to (sint elem)
                    (pub\<lparr>pb_cache := (case pb_cache pub of None \<Rightarrow> alloc_cache (pb_cache_depth pub) | Some c \<Rightarrow> Some c)\<rparr>)) (\<lambda>pub.
           bindR (foldR elem_from_buffer [0..<nat (sint elem)] (b, offset, pub\<lparr>pb_elem_count := sint elem\<rparr>)) (\<lambda>(b, offset, pub).
           Inr (b, pub\<lparr>pb_lock := False\<rparr>)))))))"

section \<open>Publications\<close>

definition wide_arg :: "i32 \<Rightarrow> i32 \<Rightarrow> i64" where
  "wide_arg hi lo = word_cat hi lo"

definition data_to_buffer :: "i32 \<Rightarrow> nat \<times> SOS_data \<Rightarrow> SOS_buffer \<times> nat \<Rightarrow> (SOS_buffer \<times> nat) res" where
  "data_to_buffer hi = (\<lambda>(elem, d) bo.
     bindR (pack_fields ''iddilg''
       [ArgI (word_of_nat elem), ArgD (tm_pack (dt_time d)), ArgD (tm_send (dt_time d)), ArgI (dt_val_len d),
        ArgL (wide_arg hi (vm_semantic (dt_meta d))), ArgG (vm_relation_id (dt_meta d))] bo) (\<lambda>bo.
     val_to_buffer (dt_type d) (dt_val d) (dt_val_len d) bo))"

definition is_dirty :: "SOS_data \<Rightarrow> bool" where
  "is_dirty d \<longleftrightarrow> dt_state d = val_state_code SOS_VAL_STATE_DIRTY"

definition mark_sent :: "c_double \<Rightarrow> SOS_data \<Rightarrow> SOS_data" where
  "mark_sent now d =
     (if is_dirty d then d\<lparr>dt_state := val_state_code SOS_VAL_STATE_CLEAN, dt_time := (dt_time d)\<lparr>tm_send := now\<rparr>\<rparr> else d)"

definition dirty_elems :: "c_double \<Rightarrow> SOS_data list \<Rightarrow> (nat \<times> SOS_data) list" where
  "dirty_elems now ds = map (\<lambda>(i, d). (i, mark_sent now d)) (filter (\<lambda>(i, d). is_dirty d) (zip [0..<length ds] ds))"

definition SOS_publish_to_buffer :: "SOS_ctx \<Rightarrow> i32 \<Rightarrow> c_double \<Rightarrow> SOS_pub \<Rightarrow> SOS_buffer \<Rightarrow> (SOS_pub \<times> SOS_buffer) res" where
  "SOS_publish_to_buffer cx hi now pub buffer =
     bindR (pub_elems pub) (\<lambda>ds.
     bindR (write_msg (msg_header_of SOS_MSG_TYPE_PUBLISH (cx_my_guid cx) (pb_guid pub))
       (\<lambda>bo. bindR (pack_fields ''l'' [ArgL (pb_frame pub)] bo)
               (foldR (data_to_buffer hi) (dirty_elems now ds))) buffer) (\<lambda>buffer.
     Inr (pub\<lparr>pb_frame := pb_frame pub + 1, pb_data := map (mark_sent now) ds @ drop (length ds) (pb_data pub)\<rparr>, buffer)))"

text \<open>The eight bytes that go over \<open>semantic\<close> and \<open>classifier\<close>.\<close>

definition store_wide :: "i64 \<Rightarrow> SOS_val_meta \<Rightarrow> SOS_val_meta" where
  "store_wide l m = m\<lparr>vm_semantic := ucast l, vm_classifier := ucast (drop_bit 32 l)\<rparr>"

definition data_val_from_buffer :: "SOS_data \<Rightarrow> SOS_buffer \<times> nat \<Rightarrow> (SOS_buffer \<times> nat \<times> SOS_data) res" where
  "data_val_from_buffer d bo =
     (case enum_decode SOS_val_type_vals (dt_type d) of
        Some SOS_VAL_TYPE_INT \<Rightarrow>
          bindR (unpack_fields ''i'' [DestI] bo) (\<lambda>(b, offset, outs).
          bindR (out_i outs) (\<lambda>i. Inr (b, offset, d\<lparr>dt_val := Val_i i\<rparr>)))
      | Some SOS_VAL_TYPE_LONG \<Rightarrow>
          bindR (unpack_fields ''l'' [DestL] bo) (\<lambda>(b, offset, outs).
          bindR (out_l outs) (\<lambda>l. Inr (b, offset, d\<lparr>dt_val := Val_l l\<rparr>)))
      | Some SOS_VAL_TYPE_DOUBLE \<Rightarrow>
          bindR (unpack_fields ''d'' [DestD] bo) (\<lambda>(b, offset, outs).
          bindR (out_d outs) (\<lambda>x. Inr (b, offset, d\<lparr>dt_val := Val_d x\<rparr>)))
      | Some SOS_VAL_TYPE_STRING \<Rightarrow>
          bindR (read_c_val (dt_val d)) (\<lambda>_.
          bindR (calloc_string (dt_val_len d)) (\<lambda>p.
          case p of
            None \<Rightarrow> Inl Null_Deref
          | Some _ \<Rightarrow>
              bindR (unpack_fields ''s'' [DestS p] bo) (\<lambda>(b, offset, outs).
              bindR (out_s outs) (\<lambda>p. Inr (b, offset, d\<lparr>dt_val := Val_c p\<rparr>)))))
      | _ \<Rightarrow> Inr (fst bo, snd bo, d))"

definition data_of_outs :: "SOS_data \<Rightarrow> unpack_val list \<Rightarrow> SOS_data res" where
  "data_of_outs d outs =
     (case outs of
        [OutD pack, OutD send, OutI vlen, OutL sem, OutG rel] \<Rightarrow>
          Inr (d\<lparr>dt_time := (dt_time d)\<lparr>tm_pack := pack, tm_send := send\<rparr>, dt_val_len := vlen,
                 dt_meta := (store_wide sem (dt_meta d))\<lparr>vm_relation_id := rel\<rparr>\<rparr>)
      | _ \<Rightarrow> Inl Bad_Argument)"

definition data_from_buffer :: "SOS_buffer \<times> nat \<times> SOS_pub \<Rightarrow> (SOS_buffer \<times> nat \<times> SOS_pub) res" where
  "data_from_buffer = (\<lambda>(b, offset, pub).
     bindR (unpack_fields ''i'' [DestI] (b, offset)) (\<lambda>(b, offset, outs).
     bindR (out_i outs) (\<lambda>elem.
         bindR (pub_data_at pub (sint elem)) (\<lambda>d.
         bindR (unpack_fields ''ddilg'' [DestD, DestD, DestI, DestL, DestG] (b, offset)) (\<lambda>(b, offset, outs).
         bindR (data_of_outs d outs) (\<lambda>d.
         bindR (data_val_from_buffer d (b, offset)) (\<lambda>(b, offset, d).
         Inr (b, offset, pub_set_data pub (sint elem) (d\<lparr>dt_state := val_state_code SOS_VAL_STATE_CLEAN\<rparr>)))))))))"

lemma unpack_fields_advances: "unpack_fields format dests (b, offset) = Inr (b', offset', outs) \<Longrightarrow> offset \<le> offset'"
  by (auto simp: unpack_fields_def SOS_buffer_unpack_def Let_def res_simps)

lemma data_val_advances: "data_val_from_buffer d (b, offset) = Inr (b', offset', d') \<Longrightarrow> offset \<le> offset'"
  by (auto simp: data_val_from_buffer_def res_simps split: option.splits SOS_val_type.splits list.splits unpack_val.splits
      dest: unpack_fields_advances)

text \<open>An element takes 40 bytes and what its value takes, so a publication has only so many rounds.\<close>

lemma unpack_step_size:
  assumes "unpack_step m c st = Inr st'" and "c \<in> {CHR ''i'', CHR ''l'', CHR ''g'', CHR ''d''}"
  shows "us_packed st' = us_packed st + (if c = CHR ''i'' then 4 else 8)"
  using assms by (auto simp: unpack_step_def unpack_letter_def unpack_out_def Let_def res_simps if_distrib [where f = us_packed]
      split: option.splits unpack_dest.splits cong: if_cong)

lemma unpack_size:
  assumes "unpack_fields format dests (b, offset) = Inr (b', offset', outs)" and "set format \<subseteq> {CHR ''i'', CHR ''l'', CHR ''g'', CHR ''d''}"
  shows "offset' = offset + sum_list (map (\<lambda>c. if c = CHR ''i'' then 4 else 8) format)"
proof -
  have "us_packed st' = us_packed st + sum_list (map (\<lambda>c. if c = CHR ''i'' then 4 else 8) format)"
    if "foldR (unpack_step m) format st = Inr st'" for m st st'
    using that assms(2)
  proof (induction format arbitrary: st)
    case (Cons c cs)
    then obtain st1 where "unpack_step m c st = Inr st1" "foldR (unpack_step m) cs st1 = Inr st'" by (auto simp: res_simps)
    with Cons.IH [of st1] Cons.prems(2) unpack_step_size [of m c st st1] show ?case by simp
  qed simp
  then show ?thesis
    using assms(1) by (fastforce simp: unpack_fields_def SOS_buffer_unpack_def Let_def res_simps)
qed

lemma data_from_buffer_size: "data_from_buffer (b, offset, pub) = Inr (b', offset', pub') \<Longrightarrow> offset + 40 \<le> offset'"
  by (auto simp: data_from_buffer_def res_simps dest!: unpack_size data_val_advances)

function publish_loop :: "int \<Rightarrow> SOS_buffer \<times> nat \<times> SOS_pub \<Rightarrow> (SOS_buffer \<times> nat \<times> SOS_pub) res" where
  "publish_loop msg_size (b, offset, pub) =
     (if int offset < msg_size then bindR (data_from_buffer (b, offset, pub)) (publish_loop msg_size)
      else Inr (b, offset, pub))"
  by pat_completeness auto
termination
  by (relation "measure (\<lambda>(msg_size, (b, offset, pub)). nat (msg_size - int offset))")
    (auto dest: data_from_buffer_size)

declare publish_loop.simps [simp del]

lemma foldR_shift: "foldR (\<lambda>_. f) [0..<Suc k] s = bindR (f s) (foldR (\<lambda>_. f) [0..<k])"
proof -
  have "foldR (\<lambda>_. f) xs = foldR (\<lambda>_. f) ys" if "length xs = length ys" for xs ys :: "nat list"
    using that by (induction xs ys rule: list_induct2) (rule ext, simp)+
  from this [of "[Suc 0..<Suc k]" "[0..<k]"] show ?thesis
    by (subst upt_rec) simp
qed

text \<open>
  C31: applying a publication terminates, whatever its bytes are. The number of elements is not in the message: the
  loop goes on until the offset reaches the size the header claims. Every round takes at least 40 bytes, so the loop
  is at most that many rounds of reading one element, or fewer when a round fails.
\<close>

theorem publish_loop_rounds:
  "\<exists>k. int (40 * k) \<le> max 0 (n - int offset) + 39 \<and>
    publish_loop n (b, offset, pub) = foldR (\<lambda>_. data_from_buffer) [0..<k] (b, offset, pub)"
proof (induction n "(b, offset, pub)" arbitrary: b offset pub rule: publish_loop.induct)
  case (1 n b offset pub)
  show ?case
  proof (cases "int offset < n")
    case False
    then show ?thesis by (intro exI [of _ 0]) (simp add: publish_loop.simps [of n b])
  next
    case more: True
    then have eq: "publish_loop n (b, offset, pub) = bindR (data_from_buffer (b, offset, pub)) (publish_loop n)"
      by (subst publish_loop.simps) simp
    show ?thesis
    proof (cases "data_from_buffer (b, offset, pub)")
      case (Inl e)
      then show ?thesis using eq more by (intro exI [of _ 1]) simp
    next
      case (Inr r)
      obtain b' offset' pub' where r: "r = (b', offset', pub')" by (cases r)
      have "offset + 40 \<le> offset'" using data_from_buffer_size Inr r by blast
      moreover obtain k where "int (40 * k) \<le> max 0 (n - int offset') + 39"
          "publish_loop n (b', offset', pub') = foldR (\<lambda>_. data_from_buffer) [0..<k] (b', offset', pub')"
        using 1 [OF more] Inr r by blast
      ultimately have "int (40 * Suc k) \<le> max 0 (n - int offset) + 39"
          and "publish_loop n (b, offset, pub) = bindR (data_from_buffer (b, offset, pub)) (foldR (\<lambda>_. data_from_buffer) [0..<k])"
        using eq more Inr r by (presburger, simp)
      then show ?thesis unfolding foldR_shift [symmetric] by blast
    qed
  qed
qed

definition SOS_publish_from_buffer :: "SOS_buffer \<Rightarrow> SOS_pub \<Rightarrow> (SOS_buffer \<times> SOS_pub) res" where
  "SOS_publish_from_buffer buffer pub =
     checkR (\<not> pb_lock pub) Deadlock
       (bindR (SOS_msg_unzip buffer 0) (\<lambda>(b, header, offset).
        bindR (unpack_fields ''l'' [DestL] (b, offset)) (\<lambda>(b, offset, outs).
        bindR (out_l outs) (\<lambda>this_frame.
            bindR (publish_loop (sint (hd_msg_size header)) (b, offset, pub\<lparr>pb_lock := True, pb_frame := this_frame\<rparr>)) (\<lambda>(b, offset, pub).
            Inr (b, pub\<lparr>pb_lock := False\<rparr>))))))"

section \<open>The calls of the interface\<close>

text \<open>Both return the messages they handed to the daemon, in order.\<close>

definition SOS_announce :: "SOS_ctx \<Rightarrow> SOS_pub \<Rightarrow> (SOS_pub \<times> SOS_buffer list) res" where
  "SOS_announce cx pub =
     (if pb_announced pub \<noteq> 0 then Inr (pub, [])
      else
        checkR (\<not> pb_lock pub) Deadlock
          (bindR (SOS_announce_to_buffer cx (pub\<lparr>pb_lock := True\<rparr>) SOS_buffer_init) (\<lambda>(pub, ann_buf).
           bindR (cx_send cx ann_buf (SOS_buffer_init_sized SOS_DEFAULT_REPLY_LEN)) (\<lambda>rep_buf.
           bindR (SOS_buffer_destroy (Some ann_buf)) (\<lambda>_.
           bindR (SOS_buffer_destroy (Some rep_buf)) (\<lambda>_.
           Inr (pub\<lparr>pb_lock := False\<rparr>, [ann_buf])))))))"

text \<open>The clock is read once for the publication, then once per snapshot.\<close>

definition SOS_publish :: "SOS_ctx \<Rightarrow> i32 \<Rightarrow> (nat \<Rightarrow> c_double) \<Rightarrow> SOS_pub \<Rightarrow> (SOS_pub \<times> SOS_buffer list) res" where
  "SOS_publish cx hi clock pub =
     bindR (if pb_announced pub = 0 then SOS_announce cx pub else Inr (pub, [])) (\<lambda>(pub, sent).
     checkR (\<not> pb_lock pub) Deadlock
       (bindR (SOS_publish_to_buffer cx hi (clock 0) (pub\<lparr>pb_lock := True\<rparr>) SOS_buffer_init) (\<lambda>(pub, pub_buf).
        bindR (cx_send cx pub_buf (SOS_buffer_init_sized SOS_DEFAULT_REPLY_LEN)) (\<lambda>rep_buf.
        bindR (SOS_val_snap_queue_to_buffer cx (\<lambda>i. clock (Suc i)) pub (SOS_buffer_wipe pub_buf)) (\<lambda>(pub, snap_buf).
        bindR (if 0 < buf_len snap_buf then bindR (cx_send cx snap_buf rep_buf) (\<lambda>r. Inr (r, [snap_buf]))
               else Inr (rep_buf, [])) (\<lambda>(rep_buf, snaps_sent).
        bindR (SOS_buffer_destroy (Some snap_buf)) (\<lambda>_.
        bindR (SOS_buffer_destroy (Some rep_buf)) (\<lambda>_.
        Inr (pub\<lparr>pb_lock := False\<rparr>, sent @ [pub_buf] @ snaps_sent)))))))))"

end
