(* ===== verification/SOS_Codec.thy ===== *)
theory SOS_Codec
  imports SOS_Wire
begin

text \<open>
  Composing the writers and readers of \<open>SOS_Wire\<close>. \<open>appends w e\<close> says that the writer adds the
  bytes \<open>e\<close> to a message under construction, \<open>reads r e x\<close> that the reader takes \<open>e\<close> from a
  message and yields \<open>x\<close>. The locale \<open>record_codec\<close> lifts a matching pair to all the records of
  a message; it is interpreted for snapshots, element definitions and published elements.
\<close>

section \<open>Writers and readers\<close>

definition appends :: "(SOS_buffer \<times> nat \<Rightarrow> (SOS_buffer \<times> nat) res) \<Rightarrow> byte list \<Rightarrow> bool" where
  "appends w e \<longleftrightarrow>
     (\<forall>b offset bs. building b offset bs \<and> offset + length e \<le> MSG_LIMIT \<longrightarrow>
        (\<exists>b'. w (b, offset) = Inr (b', offset + length e) \<and> building b' (offset + length e) (bs @ e) \<and>
           buf_is_locking b' = buf_is_locking b \<and> buf_lock b' = buf_lock b))"

definition reads :: "(SOS_buffer \<times> nat \<Rightarrow> (SOS_buffer \<times> nat \<times> 'a) res) \<Rightarrow> byte list \<Rightarrow> 'a \<Rightarrow> bool" where
  "reads r e x \<longleftrightarrow> (\<forall>b n xs zs. holding b n (xs @ e @ zs) \<longrightarrow> r (b, length xs) = Inr (b, length xs + length e, x))"

named_theorems wire_intros "composing writers and readers"

lemma appends_skip [wire_intros]: "appends Inr []"
  by (simp add: appends_def)

lemma appends_fields:
  assumes "format = map fmt_of args" and "\<forall>a \<in> set args. arg_ok a" and "length (encode args) \<le> SOS_DEFAULT_BUFFER_MAX div 2"
  shows "appends (pack_fields format args) (encode args)"
  unfolding appends_def
proof (intro allI impI, elim conjE)
  fix b offset bs
  assume b: "building b offset bs" "offset + length (encode args) \<le> MSG_LIMIT"
  have "offset \<le> MSG_LIMIT" using b(2) by simp
  from building_pack [OF b(1) assms(2,3) this] obtain b' where
    "SOS_buffer_pack b offset (map fmt_of args) args = Inr (b', offset + length (encode args), length (encode args))"
    "building b' (offset + length (encode args)) (bs @ encode args)" "buf_is_locking b' = buf_is_locking b" "buf_lock b' = buf_lock b"
    by metis
  then show "\<exists>b'. pack_fields format args (b, offset) = Inr (b', offset + length (encode args)) \<and>
      building b' (offset + length (encode args)) (bs @ encode args) \<and>
      buf_is_locking b' = buf_is_locking b \<and> buf_lock b' = buf_lock b"
    by (simp add: pack_fields_def assms(1))
qed

lemma appends_seq [wire_intros]:
  assumes "appends w e" and "appends w' e'"
  shows "appends (\<lambda>bo. bindR (w bo) w') (e @ e')"
  unfolding appends_def
proof (intro allI impI, elim conjE)
  fix b offset bs
  assume b: "building b offset bs" "offset + length (e @ e') \<le> MSG_LIMIT"
  obtain b1 where 1: "w (b, offset) = Inr (b1, offset + length e)" "building b1 (offset + length e) (bs @ e)"
      "buf_is_locking b1 = buf_is_locking b" "buf_lock b1 = buf_lock b"
    using assms(1) b unfolding appends_def by fastforce
  obtain b2 where "w' (b1, offset + length e) = Inr (b2, offset + length e + length e')"
      "building b2 (offset + length e + length e') ((bs @ e) @ e')"
      "buf_is_locking b2 = buf_is_locking b1" "buf_lock b2 = buf_lock b1"
    using assms(2) b(2) 1(2) unfolding appends_def by fastforce
  then show "\<exists>b'. bindR (w (b, offset)) w' = Inr (b', offset + length (e @ e')) \<and>
      building b' (offset + length (e @ e')) (bs @ e @ e') \<and> buf_is_locking b' = buf_is_locking b \<and> buf_lock b' = buf_lock b"
    using 1 by (simp add: add.assoc)
qed

lemma appends_foldR:
  "(\<And>x. x \<in> set xs \<Longrightarrow> appends (put x) (enc x)) \<Longrightarrow> appends (foldR put xs) (concat (map enc xs))"
proof (induction xs)
  case Nil
  have "foldR put [] = Inr" by (rule ext) simp
  then show ?case by (simp add: appends_skip)
next
  case (Cons x xs)
  have "foldR put (x # xs) = (\<lambda>bo. bindR (put x bo) (foldR put xs))" by (rule ext) simp
  then show ?case using appends_seq [of "put x" "enc x"] Cons by simp
qed

lemma write_msg_ok:
  assumes "building buffer 0 []" and "\<not> buf_lock buffer" and "appends body e" and "24 + length e \<le> MSG_LIMIT"
  obtains b where "write_msg header body buffer = Inr b" and "\<not> buf_lock b" and "buf_is_locking b = buf_is_locking buffer"
    and "building b (24 + length e) (encode (header_args (header\<lparr>hd_msg_size := word_of_nat (24 + length e)\<rparr>)) @ e)"
proof -
  let ?h = "header\<lparr>hd_msg_size := word_of_nat (24 + length e)\<rparr>"
  obtain m1 where m1: "SOS_msg_zip buffer header 0 = Inr (m1, 24, 24)" "building m1 24 (encode (header_args header))"
      "\<not> buf_lock m1" "buf_is_locking m1 = buf_is_locking buffer"
    using SOS_msg_zip_start [OF assms(1,2)] by metis
  obtain m2 where m2: "body (m1, 24) = Inr (m2, 24 + length e)" "building m2 (24 + length e) (encode (header_args header) @ e)"
      "buf_is_locking m2 = buf_is_locking m1" "buf_lock m2 = buf_lock m1"
    using assms(3,4) m1(2) unfolding appends_def by blast
  obtain m3 where "SOS_msg_zip m2 ?h 0 = Inr (m3, 24, 24)" "building m3 (24 + length e) (encode (header_args ?h) @ e)"
      "\<not> buf_lock m3" "buf_is_locking m3 = buf_is_locking m2"
    using SOS_msg_zip_again [OF m2(2)] m1(3) m2(4) by metis
  then show ?thesis using that [of m3] m1 m2 by (simp add: write_msg_def)
qed

lemma readsD: "reads r e x \<Longrightarrow> holding b n (xs @ e @ zs) \<Longrightarrow> r (b, length xs) = Inr (b, length xs + length e, x)"
  by (auto simp: reads_def)

lemma reads_return [wire_intros]: "reads (\<lambda>bo. Inr (fst bo, snd bo, x)) [] x"
  by (simp add: reads_def)

lemma reads_fields:
  assumes "format = map fmt_of args" and "\<forall>a \<in> set args. arg_ok a" and "args \<noteq> []" and "outs_of args dests = Some outs"
  shows "reads (unpack_fields format dests) (encode args) outs"
  using holding_unpack [OF _ assms(2-4)] by (auto simp: reads_def unpack_fields_def assms(1))

lemma reads_bind [wire_intros]:
  assumes "reads r e x" and "reads (\<lambda>bo. k x (fst bo) (snd bo)) e' y"
  shows "reads (\<lambda>bo. bindR (r bo) (\<lambda>(b, offset, x). k x b offset)) (e @ e') y"
  unfolding reads_def
proof (intro allI impI)
  fix b n xs zs
  assume b: "holding b n (xs @ (e @ e') @ zs)"
  then have 1: "r (b, length xs) = Inr (b, length xs + length e, x)" using readsD [OF assms(1), of b n xs "e' @ zs"] by simp
  have "k x b (length (xs @ e)) = Inr (b, length (xs @ e) + length e', y)"
    using readsD [OF assms(2), of b n "xs @ e" zs] b by simp
  then show "bindR (r (b, length xs)) (\<lambda>(b, offset, x). k x b offset) = Inr (b, length xs + length (e @ e'), y)"
    using 1 by (simp add: add.assoc)
qed

text \<open>
  A kind of record in a message: \<open>put\<close> writes one, \<open>get k\<close> reads the \<open>k\<close>-th one into the state
  of the receiver, where \<open>upd\<close> says what it does there and \<open>takes\<close> when the receiver can hold it.
\<close>

locale record_codec =
  fixes put :: "'x \<Rightarrow> SOS_buffer \<times> nat \<Rightarrow> (SOS_buffer \<times> nat) res"
    and get :: "'k \<Rightarrow> SOS_buffer \<times> nat \<times> 's \<Rightarrow> (SOS_buffer \<times> nat \<times> 's) res"
    and enc :: "'x \<Rightarrow> byte list"
    and fits :: "'x \<Rightarrow> bool"
    and takes :: "'k \<Rightarrow> 'x \<Rightarrow> 's \<Rightarrow> bool"
    and upd :: "'k \<Rightarrow> 'x \<Rightarrow> 's \<Rightarrow> 's"
  assumes put_appends: "fits x \<Longrightarrow> appends (put x) (enc x)"
    and get_reads: "fits x \<Longrightarrow> takes k x s \<Longrightarrow> reads (\<lambda>bo. get k (fst bo, snd bo, s)) (enc x) (upd k x s)"
begin

primrec takes_all :: "('k \<times> 'x) list \<Rightarrow> 's \<Rightarrow> bool" where
  "takes_all [] s = True"
| "takes_all (kx # kxs) s = (takes (fst kx) (snd kx) s \<and> takes_all kxs (upd (fst kx) (snd kx) s))"

definition upd_all :: "('k \<times> 'x) list \<Rightarrow> 's \<Rightarrow> 's" where
  "upd_all kxs s = fold (\<lambda>(k, x). upd k x) kxs s"

lemma puts_append: "\<forall>x \<in> set xs. fits x \<Longrightarrow> appends (foldR put xs) (concat (map enc xs))"
  by (rule appends_foldR) (simp add: put_appends)

lemma gets_read:
  "\<forall>kx \<in> set kxs. fits (snd kx) \<Longrightarrow> takes_all kxs s \<Longrightarrow>
   reads (\<lambda>bo. foldR get (map fst kxs) (fst bo, snd bo, s)) (concat (map (\<lambda>kx. enc (snd kx)) kxs)) (upd_all kxs s)"
proof (induction kxs arbitrary: s)
  case Nil
  then show ?case by (simp add: upd_all_def reads_return)
next
  case (Cons kx kxs)
  obtain k x where kx: "kx = (k, x)" by (cases kx)
  have "reads (\<lambda>bo. bindR (get k (fst bo, snd bo, s)) (\<lambda>(b, offset, s). foldR get (map fst kxs) (b, offset, s)))
      (enc x @ concat (map (\<lambda>kx. enc (snd kx)) kxs)) (upd_all kxs (upd k x s))"
    by (rule reads_bind [where x = "upd k x s"]) (use Cons get_reads in \<open>simp_all add: kx\<close>)
  moreover have "bindR r (\<lambda>(b, offset, s). f (b, offset, s)) = bindR r f" for r :: "(SOS_buffer \<times> nat \<times> 's) res"
    and f :: "SOS_buffer \<times> nat \<times> 's \<Rightarrow> (SOS_buffer \<times> nat \<times> 's) res"
    by (cases r) auto
  ultimately show ?case by (simp add: kx upd_all_def)
qed

end

section \<open>Values\<close>

text \<open>A value its element can send: of the element's type, finite, and short enough for one call.\<close>

definition val_sendable :: "i32 \<Rightarrow> SOS_val \<Rightarrow> i32 \<Rightarrow> bool" where
  "val_sendable type v len \<longleftrightarrow>
     (type = val_type_code SOS_VAL_TYPE_INT \<and> (\<exists>i. v = Val_i i)) \<or>
     (type = val_type_code SOS_VAL_TYPE_LONG \<and> (\<exists>l. v = Val_l l)) \<or>
     (type = val_type_code SOS_VAL_TYPE_DOUBLE \<and> (\<exists>d. v = Val_d (Fin d))) \<or>
     (type = val_type_code SOS_VAL_TYPE_STRING \<and>
        (\<exists>blk. v = Val_c (Some blk) \<and> 0 \<in> set blk \<and> length (cstr blk) \<le> 2044 \<and>
           int (length (cstr blk)) \<le> sint len \<and> sint len < int INT_MAX))"

fun val_arg :: "SOS_val \<Rightarrow> pack_arg" where
  "val_arg (Val_i i) = ArgI i"
| "val_arg (Val_l l) = ArgL l"
| "val_arg (Val_d d) = ArgD d"
| "val_arg (Val_c (Some blk)) = ArgS (cstr blk)"
| "val_arg _ = ArgI 0"

text \<open>What the receiver holds: doubles as the wire carries them, strings in a block of \<open>val_len + 1\<close>.\<close>

fun val_received :: "i32 \<Rightarrow> SOS_val \<Rightarrow> SOS_val" where
  "val_received len (Val_d d) = Val_d (wire_double d)"
| "val_received len (Val_c (Some blk)) = Val_c (Some (cstr blk @ replicate (nat (sint len + 1) - length (cstr blk)) 0))"
| "val_received len v = v"

lemma val_to_buffer_appends [wire_intros]:
  assumes "val_sendable type v len"
  shows "appends (val_to_buffer type v len) (encode [val_arg v])"
  using assms unfolding val_sendable_def
proof (elim disjE conjE exE)
  fix i assume "type = val_type_code SOS_VAL_TYPE_INT" "v = Val_i i"
  then show ?thesis
    using appends_fields [of "''i''" "[ArgI i]"]
    by (simp add: val_to_buffer_def [abs_def] SOS_val_type_enum.decode_code SOS_DEFAULT_BUFFER_MAX_def)
next
  fix l assume "type = val_type_code SOS_VAL_TYPE_LONG" "v = Val_l l"
  then show ?thesis
    using appends_fields [of "''l''" "[ArgL l]"]
    by (simp add: val_to_buffer_def [abs_def] SOS_val_type_enum.decode_code SOS_DEFAULT_BUFFER_MAX_def)
next
  fix d assume "type = val_type_code SOS_VAL_TYPE_DOUBLE" "v = Val_d (Fin d)"
  then show ?thesis
    using appends_fields [of "''d''" "[ArgD (Fin d)]"]
    by (simp add: val_to_buffer_def [abs_def] SOS_val_type_enum.decode_code SOS_DEFAULT_BUFFER_MAX_def split: sum.splits)
next
  fix blk assume "type = val_type_code SOS_VAL_TYPE_STRING" "v = Val_c (Some blk)" "0 \<in> set blk" "length (cstr blk) \<le> 2044"
  then show ?thesis
    using appends_fields [of "''s''" "[ArgS (cstr blk)]"]
    by (simp add: val_to_buffer_def [abs_def] SOS_val_type_enum.decode_code SOS_DEFAULT_BUFFER_MAX_def array_arg_def INT_MAX_def)
qed

lemma calloc_string_ok:
  "0 \<le> sint len \<Longrightarrow> sint len < int INT_MAX \<Longrightarrow> calloc_string len = Inr (Some (replicate (nat (sint len + 1)) 0))"
  by (simp add: calloc_string_def)

lemma string_outs:
  assumes "int (length s) \<le> sint len"
  shows "outs_of [ArgS s] [DestS (Some (replicate (nat (sint len + 1)) 0))] =
    Some [OutS (Some (s @ replicate (nat (sint len + 1) - length s) 0))]"
  using assms by simp

lemma reads_one:
  assumes "reads r e outs" and "out outs = Inr x"
  shows "reads (\<lambda>bo. bindR (r bo) (\<lambda>(b, offset, outs). bindR (out outs) (\<lambda>x. Inr (b, offset, f x)))) e (f x)"
  using assms by (simp add: reads_def)

lemmas reads_int = reads_one [OF reads_fields [of "''i''" "[ArgI i]" "[DestI]" "[OutI i]"], where out = out_i and x = i for i, simplified]
  and reads_long = reads_one [OF reads_fields [of "''l''" "[ArgL l]" "[DestL]" "[OutL l]"], where out = out_l and x = l for l, simplified]
  and reads_double = reads_one [OF reads_fields [of "''d''" "[ArgD (Fin d)]" "[DestD]" "[OutD (wire_double (Fin d))]"],
      where out = out_d and x = "wire_double (Fin d)" for d, simplified]

lemma reads_string:
  assumes "wf_cstring s" and "int (length s) \<le> sint len" and "sint len < int INT_MAX"
  shows "reads (\<lambda>bo. bindR (unpack_fields ''s'' [DestS (Some (replicate (nat (sint len + 1)) 0))] bo)
      (\<lambda>(b, offset, outs). bindR (out_s outs) (\<lambda>p. Inr (b, offset, f p))))
    (encode [ArgS s]) (f (Some (s @ replicate (nat (sint len + 1) - length s) 0)))"
  by (rule reads_one [OF reads_fields [OF _ _ _ string_outs]]) (use assms in \<open>auto simp: INT_MAX_def\<close>)

lemma snap_val_reads:
  assumes "val_sendable (sn_type s) v (sn_val_len s)"
  shows "reads (snap_val_from_buffer s) (encode [val_arg v]) (s\<lparr>sn_val := val_received (sn_val_len s) v\<rparr>)"
  using assms unfolding val_sendable_def
proof (elim disjE conjE exE)
  fix blk
  assume *: "sn_type s = val_type_code SOS_VAL_TYPE_STRING" "v = Val_c (Some blk)"
    "int (length (cstr blk)) \<le> sint (sn_val_len s)" "sint (sn_val_len s) < int INT_MAX"
  then have "0 \<le> sint (sn_val_len s)" by linarith
  then show ?thesis
    using reads_string [of "cstr blk" "sn_val_len s" "\<lambda>p. s\<lparr>sn_val := Val_c p\<rparr>"] *
    by (simp add: snap_val_from_buffer_def [abs_def] SOS_val_type_enum.decode_code calloc_string_ok)
qed (use reads_int [where f = "\<lambda>i. s\<lparr>sn_val := Val_i i\<rparr>"] reads_long [where f = "\<lambda>l. s\<lparr>sn_val := Val_l l\<rparr>"]
      reads_double [where f = "\<lambda>d. s\<lparr>sn_val := Val_d d\<rparr>"] in
    \<open>auto simp: snap_val_from_buffer_def [abs_def] SOS_val_type_enum.decode_code\<close>)

lemma data_val_reads:
  assumes "val_sendable (dt_type d) v (dt_val_len d)" and "val_fits (dt_type d) (dt_val d)"
  shows "reads (data_val_from_buffer d) (encode [val_arg v]) (d\<lparr>dt_val := val_received (dt_val_len d) v\<rparr>)"
  using assms(1) unfolding val_sendable_def
proof (elim disjE conjE exE)
  fix blk
  assume *: "dt_type d = val_type_code SOS_VAL_TYPE_STRING" "v = Val_c (Some blk)"
    "int (length (cstr blk)) \<le> sint (dt_val_len d)" "sint (dt_val_len d) < int INT_MAX"
  then have "0 \<le> sint (dt_val_len d)" by linarith
  moreover obtain p where "read_c_val (dt_val d) = Inr p"
    using assms(2) *(1) by (auto simp: val_fits_def SOS_val_type_enum.decode_code split: SOS_val.splits)
  ultimately show ?thesis
    using reads_string [of "cstr blk" "dt_val_len d" "\<lambda>p. d\<lparr>dt_val := Val_c p\<rparr>"] *
    by (simp add: data_val_from_buffer_def [abs_def] SOS_val_type_enum.decode_code calloc_string_ok)
qed (use reads_int [where f = "\<lambda>i. d\<lparr>dt_val := Val_i i\<rparr>"] reads_long [where f = "\<lambda>l. d\<lparr>dt_val := Val_l l\<rparr>"]
      reads_double [where f = "\<lambda>x. d\<lparr>dt_val := Val_d x\<rparr>"] in
    \<open>auto simp: data_val_from_buffer_def [abs_def] SOS_val_type_enum.decode_code\<close>)

section \<open>The records of the three messages\<close>

definition is_finite :: "c_double \<Rightarrow> bool" where
  "is_finite d \<longleftrightarrow> (\<exists>x. d = Fin x)"

definition stamp_send :: "c_double \<Rightarrow> SOS_val_snap \<Rightarrow> SOS_val_snap" where
  "stamp_send now s = s\<lparr>sn_time := (sn_time s)\<lparr>tm_send := now\<rparr>\<rparr>"

definition snap_enc :: "(nat \<Rightarrow> c_double) \<Rightarrow> nat \<times> SOS_val_snap \<Rightarrow> byte list" where
  "snap_enc clock = (\<lambda>(i, s). encode (snap_args (stamp_send (clock i) s)) @ encode [val_arg (sn_val s)])"

definition snap_fits :: "(nat \<Rightarrow> c_double) \<Rightarrow> SOS_pub \<Rightarrow> nat \<times> SOS_val_snap \<Rightarrow> bool" where
  "snap_fits clock pub = (\<lambda>(i, s).
     is_finite (clock i) \<and> is_finite (tm_pack (sn_time s)) \<and> is_finite (tm_recv (sn_time s)) \<and>
     val_sendable (sn_type s) (sn_val s) (sn_val_len s) \<and>
     0 \<le> sint (sn_elem s) \<and> sint (sn_elem s) < int (length (pb_data pub)) \<and>
     dt_type (pb_data pub ! nat (sint (sn_elem s))) = sn_type s)"

text \<open>The snapshot the daemon rebuilds.\<close>

definition snap_received :: "(nat \<Rightarrow> c_double) \<Rightarrow> u64 \<Rightarrow> nat \<times> SOS_val_snap \<Rightarrow> SOS_val_snap" where
  "snap_received clock guid = (\<lambda>(i, s).
     s\<lparr>sn_pub_guid := guid, sn_val := val_received (sn_val_len s) (sn_val s),
       sn_time := \<lparr>tm_pack = wire_double (tm_pack (sn_time s)), tm_send = wire_double (clock i),
                  tm_recv = wire_double (tm_recv (sn_time s))\<rparr>\<rparr>)"

lemma is_finiteE: "is_finite d \<Longrightarrow> (\<And>x. d = Fin x \<Longrightarrow> P) \<Longrightarrow> P"
  by (auto simp: is_finite_def)

lemma length_enc_double: "length (enc_arg (ArgD d)) \<le> 8"
  by (simp split: sum.splits)

lemma snap_put:
  assumes "snap_fits clock pub x"
  shows "appends (snap_to_buffer clock pub x) (snap_enc clock x)"
proof -
  obtain i s where x: "x = (i, s)" by (cases x)
  let ?s = "stamp_send (clock i) s"
  have f: "is_finite (clock i)" "is_finite (tm_pack (sn_time s))" "is_finite (tm_recv (sn_time s))"
      "val_sendable (sn_type s) (sn_val s) (sn_val_len s)" "0 \<le> sint (sn_elem s)" "sint (sn_elem s) < int (length (pb_data pub))"
      "dt_type (pb_data pub ! nat (sint (sn_elem s))) = sn_type s"
    using assms by (auto simp: snap_fits_def x)
  have "\<forall>a \<in> set (snap_args ?s). arg_ok a" using f(1-3) by (auto simp: snap_args_def stamp_send_def is_finite_def)
  moreover have "length (encode (snap_args ?s)) \<le> SOS_DEFAULT_BUFFER_MAX div 2"
    using length_enc_double [of "clock i"] length_enc_double [of "tm_pack (sn_time s)"] length_enc_double [of "tm_recv (sn_time s)"]
    by (simp add: snap_args_def stamp_send_def SOS_DEFAULT_BUFFER_MAX_def del: enc_arg.simps(3))
  ultimately have "appends (pack_fields ''iggiiidddl'' (snap_args ?s)) (encode (snap_args ?s))"
    by (intro appends_fields) (simp_all add: snap_args_def)
  from appends_seq [OF this val_to_buffer_appends [OF f(4)]] show ?thesis
    using f(5-7) by (simp add: x snap_to_buffer_def [abs_def] snap_enc_def Let_def stamp_send_def pub_data_at_def)
qed

lemma snap_get:
  assumes "snap_fits clock pub x"
  shows "reads (\<lambda>bo. snap_step dpub (fst bo, snd bo, ss)) (snap_enc clock x) (ss @ [snap_received clock (pb_guid dpub) x])"
proof -
  obtain i s where x: "x = (i, s)" by (cases x)
  let ?s = "stamp_send (clock i) s"
  let ?r = "zero_snap\<lparr>sn_pub_guid := pb_guid dpub, sn_elem := sn_elem s, sn_guid := sn_guid s, sn_relation_id := sn_relation_id s,
      sn_semantic := sn_semantic s, sn_type := sn_type s, sn_val_len := sn_val_len s,
      sn_time := \<lparr>tm_pack = wire_double (tm_pack (sn_time s)), tm_send = wire_double (clock i),
                 tm_recv = wire_double (tm_recv (sn_time s))\<rparr>, sn_frame := sn_frame s\<rparr>"
  have f: "is_finite (clock i)" "is_finite (tm_pack (sn_time s))" "is_finite (tm_recv (sn_time s))"
      "val_sendable (sn_type s) (sn_val s) (sn_val_len s)"
    using assms by (auto simp: snap_fits_def x)
  let ?outs = "[OutI (sn_elem s), OutG (sn_guid s), OutG (sn_relation_id s), OutI (sn_semantic s), OutI (sn_type s), OutI (sn_val_len s),
      OutD (wire_double (tm_pack (sn_time s))), OutD (wire_double (clock i)), OutD (wire_double (tm_recv (sn_time s))), OutL (sn_frame s)]"
  have "\<forall>a \<in> set (snap_args ?s). arg_ok a" using f(1-3) by (auto simp: snap_args_def stamp_send_def is_finite_def)
  then have 1: "reads (unpack_fields ''iggiiidddl'' [DestI, DestG, DestG, DestI, DestI, DestI, DestD, DestD, DestD, DestL])
      (encode (snap_args ?s)) ?outs"
    by (intro reads_fields) (simp_all add: snap_args_def stamp_send_def)
  have "reads (snap_val_from_buffer ?r) (encode [val_arg (sn_val s)]) (?r\<lparr>sn_val := val_received (sn_val_len s) (sn_val s)\<rparr>)"
    using snap_val_reads [of ?r "sn_val s"] f(4) by simp
  moreover have "?r\<lparr>sn_val := val_received (sn_val_len s) (sn_val s)\<rparr> = snap_received clock (pb_guid dpub) x"
    by (simp add: snap_received_def x zero_snap_def)
  ultimately have 2: "reads (snap_val_from_buffer ?r) (encode [val_arg (sn_val s)]) (snap_received clock (pb_guid dpub) x)" by simp
  have "reads (snap_from_buffer dpub) (snap_enc clock x) (snap_received clock (pb_guid dpub) x)"
    unfolding snap_from_buffer_def [abs_def] snap_enc_def x prod.case
    by (rule reads_bind [OF 1]) (use 2 in \<open>simp add: snap_of_outs_def x\<close>)
  then show ?thesis by (simp add: reads_def snap_step_def)
qed

interpretation snap_codec: record_codec "snap_to_buffer clock pub" "\<lambda>_. snap_step dpub" "snap_enc clock" "snap_fits clock pub"
    "\<lambda>_ _ _. True" "\<lambda>_ x ss. ss @ [snap_received clock (pb_guid dpub) x]"
  for clock pub dpub
  by unfold_locales (auto intro: snap_put snap_get)

definition elem_args :: "SOS_data \<Rightarrow> pack_arg list" where
  "elem_args d = [ArgG (dt_guid d), ArgS (cstr (dt_name d)), ArgI (dt_type d), ArgI (vm_freq (dt_meta d)), ArgI (vm_semantic (dt_meta d)),
     ArgI (vm_classifier (dt_meta d)), ArgI (vm_pattern (dt_meta d)), ArgI (vm_compare (dt_meta d)), ArgG (vm_relation_id (dt_meta d))]"

definition name_fits :: "byte list \<Rightarrow> bool" where
  "name_fits a \<longleftrightarrow> 0 \<in> set a \<and> length a = SOS_DEFAULT_STRING_LEN"

definition elem_taken :: "nat \<Rightarrow> SOS_data \<Rightarrow> SOS_pub \<Rightarrow> SOS_pub" where
  "elem_taken i d pub =
     (let old = pb_data pub ! i
      in if dt_guid old = dt_guid d \<and> dt_type old = dt_type d \<and> dt_meta old = dt_meta d then pub
         else
           (let name = snprintf_array SOS_DEFAULT_STRING_LEN (cstr (dt_name d)) (dt_name old)
            in pub\<lparr>pb_data := (pb_data pub)[i := old\<lparr>dt_sync := enum_code SOS_val_sync_vals SOS_VAL_SYNC_RENEW, dt_name := name,
                     dt_guid := dt_guid d, dt_type := dt_type d, dt_meta := dt_meta d\<rparr>],
                   pb_name_table := fst (qh_put (pb_name_table pub) (Some name) (Some (int i + 1)))\<rparr>))"

lemma length_cstr_less: "0 \<in> set a \<Longrightarrow> length (cstr a) < length a"
proof -
  assume "0 \<in> set a"
  then have "takeWhile (\<lambda>b. b \<noteq> 0) a \<noteq> a" by (auto simp: takeWhile_eq_all_conv)
  then show ?thesis unfolding cstr_def
    by (metis length_takeWhile_le nat_less_le takeWhile_eq_take take_all_iff order_refl)
qed

lemma elem_put:
  assumes "name_fits (dt_name d)"
  shows "appends (elem_to_buffer d) (encode (elem_args d))"
proof -
  have "length (cstr (dt_name d)) < 256"
    using length_cstr_less [of "dt_name d"] assms by (simp add: name_fits_def SOS_DEFAULT_STRING_LEN_def)
  then have "appends (pack_fields ''gsiiiiiig'' (elem_args d)) (encode (elem_args d))"
    by (intro appends_fields) (auto simp: elem_args_def SOS_DEFAULT_BUFFER_MAX_def INT_MAX_def)
  then show ?thesis
    using assms by (simp add: elem_to_buffer_def [abs_def] array_arg_def name_fits_def elem_args_def)
qed

lemma elem_get:
  assumes "name_fits (dt_name d)" and "k < length (pb_data s)"
  shows "reads (\<lambda>bo. elem_from_buffer k (fst bo, snd bo, s)) (encode (elem_args d)) (elem_taken k d s)"
proof -
  let ?n = "cstr (dt_name d)"
  let ?name = "?n @ replicate (SOS_DEFAULT_STRING_LEN - length ?n) 0"
  have l: "length ?n < SOS_DEFAULT_STRING_LEN" using length_cstr_less [of "dt_name d"] assms(1) by (simp add: name_fits_def)
  let ?outs = "[OutG (dt_guid d), OutS (Some ?name), OutI (dt_type d), OutI (vm_freq (dt_meta d)), OutI (vm_semantic (dt_meta d)),
      OutI (vm_classifier (dt_meta d)), OutI (vm_pattern (dt_meta d)), OutI (vm_compare (dt_meta d)), OutG (vm_relation_id (dt_meta d))]"
  have 1: "reads (unpack_fields ''gsiiiiiig'' [DestG, DestS (Some (replicate SOS_DEFAULT_STRING_LEN 0)), DestI, DestI, DestI, DestI, DestI, DestI, DestG])
      (encode (elem_args d)) ?outs"
    using l by (intro reads_fields) (auto simp: elem_args_def SOS_DEFAULT_STRING_LEN_def INT_MAX_def)
  have "replicate (SOS_DEFAULT_STRING_LEN - length ?n) 0 = 0 # replicate (SOS_DEFAULT_STRING_LEN - length ?n - 1) (0 :: byte)"
    using l by (cases "SOS_DEFAULT_STRING_LEN - length ?n") simp_all
  then have name: "cstr ?name = ?n" "0 \<in> set ?name" by (simp_all add: cstr_append_NUL)
  let ?upd = "\<lparr>dt_guid = dt_guid d, dt_val_len = 0, dt_val = Val_zero, dt_type = dt_type d, dt_meta = dt_meta d,
      dt_state = 0, dt_sync = 0, dt_time = zero_time, dt_name = ?name\<rparr>"
  have upd: "elem_of_outs ?outs = Inr ?upd" by (cases "dt_meta d") (simp add: elem_of_outs_def)
  have take: "take_elem s k ?upd = Inr (elem_taken k d s)"
    using assms(2) name by (simp add: take_elem_def elem_taken_def pub_data_at_def pub_set_data_def Let_def)
  have "reads (\<lambda>bo. bindR (unpack_fields ''gsiiiiiig''
       [DestG, DestS (Some (replicate SOS_DEFAULT_STRING_LEN 0)), DestI, DestI, DestI, DestI, DestI, DestI, DestG] bo) (\<lambda>(b, offset, outs).
     bindR (elem_of_outs outs) (\<lambda>upd. bindR (take_elem s k upd) (\<lambda>pub. Inr (b, offset, pub)))))
    (encode (elem_args d) @ []) (elem_taken k d s)"
    by (rule reads_bind [OF 1]) (simp only: upd take bindR.simps reads_return)
  then show ?thesis by (simp add: elem_from_buffer_def)
qed

interpretation elem_codec: record_codec elem_to_buffer elem_from_buffer "\<lambda>d. encode (elem_args d)" "\<lambda>d. name_fits (dt_name d)"
    "\<lambda>k d pub. k < length (pb_data pub)" elem_taken
  by unfold_locales (auto intro: elem_put elem_get)

definition data_args :: "i32 \<Rightarrow> nat \<times> SOS_data \<Rightarrow> pack_arg list" where
  "data_args hi = (\<lambda>(i, d). [ArgI (word_of_nat i), ArgD (tm_pack (dt_time d)), ArgD (tm_send (dt_time d)), ArgI (dt_val_len d),
     ArgL (wide_arg hi (vm_semantic (dt_meta d))), ArgG (vm_relation_id (dt_meta d))])"

definition data_enc :: "i32 \<Rightarrow> nat \<times> SOS_data \<Rightarrow> byte list" where
  "data_enc hi x = encode (data_args hi x) @ encode [val_arg (dt_val (snd x))]"

definition data_fits :: "nat \<times> SOS_data \<Rightarrow> bool" where
  "data_fits = (\<lambda>(i, d). i < 2 ^ 31 \<and> is_finite (tm_pack (dt_time d)) \<and> is_finite (tm_send (dt_time d)) \<and>
     val_sendable (dt_type d) (dt_val d) (dt_val_len d))"

definition data_takes :: "nat \<times> SOS_data \<Rightarrow> SOS_pub \<Rightarrow> bool" where
  "data_takes = (\<lambda>(i, d) pub. i < length (pb_data pub) \<and> dt_type (pb_data pub ! i) = dt_type d \<and>
     val_fits (dt_type d) (dt_val (pb_data pub ! i)))"

definition data_update :: "i32 \<Rightarrow> SOS_data \<Rightarrow> SOS_data \<Rightarrow> SOS_data" where
  "data_update hi d old =
     old\<lparr>dt_time := (dt_time old)\<lparr>tm_pack := wire_double (tm_pack (dt_time d)), tm_send := wire_double (tm_send (dt_time d))\<rparr>,
         dt_val_len := dt_val_len d,
         dt_meta := (dt_meta old)\<lparr>vm_semantic := vm_semantic (dt_meta d), vm_classifier := hi, vm_relation_id := vm_relation_id (dt_meta d)\<rparr>,
         dt_val := val_received (dt_val_len d) (dt_val d),
         dt_state := val_state_code SOS_VAL_STATE_CLEAN\<rparr>"

definition data_taken :: "i32 \<Rightarrow> nat \<times> SOS_data \<Rightarrow> SOS_pub \<Rightarrow> SOS_pub" where
  "data_taken hi = (\<lambda>(i, d) pub. pub_set_data pub (int i) (data_update hi d (pb_data pub ! i)))"

lemma store_wide_arg: "store_wide (wide_arg hi lo) m = m\<lparr>vm_semantic := lo, vm_classifier := hi\<rparr>"
proof -
  have "(ucast (word_cat hi lo :: i64) :: i32) = lo"
    by (rule bit_word_eqI) (simp add: bit_ucast_iff bit_word_cat_iff)
  moreover have "(ucast (drop_bit 32 (word_cat hi lo :: i64)) :: i32) = hi"
    by (rule bit_word_eqI) (simp add: bit_ucast_iff bit_word_cat_iff bit_drop_bit_eq)
  ultimately show ?thesis by (simp add: store_wide_def wide_arg_def)
qed

lemma data_args_ok: "data_fits x \<Longrightarrow> \<forall>a \<in> set (data_args hi x). arg_ok a"
  by (cases x) (auto simp: data_fits_def data_args_def is_finite_def)

lemma data_put:
  assumes "data_fits x"
  shows "appends (data_to_buffer hi x) (data_enc hi x)"
proof -
  obtain i d where x: "x = (i, d)" by (cases x)
  have "length (encode (data_args hi x)) \<le> SOS_DEFAULT_BUFFER_MAX div 2"
    using length_enc_double [of "tm_pack (dt_time d)"] length_enc_double [of "tm_send (dt_time d)"]
    by (simp add: data_args_def x SOS_DEFAULT_BUFFER_MAX_def del: enc_arg.simps(3))
  with data_args_ok [OF assms, of hi] have "appends (pack_fields ''iddilg'' (data_args hi x)) (encode (data_args hi x))"
    by (intro appends_fields) (simp_all add: data_args_def x)
  from appends_seq [OF this val_to_buffer_appends [of "dt_type d" "dt_val d" "dt_val_len d"]] show ?thesis
    using assms by (simp add: x data_to_buffer_def [abs_def] data_enc_def data_args_def data_fits_def)
qed

lemma data_get:
  assumes "data_fits x" and "data_takes x s"
  shows "reads (\<lambda>bo. data_from_buffer (fst bo, snd bo, s)) (data_enc hi x) (data_taken hi x s)"
proof -
  obtain i d where x: "x = (i, d)" by (cases x)
  let ?old = "pb_data s ! i"
  have f: "i < 2 ^ 31" "val_sendable (dt_type d) (dt_val d) (dt_val_len d)" "i < length (pb_data s)" "dt_type ?old = dt_type d"
      "val_fits (dt_type d) (dt_val ?old)"
    using assms by (auto simp: data_fits_def data_takes_def x)
  let ?d1 = "?old\<lparr>dt_time := (dt_time ?old)\<lparr>tm_pack := wire_double (tm_pack (dt_time d)), tm_send := wire_double (tm_send (dt_time d))\<rparr>,
      dt_val_len := dt_val_len d,
      dt_meta := (dt_meta ?old)\<lparr>vm_semantic := vm_semantic (dt_meta d), vm_classifier := hi, vm_relation_id := vm_relation_id (dt_meta d)\<rparr>\<rparr>"
  let ?outs = "[OutD (wire_double (tm_pack (dt_time d))), OutD (wire_double (tm_send (dt_time d))), OutI (dt_val_len d),
      OutL (wide_arg hi (vm_semantic (dt_meta d))), OutG (vm_relation_id (dt_meta d))]"
  have el: "sint (word_of_nat i :: i32) = int i" using f(1) by (rule sint_word_of_nat_small)
  have at: "pub_data_at s (int i) = Inr ?old" using f(3) by (simp add: pub_data_at_def)
  have "reads (unpack_fields ''ddilg'' [DestD, DestD, DestI, DestL, DestG]) (encode (tl (data_args hi x))) ?outs"
    using data_args_ok [OF assms(1), of hi] by (intro reads_fields) (simp_all add: data_args_def x)
  moreover have "data_of_outs ?old ?outs = Inr ?d1" by (simp add: data_of_outs_def store_wide_arg)
  moreover have "reads (data_val_from_buffer ?d1) (encode [val_arg (dt_val d)]) (?d1\<lparr>dt_val := val_received (dt_val_len d) (dt_val d)\<rparr>)"
    using data_val_reads [of ?d1 "dt_val d"] f(2,4,5) by simp
  moreover have "data_taken hi x s =
      pub_set_data s (int i) (?d1\<lparr>dt_val := val_received (dt_val_len d) (dt_val d), dt_state := val_state_code SOS_VAL_STATE_CLEAN\<rparr>)"
    by (simp add: data_taken_def data_update_def x)
  ultimately have "reads (\<lambda>bo. bindR (unpack_fields ''ddilg'' [DestD, DestD, DestI, DestL, DestG] bo) (\<lambda>(b, offset, outs).
         bindR (data_of_outs ?old outs) (\<lambda>d.
         bindR (data_val_from_buffer d (b, offset)) (\<lambda>(b, offset, d).
         Inr (b, offset, pub_set_data s (int i) (d\<lparr>dt_state := val_state_code SOS_VAL_STATE_CLEAN\<rparr>))))))
      (encode (tl (data_args hi x)) @ encode [val_arg (dt_val d)] @ []) (data_taken hi x s)"
    by (intro reads_bind [where x = ?outs]) (simp_all add: reads_def)
  moreover have "reads (unpack_fields ''i'' [DestI]) (encode [ArgI (word_of_nat i)]) [OutI (word_of_nat i)]"
    by (intro reads_fields) simp_all
  ultimately have "reads (\<lambda>bo. data_from_buffer (fst bo, snd bo, s))
      (encode [ArgI (word_of_nat i)] @ encode (tl (data_args hi x)) @ encode [val_arg (dt_val d)] @ []) (data_taken hi x s)"
    unfolding data_from_buffer_def prod.case prod.collapse
    by (intro reads_bind [where x = "[OutI (word_of_nat i)]"]) (simp_all add: el at)
  then show ?thesis by (simp add: data_enc_def data_args_def x)
qed

interpretation data_codec: record_codec "data_to_buffer hi" "\<lambda>_. data_from_buffer" "data_enc hi" data_fits
    "\<lambda>_. data_takes" "\<lambda>_. data_taken hi"
  for hi
  by unfold_locales (auto intro: data_put data_get)

end
