(* ===== verification/SOS_Exchange.thy ===== *)
theory SOS_Exchange
  imports SOS_Codec
begin

text \<open>
  Whole messages between a client and its daemon: what the client's calls put into a message and
  what the daemon's handle holds after applying it. \<open>mirrors\<close> relates a publication to the
  daemon's handle of it.
\<close>

section \<open>Whole messages\<close>

lemma queue_push_many:
  assumes "queue_ok mincap q" and "length (pipe_content (sq_pipe q)) + length snaps + 1 \<le> mincap"
  shows "\<exists>q'. snap_queue_push mincap q snaps = Inr q' \<and> queue_ok mincap q' \<and>
    pipe_content (sq_pipe q') = pipe_content (sq_pipe q) @ snaps"
proof -
  have q: "ring_ok mincap (sq_pipe q)" "pp_elem_size (sq_pipe q) = 1" "\<not> sq_sync_lock q" using assms(1) by (auto simp: queue_ok_def)
  then have "pp_bufend (sq_pipe q) = mincap" by (simp add: ring_ok_def)
  then have fits: "length (pipe_content (sq_pipe q)) + length snaps \<le> pp_bufend (sq_pipe q) - pp_elem_size (sq_pipe q)"
    using q(2) assms(2) by simp
  obtain p where p: "pipe_push mincap zero_snap (sq_pipe q) snaps (length snaps) = Inr p" "ring_ok mincap p"
      "pipe_content p = pipe_content (sq_pipe q) @ snaps" "pipe_conf p = pipe_conf (sq_pipe q)"
    using pipe_q.push_ok [OF q(1), of snaps zero_snap] q(2) fits by (auto simp: pipe_conf_def)
  have "length (pipe_content p) = length (pipe_content (sq_pipe q)) + length snaps" by (simp only: p(3) length_append)
  with p q show ?thesis
    using assms(1) unfolding queue_ok_def
    by (simp add: snap_queue_push_def pipe_conf_def del: length_pipe_content)
qed

lemma pipe_pop_everything:
  assumes "ring_ok mincap p" and "pipe_content p \<noteq> []" and "pp_elem_size p = 1"
  shows "\<exists>p'. pipe_pop mincap junk p (length (pipe_content p)) = Inr (p', pipe_content p) \<and> ring_ok mincap p' \<and>
    pipe_content p' = [] \<and> pp_elem_size p' = 1"
proof -
  let ?k = "length (pipe_content p)"
  have "0 < ?k" using assms(2) by (simp del: length_pipe_content)
  then obtain p' where "pipe_pop_bytes mincap junk p ?k = Inr (p', take ?k (pipe_content p))" "ring_ok mincap p'"
      "pipe_content p' = drop ?k (pipe_content p)" "pp_elem_size p' = pp_elem_size p"
    using pipe_pop_ok [OF assms(1,2), of ?k junk] assms(3) by auto
  then show ?thesis
    using assms(3) by (simp add: pipe_pop_def pipe_pop_loop.simps [of _ _ p] del: length_pipe_content)
qed

definition snaps_body :: "(nat \<Rightarrow> c_double) \<Rightarrow> SOS_val_snap list \<Rightarrow> byte list" where
  "snaps_body clock snaps = encode [ArgI (word_of_nat (length snaps))] @ concat (map (snap_enc clock) (zip [0..<length snaps] snaps))"

text \<open>A buffer a message can be built in.\<close>

definition fresh_msg :: "SOS_buffer \<Rightarrow> bool" where
  "fresh_msg b \<longleftrightarrow> building b 0 [] \<and> \<not> buf_lock b"

text \<open>A finished message: its header, with the size, and its body, in a buffer of any size. One that was just written is
  also \<open>roomy\<close>: the next message can be built in it.\<close>

definition is_msg :: "SOS_msg_header \<Rightarrow> byte list \<Rightarrow> SOS_buffer \<Rightarrow> bool" where
  "is_msg header e b \<longleftrightarrow>
     holding b (24 + length e) (encode (header_args (header\<lparr>hd_msg_size := word_of_nat (24 + length e)\<rparr>)) @ e) \<and>
     buf_len b = 24 + length e \<and> \<not> buf_lock b"

definition roomy :: "SOS_buffer \<Rightarrow> bool" where
  "roomy b \<longleftrightarrow> SOS_DEFAULT_BUFFER_MAX \<le> buf_max b \<and> buf_max b \<le> 3 * MSG_LIMIT + 3"

lemma building_is_msg:
  assumes "building b (24 + length e) (encode (header_args (header\<lparr>hd_msg_size := word_of_nat (24 + length e)\<rparr>)) @ e)" and "\<not> buf_lock b"
  shows "is_msg header e b" and "roomy b"
  using assms building_holding [OF assms(1)] by (auto simp: is_msg_def roomy_def building_def)

lemma write_msg_roomy:
  assumes "fresh_msg buffer" and "appends body e" and "24 + length e \<le> MSG_LIMIT"
  shows "\<exists>b. write_msg header body buffer = Inr b \<and> is_msg header e b \<and> buf_is_locking b = buf_is_locking buffer \<and> roomy b"
proof -
  obtain b where b: "write_msg header body buffer = Inr b"
      "building b (24 + length e) (encode (header_args (header\<lparr>hd_msg_size := word_of_nat (24 + length e)\<rparr>)) @ e)"
      "\<not> buf_lock b" "buf_is_locking b = buf_is_locking buffer"
    using write_msg_ok [of buffer body e header] assms unfolding fresh_msg_def by metis
  then show ?thesis using building_is_msg [OF b(2,3)] by blast
qed

lemma write_msg_is_msg:
  assumes "fresh_msg buffer" and "appends body e" and "24 + length e \<le> MSG_LIMIT"
  shows "\<exists>b. write_msg header body buffer = Inr b \<and> is_msg header e b \<and> buf_is_locking b = buf_is_locking buffer"
  using write_msg_roomy [OF assms] by blast

lemma unzip_is_msg:
  assumes "is_msg header e b"
  shows "\<exists>b'. SOS_msg_unzip b 0 = Inr (b', header\<lparr>hd_msg_size := word_of_nat (24 + length e)\<rparr>, 24) \<and> is_msg header e b' \<and>
    buf_is_locking b' = buf_is_locking b"
proof -
  let ?h = "header\<lparr>hd_msg_size := word_of_nat (24 + length e)\<rparr>" and ?b = "msg_unlock (b\<lparr>buf_is_zipped := False\<rparr>)"
  have h: "holding b (24 + length e) (encode (header_args ?h) @ e)" "\<not> buf_lock b" "buf_len b = 24 + length e"
    using assms by (auto simp: is_msg_def)
  have "holding ?b (24 + length e) (encode (header_args ?h) @ e)" using h(1) by simp
  then have "SOS_msg_unzip b 0 = Inr (?b, ?h, 24)" "is_msg header e ?b"
    using SOS_msg_unzip_held [OF h(1)] h(2,3) by (simp_all add: is_msg_def msg_unlock_def)
  then show ?thesis by (intro exI [of _ ?b]) (simp add: msg_unlock_def)
qed

text \<open>Reading a part of the body of a message.\<close>

lemma read_body:
  assumes "is_msg header (xs @ e @ zs) b" and "reads r e x"
  shows "r (b, 24 + length xs) = Inr (b, 24 + length xs + length e, x)"
proof -
  let ?h = "header\<lparr>hd_msg_size := word_of_nat (24 + length (xs @ e @ zs))\<rparr>"
  have "holding b (24 + length (xs @ e @ zs)) ((encode (header_args ?h) @ xs) @ e @ zs)"
    using assms(1) by (simp add: is_msg_def)
  from readsD [OF assms(2) this] show ?thesis by simp
qed

lemma read_body_start:
  "is_msg header (e @ zs) b \<Longrightarrow> reads r e x \<Longrightarrow> r (b, 24) = Inr (b, 24 + length e, x)"
  using read_body [of header "[]" e zs b r x] by simp

text \<open>
  Where a message has to outlive the buffer it was received in, its bytes are copied into a block of its own that is one
  byte larger.
\<close>

definition msg_copy :: "i32 \<Rightarrow> SOS_buffer \<Rightarrow> SOS_buffer res" where
  "msg_copy msg_size b =
     checkR (0 \<le> sint msg_size) Out_Of_Bounds
       (checkR (sint msg_size < int INT_MAX) Size_Overflow
          (let n = nat (sint msg_size); c = SOS_buffer_init_sized_locking (n + 1) False
           in bindR (mem_read 0 n (buf_data b)) (\<lambda>bs.
              bindR (mem_write 0 bs (buf_data c)) (\<lambda>d.
              Inr (c\<lparr>buf_data := d, buf_len := n\<rparr>)))))"

lemma msg_copy_ok:
  assumes "is_msg header e b" and "24 + length e \<le> MSG_LIMIT"
  shows "\<exists>c. msg_copy (word_of_nat (24 + length e)) b = Inr c \<and> is_msg header e c \<and> \<not> buf_is_locking c"
proof -
  let ?n = "24 + length e" and ?bs = "encode (header_args (header\<lparr>hd_msg_size := word_of_nat (24 + length e)\<rparr>)) @ e"
  have n: "sint (word_of_nat ?n :: i32) = int ?n"
    using assms(2) by (intro sint_word_of_nat_small) (simp add: MSG_LIMIT_def)
  have b: "buffer_wf b" "take ?n (buf_data b) = ?bs" "length ?bs = ?n" using assms(1) by (simp_all add: is_msg_def holding_def packed_prefix_def)
  have "?n \<le> length (buf_data b)" using arg_cong [OF b(2), of length] b(3) by (simp del: encode_simps)
  then have r: "mem_read 0 ?n (buf_data b) = Inr ?bs" using b(2) by (simp add: mem_read_def del: encode_simps)
  let ?c = "(SOS_buffer_init_sized_locking (?n + 1) False)\<lparr>buf_data := ?bs @ [0], buf_len := ?n\<rparr>"
  have w: "mem_write 0 ?bs (buf_data (SOS_buffer_init_sized_locking (?n + 1) False)) = Inr (?bs @ [0])"
    using b(3) by (simp add: mem_write_def SOS_buffer_init_sized_locking_def del: encode_simps)
  have lim: "int ?n < int INT_MAX" "0 \<le> int ?n" using assms(2) by (simp_all add: MSG_LIMIT_def INT_MAX_def)
  have "msg_copy (word_of_nat ?n) b = Inr ?c"
    unfolding msg_copy_def n Let_def nat_int checkR_True [OF lim(1)] checkR_True [OF lim(2)] r w bindR.simps by (rule refl)
  moreover have "is_msg header e ?c"
    using b(3) lim(1) by (simp add: is_msg_def holding_def packed_prefix_def buffer_wf_def SOS_buffer_init_sized_locking_def del: encode_simps)
  ultimately show ?thesis by (intro exI [of _ ?c]) (simp add: SOS_buffer_init_sized_locking_def)
qed

subsection \<open>Snapshots\<close>

lemma snaps_to_buffer_ok:
  assumes "pb_snap_queue pub = Some q" and "queue_ok (cx_mincap cx) q" and "queued pub \<noteq> []" and "fresh_msg buffer"
    and "\<forall>x \<in> set (zip [0..<length (queued pub)] (queued pub)). snap_fits clock pub x"
    and "24 + length (snaps_body clock (queued pub)) \<le> MSG_LIMIT"
  shows "\<exists>q' b. SOS_val_snap_queue_to_buffer cx clock pub buffer = Inr (pub\<lparr>pb_snap_queue := Some q'\<rparr>, b) \<and>
    queue_ok (cx_mincap cx) q' \<and> pipe_content (sq_pipe q') = [] \<and> buf_is_locking b = buf_is_locking buffer \<and>
    is_msg (msg_header_of SOS_MSG_TYPE_VAL_SNAPS (cx_my_guid cx) (pb_guid pub)) (snaps_body clock (queued pub)) b"
proof -
  let ?snaps = "queued pub" and ?n = "length (queued pub)"
  have content: "pipe_content (sq_pipe q) = ?snaps" using assms(1) by (simp add: queued_def)
  have q: "ring_ok (cx_mincap cx) (sq_pipe q)" "pp_elem_size (sq_pipe q) = 1" "sq_elem_count q = int ?n" "\<not> sq_sync_lock q"
    using assms(2) content by (auto simp: queue_ok_def)
  obtain p where p: "pipe_pop (cx_mincap cx) zero_snap (sq_pipe q) ?n = Inr (p, ?snaps)" "ring_ok (cx_mincap cx) p" "pipe_content p = []"
      "pp_elem_size p = 1"
    using pipe_pop_everything [OF q(1) _ q(2), of zero_snap] assms(3) content by auto
  let ?q = "q\<lparr>sq_pipe := p, sq_elem_count := 0\<rparr>"
  let ?pub = "pub\<lparr>pb_snap_queue := Some ?q\<rparr>"
  have "snap_fits clock ?pub = snap_fits clock pub" by (simp add: snap_fits_def fun_eq_iff)
  then have "appends (foldR (snap_to_buffer clock ?pub) (zip [0..<?n] ?snaps)) (concat (map (snap_enc clock) (zip [0..<?n] ?snaps)))"
    by (intro snap_codec.puts_append) (use assms(5) in simp)
  moreover have "appends (pack_fields ''i'' [ArgI (word_of_nat ?n)]) (encode [ArgI (word_of_nat ?n)])"
    by (rule appends_fields) (simp_all add: SOS_DEFAULT_BUFFER_MAX_def)
  ultimately have "appends (\<lambda>bo. bindR (pack_fields ''i'' [ArgI (word_of_nat ?n)] bo) (foldR (snap_to_buffer clock ?pub) (zip [0..<?n] ?snaps)))
      (snaps_body clock ?snaps)"
    unfolding snaps_body_def by (intro appends_seq)
  from write_msg_is_msg [OF assms(4) this assms(6), of "msg_header_of SOS_MSG_TYPE_VAL_SNAPS (cx_my_guid cx) (pb_guid ?pub)"]
  obtain b where b: "write_msg (msg_header_of SOS_MSG_TYPE_VAL_SNAPS (cx_my_guid cx) (pb_guid ?pub))
      (\<lambda>bo. bindR (pack_fields ''i'' [ArgI (word_of_nat ?n)] bo) (foldR (snap_to_buffer clock ?pub) (zip [0..<?n] ?snaps))) buffer = Inr b"
      "is_msg (msg_header_of SOS_MSG_TYPE_VAL_SNAPS (cx_my_guid cx) (pb_guid ?pub)) (snaps_body clock ?snaps) b"
      "buf_is_locking b = buf_is_locking buffer" by blast
  have "0 < ?n" using assms(3) by simp
  moreover have "queue_ok (cx_mincap cx) ?q" using p q(4) assms(2) by (auto simp: queue_ok_def simp flip: length_pipe_content)
  ultimately show ?thesis
    using assms(1) q(3,4) p b by (auto simp: SOS_val_snap_queue_to_buffer_def Let_def)
qed

lemma map_snd_numbered: "length as = length xs \<Longrightarrow> map (\<lambda>p. f (snd p)) (zip as xs) = map f xs"
  by (induction as xs rule: list_induct2) simp_all

lemma snap_takes_all: "snap_codec.takes_all clock dpub kxs ss"
  by (induction kxs arbitrary: ss) auto

lemma snap_upd_all: "snap_codec.upd_all clock dpub kxs ss = ss @ map (\<lambda>kx. snap_received clock (pb_guid dpub) (snd kx)) kxs"
  by (induction kxs arbitrary: ss) (auto simp: snap_codec.upd_all_def)

lemma snap_enc_length: "4 \<le> length (snap_enc clock x)"
  by (cases x) (simp add: snap_enc_def snap_args_def)

lemma snaps_body_length: "length snaps \<le> length (snaps_body clock snaps)"
proof -
  have "length xs \<le> length (concat (map (snap_enc clock) xs))" for xs :: "(nat \<times> SOS_val_snap) list"
  proof (induction xs)
    case (Cons x xs)
    then show ?case using snap_enc_length [of clock x] by simp
  qed simp
  from this [of "zip [0..<length snaps] snaps"] show ?thesis by (simp add: snaps_body_def)
qed

text \<open>The copy of a received snapshot that goes into the cache.\<close>

definition cached_copy :: "c_double \<Rightarrow> SOS_val_snap \<Rightarrow> SOS_val_snap" where
  "cached_copy now s =
     s\<lparr>sn_val := (case sn_val s of Val_c (Some blk) \<Rightarrow> Val_c (Some (cstr blk @ [0])) | v \<Rightarrow> v),
       sn_time := (sn_time s)\<lparr>tm_recv := now\<rparr>\<rparr>"

lemma snap_copy_received:
  assumes "snap_fits clock pub x"
  shows "snap_copy now (snap_received clock guid x) = Inr (cached_copy now (snap_received clock guid x))"
proof -
  obtain i s where x: "x = (i, s)" by (cases x)
  have "val_sendable (sn_type s) (sn_val s) (sn_val_len s)" using assms by (simp add: snap_fits_def x)
  then show ?thesis
    unfolding val_sendable_def
    by (elim disjE conjE exE)
      (auto simp: snap_copy_def cached_copy_def snap_received_def x SOS_val_type_enum.decode_code cstr_append_NUL)
qed

lemma snap_copies_ok:
  "\<forall>s \<in> set ss. \<forall>now. snap_copy now s = Inr (cached_copy now s) \<Longrightarrow>
   snap_copies clock i ss = Inr (map (\<lambda>(i, s). cached_copy (clock i) s) (zip [i..<i + length ss] ss))"
proof (induction ss arbitrary: i)
  case (Cons s ss)
  have "[i..<i + length (s # ss)] = i # [Suc i..<Suc i + length ss]" by (simp add: upt_rec)
  then show ?case using Cons by simp
qed simp

lemma snaps_from_buffer_ok:
  assumes "is_msg header (snaps_body clock snaps) b" and "snaps \<noteq> []" and "24 + length (snaps_body clock snaps) \<le> MSG_LIMIT"
    and "\<forall>x \<in> set (zip [0..<length snaps] snaps). snap_fits clock pub x"
    and "queue_ok mincap dq" and "length (pipe_content (sq_pipe dq)) + length snaps + 1 \<le> mincap"
    and "adds_to_cache dpub \<longrightarrow> cache_ok dpub"
  defines "rs \<equiv> map (snap_received clock (pb_guid dpub)) (zip [0..<length snaps] snaps)"
  shows "\<exists>b' dq' dpub'. SOS_val_snap_queue_from_buffer mincap clock' b (Some dq) (Some dpub) = Inr (b', Some dq', Some dpub') \<and>
    is_msg header (snaps_body clock snaps) b' \<and> queue_ok mincap dq' \<and> pipe_content (sq_pipe dq') = pipe_content (sq_pipe dq) @ rs \<and>
    (if adds_to_cache dpub
     then cache_ok dpub' \<and>
       cache_frames dpub' = Chain (map (\<lambda>(i, s). cached_copy (clock' i) s) (zip [0..<length snaps] rs)) # butlast (cache_frames dpub)
     else dpub' = dpub)"
proof -
  let ?n = "length snaps" and ?xs = "zip [0..<length snaps] snaps"
  let ?cs = "map (\<lambda>(i, s). cached_copy (clock' i) s) (zip [0..<?n] rs)"
  obtain b' where b': "SOS_msg_unzip b 0 = Inr (b', header\<lparr>hd_msg_size := word_of_nat (24 + length (snaps_body clock snaps))\<rparr>, 24)"
      "is_msg header (snaps_body clock snaps) b'"
    using unzip_is_msg [OF assms(1)] by blast
  have "?n < 2 ^ 31" using snaps_body_length [of snaps clock] assms(3) by (simp add: MSG_LIMIT_def)
  then have n: "sint (word_of_nat ?n :: i32) = int ?n" by (rule sint_word_of_nat_small)
  have n0: "\<not> int ?n < 1" using assms(2) by (cases snaps) simp_all
  have "reads (unpack_fields ''i'' [DestI]) (encode [ArgI (word_of_nat ?n)]) [OutI (word_of_nat ?n)]"
    by (intro reads_fields) simp_all
  from read_body_start [OF b'(2) [unfolded snaps_body_def] this]
  have count: "unpack_fields ''i'' [DestI] (b', 24) = Inr (b', 28, [OutI (word_of_nat ?n)])" by simp
  have "snap_fits clock pub (snd kx)" if "kx \<in> set (zip [0..<?n] ?xs)" for kx
    using that assms(4) by (metis prod.collapse set_zip_rightD)
  then have all: "\<forall>kx \<in> set (zip [0..<?n] ?xs). snap_fits clock pub (snd kx)" by blast
  have "reads (\<lambda>bo. foldR (\<lambda>_. snap_step dpub) (map fst (zip [0..<?n] ?xs)) (fst bo, snd bo, []))
      (concat (map (\<lambda>kx. snap_enc clock (snd kx)) (zip [0..<?n] ?xs))) (snap_codec.upd_all clock dpub (zip [0..<?n] ?xs) [])"
    by (rule snap_codec.gets_read [where kxs = "zip [0..<?n] ?xs" and s = "[]" and pub = pub and clock = clock and dpub = dpub, OF all snap_takes_all])
  moreover have "map fst (zip [0..<?n] ?xs) = [0..<?n]" "map (\<lambda>kx. snap_enc clock (snd kx)) (zip [0..<?n] ?xs) = map (snap_enc clock) ?xs"
    "map (\<lambda>kx. snap_received clock (pb_guid dpub) (snd kx)) (zip [0..<?n] ?xs) = rs"
    by (simp_all add: rs_def map_snd_numbered)
  ultimately have "reads (snaps_from_buffer dpub ?n) (concat (map (snap_enc clock) ?xs)) rs"
    by (simp add: snaps_from_buffer_def [abs_def] snap_upd_all)
  from read_body [of header "encode [ArgI (word_of_nat ?n)]" "concat (map (snap_enc clock) ?xs)" "[]" b', OF _ this]
  have body: "snaps_from_buffer dpub ?n (b', 28) = Inr (b', 28 + length (concat (map (snap_enc clock) ?xs)), rs)"
    using b'(2) by (simp add: snaps_body_def)
  have lr: "length rs = ?n" by (simp add: rs_def)
  obtain dq' where q: "snap_queue_push mincap dq rs = Inr dq'" "queue_ok mincap dq'" "pipe_content (sq_pipe dq') = pipe_content (sq_pipe dq) @ rs"
    using queue_push_many [OF assms(5), of rs] assms(6) lr by auto
  have "\<forall>s \<in> set rs. \<forall>now. snap_copy now s = Inr (cached_copy now s)"
    using snap_copy_received assms(4) by (auto simp: rs_def)
  then have copies: "snap_copies clock' 0 rs = Inr ?cs" using snap_copies_ok [of rs clock' 0] lr by simp
  have cs: "?cs \<noteq> []" using assms(2) lr by (cases rs) auto
  show ?thesis
  proof (cases "adds_to_cache dpub")
    case True
    then obtain dpub' where "SOS_pack_snap_list_into_pub_cache dpub ?cs = Inr dpub'" "cache_ok dpub'"
        "cache_frames dpub' = Chain ?cs # butlast (cache_frames dpub)"
      using cache_insert_ok [OF _ cs] assms(7) by blast
    then show ?thesis
      using True b' count body q copies n n0 by (simp add: SOS_val_snap_queue_from_buffer_def)
  next
    case False
    then show ?thesis
      using b' count body q n n0 by (simp add: SOS_val_snap_queue_from_buffer_def)
  qed
qed

subsection \<open>Announcements\<close>

definition pub_strings :: "SOS_pub \<Rightarrow> byte list list" where
  "pub_strings pub = [pb_node_id pub, pb_prog_name pub, pb_prog_ver pub, pb_pragma_msg pub, pb_title pub]"

text \<open>A publication whose strings are terminated.\<close>

definition announceable :: "SOS_pub \<Rightarrow> bool" where
  "announceable pub \<longleftrightarrow>
     (\<forall>a \<in> set (pub_strings pub). name_fits a) \<and> 0 \<le> pb_elem_count pub \<and> pb_elem_count pub \<le> int (length (pb_data pub)) \<and>
     pb_elem_count pub + 2048 \<le> int INT_MAX \<and>
     (\<forall>d \<in> set (take (nat (pb_elem_count pub)) (pb_data pub)). name_fits (dt_name d))"

definition meta_args :: "SOS_pub \<Rightarrow> pack_arg list" where
  "meta_args pub =
     [ArgS (cstr (pb_node_id pub)), ArgI (pb_process_id pub), ArgI (pb_thread_id pub), ArgI (pb_comm_rank pub),
      ArgS (cstr (pb_prog_name pub)), ArgS (cstr (pb_prog_ver pub)), ArgI (pb_pragma_len pub), ArgS (cstr (pb_pragma_msg pub)),
      ArgS (cstr (pb_title pub)), ArgI (word_of_int (pb_elem_count pub)), ArgI (pm_channel (pb_meta pub)), ArgI (pm_layer (pb_meta pub)),
      ArgI (pm_nature (pb_meta pub)), ArgI (pm_pri_hint (pb_meta pub)), ArgI (pm_scope_hint (pb_meta pub)),
      ArgI (pm_retain_hint (pb_meta pub)), ArgI (pb_cache_depth pub)]"

definition pub_used :: "SOS_pub \<Rightarrow> SOS_data list" where
  "pub_used pub = take (nat (pb_elem_count pub)) (pb_data pub)"

definition announce_body :: "SOS_pub \<Rightarrow> byte list" where
  "announce_body pub = encode (meta_args pub) @ concat (map (\<lambda>d. encode (elem_args d)) (pub_used pub))"

lemma name_fits_length: "name_fits a \<Longrightarrow> length (cstr a) \<le> 255"
  using length_cstr_less [of a] by (auto simp: name_fits_def SOS_DEFAULT_STRING_LEN_def)

lemma announceable_strings:
  assumes "announceable pub"
  shows "name_fits (pb_node_id pub)" "name_fits (pb_prog_name pub)" "name_fits (pb_prog_ver pub)" "name_fits (pb_pragma_msg pub)"
    "name_fits (pb_title pub)"
  using assms by (auto simp: announceable_def pub_strings_def)

lemma announce_args_ok: "announceable pub \<Longrightarrow> announce_args pub = Inr (meta_args pub)"
  using announceable_strings [of pub]
  by (simp add: announce_args_def array_args_def array_arg_def name_fits_def meta_args_def)

lemma meta_args_fit:
  assumes "announceable pub"
  shows "\<forall>a \<in> set (meta_args pub). arg_ok a" and "length (encode (meta_args pub)) \<le> SOS_DEFAULT_BUFFER_MAX div 2"
  using announceable_strings [OF assms, THEN name_fits_length]
  by (auto simp: meta_args_def INT_MAX_def SOS_DEFAULT_BUFFER_MAX_def)

lemma pub_elems_ok: "announceable pub \<Longrightarrow> pub_elems pub = Inr (pub_used pub)"
  by (auto simp: pub_elems_def pub_used_def mem_read_def announceable_def nat_le_iff)

lemma announce_to_buffer_ok:
  assumes "announceable pub" and "fresh_msg buffer" and "24 + length (announce_body pub) \<le> MSG_LIMIT"
  shows "\<exists>b. SOS_announce_to_buffer cx pub buffer = Inr (pub\<lparr>pb_announced := 1\<rparr>, b) \<and> buf_is_locking b = buf_is_locking buffer \<and>
    is_msg (msg_header_of SOS_MSG_TYPE_ANNOUNCE (cx_my_guid cx) (pb_guid pub)) (announce_body pub) b"
proof -
  have "\<forall>d \<in> set (pub_used pub). name_fits (dt_name d)" using assms(1) by (auto simp: announceable_def pub_used_def)
  then have "appends (foldR elem_to_buffer (pub_used pub)) (concat (map (\<lambda>d. encode (elem_args d)) (pub_used pub)))"
    by (rule elem_codec.puts_append)
  moreover have "appends (pack_fields ''siiississiiiiiiii'' (meta_args pub)) (encode (meta_args pub))"
    by (rule appends_fields [OF _ meta_args_fit [OF assms(1)]]) (simp add: meta_args_def)
  ultimately have "appends (\<lambda>bo. bindR (pack_fields ''siiississiiiiiiii'' (meta_args pub) bo) (foldR elem_to_buffer (pub_used pub)))
      (announce_body pub)"
    unfolding announce_body_def by (intro appends_seq)
  from write_msg_is_msg [OF assms(2) this assms(3), of "msg_header_of SOS_MSG_TYPE_ANNOUNCE (cx_my_guid cx) (pb_guid pub)"] show ?thesis
    using announce_args_ok [OF assms(1)] pub_elems_ok [OF assms(1)] by (auto simp: SOS_announce_to_buffer_def)
qed

text \<open>A string written over an array: what lies behind it in the array stays.\<close>

definition overlay :: "byte list \<Rightarrow> byte list \<Rightarrow> byte list" where
  "overlay a old = cstr a @ drop (length (cstr a)) old"

definition meta_received :: "u64 \<Rightarrow> SOS_pub \<Rightarrow> SOS_pub \<Rightarrow> SOS_pub" where
  "meta_received guid pub old =
     old\<lparr>pb_lock := True, pb_guid := guid, pb_guid_str := snprintf_array SOS_DEFAULT_STRING_LEN (guid_str guid) (pb_guid_str old),
         pb_node_id := overlay (pb_node_id pub) (pb_node_id old), pb_process_id := pb_process_id pub, pb_thread_id := pb_thread_id pub,
         pb_comm_rank := pb_comm_rank pub, pb_prog_name := overlay (pb_prog_name pub) (pb_prog_name old),
         pb_prog_ver := overlay (pb_prog_ver pub) (pb_prog_ver old), pb_pragma_len := pb_pragma_len pub,
         pb_pragma_msg := overlay (pb_pragma_msg pub) (pb_pragma_msg old), pb_title := overlay (pb_title pub) (pb_title old),
         pb_meta := \<lparr>pm_channel = pm_channel (pb_meta pub), pm_nature = pm_nature (pb_meta pub), pm_layer = pm_layer (pb_meta pub),
                    pm_pri_hint = pm_pri_hint (pb_meta pub), pm_scope_hint = pm_scope_hint (pb_meta pub),
                    pm_retain_hint = pm_retain_hint (pb_meta pub)\<rparr>,
         pb_cache_depth := pb_cache_depth pub,
         pb_cache := (case pb_cache old of None \<Rightarrow> alloc_cache (pb_cache_depth pub) | Some c \<Rightarrow> Some c)\<rparr>"

definition grow_elems :: "int \<Rightarrow> SOS_pub \<Rightarrow> SOS_pub" where
  "grow_elems n pub =
     (let k = (if pb_elem_max pub < n then (nat (n - pb_elem_max pub) + 1023) div 1024 * 1024 else 0)
      in pub\<lparr>pb_data := pb_data pub @ replicate k new_data, pb_elem_max := pb_elem_max pub + int k\<rparr>)"

lemma pub_grow_to_ok: "n + 1024 \<le> int INT_MAX \<Longrightarrow> pub_grow_to n pub = Inr (grow_elems n pub)"
proof (induction n pub rule: pub_grow_to.induct)
  case (1 n pub)
  show ?case
  proof (cases "pb_elem_max pub < n")
    case True
    let ?p = "pub\<lparr>pb_data := pb_data pub @ replicate 1024 new_data, pb_elem_max := pb_elem_max pub + 1024\<rparr>"
    let ?d = "nat (n - pb_elem_max pub)"
    have e: "SOS_expand_data pub = Inr ?p" using True 1(2) by (simp add: SOS_expand_data_def SOS_DEFAULT_ELEM_MAX_def)
    then have r: "pub_grow_to n pub = Inr (grow_elems n ?p)" using True 1 by (subst pub_grow_to.simps) simp
    have step: "(?d + 1023) div 1024 = Suc ((if pb_elem_max ?p < n then (nat (n - pb_elem_max ?p) + 1023) div 1024 else 0))"
    proof (cases "pb_elem_max ?p < n")
      case True
      then have "?d + 1023 = nat (n - pb_elem_max ?p) + 1023 + 1024" by simp
      then show ?thesis using True by simp
    next
      case False
      then have "1024 \<le> ?d + 1023" "?d + 1023 < 2048" using \<open>pb_elem_max pub < n\<close> by auto
      then have "(?d + 1023) div 1024 = 1" by (intro div_nat_eqI) simp_all
      then show ?thesis using False by simp
    qed
    have "grow_elems n ?p = grow_elems n pub"
      using step True by (auto simp: grow_elems_def Let_def replicate_add [symmetric] simp del: replicate_add)
    then show ?thesis using r by simp
  next
    case False
    then show ?thesis by (subst pub_grow_to.simps) (simp add: grow_elems_def)
  qed
qed


lemma elem_taken_sel [simp]:
  "length (pb_data (elem_taken k d pub)) = length (pb_data pub)"
  "pb_lock (elem_taken k d pub) = pb_lock pub"
  "pb_elem_count (elem_taken k d pub) = pb_elem_count pub"
  by (simp_all add: elem_taken_def Let_def)

lemma elems_take_all:
  "\<forall>kx \<in> set kxs. fst kx < length (pb_data pub) \<Longrightarrow> elem_codec.takes_all kxs pub"
  by (induction kxs arbitrary: pub) auto

lemma meta_outs:
  assumes "announceable pub" and "\<forall>a \<in> set (pub_strings old). length a = SOS_DEFAULT_STRING_LEN"
  shows "outs_of (meta_args pub)
      [DestS (Some (pb_node_id old)), DestI, DestI, DestI, DestS (Some (pb_prog_name old)), DestS (Some (pb_prog_ver old)), DestI,
       DestS (Some (pb_pragma_msg old)), DestS (Some (pb_title old)), DestI, DestI, DestI, DestI, DestI, DestI, DestI, DestI] =
    Some [OutS (Some (overlay (pb_node_id pub) (pb_node_id old))), OutI (pb_process_id pub), OutI (pb_thread_id pub),
      OutI (pb_comm_rank pub), OutS (Some (overlay (pb_prog_name pub) (pb_prog_name old))),
      OutS (Some (overlay (pb_prog_ver pub) (pb_prog_ver old))), OutI (pb_pragma_len pub),
      OutS (Some (overlay (pb_pragma_msg pub) (pb_pragma_msg old))), OutS (Some (overlay (pb_title pub) (pb_title old))),
      OutI (word_of_int (pb_elem_count pub)), OutI (pm_channel (pb_meta pub)), OutI (pm_layer (pb_meta pub)),
      OutI (pm_nature (pb_meta pub)), OutI (pm_pri_hint (pb_meta pub)), OutI (pm_scope_hint (pb_meta pub)),
      OutI (pm_retain_hint (pb_meta pub)), OutI (pb_cache_depth pub)]"
  using announceable_strings [OF assms(1), THEN name_fits_length] assms(2)
  by (simp add: meta_args_def overlay_def pub_strings_def SOS_DEFAULT_STRING_LEN_def)

text \<open>The handle of the daemon after an announcement.\<close>

definition announced :: "u64 \<Rightarrow> SOS_pub \<Rightarrow> SOS_pub \<Rightarrow> SOS_pub" where
  "announced guid pub old =
     (fold (\<lambda>(k, d). elem_taken k d) (zip [0..<length (pub_used pub)] (pub_used pub))
        ((grow_elems (pb_elem_count pub) (meta_received guid pub old))\<lparr>pb_elem_count := pb_elem_count pub\<rparr>))\<lparr>pb_lock := False\<rparr>"

lemma announce_from_buffer_ok:
  assumes "is_msg header (announce_body pub) b" and "announceable pub" and "\<not> pb_lock old"
    and "\<forall>a \<in> set (pub_strings old). length a = SOS_DEFAULT_STRING_LEN" and "pb_elem_max old = int (length (pb_data old))"
  shows "\<exists>b'. SOS_announce_from_buffer b old = Inr (b', announced (hd_ref_guid header) pub old) \<and> is_msg header (announce_body pub) b'"
proof -
  let ?guid = "hd_ref_guid header" and ?n = "pb_elem_count pub" and ?ds = "pub_used pub"
  let ?old1 = "old\<lparr>pb_lock := True, pb_guid := ?guid, pb_guid_str := snprintf_array SOS_DEFAULT_STRING_LEN (guid_str ?guid) (pb_guid_str old)\<rparr>"
  let ?old3 = "(grow_elems ?n (meta_received ?guid pub old))\<lparr>pb_elem_count := ?n\<rparr>"
  let ?kxs = "zip [0..<length ?ds] ?ds"
  have n: "0 \<le> ?n" "?n \<le> int (length (pb_data pub))" "?n + 2048 \<le> int INT_MAX" using assms(2) by (auto simp: announceable_def)
  then have len: "length ?ds = nat ?n" by (simp add: pub_used_def nat_le_iff)
  have el: "sint (word_of_int ?n :: i32) = ?n" using n sint_word_of_nat_small [of "nat ?n"] by (simp add: INT_MAX_def)
  obtain b' where b': "SOS_msg_unzip b 0 = Inr (b', header\<lparr>hd_msg_size := word_of_nat (24 + length (announce_body pub))\<rparr>, 24)"
      "is_msg header (announce_body pub) b'"
    using unzip_is_msg [OF assms(1)] by blast
  let ?dests = "[DestS (Some (pb_node_id old)), DestI, DestI, DestI, DestS (Some (pb_prog_name old)), DestS (Some (pb_prog_ver old)), DestI,
       DestS (Some (pb_pragma_msg old)), DestS (Some (pb_title old)), DestI, DestI, DestI, DestI, DestI, DestI, DestI, DestI]"
  obtain outs where outs: "outs_of (meta_args pub) ?dests = Some outs"
      "announce_of_outs ?old1 outs = Inr ((meta_received ?guid pub old)\<lparr>pb_cache := pb_cache old\<rparr>, word_of_int ?n)"
    using meta_outs [OF assms(2,4)] by (simp add: announce_of_outs_def meta_received_def)
  have cached: "(meta_received ?guid pub old)\<lparr>pb_cache := (case pb_cache ((meta_received ?guid pub old)\<lparr>pb_cache := pb_cache old\<rparr>) of
      None \<Rightarrow> alloc_cache (pb_cache_depth ((meta_received ?guid pub old)\<lparr>pb_cache := pb_cache old\<rparr>)) | Some c \<Rightarrow> Some c)\<rparr> =
    meta_received ?guid pub old"
    by (simp add: meta_received_def cong: option.case_cong)
  have "reads (unpack_fields ''siiississiiiiiiii'' ?dests) (encode (meta_args pub)) outs"
    by (rule reads_fields) (use meta_args_fit(1) [OF assms(2)] outs in \<open>simp_all add: meta_args_def\<close>)
  note meta = read_body_start [OF b'(2) [unfolded announce_body_def] this]
  have grow: "pub_grow_to ?n (meta_received ?guid pub old) = Inr (grow_elems ?n (meta_received ?guid pub old))"
    using n(3) by (intro pub_grow_to_ok) simp
  have room: "nat ?n \<le> length (pb_data ?old3)"
    using assms(5) n(1) by (auto simp: grow_elems_def Let_def meta_received_def)
  have fits: "\<forall>kx \<in> set ?kxs. name_fits (dt_name (snd kx))"
    using assms(2) by (auto simp: announceable_def pub_used_def dest: set_zip_rightD)
  have "\<forall>kx \<in> set ?kxs. fst kx < length (pb_data ?old3)"
    using room len by (auto dest: set_zip_leftD)
  then have takes: "elem_codec.takes_all ?kxs ?old3" by (rule elems_take_all)
  have "reads (\<lambda>bo. foldR elem_from_buffer [0..<nat ?n] (fst bo, snd bo, ?old3))
      (concat (map (\<lambda>d. encode (elem_args d)) ?ds)) (elem_codec.upd_all ?kxs ?old3)"
    using elem_codec.gets_read [OF fits takes] len
    by (simp add: map_snd_numbered [where f = "\<lambda>d. encode (elem_args d)"])
  from read_body [OF _ this, of header "encode (meta_args pub)" "[]" b'] b'(2)
  have "foldR elem_from_buffer [0..<nat ?n] (b', 24 + length (encode (meta_args pub)), ?old3) =
      Inr (b', 24 + length (encode (meta_args pub)) + length (concat (map (\<lambda>d. encode (elem_args d)) ?ds)), elem_codec.upd_all ?kxs ?old3)"
    by (simp add: announce_body_def)
  then have elems: "foldR elem_from_buffer [0..<nat (sint (word_of_int ?n :: i32))] (b', 24 + length (encode (meta_args pub)), ?old3) =
      Inr (b', 24 + length (encode (meta_args pub)) + length (concat (map (\<lambda>d. encode (elem_args d)) ?ds)), elem_codec.upd_all ?kxs ?old3)"
    by (simp only: el)
  have "pub_grow_to (sint (word_of_int ?n :: i32)) ((meta_received ?guid pub old)\<lparr>pb_cache :=
      (case pb_cache ((meta_received ?guid pub old)\<lparr>pb_cache := pb_cache old\<rparr>) of
        None \<Rightarrow> alloc_cache (pb_cache_depth ((meta_received ?guid pub old)\<lparr>pb_cache := pb_cache old\<rparr>)) | Some c \<Rightarrow> Some c)\<rparr>) =
     Inr (grow_elems ?n (meta_received ?guid pub old))"
    unfolding cached el by (rule grow)
  then show ?thesis
    using assms(3) b' meta outs(2) elems el
    by (simp add: SOS_announce_from_buffer_def announced_def elem_codec.upd_all_def)
qed

text \<open>A definition the daemon holds as the client made it.\<close>

definition agrees :: "SOS_data \<Rightarrow> SOS_data \<Rightarrow> bool" where
  "agrees d d' \<longleftrightarrow> dt_guid d' = dt_guid d \<and> dt_type d' = dt_type d \<and> dt_meta d' = dt_meta d \<and> cstr (dt_name d') = cstr (dt_name d)"

lemma cstr_snprintf_array:
  assumes "wf_cstring s" and "length s < n" and "length old = n"
  shows "cstr (snprintf_array n s old) = s" and "length (snprintf_array n s old) = n"
  using assms by (auto simp: snprintf_array_def min_def cstr_append_NUL)

lemma elem_taken_new:
  assumes "dt_guid (pb_data pub ! k) = 0" and "dt_guid d \<noteq> 0" and "name_fits (dt_name d)" and "k < length (pb_data pub)"
    and "length (dt_name (pb_data pub ! k)) = SOS_DEFAULT_STRING_LEN"
  shows "agrees d (pb_data (elem_taken k d pub) ! k)"
    and "\<And>i. i \<noteq> k \<Longrightarrow> pb_data (elem_taken k d pub) ! i = pb_data pub ! i"
    and "pb_name_table (elem_taken k d pub) = fst (qhput (pb_name_table pub) (cstr (dt_name d)) (Some (int k + 1)))"
  using assms cstr_snprintf_array [of "cstr (dt_name d)" SOS_DEFAULT_STRING_LEN "dt_name (pb_data pub ! k)"] name_fits_length [of "dt_name d"]
  by (auto simp: elem_taken_def agrees_def Let_def SOS_DEFAULT_STRING_LEN_def qh_put_def)

lemma elems_taken_fresh:
  assumes "table_ok (pb_name_table pub)" and "\<forall>d \<in> set ds. name_fits (dt_name d) \<and> dt_guid d \<noteq> 0"
    and "distinct (map (\<lambda>d. cstr (dt_name d)) ds)" and "j + length ds \<le> length (pb_data pub)"
    and "\<forall>i. j \<le> i \<and> i < j + length ds \<longrightarrow> dt_guid (pb_data pub ! i) = 0 \<and> length (dt_name (pb_data pub ! i)) = SOS_DEFAULT_STRING_LEN"
    and "\<forall>d \<in> set ds. qh_lookup (pb_name_table pub) (cstr (dt_name d)) = None"
  shows "let pub' = fold (\<lambda>(k, d). elem_taken k d) (zip [j..<j + length ds] ds) pub in
    table_ok (pb_name_table pub') \<and>
    (\<forall>i < j. pb_data pub' ! i = pb_data pub ! i) \<and>
    (\<forall>i < length ds. agrees (ds ! i) (pb_data pub' ! (j + i))) \<and>
    (\<forall>i < length ds. qh_lookup (pb_name_table pub') (cstr (dt_name (ds ! i))) = Some (Some (int (j + i) + 1))) \<and>
    (\<forall>key. key \<notin> (\<lambda>d. cstr (dt_name d)) ` set ds \<longrightarrow> qh_lookup (pb_name_table pub') key = qh_lookup (pb_name_table pub) key)"
  using assms
proof (induction ds arbitrary: j pub)
  case (Cons d ds)
  let ?p = "elem_taken j d pub" and ?key = "cstr (dt_name d)"
  have jd: "dt_guid (pb_data pub ! j) = 0" "dt_guid d \<noteq> 0" "name_fits (dt_name d)" "j < length (pb_data pub)"
      "length (dt_name (pb_data pub ! j)) = SOS_DEFAULT_STRING_LEN"
    using Cons.prems by auto
  note step = elem_taken_new [OF jd]
  have tab: "table_ok (pb_name_table ?p)" using qhput_table_ok [OF Cons.prems(1)] by (simp add: step(3))
  have look: "qh_lookup (pb_name_table ?p) k = (if k = ?key then Some (Some (int j + 1)) else qh_lookup (pb_name_table pub) k)" for k
    using qh_lookup_qhput [OF Cons.prems(1)] Cons.prems(6) by (simp add: step(3))
  let ?pub' = "fold (\<lambda>(k, d). elem_taken k d) (zip [Suc j..<Suc j + length ds] ds) ?p"
  have IH: "table_ok (pb_name_table ?pub')" "\<forall>i < Suc j. pb_data ?pub' ! i = pb_data ?p ! i"
      "\<forall>i < length ds. agrees (ds ! i) (pb_data ?pub' ! (Suc j + i))"
      "\<forall>i < length ds. qh_lookup (pb_name_table ?pub') (cstr (dt_name (ds ! i))) = Some (Some (int (Suc j + i) + 1))"
      "\<forall>key. key \<notin> (\<lambda>d. cstr (dt_name d)) ` set ds \<longrightarrow> qh_lookup (pb_name_table ?pub') key = qh_lookup (pb_name_table ?p) key"
  proof -
    have h: "\<forall>d \<in> set ds. name_fits (dt_name d) \<and> dt_guid d \<noteq> 0" "distinct (map (\<lambda>d. cstr (dt_name d)) ds)"
      "Suc j + length ds \<le> length (pb_data ?p)"
      using Cons.prems(2-4) by simp_all
    have h5: "\<forall>i. Suc j \<le> i \<and> i < Suc j + length ds \<longrightarrow>
        dt_guid (pb_data ?p ! i) = 0 \<and> length (dt_name (pb_data ?p ! i)) = SOS_DEFAULT_STRING_LEN"
      using Cons.prems(5) step(2) by simp
    have h6: "\<forall>d \<in> set ds. qh_lookup (pb_name_table ?p) (cstr (dt_name d)) = None"
      using Cons.prems(3,6) look by (force simp: image_iff)
    note IH = Cons.IH [OF tab h h5 h6, unfolded Let_def]
    show "table_ok (pb_name_table ?pub')" "\<forall>i < Suc j. pb_data ?pub' ! i = pb_data ?p ! i"
      "\<forall>i < length ds. agrees (ds ! i) (pb_data ?pub' ! (Suc j + i))"
      "\<forall>i < length ds. qh_lookup (pb_name_table ?pub') (cstr (dt_name (ds ! i))) = Some (Some (int (Suc j + i) + 1))"
      "\<forall>key. key \<notin> (\<lambda>d. cstr (dt_name d)) ` set ds \<longrightarrow> qh_lookup (pb_name_table ?pub') key = qh_lookup (pb_name_table ?p) key"
      using IH by blast+
  qed
  have fold: "fold (\<lambda>(k, d). elem_taken k d) (zip [j..<j + length (d # ds)] (d # ds)) pub = ?pub'"
    by (simp add: upt_rec [of j] del: upt_Suc)
  have "?key \<notin> (\<lambda>d. cstr (dt_name d)) ` set ds" using Cons.prems(3) by auto
  then have own: "qh_lookup (pb_name_table ?pub') ?key = Some (Some (int j + 1))" using IH(5) look by simp
  have "agrees ((d # ds) ! i) (pb_data ?pub' ! (j + i))" if "i < length (d # ds)" for i
    using that IH(2,3) step(1) by (cases i) auto
  moreover have "qh_lookup (pb_name_table ?pub') (cstr (dt_name ((d # ds) ! i))) = Some (Some (int (j + i) + 1))" if "i < length (d # ds)" for i
    using that IH(4) own by (cases i) auto
  moreover have "\<forall>i < j. pb_data ?pub' ! i = pb_data pub ! i" using IH(2) step(2) by simp
  moreover have "qh_lookup (pb_name_table ?pub') key = qh_lookup (pb_name_table pub) key"
    if "key \<notin> (\<lambda>d. cstr (dt_name d)) ` set (d # ds)" for key
    using that IH(5) look by simp
  ultimately show ?case unfolding fold Let_def using IH(1) by blast
qed simp

text \<open>A handle the daemon has just made.\<close>

definition fresh_handle :: "SOS_pub \<Rightarrow> bool" where
  "fresh_handle pub \<longleftrightarrow>
     \<not> pb_lock pub \<and> (\<forall>a \<in> set (pub_strings pub). length a = SOS_DEFAULT_STRING_LEN) \<and>
     pb_elem_max pub = int (length (pb_data pub)) \<and> pb_cache pub = None \<and>
     table_ok (pb_name_table pub) \<and> (\<forall>key. qh_lookup (pb_name_table pub) key = None) \<and>
     (\<forall>d \<in> set (pb_data pub). d = new_data)"

lemma new_data_sel [simp]: "dt_guid new_data = 0" "length (dt_name new_data) = SOS_DEFAULT_STRING_LEN"
    "val_fits t (dt_val new_data) \<longleftrightarrow> val_fits t Val_zero" "dt_type new_data = val_type_code SOS_VAL_TYPE_INT"
  by (simp_all add: new_data_def)

lemma SOS_pub_init_fresh:
  assumes "SOS_pub_init cx pool title nature = Inr (pool', pub)"
  shows "fresh_handle pub"
proof -
  obtain tbl :: "int qhashtbl" where t: "qhashtbl_new (int SOS_DEFAULT_TABLE_SIZE) = Some tbl"
    by (simp add: qhashtbl_new_def SOS_DEFAULT_TABLE_SIZE_def)
  have "length (snprintf_array SOS_DEFAULT_STRING_LEN s (replicate SOS_DEFAULT_STRING_LEN 0)) = SOS_DEFAULT_STRING_LEN" for s :: cstring
    by (simp add: snprintf_array_def SOS_DEFAULT_STRING_LEN_def)
  then show ?thesis
    using assms t qhashtbl_new_ok [OF t]
    by (auto simp: SOS_pub_init_def SOS_pub_init_sized_def fresh_handle_def pub_strings_def res_simps
        SOS_DEFAULT_ELEM_MAX_def split: if_splits option.splits)
qed

text \<open>What the daemon's handle holds after the announcement of \<open>pub\<close>.\<close>

definition mirrors :: "SOS_pub \<Rightarrow> SOS_pub \<Rightarrow> bool" where
  "mirrors pub dpub \<longleftrightarrow>
     pb_guid dpub = pb_guid pub \<and> pb_elem_count dpub = pb_elem_count pub \<and> pb_cache_depth dpub = pb_cache_depth pub \<and>
     pb_meta dpub = pb_meta pub \<and> \<not> pb_lock dpub \<and> length (pub_used pub) \<le> length (pb_data dpub) \<and>
     (\<forall>i < length (pub_used pub). agrees (pub_used pub ! i) (pb_data dpub ! i) \<and>
        SOS_pub_search dpub (dt_name (pub_used pub ! i)) = int i)"

definition well_defined :: "SOS_pub \<Rightarrow> bool" where
  "well_defined pub \<longleftrightarrow> announceable pub \<and> (\<forall>d \<in> set (pub_used pub). dt_guid d \<noteq> 0) \<and>
     distinct (map (\<lambda>d. cstr (dt_name d)) (pub_used pub))"

lemma elems_fold_keeps:
  "pb_guid (fold (\<lambda>(k, d). elem_taken k d) kds pub) = pb_guid pub \<and>
   pb_elem_count (fold (\<lambda>(k, d). elem_taken k d) kds pub) = pb_elem_count pub \<and>
   pb_cache_depth (fold (\<lambda>(k, d). elem_taken k d) kds pub) = pb_cache_depth pub \<and>
   pb_meta (fold (\<lambda>(k, d). elem_taken k d) kds pub) = pb_meta pub \<and>
   pub_strings (fold (\<lambda>(k, d). elem_taken k d) kds pub) = pub_strings pub \<and>
   pb_cache (fold (\<lambda>(k, d). elem_taken k d) kds pub) = pb_cache pub \<and>
   length (pb_data (fold (\<lambda>(k, d). elem_taken k d) kds pub)) = length (pb_data pub)"
  by (induction kds arbitrary: pub) (auto simp: elem_taken_def Let_def pub_strings_def)

lemma announced_mirrors:
  assumes "well_defined pub" and "fresh_handle old"
  shows "mirrors pub (announced (pb_guid pub) pub old)"
proof -
  let ?ds = "pub_used pub"
  let ?o = "(grow_elems (pb_elem_count pub) (meta_received (pb_guid pub) pub old))\<lparr>pb_elem_count := pb_elem_count pub\<rparr>"
  let ?p = "fold (\<lambda>(k, d). elem_taken k d) (zip [0..<length ?ds] ?ds) ?o"
  have a: "announceable pub" "\<forall>d \<in> set ?ds. dt_guid d \<noteq> 0" "distinct (map (\<lambda>d. cstr (dt_name d)) ?ds)"
    using assms(1) by (auto simp: well_defined_def)
  have n: "0 \<le> pb_elem_count pub" "pb_elem_count pub \<le> int (length (pb_data pub))" using a(1) by (auto simp: announceable_def)
  have tbl: "table_ok (pb_name_table ?o)" "\<And>k. qh_lookup (pb_name_table ?o) k = None"
    using assms(2) by (auto simp: grow_elems_def meta_received_def fresh_handle_def)
  have room: "length ?ds \<le> length (pb_data ?o)"
    using assms(2) n by (auto simp: pub_used_def grow_elems_def Let_def meta_received_def fresh_handle_def)
  have "set (pb_data ?o) \<subseteq> {new_data}"
    using assms(2) by (auto simp: grow_elems_def Let_def meta_received_def fresh_handle_def)
  then have "pb_data ?o ! i = new_data" if "i < length (pb_data ?o)" for i using that nth_mem by blast
  then have fresh: "\<forall>i. 0 \<le> i \<and> i < 0 + length ?ds \<longrightarrow> dt_guid (pb_data ?o ! i) = 0 \<and> length (dt_name (pb_data ?o ! i)) = SOS_DEFAULT_STRING_LEN"
    using room by auto
  have "\<forall>d \<in> set ?ds. name_fits (dt_name d) \<and> dt_guid d \<noteq> 0" using a(1,2) by (auto simp: announceable_def pub_used_def)
  from elems_taken_fresh [OF tbl(1) this a(3) _ fresh] tbl(2) room
  have t: "\<forall>i < length ?ds. agrees (?ds ! i) (pb_data ?p ! i)"
      "\<forall>i < length ?ds. qh_lookup (pb_name_table ?p) (cstr (dt_name (?ds ! i))) = Some (Some (int i + 1))"
    by (auto simp: Let_def)
  have "SOS_pub_search (?p\<lparr>pb_lock := False\<rparr>) (dt_name (?ds ! i)) = int i" if "i < length ?ds" for i
    using t(2) that by (simp add: SOS_pub_search_lookup)
  then show ?thesis
    using t(1) room elems_fold_keeps [of "zip [0..<length ?ds] ?ds" ?o]
    by (simp add: mirrors_def announced_def grow_elems_def Let_def meta_received_def)
qed

subsection \<open>Publications\<close>

definition publish_body :: "i32 \<Rightarrow> c_double \<Rightarrow> SOS_pub \<Rightarrow> byte list" where
  "publish_body hi now pub =
     encode [ArgL (pb_frame pub)] @ concat (map (data_enc hi) (dirty_elems now (pub_used pub)))"

definition publishable :: "c_double \<Rightarrow> SOS_pub \<Rightarrow> bool" where
  "publishable now pub \<longleftrightarrow> 0 \<le> pb_elem_count pub \<and> pb_elem_count pub \<le> int (length (pb_data pub)) \<and>
     (\<forall>x \<in> set (dirty_elems now (pub_used pub)). data_fits x)"

lemma publish_to_buffer_ok:
  assumes "publishable now pub" and "fresh_msg buffer" and "24 + length (publish_body hi now pub) \<le> MSG_LIMIT"
  shows "\<exists>b. SOS_publish_to_buffer cx hi now pub buffer =
      Inr (pub\<lparr>pb_frame := pb_frame pub + 1,
               pb_data := map (mark_sent now) (pub_used pub) @ drop (length (pub_used pub)) (pb_data pub)\<rparr>, b) \<and>
    buf_is_locking b = buf_is_locking buffer \<and>
    is_msg (msg_header_of SOS_MSG_TYPE_PUBLISH (cx_my_guid cx) (pb_guid pub)) (publish_body hi now pub) b \<and> roomy b"
proof -
  have n: "nat (pb_elem_count pub) \<le> length (pb_data pub)" and fits: "\<forall>x \<in> set (dirty_elems now (pub_used pub)). data_fits x"
    using assms(1) by (auto simp: publishable_def)
  have elems: "pub_elems pub = Inr (pub_used pub)" using n by (simp add: pub_elems_def mem_read_def pub_used_def)
  have "appends (pack_fields ''l'' [ArgL (pb_frame pub)]) (encode [ArgL (pb_frame pub)])"
    by (rule appends_fields) (simp_all add: SOS_DEFAULT_BUFFER_MAX_def)
  from appends_seq [OF this data_codec.puts_append [OF fits, of hi]]
  have "appends (\<lambda>bo. bindR (pack_fields ''l'' [ArgL (pb_frame pub)] bo) (foldR (data_to_buffer hi) (dirty_elems now (pub_used pub))))
      (publish_body hi now pub)"
    by (simp add: publish_body_def)
  from write_msg_roomy [OF assms(2) this assms(3), of "msg_header_of SOS_MSG_TYPE_PUBLISH (cx_my_guid cx) (pb_guid pub)"]
  show ?thesis using elems by (auto simp: SOS_publish_to_buffer_def)
qed

lemma data_enc_length: "4 \<le> length (data_enc hi x)"
  by (cases x) (simp add: data_enc_def data_args_def)

text \<open>The loop runs to the end of the message and takes one element per record.\<close>

lemma publish_loop_reads:
  assumes "\<forall>x \<in> set xs. data_fits x" and "data_codec.takes_all hi (map (Pair ()) xs) s"
    and "holding b n (pre @ concat (map (data_enc hi) xs))"
  shows "publish_loop (int n) (b, length pre, s) = Inr (b, n, fold (data_taken hi) xs s)"
  using assms
proof (induction xs arbitrary: pre s)
  case Nil
  then show ?case by (simp add: publish_loop.simps holding_def)
next
  case (Cons x xs)
  let ?e = "data_enc hi x"
  have n: "n = length pre + (length ?e + length (concat (map (data_enc hi) xs)))" using Cons.prems(3) by (simp add: holding_def)
  have b: "holding b n (pre @ ?e @ concat (map (data_enc hi) xs))" using Cons.prems(3) by simp
  have "data_takes x s" using Cons.prems(2) by simp
  with readsD [OF data_get [of x s hi] b] Cons.prems(1)
  have "data_from_buffer (b, length pre, s) = Inr (b, length pre + length ?e, data_taken hi x s)" by simp
  moreover have "publish_loop (int n) (b, length (pre @ ?e), data_taken hi x s) = Inr (b, n, fold (data_taken hi) xs (data_taken hi x s))"
    using Cons.IH [of "data_taken hi x s" "pre @ ?e"] Cons.prems by simp
  moreover have "length pre < n" using n data_enc_length [of hi x] by linarith
  ultimately show ?case by (subst publish_loop.simps) simp
qed

text \<open>The daemon's elements have the types of the client's.\<close>

definition types_match :: "SOS_data list \<Rightarrow> SOS_pub \<Rightarrow> bool" where
  "types_match ds dpub \<longleftrightarrow> length ds \<le> length (pb_data dpub) \<and>
     (\<forall>i < length ds. dt_type (pb_data dpub ! i) = dt_type (ds ! i) \<and> val_fits (dt_type (ds ! i)) (dt_val (pb_data dpub ! i)))"

lemma val_fits_received: "val_sendable t v len \<Longrightarrow> val_fits t (val_received len v)"
  by (auto simp: val_sendable_def val_fits_def SOS_val_type_enum.decode_code)

lemma dirty_elems_mem:
  assumes "(i, d) \<in> set (dirty_elems now ds)"
  shows "i < length ds" and "d = mark_sent now (ds ! i)" and "is_dirty (ds ! i)"
  using assms by (auto simp: dirty_elems_def set_zip)

lemma mark_sent_sel [simp]:
  "dt_type (mark_sent now d) = dt_type d" "dt_val (mark_sent now d) = dt_val d" "dt_val_len (mark_sent now d) = dt_val_len d"
  "dt_meta (mark_sent now d) = dt_meta d" "dt_guid (mark_sent now d) = dt_guid d" "dt_name (mark_sent now d) = dt_name d"
  "tm_pack (dt_time (mark_sent now d)) = tm_pack (dt_time d)"
  by (simp_all add: mark_sent_def)

lemma types_match_taken:
  assumes "types_match ds s" and "i < length ds" and "dt_type d = dt_type (ds ! i)" and "data_fits (i, d)"
  shows "data_takes (i, d) s" and "types_match ds (data_taken hi (i, d) s)"
proof -
  show "data_takes (i, d) s" using assms by (auto simp: data_takes_def types_match_def)
  have "val_fits (dt_type d) (val_received (dt_val_len d) (dt_val d))"
    using assms(4) by (auto simp: data_fits_def intro: val_fits_received)
  then show "types_match ds (data_taken hi (i, d) s)"
    using assms(1-3) by (auto simp: types_match_def data_taken_def data_update_def pub_set_data_def nth_list_update)
qed

lemma dirty_takes_all:
  assumes "types_match ds s" and "\<forall>x \<in> set xs. data_fits x" and "\<forall>(i, d) \<in> set xs. i < length ds \<and> dt_type d = dt_type (ds ! i)"
  shows "data_codec.takes_all hi (map (Pair ()) xs) s"
  using assms
proof (induction xs arbitrary: s)
  case (Cons x xs)
  obtain i d where "x = (i, d)" by (cases x)
  then show ?case using types_match_taken(1) [of ds s i d] types_match_taken(2) [of ds s i d hi] Cons by auto
qed simp

lemma data_taken_fold:
  assumes "distinct (map fst xs)" and "\<forall>(i, d) \<in> set xs. i < length (pb_data s)"
  shows "pb_data (fold (data_taken hi) xs s) ! i =
      (case map_of xs i of None \<Rightarrow> pb_data s ! i | Some d \<Rightarrow> data_update hi d (pb_data s ! i)) \<and>
    length (pb_data (fold (data_taken hi) xs s)) = length (pb_data s) \<and>
    pb_frame (fold (data_taken hi) xs s) = pb_frame s"
  using assms
proof (induction xs arbitrary: s)
  case (Cons x xs)
  obtain k d where x: "x = (k, d)" by (cases x)
  let ?s = "data_taken hi (k, d) s"
  have s: "length (pb_data ?s) = length (pb_data s)" "pb_frame ?s = pb_frame s"
    "\<And>j. pb_data ?s ! j = (if j = k then data_update hi d (pb_data s ! k) else pb_data s ! j)"
    using Cons.prems(2) by (auto simp: data_taken_def pub_set_data_def x)
  have "map_of xs k = None" using Cons.prems(1) by (simp add: x map_of_eq_None_iff)
  then show ?case
    using Cons.IH [of ?s] Cons.prems s by (auto simp: x split: option.splits)
qed simp

lemma dirty_distinct: "distinct (map fst (dirty_elems now ds))"
proof -
  have "map fst (dirty_elems now ds) = map fst (filter (\<lambda>(i, d). is_dirty d) (zip [0..<length ds] ds))"
    by (simp add: dirty_elems_def case_prod_beta comp_def)
  then show ?thesis using distinct_map_filter [of fst "zip [0..<length ds] ds"] by simp
qed

lemma map_of_dirty:
  assumes "i < length ds"
  shows "map_of (dirty_elems now ds) i = (if is_dirty (ds ! i) then Some (mark_sent now (ds ! i)) else None)"
proof (cases "is_dirty (ds ! i)")
  case True
  have "(i, ds ! i) \<in> set (zip [0..<length ds] ds)" using assms by (auto simp: set_zip intro!: exI [of _ i])
  then have "(i, mark_sent now (ds ! i)) \<in> set (dirty_elems now ds)" using True by (force simp: dirty_elems_def)
  then show ?thesis using True dirty_distinct by simp
next
  case False
  then have "map_of (dirty_elems now ds) i = None"
    using dirty_elems_mem by (fastforce simp: map_of_eq_None_iff)
  then show ?thesis using False by simp
qed

lemma publish_from_buffer_ok:
  assumes "is_msg header (publish_body hi now pub) b" and "publishable now pub" and "\<not> pb_lock dpub" and "types_match (pub_used pub) dpub"
    and "24 + length (publish_body hi now pub) \<le> MSG_LIMIT"
  shows "\<exists>b' dpub'. SOS_publish_from_buffer b dpub = Inr (b', dpub') \<and> is_msg header (publish_body hi now pub) b' \<and> \<not> pb_lock dpub' \<and> pb_frame dpub' = pb_frame pub \<and>
    length (pb_data dpub') = length (pb_data dpub) \<and>
    (\<forall>i < length (pub_used pub). pb_data dpub' ! i =
       (if is_dirty (pub_used pub ! i) then data_update hi (mark_sent now (pub_used pub ! i)) (pb_data dpub ! i) else pb_data dpub ! i))"
proof -
  let ?ds = "pub_used pub" and ?n = "24 + length (publish_body hi now pub)"
  let ?xs = "dirty_elems now ?ds" and ?d0 = "dpub\<lparr>pb_lock := True, pb_frame := pb_frame pub\<rparr>"
  let ?h = "header\<lparr>hd_msg_size := word_of_nat ?n\<rparr>"
  obtain b' where b': "SOS_msg_unzip b 0 = Inr (b', ?h, 24)" "is_msg header (publish_body hi now pub) b'"
    using unzip_is_msg [OF assms(1)] by blast
  have "reads (unpack_fields ''l'' [DestL]) (encode [ArgL (pb_frame pub)]) [OutL (pb_frame pub)]" by (intro reads_fields) simp_all
  from read_body_start [OF b'(2) [unfolded publish_body_def] this]
  have frame: "unpack_fields ''l'' [DestL] (b', 24) = Inr (b', 32, [OutL (pb_frame pub)])" by simp
  have fits: "\<forall>x \<in> set ?xs. data_fits x" using assms(2) by (simp add: publishable_def)
  have idx: "\<forall>(i, d) \<in> set ?xs. i < length ?ds \<and> dt_type d = dt_type (?ds ! i)" using dirty_elems_mem by fastforce
  have m: "types_match ?ds ?d0" using assms(4) by (simp add: types_match_def)
  have bl: "holding b' ?n ((encode (header_args ?h) @ encode [ArgL (pb_frame pub)]) @ concat (map (data_enc hi) ?xs))"
    using b'(2) by (simp add: is_msg_def publish_body_def)
  have loop: "publish_loop (int ?n) (b', 32, ?d0) = Inr (b', ?n, fold (data_taken hi) ?xs ?d0)"
    using publish_loop_reads [OF fits dirty_takes_all [OF m fits idx] bl] by simp
  have n: "sint (word_of_nat ?n :: i32) = int ?n"
    using assms(5) by (intro sint_word_of_nat_small) (simp add: MSG_LIMIT_def)
  let ?d' = "(fold (data_taken hi) ?xs ?d0)\<lparr>pb_lock := False\<rparr>"
  have run: "SOS_publish_from_buffer b dpub = Inr (b', ?d')"
    using assms(3) b'(1) frame loop n by (simp add: SOS_publish_from_buffer_def del: of_nat_add)
  have "\<forall>(i, d) \<in> set ?xs. i < length (pb_data ?d0)" using idx assms(4) by (fastforce simp: types_match_def)
  note f = data_taken_fold [OF dirty_distinct this, of hi]
  have "pb_data ?d' ! i = (if is_dirty (?ds ! i) then data_update hi (mark_sent now (?ds ! i)) (pb_data dpub ! i) else pb_data dpub ! i)"
    if "i < length ?ds" for i
    using f [of i] map_of_dirty [OF that, of now] by simp
  then show ?thesis using run b'(2) f by auto
qed

end
