(* ===== verification/SOS_Session.thy ===== *)
theory SOS_Session
  imports SOS_Exchange
begin

text \<open>
  Whole exchanges between a client and its daemon: announcing, publishing and flushing the queue,
  and what the calls \<open>SOS_announce\<close> and \<open>SOS_publish\<close> of \<open>sos.c\<close> leave behind on both sides.
  The link to the daemon is the parameter \<open>cx_send\<close>; \<open>link_up\<close> says that it delivers.
\<close>

section \<open>The client's calls\<close>

definition link_up :: "SOS_ctx \<Rightarrow> bool" where
  "link_up cx \<longleftrightarrow> (\<forall>m r. \<not> buf_lock r \<longrightarrow> (\<exists>r'. cx_send cx m r = Inr r' \<and> \<not> buf_lock r'))"

lemma link_upE:
  assumes "link_up cx" and "\<not> buf_lock r"
  obtains r' where "cx_send cx m r = Inr r'" and "\<not> buf_lock r'"
  using assms unfolding link_up_def by blast

lemma SOS_buffer_destroy_free: "\<not> buf_lock b \<Longrightarrow> SOS_buffer_destroy (Some b) = Inr ()"
  by (simp add: SOS_buffer_destroy_def SOS_buffer_lock_def)

lemma SOS_buffer_init_unlocked [simp]: "\<not> buf_lock SOS_buffer_init" "\<not> buf_lock (SOS_buffer_init_sized n)"
  by (simp_all add: SOS_buffer_init_def SOS_buffer_init_sized_def SOS_buffer_init_sized_locking_def)

lemma fresh_msg_init [simp]: "fresh_msg SOS_buffer_init"
  using fresh_building [of True] by (simp add: fresh_msg_def) (simp add: SOS_buffer_init_def)

lemma fresh_msg_wipe: "is_msg header e b \<Longrightarrow> roomy b \<Longrightarrow> fresh_msg (SOS_buffer_wipe b)"
  by (auto simp: is_msg_def holding_def roomy_def fresh_msg_def building_def SOS_buffer_wipe_def buffer_wf_def packed_prefix_def)

lemma is_msg_unlocked: "is_msg header e b \<Longrightarrow> \<not> buf_lock b"
  and is_msg_len: "is_msg header e b \<Longrightarrow> buf_len b = 24 + length e"
  by (auto simp: is_msg_def)

lemma lock_irrelevant [simp]:
  "announceable (pub\<lparr>pb_lock := l\<rparr>) = announceable pub" "announce_body (pub\<lparr>pb_lock := l\<rparr>) = announce_body pub"
  "publishable now (pub\<lparr>pb_lock := l\<rparr>) = publishable now pub" "publish_body hi now (pub\<lparr>pb_lock := l\<rparr>) = publish_body hi now pub"
  "pub_used (pub\<lparr>pb_lock := l\<rparr>) = pub_used pub" "queued (pub\<lparr>pb_lock := l\<rparr>) = queued pub"
  by (simp_all add: announceable_def announce_body_def publishable_def publish_body_def pub_used_def queued_def pub_strings_def meta_args_def)

lemma announced_irrelevant [simp]:
  "announceable (pub\<lparr>pb_announced := l\<rparr>) = announceable pub" "announce_body (pub\<lparr>pb_announced := l\<rparr>) = announce_body pub"
  "publishable now (pub\<lparr>pb_announced := l\<rparr>) = publishable now pub" "publish_body hi now (pub\<lparr>pb_announced := l\<rparr>) = publish_body hi now pub"
  "pub_used (pub\<lparr>pb_announced := l\<rparr>) = pub_used pub" "queued (pub\<lparr>pb_announced := l\<rparr>) = queued pub"
  by (simp_all add: announceable_def announce_body_def publishable_def publish_body_def pub_used_def queued_def pub_strings_def meta_args_def)

lemma SOS_announce_ok:
  assumes "announceable pub" and "\<not> pb_lock pub" and "pb_announced pub = 0" and "link_up cx"
    and "24 + length (announce_body pub) \<le> MSG_LIMIT"
  shows "\<exists>ann. SOS_announce cx pub = Inr (pub\<lparr>pb_announced := 1\<rparr>, [ann]) \<and>
    is_msg (msg_header_of SOS_MSG_TYPE_ANNOUNCE (cx_my_guid cx) (pb_guid pub)) (announce_body pub) ann"
proof -
  obtain ann where ann: "SOS_announce_to_buffer cx (pub\<lparr>pb_lock := True\<rparr>) SOS_buffer_init = Inr (pub\<lparr>pb_lock := True, pb_announced := 1\<rparr>, ann)"
      "is_msg (msg_header_of SOS_MSG_TYPE_ANNOUNCE (cx_my_guid cx) (pb_guid pub)) (announce_body pub) ann"
    using announce_to_buffer_ok [of "pub\<lparr>pb_lock := True\<rparr>" SOS_buffer_init cx] assms(1,5) by auto
  obtain r where "cx_send cx ann (SOS_buffer_init_sized SOS_DEFAULT_REPLY_LEN) = Inr r" "\<not> buf_lock r"
    using link_upE [OF assms(4), of "SOS_buffer_init_sized SOS_DEFAULT_REPLY_LEN" ann] by auto
  then show ?thesis
    using ann assms(2,3) SOS_buffer_destroy_free is_msg_unlocked [OF ann(2)] by (cases pub) (auto simp: SOS_announce_def)
qed

text \<open>The client's handle after a publication: the frame counted, every element clean.\<close>

definition sent_off :: "c_double \<Rightarrow> SOS_pub \<Rightarrow> SOS_pub" where
  "sent_off now pub = pub\<lparr>pb_frame := pb_frame pub + 1,
     pb_data := map (mark_sent now) (pub_used pub) @ drop (length (pub_used pub)) (pb_data pub)\<rparr>"

lemma sent_off_data:
  "length (pb_data (sent_off now pub)) = length (pb_data pub)"
  "dt_type (pb_data (sent_off now pub) ! i) = dt_type (pb_data pub ! i)"
proof -
  have l: "length (pub_used pub) \<le> length (pb_data pub)" by (simp add: pub_used_def)
  then show "length (pb_data (sent_off now pub)) = length (pb_data pub)" by (simp add: sent_off_def)
  show "dt_type (pb_data (sent_off now pub) ! i) = dt_type (pb_data pub ! i)"
    using l by (auto simp: sent_off_def nth_append pub_used_def)
qed

lemma sent_off_sel [simp]:
  "pb_guid (sent_off now pub) = pb_guid pub" "pb_snap_queue (sent_off now pub) = pb_snap_queue pub"
  "pb_lock (sent_off now pub) = pb_lock pub" "queued (sent_off now pub) = queued pub"
  "pb_frame (sent_off now pub) = pb_frame pub + 1" "pb_announced (sent_off now pub) = pb_announced pub"
  by (simp_all add: sent_off_def queued_def)

lemma sent_off_clean:
  assumes "i < length (pub_used pub)"
  shows "\<not> is_dirty (pb_data (sent_off now pub) ! i)"
  using assms by (auto simp: sent_off_def nth_append is_dirty_def mark_sent_def SOS_val_state_enum.code_inject)

definition snaps_sendable :: "(nat \<Rightarrow> c_double) \<Rightarrow> SOS_pub \<Rightarrow> bool" where
  "snaps_sendable clock pub \<longleftrightarrow> (\<forall>x \<in> set (zip [0..<length (queued pub)] (queued pub)). snap_fits clock pub x) \<and>
     24 + length (snaps_body clock (queued pub)) \<le> MSG_LIMIT"

lemma snaps_sendable_sent_off [simp]: "snaps_sendable clock (sent_off now pub) = snaps_sendable clock pub"
  by (simp add: snaps_sendable_def snap_fits_def sent_off_data)

text \<open>A handle whose content goes into messages.\<close>

definition sendable :: "(nat \<Rightarrow> c_double) \<Rightarrow> i32 \<Rightarrow> SOS_pub \<Rightarrow> bool" where
  "sendable clock hi pub \<longleftrightarrow> publishable (clock 0) pub \<and> 24 + length (publish_body hi (clock 0) pub) \<le> MSG_LIMIT \<and>
     snaps_sendable (\<lambda>i. clock (Suc i)) pub"

lemma queue_flush:
  assumes "pb_snap_queue pub = Some q" and "queue_ok (cx_mincap cx) q" and "fresh_msg buffer" and "snaps_sendable clock pub"
  shows "\<exists>q' b l. SOS_val_snap_queue_to_buffer cx clock pub buffer = Inr (pub\<lparr>pb_snap_queue := Some q', pb_lock := l\<rparr>, b) \<and>
    queue_ok (cx_mincap cx) q' \<and> pipe_content (sq_pipe q') = [] \<and> \<not> buf_lock b \<and>
    (if queued pub = [] then buf_len b = 0
     else is_msg (msg_header_of SOS_MSG_TYPE_VAL_SNAPS (cx_my_guid cx) (pb_guid pub)) (snaps_body clock (queued pub)) b)"
proof (cases "queued pub = []")
  case True
  then have "sq_elem_count q = 0" "\<not> sq_sync_lock q" "pipe_content (sq_pipe q) = []"
    using assms(1,2) by (auto simp: queued_def queue_ok_def)
  then show ?thesis
    using True assms by (cases pub) (auto simp: SOS_val_snap_queue_to_buffer_def fresh_msg_def building_def)
next
  case False
  obtain q' b where "SOS_val_snap_queue_to_buffer cx clock pub buffer = Inr (pub\<lparr>pb_snap_queue := Some q'\<rparr>, b)"
      "queue_ok (cx_mincap cx) q'" "pipe_content (sq_pipe q') = []"
      "is_msg (msg_header_of SOS_MSG_TYPE_VAL_SNAPS (cx_my_guid cx) (pb_guid pub)) (snaps_body clock (queued pub)) b"
    using snaps_to_buffer_ok [OF assms(1,2) False assms(3), of clock] assms(4) by (auto simp: snaps_sendable_def)
  then show ?thesis
    using False is_msg_unlocked
    by (intro exI [of _ q'] exI [of _ b] exI [of _ "pb_lock pub"]) (cases pub, auto)
qed

text \<open>What one \<open>SOS_publish\<close> sends for a handle that is announced.\<close>

definition publish_msgs :: "SOS_ctx \<Rightarrow> i32 \<Rightarrow> (nat \<Rightarrow> c_double) \<Rightarrow> SOS_pub \<Rightarrow> SOS_buffer list \<Rightarrow> bool" where
  "publish_msgs cx hi clock pub sent \<longleftrightarrow>
     (\<exists>b snaps. sent = b # snaps \<and>
        is_msg (msg_header_of SOS_MSG_TYPE_PUBLISH (cx_my_guid cx) (pb_guid pub)) (publish_body hi (clock 0) pub) b \<and>
        (if queued pub = [] then snaps = []
         else \<exists>s. snaps = [s] \<and> is_msg (msg_header_of SOS_MSG_TYPE_VAL_SNAPS (cx_my_guid cx) (pb_guid pub))
                (snaps_body (\<lambda>i. clock (Suc i)) (queued pub)) s))"

text \<open>The handle between two calls, with an empty queue.\<close>

definition flushed :: "nat \<Rightarrow> c_double \<Rightarrow> SOS_pub \<Rightarrow> SOS_pub \<Rightarrow> bool" where
  "flushed mincap now pub pub' \<longleftrightarrow>
     (\<exists>q. pub' = (sent_off now pub)\<lparr>pb_snap_queue := Some q\<rparr> \<and> queue_ok mincap q \<and> pipe_content (sq_pipe q) = [])"

lemma SOS_publish_announced:
  assumes "pb_announced pub \<noteq> 0" and "\<not> pb_lock pub" and "link_up cx" and "sendable clock hi pub"
    and "pb_snap_queue pub = Some q" and "queue_ok (cx_mincap cx) q"
  shows "\<exists>pub' sent. SOS_publish cx hi clock pub = Inr (pub', sent) \<and> publish_msgs cx hi clock pub sent \<and>
    flushed (cx_mincap cx) (clock 0) pub pub'"
proof -
  let ?now = "clock 0" and ?l = "pub\<lparr>pb_lock := True\<rparr>" and ?clk = "\<lambda>i. clock (Suc i)"
  have fits: "publishable ?now pub" "24 + length (publish_body hi ?now pub) \<le> MSG_LIMIT" "snaps_sendable ?clk pub"
    using assms(4) by (auto simp: sendable_def)
  have sl: "snaps_sendable ?clk ?l" using fits(3) by (simp add: snaps_sendable_def snap_fits_def)
  obtain b where b: "SOS_publish_to_buffer cx hi ?now ?l SOS_buffer_init = Inr (sent_off ?now ?l, b)"
      "is_msg (msg_header_of SOS_MSG_TYPE_PUBLISH (cx_my_guid cx) (pb_guid pub)) (publish_body hi ?now pub) b" "roomy b"
    using publish_to_buffer_ok [of ?now ?l SOS_buffer_init hi cx] fits(1,2) by (auto simp: sent_off_def)
  obtain r where r: "cx_send cx b (SOS_buffer_init_sized SOS_DEFAULT_REPLY_LEN) = Inr r" "\<not> buf_lock r"
    using link_upE [OF assms(3), of "SOS_buffer_init_sized SOS_DEFAULT_REPLY_LEN" b] by auto
  obtain q' s l where s: "SOS_val_snap_queue_to_buffer cx ?clk (sent_off ?now ?l) (SOS_buffer_wipe b) =
        Inr ((sent_off ?now ?l)\<lparr>pb_snap_queue := Some q', pb_lock := l\<rparr>, s)"
      "queue_ok (cx_mincap cx) q'" "pipe_content (sq_pipe q') = []" "\<not> buf_lock s"
      "if queued pub = [] then buf_len s = 0
       else is_msg (msg_header_of SOS_MSG_TYPE_VAL_SNAPS (cx_my_guid cx) (pb_guid pub)) (snaps_body ?clk (queued pub)) s"
    using queue_flush [of "sent_off ?now ?l" q cx "SOS_buffer_wipe b" ?clk] assms(5,6) fresh_msg_wipe [OF b(2,3)] sl
    by (auto cong: if_cong)
  obtain r' where r': "cx_send cx s r = Inr r'" "\<not> buf_lock r'" using link_upE [OF assms(3) r(2)] by metis
  have "(sent_off ?now ?l)\<lparr>pb_snap_queue := Some q', pb_lock := False\<rparr> = (sent_off ?now pub)\<lparr>pb_snap_queue := Some q'\<rparr>"
    using assms(2) by (cases pub) (simp add: sent_off_def pub_used_def)
  then have fl: "flushed (cx_mincap cx) ?now pub ((sent_off ?now ?l)\<lparr>pb_snap_queue := Some q', pb_lock := False\<rparr>)"
    using s(2,3) by (auto simp: flushed_def)
  have run: "SOS_publish cx hi clock pub = Inr ((sent_off ?now ?l)\<lparr>pb_snap_queue := Some q', pb_lock := False\<rparr>,
      b # (if 0 < buf_len s then [s] else []))"
    using assms(1,2) b(1) r s(1,4) r' SOS_buffer_destroy_free by (simp add: SOS_publish_def)
  have "publish_msgs cx hi clock pub (b # (if 0 < buf_len s then [s] else []))"
    using b(2) s(5) is_msg_len by (auto simp: publish_msgs_def split: if_splits)
  then show ?thesis using run fl by blast
qed

lemma SOS_publish_first:
  assumes "announceable pub" and "24 + length (announce_body pub) \<le> MSG_LIMIT" and "\<not> pb_lock pub" and "link_up cx"
    and "sendable clock hi pub" and "pb_snap_queue pub = Some q" and "queue_ok (cx_mincap cx) q" and "pb_announced pub = 0"
  shows "\<exists>pub' ann sent. SOS_publish cx hi clock pub = Inr (pub', ann # sent) \<and>
    is_msg (msg_header_of SOS_MSG_TYPE_ANNOUNCE (cx_my_guid cx) (pb_guid pub)) (announce_body pub) ann \<and>
    publish_msgs cx hi clock pub sent \<and> flushed (cx_mincap cx) (clock 0) (pub\<lparr>pb_announced := 1\<rparr>) pub'"
proof -
  let ?pub = "pub\<lparr>pb_announced := 1\<rparr>"
  obtain ann where ann: "SOS_announce cx pub = Inr (?pub, [ann])"
      "is_msg (msg_header_of SOS_MSG_TYPE_ANNOUNCE (cx_my_guid cx) (pb_guid pub)) (announce_body pub) ann"
    using SOS_announce_ok [OF assms(1,3,8,4,2)] by blast
  have "sendable clock hi ?pub" using assms(5) by (simp add: sendable_def snaps_sendable_def snap_fits_def)
  then obtain pub' sent where p: "SOS_publish cx hi clock ?pub = Inr (pub', sent)" "publish_msgs cx hi clock ?pub sent"
      "flushed (cx_mincap cx) (clock 0) ?pub pub'"
    using SOS_publish_announced [of ?pub cx clock hi q] assms(3,4,6,7) by auto
  have "SOS_publish cx hi clock pub = Inr (pub', ann # sent)"
    using assms(8) ann(1) p(1) by (auto simp: SOS_publish_def res_simps)
  moreover have "publish_msgs cx hi clock pub sent" using p(2) by (simp add: publish_msgs_def cong: if_cong)
  ultimately show ?thesis using ann(2) p(3) by blast
qed

section \<open>The daemon's handle\<close>

lemma elems_fold_vals:
  assumes "\<forall>x \<in> set kds. fst x < length (pb_data pub)"
  shows "dt_val (pb_data (fold (\<lambda>(k, d). elem_taken k d) kds pub) ! i) = dt_val (pb_data pub ! i)"
  using assms
proof (induction kds arbitrary: pub)
  case (Cons kd kds)
  obtain k d where kd: "kd = (k, d)" by (cases kd)
  have "dt_val (pb_data (elem_taken k d pub) ! i) = dt_val (pb_data pub ! i)"
    using Cons.prems by (auto simp: elem_taken_def Let_def nth_list_update kd)
  then show ?case using Cons.IH [of "elem_taken k d pub"] Cons.prems by (simp add: kd)
qed simp

lemma announced_vals:
  assumes "announceable pub" and "fresh_handle old" and "i < length (pub_used pub)"
  shows "dt_val (pb_data (announced guid pub old) ! i) = Val_zero"
proof -
  let ?ds = "pub_used pub"
  let ?o = "(grow_elems (pb_elem_count pub) (meta_received guid pub old))\<lparr>pb_elem_count := pb_elem_count pub\<rparr>"
  have n: "0 \<le> pb_elem_count pub" "pb_elem_count pub \<le> int (length (pb_data pub))" using assms(1) by (auto simp: announceable_def)
  have room: "length ?ds \<le> length (pb_data ?o)"
    using assms(2) n by (auto simp: pub_used_def grow_elems_def Let_def meta_received_def fresh_handle_def)
  have new: "\<forall>d \<in> set (pb_data ?o). d = new_data"
    using assms(2) by (auto simp: grow_elems_def Let_def meta_received_def fresh_handle_def)
  have "pb_data ?o ! i \<in> set (pb_data ?o)" by (rule nth_mem) (use assms(3) room in linarith)
  then have "pb_data ?o ! i = new_data" using new by blast
  moreover have "\<forall>x \<in> set (zip [0..<length ?ds] ?ds). fst x < length (pb_data ?o)"
    using room by (auto dest: set_zip_leftD)
  ultimately show ?thesis
    using elems_fold_vals [of "zip [0..<length ?ds] ?ds" ?o i] by (simp add: announced_def new_data_def)
qed

text \<open>The types a client can send.\<close>

definition typed_elems :: "SOS_data list \<Rightarrow> bool" where
  "typed_elems ds \<longleftrightarrow> (\<forall>d \<in> set ds. val_fits (dt_type d) Val_zero)"

lemma announced_types_match:
  assumes "well_defined pub" and "fresh_handle old" and "typed_elems (pub_used pub)"
  shows "types_match (pub_used pub) (announced (pb_guid pub) pub old)"
proof -
  have "mirrors pub (announced (pb_guid pub) pub old)" by (rule announced_mirrors [OF assms(1,2)])
  moreover have "announceable pub" using assms(1) by (simp add: well_defined_def)
  ultimately show ?thesis
    using announced_vals [OF _ assms(2)] assms(3) by (auto simp: types_match_def mirrors_def agrees_def typed_elems_def)
qed

text \<open>What a clean element says of a dirty one that was published.\<close>

definition received_elem :: "SOS_data \<Rightarrow> SOS_data \<Rightarrow> c_double \<Rightarrow> bool" where
  "received_elem d d' now \<longleftrightarrow> dt_val d' = val_received (dt_val_len d) (dt_val d) \<and> dt_val_len d' = dt_val_len d \<and>
     dt_type d' = dt_type d \<and> dt_guid d' = dt_guid d \<and> cstr (dt_name d') = cstr (dt_name d) \<and>
     tm_pack (dt_time d') = wire_double (tm_pack (dt_time d)) \<and> tm_send (dt_time d') = wire_double now \<and>
     dt_state d' = val_state_code SOS_VAL_STATE_CLEAN"

lemma data_update_received:
  assumes "agrees d e" and "is_dirty d"
  shows "received_elem d (data_update hi (mark_sent now d) e) now"
  using assms by (auto simp: received_elem_def data_update_def agrees_def mark_sent_def)

subsection \<open>Example\<close>

definition example_elem :: SOS_data where
  "example_elem = new_data\<lparr>dt_guid := 11, dt_name := strncpy_array SOS_DEFAULT_STRING_LEN (str ''temp''),
     dt_val := Val_i 21, dt_val_len := 4, dt_state := val_state_code SOS_VAL_STATE_DIRTY\<rparr>"

definition example_source :: SOS_pub where
  "example_source = example_pub\<lparr>pb_data := [example_elem], pb_elem_count := 1, pb_elem_max := 1,
     pb_node_id := replicate SOS_DEFAULT_STRING_LEN 0, pb_prog_name := replicate SOS_DEFAULT_STRING_LEN 0,
     pb_prog_ver := replicate SOS_DEFAULT_STRING_LEN 0, pb_pragma_msg := replicate SOS_DEFAULT_STRING_LEN 0,
     pb_title := replicate SOS_DEFAULT_STRING_LEN 0\<rparr>"

lemma example_used: "pub_used example_source = [example_elem]"
  by (simp add: pub_used_def example_source_def)

lemma example_name: "name_fits (dt_name example_elem)" "cstr (dt_name example_elem) = str ''temp''"
proof -
  have "name_fits (strncpy_array SOS_DEFAULT_STRING_LEN (str ''temp''))"
    by (simp add: name_fits_def strncpy_array_def str_def byte_of_char_def SOS_DEFAULT_STRING_LEN_def)
  then show "name_fits (dt_name example_elem)" by (simp add: example_elem_def)
  show "cstr (dt_name example_elem) = str ''temp''"
    by (simp add: example_elem_def strncpy_array_def str_def byte_of_char_def SOS_DEFAULT_STRING_LEN_def cstr_def)
qed

lemma example_well_defined: "well_defined example_source"
proof -
  have "name_fits (replicate SOS_DEFAULT_STRING_LEN 0)" by (simp add: name_fits_def SOS_DEFAULT_STRING_LEN_def)
  then show ?thesis
    using example_name
    by (simp add: well_defined_def announceable_def example_used)
      (simp add: example_source_def pub_strings_def INT_MAX_def example_elem_def)
qed

lemma example_elem_enc: "length (encode (elem_args example_elem)) = 48" "data_fits (0, mark_sent (Fin 0) example_elem)"
  "is_dirty example_elem"
proof -
  show "length (encode (elem_args example_elem)) = 48"
    using example_name(2) by (simp add: elem_args_def str_def)
  show d: "is_dirty example_elem" by (simp add: is_dirty_def example_elem_def)
  show "data_fits (0, mark_sent (Fin 0) example_elem)"
    by (simp add: data_fits_def mark_sent_def d val_sendable_def is_finite_def) (simp add: example_elem_def new_data_def zero_time_def)
qed

lemma example_bodies:
  "24 + length (announce_body example_source) \<le> MSG_LIMIT" "publishable (Fin 0) example_source"
  "24 + length (publish_body 0 (Fin 0) example_source) \<le> MSG_LIMIT"
proof -
  have "cstr (replicate n 0) = []" for n by (cases n) (simp_all add: cstr_def)
  then show "24 + length (announce_body example_source) \<le> MSG_LIMIT"
    by (simp add: announce_body_def example_used example_elem_enc MSG_LIMIT_def) (simp add: meta_args_def example_source_def)
  have dirty: "dirty_elems (Fin 0) [example_elem] = [(0, mark_sent (Fin 0) example_elem)]"
    by (simp add: dirty_elems_def example_elem_enc)
  then show "publishable (Fin 0) example_source"
    by (simp add: publishable_def example_used example_elem_enc) (simp add: example_source_def)
  have "length (data_enc 0 (0, mark_sent (Fin 0) example_elem)) \<le> 100"
    using length_enc_double [of "tm_pack (dt_time (mark_sent (Fin 0) example_elem))"]
      length_enc_double [of "tm_send (dt_time (mark_sent (Fin 0) example_elem))"]
    by (simp add: data_enc_def data_args_def) (simp add: example_elem_def)
  then show "24 + length (publish_body 0 (Fin 0) example_source) \<le> MSG_LIMIT"
    by (simp add: publish_body_def example_used dirty MSG_LIMIT_def)
qed

section \<open>Properties\<close>

text \<open>
  C5: Announcing round-trips: the daemon that applies an announcement to a handle it has just
  created holds the client's publication: the same GUID, metadata, cache depth and element count,
  every element with the client's GUID, name, type and metadata, found under the client's name.
\<close>

theorem announcement_mirrored:
  assumes "well_defined pub" and "24 + length (announce_body pub) \<le> MSG_LIMIT" and "fresh_msg buffer"
    and "SOS_pub_init dcx pool title nature = Inr (pool', old)"
  shows "\<exists>b b' dpub. SOS_announce_to_buffer cx pub buffer = Inr (pub\<lparr>pb_announced := 1\<rparr>, b) \<and>
    SOS_announce_from_buffer b old = Inr (b', dpub) \<and> mirrors pub dpub"
proof -
  have old: "fresh_handle old" by (rule SOS_pub_init_fresh [OF assms(4)])
  have a: "announceable pub" using assms(1) by (simp add: well_defined_def)
  obtain b where b: "SOS_announce_to_buffer cx pub buffer = Inr (pub\<lparr>pb_announced := 1\<rparr>, b)"
      "is_msg (msg_header_of SOS_MSG_TYPE_ANNOUNCE (cx_my_guid cx) (pb_guid pub)) (announce_body pub) b"
    using announce_to_buffer_ok [OF a assms(3,2)] by blast
  then obtain b' where "SOS_announce_from_buffer b old = Inr (b', announced (pb_guid pub) pub old)"
    using announce_from_buffer_ok [OF b(2) a, of old] old by (auto simp: fresh_handle_def msg_header_of_def)
  then show ?thesis using b(1) announced_mirrors [OF assms(1) old] by blast
qed

theorem announcement_mirrored_witness:
  "\<exists>pool' old b b' dpub. SOS_pub_init example_ctx (SOS_uid_init 1 100) (str ''t'') SOS_NATURE_DEFAULT = Inr (pool', old) \<and>
    SOS_announce_to_buffer example_ctx example_source SOS_buffer_init = Inr (example_source\<lparr>pb_announced := 1\<rparr>, b) \<and>
    SOS_announce_from_buffer b old = Inr (b', dpub) \<and> SOS_pub_search dpub (dt_name example_elem) = 0"
proof -
  obtain pool' old where i: "SOS_pub_init example_ctx (SOS_uid_init 1 100) (str ''t'') SOS_NATURE_DEFAULT = Inr (pool', old)"
    using SOS_pub_init_ok [of 1 "SOS_uid_init 1 100" example_ctx "str ''t''" SOS_NATURE_DEFAULT]
    by (auto simp: example_ctx_def pool_ready_def SOS_uid_init_def SOS_DEFAULT_UID_MAX_def)
  from announcement_mirrored [OF example_well_defined example_bodies(1) fresh_msg_init this, of example_ctx]
  show ?thesis using i by (auto simp: mirrors_def example_used)
qed

text \<open>
  C6: Publishing delivers: applied to the daemon's mirror of the publication, the message gives
  every dirty element the client's value, length and times, clean; it leaves every other element,
  sets the frame, frees the lock, and the daemon's elements still have the client's types. On the
  client's side the frame is counted and no element is dirty any more.
\<close>

theorem publication_arrives:
  assumes "publishable now pub" and "24 + length (publish_body hi now pub) \<le> MSG_LIMIT" and "fresh_msg buffer"
    and "mirrors pub dpub" and "types_match (pub_used pub) dpub"
  shows "\<exists>b b' pub' dpub'. SOS_publish_to_buffer cx hi now pub buffer = Inr (pub', b) \<and>
    SOS_publish_from_buffer b dpub = Inr (b', dpub') \<and>
    pb_frame pub' = pb_frame pub + 1 \<and> (\<forall>i < length (pub_used pub). \<not> is_dirty (pb_data pub' ! i)) \<and>
    \<not> pb_lock dpub' \<and> pb_frame dpub' = pb_frame pub \<and> types_match (pub_used pub) dpub' \<and>
    (\<forall>i < length (pub_used pub).
       if is_dirty (pub_used pub ! i) then received_elem (pub_used pub ! i) (pb_data dpub' ! i) now
       else pb_data dpub' ! i = pb_data dpub ! i)"
proof -
  let ?ds = "pub_used pub"
  obtain b where b: "SOS_publish_to_buffer cx hi now pub buffer = Inr (sent_off now pub, b)"
      "is_msg (msg_header_of SOS_MSG_TYPE_PUBLISH (cx_my_guid cx) (pb_guid pub)) (publish_body hi now pub) b"
    using publish_to_buffer_ok [OF assms(1,3,2)] by (auto simp: sent_off_def)
  have "\<not> pb_lock dpub" using assms(4) by (simp add: mirrors_def)
  from publish_from_buffer_ok [OF b(2) assms(1) this assms(5,2)] obtain b' dpub' where
    d: "SOS_publish_from_buffer b dpub = Inr (b', dpub')" "\<not> pb_lock dpub'" "pb_frame dpub' = pb_frame pub"
      "length (pb_data dpub') = length (pb_data dpub)"
      "\<And>i. i < length ?ds \<Longrightarrow> pb_data dpub' ! i =
         (if is_dirty (?ds ! i) then data_update hi (mark_sent now (?ds ! i)) (pb_data dpub ! i) else pb_data dpub ! i)"
    by blast
  have rec: "received_elem (?ds ! i) (pb_data dpub' ! i) now" if "i < length ?ds" "is_dirty (?ds ! i)" for i
    using data_update_received d(5) that assms(4) by (simp add: mirrors_def)
  have fits: "val_fits (dt_type (?ds ! i)) (val_received (dt_val_len (?ds ! i)) (dt_val (?ds ! i)))"
    if "i < length ?ds" "is_dirty (?ds ! i)" for i
  proof -
    have "(i, mark_sent now (?ds ! i)) \<in> set (dirty_elems now ?ds)"
      using map_of_dirty [OF that(1), of now] that(2) map_of_SomeD by force
    then have "data_fits (i, mark_sent now (?ds ! i))" using assms(1) by (simp add: publishable_def)
    then show ?thesis by (auto simp: data_fits_def intro: val_fits_received)
  qed
  have "types_match ?ds dpub'"
    using assms(5) d(4,5) rec fits by (auto simp: types_match_def received_elem_def)
  then show ?thesis
    using b(1) d rec sent_off_clean by (intro exI conjI) auto
qed

theorem publication_arrives_witness:
  "\<exists>dann b b' pub' dpub'. mirrors example_source dann \<and>
    SOS_publish_to_buffer example_ctx 0 (Fin 0) example_source SOS_buffer_init = Inr (pub', b) \<and>
    SOS_publish_from_buffer b dann = Inr (b', dpub') \<and> dt_val (pb_data dpub' ! 0) = Val_i 21"
proof -
  obtain pool' old where i: "SOS_pub_init example_ctx (SOS_uid_init 1 100) (str ''t'') SOS_NATURE_DEFAULT = Inr (pool', old)"
    using SOS_pub_init_ok [of 1 "SOS_uid_init 1 100" example_ctx "str ''t''" SOS_NATURE_DEFAULT]
    by (auto simp: example_ctx_def pool_ready_def SOS_uid_init_def SOS_DEFAULT_UID_MAX_def)
  let ?d = "announced (pb_guid example_source) example_source old"
  have m: "mirrors example_source ?d" by (rule announced_mirrors [OF example_well_defined SOS_pub_init_fresh [OF i]])
  have "typed_elems (pub_used example_source)"
    by (simp add: typed_elems_def example_used val_fits_def) (simp add: example_elem_def new_data_def SOS_val_type_enum.decode_code)
  then have t: "types_match (pub_used example_source) ?d"
    by (rule announced_types_match [OF example_well_defined SOS_pub_init_fresh [OF i]])
  from publication_arrives [OF example_bodies(2,3) fresh_msg_init m t, of example_ctx] obtain b b' pub' dpub' where
    "SOS_publish_to_buffer example_ctx 0 (Fin 0) example_source SOS_buffer_init = Inr (pub', b)"
    "SOS_publish_from_buffer b ?d = Inr (b', dpub')" "received_elem example_elem (pb_data dpub' ! 0) (Fin 0)"
    by (auto simp: example_used example_elem_enc)
  then show ?thesis using m by (force simp: received_elem_def example_elem_def)
qed

text \<open>
  C7: Snapshots arrive in order: flushing a client's queue empties it, and the daemon that applies
  the message appends exactly these snapshots, in their order, with their elements, frames and
  values, to its own queue; with a cache it also stores their copies as its newest frame.
\<close>

theorem snapshots_arrive_in_order:
  assumes "pb_snap_queue pub = Some q" and "queue_ok (cx_mincap cx) q" and "queued pub \<noteq> []" and "snaps_sendable clock pub"
    and "fresh_msg buffer" and "queue_ok mincap dq" and "length (pipe_content (sq_pipe dq)) + length (queued pub) + 1 \<le> mincap"
    and "adds_to_cache dpub \<longrightarrow> cache_ok dpub"
  shows "\<exists>pub' b b' dq' dpub'. SOS_val_snap_queue_to_buffer cx clock pub buffer = Inr (pub', b) \<and> queued pub' = [] \<and>
    SOS_val_snap_queue_from_buffer mincap clock' b (Some dq) (Some dpub) = Inr (b', Some dq', Some dpub') \<and>
    pipe_content (sq_pipe dq') = pipe_content (sq_pipe dq) @
      map (snap_received clock (pb_guid dpub)) (zip [0..<length (queued pub)] (queued pub)) \<and>
    (adds_to_cache dpub \<longrightarrow>
       cache_frames dpub' = Chain (map (\<lambda>(i, s). cached_copy (clock' i) s) (zip [0..<length (queued pub)]
         (map (snap_received clock (pb_guid dpub)) (zip [0..<length (queued pub)] (queued pub))))) # butlast (cache_frames dpub))"
proof -
  obtain q' b where b: "SOS_val_snap_queue_to_buffer cx clock pub buffer = Inr (pub\<lparr>pb_snap_queue := Some q'\<rparr>, b)"
      "pipe_content (sq_pipe q') = []"
      "is_msg (msg_header_of SOS_MSG_TYPE_VAL_SNAPS (cx_my_guid cx) (pb_guid pub)) (snaps_body clock (queued pub)) b"
    using snaps_to_buffer_ok [OF assms(1-3,5), of clock] assms(4) by (auto simp: snaps_sendable_def)
  have "24 + length (snaps_body clock (queued pub)) \<le> MSG_LIMIT"
    "\<forall>x \<in> set (zip [0..<length (queued pub)] (queued pub)). snap_fits clock pub x"
    using assms(4) by (auto simp: snaps_sendable_def)
  from snaps_from_buffer_ok [OF b(3) assms(3) this assms(6,7,8), of clock'] obtain b' dq' dpub' where
    "SOS_val_snap_queue_from_buffer mincap clock' b (Some dq) (Some dpub) = Inr (b', Some dq', Some dpub')"
    "pipe_content (sq_pipe dq') = pipe_content (sq_pipe dq) @
      map (snap_received clock (pb_guid dpub)) (zip [0..<length (queued pub)] (queued pub))"
    "adds_to_cache dpub \<longrightarrow>
       cache_frames dpub' = Chain (map (\<lambda>(i, s). cached_copy (clock' i) s) (zip [0..<length (queued pub)]
         (map (snap_received clock (pb_guid dpub)) (zip [0..<length (queued pub)] (queued pub))))) # butlast (cache_frames dpub)"
    by auto
  moreover have "queued (pub\<lparr>pb_snap_queue := Some q'\<rparr>) = []" using b(2) by (simp add: queued_def)
  ultimately show ?thesis using b(1) by blast
qed


text \<open>A queue that holds one snapshot of the example's element.\<close>

definition example_snap :: SOS_val_snap where
  "example_snap = zero_snap\<lparr>sn_guid := 11, sn_type := val_type_code SOS_VAL_TYPE_INT, sn_val := Val_i 21\<rparr>"

lemma example_queue:
  obtains q q0 where "queue_ok 5 q" and "pipe_content (sq_pipe q) = [example_snap]"
    and "queue_ok 5 q0" and "pipe_content (sq_pipe q0) = []"
proof -
  obtain p :: "SOS_val_snap pipe_t" where p: "ring_ok 5 p" "pipe_content p = []" "pp_elem_size p = 1"
    using SOS_pipe_init_ok [of 5 1 zero_snap] by auto
  then have q0: "queue_ok 5 \<lparr>sq_pipe = p, sq_elem_count = 0, sq_sync_lock = False\<rparr>" by (simp add: queue_ok_def flip: length_pipe_content)
  obtain q' where "queue_ok 5 q'" "pipe_content (sq_pipe q') = [example_snap]"
    using queue_push_many [OF q0, of "[example_snap]"] p(2) by (auto simp flip: length_pipe_content)
  then show ?thesis using that q0 p(2) by force
qed

lemma example_snaps_sendable:
  assumes "pb_snap_queue pub = Some q" and "pipe_content (sq_pipe q) = [example_snap]" and "pb_data pub = [example_elem]"
  shows "snaps_sendable (\<lambda>_. Fin 0) pub" and "queued pub = [example_snap]"
proof -
  show q: "queued pub = [example_snap]" using assms by (simp add: queued_def)
  have "snap_fits (\<lambda>_. Fin 0) pub (0, example_snap)"
    using assms(3) by (simp add: snap_fits_def is_finite_def val_sendable_def example_snap_def zero_snap_def zero_time_def example_elem_def)
  moreover have "length (snap_enc (\<lambda>_. Fin 0) (0, example_snap)) \<le> 100"
    using length_enc_double [of "Fin 0"]
    by (simp add: snap_enc_def snap_args_def stamp_send_def example_snap_def zero_snap_def zero_time_def)
  ultimately show "snaps_sendable (\<lambda>_. Fin 0) pub"
    by (simp add: snaps_sendable_def q snaps_body_def MSG_LIMIT_def)
qed

theorem snapshots_arrive_in_order_witness:
  "\<exists>pub pub' b b' dq dq' dpub'. queued pub = [example_snap] \<and> pipe_content (sq_pipe dq) = [] \<and>
    SOS_val_snap_queue_to_buffer example_ctx (\<lambda>_. Fin 0) pub SOS_buffer_init = Inr (pub', b) \<and> queued pub' = [] \<and>
    SOS_val_snap_queue_from_buffer 5 (\<lambda>_. Fin 0) b (Some dq) (Some example_pub) = Inr (b', Some dq', Some dpub') \<and>
    map sn_val (pipe_content (sq_pipe dq')) = [Val_i 21]"
proof -
  obtain q q0 where q: "queue_ok 5 q" "pipe_content (sq_pipe q) = [example_snap]" "queue_ok 5 q0" "pipe_content (sq_pipe q0) = []"
    by (rule example_queue)
  let ?pub = "example_source\<lparr>pb_snap_queue := Some q\<rparr>"
  have d: "pb_data ?pub = [example_elem]" "pb_snap_queue ?pub = Some q" by (simp_all add: example_source_def)
  note s = example_snaps_sendable [OF d(2) q(2) d(1)]
  have m: "cx_mincap example_ctx = 5" by (simp add: example_ctx_def)
  have c: "cache_ok example_pub" by (simp add: cache_ok_def example_pub_def SOS_nature_enum.code_inject)
  have "queue_ok (cx_mincap example_ctx) q" "queued ?pub \<noteq> []" "adds_to_cache example_pub \<longrightarrow> cache_ok example_pub"
    "length (pipe_content (sq_pipe q0)) + length (queued ?pub) + 1 \<le> 5"
    using q m s(2) c by (simp_all del: length_pipe_content)
  from snapshots_arrive_in_order [OF d(2) this(1,2) s(1) fresh_msg_init q(3) this(4,3)] s(2) q(4)
  show ?thesis by (force simp: snap_received_def example_snap_def)
qed

text \<open>
  C4: One call of \<open>SOS_publish\<close> on a client's handle, with the link up, sends everything the
  handle has: the announcement if it was not announced yet, the publication of the dirty elements,
  and the queued snapshots if there are any, in this order. It returns with the lock free, the
  handle announced, the frame counted, the queue empty and no element dirty.
\<close>

theorem publish_sends_everything:
  assumes "announceable pub" and "24 + length (announce_body pub) \<le> MSG_LIMIT" and "\<not> pb_lock pub" and "link_up cx"
    and "sendable clock hi pub" and "pb_snap_queue pub = Some q" and "queue_ok (cx_mincap cx) q"
  shows "\<exists>pub' ann sent. SOS_publish cx hi clock pub = Inr (pub', ann @ sent) \<and> publish_msgs cx hi clock pub sent \<and>
    (if pb_announced pub = 0
     then \<exists>a. ann = [a] \<and> is_msg (msg_header_of SOS_MSG_TYPE_ANNOUNCE (cx_my_guid cx) (pb_guid pub)) (announce_body pub) a
     else ann = []) \<and>
    \<not> pb_lock pub' \<and> pb_announced pub' \<noteq> 0 \<and> pb_frame pub' = pb_frame pub + 1 \<and> queued pub' = [] \<and>
    (\<forall>i < length (pub_used pub). \<not> is_dirty (pb_data pub' ! i))"
proof (cases "pb_announced pub = 0")
  case True
  obtain pub' ann sent where p: "SOS_publish cx hi clock pub = Inr (pub', ann # sent)" "publish_msgs cx hi clock pub sent"
      "is_msg (msg_header_of SOS_MSG_TYPE_ANNOUNCE (cx_my_guid cx) (pb_guid pub)) (announce_body pub) ann"
      "flushed (cx_mincap cx) (clock 0) (pub\<lparr>pb_announced := 1\<rparr>) pub'"
    using SOS_publish_first [OF assms True] by blast
  have "\<not> pb_lock pub' \<and> pb_announced pub' \<noteq> 0 \<and> pb_frame pub' = pb_frame pub + 1 \<and> queued pub' = [] \<and>
    (\<forall>i < length (pub_used pub). \<not> is_dirty (pb_data pub' ! i))"
    using p(4) assms(3) sent_off_clean [of _ "pub\<lparr>pb_announced := 1\<rparr>"] by (auto simp: flushed_def queued_def)
  then show ?thesis using True p(1-3) by (intro exI [of _ pub'] exI [of _ "[ann]"] exI [of _ sent]) simp
next
  case False
  obtain pub' sent where p: "SOS_publish cx hi clock pub = Inr (pub', sent)" "publish_msgs cx hi clock pub sent"
      "flushed (cx_mincap cx) (clock 0) pub pub'"
    using SOS_publish_announced [OF False assms(3,4,5,6,7)] by blast
  have "\<not> pb_lock pub' \<and> pb_announced pub' \<noteq> 0 \<and> pb_frame pub' = pb_frame pub + 1 \<and> queued pub' = [] \<and>
    (\<forall>i < length (pub_used pub). \<not> is_dirty (pb_data pub' ! i))"
    using p(3) assms(3) False sent_off_clean [of _ pub] by (auto simp: flushed_def queued_def)
  then show ?thesis using False p(1,2) by (intro exI [of _ pub'] exI [of _ "[]"] exI [of _ sent]) simp
qed

theorem publish_sends_everything_witness:
  "\<exists>q pub' sent. queued (example_source\<lparr>pb_snap_queue := Some q\<rparr>) = [example_snap] \<and>
    SOS_publish example_ctx 0 (\<lambda>_. Fin 0) (example_source\<lparr>pb_snap_queue := Some q\<rparr>) = Inr (pub', sent) \<and> length sent = 3 \<and> queued pub' = []"
proof -
  obtain q q0 where q: "queue_ok 5 q" "pipe_content (sq_pipe q) = [example_snap]" by (rule example_queue)
  let ?pub = "example_source\<lparr>pb_snap_queue := Some q\<rparr>"
  have d: "pb_data ?pub = [example_elem]" "pb_snap_queue ?pub = Some q" "\<not> pb_lock ?pub" "pb_announced ?pub = 0"
    by (simp_all add: example_source_def example_pub_def)
  note s = example_snaps_sendable [OF d(2) q(2) d(1)]
  have u: "pub_used ?pub = pub_used example_source" "meta_args ?pub = meta_args example_source" "pub_strings ?pub = pub_strings example_source"
    by (simp_all add: pub_used_def meta_args_def pub_strings_def)
  then have b: "announce_body ?pub = announce_body example_source" "publish_body 0 (Fin 0) ?pub = publish_body 0 (Fin 0) example_source"
    by (simp_all add: announce_body_def publish_body_def)
  have a: "announceable ?pub" "link_up example_ctx" "queue_ok (cx_mincap example_ctx) q"
    using example_well_defined u q(1) by (auto simp: well_defined_def announceable_def link_up_def example_ctx_def)
  have "sendable (\<lambda>_. Fin 0) 0 ?pub"
    using s(1) b(2) example_bodies u(1) by (simp add: sendable_def publishable_def)
  from publish_sends_everything [OF a(1) _ d(3) a(2) this d(2) a(3)] b(1) example_bodies(1) d(4) s(2)
  show ?thesis by (force simp: publish_msgs_def)
qed


text \<open>
  C40: The publication format sends the \<open>int\<close> field \<open>semantic\<close> as a \<open>long\<close>, and the daemon
  stores the eight bytes over \<open>semantic\<close> and the field behind it: after one publication the
  classifier of a published element is whatever the upper half of the argument slot held.
\<close>

theorem publish_overwrites_classifier:
  assumes "publishable now pub" and "24 + length (publish_body hi now pub) \<le> MSG_LIMIT" and "fresh_msg buffer"
    and "\<not> pb_lock dpub" and "types_match (pub_used pub) dpub" and "i < length (pub_used pub)" and "is_dirty (pub_used pub ! i)"
  shows "\<exists>b b' pub' dpub'. SOS_publish_to_buffer cx hi now pub buffer = Inr (pub', b) \<and>
    SOS_publish_from_buffer b dpub = Inr (b', dpub') \<and> vm_classifier (dt_meta (pb_data dpub' ! i)) = hi"
proof -
  obtain b where b: "SOS_publish_to_buffer cx hi now pub buffer = Inr (sent_off now pub, b)"
      "is_msg (msg_header_of SOS_MSG_TYPE_PUBLISH (cx_my_guid cx) (pb_guid pub)) (publish_body hi now pub) b"
    using publish_to_buffer_ok [OF assms(1,3,2)] by (auto simp: sent_off_def)
  from publish_from_buffer_ok [OF b(2) assms(1,4,5,2)] assms(6,7) obtain b' dpub' where
    "SOS_publish_from_buffer b dpub = Inr (b', dpub')"
    "pb_data dpub' ! i = data_update hi (mark_sent now (pub_used pub ! i)) (pb_data dpub ! i)" by auto
  then show ?thesis using b(1) by (auto simp: data_update_def)
qed

theorem publish_overwrites_classifier_witness:
  "\<exists>dann b b' pub' dpub'. vm_classifier (dt_meta example_elem) = vm_classifier (dt_meta (pb_data dann ! 0)) \<and>
    SOS_publish_to_buffer example_ctx 99 (Fin 0) example_source SOS_buffer_init = Inr (pub', b) \<and>
    SOS_publish_from_buffer b dann = Inr (b', dpub') \<and> vm_classifier (dt_meta (pb_data dpub' ! 0)) = 99"
proof -
  let ?dann = "example_source\<lparr>pb_lock := False\<rparr>"
  have d: "pb_data ?dann = [example_elem]" by (simp add: example_source_def)
  have t: "types_match (pub_used example_source) ?dann"
    by (simp add: types_match_def d example_used val_fits_def) (simp add: example_elem_def new_data_def SOS_val_type_enum.decode_code)
  have "length (data_enc 99 (0, mark_sent (Fin 0) example_elem)) \<le> 100"
    using length_enc_double [of "tm_pack (dt_time (mark_sent (Fin 0) example_elem))"]
      length_enc_double [of "tm_send (dt_time (mark_sent (Fin 0) example_elem))"]
    by (simp add: data_enc_def data_args_def) (simp add: example_elem_def)
  then have "24 + length (publish_body 99 (Fin 0) example_source) \<le> MSG_LIMIT"
    by (simp add: publish_body_def example_used dirty_elems_def example_elem_enc MSG_LIMIT_def)
  from publish_overwrites_classifier [OF example_bodies(2) this fresh_msg_init _ t, of 0 example_ctx] d
  show ?thesis by (force simp: example_used example_elem_enc)
qed

text \<open>
  The daemon unpacks the strings of an announcement into arrays that are not cleared and the
  unpacker writes no terminator: a title shorter than the one the handle was created with keeps
  the rest of the old one. (The daemon creates its handles with the decimal GUID as title.)
\<close>

theorem announce_keeps_old_title:
  assumes "well_defined pub" and "24 + length (announce_body pub) \<le> MSG_LIMIT" and "fresh_msg buffer"
    and "SOS_pub_init dcx pool title nature = Inr (pool', old)"
    and "length (cstr (pb_title pub)) < length (cstr title)" and "length (cstr title) < SOS_DEFAULT_STRING_LEN"
  shows "\<exists>b b' dpub. SOS_announce_to_buffer cx pub buffer = Inr (pub\<lparr>pb_announced := 1\<rparr>, b) \<and>
    SOS_announce_from_buffer b old = Inr (b', dpub) \<and>
    cstr (pb_title dpub) = cstr (pb_title pub) @ drop (length (cstr (pb_title pub))) (cstr title) \<and>
    cstr (pb_title dpub) \<noteq> cstr (pb_title pub)"
proof -
  let ?t = "cstr (pb_title pub)"
  have old: "fresh_handle old" by (rule SOS_pub_init_fresh [OF assms(4)])
  have a: "announceable pub" using assms(1) by (simp add: well_defined_def)
  obtain b where b: "SOS_announce_to_buffer cx pub buffer = Inr (pub\<lparr>pb_announced := 1\<rparr>, b)"
      "is_msg (msg_header_of SOS_MSG_TYPE_ANNOUNCE (cx_my_guid cx) (pb_guid pub)) (announce_body pub) b"
    using announce_to_buffer_ok [OF a assms(3,2)] by blast
  then obtain b' where r: "SOS_announce_from_buffer b old = Inr (b', announced (pb_guid pub) pub old)"
    using announce_from_buffer_ok [OF b(2) a, of old] old by (auto simp: fresh_handle_def msg_header_of_def)
  have "pb_title old = strncpy_array SOS_DEFAULT_STRING_LEN (cstr title)"
    using assms(4) by (auto simp: SOS_pub_init_def SOS_pub_init_sized_def res_simps split: if_splits option.splits)
  moreover have "pb_title (announced (pb_guid pub) pub old) = overlay (pb_title pub) (pb_title old)"
    using elems_fold_keeps [of "zip [0..<length (pub_used pub)] (pub_used pub)"]
    by (simp add: announced_def pub_strings_def grow_elems_def Let_def meta_received_def)
  ultimately have title: "pb_title (announced (pb_guid pub) pub old) = ?t @ drop (length ?t) (cstr title) @ [0] @ replicate (255 - length (cstr title)) 0"
    using assms(5,6) by (simp add: overlay_def strncpy_array_def SOS_DEFAULT_STRING_LEN_def Suc_diff_le flip: replicate_Suc)
  have "wf_cstring (?t @ drop (length ?t) (cstr title))"
    using wf_cstr [of "pb_title pub"] wf_cstr [of title] by (auto simp: wf_cstring_def dest: in_set_dropD)
  then have "cstr (pb_title (announced (pb_guid pub) pub old)) = ?t @ drop (length ?t) (cstr title)"
    unfolding title using cstr_append_NUL [of "?t @ drop (length ?t) (cstr title)"] by simp
  then show ?thesis using b(1) r assms(5) by fastforce
qed

theorem announce_keeps_old_title_witness:
  "\<exists>pool' old b b' dpub. SOS_pub_init example_ctx (SOS_uid_init 1 100) (str ''1234'') SOS_NATURE_DEFAULT = Inr (pool', old) \<and>
    cstr (pb_title example_source) = [] \<and>
    SOS_announce_to_buffer example_ctx example_source SOS_buffer_init = Inr (example_source\<lparr>pb_announced := 1\<rparr>, b) \<and>
    SOS_announce_from_buffer b old = Inr (b', dpub) \<and> cstr (pb_title dpub) = str ''1234''"
proof -
  obtain pool' old where i: "SOS_pub_init example_ctx (SOS_uid_init 1 100) (str ''1234'') SOS_NATURE_DEFAULT = Inr (pool', old)"
    using SOS_pub_init_ok [of 1 "SOS_uid_init 1 100" example_ctx "str ''1234''" SOS_NATURE_DEFAULT]
    by (auto simp: example_ctx_def pool_ready_def SOS_uid_init_def SOS_DEFAULT_UID_MAX_def)
  have t: "cstr (str ''1234'') = str ''1234''" by (simp add: str_def byte_of_char_def cstr_def)
  have e: "cstr (pb_title example_source) = []" by (simp add: example_source_def SOS_DEFAULT_STRING_LEN_def cstr_def)
  have l: "length (cstr (pb_title example_source)) < length (cstr (str ''1234''))" "length (cstr (str ''1234'')) < SOS_DEFAULT_STRING_LEN"
    unfolding t e by (simp_all add: str_def SOS_DEFAULT_STRING_LEN_def)
  from announce_keeps_old_title [OF example_well_defined example_bodies(1) fresh_msg_init i l, of example_ctx]
  show ?thesis using i e t by auto
qed

text \<open>
  Flushing an empty queue sends nothing, and releases the lock of the publication that its
  caller holds and still relies on.
\<close>

theorem empty_flush_drops_lock:
  assumes "pb_snap_queue pub = Some q" and "\<not> sq_sync_lock q" and "sq_elem_count q \<le> 0"
  shows "SOS_val_snap_queue_to_buffer cx clock (pub\<lparr>pb_lock := True\<rparr>) buffer = Inr (pub\<lparr>pb_lock := False\<rparr>, buffer)"
  using assms by (simp add: SOS_val_snap_queue_to_buffer_def)


theorem empty_flush_drops_lock_witness:
  "\<exists>q. pipe_content (sq_pipe q) = [] \<and>
    SOS_val_snap_queue_to_buffer example_ctx (\<lambda>_. Fin 0) (example_pub\<lparr>pb_snap_queue := Some q, pb_lock := True\<rparr>) SOS_buffer_init =
      Inr (example_pub\<lparr>pb_snap_queue := Some q, pb_lock := False\<rparr>, SOS_buffer_init)"
proof -
  obtain q0 where q: "queue_ok 5 q0" "pipe_content (sq_pipe q0) = []" by (rule example_queue)
  then have "\<not> sq_sync_lock q0" "sq_elem_count q0 \<le> 0" by (auto simp: queue_ok_def simp flip: length_pipe_content)
  then show ?thesis using empty_flush_drops_lock [of "example_pub\<lparr>pb_snap_queue := Some q0\<rparr>" q0] q(2) by auto
qed

end
