(* ===== verification/SOS_Target.thy ===== *)
theory SOS_Target
  imports SOS_Session
begin

text \<open>
  Messages over sockets (\<open>sos_target.c\<close>, and \<open>SOS_send_to_daemon\<close> of \<open>sos.c\<close>): sending a
  whole buffer, receiving one message in however many pieces the socket delivers it, and the
  exchange of a client with its daemon under the lock of the socket.

  What the operating system does is an input of the model: the list of the results its \<open>recv\<close>
  (\<open>send\<close>) calls return, in order. A call on an exhausted list \<open>Blocks\<close>. Name resolution,
  addresses and the descriptors themselves are not modelled; \<open>connects\<close> says whether a
  connection can be made.
\<close>

section \<open>Receiving\<close>

text \<open>An empty piece is the end of the stream.\<close>

datatype recv_result = Recv "byte list" | Recv_Error

fun sys_recv :: "nat \<Rightarrow> recv_result list \<Rightarrow> (recv_result \<times> recv_result list) res" where
  "sys_recv n [] = Inl Blocks"
| "sys_recv n (Recv_Error # rs) = Inr (Recv_Error, rs)"
| "sys_recv n (Recv bs # rs) =
     (if length bs \<le> n then Inr (Recv bs, rs) else Inr (Recv (take n bs), Recv (drop n bs) # rs))"

function recv_grow :: "int \<Rightarrow> SOS_buffer \<Rightarrow> SOS_buffer res" where
  "recv_grow msg_size reply =
     (if int (buf_max reply) < msg_size
      then bindR (SOS_buffer_grow reply (nat (1 + (msg_size - int (buf_max reply))))) (recv_grow msg_size)
      else Inr reply)"
  by pat_completeness auto
termination
  by (relation "measure (\<lambda>(n, b). nat (n - int (buf_max b)))") (auto simp: SOS_buffer_grow_def Let_def res_simps)

declare recv_grow.simps [simp del]

fun recv_size :: "recv_result \<Rightarrow> nat" where
  "recv_size (Recv bs) = Suc (length bs)"
| "recv_size Recv_Error = 1"

lemma sys_recv_smaller:
  "sys_recv n rs = Inr (r, rs') \<Longrightarrow> 0 < n \<Longrightarrow> sum_list (map recv_size rs') < sum_list (map recv_size rs)"
  by (cases "(n, rs)" rule: sys_recv.cases) (auto split: if_splits)

lemma recv_grow_len: "recv_grow n b = Inr b' \<Longrightarrow> buf_len b' = buf_len b"
proof (induction n b rule: recv_grow.induct)
  case (1 n b)
  then show ?case
    by (subst (asm) recv_grow.simps) (auto simp: SOS_buffer_grow_def Let_def res_simps split: if_splits)
qed

function recv_loop :: "int \<Rightarrow> SOS_buffer \<Rightarrow> recv_result list \<Rightarrow> (SOS_buffer \<times> recv_result list \<times> int) res" where
  "recv_loop msg_size reply rs =
     (if int (buf_len reply) < msg_size
      then
        bindR (recv_grow msg_size reply) (\<lambda>reply.
        bindR (sys_recv (nat (msg_size - int (buf_len reply))) rs) (\<lambda>(rest, rs).
        case rest of
          Recv_Error \<Rightarrow> Inr (reply, rs, - 1)
        | Recv bs \<Rightarrow>
            bindR (mem_write (buf_len reply) bs (buf_data reply)) (\<lambda>d.
            recv_loop msg_size (reply\<lparr>buf_data := d, buf_len := buf_len reply + length bs\<rparr>) rs)))
      else Inr (reply, rs, int (buf_len reply)))"
  by pat_completeness auto

termination
  by (relation "measure (\<lambda>(n, b, rs). sum_list (map recv_size rs))") (auto dest!: recv_grow_len, erule sys_recv_smaller, simp)

declare recv_loop.simps [simp del]

text \<open>
  When the first \<open>recv\<close> fails, C leaves -1 in \<open>len\<close>, which the callers wipe or drop; here the
  length stays.
\<close>

definition SOS_target_recv_msg ::
    "bool \<Rightarrow> recv_result list \<Rightarrow> SOS_buffer option \<Rightarrow> (SOS_buffer option \<times> recv_result list \<times> int) res" where
  "SOS_target_recv_msg shutdown rs reply0 =
     (if shutdown then Inr (reply0, rs, - 1)
      else
        (let reply = (case reply0 of None \<Rightarrow> SOS_buffer_init_sized_locking SOS_DEFAULT_BUFFER_MAX False | Some b \<Rightarrow> b);
             given = (\<lambda>b. case reply0 of None \<Rightarrow> None | Some _ \<Rightarrow> Some b)
         in bindR (sys_recv (buf_max reply) rs) (\<lambda>(got, rs).
            case got of
              Recv_Error \<Rightarrow> Inr (given reply, rs, - 1)
            | Recv bs \<Rightarrow>
                bindR (mem_write 0 bs (buf_data reply)) (\<lambda>d.
                let reply = reply\<lparr>buf_data := d, buf_len := length bs\<rparr>
                in if 24 \<le> length bs
                   then bindR (SOS_msg_unzip reply 0) (\<lambda>(reply, header, _).
                        bindR (recv_loop (sint (hd_msg_size header)) reply rs) (\<lambda>(reply, rs, n). Inr (given reply, rs, n)))
                   else Inr (given reply, rs, - 1)))))"

section \<open>Sending\<close>

datatype send_result = Sent nat | Send_Error

text \<open>Every call asks for \<open>len\<close> bytes, also when some have been sent; \<open>out\<close> collects what is sent.\<close>

fun send_loop :: "SOS_buffer \<Rightarrow> nat \<Rightarrow> nat \<Rightarrow> byte list \<Rightarrow> send_result list \<Rightarrow> (byte list \<times> send_result list \<times> int \<times> bool) res" where
  "send_loop msg failed pos out rs =
     (if 8 \<le> failed then Inr (out, rs, - 1, False)
      else
        (case rs of
           [] \<Rightarrow> Inl Blocks
         | Send_Error # rs \<Rightarrow> send_loop msg (failed + 1) pos out rs
         | Sent k # rs \<Rightarrow>
             bindR (mem_read pos (min k (buf_len msg)) (buf_data msg)) (\<lambda>bs.
             let pos = pos + length bs
             in if buf_len msg \<le> pos then Inr (out @ bs, rs, int pos, True)
                else send_loop msg failed pos (out @ bs) rs)))"

declare send_loop.simps [simp del]

text \<open>The socket: its lock and whether it holds a connection.\<close>

record SOS_socket =
  tg_send_lock :: bool
  tg_connected :: bool

definition SOS_target_init :: SOS_socket where
  "SOS_target_init = \<lparr>tg_send_lock = False, tg_connected = False\<rparr>"

definition SOS_target_connect :: "bool \<Rightarrow> SOS_socket \<Rightarrow> (SOS_socket \<times> int) res" where
  "SOS_target_connect connects target =
     checkR (\<not> tg_send_lock target) Deadlock
       (Inr (if connects then (target\<lparr>tg_send_lock := True, tg_connected := True\<rparr>, 0)
             else (target\<lparr>tg_send_lock := False, tg_connected := False\<rparr>, - 1)))"

definition SOS_target_disconnect :: "SOS_socket \<Rightarrow> SOS_socket" where
  "SOS_target_disconnect target = target\<lparr>tg_send_lock := False, tg_connected := False\<rparr>"

definition SOS_target_destroy :: "SOS_socket \<Rightarrow> unit res" where
  "SOS_target_destroy target = checkR (\<not> tg_send_lock target) Deadlock (Inr ())"

text \<open>Giving up after eight failures releases the lock; being suppressed does not.\<close>

definition SOS_target_send_msg ::
    "bool \<Rightarrow> bool \<Rightarrow> SOS_socket \<Rightarrow> SOS_buffer \<Rightarrow> send_result list \<Rightarrow> (SOS_socket \<times> byte list \<times> send_result list \<times> int) res" where
  "SOS_target_send_msg shutdown offline target msg rs =
     (if shutdown \<or> offline then Inr (target, [], rs, - 1)
      else
        bindR (send_loop msg 0 0 [] rs) (\<lambda>(out, rs, n, ok).
        Inr (if ok then target else target\<lparr>tg_send_lock := False\<rparr>, out, rs, n)))"

section \<open>A client and its daemon\<close>

definition SOS_send_to_daemon ::
    "bool \<Rightarrow> bool \<Rightarrow> bool \<Rightarrow> send_result list \<Rightarrow> recv_result list \<Rightarrow> SOS_socket \<Rightarrow> SOS_buffer \<Rightarrow> SOS_buffer option \<Rightarrow>
     (SOS_socket \<times> byte list \<times> SOS_buffer option) res" where
  "SOS_send_to_daemon connects shutdown offline sends recvs daemon message reply =
     bindR (SOS_target_connect connects daemon) (\<lambda>(daemon, rc).
     if rc \<noteq> 0 then Inr (daemon, [], reply)
     else
       bindR (SOS_target_send_msg shutdown offline daemon message sends) (\<lambda>(daemon, out, _, rc).
       if rc < 1 then Inr (daemon, out, reply)
       else
         bindR (SOS_target_recv_msg shutdown recvs reply) (\<lambda>(reply, _, _).
         Inr (SOS_target_disconnect daemon, out, reply))))"

section \<open>Reassembly\<close>

text \<open>What a stream without errors still holds.\<close>

fun stream_bytes :: "recv_result list \<Rightarrow> byte list" where
  "stream_bytes [] = []"
| "stream_bytes (Recv bs # rs) = bs @ stream_bytes rs"
| "stream_bytes (Recv_Error # rs) = stream_bytes rs"

definition stream_ok :: "recv_result list \<Rightarrow> bool" where
  "stream_ok rs \<longleftrightarrow> (\<forall>r \<in> set rs. \<exists>bs. r = Recv bs \<and> bs \<noteq> [])"

lemma stream_ok_empty: "stream_ok rs \<Longrightarrow> stream_bytes rs = [] \<longleftrightarrow> rs = []"
  by (cases rs) (auto simp: stream_ok_def)

lemma sys_recv_stream:
  assumes "stream_ok rs" and "rs \<noteq> []" and "0 < n"
  shows "\<exists>bs rs'. sys_recv n rs = Inr (Recv bs, rs') \<and> bs \<noteq> [] \<and> length bs \<le> n \<and> stream_ok rs' \<and>
    stream_bytes rs = bs @ stream_bytes rs'"
proof -
  obtain cs rs0 where rs: "rs = Recv cs # rs0" "cs \<noteq> []" "stream_ok rs0"
    using assms(1,2) by (cases rs) (auto simp: stream_ok_def)
  show ?thesis
    using assms(3) rs by (cases "length cs \<le> n") (auto simp: stream_ok_def)
qed

lemma recv_grow_ok:
  assumes "buffer_wf b" and "n + 3 \<le> int INT_MAX"
  shows "\<exists>b' k. recv_grow n b = Inr b' \<and> b' = b\<lparr>buf_max := buf_max b + k, buf_data := buf_data b @ replicate k 0\<rparr> \<and>
    buffer_wf b' \<and> n \<le> int (buf_max b') \<and> int (buf_max b') \<le> max (int (buf_max b)) (n + 2)"
proof (cases "int (buf_max b) < n")
  case True
  let ?k = "nat (1 + (n - int (buf_max b))) + 1"
  let ?b = "b\<lparr>buf_max := buf_max b + ?k, buf_data := buf_data b @ replicate ?k 0\<rparr>"
  have m: "int (buf_max b + ?k) = n + 2" using True by simp
  then have "int (buf_max b + ?k) \<le> int INT_MAX" using assms(2) by linarith
  then have le: "buf_max b + ?k \<le> INT_MAX" by (simp only: of_nat_le_iff)
  then have g: "SOS_buffer_grow b (nat (1 + (n - int (buf_max b)))) = Inr ?b"
    by (simp add: SOS_buffer_grow_def Let_def del: of_nat_add)
  have "recv_grow n b = recv_grow n ?b" using True g by (subst recv_grow.simps) simp
  also have "\<dots> = Inr ?b" using m by (subst recv_grow.simps) (simp del: of_nat_add)
  finally have "recv_grow n b = Inr ?b" .
  moreover have "buffer_wf ?b" using assms(1) le by (simp add: buffer_wf_def)
  ultimately show ?thesis using m True by (intro exI [of _ ?b] exI [of _ ?k]) (simp del: of_nat_add)
next
  case False
  then have "recv_grow n b = Inr b" by (subst recv_grow.simps) simp
  then show ?thesis using False assms(1) by (intro exI [of _ b] exI [of _ 0]) auto
qed

text \<open>A buffer that holds the first part of a message.\<close>

definition receiving :: "SOS_buffer \<Rightarrow> byte list \<Rightarrow> bool" where
  "receiving b bs \<longleftrightarrow> buffer_wf b \<and> take (buf_len b) (buf_data b) = bs"

lemma receiving_length: "receiving b bs \<Longrightarrow> length bs = buf_len b"
  by (auto simp: receiving_def buffer_wf_def)

lemma recv_loop_ok:
  assumes "receiving b bs" and "stream_ok rs" and "buf_len b + length (stream_bytes rs) = n" and "int n + 3 \<le> int INT_MAX"
  shows "\<exists>b'. recv_loop (int n) b rs = Inr (b', [], int n) \<and> receiving b' (bs @ stream_bytes rs) \<and> buf_len b' = n \<and>
    buf_max b \<le> buf_max b' \<and> buf_max b' \<le> max (buf_max b) (n + 2) \<and>
    buf_lock b' = buf_lock b \<and> buf_is_locking b' = buf_is_locking b"
  using assms
proof (induction "length (stream_bytes rs)" arbitrary: b bs rs rule: less_induct)
  case less
  show ?case
  proof (cases "stream_bytes rs = []")
    case True
    then have "rs = []" using less.prems(2) stream_ok_empty by blast
    then show ?thesis using less.prems by (subst recv_loop.simps) simp
  next
    case False
    then have pos: "int (buf_len b) < int n" "0 < nat (int n - int (buf_len b))" "rs \<noteq> []" using less.prems(3) by auto
    have wf: "buffer_wf b" and pre: "take (buf_len b) (buf_data b) = bs" using less.prems(1) by (auto simp: receiving_def)
    obtain b1 k where b1: "recv_grow (int n) b = Inr b1" "b1 = b\<lparr>buf_max := buf_max b + k, buf_data := buf_data b @ replicate k 0\<rparr>"
        "buffer_wf b1" "int n \<le> int (buf_max b1)" "int (buf_max b1) \<le> max (int (buf_max b)) (int n + 2)"
      using recv_grow_ok [OF wf less.prems(4)] by blast
    obtain cs rs' where cs: "sys_recv (nat (int n - int (buf_len b))) rs = Inr (Recv cs, rs')" "cs \<noteq> []"
        "length cs \<le> nat (int n - int (buf_len b))" "stream_ok rs'" "stream_bytes rs = cs @ stream_bytes rs'"
      using sys_recv_stream [OF less.prems(2) pos(3,2)] by blast
    have len: "length (buf_data b1) = buf_max b1" "buf_len b1 = buf_len b" "buf_len b \<le> length (buf_data b)"
      using b1(2,3) wf by (auto simp: buffer_wf_def)
    then have fit: "buf_len b1 + length cs \<le> length (buf_data b1)" using b1(4) cs(3) pos(1) by linarith
    let ?b2 = "b1\<lparr>buf_data := take (buf_len b) (buf_data b1) @ cs @ drop (buf_len b + length cs) (buf_data b1), buf_len := buf_len b + length cs\<rparr>"
    have step: "recv_loop (int n) b rs = recv_loop (int n) ?b2 rs'"
      using pos(1) b1(1) cs(1) len(2) fit by (subst recv_loop.simps) (simp add: mem_write_ok)
    have "take (buf_len b) (buf_data b1) = bs" using b1(2) len(3) pre by simp
    then have "receiving ?b2 (bs @ cs)"
      using b1(3) fit len by (auto simp: receiving_def buffer_wf_def)
    moreover have "length (stream_bytes rs') < length (stream_bytes rs)" using cs(2,5) by simp
    moreover have "buf_len ?b2 + length (stream_bytes rs') = n" using less.prems(3) cs(5) by simp
    ultimately obtain b' where "recv_loop (int n) ?b2 rs' = Inr (b', [], int n)" "receiving b' ((bs @ cs) @ stream_bytes rs')" "buf_len b' = n"
        "buf_max ?b2 \<le> buf_max b'" "buf_max b' \<le> max (buf_max ?b2) (n + 2)" "buf_lock b' = buf_lock ?b2" "buf_is_locking b' = buf_is_locking ?b2"
      using less.hyps [of rs' ?b2 "bs @ cs"] cs(4) less.prems(4) by blast
    then show ?thesis using step cs(5) b1(2,5) by auto
  qed
qed

lemma receiving_unpack:
  assumes "receiving b (xs @ encode args @ zs)" and "\<forall>a \<in> set args. arg_ok a" and "args \<noteq> []"
    and "outs_of args dests = Some outs"
  shows "SOS_buffer_unpack b (length xs) (map fmt_of args) dests =
    Inr (b, length xs + length (encode args), length (encode args), outs)"
proof -
  have "packed_prefix b (buf_len b) = xs @ encode args @ zs" and wf: "buffer_wf b" using assms(1) by (auto simp: receiving_def packed_prefix_def)
  from SOS_buffer_unpack_encode [OF wf assms(2,3) packed_prefix_mem_at [OF this(1)] assms(4)] show ?thesis .
qed

lemma receiving_unlock [simp]: "receiving (msg_unlock b) bs = receiving b bs"
  and receiving_zipped [simp]: "receiving (b\<lparr>buf_is_zipped := z\<rparr>) bs = receiving b bs"
  by (simp_all add: receiving_def msg_unlock_def buffer_wf_def)

lemma receiving_unzip:
  assumes "receiving b (encode (header_args header) @ body)"
  shows "SOS_msg_unzip b 0 = Inr (msg_unlock (b\<lparr>buf_is_zipped := False\<rparr>), header, 24)"
proof -
  have "SOS_buffer_unpack (msg_unlock b) 0 ''iigg'' [DestI, DestI, DestG, DestG] =
      Inr (msg_unlock b, 24, 24,
        [OutI (hd_msg_size header), OutI (hd_msg_type header), OutG (hd_msg_from header), OutG (hd_ref_guid header)])"
    using receiving_unpack [of "msg_unlock b" "[]" "header_args header" body] assms by (simp add: header_args_def)
  then show ?thesis by (cases header) (auto simp: SOS_msg_unzip_def header_of_outs_def msg_unlock_def)
qed

text \<open>
  A message whose header says no more than what has arrived is taken as it is: whatever else belongs to it is not waited
  for.
\<close>

lemma recv_first_piece:
  assumes "bs = encode (header_args header) @ body" and "sint (hd_msg_size header) \<le> int (length bs)" and "length bs \<le> buf_max reply" and "buffer_wf reply"
  shows "\<exists>reply'. SOS_target_recv_msg False (Recv bs # rs) (Some reply) = Inr (Some reply', rs, int (length bs)) \<and>
    buf_data reply' = bs @ drop (length bs) (buf_data reply) \<and> buf_len reply' = length bs \<and> buf_max reply' = buf_max reply"
proof -
  let ?r = "reply\<lparr>buf_data := bs @ drop (length bs) (buf_data reply), buf_len := length bs\<rparr>"
  have ld: "length (buf_data reply) = buf_max reply" using assms(4) by (simp add: buffer_wf_def)
  then have rb: "receiving ?r (encode (header_args header) @ body)"
    using assms(3,4) by (simp add: receiving_def buffer_wf_def assms(1))
  have w: "mem_write 0 bs (buf_data reply) = Inr (bs @ drop (length bs) (buf_data reply))" using assms(3) ld by (simp add: mem_write_ok)
  have l: "recv_loop (sint (hd_msg_size header)) b rs = Inr (b, rs, int (buf_len b))" if "buf_len b = length bs" for b
    using assms(2) that by (subst recv_loop.simps) simp
  have "24 \<le> length bs" by (simp add: assms(1))
  then show ?thesis
    using receiving_unzip [OF rb] assms(3) by (simp add: SOS_target_recv_msg_def Let_def w l msg_unlock_def)
qed

text \<open>A complete message is received whole, whatever pieces it comes in.\<close>

lemma recv_msg_bytes:
  assumes "n = 24 + length body" and "sint (hd_msg_size header) = int n" and "n \<le> MSG_LIMIT"
    and "stream_ok rs" and "stream_bytes rs = encode (header_args header) @ body" and "rs = Recv bs # rs0" and "24 \<le> length bs"
    and "buffer_wf reply" and "24 \<le> buf_max reply" and "\<not> buf_lock reply"
  shows "\<exists>reply'. SOS_target_recv_msg False rs (Some reply) = Inr (Some reply', [], int n) \<and>
    receiving reply' (encode (header_args header) @ body) \<and> buf_len reply' = n \<and> buf_max reply \<le> buf_max reply' \<and>
    buf_max reply' \<le> max (buf_max reply) (n + 2) \<and> \<not> buf_lock reply' \<and> buf_is_locking reply' = buf_is_locking reply"
proof -
  let ?bs = "encode (header_args header) @ body"
  have max: "0 < buf_max reply" using assms(9) by simp
  obtain cs rs' where cs: "sys_recv (buf_max reply) rs = Inr (Recv cs, rs')" "length cs \<le> buf_max reply" "stream_ok rs'" "24 \<le> length cs"
      "?bs = cs @ stream_bytes rs'"
    using sys_recv_stream [OF assms(4) _ max] assms(5-7,9) by (auto split: if_splits)
  have ld: "length (buf_data reply) = buf_max reply" using assms(8) by (simp add: buffer_wf_def)
  let ?r = "reply\<lparr>buf_data := cs @ drop (length cs) (buf_data reply), buf_len := length cs\<rparr>"
  have len: "length cs + length (stream_bytes rs') = n" using arg_cong [OF cs(5), of length] assms(1) by simp
  have "take 24 cs = encode (header_args header)" using arg_cong [OF cs(5), of "take 24"] cs(4) by simp
  then have hd: "cs = encode (header_args header) @ drop 24 cs" by (metis append_take_drop_id)
  have rb: "receiving ?r (encode (header_args header) @ drop 24 cs)"
    using assms(8) cs(2) ld by (simp add: receiving_def buffer_wf_def flip: hd)
  let ?u = "msg_unlock (?r\<lparr>buf_is_zipped := False\<rparr>)"
  have unzip: "SOS_msg_unzip ?r 0 = Inr (?u, header, 24)" by (rule receiving_unzip [OF rb])
  have u: "receiving ?u cs" "buf_max ?u = buf_max reply" "buf_len ?u = length cs" "\<not> buf_lock ?u" "buf_is_locking ?u = buf_is_locking reply"
    using assms(8,10) cs(2) ld by (auto simp: receiving_def buffer_wf_def msg_unlock_def)
  have "int n + 3 \<le> int INT_MAX" using assms(3) by (simp add: MSG_LIMIT_def INT_MAX_def)
  from recv_loop_ok [OF u(1) cs(3) _ this] obtain b' where
    b': "recv_loop (int n) ?u rs' = Inr (b', [], int n)" "receiving b' ?bs" "buf_len b' = n" "buf_max reply \<le> buf_max b'"
      "buf_max b' \<le> max (buf_max reply) (n + 2)" "\<not> buf_lock b'" "buf_is_locking b' = buf_is_locking reply"
    using u(2-5) len cs(5) by auto
  moreover have "SOS_target_recv_msg False rs (Some reply) = Inr (Some b', [], int n)"
    using cs(1,2,4) ld unzip b'(1) assms(2) by (simp add: SOS_target_recv_msg_def Let_def mem_write_ok)
  ultimately show ?thesis by blast
qed

lemma SOS_target_recv_msg_ok:
  assumes "holding sent n (encode (header_args header) @ body)" and "sint (hd_msg_size header) = int n" and "n \<le> MSG_LIMIT"
    and "stream_ok rs" and "stream_bytes rs = encode (header_args header) @ body" and "\<exists>bs rs0. rs = Recv bs # rs0 \<and> 24 \<le> length bs"
    and "buffer_wf reply" and "SOS_DEFAULT_BUFFER_MAX \<le> buf_max reply" and "buf_max reply \<le> 3 * MSG_LIMIT + 3" and "\<not> buf_lock reply"
  shows "\<exists>reply'. SOS_target_recv_msg False rs (Some reply) = Inr (Some reply', [], int n) \<and>
    building reply' n (encode (header_args header) @ body) \<and> \<not> buf_lock reply' \<and> buf_is_locking reply' = buf_is_locking reply"
proof -
  have n: "n = 24 + length body" using assms(1) by (simp add: holding_def)
  have max: "24 \<le> buf_max reply" using assms(8) by (simp add: SOS_DEFAULT_BUFFER_MAX_def)
  obtain reply' where r: "SOS_target_recv_msg False rs (Some reply) = Inr (Some reply', [], int n)"
      "receiving reply' (encode (header_args header) @ body)" "buf_len reply' = n" "buf_max reply \<le> buf_max reply'"
      "buf_max reply' \<le> max (buf_max reply) (n + 2)" "\<not> buf_lock reply'" "buf_is_locking reply' = buf_is_locking reply"
    using recv_msg_bytes [OF n assms(2-5) _ _ assms(7) max assms(10)] assms(6) by blast
  then have "building reply' n (encode (header_args header) @ body)"
    using n assms(3,8,9) by (auto simp: building_def receiving_def packed_prefix_def MSG_LIMIT_def)
  then show ?thesis using r by blast
qed

text \<open>A buffer that can take a message, whatever it held before.\<close>

definition usable :: "SOS_buffer \<Rightarrow> bool" where
  "usable b \<longleftrightarrow> buffer_wf b \<and> roomy b \<and> \<not> buf_lock b"

lemma fresh_msg_usable: "fresh_msg b \<Longrightarrow> usable b"
  by (auto simp: fresh_msg_def usable_def roomy_def building_def)

lemma usable_wiped: "usable b \<Longrightarrow> fresh_msg (SOS_buffer_wipe b)"
  by (auto simp: fresh_msg_def usable_def roomy_def building_def SOS_buffer_wipe_def buffer_wf_def packed_prefix_def)

lemma recv_usable:
  assumes "is_msg header e sent" and "24 + length e \<le> MSG_LIMIT" and "stream_ok rs"
    and "stream_bytes rs = take (buf_len sent) (buf_data sent)" and "24 \<le> length bs" and "rs = Recv bs # rs0"
    and "usable reply"
  shows "\<exists>reply'. SOS_target_recv_msg False rs (Some reply) = Inr (Some reply', [], int (buf_len sent)) \<and>
    is_msg header e reply' \<and> take (buf_len reply') (buf_data reply') = take (buf_len sent) (buf_data sent) \<and> usable reply'"
proof -
  let ?n = "24 + length e" and ?h = "header\<lparr>hd_msg_size := word_of_nat (24 + length e)\<rparr>"
  have b: "holding sent ?n (encode (header_args ?h) @ e)" "buf_len sent = ?n" using assms(1) by (simp_all add: is_msg_def)
  have n: "sint (hd_msg_size ?h) = int ?n"
    using assms(2) sint_word_of_nat_small [of ?n] by (simp add: MSG_LIMIT_def)
  have bytes: "take (buf_len sent) (buf_data sent) = encode (header_args ?h) @ e" "buf_len sent = ?n"
    using b by (auto simp: holding_def packed_prefix_def)
  have r: "buffer_wf reply" "SOS_DEFAULT_BUFFER_MAX \<le> buf_max reply" "buf_max reply \<le> 3 * MSG_LIMIT + 3" "\<not> buf_lock reply"
    using assms(7) by (auto simp: usable_def roomy_def)
  have "stream_bytes rs = encode (header_args ?h) @ e" using assms(4) bytes(1) by simp
  from SOS_target_recv_msg_ok [OF b(1) n assms(2,3) this _ r] assms(5,6) obtain reply' where
    reply': "SOS_target_recv_msg False rs (Some reply) = Inr (Some reply', [], int ?n)" "building reply' ?n (encode (header_args ?h) @ e)"
      "\<not> buf_lock reply'" by blast
  moreover have "take (buf_len reply') (buf_data reply') = encode (header_args ?h) @ e" "usable reply'"
    using reply'(2,3) building_is_msg(2) [OF reply'(2,3)] by (auto simp: building_def packed_prefix_def usable_def)
  ultimately show ?thesis using reply'(1) bytes building_is_msg(1) [OF reply'(2,3)] by auto
qed

lemma recv_whole_msg:
  assumes "is_msg header e sent" and "24 + length e \<le> MSG_LIMIT" and "stream_ok rs"
    and "stream_bytes rs = take (buf_len sent) (buf_data sent)" and "24 \<le> length bs" and "rs = Recv bs # rs0"
    and "fresh_msg reply"
  shows "\<exists>reply'. SOS_target_recv_msg False rs (Some reply) = Inr (Some reply', [], int (buf_len sent)) \<and>
    is_msg header e reply' \<and> take (buf_len reply') (buf_data reply') = take (buf_len sent) (buf_data sent)"
  using recv_usable [OF assms(1-6) fresh_msg_usable [OF assms(7)]] by blast

lemma send_loop_ok:
  assumes "0 < buf_len msg" and "buf_len msg \<le> length (buf_data msg)" and "failed + f < 8"
  shows "send_loop msg failed 0 [] (replicate f Send_Error @ Sent (buf_len msg) # rs) =
    Inr (take (buf_len msg) (buf_data msg), rs, int (buf_len msg), True)"
  using assms
proof (induction f arbitrary: failed)
  case 0
  then show ?case by (subst send_loop.simps) (simp add: mem_read_def Let_def)
next
  case (Suc f)
  then show ?case by (subst send_loop.simps) simp
qed

lemma send_loop_gives_up: "failed \<le> 8 \<Longrightarrow> send_loop msg failed pos out (replicate (8 - failed) Send_Error @ rs) = Inr (out, rs, - 1, False)"
proof (induction "8 - failed" arbitrary: failed)
  case 0
  then show ?case by (subst send_loop.simps) simp
next
  case (Suc k)
  then have "k = 8 - Suc failed" "Suc failed \<le> 8" by auto
  from Suc.hyps(1) [OF this] have "send_loop msg (Suc failed) pos out (replicate k Send_Error @ rs) = Inr (out, rs, - 1, False)"
    using \<open>k = 8 - Suc failed\<close> by simp
  then show ?case using Suc.hyps(2) [symmetric] by (subst send_loop.simps) simp
qed

text \<open>A peer that closes the connection in the middle of a message keeps the receiver in its loop.\<close>

lemma recv_closed_spins:
  assumes "int (buf_len b) < n" and "n \<le> int (buf_max b)" and "buf_len b \<le> length (buf_data b)"
  shows "recv_loop n b (replicate k (Recv []) @ rs) = recv_loop n b rs"
proof (induction k)
  case (Suc k)
  have "recv_grow n b = Inr b" using assms(2) by (subst recv_grow.simps) simp
  then have "recv_loop n b (Recv [] # replicate k (Recv []) @ rs) = recv_loop n b (replicate k (Recv []) @ rs)"
    using assms(1,3) by (subst recv_loop.simps) (simp add: mem_write_def)
  then show ?case using Suc by simp
qed simp

section \<open>Properties\<close>


text \<open>A small message and its bytes in two pieces, for the examples.\<close>

lemma example_msg:
  obtains b h e where "is_msg h e b" and "24 + length e \<le> MSG_LIMIT" and "0 < length e" and "buf_len b = 24 + length e"
proof -
  have "fresh_msg SOS_buffer_init" by simp
  moreover have "appends (pack_fields ''i'' [ArgI 5]) (encode [ArgI 5])" by (rule appends_fields) (simp_all add: SOS_DEFAULT_BUFFER_MAX_def)
  moreover have "24 + length (encode [ArgI 5]) \<le> MSG_LIMIT" by (simp add: MSG_LIMIT_def)
  ultimately obtain b where "is_msg (msg_header_of SOS_MSG_TYPE_ECHO 1 2) (encode [ArgI 5]) b"
    using write_msg_is_msg by blast
  then show ?thesis by (rule that) (simp_all add: MSG_LIMIT_def is_msg_len [OF \<open>is_msg _ _ b\<close>])
qed

lemma msg_pieces:
  assumes "is_msg h e b" and "0 < length e"
  defines "d \<equiv> take (buf_len b) (buf_data b)"
  shows "stream_ok [Recv (take 24 d), Recv (drop 24 d)]" and "24 \<le> length (take 24 d)" and "stream_bytes [Recv (take 24 d), Recv (drop 24 d)] = d"
proof -
  have "length d = 24 + length e" using assms(1) by (auto simp: d_def is_msg_def holding_def packed_prefix_def buffer_wf_def)
  then show "stream_ok [Recv (take 24 d), Recv (drop 24 d)]" "24 \<le> length (take 24 d)"
    "stream_bytes [Recv (take 24 d), Recv (drop 24 d)] = d"
    using assms(2) by (auto simp: stream_ok_def)
qed




text \<open>
  A partial send is not continued where it stopped but repeated at full length from there:
  when the socket takes \<open>k\<close> bytes of a message and then all it is offered, the bytes on the wire
  are the message and the \<open>k\<close> bytes of the block behind it.
\<close>

theorem partial_send_overruns:
  assumes "0 < k" and "k < buf_len msg" and "k + buf_len msg \<le> length (buf_data msg)"
  shows "SOS_target_send_msg False False target msg (Sent k # Sent (buf_len msg) # rs) =
    Inr (target, take (k + buf_len msg) (buf_data msg), rs, int (k + buf_len msg))"
proof -
  have "take k (buf_data msg) @ take (buf_len msg) (drop k (buf_data msg)) = take (k + buf_len msg) (buf_data msg)"
    by (simp add: take_add)
  then have "send_loop msg 0 k (take k (buf_data msg)) (Sent (buf_len msg) # rs) =
      Inr (take (k + buf_len msg) (buf_data msg), rs, int (k + buf_len msg), True)"
    using assms by (subst send_loop.simps) (auto simp: mem_read_def Let_def)
  then have "send_loop msg 0 0 [] (Sent k # Sent (buf_len msg) # rs) =
      Inr (take (k + buf_len msg) (buf_data msg), rs, int (k + buf_len msg), True)"
    using assms by (subst send_loop.simps) (simp add: mem_read_def min_def Let_def)
  then show ?thesis by (simp add: SOS_target_send_msg_def)
qed

theorem partial_send_overruns_witness:
  "SOS_target_send_msg False False SOS_target_init (SOS_buffer_init\<lparr>buf_len := 3, buf_data := [1, 2, 3, 9, 9, 9]\<rparr>) [Sent 2, Sent 3] =
    Inr (SOS_target_init, [1, 2, 3, 9, 9], [], 5)"
  using partial_send_overruns [of 2 "SOS_buffer_init\<lparr>buf_len := 3, buf_data := [1, 2, 3, 9, 9, 9]\<rparr>" SOS_target_init "[]"] by simp

text \<open>
  A send that is suppressed, at shutdown or in offline mode, returns without closing the
  connection: the lock of the socket stays held and the next exchange deadlocks.
\<close>

theorem suppressed_send_keeps_lock:
  assumes "\<not> tg_send_lock daemon" and "shutdown \<or> offline"
  shows "\<exists>daemon'. SOS_send_to_daemon True shutdown offline sends rs daemon message reply = Inr (daemon', [], reply) \<and>
    SOS_send_to_daemon connects shutdown' offline' sends' rs' daemon' message' reply' = Inl Deadlock"
  using assms by (auto simp: SOS_send_to_daemon_def SOS_target_connect_def SOS_target_send_msg_def)

theorem suppressed_send_keeps_lock_witness:
  "\<exists>daemon'. SOS_send_to_daemon True True False [] [] SOS_target_init SOS_buffer_init None = Inr (daemon', [], None) \<and>
    SOS_send_to_daemon True False False [] [] daemon' SOS_buffer_init None = Inl Deadlock"
  using suppressed_send_keeps_lock [of SOS_target_init True False] by (simp add: SOS_target_init_def)

end
