(* ===== verification/SOS_Results.thy ===== *)
theory SOS_Results
  imports SOS_Session
begin

text \<open>
  Tables of results (\<open>sosa.c\<close>): what a query or a look into the caches of a daemon returns. A cell is a block with a
  C string or NULL. \<open>results_ok\<close> says that the blocks have the sizes the table states; the operations keep it, a
  value that is put is found where it was put, and a table arrives as it was sent, except for its label.

  The counts are \<open>int\<close>: they are read from messages. Allocation always succeeds. (\<open>SOSA_results_destroy\<close> only frees.)
\<close>

section \<open>The table\<close>

record SOSA_results =
  rs_query_sql :: "byte list option"
  rs_query_guid :: u64
  rs_exec_duration :: c_double
  rs_col_max :: int
  rs_col_count :: int
  rs_col_names :: "byte list option list"
  rs_row_max :: int
  rs_row_count :: int
  rs_data :: "byte list option list list"

definition SOSA_DEFAULT_RESULT_ROW_MAX :: int where
  "SOSA_DEFAULT_RESULT_ROW_MAX = 16 * 1024"

definition SOSA_DEFAULT_RESULT_COL_MAX :: int where
  "SOSA_DEFAULT_RESULT_COL_MAX = 14"

definition SOSA_results_init_sized :: "int \<Rightarrow> int \<Rightarrow> SOSA_results" where
  "SOSA_results_init_sized rows cols =
     \<lparr>rs_query_sql = None, rs_query_guid = - 1, rs_exec_duration = Fin 0, rs_col_max = cols, rs_col_count = 0,
      rs_col_names = replicate (nat cols) None, rs_row_max = rows, rs_row_count = 0,
      rs_data = replicate (nat rows) (replicate (nat cols) None)\<rparr>"

definition SOSA_results_init :: SOSA_results where
  "SOSA_results_init = SOSA_results_init_sized SOSA_DEFAULT_RESULT_ROW_MAX SOSA_DEFAULT_RESULT_COL_MAX"

text \<open>Growing appends NULL cells: first to the names and to every row, then whole rows.\<close>

definition SOSA_results_grow_to :: "SOSA_results \<Rightarrow> int \<Rightarrow> int \<Rightarrow> SOSA_results" where
  "SOSA_results_grow_to r new_col_ask new_row_ask =
     (if new_col_ask < rs_col_max r \<and> new_row_ask < rs_row_max r then r
      else
        let new_col_max = max new_col_ask (rs_col_max r + SOSA_DEFAULT_RESULT_COL_MAX);
            new_row_max = max new_row_ask (rs_row_max r + SOSA_DEFAULT_RESULT_ROW_MAX);
            more = replicate (nat (new_col_max - rs_col_max r)) None;
            r = (if rs_col_max r \<le> new_col_ask
                 then r\<lparr>rs_col_names := rs_col_names r @ more, rs_data := map (\<lambda>row. row @ more) (rs_data r), rs_col_max := new_col_max\<rparr>
                 else r)
        in if rs_row_max r \<le> new_row_ask
           then r\<lparr>rs_data := rs_data r @ replicate (nat (new_row_max - rs_row_max r)) (replicate (nat (rs_col_max r)) None),
                  rs_row_max := new_row_max\<rparr>
           else r)"

definition SOSA_results_put :: "SOSA_results \<Rightarrow> int \<Rightarrow> int \<Rightarrow> cstring option \<Rightarrow> SOSA_results res" where
  "SOSA_results_put r col row val =
     (let strval = (case val of None \<Rightarrow> str ''NULL'' | Some s \<Rightarrow> s);
          r = (if rs_col_max r \<le> col \<or> rs_row_max r \<le> row then SOSA_results_grow_to r col row else r)
      in checkR (0 \<le> row \<and> row < int (length (rs_data r))) Out_Of_Bounds
           (let cells = rs_data r ! nat row
            in checkR (0 \<le> col \<and> col < int (length cells)) Out_Of_Bounds
                 (Inr (r\<lparr>rs_row_count := max (rs_row_count r) (row + 1), rs_col_count := max (rs_col_count r) (col + 1),
                         rs_data := (rs_data r)[nat row := cells[nat col := Some (strval @ [0])]]\<rparr>))))"

definition SOSA_results_put_name :: "SOSA_results \<Rightarrow> int \<Rightarrow> cstring \<Rightarrow> SOSA_results res" where
  "SOSA_results_put_name r col name =
     (let r = (if rs_col_max r \<le> col then SOSA_results_grow_to r col 0 else r)
      in checkR (0 \<le> col \<and> col < int (length (rs_col_names r))) Out_Of_Bounds
           (Inr (r\<lparr>rs_col_names := (rs_col_names r)[nat col := Some (name @ [0])]\<rparr>)))"

definition SOSA_results_label :: "SOSA_results \<Rightarrow> u64 \<Rightarrow> cstring option \<Rightarrow> SOSA_results" where
  "SOSA_results_label r guid sql =
     r\<lparr>rs_query_guid := guid, rs_query_sql := Some ((case sql of None \<Rightarrow> str ''[none]'' | Some s \<Rightarrow> s) @ [0])\<rparr>"

text \<open>Wiping clears the cells that are in use, and the label.\<close>

definition wipe_cells :: "int \<Rightarrow> 'a option list \<Rightarrow> 'a option list res" where
  "wipe_cells n xs = checkR (n \<le> int (length xs)) Out_Of_Bounds (Inr (replicate (nat n) None @ drop (nat n) xs))"

fun wipe_rows :: "nat \<Rightarrow> int \<Rightarrow> 'a option list list \<Rightarrow> 'a option list list res" where
  "wipe_rows 0 cols rows = Inr rows"
| "wipe_rows (Suc n) cols [] = (if cols \<le> 0 then Inr [] else Inl Out_Of_Bounds)"
| "wipe_rows (Suc n) cols (row # rows) =
     bindR (wipe_cells cols row) (\<lambda>row. bindR (wipe_rows n cols rows) (\<lambda>rows. Inr (row # rows)))"

definition SOSA_results_wipe :: "SOSA_results \<Rightarrow> SOSA_results res" where
  "SOSA_results_wipe r =
     bindR (wipe_rows (nat (rs_row_count r)) (rs_col_count r) (rs_data r)) (\<lambda>data.
     bindR (wipe_cells (rs_col_count r) (rs_col_names r)) (\<lambda>names.
     Inr (r\<lparr>rs_query_guid := - 1, rs_query_sql := None, rs_data := data, rs_col_names := names, rs_col_count := 0, rs_row_count := 0\<rparr>)))"

section \<open>In a message\<close>

definition cell_at :: "'a option list \<Rightarrow> nat \<Rightarrow> 'a res" where
  "cell_at xs i = checkR (i < length xs) Out_Of_Bounds (case xs ! i of None \<Rightarrow> Inl Null_Deref | Some p \<Rightarrow> Inr p)"

definition cell_to_buffer :: "byte list option list \<Rightarrow> nat \<Rightarrow> SOS_buffer \<times> nat \<Rightarrow> (SOS_buffer \<times> nat) res" where
  "cell_to_buffer xs i bo = bindR (cell_at xs i) (\<lambda>p. pack_fields ''s'' [ArgS (cstr p)] bo)"

definition row_to_buffer :: "byte list option list list \<Rightarrow> nat \<Rightarrow> nat \<Rightarrow> SOS_buffer \<times> nat \<Rightarrow> (SOS_buffer \<times> nat) res" where
  "row_to_buffer rows cols i bo =
     (if cols = 0 then Inr bo
      else checkR (i < length rows) Out_Of_Bounds (foldR (cell_to_buffer (rows ! i)) [0..<cols] bo))"

text \<open>An empty label is replaced; a missing one is only warned of, and then measured.\<close>

definition SOSA_results_to_buffer :: "i32 \<Rightarrow> SOS_buffer \<Rightarrow> SOSA_results \<Rightarrow> (SOS_buffer \<times> SOSA_results) res" where
  "SOSA_results_to_buffer comm_rank buffer r =
     (let header = \<lparr>hd_msg_size = - 1, hd_msg_type = enum_code SOS_feedback_type_vals SOS_FEEDBACK_TYPE_QUERY,
                    hd_msg_from = scast comm_rank, hd_ref_guid = 0\<rparr>
      in case rs_query_sql r of
           None \<Rightarrow> Inl Null_Deref
         | Some sql0 \<Rightarrow>
             let sql = (if cstr sql0 = [] then str ''<none>'' @ [0] else sql0); cols = nat (rs_col_count r); rows = nat (rs_row_count r)
             in bindR (write_msg header (\<lambda>bo.
                  bindR (pack_fields ''sgd'' [ArgS (cstr sql), ArgG (rs_query_guid r), ArgD (rs_exec_duration r)] bo) (\<lambda>bo.
                  bindR (pack_fields ''ii'' [ArgI (word_of_int (rs_col_count r)), ArgI (word_of_int (rs_row_count r))] bo) (\<lambda>bo.
                  bindR (foldR (cell_to_buffer (rs_col_names r)) [0..<cols] bo) (\<lambda>bo.
                  foldR (row_to_buffer (rs_data r) cols) [0..<rows] bo)))) buffer) (\<lambda>buffer.
                Inr (buffer, r\<lparr>rs_query_sql := Some sql\<rparr>)))"

definition name_from_buffer :: "nat \<Rightarrow> SOS_buffer \<times> nat \<times> SOSA_results \<Rightarrow> (SOS_buffer \<times> nat \<times> SOSA_results) res" where
  "name_from_buffer col = (\<lambda>(b, offset, r).
     checkR (col < length (rs_col_names r)) Out_Of_Bounds
       (bindR (SOS_buffer_unpack_safestr b offset) (\<lambda>(b, offset, s). Inr (b, offset, r\<lparr>rs_col_names := (rs_col_names r)[col := s]\<rparr>))))"

definition cell_from_buffer :: "nat \<times> nat \<Rightarrow> SOS_buffer \<times> nat \<times> SOSA_results \<Rightarrow> (SOS_buffer \<times> nat \<times> SOSA_results) res" where
  "cell_from_buffer = (\<lambda>(row, col) (b, offset, r).
     checkR (row < length (rs_data r)) Out_Of_Bounds
       (checkR (col < length (rs_data r ! row)) Out_Of_Bounds
          (bindR (SOS_buffer_unpack_safestr b offset) (\<lambda>(b, offset, s).
           Inr (b, offset, r\<lparr>rs_data := (rs_data r)[row := (rs_data r ! row)[col := s]]\<rparr>)))))"

definition SOSA_results_from_buffer :: "SOSA_results \<Rightarrow> SOS_buffer \<Rightarrow> (SOS_buffer \<times> SOSA_results) res" where
  "SOSA_results_from_buffer r buffer =
     bindR (SOS_msg_unzip buffer 0) (\<lambda>(b, _, offset).
     bindR (SOS_buffer_unpack_safestr b offset) (\<lambda>(b, offset, sql).
     bindR (unpack_fields ''g'' [DestG] (b, offset)) (\<lambda>(b, offset, gs).
     bindR (unpack_fields ''d'' [DestD] (b, offset)) (\<lambda>(b, offset, ds).
     bindR (unpack_fields ''ii'' [DestI, DestI] (b, offset)) (\<lambda>(b, offset, ns).
     case (gs, ds, ns) of
       ([OutG guid], [OutD duration], [OutI cols, OutI rows]) \<Rightarrow>
         bindR (SOSA_results_wipe (SOSA_results_grow_to (r\<lparr>rs_query_sql := sql, rs_query_guid := guid, rs_exec_duration := duration\<rparr>)
           (sint cols) (sint rows))) (\<lambda>r.
         bindR (foldR name_from_buffer [0..<nat (sint cols)] (b, offset, r)) (\<lambda>(b, offset, r).
         bindR (foldR cell_from_buffer (List.product [0..<nat (sint rows)] [0..<nat (sint cols)]) (b, offset, r)) (\<lambda>(b, offset, r).
         Inr (b, r\<lparr>rs_col_count := sint cols, rs_row_count := sint rows\<rparr>))))
     | _ \<Rightarrow> Inl Bad_Argument)))))"

section \<open>The cells of a table\<close>

definition results_ok :: "SOSA_results \<Rightarrow> bool" where
  "results_ok r \<longleftrightarrow>
     int (length (rs_col_names r)) = rs_col_max r \<and> int (length (rs_data r)) = rs_row_max r \<and>
     (\<forall>i < length (rs_data r). int (length (rs_data r ! i)) = rs_col_max r) \<and>
     0 \<le> rs_col_count r \<and> rs_col_count r \<le> rs_col_max r \<and> 0 \<le> rs_row_count r \<and> rs_row_count r \<le> rs_row_max r"

definition lookup :: "'a option list \<Rightarrow> nat \<Rightarrow> 'a option" where
  "lookup xs i = (if i < length xs then xs ! i else None)"

definition rs_name :: "SOSA_results \<Rightarrow> nat \<Rightarrow> byte list option" where
  "rs_name r = lookup (rs_col_names r)"

definition rs_cell :: "SOSA_results \<Rightarrow> nat \<Rightarrow> nat \<Rightarrow> byte list option" where
  "rs_cell r i = (if i < length (rs_data r) then lookup (rs_data r ! i) else (\<lambda>_. None))"

lemma lookup_pad [simp]: "lookup (xs @ replicate n None) = lookup xs"
  by (rule ext) (simp add: lookup_def nth_append)

lemma lookup_update: "i < length xs \<Longrightarrow> lookup (xs[i := v]) = (lookup xs)(i := v)"
  by (rule ext) (simp add: lookup_def nth_list_update)

lemma lookup_none [simp]: "lookup (replicate n None) = (\<lambda>_. None)"
  by (rule ext) (simp add: lookup_def)

lemma results_ok_size:
  assumes "results_ok r" and "int i < rs_row_max r" and "int j < rs_col_max r"
  shows "i < length (rs_data r) \<and> j < length (rs_data r ! i)"
proof -
  have i: "i < length (rs_data r)" using assms(1,2) by (simp add: results_ok_def)
  then have "int (length (rs_data r ! i)) = rs_col_max r" using assms(1) by (simp add: results_ok_def)
  with i assms(3) show ?thesis by simp
qed

lemma results_init_ok: "0 \<le> rows \<Longrightarrow> 0 \<le> cols \<Longrightarrow> results_ok (SOSA_results_init_sized rows cols)"
  by (auto simp: results_ok_def SOSA_results_init_sized_def)

lemma grow_to_ok:
  assumes "results_ok r"
  shows "results_ok (SOSA_results_grow_to r c n)" and "rs_cell (SOSA_results_grow_to r c n) = rs_cell r" and "rs_name (SOSA_results_grow_to r c n) = rs_name r"
    and "c \<le> rs_col_max (SOSA_results_grow_to r c n)" and "n \<le> rs_row_max (SOSA_results_grow_to r c n)"
    and "c < rs_col_max r + SOSA_DEFAULT_RESULT_COL_MAX \<Longrightarrow> c < rs_col_max (SOSA_results_grow_to r c n)"
    and "n < rs_row_max r + SOSA_DEFAULT_RESULT_ROW_MAX \<Longrightarrow> n < rs_row_max (SOSA_results_grow_to r c n)"
    and "rs_col_max r + SOSA_DEFAULT_RESULT_COL_MAX \<le> c \<Longrightarrow> rs_col_max (SOSA_results_grow_to r c n) = c"
    and "rs_row_max r + SOSA_DEFAULT_RESULT_ROW_MAX \<le> n \<Longrightarrow> rs_row_max (SOSA_results_grow_to r c n) = n"
    and "rs_col_count (SOSA_results_grow_to r c n) = rs_col_count r" and "rs_row_count (SOSA_results_grow_to r c n) = rs_row_count r"
    and "rs_query_sql (SOSA_results_grow_to r c n) = rs_query_sql r" and "rs_query_guid (SOSA_results_grow_to r c n) = rs_query_guid r"
    and "rs_exec_duration (SOSA_results_grow_to r c n) = rs_exec_duration r"
proof -
  note d = SOSA_results_grow_to_def Let_def SOSA_DEFAULT_RESULT_COL_MAX_def SOSA_DEFAULT_RESULT_ROW_MAX_def
  show "results_ok (SOSA_results_grow_to r c n)"
    using assms by (auto simp: d results_ok_def max_def nth_append)
  show "rs_cell (SOSA_results_grow_to r c n) = rs_cell r"
    by (rule ext, rule ext) (simp add: d rs_cell_def nth_append)
  show "rs_name (SOSA_results_grow_to r c n) = rs_name r" by (simp add: d rs_name_def)
qed (simp_all add: SOSA_results_grow_to_def Let_def SOSA_DEFAULT_RESULT_COL_MAX_def SOSA_DEFAULT_RESULT_ROW_MAX_def)

lemma rs_cell_put:
  assumes "i < length (rs_data r)" and "j < length (rs_data r ! i)"
  shows "rs_cell (r\<lparr>rs_data := (rs_data r)[i := (rs_data r ! i)[j := v]]\<rparr>) = (rs_cell r)(i := (rs_cell r i)(j := v))"
  using assms by (auto simp: rs_cell_def lookup_update fun_eq_iff nth_list_update)

lemma rs_cell_update_simps [simp]:
  "rs_cell (r\<lparr>rs_row_count := a\<rparr>) = rs_cell r" "rs_cell (r\<lparr>rs_col_count := b\<rparr>) = rs_cell r" "rs_cell (r\<lparr>rs_col_names := c\<rparr>) = rs_cell r"
  "rs_cell (r\<lparr>rs_query_guid := d\<rparr>) = rs_cell r" "rs_cell (r\<lparr>rs_query_sql := e\<rparr>) = rs_cell r" "rs_cell (r\<lparr>rs_exec_duration := f\<rparr>) = rs_cell r"
  "rs_name (r\<lparr>rs_row_count := a\<rparr>) = rs_name r" "rs_name (r\<lparr>rs_col_count := b\<rparr>) = rs_name r" "rs_name (r\<lparr>rs_data := g\<rparr>) = rs_name r"
  "rs_name (r\<lparr>rs_query_guid := d\<rparr>) = rs_name r" "rs_name (r\<lparr>rs_query_sql := e\<rparr>) = rs_name r" "rs_name (r\<lparr>rs_exec_duration := f\<rparr>) = rs_name r"
  by (simp_all add: rs_cell_def rs_name_def fun_eq_iff)

text \<open>Putting a value: the table is grown to hold it, as long as it is not too far outside.\<close>

lemma results_put_grown:
  assumes "results_ok r" and "0 \<le> col" and "0 \<le> row" and "col < rs_col_max r" and "row < rs_row_max r"
  shows "\<exists>r'. SOSA_results_put r col row val = Inr r' \<and> results_ok r' \<and>
    rs_cell r' = (rs_cell r)(nat row := (rs_cell r (nat row))(nat col := Some ((case val of None \<Rightarrow> str ''NULL'' | Some s \<Rightarrow> s) @ [0]))) \<and>
    rs_name r' = rs_name r \<and> rs_row_count r' = max (rs_row_count r) (row + 1) \<and> rs_col_count r' = max (rs_col_count r) (col + 1) \<and>
    rs_col_max r' = rs_col_max r \<and> rs_row_max r' = rs_row_max r \<and> rs_query_sql r' = rs_query_sql r \<and> rs_query_guid r' = rs_query_guid r \<and>
    rs_exec_duration r' = rs_exec_duration r"
proof -
  have l: "nat row < length (rs_data r)" "nat col < length (rs_data r ! nat row)" "row < int (length (rs_data r))" "col < int (length (rs_data r ! nat row))"
    using results_ok_size [of r "nat row" "nat col"] assms by auto
  have "results_ok (r\<lparr>rs_row_count := max (rs_row_count r) (row + 1), rs_col_count := max (rs_col_count r) (col + 1),
      rs_data := (rs_data r)[nat row := (rs_data r ! nat row)[nat col := v]]\<rparr>)" for v
    using assms l by (auto simp: results_ok_def nth_list_update)
  moreover have "rs_cell (r\<lparr>rs_row_count := a, rs_col_count := b, rs_data := (rs_data r)[nat row := (rs_data r ! nat row)[nat col := v]]\<rparr>) =
      (rs_cell r)(nat row := (rs_cell r (nat row))(nat col := v))" for a b v
    by (rule trans [OF _ rs_cell_put [OF l(1,2)]]) (simp add: rs_cell_def fun_eq_iff)
  ultimately show ?thesis
    using assms(2-5) l by (simp add: SOSA_results_put_def Let_def)
qed

definition put_result :: "SOSA_results \<Rightarrow> nat \<Rightarrow> nat \<Rightarrow> cstring option \<Rightarrow> SOSA_results \<Rightarrow> bool" where
  "put_result r i j val r' \<longleftrightarrow>
     results_ok r' \<and> rs_cell r' = (rs_cell r)(i := (rs_cell r i)(j := Some ((case val of None \<Rightarrow> str ''NULL'' | Some s \<Rightarrow> s) @ [0]))) \<and>
     rs_name r' = rs_name r \<and> rs_row_count r' = max (rs_row_count r) (int i + 1) \<and> rs_col_count r' = max (rs_col_count r) (int j + 1) \<and>
     rs_query_sql r' = rs_query_sql r \<and> rs_query_guid r' = rs_query_guid r \<and> rs_exec_duration r' = rs_exec_duration r"

lemma results_put_ok:
  assumes "results_ok r" and "int i < rs_row_max r + SOSA_DEFAULT_RESULT_ROW_MAX" and "int j < rs_col_max r + SOSA_DEFAULT_RESULT_COL_MAX"
  shows "\<exists>r'. SOSA_results_put r (int j) (int i) val = Inr r' \<and> put_result r i j val r' \<and> rs_row_max r \<le> rs_row_max r' \<and> rs_col_max r \<le> rs_col_max r'"
proof -
  let ?g = "SOSA_results_grow_to r (int j) (int i)"
  note g = grow_to_ok [OF assms(1), where c = "int j" and n = "int i"]
  have fits: "int j < rs_col_max ?g" "int i < rs_row_max ?g" using assms g(6,7) by auto
  have "SOSA_results_put r (int j) (int i) val = SOSA_results_put ?g (int j) (int i) val"
  proof (cases "rs_col_max r \<le> int j \<or> rs_row_max r \<le> int i")
    case True
    with fits show ?thesis by (simp add: SOSA_results_put_def)
  next
    case False
    then have "?g = r" by (simp add: SOSA_results_grow_to_def)
    then show ?thesis by simp
  qed
  moreover have "rs_row_max r \<le> rs_row_max ?g" "rs_col_max r \<le> rs_col_max ?g"
    by (simp_all add: le_max_iff_disj SOSA_results_grow_to_def Let_def SOSA_DEFAULT_RESULT_ROW_MAX_def SOSA_DEFAULT_RESULT_COL_MAX_def)
  moreover note results_put_grown [OF g(1) _ _ fits, of val]
  ultimately show ?thesis
    unfolding put_result_def g by auto
qed

text \<open>
  A value that is put is found where it was put, every other cell and the names stay, and the table keeps the
  sizes it states: this for every position up to the step in which a table grows.
\<close>

theorem results_put_finds:
  assumes "results_ok r" and "int i < rs_row_max r + SOSA_DEFAULT_RESULT_ROW_MAX" and "int j < rs_col_max r + SOSA_DEFAULT_RESULT_COL_MAX"
  shows "\<exists>r'. SOSA_results_put r (int j) (int i) val = Inr r' \<and> put_result r i j val r'"
  using results_put_ok [OF assms] by blast

theorem results_put_finds_witness:
  "\<exists>r'. SOSA_results_put (SOSA_results_init_sized 1 1) 2 5 None = Inr r' \<and> rs_cell r' 5 2 = Some (str ''NULL'' @ [0]) \<and> rs_row_count r' = 6"
proof -
  have "results_ok (SOSA_results_init_sized 1 1)" by (rule results_init_ok) simp_all
  then show ?thesis
    using results_put_finds [of "SOSA_results_init_sized 1 1" 5 2 None]
    by (auto simp: put_result_def SOSA_results_init_sized_def SOSA_DEFAULT_RESULT_ROW_MAX_def SOSA_DEFAULT_RESULT_COL_MAX_def)
qed

text \<open>
  A value that is put further outside is written behind the table: growing makes exactly as many columns or rows
  as the index says, one too few to hold it.
\<close>

theorem results_put_beyond:
  assumes "results_ok r" and "rs_col_max r + SOSA_DEFAULT_RESULT_COL_MAX \<le> int j \<or> rs_row_max r + SOSA_DEFAULT_RESULT_ROW_MAX \<le> int i"
  shows "SOSA_results_put r (int j) (int i) val = Inl Out_Of_Bounds"
proof -
  let ?g = "SOSA_results_grow_to r (int j) (int i)"
  note g = grow_to_ok [OF assms(1), where c = "int j" and n = "int i"]
  have out: "rs_col_max r \<le> int j \<or> rs_row_max r \<le> int i" "rs_col_max ?g = int j \<or> rs_row_max ?g = int i"
    using assms(2) g(8,9) by (auto simp: SOSA_DEFAULT_RESULT_COL_MAX_def SOSA_DEFAULT_RESULT_ROW_MAX_def)
  have "i < length (rs_data ?g) \<Longrightarrow> int (length (rs_data ?g ! i)) = rs_col_max ?g" "int (length (rs_data ?g)) = rs_row_max ?g"
    using g(1) by (auto simp: results_ok_def)
  then show ?thesis using out by (auto simp: SOSA_results_put_def Let_def checkR_def)
qed

theorem results_put_beyond_witness: "SOSA_results_put (SOSA_results_init_sized 2 14) 28 0 (Some [65]) = Inl Out_Of_Bounds"
proof -
  have "results_ok (SOSA_results_init_sized 2 14)" by (rule results_init_ok) simp_all
  then show ?thesis
    using results_put_beyond [of "SOSA_results_init_sized 2 14" 28 0 "Some [65]"]
    by (simp add: SOSA_results_init_sized_def SOSA_DEFAULT_RESULT_ROW_MAX_def SOSA_DEFAULT_RESULT_COL_MAX_def)
qed

lemma results_put_name_ok:
  assumes "results_ok r" and "int j < rs_col_max r + SOSA_DEFAULT_RESULT_COL_MAX"
  shows "\<exists>r'. SOSA_results_put_name r (int j) name = Inr r' \<and> results_ok r' \<and> rs_cell r' = rs_cell r \<and>
    rs_name r' = (rs_name r)(j := Some (name @ [0])) \<and> rs_row_count r' = rs_row_count r \<and> rs_col_count r' = rs_col_count r \<and>
    rs_query_sql r' = rs_query_sql r \<and> rs_query_guid r' = rs_query_guid r \<and> rs_exec_duration r' = rs_exec_duration r \<and>
    rs_col_max r \<le> rs_col_max r' \<and> rs_row_max r \<le> rs_row_max r'"
proof -
  define g where "g = (if rs_col_max r \<le> int j then SOSA_results_grow_to r (int j) 0 else r)"
  note grown = grow_to_ok [OF assms(1), where c = "int j" and n = 0]
  have g: "results_ok g" "rs_cell g = rs_cell r" "rs_name g = rs_name r" "rs_row_count g = rs_row_count r" "rs_col_count g = rs_col_count r"
      "rs_query_sql g = rs_query_sql r" "rs_query_guid g = rs_query_guid r" "rs_exec_duration g = rs_exec_duration r"
    using grown(1-3,10-14) assms(1) by (simp_all add: g_def)
  have m: "int j < rs_col_max g" using grown(6) [OF assms(2)] by (simp add: g_def)
  have bigger: "rs_col_max r \<le> rs_col_max g" "rs_row_max r \<le> rs_row_max g"
    by (simp_all add: le_max_iff_disj g_def SOSA_results_grow_to_def Let_def SOSA_DEFAULT_RESULT_ROW_MAX_def SOSA_DEFAULT_RESULT_COL_MAX_def)
  have j: "j < length (rs_col_names g)" using g(1) m by (simp add: results_ok_def)
  let ?r = "g\<lparr>rs_col_names := (rs_col_names g)[j := Some (name @ [0])]\<rparr>"
  have "SOSA_results_put_name r (int j) name = Inr ?r" using j by (simp add: SOSA_results_put_name_def Let_def flip: g_def)
  moreover have "results_ok ?r" using g(1) by (simp add: results_ok_def)
  moreover have "rs_name ?r = (rs_name r)(j := Some (name @ [0]))" using g(3) j by (simp add: rs_name_def lookup_update)
  ultimately show ?thesis using g bigger by simp
qed

section \<open>Sending a table\<close>

abbreviation put_str :: "cstring \<Rightarrow> SOS_buffer \<times> nat \<Rightarrow> (SOS_buffer \<times> nat) res" where
  "put_str s \<equiv> pack_fields ''s'' [ArgS s]"

abbreviation str_enc :: "cstring \<Rightarrow> byte list" where
  "str_enc s \<equiv> encode [ArgS s]"

definition str_fits :: "cstring \<Rightarrow> bool" where
  "str_fits s \<longleftrightarrow> wf_cstring s \<and> length s \<le> 2044"

lemma put_str_appends: "str_fits s \<Longrightarrow> appends (put_str s) (str_enc s)"
  using appends_fields [of "''s''" "[ArgS s]"] by (simp add: str_fits_def INT_MAX_def SOS_DEFAULT_BUFFER_MAX_def)

lemma safestr_reads: "str_fits s \<Longrightarrow> reads (\<lambda>bo. SOS_buffer_unpack_safestr (fst bo) (snd bo)) (str_enc s) (Some (s @ [0]))"
  unfolding reads_def
proof (intro allI impI)
  fix b n xs zs
  assume s: "str_fits s" and b: "holding b n (xs @ str_enc s @ zs)"
  have "buffer_wf b" using b by (simp add: holding_def)
  from SOS_buffer_unpack_safestr_ok [OF this _ _ holding_mem_at [OF b]] s
  show "SOS_buffer_unpack_safestr (fst (b, length xs)) (snd (b, length xs)) = Inr (b, length xs + length (str_enc s), Some (s @ [0]))"
    by (simp add: str_fits_def INT_MAX_def)
qed

lemma name_get:
  assumes "str_fits s" and "k < length (rs_col_names r)"
  shows "reads (\<lambda>bo. name_from_buffer k (fst bo, snd bo, r)) (str_enc s) (r\<lparr>rs_col_names := (rs_col_names r)[k := Some (s @ [0])]\<rparr>)"
  using safestr_reads [OF assms(1)] assms(2) by (simp add: name_from_buffer_def reads_def)

lemma cell_get:
  assumes "str_fits s" and "i < length (rs_data r)" and "j < length (rs_data r ! i)"
  shows "reads (\<lambda>bo. cell_from_buffer (i, j) (fst bo, snd bo, r)) (str_enc s) (r\<lparr>rs_data := (rs_data r)[i := (rs_data r ! i)[j := Some (s @ [0])]]\<rparr>)"
  using safestr_reads [OF assms(1)] assms(2,3) by (simp add: cell_from_buffer_def reads_def)

interpretation name_codec: record_codec put_str name_from_buffer str_enc str_fits "\<lambda>k _ r. k < length (rs_col_names r)"
    "\<lambda>k s r. r\<lparr>rs_col_names := (rs_col_names r)[k := Some (s @ [0])]\<rparr>"
  by unfold_locales (erule put_str_appends, erule (1) name_get)

interpretation cell_codec: record_codec put_str cell_from_buffer str_enc str_fits
    "\<lambda>(i, j) _ r. i < length (rs_data r) \<and> j < length (rs_data r ! i)"
    "\<lambda>(i, j) s r. r\<lparr>rs_data := (rs_data r)[i := (rs_data r ! i)[j := Some (s @ [0])]]\<rparr>"
  by unfold_locales (erule put_str_appends, clarsimp simp del: encode_simps enc_arg.simps, erule (2) cell_get)

text \<open>The strings of a table, in the order they are sent, and the message.\<close>

definition used_cols :: "SOSA_results \<Rightarrow> nat" where
  "used_cols r = nat (rs_col_count r)"

definition used_rows :: "SOSA_results \<Rightarrow> nat" where
  "used_rows r = nat (rs_row_count r)"

definition used_places :: "SOSA_results \<Rightarrow> (nat \<times> nat) list" where
  "used_places r = List.product [0..<used_rows r] [0..<used_cols r]"

definition name_strs :: "SOSA_results \<Rightarrow> cstring list" where
  "name_strs r = map (\<lambda>j. cstr (the (rs_name r j))) [0..<used_cols r]"

definition cell_strs :: "SOSA_results \<Rightarrow> cstring list" where
  "cell_strs r = map (\<lambda>(i, j). cstr (the (rs_cell r i j))) (used_places r)"

definition label_str :: "SOSA_results \<Rightarrow> cstring" where
  "label_str r = (if cstr (the (rs_query_sql r)) = [] then str ''<none>'' else cstr (the (rs_query_sql r)))"

definition results_body :: "SOSA_results \<Rightarrow> byte list" where
  "results_body r = encode [ArgS (label_str r), ArgG (rs_query_guid r), ArgD (rs_exec_duration r)] @
     encode [ArgI (word_of_int (rs_col_count r)), ArgI (word_of_int (rs_row_count r))] @
     concat (map str_enc (name_strs r)) @ concat (map str_enc (cell_strs r))"

definition results_sendable :: "SOSA_results \<Rightarrow> bool" where
  "results_sendable r \<longleftrightarrow>
     results_ok r \<and> rs_query_sql r \<noteq> None \<and> length (label_str r) \<le> 2000 \<and> is_finite (rs_exec_duration r) \<and>
     (\<forall>j < used_cols r. \<exists>p. rs_name r j = Some p \<and> length (cstr p) \<le> 2044) \<and>
     (\<forall>i < used_rows r. \<forall>j < used_cols r. \<exists>p. rs_cell r i j = Some p \<and> length (cstr p) \<le> 2044) \<and>
     24 + length (results_body r) \<le> MSG_LIMIT \<and> rs_col_count r < 2 ^ 31 \<and> rs_row_count r < 2 ^ 31"

lemma cells_to_buffer:
  "\<forall>i \<in> set is. lookup xs i \<noteq> None \<Longrightarrow> foldR (cell_to_buffer xs) is = foldR put_str (map (\<lambda>i. cstr (the (lookup xs i))) is)"
proof (induction "is")
  case (Cons i "is")
  then obtain p where "lookup xs i = Some p" by auto
  then have "cell_to_buffer xs i = put_str (cstr p)" by (auto simp: cell_to_buffer_def cell_at_def lookup_def fun_eq_iff split: if_splits)
  moreover have "foldR (cell_to_buffer xs) is = foldR put_str (map (\<lambda>i. cstr (the (lookup xs i))) is)" using Cons by simp
  ultimately show ?case using \<open>lookup xs i = Some p\<close> by (intro ext) simp
qed (simp add: fun_eq_iff)

lemma foldR_concat: "foldR f (concat (map g is)) = foldR (\<lambda>i. foldR f (g i)) is"
proof (induction "is")
  case (Cons i "is")
  have "foldR f (g i @ concat (map g is)) s = bindR (foldR f (g i) s) (foldR f (concat (map g is)))" for s by (rule foldR_append)
  then show ?case using Cons by (simp add: fun_eq_iff)
qed (simp add: fun_eq_iff)

lemma foldR_cong: "(\<And>x. x \<in> set xs \<Longrightarrow> f x = g x) \<Longrightarrow> foldR f xs = foldR g xs"
proof (induction xs)
  case (Cons x xs)
  then have "foldR f xs = foldR g xs" and "f x = g x" by auto
  then show ?case by (intro ext) simp
qed (simp add: fun_eq_iff)

lemma rows_to_buffer:
  assumes "\<forall>i < rows. \<forall>j < cols. rs_cell r i j \<noteq> None"
  shows "foldR (row_to_buffer (rs_data r) cols) [0..<rows] =
    foldR put_str (map (\<lambda>(i, j). cstr (the (rs_cell r i j))) (List.product [0..<rows] [0..<cols]))"
proof -
  have "row_to_buffer (rs_data r) cols i = foldR put_str (map (\<lambda>j. cstr (the (rs_cell r i j))) [0..<cols])" if "i \<in> set [0..<rows]" for i
  proof (cases "cols = 0")
    case False
    then have i: "i < length (rs_data r)" using assms that by (auto simp: rs_cell_def split: if_splits)
    then have c: "rs_cell r i = lookup (rs_data r ! i)" by (simp add: rs_cell_def)
    then have "\<forall>j \<in> set [0..<cols]. lookup (rs_data r ! i) j \<noteq> None" using assms that by auto
    from cells_to_buffer [OF this] show ?thesis using False i by (simp add: row_to_buffer_def c fun_eq_iff)
  qed (simp add: row_to_buffer_def fun_eq_iff)
  then have "foldR (row_to_buffer (rs_data r) cols) [0..<rows] = foldR (\<lambda>i. foldR put_str (map (\<lambda>j. cstr (the (rs_cell r i j))) [0..<cols])) [0..<rows]"
    by (rule foldR_cong)
  then show ?thesis by (simp add: foldR_concat [symmetric] product_concat_map map_concat comp_def)
qed

abbreviation results_header :: "i32 \<Rightarrow> SOS_msg_header" where
  "results_header rank \<equiv> \<lparr>hd_msg_size = - 1, hd_msg_type = enum_code SOS_feedback_type_vals SOS_FEEDBACK_TYPE_QUERY, hd_msg_from = scast rank, hd_ref_guid = 0\<rparr>"

lemma results_strs_fit:
  assumes "results_sendable r"
  shows "\<forall>s \<in> set (name_strs r). str_fits s" and "\<forall>s \<in> set (cell_strs r). str_fits s"
  using assms by (fastforce simp: results_sendable_def name_strs_def cell_strs_def used_places_def str_fits_def)+

lemma results_to_buffer_ok:
  assumes "results_sendable r" and "fresh_msg buffer"
  shows "\<exists>b sql. SOSA_results_to_buffer rank buffer r = Inr (b, r\<lparr>rs_query_sql := Some sql\<rparr>) \<and> cstr sql = label_str r \<and> is_msg (results_header rank) (results_body r) b"
proof -
  obtain q where q: "rs_query_sql r = Some q" using assms(1) by (auto simp: results_sendable_def)
  define sql where "sql = (if cstr q = [] then str ''<none>'' @ [0] else q)"
  have sql: "cstr sql = label_str r"
    using cstr_append_NUL [of "str ''<none>''" "[]"] q by (auto simp: sql_def label_str_def byte_of_char_def)
  have "appends (pack_fields ''sgd'' [ArgS (label_str r), ArgG (rs_query_guid r), ArgD (rs_exec_duration r)])
      (encode [ArgS (label_str r), ArgG (rs_query_guid r), ArgD (rs_exec_duration r)])"
  proof -
    obtain x where x: "rs_exec_duration r = Fin x" using assms(1) by (cases "rs_exec_duration r") (auto simp: results_sendable_def is_finite_def)
    obtain w where "SOS_buffer_pack754_64 (Fin x) = Inr w" using pack754_Fin by blast
    then show ?thesis
      using assms(1) sql wf_cstr [of sql] x
      by (intro appends_fields) (auto simp: results_sendable_def INT_MAX_def SOS_DEFAULT_BUFFER_MAX_def)
  qed
  moreover have "appends (pack_fields ''ii'' [ArgI c, ArgI n]) (encode [ArgI c, ArgI n])" for c n
    by (intro appends_fields) (auto simp: SOS_DEFAULT_BUFFER_MAX_def)
  moreover have "foldR (cell_to_buffer (rs_col_names r)) [0..<used_cols r] = foldR put_str (name_strs r)"
    using assms(1) by (subst cells_to_buffer) (auto simp: results_sendable_def name_strs_def rs_name_def)
  moreover have "foldR (row_to_buffer (rs_data r) (used_cols r)) [0..<used_rows r] = foldR put_str (cell_strs r)"
    using assms(1) by (subst rows_to_buffer) (fastforce simp: results_sendable_def, simp add: cell_strs_def used_places_def)
  moreover note results_strs_fit [OF assms(1), THEN name_codec.puts_append]
  ultimately have "appends (\<lambda>bo. bindR (pack_fields ''sgd'' [ArgS (cstr sql), ArgG (rs_query_guid r), ArgD (rs_exec_duration r)] bo) (\<lambda>bo.
      bindR (pack_fields ''ii'' [ArgI (word_of_int (rs_col_count r)), ArgI (word_of_int (rs_row_count r))] bo) (\<lambda>bo.
      bindR (foldR (cell_to_buffer (rs_col_names r)) [0..<used_cols r] bo) (\<lambda>bo.
      foldR (row_to_buffer (rs_data r) (used_cols r)) [0..<used_rows r] bo)))) (results_body r)"
    unfolding results_body_def sql by (intro wire_intros) simp_all
  from write_msg_is_msg [OF assms(2) this, of "results_header rank"] assms(1) obtain b where
    "write_msg (results_header rank) (\<lambda>bo. bindR (pack_fields ''sgd'' [ArgS (cstr sql), ArgG (rs_query_guid r), ArgD (rs_exec_duration r)] bo) (\<lambda>bo.
      bindR (pack_fields ''ii'' [ArgI (word_of_int (rs_col_count r)), ArgI (word_of_int (rs_row_count r))] bo) (\<lambda>bo.
      bindR (foldR (cell_to_buffer (rs_col_names r)) [0..<used_cols r] bo) (\<lambda>bo.
      foldR (row_to_buffer (rs_data r) (used_cols r)) [0..<used_rows r] bo)))) buffer = Inr b" "is_msg (results_header rank) (results_body r) b"
    by (auto simp: results_sendable_def)
  then show ?thesis using q sql
    by (intro exI [of _ b] exI [of _ sql]) (simp add: SOSA_results_to_buffer_def Let_def used_cols_def used_rows_def flip: sql_def)
qed

section \<open>Receiving a table\<close>

lemma wipe_rows_ok:
  assumes "n \<le> length rows" and "\<forall>row \<in> set rows. cols \<le> int (length row)"
  shows "\<exists>rows'. wipe_rows n cols rows = Inr rows' \<and> map length rows' = map length rows"
  using assms
proof (induction n cols rows rule: wipe_rows.induct)
  case (3 n cols row rows)
  obtain row' where row: "wipe_cells cols row = Inr row'" "length row' = length row"
    using 3(3) by (auto simp: wipe_cells_def)
  moreover obtain rows' where "wipe_rows n cols rows = Inr rows'" "map length rows' = map length rows"
    using 3 row(1) by auto
  ultimately show ?case by simp
qed simp_all

lemma results_wipe_ok:
  assumes "results_ok r"
  shows "\<exists>r'. SOSA_results_wipe r = Inr r' \<and> results_ok r' \<and> rs_col_max r' = rs_col_max r \<and> rs_row_max r' = rs_row_max r \<and>
    rs_query_sql r' = None \<and> rs_query_guid r' = - 1 \<and> rs_exec_duration r' = rs_exec_duration r"
proof -
  have "nat (rs_row_count r) \<le> length (rs_data r)" "\<forall>row \<in> set (rs_data r). rs_col_count r \<le> int (length row)"
    using assms by (auto simp: results_ok_def in_set_conv_nth)
  from wipe_rows_ok [OF this] obtain data where data: "wipe_rows (nat (rs_row_count r)) (rs_col_count r) (rs_data r) = Inr data"
      "map length data = map length (rs_data r)" by blast
  have "length data = length (rs_data r)" using map_eq_imp_length_eq [OF data(2)] .
  moreover have "length (data ! i) = length (rs_data r ! i)" if "i < length data" for i
    using data(2) that calculation by (metis nth_map)
  moreover obtain names where names: "wipe_cells (rs_col_count r) (rs_col_names r) = Inr names" "length names = length (rs_col_names r)"
    using assms by (auto simp: wipe_cells_def results_ok_def)
  ultimately show ?thesis using assms data(1) by (auto simp: SOSA_results_wipe_def results_ok_def)
qed

lemma names_taken:
  assumes "\<forall>k \<in> set ks. k < length (rs_col_names r)"
  shows "name_codec.takes_all (map (\<lambda>k. (k, f k)) ks) r" and
    "\<exists>names. name_codec.upd_all (map (\<lambda>k. (k, f k)) ks) r = r\<lparr>rs_col_names := names\<rparr> \<and> length names = length (rs_col_names r) \<and>
       lookup names = (\<lambda>j. if j \<in> set ks then Some (f j @ [0]) else rs_name r j)"
proof -
  show "name_codec.takes_all (map (\<lambda>k. (k, f k)) ks) r" using assms by (induction ks arbitrary: r) simp_all
  show "\<exists>names. name_codec.upd_all (map (\<lambda>k. (k, f k)) ks) r = r\<lparr>rs_col_names := names\<rparr> \<and> length names = length (rs_col_names r) \<and>
       lookup names = (\<lambda>j. if j \<in> set ks then Some (f j @ [0]) else rs_name r j)"
    using assms
  proof (induction ks arbitrary: r)
    case Nil
    show ?case by (intro exI [of _ "rs_col_names r"]) (simp add: name_codec.upd_all_def rs_name_def)
  next
    case (Cons k ks)
    let ?r = "r\<lparr>rs_col_names := (rs_col_names r)[k := Some (f k @ [0])]\<rparr>"
    have "\<forall>k \<in> set ks. k < length (rs_col_names ?r)" using Cons.prems by simp
    from Cons.IH [OF this] obtain names where n: "name_codec.upd_all (map (\<lambda>k. (k, f k)) ks) ?r = ?r\<lparr>rs_col_names := names\<rparr>"
        "length names = length (rs_col_names ?r)" "lookup names = (\<lambda>j. if j \<in> set ks then Some (f j @ [0]) else rs_name ?r j)" by blast
    then show ?case
      using Cons.prems by (intro exI [of _ names]) (auto simp: name_codec.upd_all_def rs_name_def lookup_update)
  qed
qed

lemma cells_taken:
  assumes "\<forall>(i, j) \<in> set ks. i < length (rs_data r) \<and> j < length (rs_data r ! i)"
  shows "cell_codec.takes_all (map (\<lambda>k. (k, f k)) ks) r" and
    "\<exists>data. cell_codec.upd_all (map (\<lambda>k. (k, f k)) ks) r = r\<lparr>rs_data := data\<rparr> \<and> map length data = map length (rs_data r) \<and>
       rs_cell (r\<lparr>rs_data := data\<rparr>) = (\<lambda>i j. if (i, j) \<in> set ks then Some (f (i, j) @ [0]) else rs_cell r i j)"
proof -
  show "cell_codec.takes_all (map (\<lambda>k. (k, f k)) ks) r"
    using assms by (induction ks arbitrary: r) (auto simp: nth_list_update split: prod.splits)
  show "\<exists>data. cell_codec.upd_all (map (\<lambda>k. (k, f k)) ks) r = r\<lparr>rs_data := data\<rparr> \<and> map length data = map length (rs_data r) \<and>
       rs_cell (r\<lparr>rs_data := data\<rparr>) = (\<lambda>i j. if (i, j) \<in> set ks then Some (f (i, j) @ [0]) else rs_cell r i j)"
    using assms
  proof (induction ks arbitrary: r)
    case Nil
    show ?case by (intro exI [of _ "rs_data r"]) (simp add: cell_codec.upd_all_def)
  next
    case (Cons k ks)
    obtain i j where k: "k = (i, j)" by (cases k)
    have ij: "i < length (rs_data r)" "j < length (rs_data r ! i)" using Cons.prems k by auto
    let ?d = "(rs_data r)[i := (rs_data r ! i)[j := Some (f k @ [0])]]"
    have same: "map length ?d = map length (rs_data r)" using ij by (simp add: list_eq_iff_nth_eq nth_list_update)
    have "length (?d ! a) = length (rs_data r ! a)" for a
      using ij by (cases "a = i") simp_all
    then have "\<forall>(i, j) \<in> set ks. i < length (rs_data (r\<lparr>rs_data := ?d\<rparr>)) \<and> j < length (rs_data (r\<lparr>rs_data := ?d\<rparr>) ! i)"
      using Cons.prems by auto
    from Cons.IH [OF this] obtain data where d: "cell_codec.upd_all (map (\<lambda>k. (k, f k)) ks) (r\<lparr>rs_data := ?d\<rparr>) = r\<lparr>rs_data := data\<rparr>"
        "map length data = map length ?d"
        "rs_cell (r\<lparr>rs_data := data\<rparr>) = (\<lambda>i j. if (i, j) \<in> set ks then Some (f (i, j) @ [0]) else rs_cell (r\<lparr>rs_data := ?d\<rparr>) i j)" by auto
    then show ?case
      using same rs_cell_put [OF ij, of "Some (f k @ [0])"] by (intro exI [of _ data]) (auto simp: cell_codec.upd_all_def k fun_eq_iff)
  qed
qed

lemma strs_read:
  "\<forall>s \<in> set (map f ks). str_fits s \<Longrightarrow> \<forall>kx \<in> set (map (\<lambda>k. (k, f k)) ks). str_fits (snd kx)"
  by auto

lemma wf_none: "wf_cstring (str ''<none>'')" by code_simp

text \<open>Every message with this body is read, into any table.\<close>

lemma results_from_buffer_ok:
  assumes "results_sendable r" and "is_msg header (results_body r) b" and "results_ok r0"
  shows "\<exists>b' r'. SOSA_results_from_buffer r0 b = Inr (b', r') \<and> results_ok r' \<and> rs_col_count r' = rs_col_count r \<and> rs_row_count r' = rs_row_count r \<and>
    rs_exec_duration r' = wire_double (rs_exec_duration r) \<and> rs_query_sql r' = None \<and> rs_query_guid r' = - 1 \<and>
    (\<forall>j < used_cols r. rs_name r' j = Some (cstr (the (rs_name r j)) @ [0])) \<and>
    (\<forall>i < used_rows r. \<forall>j < used_cols r. rs_cell r' i j = Some (cstr (the (rs_cell r i j)) @ [0])) \<and> buf_is_locking b' = buf_is_locking b"
proof -
  let ?s = "encode [ArgS (label_str r)]" and ?g = "encode [ArgG (rs_query_guid r)]" and ?d = "encode [ArgD (rs_exec_duration r)]"
  let ?n = "encode [ArgI (word_of_int (rs_col_count r)), ArgI (word_of_int (rs_row_count r))]"
  let ?names = "concat (map str_enc (name_strs r))" and ?cells = "concat (map str_enc (cell_strs r))"
  have ok: "results_ok r" "rs_col_count r < 2 ^ 31" "rs_row_count r < 2 ^ 31" "0 \<le> rs_col_count r" "0 \<le> rs_row_count r"
    using assms(1) by (auto simp: results_sendable_def results_ok_def)
  obtain x where x: "rs_exec_duration r = Fin x" using assms(1) by (cases "rs_exec_duration r") (auto simp: results_sendable_def is_finite_def)
  have label: "str_fits (label_str r)"
    using assms(1) wf_none by (auto simp: results_sendable_def str_fits_def label_str_def)
  let ?r1 = "r0\<lparr>rs_query_sql := Some (label_str r @ [0]), rs_query_guid := rs_query_guid r, rs_exec_duration := wire_double (rs_exec_duration r)\<rparr>"
  let ?r2 = "SOSA_results_grow_to ?r1 (rs_col_count r) (rs_row_count r)"
  have "results_ok ?r1" using assms(3) by (simp add: results_ok_def)
  note grown = grow_to_ok [OF this, where c = "rs_col_count r" and n = "rs_row_count r"]
  obtain r3 where r3: "SOSA_results_wipe ?r2 = Inr r3" "results_ok r3" "rs_col_max r3 = rs_col_max ?r2" "rs_row_max r3 = rs_row_max ?r2"
      "rs_query_sql r3 = None" "rs_query_guid r3 = - 1" "rs_exec_duration r3 = wire_double (rs_exec_duration r)"
    using results_wipe_ok [OF grown(1)] grown(14) by auto
  have B: "results_body r = ?s @ ?g @ ?d @ ?n @ ?names @ ?cells" by (simp add: results_body_def)
  obtain b1 h where u: "SOS_msg_unzip b 0 = Inr (b1, h, 24)" "is_msg header (?s @ ?g @ ?d @ ?n @ ?names @ ?cells) b1" "buf_is_locking b1 = buf_is_locking b"
    using unzip_is_msg [OF assms(2)] unfolding B by blast
  let ?o1 = "24 + length ?s" let ?o2 = "?o1 + length ?g" let ?o3 = "?o2 + length ?d" let ?o4 = "?o3 + length ?n"
  have 1: "SOS_buffer_unpack_safestr b1 24 = Inr (b1, ?o1, Some (label_str r @ [0]))"
    using read_body_start [OF u(2) safestr_reads [OF label]] by simp
  have at: "unpack_fields format dests (b1, 24 + length xs) = Inr (b1, 24 + length xs + length e, outs)"
    if "?s @ ?g @ ?d @ ?n @ ?names @ ?cells = xs @ e @ zs" "reads (unpack_fields format dests) e outs" for format dests xs e zs outs
    using read_body [OF _ that(2)] u(2) unfolding that(1) by blast
  have 2: "unpack_fields ''g'' [DestG] (b1, ?o1) = Inr (b1, ?o2, [OutG (rs_query_guid r)])"
    by (rule at [of ?s ?g]) (simp, rule reads_fields, simp_all)
  have 3: "unpack_fields ''d'' [DestD] (b1, ?o2) = Inr (b1, ?o3, [OutD (wire_double (rs_exec_duration r))])"
    using at [of "?s @ ?g" ?d "?n @ ?names @ ?cells" "''d''" "[DestD]"] reads_fields [of "''d''" "[ArgD (rs_exec_duration r)]" "[DestD]"] x by (simp add: add.assoc)
  have 4: "unpack_fields ''ii'' [DestI, DestI] (b1, ?o3) = Inr (b1, ?o4, [OutI (word_of_int (rs_col_count r)), OutI (word_of_int (rs_row_count r))])"
    using at [of "?s @ ?g @ ?d" ?n "?names @ ?cells" "''ii''" "[DestI, DestI]"]
      reads_fields [of "''ii''" "[ArgI (word_of_int (rs_col_count r)), ArgI (word_of_int (rs_row_count r))]" "[DestI, DestI]"] by (simp add: add.assoc)
  have n: "sint (word_of_int (rs_col_count r) :: i32) = rs_col_count r" "sint (word_of_int (rs_row_count r) :: i32) = rs_row_count r"
    using ok by (simp_all add: sint_sbintrunc' signed_take_bit_int_eq_self)
  let ?f = "\<lambda>j. cstr (the (rs_name r j))" and ?c = "\<lambda>(i, j). cstr (the (rs_cell r i j))"
  have room: "\<forall>k \<in> set [0..<used_cols r]. k < length (rs_col_names r3)"
    using r3(2,3) grown(4) by (auto simp: results_ok_def used_cols_def)
  obtain names where names: "name_codec.upd_all (map (\<lambda>k. (k, ?f k)) [0..<used_cols r]) r3 = r3\<lparr>rs_col_names := names\<rparr>"
      "length names = length (rs_col_names r3)" "lookup names = (\<lambda>j. if j \<in> set [0..<used_cols r] then Some (?f j @ [0]) else rs_name r3 j)"
    using names_taken(2) [OF room, where f = ?f] by blast
  let ?r4 = "r3\<lparr>rs_col_names := names\<rparr>"
  have "reads (\<lambda>bo. foldR name_from_buffer [0..<used_cols r] (fst bo, snd bo, r3)) ?names ?r4"
    using name_codec.gets_read [OF strs_read names_taken(1) [OF room, where f = ?f]] results_strs_fit(1) [OF assms(1)] names(1)
    by (simp add: name_strs_def comp_def del: encode_simps enc_arg.simps)
  from read_body [OF _ this, of header "?s @ ?g @ ?d @ ?n" ?cells b1] u(2)
  have 5: "foldR name_from_buffer [0..<used_cols r] (b1, ?o4, r3) = Inr (b1, ?o4 + length ?names, ?r4)"
    by (simp add: add.assoc del: encode_simps enc_arg.simps)
  have r4: "results_ok ?r4" using r3(2) names(2) by (simp add: results_ok_def)
  have rows: "rs_col_count r \<le> rs_col_max ?r4" "rs_row_count r \<le> rs_row_max ?r4" using r3(3,4) grown(4,5) by simp_all
  have room': "\<forall>(i, j) \<in> set (used_places r). i < length (rs_data ?r4) \<and> j < length (rs_data ?r4 ! i)"
  proof (clarsimp simp: used_places_def used_rows_def used_cols_def)
    fix i j
    assume "i < nat (rs_row_count r)" "j < nat (rs_col_count r)"
    then have "int i < rs_row_max ?r4" "int j < rs_col_max ?r4" using rows by auto
    then show "i < length (rs_data r3) \<and> j < length (rs_data r3 ! i)" using results_ok_size [OF r4] by simp
  qed
  obtain data where data: "cell_codec.upd_all (map (\<lambda>k. (k, ?c k)) (used_places r)) ?r4 = ?r4\<lparr>rs_data := data\<rparr>" "map length data = map length (rs_data ?r4)"
      "rs_cell (?r4\<lparr>rs_data := data\<rparr>) = (\<lambda>i j. if (i, j) \<in> set (used_places r) then Some (?c (i, j) @ [0]) else rs_cell ?r4 i j)"
    using cells_taken(2) [OF room', where f = ?c] by blast
  let ?r5 = "?r4\<lparr>rs_data := data\<rparr>"
  have "reads (\<lambda>bo. foldR cell_from_buffer (used_places r) (fst bo, snd bo, ?r4)) ?cells ?r5"
    using cell_codec.gets_read [OF strs_read cells_taken(1) [OF room', where f = ?c]] results_strs_fit(2) [OF assms(1)] data(1)
    by (simp add: cell_strs_def comp_def case_prod_beta del: encode_simps enc_arg.simps)
  from read_body [OF _ this, of header "?s @ ?g @ ?d @ ?n @ ?names" "[]" b1] u(2)
  have 6: "foldR cell_from_buffer (used_places r) (b1, ?o4 + length ?names, ?r4) = Inr (b1, ?o4 + length ?names + length ?cells, ?r5)"
    by (simp add: add.assoc del: encode_simps enc_arg.simps)
  let ?r6 = "?r5\<lparr>rs_col_count := rs_col_count r, rs_row_count := rs_row_count r\<rparr>"
  have "SOSA_results_from_buffer r0 b = Inr (b1, ?r6)"
    using u(1) 1 2 3 4 r3(1) 5 6 by (simp add: SOSA_results_from_buffer_def n used_cols_def used_rows_def used_places_def del: encode_simps enc_arg.simps)
  moreover have "results_ok ?r6"
  proof -
    have "length data = length (rs_data r3)" using map_eq_imp_length_eq [OF data(2)] by simp
    moreover have "length (data ! i) = length (rs_data r3 ! i)" if "i < length data" for i
      using arg_cong [OF data(2), of "\<lambda>xs. xs ! i"] that calculation by simp
    ultimately show ?thesis using r4 rows ok(4,5) by (auto simp: results_ok_def)
  qed
  moreover have "\<forall>j < used_cols r. rs_name ?r6 j = Some (cstr (the (rs_name r j)) @ [0])"
    using names(3) by (simp add: rs_name_def)
  moreover have "\<forall>i < used_rows r. \<forall>j < used_cols r. rs_cell ?r6 i j = Some (cstr (the (rs_cell r i j)) @ [0])"
    using data(3) by (simp add: used_places_def)
  ultimately show ?thesis using r3(5-7) u(3) by simp
qed

text \<open>
  C24: a table arrives as it was sent: into any table, however large or small, the receiver reads the same number of
  columns and rows, the same names and cells, and the duration as the wire carries it. But not the label: it is read
  and then wiped with the old contents, so the identifier the client is to recognise its query by is lost.
\<close>

theorem results_roundtrip:
  assumes "results_sendable r" and "fresh_msg buffer" and "results_ok r0"
  shows "\<exists>b sql b' r'. SOSA_results_to_buffer rank buffer r = Inr (b, r\<lparr>rs_query_sql := Some sql\<rparr>) \<and>
    SOSA_results_from_buffer r0 b = Inr (b', r') \<and> results_ok r' \<and> rs_col_count r' = rs_col_count r \<and> rs_row_count r' = rs_row_count r \<and>
    rs_exec_duration r' = wire_double (rs_exec_duration r) \<and>
    (\<forall>j < used_cols r. rs_name r' j = Some (cstr (the (rs_name r j)) @ [0])) \<and>
    (\<forall>i < used_rows r. \<forall>j < used_cols r. rs_cell r' i j = Some (cstr (the (rs_cell r i j)) @ [0])) \<and>
    rs_query_sql r' = None \<and> rs_query_guid r' = - 1"
proof -
  obtain b sql where b: "SOSA_results_to_buffer rank buffer r = Inr (b, r\<lparr>rs_query_sql := Some sql\<rparr>)" "is_msg (results_header rank) (results_body r) b"
    using results_to_buffer_ok [OF assms(1,2)] by blast
  from results_from_buffer_ok [OF assms(1) b(2) assms(3)] b(1) show ?thesis by blast
qed

definition example_results :: SOSA_results where
  "example_results =
     \<lparr>rs_query_sql = Some [113, 0], rs_query_guid = 77, rs_exec_duration = Fin 1, rs_col_max = 2, rs_col_count = 1,
      rs_col_names = [Some [110, 0], None], rs_row_max = 1, rs_row_count = 1, rs_data = [[Some [55, 0], None]]\<rparr>"

lemma example_results_sendable: "results_sendable example_results"
proof -
  have c: "cstr [113, 0] = [113]" "cstr [110, 0] = [110]" "cstr [55, 0] = [55]" by (simp_all add: cstr_def)
  have u: "used_cols example_results = 1" "used_rows example_results = 1" by (simp_all add: used_cols_def used_rows_def example_results_def)
  have n: "rs_name example_results 0 = Some [110, 0]" "rs_cell example_results 0 0 = Some [55, 0]"
    by (simp_all add: rs_name_def rs_cell_def lookup_def example_results_def)
  have l: "label_str example_results = [113]" by (simp add: label_str_def example_results_def c)
  obtain w where "SOS_buffer_pack754_64 (Fin 1) = Inr w" using pack754_Fin by blast
  then have "length (results_body example_results) \<le> 100"
    by (simp add: results_body_def name_strs_def cell_strs_def used_places_def u n l c) (simp add: example_results_def)
  moreover have "results_ok example_results" by (simp add: results_ok_def example_results_def)
  moreover have "rs_query_sql example_results \<noteq> None" "is_finite (rs_exec_duration example_results)" "rs_col_count example_results < 2 ^ 31"
      "rs_row_count example_results < 2 ^ 31"
    by (simp_all add: example_results_def is_finite_def)
  ultimately show ?thesis
    by (simp add: results_sendable_def u n l c MSG_LIMIT_def)
qed

theorem results_roundtrip_witness:
  "\<exists>b sql b' r'. SOSA_results_to_buffer 0 SOS_buffer_init example_results = Inr (b, sql) \<and>
    SOSA_results_from_buffer (SOSA_results_init_sized 0 0) b = Inr (b', r') \<and> rs_row_count r' = 1 \<and> rs_name r' 0 = Some [110, 0] \<and>
    rs_cell r' 0 0 = Some [55, 0] \<and> rs_query_guid r' = - 1"
proof -
  have ok: "results_ok (SOSA_results_init_sized 0 0)" by (rule results_init_ok) simp_all
  have u: "used_cols example_results = 1" "used_rows example_results = 1" "rs_row_count example_results = 1"
    "rs_name example_results 0 = Some [110, 0]" "rs_cell example_results 0 0 = Some [55, 0]"
    by (simp_all add: used_cols_def used_rows_def rs_name_def rs_cell_def lookup_def example_results_def)
  from results_roundtrip [OF example_results_sendable fresh_msg_init ok, of 0] show ?thesis
    unfolding u by (force simp: u cstr_def)
qed

text \<open>A table without a label cannot be sent: the missing label is warned of and then measured.\<close>

lemma unlabelled_faults: "rs_query_sql r = None \<Longrightarrow> SOSA_results_to_buffer rank buffer r = Inl Null_Deref"
  by (simp add: SOSA_results_to_buffer_def)

end
