(* ===== verification/SOS_Grab.thy ===== *)
theory SOS_Grab
  imports SOS_Results
begin

text \<open>
  Looking into the caches of a daemon (\<open>SOSA_cache_to_results\<close> of \<open>sosa.c\<close>): every cached snapshot that matches two
  filters becomes a row of a table of results. \<open>grab_rows\<close> says which rows these are, without rings and positions;
  \<open>cache_to_results_spec\<close> shows that the code makes exactly them.

  The numbers are written as \<open>printf\<close> writes them; the regular expressions the callers speak of are substrings. The
  lock of the caches is not modelled.
\<close>

section \<open>Looking into the caches\<close>

text \<open>What \<open>printf\<close> writes for the numbers of a row.\<close>

definition int_str :: "int \<Rightarrow> cstring" where
  "int_str n = (if n < 0 then 45 # dec_digits (nat (- n)) else dec_digits (nat n))"

text \<open>\<open>%.nlf\<close>: n decimals, rounded to the nearest; without a number it is six.\<close>

definition lf_str :: "nat \<Rightarrow> c_double \<Rightarrow> cstring" where
  "lf_str decimals d =
     (case d of
        Fin r \<Rightarrow>
          let n = nat (round_half_even (\<bar>r\<bar> * 10 ^ decimals)); frac = dec_digits (n mod 10 ^ decimals)
          in (if r < 0 then [45] else []) @ dec_digits (n div 10 ^ decimals) @ [46] @ replicate (decimals - length frac) 48 @ frac
      | Infty neg \<Rightarrow> (if neg then [45] else []) @ str ''inf''
      | NaN \<Rightarrow> str ''nan'')"

definition double_str :: "c_double \<Rightarrow> cstring" where
  "double_str = lf_str 6"

text \<open>\<open>snprintf\<close> into an array of 128 characters; a string in an array; \<open>strstr(s, t) != NULL\<close>.\<close>

definition in_128 :: "cstring \<Rightarrow> cstring" where
  "in_128 s = take 127 s"

definition array_str :: "byte list \<Rightarrow> cstring res" where
  "array_str a = checkR (0 \<in> set a) Out_Of_Bounds (Inr (cstr a))"

fun strstr :: "cstring \<Rightarrow> cstring \<Rightarrow> bool" where
  "strstr [] t = (t = [])"
| "strstr (c # s) t = (take (length t) (c # s) = t \<or> strstr s t)"

definition snap_val_str :: "SOS_val_snap \<Rightarrow> cstring res" where
  "snap_val_str snap =
     (case enum_decode SOS_val_type_vals (sn_type snap) of
        Some SOS_VAL_TYPE_INT \<Rightarrow> bindR (read_i_val (sn_val snap)) (\<lambda>i. Inr (in_128 (int_str (sint i))))
      | Some SOS_VAL_TYPE_LONG \<Rightarrow> bindR (read_l_val (sn_val snap)) (\<lambda>l. Inr (in_128 (int_str (sint l))))
      | Some SOS_VAL_TYPE_DOUBLE \<Rightarrow> bindR (read_d_val (sn_val snap)) (\<lambda>d. Inr (in_128 (double_str d)))
      | Some SOS_VAL_TYPE_STRING \<Rightarrow> bindR (read_c_val (sn_val snap)) (\<lambda>p.
          Inr (case p of Some blk \<Rightarrow> cstr blk | None \<Rightarrow> in_128 (str ''(null)'')))
      | Some SOS_VAL_TYPE_BYTES \<Rightarrow> Inr (in_128 (str ''(bytes)''))
      | _ \<Rightarrow> Inr (in_128 (str ''(unknown type)'')))"

definition cache_columns :: "string list" where
  "cache_columns = [''process_id'', ''node_id'', ''pub_title'', ''pub_guid'', ''comm_rank'', ''prog_name'', ''time_pack'', ''time_recv'',
     ''frame'', ''relation_id'', ''val_name'', ''val_type'', ''val_guid'', ''val'']"

definition cache_row :: "SOS_pub \<Rightarrow> cstring \<Rightarrow> SOS_val_snap \<Rightarrow> cstring list res" where
  "cache_row pub name snap =
     bindR (snap_val_str snap) (\<lambda>val.
     bindR (array_str (pb_node_id pub)) (\<lambda>node_id.
     bindR (array_str (pb_title pub)) (\<lambda>title.
     bindR (array_str (pb_guid_str pub)) (\<lambda>guid.
     bindR (array_str (pb_prog_name pub)) (\<lambda>prog_name.
     Inr [in_128 (int_str (sint (pb_process_id pub))), node_id, title, guid, in_128 (int_str (sint (pb_comm_rank pub))), prog_name,
          in_128 (double_str (tm_pack (sn_time snap))), in_128 (double_str (tm_recv (sn_time snap))), in_128 (int_str (sint (sn_frame snap))),
          in_128 (guid_str (sn_relation_id snap)), name, in_128 (int_str (sint (sn_type snap))), in_128 (guid_str (sn_guid snap)), val])))))"

definition put_names :: "cstring list \<Rightarrow> SOSA_results \<Rightarrow> SOSA_results res" where
  "put_names = (\<lambda>names. foldR (\<lambda>(col, name) r. SOSA_results_put_name r (int col) name) (zip [0..<length names] names))"

definition put_vals :: "int \<Rightarrow> cstring option list \<Rightarrow> SOSA_results \<Rightarrow> SOSA_results res" where
  "put_vals row = (\<lambda>vals. foldR (\<lambda>(col, val) r. SOSA_results_put r (int col) row val) (zip [0..<length vals] vals))"

definition put_row :: "int \<Rightarrow> cstring list \<Rightarrow> SOSA_results \<Rightarrow> SOSA_results res" where
  "put_row row = (\<lambda>cells. foldR (\<lambda>(col, s) r. SOSA_results_put r (int col) row (Some s)) (zip [0..<length cells] cells))"

definition cell_str :: "cstring option \<Rightarrow> cstring" where
  "cell_str val = (case val of None \<Rightarrow> str ''NULL'' | Some s \<Rightarrow> s)"

lemma put_vals_row: "put_vals row vals = put_row row (map cell_str vals)"
proof -
  have "SOSA_results_put r c row val = SOSA_results_put r c row (Some (cell_str val))" for r c val
    by (simp add: SOSA_results_put_def cell_str_def)
  moreover have "foldR f (zip is (map g xs)) s = foldR (\<lambda>(i, x). f (i, g x)) (zip is xs) s" for f :: "nat \<times> cstring \<Rightarrow> SOSA_results \<Rightarrow> SOSA_results res"
    and g :: "cstring option \<Rightarrow> cstring" and "is" xs s
    by (induction xs arbitrary: "is" s) (case_tac "is", auto intro: bindR_cong)+
  ultimately show ?thesis by (simp add: put_vals_def put_row_def fun_eq_iff case_prod_beta)
qed

definition snap_to_results :: "SOS_pub \<Rightarrow> cstring \<Rightarrow> SOS_val_snap \<Rightarrow> int \<times> SOSA_results \<Rightarrow> (int \<times> SOSA_results) res" where
  "snap_to_results pub val_filter snap = (\<lambda>(row, r).
     bindR (pub_data_at pub (sint (sn_elem snap))) (\<lambda>d.
     bindR (array_str (dt_name d)) (\<lambda>name.
     if \<not> strstr name val_filter then Inr (row, r)
     else bindR (cache_row pub name snap) (\<lambda>cells.
          bindR (put_row row cells r) (\<lambda>r. Inr (row + 1, r\<lparr>rs_row_count := row + 1\<rparr>))))))"

definition frame_to_results :: "SOS_pub \<Rightarrow> cstring \<Rightarrow> snap_chain \<Rightarrow> int \<times> SOSA_results \<Rightarrow> (int \<times> SOSA_results) res" where
  "frame_to_results pub val_filter chain s =
     (case chain of
        Chain snaps \<Rightarrow> foldR (snap_to_results pub val_filter) snaps s
      | Self_Loop snap \<Rightarrow> bindR (snap_to_results pub val_filter snap s) (\<lambda>_. Inl Diverges))"

text \<open>
  The ring is read from its head until the head comes again, as many frames as are asked for, not newer than
  \<open>frame_head\<close> unless it is -1. A frame that is too new is looked at before the test for an empty slot. The first
  argument bounds the rounds: the length of the ring is enough.
\<close>

definition chain_frame :: "snap_chain \<Rightarrow> i64 res" where
  "chain_frame chain = (case chain of Chain [] \<Rightarrow> Inl Null_Deref | Chain (snap # _) \<Rightarrow> Inr (sn_frame snap) | Self_Loop snap \<Rightarrow> Inr (sn_frame snap))"

fun cache_scan ::
    "nat \<Rightarrow> SOS_pub \<Rightarrow> snap_chain list \<Rightarrow> cstring \<Rightarrow> int \<Rightarrow> int \<Rightarrow> int \<Rightarrow> int \<Rightarrow> int \<Rightarrow> int \<times> SOSA_results \<Rightarrow> (int \<times> SOSA_results) res" where
  "cache_scan 0 pub cache val_filter frame_head limit read_pos stop_pos grabbed s = Inl Diverges"
| "cache_scan (Suc rounds) pub cache val_filter frame_head limit read_pos stop_pos grabbed s =
     (if read_pos = stop_pos \<or> \<not> (grabbed < limit \<or> limit = - 1) then Inr s
      else
        checkR (0 \<le> read_pos \<and> read_pos < int (length cache)) Out_Of_Bounds
          (let chain = cache ! nat read_pos;
               next_pos = (if read_pos + 1 = sint (pb_cache_depth pub) then 0 else read_pos + 1)
           in bindR (if frame_head = - 1 then Inr False else bindR (chain_frame chain) (\<lambda>f. Inr (frame_head < sint f))) (\<lambda>too_new.
              if too_new
              then cache_scan rounds pub cache val_filter frame_head limit next_pos (pb_cache_head pub) grabbed s
              else if chain = Chain [] then Inr s
              else bindR (frame_to_results pub val_filter chain s)
                     (cache_scan rounds pub cache val_filter frame_head limit next_pos (pb_cache_head pub) (grabbed + 1)))))"

declare cache_scan.simps [simp del]

definition pub_to_results :: "cstring \<Rightarrow> cstring \<Rightarrow> int \<Rightarrow> int \<Rightarrow> SOS_pub \<Rightarrow> int \<times> SOSA_results \<Rightarrow> (int \<times> SOSA_results) res" where
  "pub_to_results pub_filter val_filter frame_head limit pub s =
     (if 0 < sint (pb_cache_depth pub)
      then bindR (array_str (pb_title pub)) (\<lambda>title.
           if strstr title pub_filter
           then (case pb_cache pub of
                   None \<Rightarrow> Inl Null_Deref
                 | Some cache \<Rightarrow>
                     cache_scan (length cache + 2) pub cache val_filter frame_head limit (pb_cache_head pub) (- 1) 0 s)
           else Inr s)
      else Inr s)"

text \<open>The publications are those of the list of the daemon; \<open>duration\<close> is what the clock says it took.\<close>

definition SOSA_cache_to_results ::
    "c_double \<Rightarrow> SOSA_results \<Rightarrow> cstring \<Rightarrow> cstring \<Rightarrow> int \<Rightarrow> int \<Rightarrow> SOS_pub list \<Rightarrow> SOSA_results res" where
  "SOSA_cache_to_results duration r pub_filter val_filter frame_head limit pubs =
     bindR (put_names (map str cache_columns) r) (\<lambda>r.
     bindR (foldR (pub_to_results pub_filter val_filter frame_head limit) pubs (0, r)) (\<lambda>(_, r).
     Inr (r\<lparr>rs_exec_duration := duration\<rparr>)))"

section \<open>What a look into the caches returns\<close>

text \<open>One row.\<close>

lemma put_cells_ok:
  assumes "results_ok r" and "length cells \<le> 14 \<or> int (length cells) \<le> rs_col_max r" and "int i \<le> rs_row_max r"
  shows "\<exists>r'. put_row (int i) cells r = Inr r' \<and> results_ok r' \<and>
    rs_cell r' = (rs_cell r)(i := (\<lambda>j. if j < length cells then Some (cells ! j @ [0]) else rs_cell r i j)) \<and> rs_name r' = rs_name r \<and>
    rs_row_count r' = (if cells = [] then rs_row_count r else max (rs_row_count r) (int i + 1)) \<and>
    rs_col_count r' = max (rs_col_count r) (int (length cells)) \<and>
    rs_query_sql r' = rs_query_sql r \<and> rs_query_guid r' = rs_query_guid r \<and> rs_exec_duration r' = rs_exec_duration r \<and>
    rs_row_max r \<le> rs_row_max r' \<and> rs_col_max r \<le> rs_col_max r'"
  using assms(2)
proof (induction cells rule: rev_induct)
  case Nil
  show ?case using assms(1) by (simp add: put_row_def results_ok_def)
next
  case (snoc c cells)
  have le: "length cells \<le> 14 \<or> int (length cells) \<le> rs_col_max r" using snoc.prems by auto
  obtain r1 where r1: "put_row (int i) cells r = Inr r1" "results_ok r1"
      "rs_cell r1 = (rs_cell r)(i := (\<lambda>j. if j < length cells then Some (cells ! j @ [0]) else rs_cell r i j))" "rs_name r1 = rs_name r"
      "rs_row_count r1 = (if cells = [] then rs_row_count r else max (rs_row_count r) (int i + 1))"
      "rs_col_count r1 = max (rs_col_count r) (int (length cells))"
      "rs_query_sql r1 = rs_query_sql r" "rs_query_guid r1 = rs_query_guid r" "rs_exec_duration r1 = rs_exec_duration r"
      "rs_row_max r \<le> rs_row_max r1" "rs_col_max r \<le> rs_col_max r1"
    using snoc.IH [OF le] by blast
  have "0 \<le> rs_col_max r1" using r1(2) by (simp add: results_ok_def)
  then have "int (length cells) < rs_col_max r1 + SOSA_DEFAULT_RESULT_COL_MAX" "int i < rs_row_max r1 + SOSA_DEFAULT_RESULT_ROW_MAX"
    using snoc.prems assms(3) r1(10,11) by (auto simp: SOSA_DEFAULT_RESULT_COL_MAX_def SOSA_DEFAULT_RESULT_ROW_MAX_def)
  from results_put_ok [OF r1(2) this(2,1), of "Some c"] obtain r2 where
    r2: "SOSA_results_put r1 (int (length cells)) (int i) (Some c) = Inr r2" "put_result r1 i (length cells) (Some c) r2"
      "rs_row_max r1 \<le> rs_row_max r2" "rs_col_max r1 \<le> rs_col_max r2" by blast
  have "put_row (int i) (cells @ [c]) r = Inr r2"
    using r1(1) r2(1) by (simp add: put_row_def foldR_append)
  moreover have "rs_cell r2 = (rs_cell r)(i := (\<lambda>j. if j < length (cells @ [c]) then Some ((cells @ [c]) ! j @ [0]) else rs_cell r i j))"
    using r1(3) r2(2) by (auto simp: put_result_def fun_eq_iff nth_append less_Suc_eq)
  ultimately show ?case
    using r1 r2(2-4) by (intro exI [of _ r2]) (auto simp: put_result_def)
qed

lemma put_names_ok:
  assumes "results_ok r" and "length names \<le> 14 \<or> int (length names) \<le> rs_col_max r"
  shows "\<exists>r'. put_names names r = Inr r' \<and>
    results_ok r' \<and> rs_cell r' = rs_cell r \<and> rs_name r' = (\<lambda>j. if j < length names then Some (names ! j @ [0]) else rs_name r j) \<and>
    rs_row_count r' = rs_row_count r \<and> rs_col_count r' = rs_col_count r \<and> rs_query_sql r' = rs_query_sql r \<and> rs_query_guid r' = rs_query_guid r \<and>
    rs_exec_duration r' = rs_exec_duration r \<and> rs_col_max r \<le> rs_col_max r' \<and> rs_row_max r \<le> rs_row_max r'"
  using assms(2)
proof (induction names rule: rev_induct)
  case Nil
  show ?case using assms(1) by (simp add: put_names_def)
next
  case (snoc n names)
  have le: "length names \<le> 14 \<or> int (length names) \<le> rs_col_max r" using snoc.prems by auto
  obtain r1 where r1: "put_names names r = Inr r1"
      "results_ok r1" "rs_cell r1 = rs_cell r" "rs_name r1 = (\<lambda>j. if j < length names then Some (names ! j @ [0]) else rs_name r j)"
      "rs_row_count r1 = rs_row_count r" "rs_col_count r1 = rs_col_count r" "rs_query_sql r1 = rs_query_sql r" "rs_query_guid r1 = rs_query_guid r"
      "rs_exec_duration r1 = rs_exec_duration r" "rs_col_max r \<le> rs_col_max r1" "rs_row_max r \<le> rs_row_max r1"
    using snoc.IH [OF le] by blast
  have "int (length names) < rs_col_max r1 + SOSA_DEFAULT_RESULT_COL_MAX"
    using r1(2,10) snoc.prems by (auto simp: results_ok_def SOSA_DEFAULT_RESULT_COL_MAX_def)
  from results_put_name_ok [OF r1(2) this, of n] obtain r2 where
    "SOSA_results_put_name r1 (int (length names)) n = Inr r2" "results_ok r2" "rs_cell r2 = rs_cell r1"
    "rs_name r2 = (rs_name r1)(length names := Some (n @ [0]))" "rs_row_count r2 = rs_row_count r1" "rs_col_count r2 = rs_col_count r1"
    "rs_query_sql r2 = rs_query_sql r1" "rs_query_guid r2 = rs_query_guid r1" "rs_exec_duration r2 = rs_exec_duration r1"
    "rs_col_max r1 \<le> rs_col_max r2" "rs_row_max r1 \<le> rs_row_max r2" by blast
  moreover have "put_names (names @ [n]) r = Inr r2" if "SOSA_results_put_name r1 (int (length names)) n = Inr r2" for r2
    using r1(1) that by (simp add: put_names_def foldR_append)
  ultimately show ?case
    using r1(3-11) by (intro exI [of _ r2]) (auto simp: fun_eq_iff nth_append less_Suc_eq)
qed

definition filled :: "nat \<Rightarrow> SOSA_results \<Rightarrow> cstring list list \<Rightarrow> bool" where
  "filled n r rows \<longleftrightarrow>
     results_ok r \<and> rs_row_count r = int (length rows) \<and>
     (\<forall>i < length rows. length (rows ! i) = n \<and> (\<forall>j < n. rs_cell r i j = Some (rows ! i ! j @ [0])))"

definition holds_rows :: "SOSA_results \<Rightarrow> cstring list list \<Rightarrow> bool" where
  "holds_rows r rows \<longleftrightarrow> filled 14 r rows \<and> rs_col_count r = (if rows = [] then 0 else 14)"

lemma put_row_filled:
  assumes "filled n r rows" and "length cells = n" and "0 < n" and "n \<le> 14 \<or> int n \<le> rs_col_max r"
  shows "\<exists>r'. put_row (int (length rows)) cells r = Inr r' \<and> filled n (r'\<lparr>rs_row_count := int (length rows) + 1\<rparr>) (rows @ [cells]) \<and>
    rs_col_count r' = max (rs_col_count r) (int n) \<and> rs_name r' = rs_name r \<and> rs_query_sql r' = rs_query_sql r \<and>
    rs_query_guid r' = rs_query_guid r \<and> rs_exec_duration r' = rs_exec_duration r \<and> rs_col_max r \<le> rs_col_max r'"
proof -
  have r: "results_ok r" "int (length rows) \<le> rs_row_max r" using assms(1) by (auto simp: filled_def results_ok_def)
  have ne: "cells \<noteq> []" using assms(2,3) by auto
  have w: "length cells \<le> 14 \<or> int (length cells) \<le> rs_col_max r" using assms(2,4) by simp
  obtain r' where r': "put_row (int (length rows)) cells r = Inr r'" "results_ok r'"
      "rs_cell r' = (rs_cell r)(length rows := (\<lambda>j. if j < length cells then Some (cells ! j @ [0]) else rs_cell r (length rows) j))" "rs_name r' = rs_name r"
      "rs_row_count r' = max (rs_row_count r) (int (length rows) + 1)" "rs_col_count r' = max (rs_col_count r) (int (length cells))"
      "rs_query_sql r' = rs_query_sql r" "rs_query_guid r' = rs_query_guid r" "rs_exec_duration r' = rs_exec_duration r" "rs_col_max r \<le> rs_col_max r'"
    using put_cells_ok [OF r(1) w r(2)] ne by auto
  have "rs_row_count r' = int (length rows) + 1" using r'(5) assms(1) by (simp add: filled_def)
  then have "r'\<lparr>rs_row_count := int (length rows) + 1\<rparr> = r'" by simp
  then have "results_ok (r'\<lparr>rs_row_count := int (length rows) + 1\<rparr>)" using r'(2) by (rule ssubst)
  then show ?thesis
    using r' assms by (intro exI [of _ r']) (auto simp: filled_def nth_append less_Suc_eq)
qed

lemma put_row_holds:
  assumes "holds_rows r rows" and "length cells = 14"
  shows "\<exists>r'. put_row (int (length rows)) cells r = Inr r' \<and> holds_rows (r'\<lparr>rs_row_count := int (length rows) + 1\<rparr>) (rows @ [cells]) \<and>
    rs_name r' = rs_name r \<and> rs_query_sql r' = rs_query_sql r \<and> rs_query_guid r' = rs_query_guid r"
  using put_row_filled [of 14 r rows cells] assms by (fastforce simp: holds_rows_def)

definition snap_name :: "SOS_pub \<Rightarrow> SOS_val_snap \<Rightarrow> cstring" where
  "snap_name pub snap = cstr (dt_name (pb_data pub ! nat (sint (sn_elem snap))))"

definition snap_readable :: "SOS_pub \<Rightarrow> SOS_val_snap \<Rightarrow> bool" where
  "snap_readable pub snap \<longleftrightarrow>
     0 \<le> sint (sn_elem snap) \<and> sint (sn_elem snap) < int (length (pb_data pub)) \<and>
     0 \<in> set (dt_name (pb_data pub ! nat (sint (sn_elem snap)))) \<and> \<not> isl (snap_val_str snap)"

definition snap_row :: "SOS_pub \<Rightarrow> SOS_val_snap \<Rightarrow> cstring list" where
  "snap_row pub snap = projr (cache_row pub (snap_name pub snap) snap)"

definition frame_snaps :: "snap_chain \<Rightarrow> SOS_val_snap list" where
  "frame_snaps chain = (case chain of Chain snaps \<Rightarrow> snaps | Self_Loop snap \<Rightarrow> [snap])"

text \<open>The frames that are asked for, among the frames of a publication from the newest to the oldest.\<close>

definition wanted_frames :: "int \<Rightarrow> int \<Rightarrow> SOS_val_snap list list \<Rightarrow> SOS_val_snap list list" where
  "wanted_frames frame_head limit frames =
     (let old = (if frame_head = - 1 then takeWhile (\<lambda>l. l \<noteq> []) frames else filter (\<lambda>l. sint (sn_frame (hd l)) \<le> frame_head) frames)
      in if limit = - 1 then old else take (nat limit) old)"

definition pub_rows :: "cstring \<Rightarrow> int \<Rightarrow> int \<Rightarrow> SOS_pub \<Rightarrow> cstring list list" where
  "pub_rows val_filter frame_head limit pub =
     map (snap_row pub) (filter (\<lambda>s. strstr (snap_name pub s) val_filter) (concat (wanted_frames frame_head limit (map frame_snaps (cache_frames pub)))))"

definition grab_rows :: "cstring \<Rightarrow> cstring \<Rightarrow> int \<Rightarrow> int \<Rightarrow> SOS_pub list \<Rightarrow> cstring list list" where
  "grab_rows pub_filter val_filter frame_head limit pubs =
     concat (map (pub_rows val_filter frame_head limit) (filter (\<lambda>p. 0 < sint (pb_cache_depth p) \<and> strstr (cstr (pb_title p)) pub_filter) pubs))"

definition titled :: "SOS_pub \<Rightarrow> bool" where
  "titled pub \<longleftrightarrow> 0 \<in> set (pb_title pub) \<and> 0 \<in> set (pb_node_id pub) \<and> 0 \<in> set (pb_guid_str pub) \<and> 0 \<in> set (pb_prog_name pub)"

definition pub_readable :: "int \<Rightarrow> SOS_pub \<Rightarrow> bool" where
  "pub_readable frame_head pub \<longleftrightarrow>
     cache_ok pub \<and> titled pub \<and> (\<forall>c \<in> set (cache_frames pub). \<forall>s \<in> set (frame_snaps c). snap_readable pub s) \<and>
     (frame_head = - 1 \<or> Chain [] \<notin> set (cache_frames pub))"

definition same_label :: "SOSA_results \<Rightarrow> SOSA_results \<Rightarrow> bool" where
  "same_label r r' \<longleftrightarrow> rs_name r' = rs_name r \<and> rs_query_sql r' = rs_query_sql r \<and> rs_query_guid r' = rs_query_guid r"

lemma same_label_trans: "same_label r r' \<Longrightarrow> same_label r' r'' \<Longrightarrow> same_label r r''"
  and same_label_refl: "same_label r r"
  by (simp_all add: same_label_def)

lemma cache_row_ok:
  assumes "snap_readable pub snap" and "titled pub"
  shows "cache_row pub (snap_name pub snap) snap = Inr (snap_row pub snap)" and "length (snap_row pub snap) = 14"
proof -
  obtain v where v: "snap_val_str snap = Inr v" using assms(1) by (cases "snap_val_str snap") (auto simp: snap_readable_def)
  show c: "cache_row pub (snap_name pub snap) snap = Inr (snap_row pub snap)"
    using v assms(2) by (simp add: snap_row_def cache_row_def array_str_def titled_def)
  show "length (snap_row pub snap) = 14"
    using v assms(2) by (simp add: snap_row_def cache_row_def array_str_def titled_def)
qed

text \<open>A state of the loops: the number of the next row and the table with the rows so far.\<close>

definition grabbed_to :: "(int \<times> SOSA_results \<Rightarrow> (int \<times> SOSA_results) res) \<Rightarrow> cstring list list \<Rightarrow> bool" where
  "grabbed_to f new \<longleftrightarrow>
     (\<forall>r rows. holds_rows r rows \<longrightarrow>
        (\<exists>r'. f (int (length rows), r) = Inr (int (length (rows @ new)), r') \<and> holds_rows r' (rows @ new) \<and> same_label r r'))"

lemma grabbed_nothing: "grabbed_to Inr []"
  by (simp add: grabbed_to_def same_label_refl)

lemma grabbed_seq:
  assumes "grabbed_to f xs" and "grabbed_to g ys"
  shows "grabbed_to (\<lambda>s. bindR (f s) g) (xs @ ys)"
  unfolding grabbed_to_def
proof (intro allI impI)
  fix r rows
  assume "holds_rows r rows"
  then obtain r1 where 1: "f (int (length rows), r) = Inr (int (length (rows @ xs)), r1)" "holds_rows r1 (rows @ xs)" "same_label r r1"
    using assms(1) unfolding grabbed_to_def by blast
  moreover from 1(2) obtain r2 where "g (int (length (rows @ xs)), r1) = Inr (int (length ((rows @ xs) @ ys)), r2)" "holds_rows r2 ((rows @ xs) @ ys)"
      "same_label r1 r2"
    using assms(2) unfolding grabbed_to_def by blast
  ultimately show "\<exists>r'. bindR (f (int (length rows), r)) g = Inr (int (length (rows @ xs @ ys)), r') \<and> holds_rows r' (rows @ xs @ ys) \<and> same_label r r'"
    using same_label_trans by (intro exI [of _ r2]) auto
qed

lemma grabbed_foldR: "(\<And>x. x \<in> set xs \<Longrightarrow> grabbed_to (f x) (new x)) \<Longrightarrow> grabbed_to (foldR f xs) (concat (map new xs))"
proof (induction xs)
  case Nil
  have "foldR f [] = Inr" by (rule ext) simp
  then show ?case by (simp add: grabbed_nothing)
next
  case (Cons x xs)
  have "foldR f (x # xs) = (\<lambda>s. bindR (f x s) (foldR f xs))" by (rule ext) simp
  then show ?case using grabbed_seq [of "f x" "new x" "foldR f xs"] Cons by simp
qed

lemma snap_grabbed:
  assumes "snap_readable pub snap" and "titled pub"
  shows "grabbed_to (snap_to_results pub vf snap) (if strstr (snap_name pub snap) vf then [snap_row pub snap] else [])"
  unfolding grabbed_to_def
proof (intro allI impI)
  fix r rows
  assume r: "holds_rows r rows"
  have d: "pub_data_at pub (sint (sn_elem snap)) = Inr (pb_data pub ! nat (sint (sn_elem snap)))"
      "array_str (dt_name (pb_data pub ! nat (sint (sn_elem snap)))) = Inr (snap_name pub snap)"
    using assms(1) by (simp_all add: snap_readable_def pub_data_at_def array_str_def snap_name_def)
  note row = cache_row_ok [OF assms]
  obtain r' where "put_row (int (length rows)) (snap_row pub snap) r = Inr r'" "holds_rows (r'\<lparr>rs_row_count := int (length rows) + 1\<rparr>) (rows @ [snap_row pub snap])"
      "rs_name r' = rs_name r" "rs_query_sql r' = rs_query_sql r" "rs_query_guid r' = rs_query_guid r"
    using put_row_holds [OF r row(2)] by blast
  then show "\<exists>r'. snap_to_results pub vf snap (int (length rows), r) =
        Inr (int (length (rows @ (if strstr (snap_name pub snap) vf then [snap_row pub snap] else []))), r') \<and>
      holds_rows r' (rows @ (if strstr (snap_name pub snap) vf then [snap_row pub snap] else [])) \<and> same_label r r'"
    using d row(1) r by (auto simp: snap_to_results_def same_label_def add.commute)
qed

lemma frame_grabbed:
  assumes "\<forall>s \<in> set snaps. snap_readable pub s" and "titled pub"
  shows "grabbed_to (frame_to_results pub vf (Chain snaps)) (map (snap_row pub) (filter (\<lambda>s. strstr (snap_name pub s) vf) snaps))"
proof -
  have "grabbed_to (foldR (snap_to_results pub vf) snaps) (concat (map (\<lambda>s. if strstr (snap_name pub s) vf then [snap_row pub s] else []) snaps))"
    using assms by (intro grabbed_foldR snap_grabbed) auto
  moreover have "concat (map (\<lambda>s. if strstr (snap_name pub s) vf then [snap_row pub s] else []) snaps) =
      map (snap_row pub) (filter (\<lambda>s. strstr (snap_name pub s) vf) snaps)"
    by (induction snaps) simp_all
  moreover have "frame_to_results pub vf (Chain snaps) = foldR (snap_to_results pub vf) snaps"
    by (rule ext) (simp add: frame_to_results_def)
  ultimately show ?thesis by simp
qed

lemma wanted_frames_limit:
  "wanted_frames frame_head limit frames =
     (if limit = - 1 then wanted_frames frame_head (- 1) frames else take (nat limit) (wanted_frames frame_head (- 1) frames))"
  by (simp add: wanted_frames_def Let_def)

abbreviation still_wanted :: "int \<Rightarrow> int \<Rightarrow> int \<Rightarrow> SOS_val_snap list list \<Rightarrow> SOS_val_snap list list" where
  "still_wanted frame_head limit grabbed frames \<equiv> wanted_frames frame_head (if limit = - 1 then - 1 else max 0 (limit - grabbed)) frames"

lemma wanted_none [simp]: "wanted_frames frame_head limit [] = []" "wanted_frames frame_head 0 frames = []"
  by (simp_all add: wanted_frames_def Let_def)

lemma still_wanted_skip:
  "frame_head \<noteq> - 1 \<Longrightarrow> frame_head < sint (sn_frame (hd l)) \<Longrightarrow> still_wanted frame_head limit g (l # frames) = still_wanted frame_head limit g frames"
  by (simp add: wanted_frames_def Let_def)

lemma still_wanted_stop: "still_wanted (- 1) limit g ([] # frames) = []"
  by (simp add: wanted_frames_def Let_def)

lemma still_wanted_take:
  assumes "frame_head = - 1 \<or> sint (sn_frame (hd l)) \<le> frame_head" and "l \<noteq> []" and "g < limit \<or> limit = - 1"
  shows "still_wanted frame_head limit g (l # frames) = l # still_wanted frame_head limit (g + 1) frames"
proof (cases "limit = - 1")
  case False
  then have "nat (max 0 (limit - g)) = Suc (nat (max 0 (limit - (g + 1))))" using assms(3) by simp
  then show ?thesis using False assms by (auto simp: wanted_frames_def Let_def)
qed (use assms in \<open>auto simp: wanted_frames_def Let_def\<close>)

lemma ring_next:
  fixes h k n :: nat
  assumes "h < n"
  shows "(if int ((h + k) mod n) + 1 = int n then 0 else int ((h + k) mod n) + 1) = int ((h + Suc k) mod n)"
proof -
  have "(h + k) mod n < n" using assms by simp
  moreover have "(h + Suc k) mod n = (if Suc ((h + k) mod n) = n then 0 else Suc ((h + k) mod n))" by (simp add: mod_Suc)
  ultimately show ?thesis by auto
qed

lemma ring_back:
  fixes h k n :: nat
  assumes "(h + k) mod n = h" and "k \<le> n" and "h < n"
  shows "k = 0 \<or> k = n"
proof (rule ccontr)
  assume c: "\<not> (k = 0 \<or> k = n)"
  from c assms(2) have "0 < k" "k < n" by simp_all
  with assms show False by (cases "h + k < n") (auto simp: mod_if split: if_splits)
qed

text \<open>The rest of a scan, \<open>k\<close> frames behind the head.\<close>

lemma cache_scan_grabs:
  assumes "pub_readable frame_head pub" and "pb_cache pub = Some cache" and "k \<le> length cache" and "length cache < k + rounds"
    and "stop_pos = (if k = 0 then - 1 else pb_cache_head pub)" and "read_pos = int ((nat (pb_cache_head pub) + k) mod length cache)"
  shows "grabbed_to (cache_scan rounds pub cache vf frame_head limit read_pos stop_pos g)
    (map (snap_row pub) (filter (\<lambda>s. strstr (snap_name pub s) vf) (concat (still_wanted frame_head limit g (map frame_snaps (drop k (cache_frames pub)))))))"
  using assms(3-6)
proof (induction rounds arbitrary: k stop_pos read_pos g)
  case 0
  then show ?case by simp
next
  case (Suc rounds)
  let ?h = "nat (pb_cache_head pub)" and ?n = "length cache"
  have ok: "cache_ok pub" "titled pub" using assms(1) by (auto simp: pub_readable_def)
  have hn: "?h < ?n" "pb_cache_head pub = int ?h" "sint (pb_cache_depth pub) = int ?n" using ok(1) assms(2) by (auto simp: cache_ok_def)
  have frames: "cache_frames pub = rotate ?h cache" using assms(2) by (simp add: cache_frames_def)
  note step = cache_scan.simps(2) [of rounds pub cache vf frame_head limit read_pos stop_pos g]
  show ?case
  proof (cases "k = ?n \<or> \<not> (g < limit \<or> limit = - 1)")
    case True
    then have "still_wanted frame_head limit g (map frame_snaps (drop k (cache_frames pub))) = []"
    proof
      assume "k = ?n"
      then show ?thesis using frames by simp
    next
      assume l: "\<not> (g < limit \<or> limit = - 1)"
      then have "max 0 (limit - g) = 0" by simp
      then show ?thesis using l by simp
    qed
    moreover have "cache_scan (Suc rounds) pub cache vf frame_head limit read_pos stop_pos g = Inr"
    proof (rule ext)
      fix s
      have "read_pos = stop_pos" if "k = ?n" using that Suc.prems hn by (auto simp: mod_if)
      then show "cache_scan (Suc rounds) pub cache vf frame_head limit read_pos stop_pos g s = Inr s" using True by (auto simp: step)
    qed
    ultimately show ?thesis using grabbed_nothing by simp
  next
    case False
    then have k: "k < ?n" and more: "g < limit \<or> limit = - 1" using Suc.prems(1) by auto
    have p: "(?h + k) mod ?n < ?n" by (rule mod_less_divisor) (use hn(1) in linarith)
    moreover have "(?h + k) mod ?n \<noteq> ?h" if "k \<noteq> 0" using ring_back [of ?h k ?n] hn(1) k that by auto
    ultimately have pos: "read_pos \<noteq> stop_pos" "0 \<le> read_pos \<and> read_pos < int ?n"
      using Suc.prems(3,4) hn(2) by (auto simp del: nat_mod_distrib)
    have chain: "cache ! nat read_pos = cache_frames pub ! k"
      using k frames Suc.prems(4) by (simp add: nth_rotate)
    have "cache_frames pub ! k \<in> set cache" using k frames nth_mem [of k "rotate ?h cache"] by simp
    then obtain l where l: "cache_frames pub ! k = Chain l" using ok(1) assms(2) by (auto simp: cache_ok_def)
    have inframes: "Chain l \<in> set (cache_frames pub)" using l k frames nth_mem [of k "rotate ?h cache"] by simp
    have readable: "\<forall>s \<in> set l. snap_readable pub s" "frame_head \<noteq> - 1 \<Longrightarrow> l \<noteq> []"
      using inframes assms(1) by (fastforce simp: pub_readable_def frame_snaps_def)+
    have drop: "map frame_snaps (drop k (cache_frames pub)) = l # map frame_snaps (drop (Suc k) (cache_frames pub))"
      using k l frames by (simp add: frame_snaps_def flip: Cons_nth_drop_Suc)
    let ?next = "int ((?h + Suc k) mod ?n)"
    have next_pos: "(if read_pos + 1 = sint (pb_cache_depth pub) then 0 else read_pos + 1) = ?next"
      unfolding hn(3) Suc.prems(4) by (rule ring_next [OF hn(1)])
    have IH: "grabbed_to (cache_scan rounds pub cache vf frame_head limit ?next (pb_cache_head pub) g')
        (map (snap_row pub) (filter (\<lambda>s. strstr (snap_name pub s) vf)
          (concat (still_wanted frame_head limit g' (map frame_snaps (drop (Suc k) (cache_frames pub)))))))" for g'
      using k Suc.prems(2) by (intro Suc.IH) auto
    have run: "cache_scan (Suc rounds) pub cache vf frame_head limit read_pos stop_pos g s =
        bindR (if frame_head = - 1 then Inr False else bindR (chain_frame (Chain l)) (\<lambda>f. Inr (frame_head < sint f))) (\<lambda>too_new.
          if too_new then cache_scan rounds pub cache vf frame_head limit ?next (pb_cache_head pub) g s
          else if Chain l = Chain [] then Inr s
          else bindR (frame_to_results pub vf (Chain l) s) (cache_scan rounds pub cache vf frame_head limit ?next (pb_cache_head pub) (g + 1)))" for s
      using pos more next_pos chain l by (simp only: step Let_def) simp
    show ?thesis
    proof (cases "frame_head \<noteq> - 1 \<and> frame_head < sint (sn_frame (hd l))")
      case True
      then have "l \<noteq> []" using readable(2) by simp
      then have "cache_scan (Suc rounds) pub cache vf frame_head limit read_pos stop_pos g =
          cache_scan rounds pub cache vf frame_head limit ?next (pb_cache_head pub) g"
        using True by (intro ext) (cases l, simp_all add: run chain_frame_def)
      then show ?thesis using IH [of g] True unfolding drop by (simp add: still_wanted_skip)
    next
      case old: False
      then have age: "frame_head = - 1 \<or> sint (sn_frame (hd l)) \<le> frame_head" by auto
      show ?thesis
      proof (cases "l = []")
        case True
        then have "frame_head = - 1" using readable(2) by auto
        moreover from this have "cache_scan (Suc rounds) pub cache vf frame_head limit read_pos stop_pos g = Inr"
          using True by (intro ext) (subst run, simp)
        ultimately show ?thesis using True grabbed_nothing unfolding drop by (simp add: still_wanted_stop)
      next
        case False
        then have "cache_scan (Suc rounds) pub cache vf frame_head limit read_pos stop_pos g =
            (\<lambda>s. bindR (frame_to_results pub vf (Chain l) s) (cache_scan rounds pub cache vf frame_head limit ?next (pb_cache_head pub) (g + 1)))"
          using age by (intro ext) (cases l, auto simp: run chain_frame_def)
        then show ?thesis
          using grabbed_seq [OF frame_grabbed [OF readable(1) ok(2), of vf] IH [of "g + 1"]] still_wanted_take [OF age False more]
          unfolding drop by simp
      qed
    qed
  qed
qed

lemma pub_grabbed:
  assumes "0 < sint (pb_cache_depth pub) \<Longrightarrow> pub_readable frame_head pub"
  shows "grabbed_to (pub_to_results pf vf frame_head limit pub)
    (if 0 < sint (pb_cache_depth pub) \<and> strstr (cstr (pb_title pub)) pf then pub_rows vf frame_head limit pub else [])"
proof (cases "0 < sint (pb_cache_depth pub)")
  case False
  then have "pub_to_results pf vf frame_head limit pub = Inr" by (intro ext) (simp add: pub_to_results_def)
  then show ?thesis using False grabbed_nothing by simp
next
  case deep: True
  note ok = assms [OF deep]
  then have t: "array_str (pb_title pub) = Inr (cstr (pb_title pub))" by (simp add: pub_readable_def titled_def array_str_def)
  show ?thesis
  proof (cases "strstr (cstr (pb_title pub)) pf")
    case False
    then have "pub_to_results pf vf frame_head limit pub = Inr" using t by (intro ext) (simp add: pub_to_results_def)
    then show ?thesis using False grabbed_nothing by simp
  next
    case True
    obtain cache where c: "pb_cache pub = Some cache" "pb_cache_head pub = int (nat (pb_cache_head pub))" "nat (pb_cache_head pub) < length cache"
      using ok by (auto simp: pub_readable_def cache_ok_def)
    have h: "pb_cache_head pub = int ((nat (pb_cache_head pub) + 0) mod length cache)" using c(2,3) by (simp del: nat_mod_distrib)
    have "still_wanted frame_head limit 0 = wanted_frames frame_head limit"
      by (rule ext) (simp add: wanted_frames_def Let_def max_def)
    then have rows: "map (snap_row pub) (filter (\<lambda>s. strstr (snap_name pub s) vf)
        (concat (still_wanted frame_head limit 0 (map frame_snaps (drop 0 (cache_frames pub)))))) = pub_rows vf frame_head limit pub"
      by (simp add: pub_rows_def)
    have "grabbed_to (cache_scan (length cache + 2) pub cache vf frame_head limit (pb_cache_head pub) (- 1) 0) (pub_rows vf frame_head limit pub)"
      using cache_scan_grabs [OF ok c(1), of 0 "length cache + 2" "- 1" "pb_cache_head pub" vf limit 0] h unfolding rows by simp
    moreover have "pub_to_results pf vf frame_head limit pub =
        cache_scan (length cache + 2) pub cache vf frame_head limit (pb_cache_head pub) (- 1) 0"
      using True t deep c(1) by (intro ext) (simp add: pub_to_results_def)
    ultimately show ?thesis using True deep by simp
  qed
qed

lemma pubs_grabbed:
  assumes "\<forall>pub \<in> set pubs. 0 < sint (pb_cache_depth pub) \<longrightarrow> pub_readable frame_head pub"
  shows "grabbed_to (foldR (pub_to_results pf vf frame_head limit) pubs) (grab_rows pf vf frame_head limit pubs)"
proof -
  have "grab_rows pf vf frame_head limit pubs =
      concat (map (\<lambda>p. if 0 < sint (pb_cache_depth p) \<and> strstr (cstr (pb_title p)) pf then pub_rows vf frame_head limit p else []) pubs)"
    by (induction pubs) (simp_all add: grab_rows_def)
  then show ?thesis using assms by (simp only:) (intro grabbed_foldR pub_grabbed, blast)
qed

lemma cache_to_results_ok:
  assumes "results_ok r" and "rs_row_count r = 0" and "rs_col_count r = 0"
    and "\<forall>pub \<in> set pubs. 0 < sint (pb_cache_depth pub) \<longrightarrow> pub_readable frame_head pub"
  shows "\<exists>r'. SOSA_cache_to_results duration r pf vf frame_head limit pubs = Inr r' \<and> holds_rows r' (grab_rows pf vf frame_head limit pubs) \<and>
    (\<forall>j < 14. rs_name r' j = Some (str (cache_columns ! j) @ [0])) \<and> rs_query_sql r' = rs_query_sql r \<and> rs_query_guid r' = rs_query_guid r \<and>
    rs_exec_duration r' = duration"
proof -
  have n: "length cache_columns = 14" by (simp add: cache_columns_def)
  obtain r1 where r1: "put_names (map str cache_columns) r = Inr r1"
      "results_ok r1" "rs_name r1 = (\<lambda>j. if j < length (map str cache_columns) then Some (map str cache_columns ! j @ [0]) else rs_name r j)"
      "rs_row_count r1 = rs_row_count r" "rs_col_count r1 = rs_col_count r" "rs_query_sql r1 = rs_query_sql r" "rs_query_guid r1 = rs_query_guid r"
    using put_names_ok [OF assms(1), of "map str cache_columns"] n by auto
  have "holds_rows r1 []" using r1 assms(2,3) by (simp add: holds_rows_def filled_def)
  from pubs_grabbed [OF assms(4), of pf vf limit, unfolded grabbed_to_def, THEN spec, THEN spec, THEN mp, OF this]
  obtain r2 where r2: "foldR (pub_to_results pf vf frame_head limit) pubs (0, r1) = Inr (int (length (grab_rows pf vf frame_head limit pubs)), r2)"
      "holds_rows r2 (grab_rows pf vf frame_head limit pubs)" "same_label r1 r2"
    by auto
  have "holds_rows (r2\<lparr>rs_exec_duration := duration\<rparr>) (grab_rows pf vf frame_head limit pubs)"
    using r2(2) by (simp add: holds_rows_def filled_def results_ok_def)
  then show ?thesis
    using r1 r2(1,3) n by (intro exI [of _ "r2\<lparr>rs_exec_duration := duration\<rparr>"]) (simp add: SOSA_cache_to_results_def same_label_def)
qed

text \<open>
  C23: a look into the caches returns what it is to return: for every publication of the list whose title contains the
  one filter, for the frames of its cache from the newest to the oldest that are not newer than asked and no more than
  asked, for every snapshot in it whose name contains the other filter, one row of fourteen columns, in this order, and
  nothing else. The ring is read once around, wherever its head is.
\<close>

theorem cache_to_results_spec:
  assumes "results_ok r" and "rs_row_count r = 0" and "rs_col_count r = 0"
    and "\<forall>pub \<in> set pubs. 0 < sint (pb_cache_depth pub) \<longrightarrow> pub_readable frame_head pub"
  shows "\<exists>r'. SOSA_cache_to_results duration r pf vf frame_head limit pubs = Inr r' \<and> results_ok r' \<and>
    rs_row_count r' = int (length (grab_rows pf vf frame_head limit pubs)) \<and>
    (\<forall>j < 14. rs_name r' j = Some (str (cache_columns ! j) @ [0])) \<and>
    (\<forall>i < length (grab_rows pf vf frame_head limit pubs). \<forall>j < 14.
       rs_cell r' i j = Some (grab_rows pf vf frame_head limit pubs ! i ! j @ [0]))"
  using cache_to_results_ok [OF assms, of duration pf vf limit] by (auto simp: holds_rows_def filled_def)

definition example_cached :: SOS_pub where
  "example_cached = example_source\<lparr>pb_cache := Some [Chain [example_snap], Chain []], pb_cache_depth := 2, pb_cache_head := 0,
     pb_title := [104, 111, 116, 0], pb_node_id := [110, 0], pb_prog_name := [112, 0], pb_guid_str := [51, 0]\<rparr>"

lemma example_cached_rows:
  shows "pub_readable (- 1) example_cached" and "0 < sint (pb_cache_depth example_cached)"
    and "grab_rows [104] [] (- 1) (- 1) [example_cached] = [snap_row example_cached example_snap]"
    and "snap_row example_cached example_snap ! 2 = [104, 111, 116]" and "length (snap_row example_cached example_snap) = 14"
    and "\<forall>c \<in> set (snap_row example_cached example_snap). length c \<le> 256"
proof -
  have e: "sint (sn_elem example_snap) = 0" "sn_type example_snap = val_type_code SOS_VAL_TYPE_INT" "sn_val example_snap = Val_i 21"
    by (simp_all add: example_snap_def zero_snap_def)
  have d: "pb_data example_cached = [example_elem]" by (simp add: example_cached_def example_source_def)
  have v: "snap_val_str example_snap = Inr (in_128 (int_str 21))" by (simp add: snap_val_str_def e SOS_val_type_enum.decode_code)
  have t: "titled example_cached" by (simp add: titled_def example_cached_def)
  have s: "snap_readable example_cached example_snap"
    using example_name(1) by (simp add: snap_readable_def e d v name_fits_def)
  have c: "cache_frames example_cached = [Chain [example_snap], Chain []]" by (simp add: cache_frames_def example_cached_def)
  have ok: "cache_ok example_cached"
    by (simp add: cache_ok_def example_cached_def example_source_def example_pub_def SOS_nature_enum.code_inject)
  then show depth: "0 < sint (pb_cache_depth example_cached)" by (simp add: cache_ok_def)
  have title: "cstr (pb_title example_cached) = [104, 111, 116]" by (simp add: example_cached_def cstr_def)
  have "wanted_frames (- 1) (- 1) (map frame_snaps (cache_frames example_cached)) = [[example_snap]]"
    by (simp add: c frame_snaps_def wanted_frames_def)
  moreover have "strstr (snap_name example_cached example_snap) []" by (cases "snap_name example_cached example_snap") simp_all
  ultimately show "grab_rows [104] [] (- 1) (- 1) [example_cached] = [snap_row example_cached example_snap]"
    using depth by (simp add: grab_rows_def pub_rows_def title)
  show "snap_row example_cached example_snap ! 2 = [104, 111, 116]"
    using t title by (simp add: snap_row_def cache_row_def v array_str_def titled_def)
  show "length (snap_row example_cached example_snap) = 14" by (rule cache_row_ok(2) [OF s t])
  show "pub_readable (- 1) example_cached"
    using ok t s by (simp add: pub_readable_def c frame_snaps_def)
  have "length (cstr (dt_name example_elem)) \<le> 256"
    using length_takeWhile_le [of _ "dt_name example_elem"] by (simp add: cstr_def example_elem_def SOS_DEFAULT_STRING_LEN_def)
  then show "\<forall>c \<in> set (snap_row example_cached example_snap). length c \<le> 256"
    using t by (simp add: snap_row_def cache_row_def v array_str_def titled_def snap_name_def e d in_128_def) (simp add: example_cached_def cstr_def min.coboundedI2)
qed

lemma results_init_empty: "results_ok SOSA_results_init" "rs_row_count SOSA_results_init = 0" "rs_col_count SOSA_results_init = 0"
  using results_init_ok [of SOSA_DEFAULT_RESULT_ROW_MAX SOSA_DEFAULT_RESULT_COL_MAX]
  by (simp_all add: SOSA_results_init_def SOSA_DEFAULT_RESULT_ROW_MAX_def SOSA_DEFAULT_RESULT_COL_MAX_def) (simp_all add: SOSA_results_init_sized_def)

theorem cache_to_results_spec_witness:
  "\<exists>r'. SOSA_cache_to_results (Fin 0) SOSA_results_init [104] [] (- 1) (- 1) [example_cached] = Inr r' \<and> rs_row_count r' = 1 \<and>
    rs_cell r' 0 2 = Some [104, 111, 116, 0]"
proof -
  note e = example_cached_rows
  have "\<forall>pub \<in> set [example_cached]. 0 < sint (pb_cache_depth pub) \<longrightarrow> pub_readable (- 1) pub" using e(1) by simp
  then obtain r' where "SOSA_cache_to_results (Fin 0) SOSA_results_init [104] [] (- 1) (- 1) [example_cached] = Inr r'" "rs_row_count r' = 1"
      "rs_cell r' 0 2 = Some ([104, 111, 116] @ [0])"
    using cache_to_results_spec [OF results_init_empty, of "[example_cached]" "- 1" "Fin 0" "[104]" "[]" "- 1"] unfolding e(3) by (auto simp: e(4))
  then show ?thesis by simp
qed

text \<open>The header says that a limit of 0 is none; it is one.\<close>

lemma zero_limit_grabs_nothing: "grab_rows pf vf frame_head 0 pubs = []"
proof -
  have "pub_rows vf frame_head 0 pub = []" for pub by (simp add: pub_rows_def)
  then show ?thesis by (simp add: grab_rows_def)
qed

text \<open>
  Asking for a certain frame stops the daemon when a matching publication has a cache that nothing was put into
  yet: the frame number of the empty slot is read before the slot is tested.
\<close>

theorem empty_slot_faults:
  assumes "pb_cache pub = Some cache" and "0 < sint (pb_cache_depth pub)" and "0 \<le> pb_cache_head pub" and "pb_cache_head pub < int (length cache)"
    and "cache ! nat (pb_cache_head pub) = Chain []" and "0 \<in> set (pb_title pub)" and "strstr (cstr (pb_title pub)) pf"
    and "frame_head \<noteq> - 1" and "0 < limit \<or> limit = - 1" and "results_ok r"
  shows "SOSA_cache_to_results duration r pf vf frame_head limit (pub # pubs) = Inl Null_Deref"
proof -
  have "cache_scan (length cache + 2) pub cache vf frame_head limit (pb_cache_head pub) (- 1) 0 s = Inl Null_Deref" for s
    using assms(3-5,8,9) by (simp add: cache_scan.simps(2) [of "Suc (length cache)"] chain_frame_def Let_def)
  then have "pub_to_results pf vf frame_head limit pub s = Inl Null_Deref" for s
    using assms(1,2,6,7) by (simp add: pub_to_results_def array_str_def)
  moreover have "length (map str cache_columns) \<le> 14 \<or> int (length (map str cache_columns)) \<le> rs_col_max r" by (simp add: cache_columns_def)
  from put_names_ok [OF assms(10) this] obtain r1 where
    "put_names (map str cache_columns) r = Inr r1" by blast
  ultimately show ?thesis by (simp add: SOSA_cache_to_results_def)
qed

theorem empty_slot_faults_witness:
  "SOSA_cache_to_results (Fin 0) (SOSA_results_init_sized 1 1) [104] [] 5 (- 1) [example_cached\<lparr>pb_cache := Some [Chain [], Chain []]\<rparr>] = Inl Null_Deref"
proof -
  let ?pub = "example_cached\<lparr>pb_cache := Some [Chain [], Chain []]\<rparr>"
  have "results_ok (SOSA_results_init_sized 1 1)" by (rule results_init_ok) simp_all
  moreover have "strstr (cstr (pb_title ?pub)) [104]" by (simp add: example_cached_def cstr_def)
  ultimately show ?thesis
    using empty_slot_faults [of ?pub "[Chain [], Chain []]" "[104]" 5 "- 1" "SOSA_results_init_sized 1 1" "Fin 0" "[]" "[]"]
    by (simp add: example_cached_def)
qed

end
