(* ===== verification/SOS_Daemon.thy ===== *)
theory SOS_Daemon
  imports SOS_Target SOS_Grab
begin

text \<open>
  The daemon (\<open>sosd.c\<close>): the table of the publications it knows, the queues between its threads,
  the handlers that apply announcements, publications and snapshots, the listening loop that
  sorts incoming messages and the thread that works off the local queue.

  The handles live at addresses, the positions of \<open>sd_pubs\<close>: the table, the list and the tasks
  of the database refer to them; query handles live in \<open>sd_queries\<close> in the same way. A queue (\<open>SOS_pipe\<close>) is its ring, its counter and its mutex.
  A handler returns the message it answers with, if any; the result of sending it is only logged.
  The threads run in steps, one message at a time. Not modelled are the system monitor and
  the counters. The database behind its queues is in \<open>SOS_Database\<close>, the threads between daemons are in \<open>SOS_Cloud\<close>. The handlers for
  manifests, queries, cache grabs (\<open>SOS_Analysis\<close>) and probes are the parameter \<open>other\<close>.
\<close>

section \<open>State\<close>

record 'a SOS_queue =
  qu_pipe :: "'a pipe_t"
  qu_elem_count :: int
  qu_sync_lock :: bool

record SOSD_db_task =
  tk_type :: i32
  tk_ref :: nat

record SOSD_sensitivity_entry =
  se_guid :: u64
  se_client_guid :: u64
  se_sense_handle :: "byte list option"
  se_remote_host :: "byte list option"
  se_remote_port :: i32

record SOSD_feedback_payload =
  pl_handle :: "byte list option"
  pl_size :: i32
  pl_data :: "byte list option"

record SOSD_cache_grab_handle =
  cg_pub_filter_regex :: "byte list option"
  cg_val_filter_regex :: "byte list option"
  cg_frame_head :: i32
  cg_frame_depth_limit :: i32
  cg_req_guid :: u64
  cg_reply_host :: "byte list option"
  cg_reply_port :: i32
  cg_results :: SOSA_results

record SOSD_query_handle =
  qh_state :: i32
  qh_reply_to_guid :: u64
  qh_query_sql :: "byte list option"
  qh_query_guid :: u64
  qh_reply_host :: "byte list option"
  qh_reply_port :: i32
  qh_results :: "SOSA_results option"

datatype SOSD_feedback_task =
    Feedback_Payload SOSD_feedback_payload
  | Feedback_Cache SOSD_cache_grab_handle
  | Feedback_Query SOSD_query_handle

record SOSD =
  sd_pubs :: "SOS_pub list"
  sd_pub_table :: "nat qhashtbl"
  sd_pub_list :: "nat list"
  sd_guid :: SOS_uid
  sd_local :: "SOS_buffer SOS_queue"
  sd_cloud_send :: "SOS_buffer SOS_queue"
  sd_db :: "SOSD_db_task SOS_queue"
  sd_snap_queue :: snap_pipe
  sd_sense_list :: "SOSD_sensitivity_entry list"
  sd_feedback :: "SOSD_feedback_task SOS_queue"
  sd_cloud_targets :: "bool list"
  sd_running :: bool
  sd_shutdown :: bool
  sd_queries :: "SOSD_query_handle list"

definition SOSD_PUB_ANN_DIRTY :: i32 where
  "SOSD_PUB_ANN_DIRTY = 66"

definition queue_put :: "nat \<Rightarrow> 'a \<Rightarrow> 'a SOS_queue \<Rightarrow> 'a SOS_queue res" where
  "queue_put mincap x q =
     checkR (\<not> qu_sync_lock q) Deadlock
       (bindR (pipe_push mincap x (qu_pipe q) [x] 1) (\<lambda>p. Inr (q\<lparr>qu_pipe := p, qu_elem_count := qu_elem_count q + 1\<rparr>)))"

definition pub_ref :: "SOSD \<Rightarrow> nat \<Rightarrow> SOS_pub res" where
  "pub_ref sd a = checkR (a < length (sd_pubs sd)) Use_After_Free (Inr (sd_pubs sd ! a))"

definition pub_store :: "nat \<Rightarrow> SOS_pub \<Rightarrow> SOSD \<Rightarrow> SOSD" where
  "pub_store a pub sd = sd\<lparr>sd_pubs := (sd_pubs sd)[a := pub]\<rparr>"

text \<open>The table is keyed by the decimal GUID.\<close>

definition pub_find :: "SOSD \<Rightarrow> u64 \<Rightarrow> nat option" where
  "pub_find sd guid = qh_get (sd_pub_table sd) (Some (guid_str guid))"

section \<open>Announcements, publications and snapshots\<close>

definition SOSD_new_pub :: "SOS_ctx \<Rightarrow> SOSD \<Rightarrow> u64 \<Rightarrow> (SOSD \<times> nat) res" where
  "SOSD_new_pub cx sd guid =
     bindR (SOS_pub_init cx (sd_guid sd) (guid_str guid) SOS_NATURE_DEFAULT) (\<lambda>(pool, pub).
     let a = length (sd_pubs sd)
     in Inr (sd\<lparr>sd_guid := pool,
                sd_pubs := sd_pubs sd @ [pub\<lparr>pb_guid_str := strncpy_array SOS_DEFAULT_STRING_LEN (guid_str guid), pb_guid := guid\<rparr>],
                sd_pub_table := fst (qh_put (sd_pub_table sd) (Some (guid_str guid)) (Some a))\<rparr>, a))"

definition SOSD_apply_announce :: "SOSD \<Rightarrow> nat \<Rightarrow> SOS_buffer \<Rightarrow> (SOSD \<times> SOS_buffer) res" where
  "SOSD_apply_announce sd a buffer =
     bindR (pub_ref sd a) (\<lambda>pub.
     bindR (SOS_announce_from_buffer buffer pub) (\<lambda>(buffer, pub). Inr (pub_store a pub sd, buffer)))"

definition SOSD_apply_publish :: "SOSD \<Rightarrow> nat \<Rightarrow> SOS_buffer \<Rightarrow> (SOSD \<times> SOS_buffer) res" where
  "SOSD_apply_publish sd a buffer =
     bindR (pub_ref sd a) (\<lambda>pub.
     bindR (SOS_publish_from_buffer buffer pub) (\<lambda>(buffer, pub). Inr (pub_store a pub sd, buffer)))"

definition db_put :: "nat \<Rightarrow> SOS_msg_type \<Rightarrow> nat \<Rightarrow> SOSD \<Rightarrow> SOSD res" where
  "db_put mincap type a sd =
     bindR (queue_put mincap \<lparr>tk_type = enum_code SOS_msg_type_vals type, tk_ref = a\<rparr> (sd_db sd)) (\<lambda>q. Inr (sd\<lparr>sd_db := q\<rparr>))"

definition SOSD_handle_announce :: "SOS_ctx \<Rightarrow> bool \<Rightarrow> SOSD \<Rightarrow> SOS_buffer \<Rightarrow> (SOSD \<times> SOS_buffer) res" where
  "SOSD_handle_announce cx db_disabled sd buffer =
     bindR (SOS_msg_unzip buffer 0) (\<lambda>(buffer, header, _).
     let found = pub_find sd (hd_ref_guid header); first = (found = None)
     in bindR (case found of
                 None \<Rightarrow> bindR (SOSD_new_pub cx sd (hd_ref_guid header)) (\<lambda>(sd, a). Inr (sd\<lparr>sd_pub_list := a # sd_pub_list sd\<rparr>, a))
               | Some a \<Rightarrow> Inr (sd, a)) (\<lambda>(sd, a).
        bindR (SOSD_apply_announce sd a buffer) (\<lambda>(sd, buffer).
        bindR (pub_ref sd a) (\<lambda>pub.
        let sd = pub_store a (pub\<lparr>pb_announced := SOSD_PUB_ANN_DIRTY\<rparr>) sd
        in bindR (if first \<and> \<not> db_disabled then db_put (cx_mincap cx) SOS_MSG_TYPE_ANNOUNCE a sd else Inr sd) (\<lambda>sd.
           Inr (sd, buffer))))))"

definition SOSD_handle_publish :: "SOS_ctx \<Rightarrow> bool \<Rightarrow> SOSD \<Rightarrow> SOS_buffer \<Rightarrow> (SOSD \<times> SOS_buffer) res" where
  "SOSD_handle_publish cx db_disabled sd buffer =
     bindR (SOS_msg_unzip buffer 0) (\<lambda>(buffer, header, _).
     bindR (case pub_find sd (hd_ref_guid header) of
              None \<Rightarrow> SOSD_new_pub cx sd (hd_ref_guid header)
            | Some a \<Rightarrow> Inr (sd, a)) (\<lambda>(sd, a).
     bindR (SOSD_apply_publish sd a buffer) (\<lambda>(sd, buffer).
     bindR (if db_disabled then Inr sd
            else bindR (pub_ref sd a) (\<lambda>pub.
                 checkR (\<not> pb_lock pub) Deadlock
                   (if pb_sync_pending pub = 0
                    then db_put (cx_mincap cx) SOS_MSG_TYPE_PUBLISH a (pub_store a (pub\<lparr>pb_sync_pending := 1\<rparr>) sd)
                    else Inr sd))) (\<lambda>sd.
     Inr (sd, buffer)))))"

text \<open>For an unknown publication the message is destroyed: \<open>None\<close>.\<close>

definition SOSD_handle_val_snaps ::
    "SOS_ctx \<Rightarrow> bool \<Rightarrow> (nat \<Rightarrow> c_double) \<Rightarrow> SOSD \<Rightarrow> SOS_buffer \<Rightarrow> (SOSD \<times> SOS_buffer option) res" where
  "SOSD_handle_val_snaps cx db_disabled clock sd buffer =
     bindR (SOS_msg_unzip buffer 0) (\<lambda>(buffer, header, _).
     case pub_find sd (hd_ref_guid header) of
       None \<Rightarrow> bindR (SOS_buffer_destroy (Some buffer)) (\<lambda>_. Inr (sd, None))
     | Some a \<Rightarrow>
         bindR (pub_ref sd a) (\<lambda>pub.
         bindR (SOS_val_snap_queue_from_buffer (cx_mincap cx) clock buffer (if db_disabled then None else Some (sd_snap_queue sd)) (Some pub))
           (\<lambda>(buffer, queue, pub).
         let sd = (case queue of None \<Rightarrow> sd | Some q \<Rightarrow> sd\<lparr>sd_snap_queue := q\<rparr>);
             sd = (case pub of None \<Rightarrow> sd | Some p \<Rightarrow> pub_store a p sd)
         in bindR (if db_disabled then Inr sd else db_put (cx_mincap cx) SOS_MSG_TYPE_VAL_SNAPS a sd) (\<lambda>sd.
            Inr (sd, Some buffer)))))"

section \<open>The thread of the local queue\<close>

text \<open>What becomes of a message that has been handled; a destroyed one is used again.\<close>

definition SOSD_forward :: "SOS_ctx \<Rightarrow> SOSD \<Rightarrow> SOS_buffer option \<Rightarrow> SOSD res" where
  "SOSD_forward cx sd buffer =
     (if cx_role cx = SOS_ROLE_LISTENER
      then (case buffer of
              None \<Rightarrow> Inl Use_After_Free
            | Some b \<Rightarrow> bindR (queue_put (cx_mincap cx) b (sd_cloud_send sd)) (\<lambda>q. Inr (sd\<lparr>sd_cloud_send := q\<rparr>)))
      else if cx_role cx = SOS_ROLE_AGGREGATOR
      then (case buffer of
              None \<Rightarrow> Inl Use_After_Free
            | Some b \<Rightarrow> bindR (SOS_buffer_destroy (Some b)) (\<lambda>_. Inr sd))
      else Inr sd)"

definition SOSD_dispatch_local :: "SOS_ctx \<Rightarrow> bool \<Rightarrow> (nat \<Rightarrow> c_double) \<Rightarrow> SOSD \<Rightarrow> SOS_buffer \<Rightarrow> SOSD res" where
  "SOSD_dispatch_local cx db_disabled clock sd buffer =
     bindR (SOS_msg_unzip buffer 0) (\<lambda>(buffer, header, _).
     case enum_decode SOS_msg_type_vals (hd_msg_type header) of
       Some SOS_MSG_TYPE_ANNOUNCE \<Rightarrow> bindR (SOSD_handle_announce cx db_disabled sd buffer) (\<lambda>(sd, b). SOSD_forward cx sd (Some b))
     | Some SOS_MSG_TYPE_PUBLISH \<Rightarrow> bindR (SOSD_handle_publish cx db_disabled sd buffer) (\<lambda>(sd, b). SOSD_forward cx sd (Some b))
     | Some SOS_MSG_TYPE_VAL_SNAPS \<Rightarrow> bindR (SOSD_handle_val_snaps cx db_disabled clock sd buffer) (\<lambda>(sd, b). SOSD_forward cx sd b)
     | _ \<Rightarrow> bindR (SOS_buffer_destroy (Some buffer)) (\<lambda>_. Inr sd))"

text \<open>One round of the thread; on an empty open queue it \<open>Blocks\<close>.\<close>

definition SOSD_local_sync_step :: "SOS_ctx \<Rightarrow> bool \<Rightarrow> (nat \<Rightarrow> c_double) \<Rightarrow> SOSD \<Rightarrow> SOSD res" where
  "SOSD_local_sync_step cx db_disabled clock sd =
     (let q = sd_local sd
      in bindR (pipe_pop_eager (cx_mincap cx) SOS_buffer_init (qu_pipe q) 1) (\<lambda>(p, buffers).
         case buffers of
           [] \<Rightarrow> Inr sd
         | buffer # _ \<Rightarrow>
             checkR (\<not> qu_sync_lock q) Deadlock
               (SOSD_dispatch_local cx db_disabled clock
                  (sd\<lparr>sd_local := q\<lparr>qu_pipe := p, qu_elem_count := qu_elem_count q - 1\<rparr>\<rparr>) buffer)))"

section \<open>Other handlers\<close>

definition ack_reply :: "nat \<Rightarrow> bool \<Rightarrow> SOS_buffer res" where
  "ack_reply max_size locking =
     bindR (SOSD_PACK_ACK (SOS_buffer_init_sized_locking max_size locking)) (\<lambda>reply.
     bindR (SOS_buffer_destroy (Some reply)) (\<lambda>_. Inr reply))"

definition SOSD_handle_desensitize :: "SOS_buffer res" where
  "SOSD_handle_desensitize = ack_reply 64 False"

definition SOSD_handle_unregister :: "SOS_buffer res" where
  "SOSD_handle_unregister = ack_reply 64 False"

definition SOSD_handle_echo :: "SOS_buffer \<Rightarrow> SOS_buffer res" where
  "SOSD_handle_echo buffer = bindR (SOS_msg_unzip buffer 0) (\<lambda>(buffer, _, _). Inr buffer)"

text \<open>The forwarding settings in the message are read and not used.\<close>

definition SOSD_handle_shutdown :: "SOSD \<Rightarrow> SOS_buffer \<Rightarrow> (SOSD \<times> SOS_buffer \<times> SOS_buffer) res" where
  "SOSD_handle_shutdown sd buffer =
     bindR (SOS_msg_unzip buffer 0) (\<lambda>(buffer, _, offset).
     bindR (SOSD_PACK_ACK (SOS_buffer_init_sized SOS_DEFAULT_REPLY_LEN)) (\<lambda>reply.
     bindR (SOS_buffer_unpack buffer offset ''ii'' [DestI, DestI]) (\<lambda>(buffer, _, _, _).
     bindR (SOS_buffer_destroy (Some reply)) (\<lambda>_.
     Inr (sd\<lparr>sd_running := False, sd_shutdown := True\<rparr>, buffer, reply)))))"

definition SOSD_handle_check_in :: "SOS_role \<Rightarrow> SOS_buffer \<Rightarrow> (SOS_buffer \<times> SOS_buffer option) res" where
  "SOSD_handle_check_in role buffer =
     bindR (SOS_msg_unzip buffer 0) (\<lambda>(buffer, _, _).
     if role = SOS_ROLE_LISTENER
     then bindR (write_msg (msg_header_of SOS_MSG_TYPE_FEEDBACK 0 0)
            (pack_fields ''is'' [ArgI (enum_code SOS_feedback_type_vals SOS_FEEDBACK_TYPE_PAYLOAD), ArgS (str ''demo_function'')]) SOS_buffer_init)
            (\<lambda>reply. bindR (SOS_buffer_destroy (Some reply)) (\<lambda>_. Inr (buffer, Some reply)))
     else Inr (buffer, None))"

definition SOSD_handle_unknown :: "SOS_role \<Rightarrow> SOS_buffer \<Rightarrow> (SOS_buffer \<times> SOS_buffer option) res" where
  "SOSD_handle_unknown role buffer =
     bindR (SOS_msg_unzip buffer 0) (\<lambda>(buffer, _, _).
     if role = SOS_ROLE_AGGREGATOR then Inr (buffer, None)
     else bindR (SOSD_PACK_ACK SOS_buffer_init) (\<lambda>reply.
          bindR (SOS_buffer_destroy (Some reply)) (\<lambda>_. Inr (buffer, Some reply))))"

text \<open>A client is entered once per handle name.\<close>

fun sense_known :: "u64 \<Rightarrow> byte list option \<Rightarrow> SOSD_sensitivity_entry list \<Rightarrow> bool res" where
  "sense_known client handle [] = Inr False"
| "sense_known client handle (e # es) =
     (if se_client_guid e = client
      then (case (handle, se_sense_handle e) of
              (Some h, Some g) \<Rightarrow> if cstr h = cstr g then Inr True else sense_known client handle es
            | _ \<Rightarrow> Inl Null_Deref)
      else sense_known client handle es)"

definition SOSD_handle_sensitivity :: "SOS_ctx \<Rightarrow> SOSD \<Rightarrow> SOS_buffer \<Rightarrow> (SOSD \<times> SOS_buffer \<times> SOS_buffer) res" where
  "SOSD_handle_sensitivity cx sd msg =
     bindR (SOS_msg_unzip msg 0) (\<lambda>(msg, header, offset).
     bindR (SOS_buffer_unpack_safestr msg offset) (\<lambda>(msg, offset, handle).
     bindR (SOS_buffer_unpack_safestr msg offset) (\<lambda>(msg, offset, host).
     bindR (SOS_buffer_unpack msg offset ''i'' [DestI]) (\<lambda>(msg, _, _, outs).
     bindR (out_i outs) (\<lambda>port.
     bindR (sense_known (hd_msg_from header) handle (sd_sense_list sd)) (\<lambda>known.
     bindR (if known then Inr sd
            else bindR (SOS_uid_next (cx_send cx) (cx_role cx) (cx_my_guid cx) (cx_offline_test_mode cx) (sd_guid sd)) (\<lambda>(pool, guid).
                 Inr (sd\<lparr>sd_guid := pool,
                         sd_sense_list := \<lparr>se_guid = guid, se_client_guid = hd_msg_from header, se_sense_handle = handle,
                                           se_remote_host = host, se_remote_port = port\<rparr> # sd_sense_list sd\<rparr>))) (\<lambda>sd.
     bindR (ack_reply 256 False) (\<lambda>reply. Inr (sd, msg, reply)))))))))"


text \<open>
  A trigger: an aggregator passes the message on to the daemons registered with it, wrapped in a
  block of its own (\<open>sosd_cloud_socket.c\<close>), and every daemon queues the payload for its feedback
  thread. The second result of \<open>SOSD_cloud_handle_triggerpull\<close> are the messages for the other daemons.
\<close>

definition wrap_trigger :: "SOS_buffer \<Rightarrow> SOS_buffer res" where
  "wrap_trigger msg =
     bindR (SOS_buffer_grow (SOS_buffer_init_sized_locking (buf_len msg + 4 + 1) False) (buf_len msg + 1)) (\<lambda>w.
     bindR (mem_read 0 (buf_len msg) (buf_data msg)) (\<lambda>bs.
     bindR (mem_write 0 bs (buf_data w)) (\<lambda>d.
     bindR (SOS_buffer_pack (w\<lparr>buf_data := d, buf_len := buf_len msg\<rparr>) 0 ''i'' [ArgI (word_of_nat (buf_len msg))]) (\<lambda>(w, _, _). Inr w))))"

definition SOSD_cloud_notify :: "SOS_ctx \<Rightarrow> bool list \<Rightarrow> SOS_buffer \<Rightarrow> (nat \<times> SOS_buffer) list res" where
  "SOSD_cloud_notify cx targets msg =
     (if cx_role cx = SOS_ROLE_AGGREGATOR \<and> 1 < length targets
      then bindR (wrap_trigger msg) (\<lambda>w. Inr (map (\<lambda>i. (i, w)) (filter (\<lambda>i. targets ! i) [0..<length targets])))
      else Inr [])"

definition SOSD_cloud_handle_triggerpull :: "SOS_ctx \<Rightarrow> SOSD \<Rightarrow> SOS_buffer \<Rightarrow> (SOSD \<times> SOS_buffer \<times> (nat \<times> SOS_buffer) list) res" where
  "SOSD_cloud_handle_triggerpull cx sd msg =
     bindR (SOS_msg_unzip msg 0) (\<lambda>(msg, _, offset).
     bindR (SOSD_cloud_notify cx (sd_cloud_targets sd) msg) (\<lambda>notices.
     bindR (SOS_buffer_unpack_safestr msg offset) (\<lambda>(msg, offset, handle).
     bindR (SOS_buffer_unpack msg offset ''i'' [DestI]) (\<lambda>(msg, offset, _, outs).
     bindR (out_i outs) (\<lambda>message_len.
     bindR (SOS_buffer_unpack_safestr msg offset) (\<lambda>(msg, _, message).
     bindR (queue_put (cx_mincap cx) (Feedback_Payload \<lparr>pl_handle = handle, pl_size = message_len, pl_data = message\<rparr>) (sd_feedback sd)) (\<lambda>q.
     Inr (sd\<lparr>sd_feedback := q\<rparr>, msg, notices))))))))"

definition SOSD_handle_triggerpull :: "SOS_ctx \<Rightarrow> SOSD \<Rightarrow> SOS_buffer \<Rightarrow> (SOSD \<times> SOS_buffer \<times> SOS_buffer) res" where
  "SOSD_handle_triggerpull cx sd msg =
     bindR (SOSD_cloud_handle_triggerpull cx sd msg) (\<lambda>(sd, msg, _).
     bindR (ack_reply SOS_DEFAULT_REPLY_LEN True) (\<lambda>reply. Inr (sd, msg, reply)))"

text \<open>
  Growing copies, from where the head slot points to, the bytes of a snapshot as if they were
  slots: only an empty copy is defined. Any other size drops what is cached. (Passing the message
  on to the aggregator is the cloud transport's and left out.)
\<close>

definition cache_resize :: "SOS_pub \<Rightarrow> i32 \<Rightarrow> snap_chain list res" where
  "cache_resize pub to_size =
     (let empty = replicate (nat (sint to_size)) (Chain []); depth = sint (pb_cache_depth pub)
      in if sint to_size \<le> depth then Inr empty
         else
           (case pb_cache pub of
              None \<Rightarrow> Inl Null_Deref
            | Some cache \<Rightarrow>
                checkR (0 \<le> pb_cache_head pub \<and> pb_cache_head pub < int (length cache)) Out_Of_Bounds
                  (if depth = 0 \<and> pb_cache_head pub = 0 then Inr empty
                   else if cache ! nat (pb_cache_head pub) = Chain [] then Inl Null_Deref
                   else Inl Undefined)))"

definition SOSD_handle_cache_size :: "SOSD \<Rightarrow> SOS_buffer \<Rightarrow> (SOSD \<times> SOS_buffer \<times> SOS_buffer) res" where
  "SOSD_handle_cache_size sd msg =
     bindR (ack_reply SOS_DEFAULT_REPLY_LEN True) (\<lambda>reply.
     bindR (SOS_msg_unzip msg 0) (\<lambda>(msg, _, offset).
     bindR (unpack_guid msg offset) (\<lambda>(msg, offset, guid).
     bindR (SOS_buffer_unpack msg offset ''i'' [DestI]) (\<lambda>(msg, _, _, outs).
     bindR (out_i outs) (\<lambda>to_size0.
     let to_size = (if sint to_size0 < 0 then 0 else to_size0)
     in case pub_find sd guid of
          None \<Rightarrow> Inr (sd, msg, reply)
        | Some a \<Rightarrow>
            bindR (pub_ref sd a) (\<lambda>pub.
            checkR (\<not> pb_lock pub) Deadlock
              (bindR (cache_resize pub to_size) (\<lambda>cache.
               Inr (pub_store a (pub\<lparr>pb_cache := Some cache, pb_cache_head := 0, pb_cache_depth := to_size\<rparr>) sd, msg, reply)))))))))"

section \<open>The listening loop\<close>

type_synonym other_handlers = "SOS_msg_type \<Rightarrow> SOSD \<Rightarrow> SOS_buffer \<Rightarrow> (SOSD \<times> SOS_buffer \<times> SOS_buffer option) res"

text \<open>A message for the local thread is queued and acknowledged; the listener goes on with a new buffer.\<close>

definition SOSD_queue_local :: "SOS_ctx \<Rightarrow> SOSD \<Rightarrow> SOS_buffer \<Rightarrow> (SOSD \<times> SOS_buffer \<times> SOS_buffer option) res" where
  "SOSD_queue_local cx sd buffer =
     bindR (queue_put (cx_mincap cx) buffer (sd_local sd)) (\<lambda>q.
     bindR (SOSD_PACK_ACK (SOS_buffer_init_sized_locking SOS_DEFAULT_BUFFER_MAX False)) (\<lambda>rapid_reply.
     Inr (sd\<lparr>sd_local := q\<rparr>, SOS_buffer_init_sized_locking SOS_DEFAULT_BUFFER_MAX False, Some rapid_reply)))"

definition SOSD_listen_dispatch ::
    "SOS_ctx \<Rightarrow> i32 \<Rightarrow> other_handlers \<Rightarrow> SOS_msg_type option \<Rightarrow> SOSD \<Rightarrow> SOS_buffer \<Rightarrow> (SOSD \<times> SOS_buffer \<times> SOS_buffer option) res" where
  "SOSD_listen_dispatch cx server_uid other msg_type sd buffer =
     (case msg_type of
        Some SOS_MSG_TYPE_REGISTER \<Rightarrow>
          bindR (SOSD_handle_register server_uid (cx_comm_rank cx) (sd_guid sd) buffer) (\<lambda>(guid, buffer, reply).
          Inr (sd\<lparr>sd_guid := guid\<rparr>, buffer, Some reply))
      | Some SOS_MSG_TYPE_UNREGISTER \<Rightarrow> bindR SOSD_handle_unregister (\<lambda>reply. Inr (sd, buffer, Some reply))
      | Some SOS_MSG_TYPE_GUID_BLOCK \<Rightarrow>
          bindR (SOSD_handle_guid_block (cx_comm_rank cx) (sd_guid sd)) (\<lambda>(guid, reply). Inr (sd\<lparr>sd_guid := guid\<rparr>, buffer, Some reply))
      | Some SOS_MSG_TYPE_ANNOUNCE \<Rightarrow> SOSD_queue_local cx sd buffer
      | Some SOS_MSG_TYPE_PUBLISH \<Rightarrow> SOSD_queue_local cx sd buffer
      | Some SOS_MSG_TYPE_VAL_SNAPS \<Rightarrow> SOSD_queue_local cx sd buffer
      | Some SOS_MSG_TYPE_ECHO \<Rightarrow> bindR (SOSD_handle_echo buffer) (\<lambda>buffer. Inr (sd, buffer, Some buffer))
      | Some SOS_MSG_TYPE_SHUTDOWN \<Rightarrow> bindR (SOSD_handle_shutdown sd buffer) (\<lambda>(sd, buffer, reply). Inr (sd, buffer, Some reply))
      | Some SOS_MSG_TYPE_CHECK_IN \<Rightarrow> bindR (SOSD_handle_check_in (cx_role cx) buffer) (\<lambda>(buffer, reply). Inr (sd, buffer, reply))
      | Some SOS_MSG_TYPE_PROBE \<Rightarrow> other SOS_MSG_TYPE_PROBE sd buffer
      | Some SOS_MSG_TYPE_MANIFEST \<Rightarrow> other SOS_MSG_TYPE_MANIFEST sd buffer
      | Some SOS_MSG_TYPE_QUERY \<Rightarrow> other SOS_MSG_TYPE_QUERY sd buffer
      | Some SOS_MSG_TYPE_CACHE_GRAB \<Rightarrow> other SOS_MSG_TYPE_CACHE_GRAB sd buffer
      | Some SOS_MSG_TYPE_CACHE_SIZE \<Rightarrow> bindR (SOSD_handle_cache_size sd buffer) (\<lambda>(sd, buffer, reply). Inr (sd, buffer, Some reply))
      | Some SOS_MSG_TYPE_SENSITIVITY \<Rightarrow> bindR (SOSD_handle_sensitivity cx sd buffer) (\<lambda>(sd, buffer, reply). Inr (sd, buffer, Some reply))
      | Some SOS_MSG_TYPE_DESENSITIZE \<Rightarrow> bindR SOSD_handle_desensitize (\<lambda>reply. Inr (sd, buffer, Some reply))
      | Some SOS_MSG_TYPE_TRIGGERPULL \<Rightarrow> bindR (SOSD_handle_triggerpull cx sd buffer) (\<lambda>(sd, buffer, reply). Inr (sd, buffer, Some reply))
      | _ \<Rightarrow> bindR (SOSD_handle_unknown (cx_role cx) buffer) (\<lambda>(buffer, reply). Inr (sd, buffer, reply)))"

text \<open>
  One round: receive a message, sort it, answer. \<open>i < sizeof(SOS_msg_header)\<close> compares as
  unsigned, so a failed receive (-1) is not caught and the buffer is read as a message. Returns
  the state, the listening buffer, the rest of the socket's results and the answer.
\<close>

definition SOSD_listen_step ::
    "SOS_ctx \<Rightarrow> i32 \<Rightarrow> other_handlers \<Rightarrow> recv_result list \<Rightarrow> SOSD \<Rightarrow> SOS_buffer \<Rightarrow>
     (SOSD \<times> SOS_buffer \<times> recv_result list \<times> SOS_buffer option) res" where
  "SOSD_listen_step cx server_uid other recvs sd buffer =
     bindR (SOS_target_recv_msg (sd_shutdown sd) recvs (Some (SOS_buffer_wipe buffer))) (\<lambda>(buffer, recvs, i).
     case buffer of None \<Rightarrow> Inl Null_Deref | Some buffer \<Rightarrow>
     if 0 \<le> i \<and> i < 24 then Inr (sd, buffer, recvs, None)
     else
       bindR (SOS_msg_unzip buffer 0) (\<lambda>(buffer, header, _).
       bindR (SOSD_listen_dispatch cx server_uid other (enum_decode SOS_msg_type_vals (hd_msg_type header)) sd buffer) (\<lambda>(sd, buffer, reply).
       Inr (sd, buffer, recvs, reply))))"

text \<open>
  A daemon that has just been set up: an empty table, empty queues, its share of the GUIDs
  (\<open>SOSD_init\<close>).
\<close>

definition new_queue :: "nat \<Rightarrow> 'a \<Rightarrow> 'a SOS_queue res" where
  "new_queue mincap junk =
     bindR (SOS_pipe_init mincap junk 1) (\<lambda>p.
     case p of None \<Rightarrow> Inl Null_Deref | Some p \<Rightarrow> Inr \<lparr>qu_pipe = p, qu_elem_count = 0, qu_sync_lock = False\<rparr>)"

definition SOSD_init :: "nat \<Rightarrow> i32 \<Rightarrow> i32 \<Rightarrow> SOSD res" where
  "SOSD_init mincap comm_size comm_rank =
     (case qhashtbl_new (int SOS_DEFAULT_TABLE_SIZE) of
        None \<Rightarrow> Inl Null_Deref
      | Some tbl \<Rightarrow>
          bindR (new_queue mincap SOS_buffer_init) (\<lambda>locq.
          bindR (new_queue mincap SOS_buffer_init) (\<lambda>cloudq.
          bindR (new_queue mincap \<lparr>tk_type = 0, tk_ref = 0\<rparr>) (\<lambda>dbq.
          bindR (new_queue mincap zero_snap) (\<lambda>snapq.
          bindR (new_queue mincap (Feedback_Payload \<lparr>pl_handle = None, pl_size = 0, pl_data = None\<rparr>)) (\<lambda>fbq.
          Inr \<lparr>sd_pubs = [], sd_pub_table = tbl, sd_pub_list = [], sd_guid = SOSD_guid_range comm_size comm_rank,
               sd_local = locq, sd_cloud_send = cloudq, sd_db = dbq,
               sd_snap_queue = \<lparr>sq_pipe = qu_pipe snapq, sq_elem_count = 0, sq_sync_lock = False\<rparr>,
               sd_sense_list = [], sd_feedback = fbq, sd_cloud_targets = replicate (nat (sint comm_size)) False, sd_running = True, sd_shutdown = False, sd_queries = []\<rparr>))))))"

section \<open>Keys\<close>

lemma dec_digits_inj: "m < 2 ^ 64 \<Longrightarrow> n < 2 ^ 64 \<Longrightarrow> dec_digits m = dec_digits n \<Longrightarrow> m = n"
proof (induction m arbitrary: n rule: less_induct)
  case (less m)
  have dig: "(word_of_nat (48 + a) :: byte) = word_of_nat (48 + b) \<Longrightarrow> a < 10 \<Longrightarrow> b < 10 \<Longrightarrow> a = b" for a b :: nat
  proof -
    assume "(word_of_nat (48 + a) :: byte) = word_of_nat (48 + b)" "a < 10" "b < 10"
    then have "unat (word_of_nat (48 + a) :: byte) = unat (word_of_nat (48 + b) :: byte)" by simp
    then show "a = b" using \<open>a < 10\<close> \<open>b < 10\<close> by (simp add: unat_word_of_nat_small del: of_nat_add)
  qed
  have ne: "dec_digits k \<noteq> []" for k by (subst dec_digits.simps) simp
  show ?case
  proof (cases "m < 10")
    case True
    then have m: "dec_digits m = [word_of_nat (48 + m)]" by (subst dec_digits.simps) simp
    show ?thesis
    proof (cases "n < 10")
      case True
      then have "dec_digits n = [word_of_nat (48 + n)]" by (subst dec_digits.simps) simp
      then have "(word_of_nat (48 + m) :: byte) = word_of_nat (48 + n)" using m less.prems(3) by (metis list.inject)
      then show ?thesis using dig \<open>n < 10\<close> \<open>m < 10\<close> by blast
    next
      case False
      then have "dec_digits n = dec_digits (n div 10) @ [word_of_nat (48 + n mod 10)]" by (subst dec_digits.simps) simp
      then show ?thesis using m less.prems(3) ne [of "n div 10"] by (metis append_eq_Cons_conv append_is_Nil_conv list.distinct(1))
    qed
  next
    case False
    then have m: "dec_digits m = dec_digits (m div 10) @ [word_of_nat (48 + m mod 10)]" by (subst dec_digits.simps) simp
    show ?thesis
    proof (cases "n < 10")
      case True
      then have "dec_digits n = [word_of_nat (48 + n)]" by (subst dec_digits.simps) simp
      then show ?thesis using m less.prems(3) ne [of "m div 10"] by (metis append_eq_Cons_conv append_is_Nil_conv list.distinct(1))
    next
      case n: False
      then have "dec_digits n = dec_digits (n div 10) @ [word_of_nat (48 + n mod 10)]" by (subst dec_digits.simps) simp
      then have "dec_digits (m div 10) = dec_digits (n div 10)" "(word_of_nat (48 + m mod 10) :: byte) = word_of_nat (48 + n mod 10)"
        using m less.prems(3) by (metis append1_eq_conv)+
      moreover have "m div 10 < m" "m div 10 < 2 ^ 64" "n div 10 < 2 ^ 64" using False less.prems by auto
      ultimately have "m div 10 = n div 10" "m mod 10 = n mod 10"
        using less.IH dig [of "m mod 10" "n mod 10"] by auto
      then show ?thesis by (metis mult_div_mod_eq)
    qed
  qed
qed

lemma guid_str_inj: "guid_str g = guid_str h \<Longrightarrow> g = h"
proof -
  have "unat w < 2 ^ 64" for w :: u64 by (rule order.strict_trans2 [OF unsigned_less]) simp
  then show "guid_str g = guid_str h \<Longrightarrow> g = h" using dec_digits_inj [of "unat g" "unat h"] by (metis guid_str_def word_unat_eq_iff)
qed

lemma wf_dec_digits: "wf_cstring (dec_digits n)"
proof (induction n rule: less_induct)
  case (less n)
  have "(word_of_nat (48 + k) :: byte) \<noteq> 0" if "k < 10" for k
  proof
    assume "(word_of_nat (48 + k) :: byte) = 0"
    then have "unat (word_of_nat (48 + k) :: byte) = 0" by simp
    then show False using that by (simp add: unat_word_of_nat_small del: of_nat_add)
  qed
  then show ?case using less [of "n div 10"] by (subst dec_digits.simps) (auto simp: wf_cstring_def simp del: of_nat_add)
qed

lemma wf_guid_str [simp]: "wf_cstring (guid_str g)"
  by (simp add: guid_str_def wf_dec_digits)

lemma cstr_guid_str [simp]: "cstr (guid_str g) = guid_str g"
  by (rule cstr_wf) simp

section \<open>Applying a message keeps the identity of a handle\<close>

text \<open>Reading the header of a message twice gives the same header.\<close>

lemma unpack_reserve_room: "unpack_reserve b offset = Inr b' \<Longrightarrow> offset < buf_max b'"
proof (induction b offset rule: unpack_reserve.induct)
  case (1 b offset)
  then show ?case by (cases "buf_max b \<le> offset") (auto simp: unpack_reserve.simps [of b offset] res_simps)
qed

lemma unpack_reserve_data:
  "buf_max b = buf_max c \<Longrightarrow> offset < buf_max b \<Longrightarrow> unpack_reserve b offset = Inr b \<and> unpack_reserve c offset = Inr c"
  by (simp add: unpack_reserve.simps [of _ offset])

lemma unzip_again:
  assumes "SOS_msg_unzip b 0 = Inr (b', header, offset)"
  shows "\<exists>b''. SOS_msg_unzip b' 0 = Inr (b'', header, offset)"
proof -
  obtain b1 st where r: "unpack_reserve (msg_unlock b) 0 = Inr b1"
      "foldR (unpack_step (buf_data b1)) ''iigg''
        \<lparr>us_buf = 0, us_packed = 0, us_maxlen = 0, us_dests = [DestI, DestI, DestG, DestG], us_outs = [], us_s = None\<rparr> = Inr st"
      "us_packed st \<le> INT_MAX" "header_of_outs (us_outs st) = Inr header" "offset = us_packed st"
      "b' = msg_unlock (b1\<lparr>buf_is_zipped := False\<rparr>)"
    using assms by (auto simp: SOS_msg_unzip_def SOS_buffer_unpack_def Let_def res_simps simp del: foldR.simps)
  have "0 < buf_max b1" by (rule unpack_reserve_room [OF r(1)])
  then have "unpack_reserve (msg_unlock b') 0 = Inr (msg_unlock b')" "buf_data (msg_unlock b') = buf_data b1"
    using unpack_reserve_data [of "msg_unlock b'" "msg_unlock b'" 0] by (auto simp: r(6) msg_unlock_def)
  then show ?thesis
    using r(2-5) by (simp add: SOS_msg_unzip_def SOS_buffer_unpack_def Let_def del: foldR.simps)
qed

lemma expand_keeps: "SOS_expand_data pub = Inr pub' \<Longrightarrow> pb_guid pub' = pb_guid pub"
  by (auto simp: SOS_expand_data_def Let_def res_simps)

lemma pub_grow_to_keeps: "pub_grow_to n pub = Inr pub' \<Longrightarrow> pb_guid pub' = pb_guid pub"
proof (induction n pub rule: pub_grow_to.induct)
  case (1 n pub)
  show ?case
  proof (cases "pb_elem_max pub < n")
    case True
    then obtain p where "SOS_expand_data pub = Inr p" "pub_grow_to n p = Inr pub'"
      using 1(2) by (subst (asm) pub_grow_to.simps) (auto simp: res_simps)
    then show ?thesis using 1(1) [OF True] expand_keeps by metis
  next
    case False
    then show ?thesis using 1(2) by (subst (asm) pub_grow_to.simps) simp
  qed
qed

lemma announce_of_outs_keeps: "announce_of_outs pub outs = Inr (p, e) \<Longrightarrow> pb_guid p = pb_guid pub"
  unfolding announce_of_outs_def by (auto split: list.splits unpack_val.splits option.splits)

lemma take_elem_keeps: "take_elem pub i upd = Inr pub' \<Longrightarrow> pb_guid pub' = pb_guid pub"
  by (cases "pub_data_at pub (int i)")
    (simp_all add: take_elem_def checkR_def Let_def pub_set_data_def split: if_split_asm, (drule sym, simp)+)

lemma announce_from_keeps:
  assumes "SOS_announce_from_buffer b pub = Inr (b', pub')" and "SOS_msg_unzip b 0 = Inr (b0, header, off)"
  shows "pb_guid pub' = hd_ref_guid header \<and> \<not> pb_lock pub'"
proof -
  have step: "pb_guid (snd (snd s')) = pb_guid (snd (snd s))" if "elem_from_buffer n s = Inr s'" for n s s'
    using that by (cases s, cases s') (auto simp: elem_from_buffer_def res_simps dest: take_elem_keeps)
  have "pb_guid q = pb_guid p" if "foldR elem_from_buffer ns (c, off, p) = Inr (c', off', q)" for ns c off p c' off' q
    using foldR_invariant [of ns "\<lambda>s. pb_guid (snd (snd s)) = pb_guid p" elem_from_buffer "(c, off, p)" "(c', off', q)"] that step
    by auto
  then show ?thesis
    using assms
    by (auto simp: SOS_announce_from_buffer_def Let_def res_simps dest!: pub_grow_to_keeps announce_of_outs_keeps)
qed

lemma data_from_keeps: "data_from_buffer (b, off, pub) = Inr (b', off', pub') \<Longrightarrow> pb_guid pub' = pb_guid pub"
  by (auto simp: data_from_buffer_def res_simps pub_set_data_def)

lemma publish_loop_keeps: "publish_loop n (b, off, pub) = Inr (b', off', pub') \<Longrightarrow> pb_guid pub' = pb_guid pub"
proof (induction n "(b, off, pub)" arbitrary: b off pub rule: publish_loop.induct)
  case (1 n b off pub)
  then show ?case
    by (cases "int off < n") (auto simp: publish_loop.simps [of n b off pub] res_simps dest: data_from_keeps)
qed

lemma publish_from_keeps:
  "SOS_publish_from_buffer b pub = Inr (b', pub') \<Longrightarrow> pb_guid pub' = pb_guid pub \<and> \<not> pb_lock pub'"
  by (auto simp: SOS_publish_from_buffer_def res_simps dest!: publish_loop_keeps)

lemma cache_insert_keeps:
  "SOS_pack_snap_list_into_pub_cache pub snaps = Inr pub' \<Longrightarrow> pb_guid pub' = pb_guid pub \<and> pb_lock pub' = pb_lock pub"
  by (auto simp: SOS_pack_snap_list_into_pub_cache_def Let_def res_simps split: if_splits list.splits option.splits snap_chain.splits)

lemma snaps_from_keeps:
  "SOS_val_snap_queue_from_buffer mincap clock b q (Some pub) = Inr (b', q', pub') \<Longrightarrow>
   \<exists>p. pub' = Some p \<and> pb_guid p = pb_guid pub \<and> pb_lock p = pb_lock pub"
  by (auto simp: SOS_val_snap_queue_from_buffer_def res_simps dest!: cache_insert_keeps split: if_splits)

section \<open>The table of publications\<close>

text \<open>
  \<open>pubs_ok\<close>: the table maps exactly the GUIDs of the handles to their addresses, no handle is
  locked between two steps, and the list of publications has no duplicates.
\<close>

definition pubs_ok :: "SOSD \<Rightarrow> bool" where
  "pubs_ok sd \<longleftrightarrow>
     table_ok (sd_pub_table sd) \<and> (\<forall>k v. qh_lookup (sd_pub_table sd) k = Some v \<longrightarrow> v \<noteq> None) \<and>
     (\<forall>g a. pub_find sd g = Some a \<longrightarrow> a < length (sd_pubs sd) \<and> pb_guid (sd_pubs sd ! a) = g) \<and>
     (\<forall>a < length (sd_pubs sd). pub_find sd (pb_guid (sd_pubs sd ! a)) = Some a \<and> \<not> pb_lock (sd_pubs sd ! a)) \<and>
     distinct (sd_pub_list sd) \<and> (\<forall>a \<in> set (sd_pub_list sd). a < length (sd_pubs sd))"

lemma pub_find_lookup: "pub_find sd g = (case qh_lookup (sd_pub_table sd) (guid_str g) of None \<Rightarrow> None | Some v \<Rightarrow> v)"
  by (simp add: pub_find_def qh_get_def qhget_lookup)

lemma pub_find_cong: "sd_pub_table sd = sd_pub_table sd' \<Longrightarrow> pub_find sd g = pub_find sd' g"
  by (simp add: pub_find_def)

lemma pubs_okD:
  assumes "pubs_ok sd" and "pub_find sd g = Some a"
  shows "a < length (sd_pubs sd)" and "pb_guid (sd_pubs sd ! a) = g" and "\<not> pb_lock (sd_pubs sd ! a)"
  using assms by (auto simp: pubs_ok_def)

text \<open>What steps may change without touching the table.\<close>

lemma pubs_ok_cong:
  "sd_pubs sd' = sd_pubs sd \<Longrightarrow> sd_pub_table sd' = sd_pub_table sd \<Longrightarrow> sd_pub_list sd' = sd_pub_list sd \<Longrightarrow> pubs_ok sd' = pubs_ok sd"
  by (simp add: pubs_ok_def pub_find_def)

lemma pub_find_store [simp]: "pub_find (pub_store a p sd) g = pub_find sd g"
  and pub_find_guid [simp]: "pub_find (sd\<lparr>sd_guid := x1\<rparr>) g = pub_find sd g"
  and pub_find_list [simp]: "pub_find (sd\<lparr>sd_pub_list := x2\<rparr>) g = pub_find sd g"
  and pub_find_db [simp]: "pub_find (sd\<lparr>sd_db := x3\<rparr>) g = pub_find sd g"
  and pub_find_snap [simp]: "pub_find (sd\<lparr>sd_snap_queue := x4\<rparr>) g = pub_find sd g"
  and pub_find_cloud [simp]: "pub_find (sd\<lparr>sd_cloud_send := x5\<rparr>) g = pub_find sd g"
  and pub_find_local [simp]: "pub_find (sd\<lparr>sd_local := x6\<rparr>) g = pub_find sd g"
  by (simp_all add: pub_find_def pub_store_def)

lemma pubs_ok_irrelevant [simp]:
  "pubs_ok (sd\<lparr>sd_guid := x1\<rparr>) = pubs_ok sd" "pubs_ok (sd\<lparr>sd_db := x2\<rparr>) = pubs_ok sd" "pubs_ok (sd\<lparr>sd_snap_queue := x3\<rparr>) = pubs_ok sd"
  "pubs_ok (sd\<lparr>sd_cloud_send := x4\<rparr>) = pubs_ok sd" "pubs_ok (sd\<lparr>sd_local := x5\<rparr>) = pubs_ok sd" "pubs_ok (sd\<lparr>sd_sense_list := x6\<rparr>) = pubs_ok sd"
  "pubs_ok (sd\<lparr>sd_running := x7\<rparr>) = pubs_ok sd" "pubs_ok (sd\<lparr>sd_shutdown := x8\<rparr>) = pubs_ok sd"
  "pubs_ok (sd\<lparr>sd_feedback := x9\<rparr>) = pubs_ok sd" "pubs_ok (sd\<lparr>sd_queries := x10\<rparr>) = pubs_ok sd"
  by (simp_all add: pubs_ok_def pub_find_def)

lemma pubs_ok_store:
  assumes "pubs_ok sd" and "a < length (sd_pubs sd)" and "pb_guid p = pb_guid (sd_pubs sd ! a)" and "\<not> pb_lock p"
  shows "pubs_ok (pub_store a p sd)"
proof -
  have g: "pb_guid ((sd_pubs sd)[a := p] ! i) = pb_guid (sd_pubs sd ! i)" if "i < length (sd_pubs sd)" for i
    using assms(3) that by (cases "i = a") auto
  have l: "\<not> pb_lock ((sd_pubs sd)[a := p] ! i)" if "i < length (sd_pubs sd)" for i
    using assms(1,4) that by (cases "i = a") (auto simp: pubs_ok_def)
  show ?thesis
    using assms(1) g l unfolding pubs_ok_def pub_find_store by (auto simp: pub_store_def)
qed

lemma SOSD_new_pub_spec:
  assumes "SOSD_new_pub cx sd g = Inr (sd', a)"
  obtains pool pub where "SOS_pub_init cx (sd_guid sd) (guid_str g) SOS_NATURE_DEFAULT = Inr (pool, pub)"
    and "a = length (sd_pubs sd)"
    and "sd' = sd\<lparr>sd_guid := pool,
           sd_pubs := sd_pubs sd @ [pub\<lparr>pb_guid_str := strncpy_array SOS_DEFAULT_STRING_LEN (guid_str g), pb_guid := g\<rparr>],
           sd_pub_table := fst (qhput (sd_pub_table sd) (guid_str g) (Some a))\<rparr>"
  using assms by (auto simp: SOSD_new_pub_def Let_def res_simps qh_put_def)

lemma pub_init_unlocked: "SOS_pub_init cx pool title nature = Inr (pool', pub) \<Longrightarrow> \<not> pb_lock pub"
  using SOS_pub_init_fresh by (auto simp: fresh_handle_def)

lemma pubs_ok_new:
  assumes "pubs_ok sd" and "pub_find sd g = None" and "SOSD_new_pub cx sd g = Inr (sd', a)"
  shows "pubs_ok sd'" and "pub_find sd' g = Some a" and "a = length (sd_pubs sd)" and "sd_pub_list sd' = sd_pub_list sd"
    and "\<And>h. h \<noteq> g \<Longrightarrow> pub_find sd' h = pub_find sd h" and "length (sd_pubs sd') = Suc a"
proof -
  from assms(3) obtain pool pub where n: "SOS_pub_init cx (sd_guid sd) (guid_str g) SOS_NATURE_DEFAULT = Inr (pool, pub)"
      "a = length (sd_pubs sd)"
      "sd' = sd\<lparr>sd_guid := pool,
         sd_pubs := sd_pubs sd @ [pub\<lparr>pb_guid_str := strncpy_array SOS_DEFAULT_STRING_LEN (guid_str g), pb_guid := g\<rparr>],
         sd_pub_table := fst (qhput (sd_pub_table sd) (guid_str g) (Some a))\<rparr>"
    by (rule SOSD_new_pub_spec)
  let ?p = "pub\<lparr>pb_guid_str := strncpy_array SOS_DEFAULT_STRING_LEN (guid_str g), pb_guid := g\<rparr>"
  have t: "table_ok (sd_pub_table sd)" and nn: "\<And>k v. qh_lookup (sd_pub_table sd) k = Some v \<Longrightarrow> v \<noteq> None"
    using assms(1) by (auto simp: pubs_ok_def)
  have none: "qh_lookup (sd_pub_table sd) (guid_str g) = None"
    using assms(2) nn by (auto simp: pub_find_lookup split: option.splits)
  have look: "qh_lookup (sd_pub_table sd') k = (if k = guid_str g then Some (Some a) else qh_lookup (sd_pub_table sd) k)" for k
    using qh_lookup_qhput [OF t] none by (simp add: n(3))
  have find: "pub_find sd' h = (if h = g then Some a else pub_find sd h)" for h
    using look guid_str_inj [of h g] by (auto simp: pub_find_lookup)
  have ne: "pb_guid (sd_pubs sd ! i) \<noteq> g" if "i < length (sd_pubs sd)" for i
    using assms(1,2) that by (auto simp: pubs_ok_def)
  have pubs: "sd_pubs sd' = sd_pubs sd @ [?p]" "sd_pub_list sd' = sd_pub_list sd" by (simp_all add: n(3))
  have tab: "table_ok (sd_pub_table sd')" using qhput_table_ok [OF t] by (simp add: n(3))
  have nn': "\<forall>k v. qh_lookup (sd_pub_table sd') k = Some v \<longrightarrow> v \<noteq> None" using look nn by (auto split: if_splits)
  have fwd: "\<forall>h i. pub_find sd' h = Some i \<longrightarrow> i < length (sd_pubs sd') \<and> pb_guid (sd_pubs sd' ! i) = h"
  proof (intro allI impI)
    fix h i assume hi: "pub_find sd' h = Some i"
    show "i < length (sd_pubs sd') \<and> pb_guid (sd_pubs sd' ! i) = h"
    proof (cases "h = g")
      case True
      then show ?thesis using hi find n(2) pubs(1) by auto
    next
      case False
      then have "i < length (sd_pubs sd)" "pb_guid (sd_pubs sd ! i) = h" using hi find pubs_okD(1,2) [OF assms(1)] by auto
      then show ?thesis using pubs(1) by (simp add: nth_append)
    qed
  qed
  have bwd: "\<forall>i < length (sd_pubs sd'). pub_find sd' (pb_guid (sd_pubs sd' ! i)) = Some i \<and> \<not> pb_lock (sd_pubs sd' ! i)"
  proof (intro allI impI)
    fix i assume "i < length (sd_pubs sd')"
    then consider "i < length (sd_pubs sd)" | "i = length (sd_pubs sd)" using pubs(1) by fastforce
    then show "pub_find sd' (pb_guid (sd_pubs sd' ! i)) = Some i \<and> \<not> pb_lock (sd_pubs sd' ! i)"
    proof cases
      case 1
      then show ?thesis using assms(1) ne [OF 1] find pubs(1) by (auto simp: pubs_ok_def nth_append)
    next
      case 2
      then show ?thesis using find n(2) pubs(1) pub_init_unlocked [OF n(1)] by simp
    qed
  qed
  have "distinct (sd_pub_list sd') \<and> (\<forall>i \<in> set (sd_pub_list sd'). i < length (sd_pubs sd'))"
    using assms(1) pubs by (auto simp: pubs_ok_def)
  then show "pubs_ok sd'" unfolding pubs_ok_def using tab nn' fwd bwd by blast
  show "pub_find sd' g = Some a" "\<And>h. h \<noteq> g \<Longrightarrow> pub_find sd' h = pub_find sd h" using find by auto
  show "a = length (sd_pubs sd)" "sd_pub_list sd' = sd_pub_list sd" "length (sd_pubs sd') = Suc a" using n(2) pubs by auto
qed

text \<open>Between two states of the daemon no publication is lost.\<close>

definition keeps_pubs :: "SOSD \<Rightarrow> SOSD \<Rightarrow> bool" where
  "keeps_pubs sd sd' \<longleftrightarrow> (\<forall>g a. pub_find sd g = Some a \<longrightarrow> pub_find sd' g = Some a)"

lemma keeps_refl [simp]: "keeps_pubs sd sd"
  and keeps_trans: "keeps_pubs sd sd' \<Longrightarrow> keeps_pubs sd' sd'' \<Longrightarrow> keeps_pubs sd sd''"
  by (auto simp: keeps_pubs_def)

lemma keeps_new: "pubs_ok sd \<Longrightarrow> pub_find sd g = None \<Longrightarrow> SOSD_new_pub cx sd g = Inr (sd', a) \<Longrightarrow> keeps_pubs sd sd'"
  unfolding keeps_pubs_def using pubs_ok_new(5) [of sd g cx sd' a] by (metis option.distinct(1))

lemma db_put_sd: "db_put mincap t a sd = Inr sd' \<Longrightarrow> \<exists>q. sd' = sd\<lparr>sd_db := q\<rparr>"
  by (auto simp: db_put_def res_simps)

lemma handle_announce_keeps:
  assumes "pubs_ok sd" and "SOSD_handle_announce cx dbd sd buffer = Inr (sd', buffer')"
  shows "pubs_ok sd' \<and> keeps_pubs sd sd'"
proof -
  obtain b1 header off a sd1 sd2 b2 where r: "SOS_msg_unzip buffer 0 = Inr (b1, header, off)"
      "(case pub_find sd (hd_ref_guid header) of
          None \<Rightarrow> bindR (SOSD_new_pub cx sd (hd_ref_guid header)) (\<lambda>(sd, a). Inr (sd\<lparr>sd_pub_list := a # sd_pub_list sd\<rparr>, a))
        | Some a \<Rightarrow> Inr (sd, a)) = Inr (sd1, a)"
      "SOSD_apply_announce sd1 a b1 = Inr (sd2, b2)"
      "\<exists>p. pub_ref sd2 a = Inr p \<and> (\<exists>q. sd' = (pub_store a (p\<lparr>pb_announced := SOSD_PUB_ANN_DIRTY\<rparr>) sd2)\<lparr>sd_db := q\<rparr>)"
  proof -
    obtain b1 header off where u: "SOS_msg_unzip buffer 0 = Inr (b1, header, off)"
      using assms(2) by (auto simp: SOSD_handle_announce_def res_simps)
    let ?get = "case pub_find sd (hd_ref_guid header) of
          None \<Rightarrow> bindR (SOSD_new_pub cx sd (hd_ref_guid header)) (\<lambda>(sd, a). Inr (sd\<lparr>sd_pub_list := a # sd_pub_list sd\<rparr>, a))
        | Some a \<Rightarrow> Inr (sd, a)"
    obtain sd1 a where g: "?get = Inr (sd1, a)"
      using assms(2) u by (cases ?get) (auto simp: SOSD_handle_announce_def Let_def)
    obtain sd2 b2 where ap: "SOSD_apply_announce sd1 a b1 = Inr (sd2, b2)"
      using assms(2) u g by (cases "SOSD_apply_announce sd1 a b1") (auto simp: SOSD_handle_announce_def Let_def)
    have "bindR (pub_ref sd2 a) (\<lambda>pub.
        let sd = pub_store a (pub\<lparr>pb_announced := SOSD_PUB_ANN_DIRTY\<rparr>) sd2
        in bindR (if pub_find sd0 (hd_ref_guid header) = None \<and> \<not> dbd then db_put (cx_mincap cx) SOS_MSG_TYPE_ANNOUNCE a sd else Inr sd) (\<lambda>sd.
           Inr (sd, b2))) = Inr (sd', buffer')" if "sd0 = sd" for sd0
      using assms(2) u g ap by (simp add: SOSD_handle_announce_def Let_def that)
    from this [OF refl]
    have "\<exists>p. pub_ref sd2 a = Inr p \<and> (sd' = pub_store a (p\<lparr>pb_announced := SOSD_PUB_ANN_DIRTY\<rparr>) sd2 \<or>
        (\<exists>q. sd' = (pub_store a (p\<lparr>pb_announced := SOSD_PUB_ANN_DIRTY\<rparr>) sd2)\<lparr>sd_db := q\<rparr>))"
      by (auto simp: bindR_Inr_iff Let_def split: if_split_asm dest!: db_put_sd)
    moreover have "sd = sd\<lparr>sd_db := sd_db sd\<rparr>" for sd :: SOSD by simp
    ultimately have "\<exists>p. pub_ref sd2 a = Inr p \<and> (\<exists>q. sd' = (pub_store a (p\<lparr>pb_announced := SOSD_PUB_ANN_DIRTY\<rparr>) sd2)\<lparr>sd_db := q\<rparr>)"
      by metis
    then show ?thesis using that u g ap by blast
  qed
  have 1: "pubs_ok sd1 \<and> keeps_pubs sd sd1 \<and> pub_find sd1 (hd_ref_guid header) = Some a"
  proof (cases "pub_find sd (hd_ref_guid header)")
    case None
    then obtain sd0 where n: "SOSD_new_pub cx sd (hd_ref_guid header) = Inr (sd0, a)" "sd1 = sd0\<lparr>sd_pub_list := a # sd_pub_list sd0\<rparr>"
      using r(2) by (auto simp: res_simps)
    note p = pubs_ok_new [OF assms(1) None n(1)]
    have "a \<notin> set (sd_pub_list sd0)" using p(3,4) assms(1) by (auto simp: pubs_ok_def)
    then have "pubs_ok sd1" using p(1,6) unfolding pubs_ok_def n(2) pub_find_list by simp
    then show ?thesis using p(2) keeps_new [OF assms(1) None n(1)] by (simp add: n(2) keeps_pubs_def)
  next
    case (Some a')
    then show ?thesis using r(2) assms(1) by auto
  qed
  note d = pubs_okD [OF conjunct1 [OF 1] conjunct2 [OF conjunct2 [OF 1]]]
  obtain p2 where p2: "SOS_announce_from_buffer b1 (sd_pubs sd1 ! a) = Inr (b2, p2)" "sd2 = pub_store a p2 sd1"
    using r(3) d(1) by (auto simp: SOSD_apply_announce_def pub_ref_def res_simps)
  obtain b0 where "SOS_msg_unzip b1 0 = Inr (b0, header, off)" using unzip_again [OF r(1)] by blast
  from announce_from_keeps [OF p2(1) this] have g: "pb_guid p2 = hd_ref_guid header" "\<not> pb_lock p2" by auto
  have 2: "pubs_ok sd2" unfolding p2(2) using pubs_ok_store [OF _ d(1)] 1 g d(2) by auto
  obtain p q where p: "pub_ref sd2 a = Inr p" "sd' = (pub_store a (p\<lparr>pb_announced := SOSD_PUB_ANN_DIRTY\<rparr>) sd2)\<lparr>sd_db := q\<rparr>"
    using r(4) by blast
  have l2: "a < length (sd_pubs sd2)" "p = sd_pubs sd2 ! a" using p(1) by (auto simp: pub_ref_def res_simps)
  have "pubs_ok (pub_store a (p\<lparr>pb_announced := SOSD_PUB_ANN_DIRTY\<rparr>) sd2)"
    using 2 l2 by (intro pubs_ok_store) (auto simp: pubs_ok_def)
  then show ?thesis using 1 by (simp add: p(2) p2(2) keeps_pubs_def)
qed

lemma handle_publish_keeps:
  assumes "pubs_ok sd" and "SOSD_handle_publish cx dbd sd buffer = Inr (sd', buffer')"
  shows "pubs_ok sd' \<and> keeps_pubs sd sd'"
proof -
  obtain b1 header off a sd1 sd2 b2 where r: "SOS_msg_unzip buffer 0 = Inr (b1, header, off)"
      "(case pub_find sd (hd_ref_guid header) of None \<Rightarrow> SOSD_new_pub cx sd (hd_ref_guid header) | Some a \<Rightarrow> Inr (sd, a)) = Inr (sd1, a)"
      "SOSD_apply_publish sd1 a b1 = Inr (sd2, b2)"
      "sd' = sd2 \<or> (\<exists>p q. pub_ref sd2 a = Inr p \<and> sd' = (pub_store a (p\<lparr>pb_sync_pending := 1\<rparr>) sd2)\<lparr>sd_db := q\<rparr>)"
  proof -
    obtain b1 header off where u: "SOS_msg_unzip buffer 0 = Inr (b1, header, off)"
      using assms(2) by (auto simp: SOSD_handle_publish_def res_simps)
    let ?get = "case pub_find sd (hd_ref_guid header) of None \<Rightarrow> SOSD_new_pub cx sd (hd_ref_guid header) | Some a \<Rightarrow> Inr (sd, a)"
    obtain sd1 a where g: "?get = Inr (sd1, a)"
      using assms(2) u by (cases ?get) (auto simp: SOSD_handle_publish_def)
    obtain sd2 b2 where ap: "SOSD_apply_publish sd1 a b1 = Inr (sd2, b2)"
      using assms(2) u g by (cases "SOSD_apply_publish sd1 a b1") (auto simp: SOSD_handle_publish_def)
    have "bindR (if dbd then Inr sd2
            else bindR (pub_ref sd2 a) (\<lambda>pub.
                 checkR (\<not> pb_lock pub) Deadlock
                   (if pb_sync_pending pub = 0
                    then db_put (cx_mincap cx) SOS_MSG_TYPE_PUBLISH a (pub_store a (pub\<lparr>pb_sync_pending := 1\<rparr>) sd2)
                    else Inr sd2))) (\<lambda>sd. Inr (sd, b2)) = Inr (sd', buffer')"
      using assms(2) u g ap by (simp add: SOSD_handle_publish_def)
    then have "sd' = sd2 \<or> (\<exists>p q. pub_ref sd2 a = Inr p \<and> sd' = (pub_store a (p\<lparr>pb_sync_pending := 1\<rparr>) sd2)\<lparr>sd_db := q\<rparr>)"
      by (auto simp: bindR_Inr_iff checkR_Inr_iff split: if_split_asm dest!: db_put_sd)
    then show ?thesis using that u g ap by blast
  qed
  have 1: "pubs_ok sd1 \<and> keeps_pubs sd sd1 \<and> pub_find sd1 (hd_ref_guid header) = Some a"
  proof (cases "pub_find sd (hd_ref_guid header)")
    case None
    then have n: "SOSD_new_pub cx sd (hd_ref_guid header) = Inr (sd1, a)" using r(2) by simp
    show ?thesis using pubs_ok_new(1,2) [OF assms(1) None n] keeps_new [OF assms(1) None n] by simp
  next
    case (Some a')
    then show ?thesis using r(2) assms(1) by auto
  qed
  note d = pubs_okD [OF conjunct1 [OF 1] conjunct2 [OF conjunct2 [OF 1]]]
  obtain p2 where p2: "SOS_publish_from_buffer b1 (sd_pubs sd1 ! a) = Inr (b2, p2)" "sd2 = pub_store a p2 sd1"
    using r(3) d(1) by (auto simp: SOSD_apply_publish_def pub_ref_def res_simps)
  have 2: "pubs_ok sd2" unfolding p2(2) using pubs_ok_store [OF _ d(1)] 1 publish_from_keeps [OF p2(1)] by auto
  have "pubs_ok (pub_store a (p\<lparr>pb_sync_pending := 1\<rparr>) sd2)" if "pub_ref sd2 a = Inr p" for p
    using 2 that by (intro pubs_ok_store) (auto simp: pubs_ok_def pub_ref_def res_simps)
  then show ?thesis using r(4) 1 2 by (auto simp: p2(2) keeps_pubs_def)
qed

lemma handle_val_snaps_keeps:
  assumes "pubs_ok sd" and "SOSD_handle_val_snaps cx dbd clock sd buffer = Inr (sd', buffer')"
  shows "pubs_ok sd' \<and> keeps_pubs sd sd'"
proof -
  obtain b1 header off where u: "SOS_msg_unzip buffer 0 = Inr (b1, header, off)"
    using assms(2) by (auto simp: SOSD_handle_val_snaps_def res_simps)
  show ?thesis
  proof (cases "pub_find sd (hd_ref_guid header)")
    case None
    then show ?thesis using assms u by (auto simp: SOSD_handle_val_snaps_def res_simps)
  next
    case (Some a)
    note d = pubs_okD [OF assms(1) Some]
    obtain b2 q p where s: "SOS_val_snap_queue_from_buffer (cx_mincap cx) clock b1 (if dbd then None else Some (sd_snap_queue sd)) (Some (sd_pubs sd ! a)) =
        Inr (b2, q, Some p)" "pb_guid p = pb_guid (sd_pubs sd ! a)" "pb_lock p = pb_lock (sd_pubs sd ! a)"
      "\<exists>sq dq. sd' = (pub_store a p sd)\<lparr>sd_snap_queue := sq, sd_db := dq\<rparr>"
    proof -
      obtain b2 q pub where s: "SOS_val_snap_queue_from_buffer (cx_mincap cx) clock b1 (if dbd then None else Some (sd_snap_queue sd)) (Some (sd_pubs sd ! a)) =
          Inr (b2, q, pub)"
        "(let sd = (case q of None \<Rightarrow> sd | Some q \<Rightarrow> sd\<lparr>sd_snap_queue := q\<rparr>);
              sd = (case pub of None \<Rightarrow> sd | Some p \<Rightarrow> pub_store a p sd)
          in bindR (if dbd then Inr sd else db_put (cx_mincap cx) SOS_MSG_TYPE_VAL_SNAPS a sd) (\<lambda>sd. Inr (sd, Some b2))) = Inr (sd', buffer')"
        using assms(2) u Some d(1) by (auto simp: SOSD_handle_val_snaps_def pub_ref_def bindR_Inr_iff)
      obtain p where p: "pub = Some p" "pb_guid p = pb_guid (sd_pubs sd ! a)" "pb_lock p = pb_lock (sd_pubs sd ! a)"
        using snaps_from_keeps [OF s(1)] by blast
      have "\<exists>sq dq. sd' = (pub_store a p sd)\<lparr>sd_snap_queue := sq, sd_db := dq\<rparr>"
        using s(2) p(1) by (cases q; cases sd) (auto simp: Let_def res_simps pub_store_def dest!: db_put_sd split: if_splits)
      then show ?thesis using that s(1) p by blast
    qed
    have "pubs_ok (pub_store a p sd)" using pubs_ok_store [OF assms(1) d(1) s(2)] s(3) d(3) by simp
    then show ?thesis using s(4) by (auto simp: keeps_pubs_def)
  qed
qed

section \<open>Steps of the daemon\<close>

lemma forward_keeps: "SOSD_forward cx sd b = Inr sd' \<Longrightarrow> pubs_ok sd \<Longrightarrow> pubs_ok sd' \<and> keeps_pubs sd sd'"
  by (auto simp: SOSD_forward_def res_simps keeps_pubs_def split: if_splits option.splits)

lemma dispatch_local_keeps:
  assumes "pubs_ok sd" and "SOSD_dispatch_local cx dbd clock sd buffer = Inr sd'"
  shows "pubs_ok sd' \<and> keeps_pubs sd sd'"
proof -
  obtain b1 header off where u: "SOS_msg_unzip buffer 0 = Inr (b1, header, off)"
    using assms(2) by (auto simp: SOSD_dispatch_local_def res_simps)
  have "sd' = sd \<or> (\<exists>sd1 b2 b3. SOSD_forward cx sd1 b3 = Inr sd' \<and>
      (SOSD_handle_announce cx dbd sd b1 = Inr (sd1, b2) \<or> SOSD_handle_publish cx dbd sd b1 = Inr (sd1, b2) \<or>
       SOSD_handle_val_snaps cx dbd clock sd b1 = Inr (sd1, b3)))"
    using assms(2) u by (auto simp: SOSD_dispatch_local_def bindR_Inr_iff split: option.split_asm SOS_msg_type.split_asm)
  then consider "sd' = sd" | sd1 b3 where "SOSD_forward cx sd1 b3 = Inr sd'" "pubs_ok sd1 \<and> keeps_pubs sd sd1"
    using handle_announce_keeps [OF assms(1)] handle_publish_keeps [OF assms(1)] handle_val_snaps_keeps [OF assms(1)] by blast
  then show ?thesis
  proof cases
    case 1
    then show ?thesis using assms(1) by simp
  next
    case 2
    then have "pubs_ok sd' \<and> keeps_pubs sd1 sd'" using forward_keeps by blast
    then show ?thesis using 2 keeps_trans by blast
  qed
qed

lemma local_sync_keeps:
  assumes "pubs_ok sd" and "SOSD_local_sync_step cx dbd clock sd = Inr sd'"
  shows "pubs_ok sd' \<and> keeps_pubs sd sd'"
proof -
  obtain p bs where pop: "pipe_pop_eager (cx_mincap cx) SOS_buffer_init (qu_pipe (sd_local sd)) 1 = Inr (p, bs)"
    using assms(2) by (cases "pipe_pop_eager (cx_mincap cx) SOS_buffer_init (qu_pipe (sd_local sd)) 1") (auto simp: SOSD_local_sync_step_def Let_def)
  consider "sd' = sd" | q buffer where "SOSD_dispatch_local cx dbd clock (sd\<lparr>sd_local := q\<rparr>) buffer = Inr sd'"
    using assms(2) pop by (cases bs) (auto simp: SOSD_local_sync_step_def Let_def checkR_Inr_iff)
  then show ?thesis
  proof cases
    case 2
    from dispatch_local_keeps [OF _ this] assms(1) have "pubs_ok sd' \<and> keeps_pubs (sd\<lparr>sd_local := q\<rparr>) sd'" by simp
    then show ?thesis by (simp add: keeps_pubs_def)
  qed (use assms(1) in simp)
qed

lemma cache_size_keeps:
  assumes "pubs_ok sd" and "SOSD_handle_cache_size sd msg = Inr (sd', msg', reply)"
  shows "pubs_ok sd' \<and> keeps_pubs sd sd'"
proof -
  have "sd' = sd \<or> (\<exists>a p c d. pub_ref sd a = Inr p \<and> sd' = pub_store a (p\<lparr>pb_cache := Some c, pb_cache_head := 0, pb_cache_depth := d\<rparr>) sd)"
    using assms(2) by (simp add: SOSD_handle_cache_size_def Let_def bindR_Inr_iff checkR_Inr_iff split: option.split_asm, fast)
  then show ?thesis
    using assms(1) by (auto simp: keeps_pubs_def pub_ref_def res_simps intro!: pubs_ok_store) (auto simp: pubs_ok_def)
qed

lemma sensitivity_keeps:
  assumes "pubs_ok sd" and "SOSD_handle_sensitivity cx sd msg = Inr (sd', msg', reply)"
  shows "pubs_ok sd' \<and> keeps_pubs sd sd'"
proof -
  have "\<exists>g l. sd' = sd\<lparr>sd_guid := g, sd_sense_list := l\<rparr>"
  proof -
    have "sd' = sd \<or> (\<exists>g l. sd' = sd\<lparr>sd_guid := g, sd_sense_list := l\<rparr>)"
      using assms(2) by (auto simp: SOSD_handle_sensitivity_def bindR_Inr_iff split: if_split_asm)
    moreover have "sd = sd\<lparr>sd_guid := sd_guid sd, sd_sense_list := sd_sense_list sd\<rparr>" by simp
    ultimately show ?thesis by metis
  qed
  then show ?thesis using assms(1) by (auto simp: keeps_pubs_def pub_find_def)
qed

text \<open>A handler that is not modelled is taken to leave the table alone.\<close>

definition others_keep :: "(SOS_msg_type \<Rightarrow> SOSD \<Rightarrow> SOS_buffer \<Rightarrow> (SOSD \<times> SOS_buffer \<times> SOS_buffer option) res) \<Rightarrow> bool" where
  "others_keep other \<longleftrightarrow>
     (\<forall>t sd b sd' b' r. other t sd b = Inr (sd', b', r) \<and> pubs_ok sd \<longrightarrow> pubs_ok sd' \<and> keeps_pubs sd sd')"

lemma listen_dispatch_keeps:
  assumes "pubs_ok sd" and "others_keep other" and "SOSD_listen_dispatch cx server_uid other t sd b = Inr (sd', b', reply)"
  shows "pubs_ok sd' \<and> keeps_pubs sd sd'"
proof -
  have plain: "pubs_ok (sd\<lparr>sd_guid := g\<rparr>) \<and> keeps_pubs sd (sd\<lparr>sd_guid := g\<rparr>)" "pubs_ok (sd\<lparr>sd_local := l\<rparr>) \<and> keeps_pubs sd (sd\<lparr>sd_local := l\<rparr>)"
      "pubs_ok (sd\<lparr>sd_running := r1, sd_shutdown := r2\<rparr>) \<and> keeps_pubs sd (sd\<lparr>sd_running := r1, sd_shutdown := r2\<rparr>)"
      "pubs_ok (sd\<lparr>sd_feedback := fb\<rparr>) \<and> keeps_pubs sd (sd\<lparr>sd_feedback := fb\<rparr>)"
      "pubs_ok sd \<and> keeps_pubs sd sd" for g l r1 r2 fb
    using assms(1) by (auto simp: keeps_pubs_def pub_find_def)
  have q: "pubs_ok sd1 \<and> keeps_pubs sd sd1" if "SOSD_queue_local cx sd b = Inr (sd1, c, r)" for sd1 c r
    using that plain by (auto simp: SOSD_queue_local_def bindR_Inr_iff)
  have s: "pubs_ok sd1 \<and> keeps_pubs sd sd1" if "SOSD_handle_shutdown sd b = Inr (sd1, c, r)" for sd1 c r
    using that plain by (auto simp: SOSD_handle_shutdown_def bindR_Inr_iff)
  have tp: "pubs_ok sd1 \<and> keeps_pubs sd sd1" if "SOSD_handle_triggerpull cx sd b = Inr (sd1, c, r)" for sd1 c r
    using that plain by (auto simp: SOSD_handle_triggerpull_def SOSD_cloud_handle_triggerpull_def bindR_Inr_iff)
  have o: "pubs_ok sd1 \<and> keeps_pubs sd sd1" if "other u sd b = Inr (sd1, c, r)" for u sd1 c r
    using that assms(1,2) unfolding others_keep_def by blast
  show ?thesis
  proof (cases t)
    case None
    then show ?thesis using assms(3) plain by (auto simp: SOSD_listen_dispatch_def bindR_Inr_iff)
  next
    case (Some m)
    then show ?thesis
      using assms(3) plain q s tp o cache_size_keeps [OF assms(1)] sensitivity_keeps [OF assms(1)]
      by (cases m) (simp_all add: SOSD_listen_dispatch_def bindR_Inr_iff, (auto; fail)+)
  qed
qed

lemma listen_keeps:
  assumes "pubs_ok sd" and "others_keep other" and "SOSD_listen_step cx server_uid other recvs sd buffer = Inr (sd', buffer', recvs', reply)"
  shows "pubs_ok sd' \<and> keeps_pubs sd sd'"
proof -
  obtain b0 rs i where rcv: "SOS_target_recv_msg (sd_shutdown sd) recvs (Some (SOS_buffer_wipe buffer)) = Inr (Some b0, rs, i)"
    using assms(3) by (auto simp: SOSD_listen_step_def bindR_Inr_iff split: option.split_asm)
  show ?thesis
  proof (cases "0 \<le> i \<and> i < 24")
    case True
    then show ?thesis using assms(1,3) rcv by (simp add: SOSD_listen_step_def)
  next
    case False
    then obtain t b1 b2 r where "SOSD_listen_dispatch cx server_uid other t sd b1 = Inr (sd', b2, r)"
      using assms(3) rcv by (auto simp: SOSD_listen_step_def bindR_Inr_iff)
    then show ?thesis by (rule listen_dispatch_keeps [OF assms(1,2)])
  qed
qed

text \<open>The database thread takes at most 256 tasks at a time.\<close>

definition SOSD_db_sync_take :: "nat \<Rightarrow> SOSD \<Rightarrow> (SOSD \<times> SOSD_db_task list) res" where
  "SOSD_db_sync_take mincap sd =
     (let q = sd_db sd; queue_depth = (if qu_elem_count q < 256 then qu_elem_count q else 256)
      in checkR (\<not> qu_sync_lock q) Deadlock
           (if 0 < queue_depth
            then bindR (pipe_pop_eager mincap \<lparr>tk_type = 0, tk_ref = 0\<rparr> (qu_pipe q) (nat queue_depth)) (\<lambda>(p, tasks).
                 Inr (sd\<lparr>sd_db := q\<lparr>qu_pipe := p, qu_elem_count := qu_elem_count q - int (length tasks), qu_sync_lock := (tasks = [])\<rparr>\<rparr>, tasks))
            else Inr (sd, [])))"

text \<open>
  The interleaving of the threads: a round of the listener, a round of the local thread, a batch
  for the database. What the database does with a batch is its own: it may change the contents of
  handles, but not their GUIDs, it leaves them unlocked, and it may answer queries.
\<close>

inductive daemon_step ::
    "SOS_ctx \<Rightarrow> bool \<Rightarrow> i32 \<Rightarrow> (SOS_msg_type \<Rightarrow> SOSD \<Rightarrow> SOS_buffer \<Rightarrow> (SOSD \<times> SOS_buffer \<times> SOS_buffer option) res) \<Rightarrow>
     SOSD \<times> SOS_buffer \<Rightarrow> SOSD \<times> SOS_buffer \<Rightarrow> bool"
  for cx dbd server_uid other
where
  listen: "sd_running sd \<Longrightarrow> SOSD_listen_step cx server_uid other recvs sd buffer = Inr (sd', buffer', recvs', reply) \<Longrightarrow>
    daemon_step cx dbd server_uid other (sd, buffer) (sd', buffer')"
| local: "SOSD_local_sync_step cx dbd clock sd = Inr sd' \<Longrightarrow> daemon_step cx dbd server_uid other (sd, buffer) (sd', buffer)"
| take: "SOSD_db_sync_take (cx_mincap cx) sd = Inr (sd', tasks) \<Longrightarrow> daemon_step cx dbd server_uid other (sd, buffer) (sd', buffer)"
| database: "length pubs = length (sd_pubs sd) \<Longrightarrow>
    (\<And>a. a < length pubs \<Longrightarrow> pb_guid (pubs ! a) = pb_guid (sd_pubs sd ! a) \<and> \<not> pb_lock (pubs ! a)) \<Longrightarrow>
    daemon_step cx dbd server_uid other (sd, buffer) (sd\<lparr>sd_pubs := pubs, sd_snap_queue := q, sd_feedback := fb\<rparr>, buffer)"

inductive_cases daemon_stepE [consumes 1, case_names listen local take database]: "daemon_step cx dbd server_uid other (sd, buffer) (sd', buffer')"

lemma daemon_step_keeps:
  assumes "daemon_step cx dbd server_uid other (sd, buffer) (sd', buffer')" and "others_keep other" and "pubs_ok sd"
  shows "pubs_ok sd' \<and> keeps_pubs sd sd'"
  using assms(1)
proof (cases rule: daemon_stepE)
  case listen
  then show ?thesis using listen_keeps [OF assms(3,2)] by blast
next
  case local
  then show ?thesis using local_sync_keeps [OF assms(3)] by blast
next
  case take
  then have "sd' = sd \<or> (\<exists>q. sd' = sd\<lparr>sd_db := q\<rparr>)"
    by (auto simp: SOSD_db_sync_take_def Let_def checkR_Inr_iff bindR_Inr_iff split: if_split_asm)
  then show ?thesis using assms(3) by (auto simp: keeps_pubs_def)
next
  case (database pubs q fb)
  have f: "pub_find sd' g = pub_find sd g" for g using database by (simp add: pub_find_def)
  show ?thesis
    using assms(3) database f unfolding pubs_ok_def keeps_pubs_def by simp
qed

lemma daemon_steps_keep:
  assumes "(daemon_step cx dbd server_uid other)\<^sup>*\<^sup>* s s'" and "others_keep other" and "pubs_ok (fst s)"
  shows "pubs_ok (fst s') \<and> keeps_pubs (fst s) (fst s')"
  using assms(1)
proof (induction rule: rtranclp_induct)
  case base
  then show ?case using assms(3) by simp
next
  case (step s1 s2)
  then have "pubs_ok (fst s2) \<and> keeps_pubs (fst s1) (fst s2)"
    using daemon_step_keeps [of cx dbd server_uid other "fst s1" "snd s1" "fst s2" "snd s2"] assms(2) by simp
  then show ?case using step.IH keeps_trans by blast
qed

lemma SOSD_init_pubs_ok: "SOSD_init mincap n r = Inr sd \<Longrightarrow> pubs_ok sd"
  using qhashtbl_new_ok(1,2) by (fastforce simp: SOSD_init_def bindR_Inr_iff pubs_ok_def pub_find_lookup split: option.split_asm)

end
