(* ===== verification/SOS_Delivery.thy ===== *)
theory SOS_Delivery
  imports SOS_Daemon
begin

text \<open>
  From the client to the daemon's queues: what the daemon holds after the messages that a call of
  \<open>SOS_publish\<close> sends have been received, sorted and handled (\<open>sos.c\<close>, \<open>sosd.c\<close>).
\<close>

section \<open>Queues\<close>

definition q_ok :: "nat \<Rightarrow> 'a SOS_queue \<Rightarrow> bool" where
  "q_ok mincap q \<longleftrightarrow> ring_ok mincap (qu_pipe q) \<and> pp_elem_size (qu_pipe q) = 1 \<and>
     qu_elem_count q = int (length (pipe_content (qu_pipe q))) \<and> \<not> qu_sync_lock q"

abbreviation q_list :: "'a SOS_queue \<Rightarrow> 'a list" where
  "q_list q \<equiv> pipe_content (qu_pipe q)"

lemma queue_put_ok:
  assumes "q_ok mincap q" and "length (q_list q) + 2 \<le> mincap"
  shows "\<exists>q'. queue_put mincap x q = Inr q' \<and> q_ok mincap q' \<and> q_list q' = q_list q @ [x]"
proof -
  have q: "ring_ok mincap (qu_pipe q)" "pp_elem_size (qu_pipe q) = 1" using assms(1) by (auto simp: q_ok_def)
  then have "pp_bufend (qu_pipe q) = mincap" by (simp add: ring_ok_def)
  then have fits: "length (q_list q) + length [x] \<le> pp_bufend (qu_pipe q) - pp_elem_size (qu_pipe q)"
    using q(2) assms(2) by simp
  obtain p where p: "pipe_push mincap x (qu_pipe q) [x] 1 = Inr p" "ring_ok mincap p" "pipe_content p = q_list q @ [x]"
      "pipe_conf p = pipe_conf (qu_pipe q)"
    using pipe_q.push_ok [OF q(1), of "[x]" x] q(2) fits by (auto simp: pipe_conf_def)
  have "length (pipe_content p) = Suc (length (q_list q))" by (simp only: p(3) length_append) simp
  with p q show ?thesis
    using assms(1) by (simp add: queue_put_def q_ok_def pipe_conf_def del: length_pipe_content)
qed

lemma queue_take_ok:
  assumes "q_ok mincap q" and "q_list q = x # xs"
  shows "\<exists>p. pipe_pop_eager mincap junk (qu_pipe q) 1 = Inr (p, [x]) \<and>
    q_ok mincap (q\<lparr>qu_pipe := p, qu_elem_count := qu_elem_count q - 1\<rparr>) \<and> pipe_content p = xs"
proof -
  have q: "ring_ok mincap (qu_pipe q)" "pp_elem_size (qu_pipe q) = 1" "qu_elem_count q = int (length (q_list q))" "\<not> qu_sync_lock q"
    using assms(1) by (auto simp: q_ok_def)
  obtain p where p: "pipe_pop_eager mincap junk (qu_pipe q) 1 = Inr (p, take (1 * 1) (q_list q))" "ring_ok mincap p"
      "pipe_content p = drop (1 * 1) (q_list q)" "pp_elem_size p = 1"
    using pipe_q.pop_ok [OF q(1), of 1 junk] assms(2) q(2) by (auto simp: pipe_conf_def)
  have "int (length (q_list q)) - 1 = int (length (pipe_content p))"
    unfolding p(3) assms(2) by simp
  then show ?thesis
    using p q assms(2) by (intro exI [of _ p]) (simp add: q_ok_def del: length_pipe_content)
qed

lemma new_queue_ok:
  assumes "2 \<le> mincap" and "mincap < 2 ^ 63"
  shows "\<exists>q. new_queue mincap junk = Inr q \<and> q_ok mincap q \<and> q_list q = []"
proof -
  obtain p where "SOS_pipe_init mincap junk 1 = Inr (Some p)" "ring_ok mincap p" "pipe_content p = []" "pp_elem_size p = 1"
    using SOS_pipe_init_ok [of mincap 1 junk] assms by auto
  then show ?thesis by (simp add: new_queue_def q_ok_def flip: length_pipe_content)
qed

section \<open>The daemon between two steps\<close>

definition daemon_ok :: "nat \<Rightarrow> SOSD \<Rightarrow> bool" where
  "daemon_ok mincap sd \<longleftrightarrow> pubs_ok sd \<and> q_ok mincap (sd_local sd) \<and> q_ok mincap (sd_cloud_send sd) \<and> q_ok mincap (sd_db sd) \<and>
     queue_ok mincap (sd_snap_queue sd)"

text \<open>Room for \<open>k\<close> more elements in every queue but the one of the listener.\<close>

definition room :: "nat \<Rightarrow> nat \<Rightarrow> SOSD \<Rightarrow> bool" where
  "room mincap k sd \<longleftrightarrow> length (q_list (sd_cloud_send sd)) + k + 1 \<le> mincap \<and> length (q_list (sd_db sd)) + k + 1 \<le> mincap"

lemma SOSD_init_ok:
  assumes "2 \<le> mincap" and "mincap < 2 ^ 63"
  shows "\<exists>sd. SOSD_init mincap n r = Inr sd \<and> daemon_ok mincap sd \<and> sd_pubs sd = [] \<and> (\<forall>g. pub_find sd g = None) \<and>
    q_list (sd_local sd) = [] \<and> q_list (sd_cloud_send sd) = [] \<and> q_list (sd_db sd) = [] \<and>
    pipe_content (sq_pipe (sd_snap_queue sd)) = [] \<and> q_ok mincap (sd_feedback sd) \<and> q_list (sd_feedback sd) = [] \<and> sd_sense_list sd = [] \<and> sd_guid sd = SOSD_guid_range n r \<and> \<not> sd_shutdown sd \<and> sd_running sd"
proof -
  obtain tbl :: "nat qhashtbl" where t: "qhashtbl_new (int SOS_DEFAULT_TABLE_SIZE) = Some tbl"
    by (simp add: qhashtbl_new_def SOS_DEFAULT_TABLE_SIZE_def)
  obtain l where l: "new_queue mincap SOS_buffer_init = Inr l" "q_ok mincap l" "q_list l = []"
    using new_queue_ok [OF assms, of SOS_buffer_init] by blast
  obtain d where d: "new_queue mincap \<lparr>tk_type = 0, tk_ref = 0\<rparr> = Inr d" "q_ok mincap d" "q_list d = []"
    using new_queue_ok [OF assms, of "\<lparr>tk_type = 0, tk_ref = 0\<rparr>"] by blast
  obtain s where s: "new_queue mincap zero_snap = Inr s" "q_ok mincap s" "q_list s = []"
    using new_queue_ok [OF assms, of zero_snap] by blast
  let ?nothing = "Feedback_Payload \<lparr>pl_handle = None, pl_size = 0, pl_data = None\<rparr>"
  obtain fb where fb: "new_queue mincap ?nothing = Inr fb" "q_ok mincap fb" "q_list fb = []"
    using new_queue_ok [OF assms, of ?nothing] by blast
  obtain sd where sd: "SOSD_init mincap n r = Inr sd"
      "sd = \<lparr>sd_pubs = [], sd_pub_table = tbl, sd_pub_list = [], sd_guid = SOSD_guid_range n r,
         sd_local = l, sd_cloud_send = l, sd_db = d, sd_snap_queue = \<lparr>sq_pipe = qu_pipe s, sq_elem_count = 0, sq_sync_lock = False\<rparr>,
         sd_sense_list = [], sd_feedback = fb, sd_cloud_targets = replicate (nat (sint n)) False, sd_running = True, sd_shutdown = False, sd_queries = []\<rparr>"
    using t l(1) d(1) s(1) fb(1) by (simp add: SOSD_init_def)
  have "pubs_ok sd" by (rule SOSD_init_pubs_ok [OF sd(1)])
  moreover have "queue_ok mincap (sd_snap_queue sd)" using s(2,3) by (simp add: sd(2) q_ok_def queue_ok_def flip: length_pipe_content)
  moreover have "pub_find sd g = None" for g using qhashtbl_new_ok(2) [OF t] by (simp add: sd(2) pub_find_lookup)
  moreover have sel: "sd_local sd = l" "sd_cloud_send sd = l" "sd_db sd = d" "sd_pubs sd = []" "sq_pipe (sd_snap_queue sd) = qu_pipe s"
      "sd_guid sd = SOSD_guid_range n r" "\<not> sd_shutdown sd" "sd_running sd" "sd_feedback sd = fb" "sd_sense_list sd = []"
    by (simp_all add: sd(2))
  ultimately show ?thesis
    using l(2,3) d(2,3) s(3) fb(2,3) sd(1) by (intro exI [of _ sd] conjI allI) (simp_all add: daemon_ok_def)
qed

section \<open>Receiving and sorting\<close>

lemma pack_ack_ok: "fresh_msg reply \<Longrightarrow> \<exists>r. SOSD_PACK_ACK reply = Inr r \<and> is_msg (msg_header_of SOS_MSG_TYPE_ACK 0 0) [] r"
  using write_msg_is_msg [OF _ appends_skip, of reply "msg_header_of SOS_MSG_TYPE_ACK 0 0"]
  by (auto simp: SOSD_PACK_ACK_def write_msg_def msg_header_of_def Let_def MSG_LIMIT_def)

lemma fresh_msg_wiped: "fresh_msg b \<Longrightarrow> fresh_msg (SOS_buffer_wipe b)"
  by (auto simp: fresh_msg_def building_def SOS_buffer_wipe_def buffer_wf_def packed_prefix_def)

lemma fresh_msg_unlocking [simp]: "fresh_msg (SOS_buffer_init_sized_locking SOS_DEFAULT_BUFFER_MAX l)"
  using fresh_building [of l] by (simp add: fresh_msg_def) (simp add: SOS_buffer_init_sized_locking_def)

text \<open>The bytes of a message, in any pieces, as the socket hands them over.\<close>

definition stream_of :: "recv_result list \<Rightarrow> SOS_buffer \<Rightarrow> bool" where
  "stream_of rs b \<longleftrightarrow> stream_ok rs \<and> stream_bytes rs = take (buf_len b) (buf_data b) \<and>
     (\<exists>bs rs0. rs = Recv bs # rs0 \<and> 24 \<le> length bs)"

lemma listen_queues:
  assumes "is_msg (msg_header_of t from ref) e sent" and "24 + length e \<le> MSG_LIMIT" and "stream_of rs sent" and "fresh_msg buffer"
    and "t \<in> {SOS_MSG_TYPE_ANNOUNCE, SOS_MSG_TYPE_PUBLISH, SOS_MSG_TYPE_VAL_SNAPS}"
    and "\<not> sd_shutdown sd" and "q_ok (cx_mincap cx) (sd_local sd)" and "length (q_list (sd_local sd)) + 2 \<le> cx_mincap cx"
  shows "\<exists>q b buffer' reply. SOSD_listen_step cx server_uid other rs sd buffer = Inr (sd\<lparr>sd_local := q\<rparr>, buffer', [], Some reply) \<and>
    q_ok (cx_mincap cx) q \<and> q_list q = q_list (sd_local sd) @ [b] \<and> is_msg (msg_header_of t from ref) e b \<and> fresh_msg buffer'"
proof -
  obtain bs rs0 where rs: "stream_ok rs" "stream_bytes rs = take (buf_len sent) (buf_data sent)" "24 \<le> length bs" "rs = Recv bs # rs0"
    using assms(3) by (auto simp: stream_of_def)
  obtain r where r: "SOS_target_recv_msg False rs (Some (SOS_buffer_wipe buffer)) = Inr (Some r, [], int (buf_len sent))"
      "is_msg (msg_header_of t from ref) e r"
    using recv_whole_msg [OF assms(1,2) rs fresh_msg_wiped [OF assms(4)]] by blast
  have n: "\<not> int (buf_len sent) < 24" using is_msg_len [OF assms(1)] by simp
  obtain b where b: "SOS_msg_unzip r 0 = Inr (b, (msg_header_of t from ref)\<lparr>hd_msg_size := word_of_nat (24 + length e)\<rparr>, 24)"
      "is_msg (msg_header_of t from ref) e b"
    using unzip_is_msg [OF r(2)] by blast
  obtain q where q: "queue_put (cx_mincap cx) b (sd_local sd) = Inr q" "q_ok (cx_mincap cx) q" "q_list q = q_list (sd_local sd) @ [b]"
    using queue_put_ok [OF assms(7,8)] by blast
  obtain reply where a: "SOSD_PACK_ACK (SOS_buffer_init_sized_locking SOS_DEFAULT_BUFFER_MAX False) = Inr reply"
    using pack_ack_ok [OF fresh_msg_unlocking] by blast
  have "SOSD_queue_local cx sd b = Inr (sd\<lparr>sd_local := q\<rparr>, SOS_buffer_init_sized_locking SOS_DEFAULT_BUFFER_MAX False, Some reply)"
    using q(1) a by (simp add: SOSD_queue_local_def)
  moreover have "SOSD_listen_dispatch cx server_uid other (enum_decode SOS_msg_type_vals (hd_msg_type (msg_header_of t from ref))) sd b =
      SOSD_queue_local cx sd b"
    using assms(5) by (auto simp: msg_header_of_def SOSD_listen_dispatch_def SOS_msg_type_enum.decode_code)
  ultimately have "SOSD_listen_step cx server_uid other rs sd buffer =
      Inr (sd\<lparr>sd_local := q\<rparr>, SOS_buffer_init_sized_locking SOS_DEFAULT_BUFFER_MAX False, [], Some reply)"
    using r(1) n b(1) assms(6) by (simp add: SOSD_listen_step_def)
  then show ?thesis using q b(2) fresh_msg_unlocking by blast
qed

section \<open>Handling\<close>

lemma forward_ok:
  assumes "\<not> buf_lock b" and "q_ok (cx_mincap cx) (sd_cloud_send sd)" and "length (q_list (sd_cloud_send sd)) + 2 \<le> cx_mincap cx"
  shows "\<exists>q. SOSD_forward cx sd (Some b) = Inr (sd\<lparr>sd_cloud_send := q\<rparr>) \<and> q_ok (cx_mincap cx) q \<and>
    q_list q = q_list (sd_cloud_send sd) @ (if cx_role cx = SOS_ROLE_LISTENER then [b] else [])"
proof (cases "cx_role cx = SOS_ROLE_LISTENER")
  case True
  then show ?thesis using queue_put_ok [OF assms(2,3), of b] by (auto simp: SOSD_forward_def)
next
  case False
  then have "SOSD_forward cx sd (Some b) = Inr (sd\<lparr>sd_cloud_send := sd_cloud_send sd\<rparr>)"
    using SOS_buffer_destroy_free [OF assms(1)] by (simp add: SOSD_forward_def)
  then show ?thesis using False assms(2) by (intro exI [of _ "sd_cloud_send sd"]) simp
qed

lemma db_put_ok:
  assumes "q_ok mincap (sd_db sd)" and "length (q_list (sd_db sd)) + 2 \<le> mincap"
  shows "\<exists>q. db_put mincap t a sd = Inr (sd\<lparr>sd_db := q\<rparr>) \<and> q_ok mincap q \<and>
    q_list q = q_list (sd_db sd) @ [\<lparr>tk_type = enum_code SOS_msg_type_vals t, tk_ref = a\<rparr>]"
  using queue_put_ok [OF assms, of "\<lparr>tk_type = enum_code SOS_msg_type_vals t, tk_ref = a\<rparr>"] by (auto simp: db_put_def)

text \<open>What handling one message adds to the queues behind.\<close>

definition handled :: "SOS_ctx \<Rightarrow> SOS_msg_type \<Rightarrow> nat \<Rightarrow> SOS_buffer \<Rightarrow> SOSD \<Rightarrow> SOSD \<Rightarrow> bool" where
  "handled cx t a b sd sd' \<longleftrightarrow>
     daemon_ok (cx_mincap cx) sd' \<and> sd_local sd' = sd_local sd \<and> sd_shutdown sd' = sd_shutdown sd \<and>
     q_list (sd_db sd') = q_list (sd_db sd) @ [\<lparr>tk_type = enum_code SOS_msg_type_vals t, tk_ref = a\<rparr>] \<and>
     q_list (sd_cloud_send sd') = q_list (sd_cloud_send sd) @ (if cx_role cx = SOS_ROLE_LISTENER then [b] else [])"

lemma handledI:
  assumes "pubs_ok sd'" and "daemon_ok (cx_mincap cx) sd" and "queue_ok (cx_mincap cx) (sd_snap_queue sd')"
    and "sd_local sd' = sd_local sd" and "sd_shutdown sd' = sd_shutdown sd" and "sd_db sd' = dq" and "sd_cloud_send sd' = cq"
    and "q_ok (cx_mincap cx) dq" and "q_list dq = q_list (sd_db sd) @ [\<lparr>tk_type = enum_code SOS_msg_type_vals t, tk_ref = a\<rparr>]"
    and "q_ok (cx_mincap cx) cq" and "q_list cq = q_list (sd_cloud_send sd) @ (if cx_role cx = SOS_ROLE_LISTENER then [b] else [])"
  shows "handled cx t a b sd sd'"
  using assms by (simp add: handled_def daemon_ok_def)

lemma dispatch_start:
  assumes "is_msg (msg_header_of t from ref) e b0"
  shows "\<exists>b h. SOS_msg_unzip b0 0 = Inr (b, h, 24) \<and> is_msg (msg_header_of t from ref) e b \<and>
    enum_decode SOS_msg_type_vals (hd_msg_type h) = Some t \<and> hd_ref_guid h = ref"
proof -
  obtain b where "SOS_msg_unzip b0 0 = Inr (b, (msg_header_of t from ref)\<lparr>hd_msg_size := word_of_nat (24 + length e)\<rparr>, 24)"
      "is_msg (msg_header_of t from ref) e b"
    using unzip_is_msg [OF assms] by blast
  then show ?thesis by (auto simp: msg_header_of_def SOS_msg_type_enum.decode_code)
qed

subsection \<open>Announcements\<close>

lemma elem_taken_rest [simp]:
  "pb_sync_pending (elem_taken k d pub) = pb_sync_pending pub" "pb_cache (elem_taken k d pub) = pb_cache pub"
  "pb_cache_head (elem_taken k d pub) = pb_cache_head pub" "pb_cache_depth (elem_taken k d pub) = pb_cache_depth pub"
  by (simp_all add: elem_taken_def Let_def)

lemma elems_fold_rest:
  "pb_sync_pending (fold (\<lambda>(k, d). elem_taken k d) kds pub) = pb_sync_pending pub \<and>
   pb_cache (fold (\<lambda>(k, d). elem_taken k d) kds pub) = pb_cache pub \<and>
   pb_cache_head (fold (\<lambda>(k, d). elem_taken k d) kds pub) = pb_cache_head pub"
  by (induction kds arbitrary: pub) auto

lemma announced_rest:
  "pb_sync_pending (announced g pub old) = pb_sync_pending old" "pb_cache_head (announced g pub old) = pb_cache_head old"
  "pb_cache old = None \<Longrightarrow> pb_cache (announced g pub old) = alloc_cache (pb_cache_depth pub)"
  by (simp_all add: announced_def elems_fold_rest grow_elems_def meta_received_def Let_def)

text \<open>A handle the daemon has just made.\<close>

definition new_handle :: "SOS_pub \<Rightarrow> bool" where
  "new_handle pub \<longleftrightarrow> fresh_handle pub \<and> pb_sync_pending pub = 0 \<and> pb_cache_head pub = 0"

lemma SOSD_new_pub_ok:
  assumes "pool_ready 1 (sd_guid sd)" and "cx_role cx \<noteq> SOS_ROLE_CLIENT"
  shows "\<exists>sd' a. SOSD_new_pub cx sd g = Inr (sd', a) \<and> a = length (sd_pubs sd) \<and> sd_pubs sd' ! a \<in> {p. new_handle p \<and> pb_guid p = g} \<and>
    (\<exists>pool pubs tbl. sd' = sd\<lparr>sd_guid := pool, sd_pubs := pubs, sd_pub_table := tbl\<rparr>)"
proof -
  have "pool_ready (Suc 0) (sd_guid sd)" using assms(1) by simp
  from pool_ready_next [OF this, of "cx_send cx" "cx_role cx" "cx_my_guid cx" "cx_offline_test_mode cx"] assms(2)
  obtain pool pub where p: "SOS_pub_init cx (sd_guid sd) (guid_str g) SOS_NATURE_DEFAULT = Inr (pool, pub)" "pb_sync_pending pub = 0" "pb_cache_head pub = 0"
    by (auto simp: SOS_pub_init_def SOS_pub_init_sized_def qhashtbl_new_def SOS_DEFAULT_TABLE_SIZE_def)
  have "fresh_handle (pub\<lparr>pb_guid_str := s, pb_guid := g\<rparr>)" for s
    using SOS_pub_init_fresh [OF p(1)] by (simp add: fresh_handle_def pub_strings_def)
  then show ?thesis
    using p by (simp add: SOSD_new_pub_def Let_def new_handle_def nth_append) blast
qed

lemma announced_ready:
  assumes "well_defined pub" and "new_handle old" and dpub_def: "dpub = (announced (pb_guid pub) pub old)\<lparr>pb_announced := s\<rparr>"
  shows "mirrors pub dpub" and "pb_sync_pending dpub = 0" and "adds_to_cache dpub \<longrightarrow> cache_ok dpub"
    and "typed_elems (pub_used pub) \<Longrightarrow> types_match (pub_used pub) dpub"
proof -
  have f: "fresh_handle old" using assms(2) by (simp add: new_handle_def)
  have m: "mirrors pub (announced (pb_guid pub) pub old)" by (rule announced_mirrors [OF assms(1) f])
  have "SOS_pub_search (p\<lparr>pb_announced := s\<rparr>) n = SOS_pub_search p n" for p n by (simp add: SOS_pub_search_def)
  then show md: "mirrors pub dpub" using m by (simp add: mirrors_def dpub_def)
  show "pb_sync_pending dpub = 0" using assms(2) by (simp add: dpub_def announced_rest new_handle_def)
  have "pb_cache dpub = alloc_cache (pb_cache_depth dpub)" "pb_cache_head dpub = 0"
    using f assms(2) md by (auto simp: dpub_def announced_rest new_handle_def fresh_handle_def mirrors_def)
  then show "adds_to_cache dpub \<longrightarrow> cache_ok dpub"
    by (auto simp: adds_to_cache_def cache_ok_def alloc_cache_def)
  show "types_match (pub_used pub) dpub" if "typed_elems (pub_used pub)"
    using announced_types_match [OF assms(1) f that] by (simp add: types_match_def dpub_def)
qed

lemma dispatch_announce:
  assumes "daemon_ok (cx_mincap cx) sd" and "pub_find sd (pb_guid pub) = None" and "well_defined pub"
    and "is_msg (msg_header_of SOS_MSG_TYPE_ANNOUNCE from (pb_guid pub)) (announce_body pub) b0"
    and "cx_role cx \<noteq> SOS_ROLE_CLIENT" and "pool_ready 1 (sd_guid sd)" and "room (cx_mincap cx) 1 sd"
  shows "\<exists>sd' a old b. SOSD_dispatch_local cx False clock sd b0 = Inr sd' \<and> handled cx SOS_MSG_TYPE_ANNOUNCE a b sd sd' \<and>
    pub_find sd' (pb_guid pub) = Some a \<and> new_handle old \<and> sd_pubs sd' ! a = (announced (pb_guid pub) pub old)\<lparr>pb_announced := SOSD_PUB_ANN_DIRTY\<rparr> \<and>
    sd_snap_queue sd' = sd_snap_queue sd \<and> is_msg (msg_header_of SOS_MSG_TYPE_ANNOUNCE from (pb_guid pub)) (announce_body pub) b"
proof -
  let ?m = "cx_mincap cx" and ?g = "pb_guid pub" and ?h = "msg_header_of SOS_MSG_TYPE_ANNOUNCE from (pb_guid pub)"
  have ok: "pubs_ok sd" "q_ok ?m (sd_cloud_send sd)" "q_ok ?m (sd_db sd)" "queue_ok ?m (sd_snap_queue sd)"
    using assms(1) by (auto simp: daemon_ok_def)
  have rm: "length (q_list (sd_cloud_send sd)) + 2 \<le> ?m" "length (q_list (sd_db sd)) + 2 \<le> ?m" using assms(7) by (auto simp: room_def)
  obtain b1 h1 where b1: "SOS_msg_unzip b0 0 = Inr (b1, h1, 24)" "is_msg ?h (announce_body pub) b1"
      "enum_decode SOS_msg_type_vals (hd_msg_type h1) = Some SOS_MSG_TYPE_ANNOUNCE" "hd_ref_guid h1 = ?g"
    using dispatch_start [OF assms(4)] by blast
  obtain b2 h2 where b2: "SOS_msg_unzip b1 0 = Inr (b2, h2, 24)" "is_msg ?h (announce_body pub) b2" "hd_ref_guid h2 = ?g"
    using dispatch_start [OF b1(2)] by blast
  obtain sd1 a where sd1: "SOSD_new_pub cx sd ?g = Inr (sd1, a)" "a = length (sd_pubs sd)" "new_handle (sd_pubs sd1 ! a)"
      "\<exists>pool pubs tbl. sd1 = sd\<lparr>sd_guid := pool, sd_pubs := pubs, sd_pub_table := tbl\<rparr>"
    using SOSD_new_pub_ok [OF assms(6,5), of ?g] by blast
  note new = pubs_ok_new [OF ok(1) assms(2) sd1(1)]
  let ?old = "sd_pubs sd1 ! a"
  have f: "fresh_handle ?old" using sd1(3) by (simp add: new_handle_def)
  have a: "announceable pub" using assms(3) by (simp add: well_defined_def)
  obtain b3 where b3: "SOS_announce_from_buffer b2 ?old = Inr (b3, announced ?g pub ?old)" "is_msg ?h (announce_body pub) b3"
    using announce_from_buffer_ok [OF b2(2) a, of ?old] f by (auto simp: fresh_handle_def msg_header_of_def)
  let ?p = "(announced ?g pub ?old)\<lparr>pb_announced := SOSD_PUB_ANN_DIRTY\<rparr>"
  let ?sd3 = "pub_store a ?p (pub_store a (announced ?g pub ?old) (sd1\<lparr>sd_pub_list := a # sd_pub_list sd1\<rparr>))"
  have same: "sd_db ?sd3 = sd_db sd" "sd_cloud_send ?sd3 = sd_cloud_send sd" "sd_local ?sd3 = sd_local sd" "sd_snap_queue ?sd3 = sd_snap_queue sd"
      "sd_shutdown ?sd3 = sd_shutdown sd" "sd_pubs ?sd3 ! a = ?p" "pub_find ?sd3 ?g = Some a"
    using sd1(4) new(2,6) by (auto simp: pub_store_def pub_find_def)
  obtain dq where dq: "db_put ?m SOS_MSG_TYPE_ANNOUNCE a ?sd3 = Inr (?sd3\<lparr>sd_db := dq\<rparr>)" "q_ok ?m dq"
      "q_list dq = q_list (sd_db sd) @ [\<lparr>tk_type = enum_code SOS_msg_type_vals SOS_MSG_TYPE_ANNOUNCE, tk_ref = a\<rparr>]"
    using db_put_ok [of ?m ?sd3 SOS_MSG_TYPE_ANNOUNCE a] ok(3) rm(2) same(1) by auto
  obtain cq where cq: "SOSD_forward cx (?sd3\<lparr>sd_db := dq\<rparr>) (Some b3) = Inr (?sd3\<lparr>sd_db := dq, sd_cloud_send := cq\<rparr>)" "q_ok ?m cq"
      "q_list cq = q_list (sd_cloud_send sd) @ (if cx_role cx = SOS_ROLE_LISTENER then [b3] else [])"
    using forward_ok [of b3 cx "?sd3\<lparr>sd_db := dq\<rparr>"] is_msg_unlocked [OF b3(2)] ok(2) rm(1) same(2) by auto
  have h: "SOSD_handle_announce cx False sd b1 = Inr (?sd3\<lparr>sd_db := dq\<rparr>, b3)"
    using b2(1,3) assms(2) sd1(1) new(4,6) b3(1) dq(1)
    by (simp add: SOSD_handle_announce_def SOSD_apply_announce_def pub_ref_def Let_def) (simp add: pub_store_def)
  have run: "SOSD_dispatch_local cx False clock sd b0 = Inr (?sd3\<lparr>sd_db := dq, sd_cloud_send := cq\<rparr>)"
    using b1(1,3) h cq(1) by (simp add: SOSD_dispatch_local_def)
  have "pubs_ok (?sd3\<lparr>sd_db := dq, sd_cloud_send := cq\<rparr>)" using dispatch_local_keeps [OF ok(1) run] by simp
  from handledI [OF this assms(1), of dq cq] have "handled cx SOS_MSG_TYPE_ANNOUNCE a b3 sd (?sd3\<lparr>sd_db := dq, sd_cloud_send := cq\<rparr>)"
    using same dq(2,3) cq(2,3) ok(4) by simp
  then show ?thesis
    using run same sd1(3) b3(2)
    by (intro exI [of _ "?sd3\<lparr>sd_db := dq, sd_cloud_send := cq\<rparr>"] exI [of _ a] exI [of _ ?old] exI [of _ b3] conjI) simp_all
qed

subsection \<open>Publications\<close>

definition rest_of :: "SOS_pub \<Rightarrow> u64 \<times> i32 \<times> snap_chain list option \<times> int \<times> i32 \<times> SOS_pub_meta" where
  "rest_of pub = (pb_guid pub, pb_sync_pending pub, pb_cache pub, pb_cache_head pub, pb_cache_depth pub, pb_meta pub)"

lemma data_from_rest: "data_from_buffer (b, off, pub) = Inr (b', off', pub') \<Longrightarrow> rest_of pub' = rest_of pub"
  by (auto simp: data_from_buffer_def res_simps pub_set_data_def rest_of_def)

lemma publish_loop_rest: "publish_loop n (b, off, pub) = Inr (b', off', pub') \<Longrightarrow> rest_of pub' = rest_of pub"
proof (induction n "(b, off, pub)" arbitrary: b off pub rule: publish_loop.induct)
  case (1 n b off pub)
  then show ?case
    by (cases "int off < n") (auto simp: publish_loop.simps [of n b off pub] res_simps dest: data_from_rest)
qed

lemma publish_from_rest: "SOS_publish_from_buffer b pub = Inr (b', pub') \<Longrightarrow> rest_of pub' = rest_of pub"
  by (auto simp: SOS_publish_from_buffer_def res_simps rest_of_def dest!: publish_loop_rest)

lemma rest_of_cache: "rest_of p = rest_of q \<Longrightarrow> adds_to_cache p = adds_to_cache q \<and> cache_ok p = cache_ok q \<and> cache_frames p = cache_frames q"
  by (auto simp: rest_of_def adds_to_cache_def cache_ok_def cache_frames_def split: option.split)

text \<open>What the daemon's elements hold after a publication.\<close>

definition elems_arrived :: "c_double \<Rightarrow> SOS_pub \<Rightarrow> SOS_pub \<Rightarrow> SOS_pub \<Rightarrow> bool" where
  "elems_arrived now pub dpub dpub' \<longleftrightarrow>
     pb_frame dpub' = pb_frame pub \<and>
     (\<forall>i < length (pub_used pub).
        if is_dirty (pub_used pub ! i) then received_elem (pub_used pub ! i) (pb_data dpub' ! i) now
        else pb_data dpub' ! i = pb_data dpub ! i)"

lemma dispatch_publish:
  assumes "daemon_ok (cx_mincap cx) sd" and "pub_find sd (pb_guid pub) = Some a" and "mirrors pub (sd_pubs sd ! a)"
    and "types_match (pub_used pub) (sd_pubs sd ! a)" and "pb_sync_pending (sd_pubs sd ! a) = 0"
    and "publishable now pub" and "24 + length (publish_body hi now pub) \<le> MSG_LIMIT"
    and "is_msg (msg_header_of SOS_MSG_TYPE_PUBLISH from (pb_guid pub)) (publish_body hi now pub) b0"
    and "room (cx_mincap cx) 1 sd"
  shows "\<exists>sd' b dpub'. SOSD_dispatch_local cx False clock sd b0 = Inr sd' \<and> handled cx SOS_MSG_TYPE_PUBLISH a b sd sd' \<and>
    pub_find sd' (pb_guid pub) = Some a \<and> sd_pubs sd' ! a = dpub'\<lparr>pb_sync_pending := 1\<rparr> \<and>
    rest_of dpub' = rest_of (sd_pubs sd ! a) \<and> elems_arrived now pub (sd_pubs sd ! a) dpub' \<and> sd_snap_queue sd' = sd_snap_queue sd \<and>
    is_msg (msg_header_of SOS_MSG_TYPE_PUBLISH from (pb_guid pub)) (publish_body hi now pub) b"
proof -
  let ?m = "cx_mincap cx" and ?g = "pb_guid pub" and ?h = "msg_header_of SOS_MSG_TYPE_PUBLISH from (pb_guid pub)"
    and ?e = "publish_body hi now pub" and ?d = "sd_pubs sd ! a"
  have ok: "pubs_ok sd" "q_ok ?m (sd_cloud_send sd)" "q_ok ?m (sd_db sd)" "queue_ok ?m (sd_snap_queue sd)"
    using assms(1) by (auto simp: daemon_ok_def)
  have rm: "length (q_list (sd_cloud_send sd)) + 2 \<le> ?m" "length (q_list (sd_db sd)) + 2 \<le> ?m" using assms(9) by (auto simp: room_def)
  note d = pubs_okD [OF ok(1) assms(2)]
  obtain b1 h1 where b1: "SOS_msg_unzip b0 0 = Inr (b1, h1, 24)" "is_msg ?h ?e b1"
      "enum_decode SOS_msg_type_vals (hd_msg_type h1) = Some SOS_MSG_TYPE_PUBLISH"
    using dispatch_start [OF assms(8)] by blast
  obtain b2 h2 where b2: "SOS_msg_unzip b1 0 = Inr (b2, h2, 24)" "is_msg ?h ?e b2" "hd_ref_guid h2 = ?g"
    using dispatch_start [OF b1(2)] by blast
  obtain b3 dpub' where b3: "SOS_publish_from_buffer b2 ?d = Inr (b3, dpub')" "is_msg ?h ?e b3" "\<not> pb_lock dpub'" "pb_frame dpub' = pb_frame pub"
      "\<And>i. i < length (pub_used pub) \<Longrightarrow> pb_data dpub' ! i =
         (if is_dirty (pub_used pub ! i) then data_update hi (mark_sent now (pub_used pub ! i)) (pb_data ?d ! i) else pb_data ?d ! i)"
    using publish_from_buffer_ok [OF b2(2) assms(6) d(3) assms(4,7)] by blast
  note rest = publish_from_rest [OF b3(1)]
  have "received_elem (pub_used pub ! i) (pb_data dpub' ! i) now" if "i < length (pub_used pub)" "is_dirty (pub_used pub ! i)" for i
    using data_update_received b3(5) that assms(3) by (simp add: mirrors_def)
  then have arrived: "elems_arrived now pub ?d dpub'" using b3(4,5) by (auto simp: elems_arrived_def)
  let ?sd3 = "pub_store a (dpub'\<lparr>pb_sync_pending := 1\<rparr>) (pub_store a dpub' sd)"
  have same: "sd_db ?sd3 = sd_db sd" "sd_cloud_send ?sd3 = sd_cloud_send sd" "sd_local ?sd3 = sd_local sd" "sd_snap_queue ?sd3 = sd_snap_queue sd"
      "sd_shutdown ?sd3 = sd_shutdown sd" "sd_pubs ?sd3 ! a = dpub'\<lparr>pb_sync_pending := 1\<rparr>" "pub_find ?sd3 ?g = Some a"
    using d(1) assms(2) by (auto simp: pub_store_def pub_find_def)
  obtain dq where dq: "db_put ?m SOS_MSG_TYPE_PUBLISH a ?sd3 = Inr (?sd3\<lparr>sd_db := dq\<rparr>)" "q_ok ?m dq"
      "q_list dq = q_list (sd_db sd) @ [\<lparr>tk_type = enum_code SOS_msg_type_vals SOS_MSG_TYPE_PUBLISH, tk_ref = a\<rparr>]"
    using db_put_ok [of ?m ?sd3 SOS_MSG_TYPE_PUBLISH a] ok(3) rm(2) same(1) by auto
  obtain cq where cq: "SOSD_forward cx (?sd3\<lparr>sd_db := dq\<rparr>) (Some b3) = Inr (?sd3\<lparr>sd_db := dq, sd_cloud_send := cq\<rparr>)" "q_ok ?m cq"
      "q_list cq = q_list (sd_cloud_send sd) @ (if cx_role cx = SOS_ROLE_LISTENER then [b3] else [])"
    using forward_ok [of b3 cx "?sd3\<lparr>sd_db := dq\<rparr>"] is_msg_unlocked [OF b3(2)] ok(2) rm(1) same(2) by auto
  have p0: "pb_sync_pending dpub' = 0" using rest assms(5) by (simp add: rest_of_def)
  have "SOSD_apply_publish sd a b2 = Inr (pub_store a dpub' sd, b3)"
    using d(1) b3(1) by (simp add: SOSD_apply_publish_def pub_ref_def)
  moreover have "pub_ref (pub_store a dpub' sd) a = Inr dpub'" using d(1) by (simp add: pub_ref_def pub_store_def)
  ultimately have h: "SOSD_handle_publish cx False sd b1 = Inr (?sd3\<lparr>sd_db := dq\<rparr>, b3)"
    using b2(1,3) assms(2) b3(3) p0 dq(1) by (simp add: SOSD_handle_publish_def)
  have run: "SOSD_dispatch_local cx False clock sd b0 = Inr (?sd3\<lparr>sd_db := dq, sd_cloud_send := cq\<rparr>)"
    using b1(1,3) h cq(1) by (simp add: SOSD_dispatch_local_def)
  have "pubs_ok (?sd3\<lparr>sd_db := dq, sd_cloud_send := cq\<rparr>)" using dispatch_local_keeps [OF ok(1) run] by simp
  from handledI [OF this assms(1), of dq cq] have "handled cx SOS_MSG_TYPE_PUBLISH a b3 sd (?sd3\<lparr>sd_db := dq, sd_cloud_send := cq\<rparr>)"
    using same dq(2,3) cq(2,3) ok(4) by simp
  then show ?thesis
    using run same rest arrived b3(2)
    by (intro exI [of _ "?sd3\<lparr>sd_db := dq, sd_cloud_send := cq\<rparr>"] exI [of _ b3] exI [of _ dpub'] conjI) simp_all
qed

subsection \<open>Snapshots\<close>

lemma cache_insert_data: "SOS_pack_snap_list_into_pub_cache pub snaps = Inr pub' \<Longrightarrow> pb_data pub' = pb_data pub"
  by (auto simp: SOS_pack_snap_list_into_pub_cache_def Let_def res_simps split: if_splits list.splits option.splits snap_chain.splits)

lemma snaps_from_data:
  "SOS_val_snap_queue_from_buffer mincap clock b q (Some pub) = Inr (b', q', Some p) \<Longrightarrow> pb_data p = pb_data pub"
  by (auto simp: SOS_val_snap_queue_from_buffer_def res_simps dest!: cache_insert_data split: if_splits)

lemma dispatch_snaps:
  assumes "daemon_ok (cx_mincap cx) sd" and "pub_find sd g = Some a" and "adds_to_cache (sd_pubs sd ! a) \<longrightarrow> cache_ok (sd_pubs sd ! a)"
    and "snaps \<noteq> []" and "24 + length (snaps_body clk snaps) \<le> MSG_LIMIT"
    and "\<forall>x \<in> set (zip [0..<length snaps] snaps). snap_fits clk pub x"
    and "is_msg (msg_header_of SOS_MSG_TYPE_VAL_SNAPS from g) (snaps_body clk snaps) b0"
    and "length (pipe_content (sq_pipe (sd_snap_queue sd))) + length snaps + 1 \<le> cx_mincap cx"
    and "room (cx_mincap cx) 1 sd"
  defines "rs \<equiv> map (snap_received clk g) (zip [0..<length snaps] snaps)"
  shows "\<exists>sd' b. SOSD_dispatch_local cx False clock sd b0 = Inr sd' \<and> handled cx SOS_MSG_TYPE_VAL_SNAPS a b sd sd' \<and>
    pub_find sd' g = Some a \<and> pb_data (sd_pubs sd' ! a) = pb_data (sd_pubs sd ! a) \<and>
    pipe_content (sq_pipe (sd_snap_queue sd')) = pipe_content (sq_pipe (sd_snap_queue sd)) @ rs \<and>
    is_msg (msg_header_of SOS_MSG_TYPE_VAL_SNAPS from g) (snaps_body clk snaps) b"
proof -
  let ?m = "cx_mincap cx" and ?h = "msg_header_of SOS_MSG_TYPE_VAL_SNAPS from g" and ?e = "snaps_body clk snaps" and ?d = "sd_pubs sd ! a"
  have ok: "pubs_ok sd" "q_ok ?m (sd_cloud_send sd)" "q_ok ?m (sd_db sd)" "queue_ok ?m (sd_snap_queue sd)"
    using assms(1) by (auto simp: daemon_ok_def)
  have rm: "length (q_list (sd_cloud_send sd)) + 2 \<le> ?m" "length (q_list (sd_db sd)) + 2 \<le> ?m" using assms(9) by (auto simp: room_def)
  note d = pubs_okD [OF ok(1) assms(2)]
  obtain b1 h1 where b1: "SOS_msg_unzip b0 0 = Inr (b1, h1, 24)" "is_msg ?h ?e b1"
      "enum_decode SOS_msg_type_vals (hd_msg_type h1) = Some SOS_MSG_TYPE_VAL_SNAPS"
    using dispatch_start [OF assms(7)] by blast
  obtain b2 h2 where b2: "SOS_msg_unzip b1 0 = Inr (b2, h2, 24)" "is_msg ?h ?e b2" "hd_ref_guid h2 = g"
    using dispatch_start [OF b1(2)] by blast
  obtain b3 sq dpub' where b3: "SOS_val_snap_queue_from_buffer ?m clock b2 (Some (sd_snap_queue sd)) (Some ?d) = Inr (b3, Some sq, Some dpub')"
      "is_msg ?h ?e b3" "queue_ok ?m sq" "pipe_content (sq_pipe sq) = pipe_content (sq_pipe (sd_snap_queue sd)) @ rs"
    using snaps_from_buffer_ok [OF b2(2) assms(4,5,6) ok(4) assms(8,3), of clock] d(2) unfolding rs_def by blast
  have same_data: "pb_data dpub' = pb_data ?d" using snaps_from_data [OF b3(1)] by simp
  let ?sd3 = "pub_store a dpub' (sd\<lparr>sd_snap_queue := sq\<rparr>)"
  have same: "sd_db ?sd3 = sd_db sd" "sd_cloud_send ?sd3 = sd_cloud_send sd" "sd_local ?sd3 = sd_local sd" "sd_snap_queue ?sd3 = sq"
      "sd_shutdown ?sd3 = sd_shutdown sd" "sd_pubs ?sd3 ! a = dpub'" "pub_find ?sd3 g = Some a"
    using d(1) assms(2) by (auto simp: pub_store_def pub_find_def)
  obtain dq where dq: "db_put ?m SOS_MSG_TYPE_VAL_SNAPS a ?sd3 = Inr (?sd3\<lparr>sd_db := dq\<rparr>)" "q_ok ?m dq"
      "q_list dq = q_list (sd_db sd) @ [\<lparr>tk_type = enum_code SOS_msg_type_vals SOS_MSG_TYPE_VAL_SNAPS, tk_ref = a\<rparr>]"
    using db_put_ok [of ?m ?sd3 SOS_MSG_TYPE_VAL_SNAPS a] ok(3) rm(2) same(1) by auto
  obtain cq where cq: "SOSD_forward cx (?sd3\<lparr>sd_db := dq\<rparr>) (Some b3) = Inr (?sd3\<lparr>sd_db := dq, sd_cloud_send := cq\<rparr>)" "q_ok ?m cq"
      "q_list cq = q_list (sd_cloud_send sd) @ (if cx_role cx = SOS_ROLE_LISTENER then [b3] else [])"
    using forward_ok [of b3 cx "?sd3\<lparr>sd_db := dq\<rparr>"] is_msg_unlocked [OF b3(2)] ok(2) rm(1) same(2) by auto
  have h: "SOSD_handle_val_snaps cx False clock sd b1 = Inr (?sd3\<lparr>sd_db := dq\<rparr>, Some b3)"
    using b2(1,3) assms(2) d(1) b3(1) dq(1) by (simp add: SOSD_handle_val_snaps_def pub_ref_def)
  have run: "SOSD_dispatch_local cx False clock sd b0 = Inr (?sd3\<lparr>sd_db := dq, sd_cloud_send := cq\<rparr>)"
    using b1(1,3) h cq(1) by (simp add: SOSD_dispatch_local_def)
  have "pubs_ok (?sd3\<lparr>sd_db := dq, sd_cloud_send := cq\<rparr>)" using dispatch_local_keeps [OF ok(1) run] by simp
  from handledI [OF this assms(1), of dq cq] have "handled cx SOS_MSG_TYPE_VAL_SNAPS a b3 sd (?sd3\<lparr>sd_db := dq, sd_cloud_send := cq\<rparr>)"
    using same dq(2,3) cq(2,3) b3(3) by simp
  then show ?thesis
    using run same same_data b3(2,4)
    by (intro exI [of _ "?sd3\<lparr>sd_db := dq, sd_cloud_send := cq\<rparr>"] exI [of _ b3] conjI) simp_all
qed

section \<open>Runs of the two threads\<close>

text \<open>The listener takes one message per connection; then the local thread makes \<open>n\<close> rounds.\<close>

definition SOSD_listen_all ::
    "SOS_ctx \<Rightarrow> i32 \<Rightarrow> other_handlers \<Rightarrow> recv_result list list \<Rightarrow> SOSD \<times> SOS_buffer \<Rightarrow> (SOSD \<times> SOS_buffer) res" where
  "SOSD_listen_all cx server_uid other streams s =
     foldR (\<lambda>rs (sd, buffer). bindR (SOSD_listen_step cx server_uid other rs sd buffer) (\<lambda>(sd, buffer, _, _). Inr (sd, buffer))) streams s"

definition SOSD_local_rounds :: "SOS_ctx \<Rightarrow> bool \<Rightarrow> (nat \<Rightarrow> c_double) \<Rightarrow> nat \<Rightarrow> SOSD \<Rightarrow> SOSD res" where
  "SOSD_local_rounds cx db_disabled clock n sd = foldR (\<lambda>_. SOSD_local_sync_step cx db_disabled clock) [0..<n] sd"

lemma foldR_const: "length xs = length ys \<Longrightarrow> foldR (\<lambda>_. f) xs s = foldR (\<lambda>_. f) ys s"
proof (induction xs arbitrary: ys s)
  case (Cons x xs)
  then show ?case by (cases ys; cases "f s") auto
qed simp

lemma local_rounds_Suc:
  "SOSD_local_rounds cx dbd clock (Suc n) sd = bindR (SOSD_local_sync_step cx dbd clock sd) (SOSD_local_rounds cx dbd clock n)"
proof -
  have "[0..<Suc n] = 0 # [Suc 0..<Suc n]" by (simp only: upt_rec [of 0 "Suc n"]) simp
  then show ?thesis
    unfolding SOSD_local_rounds_def using foldR_const [of "[Suc 0..<Suc n]" "[0..<n]" "SOSD_local_sync_step cx dbd clock"]
    by (cases "SOSD_local_sync_step cx dbd clock sd") (simp_all del: upt_Suc)
qed

lemma local_rounds_0 [simp]: "SOSD_local_rounds cx dbd clock 0 sd = Inr sd"
  by (simp add: SOSD_local_rounds_def)

text \<open>The messages the listener hands on.\<close>

definition for_local :: "SOS_buffer \<Rightarrow> bool" where
  "for_local b \<longleftrightarrow> (\<exists>t from ref e. is_msg (msg_header_of t from ref) e b \<and> 24 + length e \<le> MSG_LIMIT \<and>
     t \<in> {SOS_MSG_TYPE_ANNOUNCE, SOS_MSG_TYPE_PUBLISH, SOS_MSG_TYPE_VAL_SNAPS})"

definition same_msg :: "SOS_buffer \<Rightarrow> SOS_buffer \<Rightarrow> bool" where
  "same_msg b c \<longleftrightarrow> (\<forall>h e. is_msg h e b \<longrightarrow> is_msg h e c)"

lemma is_msg_bytes: "is_msg h e b \<Longrightarrow> take (buf_len b) (buf_data b) = encode (header_args (h\<lparr>hd_msg_size := word_of_nat (24 + length e)\<rparr>)) @ e"
  by (auto simp: is_msg_def holding_def packed_prefix_def)

lemma same_msgI:
  assumes "is_msg h e b" and "is_msg h e c"
  shows "same_msg b c"
proof -
  have eq: "take (buf_len b) (buf_data b) = take (buf_len c) (buf_data c)" "buf_len b = buf_len c"
    using is_msg_bytes [OF assms(1)] is_msg_bytes [OF assms(2)] is_msg_len [OF assms(1)] is_msg_len [OF assms(2)] by simp_all
  have "is_msg h' e' c" if "is_msg h' e' b" for h' e'
    using that assms(2) eq by (auto simp: is_msg_def holding_def packed_prefix_def)
  then show ?thesis by (simp add: same_msg_def)
qed

lemma listen_all_queues:
  assumes "list_all2 stream_of streams msgs" and "\<forall>b \<in> set msgs. for_local b" and "fresh_msg buffer" and "\<not> sd_shutdown sd"
    and "q_ok (cx_mincap cx) (sd_local sd)" and "length (q_list (sd_local sd)) + length msgs + 1 \<le> cx_mincap cx"
  shows "\<exists>q bs buffer'. SOSD_listen_all cx server_uid other streams (sd, buffer) = Inr (sd\<lparr>sd_local := q\<rparr>, buffer') \<and>
    q_ok (cx_mincap cx) q \<and> q_list q = q_list (sd_local sd) @ bs \<and> list_all2 same_msg msgs bs \<and> fresh_msg buffer'"
  using assms
proof (induction streams msgs arbitrary: sd buffer rule: list_all2_induct)
  case Nil
  then show ?case by (intro exI [of _ "sd_local sd"] exI [of _ "[]"] exI [of _ buffer]) (simp add: SOSD_listen_all_def)
next
  case (Cons rs streams m msgs)
  from Cons.prems(1) have fm: "for_local m" by simp
  obtain t fr ref e where m: "is_msg (msg_header_of t fr ref) e m" "24 + length e \<le> MSG_LIMIT"
      "t \<in> {SOS_MSG_TYPE_ANNOUNCE, SOS_MSG_TYPE_PUBLISH, SOS_MSG_TYPE_VAL_SNAPS}"
    using fm unfolding for_local_def by blast
  have room: "length (q_list (sd_local sd)) + 2 \<le> cx_mincap cx" using Cons.prems(5) by simp
  obtain q b buffer1 reply where l: "SOSD_listen_step cx server_uid other rs sd buffer = Inr (sd\<lparr>sd_local := q\<rparr>, buffer1, [], Some reply)"
      "q_ok (cx_mincap cx) q" "q_list q = q_list (sd_local sd) @ [b]" "is_msg (msg_header_of t fr ref) e b" "fresh_msg buffer1"
    using listen_queues [OF m(1,2) Cons.hyps(1) Cons.prems(2) m(3) Cons.prems(3,4) room, of server_uid other] by blast
  have len: "length (q_list q) = length (q_list (sd_local sd)) + 1" by (simp only: l(3) length_append) simp
  have "\<exists>q' bs buffer'. SOSD_listen_all cx server_uid other streams (sd\<lparr>sd_local := q\<rparr>, buffer1) = Inr ((sd\<lparr>sd_local := q\<rparr>)\<lparr>sd_local := q'\<rparr>, buffer') \<and>
    q_ok (cx_mincap cx) q' \<and> q_list q' = q_list (sd_local (sd\<lparr>sd_local := q\<rparr>)) @ bs \<and> list_all2 same_msg msgs bs \<and> fresh_msg buffer'"
    using Cons.IH [of buffer1 "sd\<lparr>sd_local := q\<rparr>"] Cons.prems l(2,5) len by (simp del: length_pipe_content)
  then obtain q' bs buffer' where r: "SOSD_listen_all cx server_uid other streams (sd\<lparr>sd_local := q\<rparr>, buffer1) = Inr (sd\<lparr>sd_local := q'\<rparr>, buffer')"
      "q_ok (cx_mincap cx) q'" "q_list q' = q_list q @ bs" "list_all2 same_msg msgs bs" "fresh_msg buffer'"
    by auto
  then show ?case
    using l(1,3) same_msgI [OF m(1) l(4)]
    by (intro exI [of _ q'] exI [of _ "b # bs"] exI [of _ buffer']) (simp add: SOSD_listen_all_def)
qed

lemma local_round:
  assumes "daemon_ok (cx_mincap cx) sd" and "q_list (sd_local sd) = b # bs"
  shows "\<exists>q. SOSD_local_sync_step cx dbd clock sd = SOSD_dispatch_local cx dbd clock (sd\<lparr>sd_local := q\<rparr>) b \<and> q_list q = bs \<and>
    daemon_ok (cx_mincap cx) (sd\<lparr>sd_local := q\<rparr>)"
proof -
  have "q_ok (cx_mincap cx) (sd_local sd)" using assms(1) by (simp add: daemon_ok_def)
  from queue_take_ok [OF this assms(2), of SOS_buffer_init] assms(1) show ?thesis
    by (auto simp: SOSD_local_sync_step_def Let_def daemon_ok_def q_ok_def)
qed

lemma same_msg_is: "same_msg b c \<Longrightarrow> is_msg h e b \<Longrightarrow> is_msg h e c"
  by (simp add: same_msg_def)

lemma handledD:
  assumes "handled cx t a b sd sd'"
  shows "daemon_ok (cx_mincap cx) sd'" and "sd_local sd' = sd_local sd"
    and "q_list (sd_db sd') = q_list (sd_db sd) @ [\<lparr>tk_type = enum_code SOS_msg_type_vals t, tk_ref = a\<rparr>]"
    and "q_list (sd_cloud_send sd') = q_list (sd_cloud_send sd) @ (if cx_role cx = SOS_ROLE_LISTENER then [b] else [])"
  using assms by (auto simp: handled_def)

lemma handled_room:
  assumes "handled cx t a b sd sd'" and "room mincap (Suc k) sd"
  shows "room mincap k sd'"
proof -
  have "length (q_list (sd_db sd')) = length (q_list (sd_db sd)) + 1"
    "length (q_list (sd_cloud_send sd')) \<le> length (q_list (sd_cloud_send sd)) + 1"
    unfolding handledD(3,4) [OF assms(1)] by simp_all
  then show ?thesis using assms(2) by (simp add: room_def del: length_pipe_content)
qed

lemma room_mono: "room mincap k sd \<Longrightarrow> j \<le> k \<Longrightarrow> room mincap j sd"
  by (simp add: room_def)

lemma room_local [simp]: "room mincap k (sd\<lparr>sd_local := q\<rparr>) = room mincap k sd"
  by (simp add: room_def)

text \<open>What the daemon holds of a publication: every element with its definition, a dirty one with its value.\<close>

definition holds :: "c_double \<Rightarrow> SOS_pub \<Rightarrow> SOS_pub \<Rightarrow> bool" where
  "holds now pub dpub \<longleftrightarrow> pb_guid dpub = pb_guid pub \<and>
     (\<forall>i < length (pub_used pub).
        if is_dirty (pub_used pub ! i) then received_elem (pub_used pub ! i) (pb_data dpub ! i) now
        else agrees (pub_used pub ! i) (pb_data dpub ! i))"

lemma holdsI:
  assumes "mirrors pub dpub" and "elems_arrived now pub dpub dpub'" and "rest_of dpub' = rest_of dpub"
  shows "holds now pub (dpub'\<lparr>pb_sync_pending := s\<rparr>)"
  using assms by (auto simp: holds_def mirrors_def elems_arrived_def rest_of_def)

lemma announce_publish_rounds:
  assumes "daemon_ok (cx_mincap cx) sd" and "pub_find sd (pb_guid pub) = None" and "well_defined pub" and "typed_elems (pub_used pub)"
    and "cx_role cx \<noteq> SOS_ROLE_CLIENT" and "pool_ready 1 (sd_guid sd)" and "room (cx_mincap cx) (k + 2) sd"
    and "publishable now pub" and "24 + length (publish_body hi now pub) \<le> MSG_LIMIT"
    and "q_list (sd_local sd) = b1 # b2 # bs"
    and "is_msg (msg_header_of SOS_MSG_TYPE_ANNOUNCE fr (pb_guid pub)) (announce_body pub) b1"
    and "is_msg (msg_header_of SOS_MSG_TYPE_PUBLISH fr' (pb_guid pub)) (publish_body hi now pub) b2"
  shows "\<exists>sd' a c1 c2. SOSD_local_rounds cx False clock (Suc (Suc n)) sd = SOSD_local_rounds cx False clock n sd' \<and>
    daemon_ok (cx_mincap cx) sd' \<and> pub_find sd' (pb_guid pub) = Some a \<and> holds now pub (sd_pubs sd' ! a) \<and>
    (adds_to_cache (sd_pubs sd' ! a) \<longrightarrow> cache_ok (sd_pubs sd' ! a)) \<and> sd_snap_queue sd' = sd_snap_queue sd \<and>
    q_list (sd_local sd') = bs \<and> room (cx_mincap cx) k sd' \<and>
    q_list (sd_db sd') = q_list (sd_db sd) @ map (\<lambda>t. \<lparr>tk_type = enum_code SOS_msg_type_vals t, tk_ref = a\<rparr>)
      [SOS_MSG_TYPE_ANNOUNCE, SOS_MSG_TYPE_PUBLISH] \<and>
    q_list (sd_cloud_send sd') = q_list (sd_cloud_send sd) @ (if cx_role cx = SOS_ROLE_LISTENER then [c1, c2] else []) \<and>
    same_msg b1 c1 \<and> same_msg b2 c2 \<and> sd_shutdown sd' = sd_shutdown sd"
proof -
  let ?m = "cx_mincap cx" and ?g = "pb_guid pub"
  obtain q where q: "SOSD_local_sync_step cx False clock sd = SOSD_dispatch_local cx False clock (sd\<lparr>sd_local := q\<rparr>) b1" "q_list q = b2 # bs"
      "daemon_ok ?m (sd\<lparr>sd_local := q\<rparr>)"
    using local_round [OF assms(1,10)] by blast
  have "pub_find (sd\<lparr>sd_local := q\<rparr>) ?g = None" "room ?m 1 (sd\<lparr>sd_local := q\<rparr>)" "pool_ready 1 (sd_guid (sd\<lparr>sd_local := q\<rparr>))"
    using assms(2,6,7) by (simp_all add: room_def)
  from dispatch_announce [OF q(3) this(1) assms(3,11,5) this(3,2), of clock] obtain sd1 a old c1 where
    sd1: "SOSD_dispatch_local cx False clock (sd\<lparr>sd_local := q\<rparr>) b1 = Inr sd1" "handled cx SOS_MSG_TYPE_ANNOUNCE a c1 (sd\<lparr>sd_local := q\<rparr>) sd1"
      "pub_find sd1 ?g = Some a" "new_handle old" "sd_pubs sd1 ! a = (announced ?g pub old)\<lparr>pb_announced := SOSD_PUB_ANN_DIRTY\<rparr>"
      "sd_snap_queue sd1 = sd_snap_queue (sd\<lparr>sd_local := q\<rparr>)" "is_msg (msg_header_of SOS_MSG_TYPE_ANNOUNCE fr ?g) (announce_body pub) c1"
    by blast
  note h1 = handledD [OF sd1(2)]
  note r = announced_ready [OF assms(3) sd1(4,5)]
  have l1: "q_list (sd_local sd1) = b2 # bs" using h1(2) q(2) by simp
  obtain q' where q': "SOSD_local_sync_step cx False clock sd1 = SOSD_dispatch_local cx False clock (sd1\<lparr>sd_local := q'\<rparr>) b2" "q_list q' = bs"
      "daemon_ok ?m (sd1\<lparr>sd_local := q'\<rparr>)"
    using local_round [OF h1(1) l1] by blast
  let ?s = "sd1\<lparr>sd_local := q'\<rparr>"
  have "room ?m (Suc k) sd1" by (rule handled_room [OF sd1(2)]) (use assms(7) in simp)
  then have rm: "room ?m 1 ?s" "room ?m (Suc k) ?s" by (auto intro: room_mono)
  have f: "pub_find ?s ?g = Some a" "mirrors pub (sd_pubs ?s ! a)" "types_match (pub_used pub) (sd_pubs ?s ! a)" "pb_sync_pending (sd_pubs ?s ! a) = 0"
    using sd1(3) r assms(4) by simp_all
  from dispatch_publish [OF q'(3) f assms(8,9,12) rm(1), of clock] obtain sd2 c2 dpub' where
    sd2: "SOSD_dispatch_local cx False clock ?s b2 = Inr sd2" "handled cx SOS_MSG_TYPE_PUBLISH a c2 ?s sd2" "pub_find sd2 ?g = Some a"
      "sd_pubs sd2 ! a = dpub'\<lparr>pb_sync_pending := 1\<rparr>" "rest_of dpub' = rest_of (sd_pubs ?s ! a)" "elems_arrived now pub (sd_pubs ?s ! a) dpub'"
      "sd_snap_queue sd2 = sd_snap_queue ?s" "is_msg (msg_header_of SOS_MSG_TYPE_PUBLISH fr' ?g) (publish_body hi now pub) c2"
    by blast
  note h2 = handledD [OF sd2(2)]
  have "SOSD_local_rounds cx False clock (Suc (Suc n)) sd = SOSD_local_rounds cx False clock n sd2"
    using q(1) sd1(1) q'(1) sd2(1) by (simp add: local_rounds_Suc)
  moreover have "holds now pub (sd_pubs sd2 ! a)" unfolding sd2(4) by (rule holdsI [OF f(2) sd2(6,5)])
  moreover have "adds_to_cache (sd_pubs sd2 ! a) \<longrightarrow> cache_ok (sd_pubs sd2 ! a)"
    using rest_of_cache [OF sd2(5)] r(3) by (simp add: sd2(4) adds_to_cache_def cache_ok_def)
  moreover have "sd_snap_queue sd2 = sd_snap_queue sd" using sd2(7) sd1(6) by simp
  moreover have "q_list (sd_local sd2) = bs" using h2(2) q'(2) by simp
  moreover have "q_list (sd_db sd2) = q_list (sd_db sd) @ map (\<lambda>t. \<lparr>tk_type = enum_code SOS_msg_type_vals t, tk_ref = a\<rparr>)
      [SOS_MSG_TYPE_ANNOUNCE, SOS_MSG_TYPE_PUBLISH]"
    using h2(3) h1(3) by simp
  moreover have "q_list (sd_cloud_send sd2) = q_list (sd_cloud_send sd) @ (if cx_role cx = SOS_ROLE_LISTENER then [c1, c2] else [])"
      "sd_shutdown sd2 = sd_shutdown sd"
    using sd1(2) sd2(2) by (simp_all add: handled_def)
  ultimately show ?thesis
    using h2(1) sd2(3) handled_room [OF sd2(2) rm(2)] same_msgI [OF assms(11) sd1(7)] same_msgI [OF assms(12) sd2(8)] by blast
qed

lemma publish_msgs_for_local:
  assumes "publish_msgs cx hi clock pub sent" and "sendable clock hi pub"
  shows "\<forall>b \<in> set sent. for_local b"
proof -
  obtain b snaps where s: "sent = b # snaps" "is_msg (msg_header_of SOS_MSG_TYPE_PUBLISH (cx_my_guid cx) (pb_guid pub)) (publish_body hi (clock 0) pub) b"
      "\<forall>s \<in> set snaps. is_msg (msg_header_of SOS_MSG_TYPE_VAL_SNAPS (cx_my_guid cx) (pb_guid pub)) (snaps_body (\<lambda>i. clock (Suc i)) (queued pub)) s"
    using assms(1) by (auto simp: publish_msgs_def split: if_splits)
  then show ?thesis using assms(2) unfolding for_local_def sendable_def snaps_sendable_def by fastforce
qed

lemma same_msg_trans: "same_msg a b \<Longrightarrow> same_msg b c \<Longrightarrow> same_msg a c"
  by (simp add: same_msg_def)

lemma publish_msgs_count: "publish_msgs cx hi clock pub sent \<Longrightarrow> length sent \<le> 2"
  by (auto simp: publish_msgs_def split: if_splits)

text \<open>The rounds of the local thread that handle what a publication sends, at a daemon in whose queue it is.\<close>

lemma delivery_rounds:
  assumes "well_defined pub" and "typed_elems (pub_used pub)" and "24 + length (announce_body pub) \<le> MSG_LIMIT" and "sendable clock hi pub"
    and "is_msg (msg_header_of SOS_MSG_TYPE_ANNOUNCE (cx_my_guid cx) (pb_guid pub)) (announce_body pub) ann" and "publish_msgs cx hi clock pub sent"
    and "daemon_ok (cx_mincap dcx) sd" and "pub_find sd (pb_guid pub) = None" and "q_list (sd_local sd) = bs" and "list_all2 same_msg (ann # sent) bs"
    and "cx_role dcx \<noteq> SOS_ROLE_CLIENT" and "pool_ready 1 (sd_guid sd)" and "room (cx_mincap dcx) 3 sd"
    and "length (pipe_content (sq_pipe (sd_snap_queue sd))) + length (queued pub) + 1 \<le> cx_mincap dcx"
  shows "\<exists>sd2 a fwd. SOSD_local_rounds dcx False clock' (length (ann # sent)) sd = Inr sd2 \<and> daemon_ok (cx_mincap dcx) sd2 \<and>
    pub_find sd2 (pb_guid pub) = Some a \<and> holds (clock 0) pub (sd_pubs sd2 ! a) \<and> q_list (sd_local sd2) = [] \<and>
    q_list (sd_db sd2) = q_list (sd_db sd) @ map (\<lambda>t. \<lparr>tk_type = enum_code SOS_msg_type_vals t, tk_ref = a\<rparr>)
      ([SOS_MSG_TYPE_ANNOUNCE, SOS_MSG_TYPE_PUBLISH] @ (if queued pub = [] then [] else [SOS_MSG_TYPE_VAL_SNAPS])) \<and>
    pipe_content (sq_pipe (sd_snap_queue sd2)) = pipe_content (sq_pipe (sd_snap_queue sd)) @
      map (snap_received (\<lambda>i. clock (Suc i)) (pb_guid pub)) (zip [0..<length (queued pub)] (queued pub)) \<and>
    q_list (sd_cloud_send sd2) = q_list (sd_cloud_send sd) @ (if cx_role dcx = SOS_ROLE_LISTENER then fwd else []) \<and>
    list_all2 same_msg (ann # sent) fwd \<and> sd_shutdown sd2 = sd_shutdown sd"
proof -
  let ?m = "cx_mincap dcx" and ?g = "pb_guid pub" and ?from = "cx_my_guid cx" and ?clk = "\<lambda>i. clock (Suc i)" and ?n = "length (queued pub)"
  have fit: "publishable (clock 0) pub" "24 + length (publish_body hi (clock 0) pub) \<le> MSG_LIMIT"
      "\<forall>x \<in> set (zip [0..<?n] (queued pub)). snap_fits ?clk pub x" "24 + length (snaps_body ?clk (queued pub)) \<le> MSG_LIMIT"
    using assms(4) by (auto simp: sendable_def snaps_sendable_def)
  obtain m ss where sent: "sent = m # ss" "is_msg (msg_header_of SOS_MSG_TYPE_PUBLISH ?from ?g) (publish_body hi (clock 0) pub) m"
      "if queued pub = [] then ss = [] else \<exists>s. ss = [s] \<and> is_msg (msg_header_of SOS_MSG_TYPE_VAL_SNAPS ?from ?g) (snaps_body ?clk (queued pub)) s"
    using assms(6) unfolding publish_msgs_def by blast
  obtain b1 b2 bs' where bs: "bs = b1 # b2 # bs'" "same_msg ann b1" "same_msg m b2" "list_all2 same_msg ss bs'"
    using assms(10) sent(1) by (auto simp: list_all2_Cons1)
  have s: "room ?m (1 + 2) sd" "q_list (sd_local sd) = b1 # b2 # bs'" using assms(9,13) bs(1) by (simp_all add: numeral_3_eq_3)
  from announce_publish_rounds [OF assms(7,8,1,2,11,12) s(1) fit(1,2) s(2) same_msg_is [OF bs(2) assms(5)] same_msg_is [OF bs(3) sent(2)],
      of clock' "length ss"]
  obtain sd2 a c1 c2 where sd2: "SOSD_local_rounds dcx False clock' (Suc (Suc (length ss))) sd = SOSD_local_rounds dcx False clock' (length ss) sd2"
      "daemon_ok ?m sd2" "pub_find sd2 ?g = Some a" "holds (clock 0) pub (sd_pubs sd2 ! a)"
      "adds_to_cache (sd_pubs sd2 ! a) \<longrightarrow> cache_ok (sd_pubs sd2 ! a)" "sd_snap_queue sd2 = sd_snap_queue sd" "q_list (sd_local sd2) = bs'"
      "room ?m 1 sd2"
      "q_list (sd_db sd2) = q_list (sd_db sd) @ map (\<lambda>t. \<lparr>tk_type = enum_code SOS_msg_type_vals t, tk_ref = a\<rparr>)
        [SOS_MSG_TYPE_ANNOUNCE, SOS_MSG_TYPE_PUBLISH]"
      "q_list (sd_cloud_send sd2) = q_list (sd_cloud_send sd) @ (if cx_role dcx = SOS_ROLE_LISTENER then [c1, c2] else [])"
      "same_msg b1 c1" "same_msg b2 c2" "sd_shutdown sd2 = sd_shutdown sd"
    by (elim exE conjE) (rule that)
  have c: "same_msg ann c1" "same_msg m c2" using same_msg_trans bs(2,3) sd2(11,12) by blast+
  have n: "length (ann # sent) = Suc (Suc (length ss))" using sent(1) by simp
  show ?thesis
  proof (cases "queued pub = []")
    case True
    then have "ss = []" "bs' = []" using sent(3) bs(4) by auto
    then show ?thesis
      using sd2 n True c sent(1) by (intro exI [of _ sd2] exI [of _ a] exI [of _ "[c1, c2]"] conjI) simp_all
  next
    case False
    then obtain s where ss: "ss = [s]" "is_msg (msg_header_of SOS_MSG_TYPE_VAL_SNAPS ?from ?g) (snaps_body ?clk (queued pub)) s"
      using sent(3) by auto
    then obtain b3 where b3: "bs' = [b3]" "same_msg s b3" using bs(4) by (auto simp: list_all2_Cons1)
    then have "q_list (sd_local sd2) = b3 # []" using sd2(7) by simp
    from local_round [OF sd2(2) this, of False clock'] obtain q' where
      q': "SOSD_local_sync_step dcx False clock' sd2 = SOSD_dispatch_local dcx False clock' (sd2\<lparr>sd_local := q'\<rparr>) b3" "q_list q' = []"
        "daemon_ok ?m (sd2\<lparr>sd_local := q'\<rparr>)"
      by blast
    let ?t = "sd2\<lparr>sd_local := q'\<rparr>"
    have t: "pub_find ?t ?g = Some a" "adds_to_cache (sd_pubs ?t ! a) \<longrightarrow> cache_ok (sd_pubs ?t ! a)" "room ?m 1 ?t"
        "length (pipe_content (sq_pipe (sd_snap_queue ?t))) + ?n + 1 \<le> ?m"
      using sd2(3,5,6,8) assms(14) by (simp_all del: length_pipe_content)
    from dispatch_snaps [OF q'(3) t(1,2) False fit(4,3) same_msg_is [OF b3(2) ss(2)] t(4,3), of clock'] obtain sd3 c3 where
      sd3: "SOSD_dispatch_local dcx False clock' ?t b3 = Inr sd3" "handled dcx SOS_MSG_TYPE_VAL_SNAPS a c3 ?t sd3" "pub_find sd3 ?g = Some a"
        "pb_data (sd_pubs sd3 ! a) = pb_data (sd_pubs ?t ! a)"
        "pipe_content (sq_pipe (sd_snap_queue sd3)) = pipe_content (sq_pipe (sd_snap_queue ?t)) @
          map (snap_received ?clk ?g) (zip [0..<?n] (queued pub))"
        "is_msg (msg_header_of SOS_MSG_TYPE_VAL_SNAPS ?from ?g) (snaps_body ?clk (queued pub)) c3"
      by blast
    note h = handledD [OF sd3(2)]
    have "pb_guid (sd_pubs sd3 ! a) = ?g" using pubs_okD(2) [OF _ sd3(3)] h(1) by (simp add: daemon_ok_def)
    then have "holds (clock 0) pub (sd_pubs sd3 ! a)" using sd2(4) sd3(4) by (simp add: holds_def)
    moreover have "SOSD_local_rounds dcx False clock' (length ss) sd2 = Inr sd3"
      using q'(1) sd3(1) ss(1) by (simp add: local_rounds_Suc)
    then have "SOSD_local_rounds dcx False clock' (length (ann # sent)) sd = Inr sd3" unfolding n sd2(1) .
    moreover have "sd_shutdown sd3 = sd_shutdown sd" using sd3(2) sd2(13) by (simp add: handled_def)
    moreover have "list_all2 same_msg (ann # sent) [c1, c2, c3]" using c sent(1) ss(1) same_msgI [OF ss(2) sd3(6)] by simp
    ultimately show ?thesis
      using sd2(6,9,10) sd3(3,5) h False q'(2)
      by (intro exI [of _ sd3] exI [of _ a] exI [of _ "[c1, c2, c3]"] conjI) simp_all
  qed
qed

lemma delivery:
  assumes "well_defined pub" and "typed_elems (pub_used pub)" and "24 + length (announce_body pub) \<le> MSG_LIMIT" and "sendable clock hi pub"
    and "is_msg (msg_header_of SOS_MSG_TYPE_ANNOUNCE (cx_my_guid cx) (pb_guid pub)) (announce_body pub) ann" and "publish_msgs cx hi clock pub sent"
    and "daemon_ok (cx_mincap dcx) sd" and "\<not> sd_shutdown sd" and "pub_find sd (pb_guid pub) = None" and "q_list (sd_local sd) = []"
    and "cx_role dcx \<noteq> SOS_ROLE_CLIENT" and "pool_ready 1 (sd_guid sd)" and "room (cx_mincap dcx) 3 sd"
    and "length (pipe_content (sq_pipe (sd_snap_queue sd))) + length (queued pub) + 1 \<le> cx_mincap dcx"
    and "list_all2 stream_of streams (ann # sent)" and "fresh_msg buffer"
  shows "\<exists>sd1 buffer' sd2 a fwd. SOSD_listen_all dcx server_uid other streams (sd, buffer) = Inr (sd1, buffer') \<and>
    SOSD_local_rounds dcx False clock' (length (ann # sent)) sd1 = Inr sd2 \<and> daemon_ok (cx_mincap dcx) sd2 \<and>
    pub_find sd2 (pb_guid pub) = Some a \<and> holds (clock 0) pub (sd_pubs sd2 ! a) \<and> q_list (sd_local sd2) = [] \<and>
    q_list (sd_db sd2) = q_list (sd_db sd) @ map (\<lambda>t. \<lparr>tk_type = enum_code SOS_msg_type_vals t, tk_ref = a\<rparr>)
      ([SOS_MSG_TYPE_ANNOUNCE, SOS_MSG_TYPE_PUBLISH] @ (if queued pub = [] then [] else [SOS_MSG_TYPE_VAL_SNAPS])) \<and>
    pipe_content (sq_pipe (sd_snap_queue sd2)) = pipe_content (sq_pipe (sd_snap_queue sd)) @
      map (snap_received (\<lambda>i. clock (Suc i)) (pb_guid pub)) (zip [0..<length (queued pub)] (queued pub)) \<and>
    q_list (sd_cloud_send sd2) = q_list (sd_cloud_send sd) @ (if cx_role dcx = SOS_ROLE_LISTENER then fwd else []) \<and>
    list_all2 same_msg (ann # sent) fwd \<and> sd_shutdown sd2 = sd_shutdown sd"
proof -
  let ?m = "cx_mincap dcx"
  have "for_local ann" using assms(3,5) unfolding for_local_def by blast
  then have fl: "\<forall>b \<in> set (ann # sent). for_local b" using publish_msgs_for_local [OF assms(6,4)] by simp
  have "length (q_list (sd_local sd)) + length (ann # sent) + 1 \<le> ?m"
    using assms(10,13) publish_msgs_count [OF assms(6)] by (simp add: room_def del: length_pipe_content)
  moreover have "q_ok ?m (sd_local sd)" using assms(7) by (simp add: daemon_ok_def)
  ultimately obtain q bs buffer' where l: "SOSD_listen_all dcx server_uid other streams (sd, buffer) = Inr (sd\<lparr>sd_local := q\<rparr>, buffer')"
      "q_ok ?m q" "q_list q = q_list (sd_local sd) @ bs" "list_all2 same_msg (ann # sent) bs"
    using listen_all_queues [OF assms(15) fl assms(16,8)] by metis
  let ?s = "sd\<lparr>sd_local := q\<rparr>"
  have s: "daemon_ok ?m ?s" "pub_find ?s (pb_guid pub) = None" "q_list (sd_local ?s) = bs" "pool_ready 1 (sd_guid ?s)" "room ?m 3 ?s"
      "length (pipe_content (sq_pipe (sd_snap_queue ?s))) + length (queued pub) + 1 \<le> ?m"
    using assms(7,9,10,12,13,14) l(2,3) by (simp_all add: daemon_ok_def)
  from delivery_rounds [OF assms(1-6) s(1-3) l(4) assms(11) s(4-6), of clock'] l(1)
  show ?thesis by auto
qed

section \<open>Properties\<close>

text \<open>
  C1: What a client publishes reaches the daemon's queues. One call of \<open>SOS_publish\<close> for a handle
  that is not announced yet sends its messages; however the sockets split them, the daemon's
  listener queues them, and after as many rounds its local thread has a handle under the client's
  GUID in which every element has the client's definition and every dirty one the client's value,
  has put the tasks for the database in their order, and has appended the client's queued snapshots
  to its own, in their order. Its local queue is empty again.
\<close>

theorem publication_reaches_daemon:
  assumes "well_defined pub" and "typed_elems (pub_used pub)" and "24 + length (announce_body pub) \<le> MSG_LIMIT" and "sendable clock hi pub"
    and "\<not> pb_lock pub" and "pb_announced pub = 0" and "link_up cx" and "pb_snap_queue pub = Some q" and "queue_ok (cx_mincap cx) q"
    and "daemon_ok (cx_mincap dcx) sd" and "\<not> sd_shutdown sd" and "pub_find sd (pb_guid pub) = None" and "q_list (sd_local sd) = []"
    and "cx_role dcx \<noteq> SOS_ROLE_CLIENT" and "pool_ready 1 (sd_guid sd)" and "room (cx_mincap dcx) 3 sd"
    and "length (pipe_content (sq_pipe (sd_snap_queue sd))) + length (queued pub) + 1 \<le> cx_mincap dcx" and "fresh_msg buffer"
  shows "\<exists>pub' sent. SOS_publish cx hi clock pub = Inr (pub', sent) \<and>
    (\<forall>streams. list_all2 stream_of streams sent \<longrightarrow>
      (\<exists>sd1 buffer' sd2 a. SOSD_listen_all dcx server_uid other streams (sd, buffer) = Inr (sd1, buffer') \<and>
        SOSD_local_rounds dcx False clock' (length sent) sd1 = Inr sd2 \<and> daemon_ok (cx_mincap dcx) sd2 \<and>
        pub_find sd2 (pb_guid pub) = Some a \<and> holds (clock 0) pub (sd_pubs sd2 ! a) \<and> q_list (sd_local sd2) = [] \<and>
        q_list (sd_db sd2) = q_list (sd_db sd) @ map (\<lambda>t. \<lparr>tk_type = enum_code SOS_msg_type_vals t, tk_ref = a\<rparr>)
          ([SOS_MSG_TYPE_ANNOUNCE, SOS_MSG_TYPE_PUBLISH] @ (if queued pub = [] then [] else [SOS_MSG_TYPE_VAL_SNAPS])) \<and>
        pipe_content (sq_pipe (sd_snap_queue sd2)) = pipe_content (sq_pipe (sd_snap_queue sd)) @
          map (snap_received (\<lambda>i. clock (Suc i)) (pb_guid pub)) (zip [0..<length (queued pub)] (queued pub))))"
proof -
  have a: "announceable pub" using assms(1) by (simp add: well_defined_def)
  obtain pub' ann sent where p: "SOS_publish cx hi clock pub = Inr (pub', ann # sent)"
      "is_msg (msg_header_of SOS_MSG_TYPE_ANNOUNCE (cx_my_guid cx) (pb_guid pub)) (announce_body pub) ann" "publish_msgs cx hi clock pub sent"
    using SOS_publish_first [OF a assms(3,5,7,4,8,9,6)] by blast
  show ?thesis
    using p(1) delivery [OF assms(1-4) p(2,3) assms(10-17) _ assms(18)] by blast
qed

text \<open>The bytes of a message in one piece.\<close>

lemma stream_of_whole:
  assumes "is_msg h e b"
  shows "stream_of [Recv (take (buf_len b) (buf_data b))] b"
proof -
  have "length (take (buf_len b) (buf_data b)) = 24 + length e" unfolding is_msg_bytes [OF assms] by simp
  then show ?thesis by (auto simp: stream_of_def stream_ok_def)
qed

lemma streams_exist: "\<forall>b \<in> set msgs. for_local b \<Longrightarrow> list_all2 stream_of (map (\<lambda>b. [Recv (take (buf_len b) (buf_data b))]) msgs) msgs"
  by (induction msgs) (auto simp: for_local_def intro: stream_of_whole)

definition example_daemon_ctx :: SOS_ctx where
  "example_daemon_ctx = example_ctx\<lparr>cx_role := SOS_ROLE_LISTENER\<rparr>"

lemma example_typed: "typed_elems (pub_used example_source)"
  by (simp add: typed_elems_def example_used val_fits_def) (simp add: example_elem_def new_data_def SOS_val_type_enum.decode_code)

text \<open>A client with one dirty element and one queued snapshot.\<close>

lemma example_client:
  obtains q pub where "pub = example_source\<lparr>pb_snap_queue := Some q\<rparr>" and "queue_ok 5 q" and "queued pub = [example_snap]"
    and "well_defined pub" and "typed_elems (pub_used pub)" and "24 + length (announce_body pub) \<le> MSG_LIMIT"
    and "sendable (\<lambda>_. Fin 0) 0 pub" and "pub_used pub = [example_elem]" and "\<not> pb_lock pub" and "pb_announced pub = 0" and "pb_guid pub = pb_guid example_source"
proof -
  obtain q q0 where q: "queue_ok 5 q" "pipe_content (sq_pipe q) = [example_snap]" by (rule example_queue)
  let ?pub = "example_source\<lparr>pb_snap_queue := Some q\<rparr>"
  have d: "pb_data ?pub = [example_elem]" "pb_snap_queue ?pub = Some q" "\<not> pb_lock ?pub" "pb_announced ?pub = 0"
    by (simp_all add: example_source_def example_pub_def)
  note s = example_snaps_sendable [OF d(2) q(2) d(1)]
  have u: "pub_used ?pub = pub_used example_source" "meta_args ?pub = meta_args example_source" "pub_strings ?pub = pub_strings example_source"
    by (simp_all add: pub_used_def meta_args_def pub_strings_def)
  then have b: "announce_body ?pub = announce_body example_source" "publish_body 0 (Fin 0) ?pub = publish_body 0 (Fin 0) example_source"
    by (simp_all add: announce_body_def publish_body_def)
  have w: "well_defined ?pub" using example_well_defined u by (auto simp: well_defined_def announceable_def)
  have "sendable (\<lambda>_. Fin 0) 0 ?pub"
    using s(1) b(2) example_bodies u(1) by (simp add: sendable_def publishable_def)
  then show ?thesis
    using that [OF refl q(1) s(2) w] u(1) b(1) example_bodies(1) d(3,4) example_typed by (simp add: example_used)
qed

lemma example_daemon:
  obtains sd where "SOSD_init 5 1 0 = Inr sd" and "daemon_ok 5 sd" and "\<not> sd_shutdown sd" and "\<And>g. pub_find sd g = None"
    and "q_list (sd_local sd) = []" and "pool_ready 1 (sd_guid sd)" and "room 5 3 sd"
    and "pipe_content (sq_pipe (sd_snap_queue sd)) = []" and "q_list (sd_db sd) = []" and "sd_running sd"
proof -
  obtain sd where sd: "SOSD_init 5 1 0 = Inr sd \<and> daemon_ok 5 sd \<and> sd_pubs sd = [] \<and> (\<forall>g. pub_find sd g = None) \<and>
    q_list (sd_local sd) = [] \<and> q_list (sd_cloud_send sd) = [] \<and> q_list (sd_db sd) = [] \<and>
    pipe_content (sq_pipe (sd_snap_queue sd)) = [] \<and> sd_guid sd = SOSD_guid_range 1 0 \<and> \<not> sd_shutdown sd \<and> sd_running sd"
    using SOSD_init_ok [of 5 1 0] by auto
  moreover have "pool_ready 1 (SOSD_guid_range 1 0)"
    by (simp add: pool_ready_def SOSD_guid_range_def SOS_uid_init_def Let_def SOS_DEFAULT_UID_MAX_def)
  ultimately show ?thesis using that by (simp add: room_def flip: length_pipe_content)
qed

theorem publication_reaches_daemon_witness:
  "\<exists>pub pub' sent streams sd sd1 buffer' sd2 a. queued pub = [example_snap] \<and> pub_used pub = [example_elem] \<and> SOSD_init 5 1 0 = Inr sd \<and>
    SOS_publish example_ctx 0 (\<lambda>_. Fin 0) pub = Inr (pub', sent) \<and> list_all2 stream_of streams sent \<and>
    SOSD_listen_all example_daemon_ctx 1 (\<lambda>_ sd b. Inr (sd, b, None)) streams (sd, SOS_buffer_init) = Inr (sd1, buffer') \<and>
    SOSD_local_rounds example_daemon_ctx False (\<lambda>_. Fin 0) (length sent) sd1 = Inr sd2 \<and> pub_find sd2 (pb_guid pub) = Some a \<and>
    dt_val (pb_data (sd_pubs sd2 ! a) ! 0) = Val_i 21 \<and> length (q_list (sd_db sd2)) = 3 \<and>
    map sn_val (pipe_content (sq_pipe (sd_snap_queue sd2))) = [Val_i 21]"
proof -
  obtain q pub where c: "pub = example_source\<lparr>pb_snap_queue := Some q\<rparr>" "queue_ok 5 q" "queued pub = [example_snap]" "well_defined pub"
      "typed_elems (pub_used pub)" "24 + length (announce_body pub) \<le> MSG_LIMIT" "sendable (\<lambda>_. Fin 0) 0 pub" "pub_used pub = [example_elem]"
      "\<not> pb_lock pub" "pb_announced pub = 0"
    by (rule example_client) blast
  obtain sd where d: "SOSD_init 5 1 0 = Inr sd" "daemon_ok 5 sd" "\<not> sd_shutdown sd" "\<And>g. pub_find sd g = None"
      "q_list (sd_local sd) = []" "pool_ready 1 (sd_guid sd)" "room 5 3 sd" "pipe_content (sq_pipe (sd_snap_queue sd)) = []" "q_list (sd_db sd) = []"
    by (rule example_daemon) blast
  let ?f = "\<lambda>b. [Recv (take (buf_len b) (buf_data b))]"
  have m: "cx_mincap example_ctx = 5" "cx_mincap example_daemon_ctx = 5" "cx_role example_daemon_ctx \<noteq> SOS_ROLE_CLIENT" "link_up example_ctx"
    by (simp_all add: example_ctx_def example_daemon_ctx_def link_up_def)
  have sq: "pb_snap_queue pub = Some q" by (simp add: c(1))
  have rm: "length (pipe_content (sq_pipe (sd_snap_queue sd))) + length (queued pub) + 1 \<le> 5"
    using c(3) d(8) by (simp del: length_pipe_content)
  from publication_reaches_daemon [of pub "\<lambda>_. Fin 0" 0 example_ctx q example_daemon_ctx sd SOS_buffer_init 1 "\<lambda>_ sd b. Inr (sd, b, None)" "\<lambda>_. Fin 0",
      unfolded m(1,2), OF c(4-7,9,10) m(4) sq c(2) d(2,3,4,5) m(3) d(6,7) rm fresh_msg_init]
  obtain pub' sent where p: "SOS_publish example_ctx 0 (\<lambda>_. Fin 0) pub = Inr (pub', sent)" and
    del: "\<And>streams. list_all2 stream_of streams sent \<Longrightarrow>
      (\<exists>sd1 buffer' sd2 a. SOSD_listen_all example_daemon_ctx 1 (\<lambda>_ sd b. Inr (sd, b, None)) streams (sd, SOS_buffer_init) = Inr (sd1, buffer') \<and>
        SOSD_local_rounds example_daemon_ctx False (\<lambda>_. Fin 0) (length sent) sd1 = Inr sd2 \<and> daemon_ok 5 sd2 \<and>
        pub_find sd2 (pb_guid pub) = Some a \<and> holds (Fin 0) pub (sd_pubs sd2 ! a) \<and> q_list (sd_local sd2) = [] \<and>
        q_list (sd_db sd2) = q_list (sd_db sd) @ map (\<lambda>t. \<lparr>tk_type = enum_code SOS_msg_type_vals t, tk_ref = a\<rparr>)
          ([SOS_MSG_TYPE_ANNOUNCE, SOS_MSG_TYPE_PUBLISH] @ (if queued pub = [] then [] else [SOS_MSG_TYPE_VAL_SNAPS])) \<and>
        pipe_content (sq_pipe (sd_snap_queue sd2)) = pipe_content (sq_pipe (sd_snap_queue sd)) @
          map (snap_received (\<lambda>i. Fin 0) (pb_guid pub)) (zip [0..<length (queued pub)] (queued pub)))"
    by blast
  have an: "announceable pub" using c(4) by (simp add: well_defined_def)
  have "\<forall>b \<in> set sent. for_local b"
  proof -
    obtain pub'' ann sent' where s: "SOS_publish example_ctx 0 (\<lambda>_. Fin 0) pub = Inr (pub'', ann # sent')"
        "is_msg (msg_header_of SOS_MSG_TYPE_ANNOUNCE (cx_my_guid example_ctx) (pb_guid pub)) (announce_body pub) ann"
        "publish_msgs example_ctx 0 (\<lambda>_. Fin 0) pub sent'"
      using SOS_publish_first [OF an c(6,9) m(4) c(7) sq _ c(10)] m(1) c(2) by auto
    have "for_local ann" using s(2) c(6) unfolding for_local_def by blast
    then show ?thesis using publish_msgs_for_local [OF s(3) c(7)] s(1) p by auto
  qed
  then have st: "list_all2 stream_of (map ?f sent) sent" by (rule streams_exist)
  from del [OF st] obtain sd1 buffer' sd2 a where r:
    "SOSD_listen_all example_daemon_ctx 1 (\<lambda>_ sd b. Inr (sd, b, None)) (map ?f sent) (sd, SOS_buffer_init) = Inr (sd1, buffer')"
    "SOSD_local_rounds example_daemon_ctx False (\<lambda>_. Fin 0) (length sent) sd1 = Inr sd2" "pub_find sd2 (pb_guid pub) = Some a"
    "holds (Fin 0) pub (sd_pubs sd2 ! a)"
    "q_list (sd_db sd2) = q_list (sd_db sd) @ map (\<lambda>t. \<lparr>tk_type = enum_code SOS_msg_type_vals t, tk_ref = a\<rparr>)
      ([SOS_MSG_TYPE_ANNOUNCE, SOS_MSG_TYPE_PUBLISH] @ (if queued pub = [] then [] else [SOS_MSG_TYPE_VAL_SNAPS]))"
    "pipe_content (sq_pipe (sd_snap_queue sd2)) = pipe_content (sq_pipe (sd_snap_queue sd)) @
          map (snap_received (\<lambda>i. Fin 0) (pb_guid pub)) (zip [0..<length (queued pub)] (queued pub))"
    by blast
  have "dt_val (pb_data (sd_pubs sd2 ! a) ! 0) = Val_i 21"
    using r(4) c(8) by (simp add: holds_def example_elem_enc received_elem_def) (simp add: example_elem_def)
  moreover have "length (q_list (sd_db sd2)) = 3" unfolding r(5) d(9) using c(3) by simp
  moreover have "map sn_val (pipe_content (sq_pipe (sd_snap_queue sd2))) = [Val_i 21]"
    unfolding r(6) d(8) by (simp add: c(3) snap_received_def example_snap_def)
  ultimately show ?thesis
    using c(3,8) d(1) p st r(1-3)
    by (intro exI [of _ pub] exI [of _ pub'] exI [of _ sent] exI [of _ "map ?f sent"] exI [of _ sd] exI [of _ sd1] exI [of _ buffer']
        exI [of _ sd2] exI [of _ a] conjI)
qed



text \<open>
  C38: Snapshots for a publication the daemon does not know are used after they are freed: the
  handler destroys the message, and the thread that called it queues the destroyed buffer for the
  cloud (listener) or destroys it again (aggregator).
\<close>

theorem unknown_snapshots_use_after_free:
  assumes "is_msg (msg_header_of SOS_MSG_TYPE_VAL_SNAPS source guid) e buffer" and "pub_find sd guid = None"
    and "cx_role cx \<in> {SOS_ROLE_LISTENER, SOS_ROLE_AGGREGATOR}"
  shows "SOSD_dispatch_local cx db_disabled clock sd buffer = Inl Use_After_Free"
proof -
  obtain b1 h1 where b1: "SOS_msg_unzip buffer 0 = Inr (b1, h1, 24)" "is_msg (msg_header_of SOS_MSG_TYPE_VAL_SNAPS source guid) e b1"
      "enum_decode SOS_msg_type_vals (hd_msg_type h1) = Some SOS_MSG_TYPE_VAL_SNAPS"
    using dispatch_start [OF assms(1)] by blast
  obtain b2 h2 where b2: "SOS_msg_unzip b1 0 = Inr (b2, h2, 24)" "is_msg (msg_header_of SOS_MSG_TYPE_VAL_SNAPS source guid) e b2" "hd_ref_guid h2 = guid"
    using dispatch_start [OF b1(2)] by blast
  have "SOSD_handle_val_snaps cx db_disabled clock sd b1 = Inr (sd, None)"
    using b2 assms(2) SOS_buffer_destroy_free [OF is_msg_unlocked [OF b2(2)]] by (simp add: SOSD_handle_val_snaps_def)
  then show ?thesis using b1(1,3) assms(3) by (auto simp: SOSD_dispatch_local_def SOSD_forward_def)
qed

theorem unknown_snapshots_use_after_free_witness:
  "\<exists>b sd. SOSD_init 5 1 0 = Inr sd \<and> is_msg (msg_header_of SOS_MSG_TYPE_VAL_SNAPS 1 2) (encode [ArgI 1]) b \<and>
    SOSD_dispatch_local example_daemon_ctx False (\<lambda>_. Fin 0) sd b = Inl Use_After_Free"
proof -
  obtain sd where sd: "SOSD_init 5 1 0 = Inr sd" "\<And>g. pub_find sd g = None" by (rule example_daemon) blast
  have "appends (pack_fields ''i'' [ArgI 1]) (encode [ArgI 1])" by (rule appends_fields) (simp_all add: SOS_DEFAULT_BUFFER_MAX_def)
  then obtain b where b: "is_msg (msg_header_of SOS_MSG_TYPE_VAL_SNAPS 1 2) (encode [ArgI 1]) b"
    using write_msg_is_msg [OF fresh_msg_init, of "pack_fields ''i'' [ArgI 1]" "encode [ArgI 1]" "msg_header_of SOS_MSG_TYPE_VAL_SNAPS 1 2"]
    by (auto simp: MSG_LIMIT_def)
  show ?thesis using unknown_snapshots_use_after_free [OF b sd(2), of example_daemon_ctx] sd(1) b by (force simp: example_daemon_ctx_def)
qed

text \<open>
  Changing the depth of a publication's cache never keeps a frame: shrinking it, or setting
  the depth it has, leaves a cache of empty slots, and growing it, which should copy the old slots,
  copies from where the head slot points to, so that the new slots are no valid pointers.
\<close>

theorem resizing_loses_cache:
  assumes "cache_ok pub"
  shows "if sint to_size \<le> sint (pb_cache_depth pub)
    then cache_resize pub to_size = Inr (replicate (nat (sint to_size)) (Chain []))
    else \<exists>e. cache_resize pub to_size = Inl e"
  using assms by (auto simp: cache_ok_def cache_resize_def Let_def checkR_def)

theorem resizing_loses_cache_witness:
  "\<exists>e pub. pb_cache pub = Some [Chain [example_snap], Chain []] \<and>
    cache_resize pub 2 = Inr [Chain [], Chain []] \<and> cache_resize pub 4 = Inl e"
proof -
  let ?pub = "example_pub\<lparr>pb_cache := Some [Chain [example_snap], Chain []], pb_cache_depth := 2, pb_cache_head := 0\<rparr>"
  have "cache_ok ?pub" by (simp add: cache_ok_def example_pub_def SOS_nature_enum.code_inject)
  from resizing_loses_cache [OF this, of 2] resizing_loses_cache [OF this, of 4] show ?thesis
    by (intro exI [of _ "projl (cache_resize ?pub 4)"] exI [of _ ?pub]) (auto split: if_splits simp: numeral_2_eq_2)
qed

end
