(* ===== verification/SOS_Feedback.thy ===== *)
theory SOS_Feedback
  imports SOS_Register
begin

text \<open>
  Feedback: a client that is sensitive to a name is called when any program pulls the trigger of that name.

  \<open>SOS_sense_register\<close> and \<open>SOS_sense_trigger\<close> (\<open>sos.c\<close>) send the two messages; the handlers of the daemon are in
  \<open>SOS_Daemon\<close>; here are its feedback thread (\<open>SOSD_THREAD_feedback_sync\<close>), which delivers payloads and tables of results, and the thread
  of the client that receives (\<open>SOS_THREAD_receives_direct\<close>). \<open>feedback_reaches_subscribers\<close> joins them.
\<close>

section \<open>The client\<close>

text \<open>Both return the message they handed to the daemon. A registration leaves its buffers allocated.\<close>

definition SOS_sense_register :: "SOS_ctx \<Rightarrow> i32 \<Rightarrow> cstring \<Rightarrow> SOS_buffer res" where
  "SOS_sense_register cx receives_port handle =
     bindR (write_msg (msg_header_of SOS_MSG_TYPE_SENSITIVITY (cx_my_guid cx) 0)
        (pack_fields ''ssi'' [ArgS handle, ArgS (cx_node_id cx), ArgI receives_port]) (SOS_buffer_init_sized 1024)) (\<lambda>msg.
     bindR (cx_send cx msg (SOS_buffer_init_sized 256)) (\<lambda>_. Inr msg))"

definition SOS_sense_trigger :: "SOS_ctx \<Rightarrow> cstring \<Rightarrow> cstring \<Rightarrow> i32 \<Rightarrow> SOS_buffer res" where
  "SOS_sense_trigger cx handle data data_length =
     bindR (write_msg (msg_header_of SOS_MSG_TYPE_TRIGGERPULL (cx_my_guid cx) 0)
        (pack_fields ''sis'' [ArgS handle, ArgI data_length, ArgS data])
        (SOS_buffer_wipe (SOS_buffer_init_sized (nat (sint data_length + 256))))) (\<lambda>msg.
     bindR (cx_send cx msg (SOS_buffer_wipe (SOS_buffer_init_sized 256))) (\<lambda>reply.
     bindR (SOS_buffer_destroy (Some msg)) (\<lambda>_.
     bindR (SOS_buffer_destroy (Some reply)) (\<lambda>_. Inr msg))))"

text \<open>
  What the thread hands to the function of the program: the size and a copy of the payload with a byte behind it, or
  the message with the results of a query. A failed receive (-1) is read as a message, as in the daemon.
\<close>

datatype client_feedback = Fb_Payload i32 "byte list" | Fb_Query SOS_buffer

definition SOS_receives_step ::
    "bool \<Rightarrow> recv_result list \<Rightarrow> SOS_buffer \<Rightarrow> (SOS_buffer \<times> recv_result list \<times> client_feedback option) res" where
  "SOS_receives_step shutdown recvs buffer =
     (if shutdown then Inr (SOS_buffer_wipe buffer, recvs, None)
      else
        bindR (SOS_target_recv_msg False recvs (Some (SOS_buffer_wipe buffer))) (\<lambda>(buffer, recvs, i).
        case buffer of None \<Rightarrow> Inl Null_Deref | Some buffer \<Rightarrow>
        if 0 \<le> i \<and> i < 24 then Inr (buffer, recvs, None)
        else
          bindR (SOS_msg_unzip buffer 0) (\<lambda>(buffer, header, offset).
          if hd_msg_type header = enum_code SOS_feedback_type_vals SOS_FEEDBACK_TYPE_QUERY then Inr (buffer, recvs, Some (Fb_Query buffer))
          else if hd_msg_type header = enum_code SOS_feedback_type_vals SOS_FEEDBACK_TYPE_PAYLOAD
          then bindR (SOS_buffer_unpack buffer offset ''i'' [DestI]) (\<lambda>(buffer, offset, _, outs).
               bindR (out_i outs) (\<lambda>payload_size.
               checkR (0 \<le> sint payload_size) Out_Of_Bounds
                 (bindR (mem_read offset (nat (sint payload_size)) (buf_data buffer)) (\<lambda>bs.
                  Inr (buffer, recvs, Some (Fb_Payload payload_size (bs @ [0])))))))
          else Inr (buffer, recvs, None))))"

section \<open>The feedback thread of the daemon\<close>

text \<open>
  The list of the sensitive clients is walked once. A client that cannot be reached is taken out; when it is the
  first one the walk is over. \<open>up\<close> says to whom a connection can be made; the results are the new list and those
  that were sent the message.
\<close>

fun sense_walk ::
    "(SOSD_sensitivity_entry \<Rightarrow> bool) \<Rightarrow> byte list option \<Rightarrow> bool \<Rightarrow> SOSD_sensitivity_entry list \<Rightarrow>
     (SOSD_sensitivity_entry list \<times> SOSD_sensitivity_entry list) res" where
  "sense_walk up handle at_head [] = Inr ([], [])"
| "sense_walk up handle at_head (e # es) =
     (case (handle, se_sense_handle e) of
        (Some h, Some g) \<Rightarrow>
          if cstr h = cstr g
          then if up e then bindR (sense_walk up handle False es) (\<lambda>(kept, served). Inr (e # kept, e # served))
               else if at_head then Inr (es, [])
               else sense_walk up handle False es
          else bindR (sense_walk up handle False es) (\<lambda>(kept, served). Inr (e # kept, served))
      | _ \<Rightarrow> Inl Null_Deref)"

definition payload_msg :: "i32 \<Rightarrow> SOSD_feedback_payload \<Rightarrow> SOS_buffer \<Rightarrow> SOS_buffer res" where
  "payload_msg comm_rank payload delivery =
     (let header = \<lparr>hd_msg_size = - 1, hd_msg_type = enum_code SOS_feedback_type_vals SOS_FEEDBACK_TYPE_PAYLOAD,
                    hd_msg_from = scast comm_rank, hd_ref_guid = 0\<rparr>
      in write_msg header (\<lambda>(d, offset).
           bindR (SOS_buffer_pack_bytes d offset (sint (pl_size payload)) (case pl_data payload of None \<Rightarrow> [] | Some bs \<Rightarrow> bs)) (\<lambda>(d, offset, _).
           Inr (d, offset))) (SOS_buffer_wipe delivery))"

text \<open>
  One round. The thread has two buffers, one for payloads and one for results. \<open>resolves\<close> says whether a socket can be
  set up for a host and a port. A failure to connect is only logged. What was sent, and to whom, is the last result.
\<close>

datatype feedback_sent = Sent_Nothing | Sent_Payload "SOSD_sensitivity_entry list" | Sent_Results "byte list option" i32

definition send_results ::
    "SOS_ctx \<Rightarrow> (byte list option \<Rightarrow> i32 \<Rightarrow> bool) \<Rightarrow> byte list option \<Rightarrow> i32 \<Rightarrow> SOSA_results \<Rightarrow> SOS_buffer \<Rightarrow> (SOS_buffer \<times> feedback_sent) res" where
  "send_results cx resolves host port results results_reply_msg =
     (if \<not> resolves host port then Inr (results_reply_msg, Sent_Nothing)
      else bindR (SOSA_results_to_buffer (cx_comm_rank cx) (SOS_buffer_wipe results_reply_msg) results) (\<lambda>(msg, _). Inr (msg, Sent_Results host port)))"

definition SOSD_feedback_sync_step ::
    "SOS_ctx \<Rightarrow> (SOSD_sensitivity_entry \<Rightarrow> bool) \<Rightarrow> (byte list option \<Rightarrow> i32 \<Rightarrow> bool) \<Rightarrow> SOSD \<Rightarrow> SOS_buffer \<times> SOS_buffer \<Rightarrow>
     (SOSD \<times> (SOS_buffer \<times> SOS_buffer) \<times> feedback_sent) res" where
  "SOSD_feedback_sync_step cx up resolves sd = (\<lambda>(delivery, results_reply_msg).
     let q = sd_feedback sd
     in bindR (pipe_pop_eager (cx_mincap cx) (Feedback_Payload \<lparr>pl_handle = None, pl_size = 0, pl_data = None\<rparr>) (qu_pipe q) 1) (\<lambda>(p, tasks).
        let sd' = sd\<lparr>sd_feedback := q\<lparr>qu_pipe := p, qu_elem_count := qu_elem_count q - 1\<rparr>\<rparr>
        in case tasks of
             [] \<Rightarrow> Inr (sd, (delivery, results_reply_msg), Sent_Nothing)
           | task # _ \<Rightarrow>
               checkR (\<not> qu_sync_lock q) Deadlock
                 (case task of
                    Feedback_Cache cache \<Rightarrow>
                      bindR (send_results cx resolves (cg_reply_host cache) (cg_reply_port cache) (cg_results cache) results_reply_msg) (\<lambda>(msg, sent).
                      Inr (sd', (delivery, msg), sent))
                  | Feedback_Query query \<Rightarrow>
                      (case qh_results query of
                         None \<Rightarrow> Inl Null_Deref
                       | Some results \<Rightarrow>
                           bindR (send_results cx resolves (qh_reply_host query) (qh_reply_port query) results results_reply_msg) (\<lambda>(msg, sent).
                           Inr (sd', (delivery, msg), sent)))
                  | Feedback_Payload payload \<Rightarrow>
                      bindR (payload_msg (cx_comm_rank cx) payload delivery) (\<lambda>delivery.
                      bindR (sense_walk up (pl_handle payload) True (sd_sense_list sd)) (\<lambda>(kept, served).
                      Inr (sd'\<lparr>sd_sense_list := kept\<rparr>, (delivery, results_reply_msg), Sent_Payload served))))))"

section \<open>Messages in a block that is large enough\<close>

lemma write_msg_over:
  assumes "data_is b [] rest" and "buf_len b = 0" and "\<forall>a \<in> set args. arg_ok a" and "24 + length (encode args) \<le> length rest" and "48 \<le> length rest"
  shows "\<exists>b'. write_msg h (pack_fields (map fmt_of args) args) b = Inr b' \<and>
    data_is b' (encode (header_args (h\<lparr>hd_msg_size := word_of_nat (24 + length (encode args))\<rparr>)) @ encode args) (drop (24 + length (encode args)) rest) \<and>
    buf_len b' = 24 + length (encode args)"
proof -
  let ?n = "24 + length (encode args)"
  let ?h = "h\<lparr>hd_msg_size := word_of_nat ?n\<rparr>"
  obtain b1 where b1: "SOS_msg_zip b h 0 = Inr (b1, 24, 24)" "data_is b1 (encode (header_args h)) (drop 24 rest)" "buf_len b1 = 24"
    using zip_over [OF assms(1), of h] assms(2,5) by auto
  have room: "length (encode args) \<le> length (drop 24 rest)" "length (encode (header_args h)) \<le> length (drop 24 rest)" using assms(4,5) by auto
  obtain b2 where b2: "SOS_buffer_pack b1 24 (map fmt_of args) args = Inr (b2, ?n, length (encode args))"
      "data_is b2 (encode (header_args h) @ encode args) (drop (length (encode args)) (drop 24 rest))" "buf_len b2 = ?n"
    using pack_over [OF b1(2) assms(3) room] b1(3) by auto
  obtain b3 where b3: "SOS_msg_zip b2 ?h 0 = Inr (b3, 24, 24)"
      "data_is b3 (encode (header_args ?h) @ encode args) (drop (length (encode args)) (drop 24 rest))" "buf_len b3 = ?n"
    using zip_again [OF b2(2), of ?h] b2(3) by auto
  have "write_msg h (pack_fields (map fmt_of args) args) b = Inr b3"
    using b1(1) b2(1) b3(1) by (simp add: write_msg_def pack_fields_def)
  then show ?thesis using b3(2,3) by (intro exI [of _ b3]) (simp add: add.commute)
qed

lemma data_is_wiped: "\<not> buf_lock b \<Longrightarrow> data_is (SOS_buffer_wipe b) [] (replicate (buf_max b) 0)"
  and data_is_sized: "data_is (SOS_buffer_init_sized n) [] (replicate n 0)"
  by (simp_all add: data_is_def SOS_buffer_wipe_def SOS_buffer_init_sized_def SOS_buffer_init_sized_locking_def)

lemma ack_reply_ok: "24 \<le> n \<Longrightarrow> \<exists>r. ack_reply n l = Inr r"
proof -
  assume n: "24 \<le> n"
  let ?b = "SOS_buffer_init_sized_locking n l" and ?h = "msg_header_of SOS_MSG_TYPE_ACK 0 0"
  have d: "data_is ?b [] (replicate n 0)" by (simp add: data_is_def SOS_buffer_init_sized_locking_def)
  obtain b1 where b1: "SOS_msg_zip ?b ?h 0 = Inr (b1, 24, 24)" "data_is b1 (encode (header_args ?h) @ []) (replicate (n - 24) 0)"
    using zip_over [OF d, of ?h] n by auto
  obtain b2 where b2: "SOS_msg_zip b1 (?h\<lparr>hd_msg_size := 24\<rparr>) 0 = Inr (b2, 24, 24)" "\<not> buf_lock b2"
    using zip_again [OF b1(2), of "?h\<lparr>hd_msg_size := 24\<rparr>"] by (auto simp: data_is_def)
  have "SOSD_PACK_ACK ?b = Inr b2" using b1(1) b2(1) by (simp add: SOSD_PACK_ACK_def Let_def msg_header_of_def)
  then show ?thesis using SOS_buffer_destroy_free [OF b2(2)] by (simp add: ack_reply_def)
qed

lemma receiving_safestr:
  assumes "receiving b (xs @ encode [ArgS s] @ zs)" and "wf_cstring s" and "length s < INT_MAX"
  shows "SOS_buffer_unpack_safestr b (length xs) = Inr (b, length xs + (4 + length s), Some (s @ [0]))"
proof -
  have "packed_prefix b (buf_len b) = xs @ encode [ArgS s] @ zs" and "buffer_wf b" using assms(1) by (auto simp: receiving_def packed_prefix_def)
  then show ?thesis using SOS_buffer_unpack_safestr_ok [OF _ assms(2,3) packed_prefix_mem_at] by blast
qed

text \<open>Packing bytes that fit, from a block that may be longer.\<close>

lemma pack_bytes_over:
  assumes "data_is b bs rest" and "cs \<noteq> []" and "4 + length cs \<le> length rest" and "length bs \<le> length rest"
  shows "\<exists>b'. SOS_buffer_pack_bytes b (length bs) (int (length cs)) (cs @ extra) = Inr (b', length bs + (4 + length cs), 4 + length cs) \<and>
    data_is b' (bs @ encode [ArgI (word_of_nat (length cs))] @ cs) (drop (4 + length cs) rest) \<and>
    buf_len b' = max (buf_len b) (length bs + (4 + length cs))"
proof -
  let ?h = "SOS_buffer_packi32 (word_of_nat (length cs))"
  have b: "buf_data b = bs @ rest" "buf_max b = length bs + length rest" "\<not> buf_lock b" using assms(1) by (auto simp: data_is_def)
  have w1: "mem_write (length bs) ?h (bs @ rest) = Inr (bs @ ?h @ drop 4 rest)" using assms(3) by (simp add: mem_write_ok)
  have w2: "mem_write (length bs + 4) cs (bs @ ?h @ drop 4 rest) = Inr (bs @ ?h @ cs @ drop (4 + length cs) rest)"
    using assms(3) by (simp add: mem_write_ok add.commute)
  have r: "mem_read 0 (length cs) (cs @ extra) = Inr cs" by (simp add: mem_read_def)
  have n: "\<not> int (length cs) < 1" using assms(2) by (cases cs) simp_all
  have half: "\<not> buf_max b div 2 < length bs" using assms(4) b(2) by linarith
  have room: "pack_bytes_room b (length bs + 4 + length cs) = Inr b" using assms(3) b(2) by (intro pack_bytes_room_fits) simp
  have "SOS_buffer_pack_bytes b (length bs) (int (length cs)) (cs @ extra) =
      Inr (b\<lparr>buf_data := bs @ ?h @ cs @ drop (4 + length cs) rest, buf_len := max (buf_len b) (length bs + (4 + length cs))\<rparr>,
        length bs + (4 + length cs), 4 + length cs)"
    using half b w1 w2 r n room by (simp add: SOS_buffer_pack_bytes_def Let_def)
  then show ?thesis using assms(3) b by (simp add: data_is_def)
qed

section \<open>Pulling a trigger\<close>

abbreviation trigger_args :: "cstring \<Rightarrow> nat \<Rightarrow> cstring \<Rightarrow> pack_arg list" where
  "trigger_args handle n data \<equiv> [ArgS handle, ArgI (word_of_nat n), ArgS data]"

abbreviation trigger_header :: "u64 \<Rightarrow> cstring \<Rightarrow> nat \<Rightarrow> cstring \<Rightarrow> SOS_msg_header" where
  "trigger_header g handle n data \<equiv>
     (msg_header_of SOS_MSG_TYPE_TRIGGERPULL g 0)\<lparr>hd_msg_size := word_of_nat (24 + length (encode (trigger_args handle n data)))\<rparr>"

definition payload_ok :: "cstring \<Rightarrow> nat \<Rightarrow> cstring \<Rightarrow> bool" where
  "payload_ok handle n data \<longleftrightarrow> wf_cstring handle \<and> length handle \<le> 200 \<and> wf_cstring data \<and> length data \<le> n \<and> n \<le> MSG_LIMIT - 1000"

lemma payload_ok_sizes:
  assumes "payload_ok handle n data"
  shows "\<forall>a \<in> set (trigger_args handle n data). arg_ok a" and "24 + length (encode (trigger_args handle n data)) \<le> MSG_LIMIT"
    and "sint (word_of_nat n :: i32) = int n" and "length handle < INT_MAX" and "length data < INT_MAX"
    and "nat (sint (word_of_nat n :: i32) + 256) = n + 256"
proof -
  show "\<forall>a \<in> set (trigger_args handle n data). arg_ok a" "24 + length (encode (trigger_args handle n data)) \<le> MSG_LIMIT"
    "length handle < INT_MAX" "length data < INT_MAX"
    using assms by (auto simp: payload_ok_def MSG_LIMIT_def INT_MAX_def)
  have l: "n + 256 < 2 ^ 31" using assms by (simp add: payload_ok_def MSG_LIMIT_def)
  then show "sint (word_of_nat n :: i32) = int n" by (intro sint_word_of_nat_small) simp
  then have "sint (word_of_nat n :: i32) + 256 = int (n + 256)" using sint_word_of_nat_small [of n] by simp
  then show "nat (sint (word_of_nat n :: i32) + 256) = n + 256"
    by (simp only: nat_int)
qed

lemma SOS_sense_trigger_ok:
  assumes "payload_ok handle n data" and "link_up cx"
  shows "\<exists>msg rest. SOS_sense_trigger cx handle data (word_of_nat n) = Inr msg \<and>
    data_is msg (encode (header_args (trigger_header (cx_my_guid cx) handle n data)) @ encode (trigger_args handle n data)) rest \<and>
    buf_len msg = 24 + length (encode (trigger_args handle n data)) \<and> buf_max msg \<le> INT_MAX"
proof -
  let ?n = "n + 256"
  let ?b = "SOS_buffer_wipe (SOS_buffer_init_sized ?n)"
  have b: "data_is ?b [] (replicate ?n 0)" "buf_len ?b = 0"
    using data_is_wiped [of "SOS_buffer_init_sized ?n"] by (simp_all add: SOS_buffer_wipe_def SOS_buffer_init_sized_def SOS_buffer_init_sized_locking_def)
  have room: "24 + length (encode (trigger_args handle n data)) \<le> length (replicate ?n (0 :: byte))" "48 \<le> length (replicate ?n (0 :: byte))"
    using assms(1) by (auto simp: payload_ok_def)
  obtain msg where m: "write_msg (msg_header_of SOS_MSG_TYPE_TRIGGERPULL (cx_my_guid cx) 0) (pack_fields ''sis'' (trigger_args handle n data)) ?b = Inr msg"
      "data_is msg (encode (header_args (trigger_header (cx_my_guid cx) handle n data)) @ encode (trigger_args handle n data))
        (drop (24 + length (encode (trigger_args handle n data))) (replicate ?n 0))"
      "buf_len msg = 24 + length (encode (trigger_args handle n data))"
    using write_msg_over [OF b payload_ok_sizes(1) [OF assms(1)] room] by auto
  obtain r where r: "cx_send cx msg (SOS_buffer_wipe (SOS_buffer_init_sized 256)) = Inr r" "\<not> buf_lock r"
    using link_upE [OF assms(2), of "SOS_buffer_wipe (SOS_buffer_init_sized 256)" msg] by (auto simp: SOS_buffer_wipe_def)
  have ml: "\<not> buf_lock msg" using m(2) by (simp add: data_is_def)
  have "SOS_sense_trigger cx handle data (word_of_nat n) = Inr msg"
    unfolding SOS_sense_trigger_def payload_ok_sizes(6) [OF assms(1)]
    using m(1) r(1) SOS_buffer_destroy_free [OF ml] SOS_buffer_destroy_free [OF r(2)] by simp
  moreover have "buf_max msg \<le> INT_MAX" using m(2) assms(1) by (simp add: data_is_def payload_ok_def MSG_LIMIT_def INT_MAX_def)
  ultimately show ?thesis using m(2,3) by blast
qed

text \<open>Wrapping for another daemon keeps the message.\<close>

lemma wrap_trigger_ok:
  assumes "receiving msg (encode (header_args h) @ body)" and "hd_msg_size h = word_of_nat (buf_len msg)" and "buf_len msg \<le> MSG_LIMIT" and "24 \<le> buf_len msg"
  shows "\<exists>w. wrap_trigger msg = Inr w \<and> receiving w (encode (header_args h) @ body) \<and> buf_len w = buf_len msg"
proof -
  let ?n = "buf_len msg"
  let ?bs = "encode (header_args h) @ body"
  let ?w = "SOS_buffer_init_sized_locking (?n + 4 + 1) False"
  let ?g = "?w\<lparr>buf_max := ?n + 5 + (?n + 2), buf_data := replicate (?n + 5 + (?n + 2)) 0\<rparr>"
  have len: "length ?bs = ?n" by (rule receiving_length [OF assms(1)])
  have g: "SOS_buffer_grow ?w (?n + 1) = Inr ?g"
    using assms(3) by (simp add: SOS_buffer_grow_def SOS_buffer_init_sized_locking_def Let_def MSG_LIMIT_def INT_MAX_def replicate_add [symmetric])
  have r: "mem_read 0 ?n (buf_data msg) = Inr ?bs"
    using assms(1) by (auto simp: receiving_def buffer_wf_def mem_read_def)
  have w: "mem_write 0 ?bs (buf_data ?g) = Inr (?bs @ replicate (?n + 7) 0)" using len by (simp add: mem_write_ok)
  let ?f = "?g\<lparr>buf_data := ?bs @ replicate (?n + 7) 0, buf_len := ?n\<rparr>"
  have h: "encode (header_args h) = encode [ArgI (word_of_nat ?n)] @ drop 4 (encode (header_args h))"
    using assms(2) by (simp add: header_args_def)
  have d: "data_is ?f [] (?bs @ replicate (?n + 7) 0)"
    using len by (simp add: data_is_def SOS_buffer_init_sized_locking_def)
  obtain f where f: "SOS_buffer_pack ?f 0 ''i'' [ArgI (word_of_nat ?n)] = Inr (f, 4, 4)"
      "data_is f (encode [ArgI (word_of_nat ?n)]) (drop 4 (?bs @ replicate (?n + 7) 0))" "buf_len f = ?n"
    using pack_over [OF d, of "[ArgI (word_of_nat ?n)]"] len assms(4) by auto
  have "wrap_trigger msg = Inr f" using g r w f(1) by (simp add: wrap_trigger_def)
  moreover have "receiving f ?bs"
  proof -
    have "buf_data f = ?bs @ replicate (?n + 7) 0"
      using f(2) h by (simp add: data_is_def)
    then show ?thesis
      using f(2,3) len assms(3) by (auto simp: receiving_def buffer_wf_def data_is_def MSG_LIMIT_def INT_MAX_def)
  qed
  ultimately show ?thesis using f(3) by blast
qed

text \<open>A complete message reaches the dispatch of the listener.\<close>

lemma listen_receives:
  assumes "data_is msg (encode (header_args h) @ body) rest" and "buf_len msg = 24 + length body" and "buf_max msg \<le> INT_MAX"
    and "hd_msg_size h = word_of_nat (24 + length body)" and "24 + length body \<le> MSG_LIMIT" and "stream_of rs msg"
    and "\<not> sd_shutdown sd" and "fresh_msg buffer" and "enum_decode SOS_msg_type_vals (hd_msg_type h) = Some t"
  shows "\<exists>b. receiving b (encode (header_args h) @ body) \<and> buf_len b = buf_len msg \<and> fresh_msg (SOS_buffer_wipe b) \<and>
    SOSD_listen_step cx u other rs sd buffer = bindR (SOSD_listen_dispatch cx u other (Some t) sd b) (\<lambda>(sd, b, reply). Inr (sd, b, [], reply))"
proof -
  let ?n = "24 + length body"
  have "take (buf_len msg) (buf_data msg) = encode (header_args h) @ body"
    using data_is_receiving(3) [OF assms(1)] assms(2,3) by simp
  from stream_of_take [OF assms(6) this] obtain cs rs0 where
    rs: "stream_ok rs" "stream_bytes rs = encode (header_args h) @ body" "rs = Recv cs # rs0" "24 \<le> length cs" by blast
  note w = fresh_msg_room [OF fresh_msg_wiped [OF assms(8)]]
  have n: "sint (hd_msg_size h) = int ?n" using assms(4,5) sint_word_of_nat_small [of ?n] by (simp add: MSG_LIMIT_def)
  obtain b where b: "SOS_target_recv_msg False rs (Some (SOS_buffer_wipe buffer)) = Inr (Some b, [], int ?n)" "receiving b (encode (header_args h) @ body)"
      "buf_len b = ?n" "buf_max (SOS_buffer_wipe buffer) \<le> buf_max b" "buf_max b \<le> max (buf_max (SOS_buffer_wipe buffer)) (?n + 2)" "\<not> buf_lock b"
    using recv_msg_bytes [OF refl n assms(5) rs] w by auto
  let ?b = "msg_unlock (b\<lparr>buf_is_zipped := False\<rparr>)"
  have unz: "SOS_msg_unzip b 0 = Inr (?b, h, 24)" by (rule receiving_unzip [OF b(2)])
  have "SOSD_listen_step cx u other rs sd buffer = bindR (SOSD_listen_dispatch cx u other (Some t) sd ?b) (\<lambda>(sd, b, reply). Inr (sd, b, [], reply))"
    using b(1) unz assms(7,9) by (simp add: SOSD_listen_step_def)
  moreover have "fresh_msg (SOS_buffer_wipe ?b)"
    using b(2-6) w assms(5)
    by (auto simp: fresh_msg_def building_def SOS_buffer_wipe_def buffer_wf_def packed_prefix_def msg_unlock_def receiving_def MSG_LIMIT_def)
  moreover have "receiving ?b (encode (header_args h) @ body)" using b(2) by simp
  moreover have "buf_len ?b = buf_len msg" using b(3) assms(2) by (simp add: msg_unlock_def)
  ultimately show ?thesis by blast
qed

lemma fresh_msg_unzipped: "fresh_msg (SOS_buffer_wipe b) \<Longrightarrow> fresh_msg (SOS_buffer_wipe (msg_unlock (b\<lparr>buf_is_zipped := z\<rparr>)))"
  by (auto simp: fresh_msg_def building_def SOS_buffer_wipe_def buffer_wf_def packed_prefix_def msg_unlock_def)

abbreviation trigger_payload :: "cstring \<Rightarrow> nat \<Rightarrow> cstring \<Rightarrow> SOSD_feedback_payload" where
  "trigger_payload handle n data \<equiv> \<lparr>pl_handle = Some (handle @ [0]), pl_size = word_of_nat n, pl_data = Some (data @ [0])\<rparr>"

lemma triggerpull_ok:
  assumes "receiving b (encode (header_args (trigger_header g handle n data)) @ encode (trigger_args handle n data))" and "payload_ok handle n data"
    and "buf_len b = 24 + length (encode (trigger_args handle n data))"
    and "q_ok (cx_mincap cx) (sd_feedback sd)" and "length (q_list (sd_feedback sd)) + 2 \<le> cx_mincap cx"
  shows "\<exists>q reply. SOSD_handle_triggerpull cx sd b = Inr (sd\<lparr>sd_feedback := q\<rparr>, msg_unlock (b\<lparr>buf_is_zipped := False\<rparr>), reply) \<and>
    q_ok (cx_mincap cx) q \<and> q_list q = q_list (sd_feedback sd) @ [Feedback_Payload (trigger_payload handle n data)]"
proof -
  let ?b = "msg_unlock (b\<lparr>buf_is_zipped := False\<rparr>)" and ?h = "trigger_header g handle n data" and ?a = "[ArgI (word_of_nat n)]"
  have rb: "receiving ?b (encode (header_args ?h) @ encode (trigger_args handle n data))" using assms(1) by simp
  note ok = payload_ok_sizes [OF assms(2)]
  have wf: "wf_cstring handle" "wf_cstring data" using assms(2) by (auto simp: payload_ok_def)
  have unz: "SOS_msg_unzip b 0 = Inr (?b, ?h, 24)" by (rule receiving_unzip [OF assms(1)])
  have "\<exists>ns. SOSD_cloud_notify cx (sd_cloud_targets sd) ?b = Inr ns"
    using wrap_trigger_ok [OF rb] ok(2) assms(3) by (auto simp: SOSD_cloud_notify_def msg_unlock_def)
  then obtain ns where ns: "SOSD_cloud_notify cx (sd_cloud_targets sd) ?b = Inr ns" by blast
  have 1: "SOS_buffer_unpack_safestr ?b 24 = Inr (?b, 28 + length handle, Some (handle @ [0]))"
    using receiving_safestr [of ?b "encode (header_args ?h)" handle "encode ?a @ encode [ArgS data]"] rb wf ok(4) by simp
  have 2: "SOS_buffer_unpack ?b (28 + length handle) ''i'' [DestI] = Inr (?b, 32 + length handle, 4, [OutI (word_of_nat n)])"
    using receiving_unpack [of ?b "encode (header_args ?h) @ encode [ArgS handle]" ?a "encode [ArgS data]" "[DestI]"] rb by simp
  have 3: "\<exists>off. SOS_buffer_unpack_safestr ?b (32 + length handle) = Inr (?b, off, Some (data @ [0]))"
    using receiving_safestr [of ?b "encode (header_args ?h) @ encode [ArgS handle] @ encode ?a" data "[]"] rb wf ok(5) by simp
  obtain q where q: "queue_put (cx_mincap cx) (Feedback_Payload (trigger_payload handle n data)) (sd_feedback sd) = Inr q" "q_ok (cx_mincap cx) q"
      "q_list q = q_list (sd_feedback sd) @ [Feedback_Payload (trigger_payload handle n data)]"
    using queue_put_ok [OF assms(4,5)] by blast
  obtain reply where "ack_reply SOS_DEFAULT_REPLY_LEN True = Inr reply"
    using ack_reply_ok [of SOS_DEFAULT_REPLY_LEN True] by (auto simp: SOS_DEFAULT_REPLY_LEN_def)
  then show ?thesis
    using unz ns 1 2 3 q by (auto simp: SOSD_handle_triggerpull_def SOSD_cloud_handle_triggerpull_def)
qed

section \<open>The feedback thread\<close>

definition sensitive_to :: "cstring \<Rightarrow> SOSD_sensitivity_entry \<Rightarrow> bool" where
  "sensitive_to handle e \<longleftrightarrow> (\<exists>g. se_sense_handle e = Some g \<and> cstr g = handle)"

lemma sense_walk_rest:
  assumes "\<forall>e \<in> set es. se_sense_handle e \<noteq> None"
  shows "sense_walk up (Some h) False es =
    Inr (filter (\<lambda>e. sensitive_to (cstr h) e \<longrightarrow> up e) es, filter (\<lambda>e. sensitive_to (cstr h) e \<and> up e) es)"
  using assms by (induction es) (auto simp: sensitive_to_def)

lemma sense_walk_ok:
  assumes "\<forall>e \<in> set es. se_sense_handle e \<noteq> None" and "es \<noteq> [] \<longrightarrow> sensitive_to (cstr h) (hd es) \<longrightarrow> up (hd es)"
  shows "sense_walk up (Some h) True es =
    Inr (filter (\<lambda>e. sensitive_to (cstr h) e \<longrightarrow> up e) es, filter (\<lambda>e. sensitive_to (cstr h) e \<and> up e) es)"
proof (cases es)
  case (Cons e es')
  then show ?thesis using assms sense_walk_rest [of es' up h] by (auto simp: sensitive_to_def)
qed simp

lemma sense_walk_dead_head:
  assumes "sensitive_to (cstr h) e" and "\<not> up e"
  shows "sense_walk up (Some h) True (e # es) = Inr (es, [])"
  using assms by (auto simp: sensitive_to_def)

lemma payload_msg_ok:
  assumes "\<not> buf_lock delivery" and "data \<noteq> []" and "28 + length data \<le> buf_max delivery" and "48 \<le> buf_max delivery" and "length data \<le> MSG_LIMIT"
  shows "\<exists>m h rest. payload_msg rank \<lparr>pl_handle = a, pl_size = word_of_nat (length data), pl_data = Some (data @ extra)\<rparr> delivery = Inr m \<and>
    data_is m (encode (header_args h) @ encode [ArgI (word_of_nat (length data))] @ data) rest \<and> buf_len m = 28 + length data \<and>
    hd_msg_size h = word_of_nat (28 + length data) \<and> hd_msg_type h = enum_code SOS_feedback_type_vals SOS_FEEDBACK_TYPE_PAYLOAD \<and>
    buf_max m = buf_max delivery"
proof -
  let ?h = "\<lparr>hd_msg_size = - 1, hd_msg_type = enum_code SOS_feedback_type_vals SOS_FEEDBACK_TYPE_PAYLOAD, hd_msg_from = scast rank, hd_ref_guid = 0\<rparr>"
  let ?d = "SOS_buffer_wipe delivery" and ?rest = "replicate (buf_max delivery) (0 :: byte)" and ?n = "28 + length data"
  let ?h' = "?h\<lparr>hd_msg_size := word_of_nat ?n\<rparr>" and ?p = "encode [ArgI (word_of_nat (length data))] @ data"
  have d: "data_is ?d [] ?rest" "buf_len ?d = 0" using data_is_wiped [OF assms(1)] by (simp_all add: SOS_buffer_wipe_def)
  obtain m1 where m1: "SOS_msg_zip ?d ?h 0 = Inr (m1, 24, 24)" "data_is m1 (encode (header_args ?h)) (replicate (buf_max delivery - 24) 0)" "buf_len m1 = 24"
    using zip_over [OF d(1), of ?h] d(2) assms(4) by auto
  have room: "4 + length data \<le> length (replicate (buf_max delivery - 24) (0 :: byte))" "length (encode (header_args ?h)) \<le> length (replicate (buf_max delivery - 24) (0 :: byte))"
    using assms(3,4) by auto
  have s: "sint (word_of_nat (length data) :: i32) = int (length data)" using assms(5) by (intro sint_word_of_nat_small) (simp add: MSG_LIMIT_def)
  obtain m2 where m2: "SOS_buffer_pack_bytes m1 24 (int (length data)) (data @ extra) = Inr (m2, ?n, 4 + length data)"
      "data_is m2 (encode (header_args ?h) @ ?p) (drop (4 + length data) (replicate (buf_max delivery - 24) 0))" "buf_len m2 = ?n"
    using pack_bytes_over [OF m1(2) assms(2) room, of extra] m1(3) by auto
  obtain m3 where m3: "SOS_msg_zip m2 ?h' 0 = Inr (m3, 24, 24)"
      "data_is m3 (encode (header_args ?h') @ ?p) (drop (4 + length data) (replicate (buf_max delivery - 24) 0))" "buf_len m3 = ?n"
    using zip_again [OF m2(2), of ?h'] m2(3) by auto
  have "payload_msg rank \<lparr>pl_handle = a, pl_size = word_of_nat (length data), pl_data = Some (data @ extra)\<rparr> delivery = Inr m3"
    using m1(1) m2(1) m3(1) s by (simp add: payload_msg_def write_msg_def Let_def)
  moreover have "buf_max m3 = buf_max delivery" using m3(2) assms(3) by (simp add: data_is_def)
  ultimately show ?thesis using m3(2,3) by (intro exI [of _ m3] exI [of _ ?h']) auto
qed

text \<open>What the client makes of the payload.\<close>

lemma receives_ok:
  assumes "data_is m (encode (header_args h) @ encode [ArgI (word_of_nat (length data))] @ data) rest" and "buf_len m = 28 + length data"
    and "hd_msg_size h = word_of_nat (28 + length data)" and "hd_msg_type h = enum_code SOS_feedback_type_vals SOS_FEEDBACK_TYPE_PAYLOAD"
    and "buf_max m \<le> INT_MAX" and "28 + length data \<le> MSG_LIMIT" and "stream_of rs m" and "fresh_msg buffer"
  shows "\<exists>b. SOS_receives_step False rs buffer = Inr (b, [], Some (Fb_Payload (word_of_nat (length data)) (data @ [0])))"
proof -
  let ?body = "encode [ArgI (word_of_nat (length data))] @ data" and ?n = "28 + length data"
  have "take (buf_len m) (buf_data m) = encode (header_args h) @ ?body" using data_is_receiving(3) [OF assms(1)] assms(2,5) by simp
  from stream_of_take [OF assms(7) this] obtain cs rs0 where
    rs: "stream_ok rs" "stream_bytes rs = encode (header_args h) @ ?body" "rs = Recv cs # rs0" "24 \<le> length cs" by blast
  note w = fresh_msg_room [OF fresh_msg_wiped [OF assms(8)]]
  have n: "?n = 24 + length ?body" "sint (hd_msg_size h) = int ?n" using assms(3,6) sint_word_of_nat_small [of ?n] by (simp_all add: MSG_LIMIT_def)
  obtain b where b: "SOS_target_recv_msg False rs (Some (SOS_buffer_wipe buffer)) = Inr (Some b, [], int ?n)" "receiving b (encode (header_args h) @ ?body)"
    using recv_msg_bytes [OF n assms(6) rs] w by auto
  let ?b = "msg_unlock (b\<lparr>buf_is_zipped := False\<rparr>)"
  have unz: "SOS_msg_unzip b 0 = Inr (?b, h, 24)" by (rule receiving_unzip [OF b(2)])
  have rb: "receiving ?b (encode (header_args h) @ ?body)" using b(2) by simp
  have i: "SOS_buffer_unpack ?b 24 ''i'' [DestI] = Inr (?b, 28, 4, [OutI (word_of_nat (length data))])"
    using receiving_unpack [of ?b "encode (header_args h)" "[ArgI (word_of_nat (length data))]" data "[DestI]"] rb by simp
  have s: "sint (word_of_nat (length data) :: i32) = int (length data)" using assms(6) by (intro sint_word_of_nat_small) (simp add: MSG_LIMIT_def)
  have "packed_prefix ?b (buf_len ?b) = (encode (header_args h) @ encode [ArgI (word_of_nat (length data))]) @ data @ []"
    using rb by (simp add: receiving_def packed_prefix_def)
  from packed_prefix_mem_at [OF this] have r: "mem_read 28 (length data) (buf_data ?b) = Inr data" by (intro mem_at_read) simp
  have "enum_code SOS_feedback_type_vals SOS_FEEDBACK_TYPE_PAYLOAD \<noteq> enum_code SOS_feedback_type_vals SOS_FEEDBACK_TYPE_QUERY" by code_simp
  then show ?thesis using b(1) unz i r s assms(4) by (simp add: SOS_receives_step_def)
qed

lemma payload_bytes: "n \<le> length data + 1 \<Longrightarrow> length (take n (data @ [0 :: byte])) = n"
  by (simp only: length_take length_append) simp

text \<open>One round of the thread: the payload that has waited longest is sent to the clients that can be reached.\<close>

lemma feedback_step_ok:
  assumes "q_ok (cx_mincap cx) (sd_feedback sd)" and "q_list (sd_feedback sd) = Feedback_Payload (trigger_payload handle n data) # ts"
    and "wf_cstring handle" and "\<not> buf_lock delivery" and "0 < n" and "28 + n \<le> buf_max delivery" and "48 \<le> buf_max delivery"
    and "n \<le> MSG_LIMIT" and "n \<le> length data + 1" and "sense_walk up (Some (handle @ [0])) True (sd_sense_list sd) = Inr (kept, served)"
  shows "\<exists>q m h rest. SOSD_feedback_sync_step cx up resolves sd (delivery, rmsg) = Inr (sd\<lparr>sd_feedback := q, sd_sense_list := kept\<rparr>, (m, rmsg), Sent_Payload served) \<and>
    q_ok (cx_mincap cx) q \<and> q_list q = ts \<and>
    data_is m (encode (header_args h) @ encode [ArgI (word_of_nat n)] @ take n (data @ [0])) rest \<and> buf_len m = 28 + n \<and>
    hd_msg_size h = word_of_nat (28 + n) \<and> hd_msg_type h = enum_code SOS_feedback_type_vals SOS_FEEDBACK_TYPE_PAYLOAD \<and>
    buf_max m = buf_max delivery"
proof -
  let ?q = "sd_feedback sd" and ?pl = "trigger_payload handle n data"
  obtain p where p: "pipe_pop_eager (cx_mincap cx) (Feedback_Payload \<lparr>pl_handle = None, pl_size = 0, pl_data = None\<rparr>) (qu_pipe ?q) 1 = Inr (p, [Feedback_Payload ?pl])"
      "q_ok (cx_mincap cx) (?q\<lparr>qu_pipe := p, qu_elem_count := qu_elem_count ?q - 1\<rparr>)" "pipe_content p = ts"
    using queue_take_ok [OF assms(1,2)] by blast
  have bs: "length (take n (data @ [0])) = n" by (rule payload_bytes [OF assms(9)])
  then have ne: "take n (data @ [0]) \<noteq> []" using assms(5) by (metis list.size(3) less_irrefl)
  obtain m h rest where m: "payload_msg (cx_comm_rank cx) ?pl delivery = Inr m"
      "data_is m (encode (header_args h) @ encode [ArgI (word_of_nat n)] @ take n (data @ [0])) rest" "buf_len m = 28 + n"
      "hd_msg_size h = word_of_nat (28 + n)" "hd_msg_type h = enum_code SOS_feedback_type_vals SOS_FEEDBACK_TYPE_PAYLOAD"
      "buf_max m = buf_max delivery"
    using payload_msg_ok [OF assms(4) ne, unfolded bs, OF assms(6-8), of "cx_comm_rank cx" "Some (handle @ [0])" "drop n (data @ [0])", unfolded append_take_drop_id]
    by blast
  have "SOSD_feedback_sync_step cx up resolves sd (delivery, rmsg) =
      Inr (sd\<lparr>sd_feedback := ?q\<lparr>qu_pipe := p, qu_elem_count := qu_elem_count ?q - 1\<rparr>, sd_sense_list := kept\<rparr>, (m, rmsg), Sent_Payload served)"
    using p(1) m(1) assms(1,10) by (simp add: SOSD_feedback_sync_step_def Let_def q_ok_def)
  then show ?thesis using p(2,3) m(2-6) by (intro exI [of _ "?q\<lparr>qu_pipe := p, qu_elem_count := qu_elem_count ?q - 1\<rparr>"] exI [of _ m]) auto
qed

abbreviation in_one_piece :: "SOS_buffer \<Rightarrow> recv_result list" where
  "in_one_piece b \<equiv> [Recv (take (buf_len b) (buf_data b))]"

lemma data_in_one_piece: "data_is b (encode (header_args h) @ body) rest \<Longrightarrow> buf_len b = 24 + length body \<Longrightarrow> stream_of (in_one_piece b) b"
  by (intro stream_of_one) (auto simp: data_is_def)

text \<open>The listener queues the payload of a trigger.\<close>

lemma listen_trigger:
  assumes "payload_ok handle n data" and "SOS_sense_trigger client handle data (word_of_nat n) = Inr msg" and "link_up client"
    and "stream_of rs msg" and "\<not> sd_shutdown sd" and "fresh_msg buffer"
    and "q_ok (cx_mincap cx) (sd_feedback sd)" and "length (q_list (sd_feedback sd)) + 2 \<le> cx_mincap cx"
  shows "\<exists>q b reply. SOSD_listen_step cx u other rs sd buffer = Inr (sd\<lparr>sd_feedback := q\<rparr>, b, [], Some reply) \<and> fresh_msg (SOS_buffer_wipe b) \<and>
    q_ok (cx_mincap cx) q \<and> q_list q = q_list (sd_feedback sd) @ [Feedback_Payload (trigger_payload handle n data)]"
proof -
  let ?h = "trigger_header (cx_my_guid client) handle n data"
  obtain rest where m: "data_is msg (encode (header_args ?h) @ encode (trigger_args handle n data)) rest"
      "buf_len msg = 24 + length (encode (trigger_args handle n data))" "buf_max msg \<le> INT_MAX"
    using SOS_sense_trigger_ok [OF assms(1,3)] assms(2) by auto
  have t: "enum_decode SOS_msg_type_vals (hd_msg_type ?h) = Some SOS_MSG_TYPE_TRIGGERPULL"
    by (simp add: msg_header_of_def SOS_msg_type_enum.decode_code)
  have size: "buf_len msg = 24 + length (encode (trigger_args handle n data))" "hd_msg_size ?h = word_of_nat (24 + length (encode (trigger_args handle n data)))"
    using m(2) by simp_all
  from listen_receives [OF m(1) size(1) m(3) size(2) payload_ok_sizes(2) [OF assms(1)] assms(4-6) t, where cx = cx and u = u and other = other]
  obtain b where b: "receiving b (encode (header_args ?h) @ encode (trigger_args handle n data))" "buf_len b = buf_len msg" "fresh_msg (SOS_buffer_wipe b)"
      "SOSD_listen_step cx u other rs sd buffer =
        bindR (SOSD_listen_dispatch cx u other (Some SOS_MSG_TYPE_TRIGGERPULL) sd b) (\<lambda>(sd, b, reply). Inr (sd, b, [], reply))"
    by blast
  have bl: "buf_len b = 24 + length (encode (trigger_args handle n data))" using b(2) m(2) by (rule trans)
  obtain q reply where q: "SOSD_handle_triggerpull cx sd b = Inr (sd\<lparr>sd_feedback := q\<rparr>, msg_unlock (b\<lparr>buf_is_zipped := False\<rparr>), reply)"
      "q_ok (cx_mincap cx) q" "q_list q = q_list (sd_feedback sd) @ [Feedback_Payload (trigger_payload handle n data)]"
    using triggerpull_ok [OF b(1) assms(1) bl assms(7,8)] by blast
  then show ?thesis
    using b(4) fresh_msg_unzipped [OF b(3)] by (intro exI [of _ q]) (simp add: SOSD_listen_dispatch_def)
qed

section \<open>Feedback reaches the subscribers\<close>


section \<open>Subscribing\<close>

abbreviation sense_args :: "SOS_ctx \<Rightarrow> i32 \<Rightarrow> cstring \<Rightarrow> pack_arg list" where
  "sense_args cx port handle \<equiv> [ArgS handle, ArgS (cx_node_id cx), ArgI port]"

abbreviation sense_header :: "SOS_ctx \<Rightarrow> i32 \<Rightarrow> cstring \<Rightarrow> SOS_msg_header" where
  "sense_header cx port handle \<equiv>
     (msg_header_of SOS_MSG_TYPE_SENSITIVITY (cx_my_guid cx) 0)\<lparr>hd_msg_size := word_of_nat (24 + length (encode (sense_args cx port handle)))\<rparr>"

definition subscriber_ok :: "SOS_ctx \<Rightarrow> cstring \<Rightarrow> bool" where
  "subscriber_ok cx handle \<longleftrightarrow> link_up cx \<and> wf_cstring handle \<and> wf_cstring (cx_node_id cx) \<and> length handle + length (cx_node_id cx) \<le> 900"

lemma SOS_sense_register_ok:
  assumes "subscriber_ok cx handle"
  shows "\<exists>msg rest. SOS_sense_register cx port handle = Inr msg \<and>
    data_is msg (encode (header_args (sense_header cx port handle)) @ encode (sense_args cx port handle)) rest \<and>
    buf_len msg = 24 + length (encode (sense_args cx port handle)) \<and> buf_max msg \<le> INT_MAX"
proof -
  let ?b = "SOS_buffer_init_sized 1024" and ?n = "24 + length (encode (sense_args cx port handle))"
  have b: "data_is ?b [] (replicate 1024 0)" "buf_len ?b = 0"
    using data_is_sized by (simp_all add: SOS_buffer_init_sized_def SOS_buffer_init_sized_locking_def)
  have args: "\<forall>a \<in> set (sense_args cx port handle). arg_ok a" "?n \<le> length (replicate 1024 (0 :: byte))" "48 \<le> length (replicate 1024 (0 :: byte))"
    using assms by (auto simp: subscriber_ok_def INT_MAX_def)
  obtain msg where m: "write_msg (msg_header_of SOS_MSG_TYPE_SENSITIVITY (cx_my_guid cx) 0) (pack_fields ''ssi'' (sense_args cx port handle)) ?b = Inr msg"
      "data_is msg (encode (header_args (sense_header cx port handle)) @ encode (sense_args cx port handle)) (drop ?n (replicate 1024 0))" "buf_len msg = ?n"
    using write_msg_over [OF b args] by auto
  obtain r where r: "cx_send cx msg (SOS_buffer_init_sized 256) = Inr r"
    using link_upE [of cx "SOS_buffer_init_sized 256" msg] assms
    by (auto simp: subscriber_ok_def SOS_buffer_init_sized_def SOS_buffer_init_sized_locking_def)
  have "SOS_sense_register cx port handle = Inr msg" using m(1) r by (simp add: SOS_sense_register_def)
  moreover have "buf_max msg \<le> INT_MAX" using m(2) args(2) by (simp add: data_is_def INT_MAX_def)
  ultimately show ?thesis using m(2,3) by blast
qed

definition subscribed :: "u64 \<Rightarrow> cstring \<Rightarrow> SOSD_sensitivity_entry list \<Rightarrow> bool" where
  "subscribed client handle es \<longleftrightarrow> (\<exists>e \<in> set es. se_client_guid e = client \<and> sensitive_to handle e)"

lemma sense_known_ok:
  "\<forall>e \<in> set es. se_sense_handle e \<noteq> None \<Longrightarrow> sense_known client (Some h) es = Inr (subscribed client (cstr h) es)"
  by (induction es) (auto simp: subscribed_def sensitive_to_def)

lemma sensitivity_ok:
  assumes "receiving b (encode (header_args (sense_header client port handle)) @ encode (sense_args client port handle))" and "subscriber_ok client handle"
    and "\<forall>e \<in> set (sd_sense_list sd). se_sense_handle e \<noteq> None"
    and "SOS_uid_next (cx_send cx) (cx_role cx) (cx_my_guid cx) (cx_offline_test_mode cx) (sd_guid sd) = Inr (pool, guid)"
  shows "\<exists>reply. SOSD_handle_sensitivity cx sd b =
    Inr (if subscribed (cx_my_guid client) handle (sd_sense_list sd) then sd
         else sd\<lparr>sd_guid := pool,
                 sd_sense_list := \<lparr>se_guid = guid, se_client_guid = cx_my_guid client, se_sense_handle = Some (handle @ [0]),
                                   se_remote_host = Some (cx_node_id client @ [0]), se_remote_port = port\<rparr> # sd_sense_list sd\<rparr>,
      msg_unlock (b\<lparr>buf_is_zipped := False\<rparr>), reply)"
proof -
  let ?b = "msg_unlock (b\<lparr>buf_is_zipped := False\<rparr>)" and ?h = "sense_header client port handle" and ?node = "cx_node_id client"
  have rb: "receiving ?b (encode (header_args ?h) @ encode (sense_args client port handle))" using assms(1) by simp
  have wf: "wf_cstring handle" "wf_cstring ?node" "length handle < INT_MAX" "length ?node < INT_MAX"
    using assms(2) by (auto simp: subscriber_ok_def INT_MAX_def)
  have unz: "SOS_msg_unzip b 0 = Inr (?b, ?h, 24)" by (rule receiving_unzip [OF assms(1)])
  have 1: "SOS_buffer_unpack_safestr ?b 24 = Inr (?b, 28 + length handle, Some (handle @ [0]))"
    using receiving_safestr [of ?b "encode (header_args ?h)" handle "encode [ArgS ?node] @ encode [ArgI port]"] rb wf by simp
  have 2: "SOS_buffer_unpack_safestr ?b (28 + length handle) = Inr (?b, 32 + (length handle + length ?node), Some (?node @ [0]))"
    using receiving_safestr [of ?b "encode (header_args ?h) @ encode [ArgS handle]" ?node "encode [ArgI port]"] rb wf by simp
  have 3: "\<exists>off. SOS_buffer_unpack ?b (32 + (length handle + length ?node)) ''i'' [DestI] = Inr (?b, off, 4, [OutI port])"
    using receiving_unpack [of ?b "encode (header_args ?h) @ encode [ArgS handle] @ encode [ArgS ?node]" "[ArgI port]" "[]" "[DestI]"] rb by (simp add: add.assoc)
  have k: "sense_known (cx_my_guid client) (Some (handle @ [0])) (sd_sense_list sd) = Inr (subscribed (cx_my_guid client) handle (sd_sense_list sd))"
    using sense_known_ok [OF assms(3)] cstr_append_NUL [OF wf(1), of "[]"] by simp
  obtain reply where "ack_reply 256 False = Inr reply" using ack_reply_ok [of 256 False] by auto
  then show ?thesis
    using unz 1 2 3 k assms(4) by (auto simp: SOSD_handle_sensitivity_def msg_header_of_def)
qed

text \<open>
  C30: a client subscribes. Whatever pieces its message reaches the listener in, the daemon enters the client, with
  the host and the port it can be reached at and an identifier of its own, at the head of the list; a client that
  already is in the list for that name is not entered again, and then nothing of the daemon changes.
\<close>

theorem subscription_registers:
  assumes "subscriber_ok client handle" and "\<not> sd_shutdown sd" and "fresh_msg buffer"
    and "\<forall>e \<in> set (sd_sense_list sd). se_sense_handle e \<noteq> None"
    and "SOS_uid_next (cx_send cx) (cx_role cx) (cx_my_guid cx) (cx_offline_test_mode cx) (sd_guid sd) = Inr (pool, guid)"
  shows "\<exists>msg. SOS_sense_register client port handle = Inr msg \<and> stream_of (in_one_piece msg) msg \<and>
    (\<forall>rs. stream_of rs msg \<longrightarrow>
      (\<exists>b reply. fresh_msg (SOS_buffer_wipe b) \<and> SOSD_listen_step cx server_uid other rs sd buffer =
        Inr (if subscribed (cx_my_guid client) handle (sd_sense_list sd) then sd
             else sd\<lparr>sd_guid := pool,
                     sd_sense_list := \<lparr>se_guid = guid, se_client_guid = cx_my_guid client, se_sense_handle = Some (handle @ [0]),
                                       se_remote_host = Some (cx_node_id client @ [0]), se_remote_port = port\<rparr> # sd_sense_list sd\<rparr>,
          b, [], Some reply)))"
proof -
  let ?h = "sense_header client port handle" and ?n = "24 + length (encode (sense_args client port handle))"
  obtain msg rest where m: "SOS_sense_register client port handle = Inr msg"
      "data_is msg (encode (header_args ?h) @ encode (sense_args client port handle)) rest" "buf_len msg = ?n" "buf_max msg \<le> INT_MAX"
    using SOS_sense_register_ok [OF assms(1)] by blast
  have size: "hd_msg_size ?h = word_of_nat ?n" "?n \<le> MSG_LIMIT" using assms(1) by (auto simp: subscriber_ok_def MSG_LIMIT_def)
  have t: "enum_decode SOS_msg_type_vals (hd_msg_type ?h) = Some SOS_MSG_TYPE_SENSITIVITY"
    by (simp add: msg_header_of_def SOS_msg_type_enum.decode_code)
  note l = listen_receives [OF m(2,3,4) size _ assms(2,3) t, where cx = cx and u = server_uid and other = other]
  show ?thesis
  proof (rule exI [of _ msg], rule conjI [OF m(1)], rule conjI [OF data_in_one_piece [OF m(2,3)]], intro allI impI)
    fix rs
    assume "stream_of rs msg"
    from l [OF this] obtain b where b: "receiving b (encode (header_args ?h) @ encode (sense_args client port handle))" "fresh_msg (SOS_buffer_wipe b)"
        "SOSD_listen_step cx server_uid other rs sd buffer =
          bindR (SOSD_listen_dispatch cx server_uid other (Some SOS_MSG_TYPE_SENSITIVITY) sd b) (\<lambda>(sd, b, reply). Inr (sd, b, [], reply))"
      by blast
    from sensitivity_ok [OF b(1) assms(1,4,5)] obtain reply where r: "SOSD_handle_sensitivity cx sd b =
        Inr (if subscribed (cx_my_guid client) handle (sd_sense_list sd) then sd
             else sd\<lparr>sd_guid := pool,
                     sd_sense_list := \<lparr>se_guid = guid, se_client_guid = cx_my_guid client, se_sense_handle = Some (handle @ [0]),
                                       se_remote_host = Some (cx_node_id client @ [0]), se_remote_port = port\<rparr> # sd_sense_list sd\<rparr>,
          msg_unlock (b\<lparr>buf_is_zipped := False\<rparr>), reply)" by blast
    show "\<exists>b reply. fresh_msg (SOS_buffer_wipe b) \<and> SOSD_listen_step cx server_uid other rs sd buffer =
        Inr (if subscribed (cx_my_guid client) handle (sd_sense_list sd) then sd
             else sd\<lparr>sd_guid := pool,
                     sd_sense_list := \<lparr>se_guid = guid, se_client_guid = cx_my_guid client, se_sense_handle = Some (handle @ [0]),
                                       se_remote_host = Some (cx_node_id client @ [0]), se_remote_port = port\<rparr> # sd_sense_list sd\<rparr>,
          b, [], Some reply)"
      by (rule exI [of _ "msg_unlock (b\<lparr>buf_is_zipped := False\<rparr>)"], rule exI [of _ reply])
        (use b(3) fresh_msg_unzipped [OF b(2)] r in \<open>simp add: SOSD_listen_dispatch_def\<close>)
  qed
qed

text \<open>The two clients of the examples.\<close>

definition example_sense :: "u64 \<Rightarrow> SOSD_sensitivity_entry" where
  "example_sense client =
     \<lparr>se_guid = client + 100, se_client_guid = client, se_sense_handle = Some (str ''hot'' @ [0]), se_remote_host = Some (str ''n1'' @ [0]),
      se_remote_port = 4000\<rparr>"

lemma example_handle [simp]: "wf_cstring (str ''hot'')" "length (str ''hot'') = 3" "cstr (str ''hot'' @ [0]) = str ''hot''"
  by code_simp+

lemma example_node: "wf_cstring (str ''node'')" "length (str ''node'') = 4" by code_simp+

lemma example_handle_wf: "0 \<notin> set (str ''hot'')" by code_simp

lemma example_sense_sensitive [simp]: "se_client_guid (example_sense c) = c" "sensitive_to (str ''hot'') (example_sense c)" "se_sense_handle (example_sense c) = Some (str ''hot'' @ [0])"
  by (simp_all add: sensitive_to_def example_sense_def)

lemma example_payload: "payload_ok (str ''hot'') 2 [7, 9]" "payload_ok (str ''hot'') 9 [7, 9]"
  by (simp_all add: payload_ok_def MSG_LIMIT_def) (simp_all add: wf_cstring_def)

lemma example_link: "link_up example_ctx" by (simp add: link_up_def example_ctx_def)

lemma example_feedback:
  obtains sd where "SOSD_init 5 4 0 = Inr sd" and "\<not> sd_shutdown sd" and "sd_sense_list sd = []" and "sd_guid sd = SOSD_guid_range 4 0"
    and "q_ok (cx_mincap example_daemon_ctx) (sd_feedback sd)" and "q_list (sd_feedback sd) = []" and "2 \<le> cx_mincap example_daemon_ctx"
  using SOSD_init_ok [of 5 4 0] by (auto simp: example_daemon_ctx_def example_ctx_def)

lemma example_delivery: "\<not> buf_lock (SOS_buffer_init_sized_locking 1024 False)" "buf_max (SOS_buffer_init_sized_locking 1024 False) = 1024"
  by (simp_all add: SOS_buffer_init_sized_locking_def)


theorem subscription_registers_witness:
  "\<exists>sd msg pool b reply. SOSD_init 5 4 0 = Inr sd \<and> SOS_sense_register example_ctx 4000 (str ''hot'') = Inr msg \<and>
    SOSD_listen_step example_daemon_ctx 1 (\<lambda>_ _ _. Inl Undefined) (in_one_piece msg) sd SOS_buffer_init =
      Inr (sd\<lparr>sd_guid := pool, sd_sense_list := [\<lparr>se_guid = 1, se_client_guid = 7, se_sense_handle = Some (str ''hot'' @ [0]),
        se_remote_host = Some (str ''node'' @ [0]), se_remote_port = 4000\<rparr>]\<rparr>, b, [], Some reply)"
proof -
  obtain sd where sd: "SOSD_init 5 4 0 = Inr sd" "\<not> sd_shutdown sd" "sd_sense_list sd = []" "sd_guid sd = SOSD_guid_range 4 0" by (rule example_feedback)
  have c: "subscriber_ok example_ctx (str ''hot'')"
    using example_link by (simp add: subscriber_ok_def) (simp add: example_ctx_def example_node)
  obtain pool where g: "SOS_uid_next (cx_send example_daemon_ctx) (cx_role example_daemon_ctx) (cx_my_guid example_daemon_ctx)
      (cx_offline_test_mode example_daemon_ctx) (sd_guid sd) = Inr (pool, 1)"
    unfolding sd(4) by (simp add: SOSD_guid_range_def SOS_uid_init_def SOS_uid_next_def SOS_DEFAULT_UID_MAX_def Let_def)
  have e: "\<forall>e \<in> set (sd_sense_list sd). se_sense_handle e \<noteq> None" and known: "\<not> subscribed (cx_my_guid example_ctx) (str ''hot'') (sd_sense_list sd)"
    using sd(3) by (simp_all add: subscribed_def)
  from subscription_registers [where port = 4000 and server_uid = 1 and other = "\<lambda>_ _ _. Inl Undefined", OF c sd(2) fresh_msg_init e g] obtain msg where
    m: "SOS_sense_register example_ctx 4000 (str ''hot'') = Inr msg" "stream_of (in_one_piece msg) msg" and
    d: "\<And>rs. stream_of rs msg \<Longrightarrow> \<exists>b reply. SOSD_listen_step example_daemon_ctx 1 (\<lambda>_ _ _. Inl Undefined) rs sd SOS_buffer_init =
      Inr (sd\<lparr>sd_guid := pool, sd_sense_list := [\<lparr>se_guid = 1, se_client_guid = 7, se_sense_handle = Some (str ''hot'' @ [0]),
        se_remote_host = Some (str ''node'' @ [0]), se_remote_port = 4000\<rparr>]\<rparr>, b, [], Some reply)"
    using known sd(3) by (auto simp: example_ctx_def) blast
  from d [OF m(2)] show ?thesis using sd(1) m(1) by blast
qed

text \<open>
  A dead subscriber at the head of the list loses the feedback of the others. When the first client is
  sensitive to the name and cannot be reached, the walk takes it out and ends: nobody is sent the payload, which is
  gone from the queue.
\<close>

theorem dead_head_stops_delivery:
  assumes "q_ok (cx_mincap cx) (sd_feedback sd)" and "q_list (sd_feedback sd) = Feedback_Payload (trigger_payload handle n data) # ts"
    and "payload_ok handle n data" and "0 < n" and "n \<le> length data + 1"
    and "\<not> buf_lock delivery" and "28 + n \<le> buf_max delivery" and "48 \<le> buf_max delivery"
    and "sd_sense_list sd = e # es" and "sensitive_to handle e" and "\<not> up e"
  shows "\<exists>q delivery'. SOSD_feedback_sync_step cx up resolves sd (delivery, rmsg) = Inr (sd\<lparr>sd_feedback := q, sd_sense_list := es\<rparr>, (delivery', rmsg), Sent_Payload []) \<and> q_list q = ts"
proof -
  have wf: "wf_cstring handle" and n: "n \<le> MSG_LIMIT" using assms(3) by (auto simp: payload_ok_def MSG_LIMIT_def)
  have "cstr (handle @ [0]) = handle" using cstr_append_NUL [OF wf] by simp
  then have "sense_walk up (Some (handle @ [0])) True (sd_sense_list sd) = Inr (es, [])"
    using sense_walk_dead_head [of "handle @ [0]" e up es] assms(9-11) by simp
  from feedback_step_ok [OF assms(1,2) wf assms(6,4,7,8) n assms(5) this, where resolves = resolves and rmsg = rmsg] show ?thesis by blast
qed

theorem dead_head_stops_delivery_witness:
  "\<exists>sd q q' delivery. SOSD_init 5 4 0 = Inr sd \<and> q_list q = [Feedback_Payload (trigger_payload (str ''hot'') 2 [7, 9])] \<and>
    SOSD_feedback_sync_step example_daemon_ctx (\<lambda>e. se_client_guid e \<noteq> 2) (\<lambda>_ _. True)
      (sd\<lparr>sd_feedback := q, sd_sense_list := map example_sense [2, 3, 4]\<rparr>) (SOS_buffer_init_sized_locking 1024 False, SOS_buffer_init) =
    Inr (sd\<lparr>sd_feedback := q', sd_sense_list := map example_sense [3, 4]\<rparr>, (delivery, SOS_buffer_init), Sent_Payload [])"
proof -
  obtain sd where sd: "SOSD_init 5 4 0 = Inr sd" "q_ok (cx_mincap example_daemon_ctx) (sd_feedback sd)" "q_list (sd_feedback sd) = []"
      "2 \<le> cx_mincap example_daemon_ctx" by (rule example_feedback)
  obtain q where q: "q_ok (cx_mincap example_daemon_ctx) q" "q_list q = [Feedback_Payload (trigger_payload (str ''hot'') 2 [7, 9])]"
    using queue_put_ok [OF sd(2), of "Feedback_Payload (trigger_payload (str ''hot'') 2 [7, 9])"] sd(3,4) by auto
  let ?sd = "sd\<lparr>sd_feedback := q, sd_sense_list := map example_sense [2, 3, 4]\<rparr>" and ?d = "SOS_buffer_init_sized_locking 1024 False"
  have l: "q_ok (cx_mincap example_daemon_ctx) (sd_feedback ?sd)" "q_list (sd_feedback ?sd) = Feedback_Payload (trigger_payload (str ''hot'') 2 [7, 9]) # []"
      "sd_sense_list ?sd = example_sense 2 # map example_sense [3, 4]" using q by simp_all
  have n: "0 < (2 :: nat)" "(2 :: nat) \<le> length [7 :: byte, 9] + 1" "28 + 2 \<le> buf_max ?d" "48 \<le> buf_max ?d" by (simp_all add: example_delivery)
  have up: "\<not> (\<lambda>e. se_client_guid e \<noteq> 2) (example_sense 2)" by simp
  from dead_head_stops_delivery [where up = "\<lambda>e. se_client_guid e \<noteq> 2" and resolves = "\<lambda>_ _. True" and rmsg = SOS_buffer_init, OF l(1,2) example_payload(1) n(1,2) example_delivery(1) n(3,4) l(3) example_sense_sensitive(2) up]
  obtain q' delivery where "SOSD_feedback_sync_step example_daemon_ctx (\<lambda>e. se_client_guid e \<noteq> 2) (\<lambda>_ _. True) ?sd (?d, SOS_buffer_init) =
      Inr (sd\<lparr>sd_feedback := q', sd_sense_list := map example_sense [3, 4]\<rparr>, (delivery, SOS_buffer_init), Sent_Payload [])" by auto
  then show ?thesis using sd(1) q(2) by blast
qed

text \<open>More bytes are announced than the string has.\<close>

lemma payload_msg_overreads:
  assumes "\<not> buf_lock delivery" and "length data < n" and "28 + n \<le> buf_max delivery" and "48 \<le> buf_max delivery" and "n \<le> MSG_LIMIT"
  shows "payload_msg rank \<lparr>pl_handle = a, pl_size = word_of_nat n, pl_data = Some data\<rparr> delivery = Inl Out_Of_Bounds"
proof -
  let ?h = "\<lparr>hd_msg_size = - 1, hd_msg_type = enum_code SOS_feedback_type_vals SOS_FEEDBACK_TYPE_PAYLOAD, hd_msg_from = scast rank, hd_ref_guid = 0\<rparr>"
  let ?d = "SOS_buffer_wipe delivery" and ?rest = "replicate (buf_max delivery) (0 :: byte)"
  have d: "data_is ?d [] ?rest" "buf_len ?d = 0" using data_is_wiped [OF assms(1)] by (simp_all add: SOS_buffer_wipe_def)
  obtain m1 where m1: "SOS_msg_zip ?d ?h 0 = Inr (m1, 24, 24)" "data_is m1 (encode (header_args ?h)) (replicate (buf_max delivery - 24) 0)" "buf_len m1 = 24"
    using zip_over [OF d(1), of ?h] d(2) assms(4) by auto
  have b: "buf_data m1 = encode (header_args ?h) @ replicate (buf_max delivery - 24) 0" "buf_max m1 = buf_max delivery"
    using m1(2) assms(4) by (simp_all add: data_is_def)
  have w: "mem_write 24 (SOS_buffer_packi32 (word_of_nat n)) (buf_data m1) =
      Inr (take 24 (buf_data m1) @ SOS_buffer_packi32 (word_of_nat n) @ drop 28 (buf_data m1))"
    using b assms(4) by (simp add: mem_write_ok)
  have s: "sint (word_of_nat n :: i32) = int n" using assms(5) by (intro sint_word_of_nat_small) (simp add: MSG_LIMIT_def)
  have "\<not> buf_max m1 div 2 < 24" "pack_bytes_room m1 (28 + n) = Inr m1" "\<not> int n < 1"
    using b(2) assms(2-4) by (auto intro: pack_bytes_room_fits)
  moreover have "mem_read 0 n data = Inl Out_Of_Bounds" using assms(2) by (simp add: mem_read_def)
  ultimately have "SOS_buffer_pack_bytes m1 24 (int n) data = Inl Out_Of_Bounds"
    using w by (simp add: SOS_buffer_pack_bytes_def Let_def)
  then show ?thesis using m1(1) s by (simp add: payload_msg_def write_msg_def Let_def)
qed

text \<open>
  the length of a trigger is believed. \<open>SOS_sense_trigger\<close> takes the number of bytes, but sends them as a C
  string: data with a zero byte in it arrives cut off, with the full length beside it. The daemon accepts the message
  and its feedback thread then copies that many bytes from the shorter string, past its end.
\<close>

theorem trigger_length_overreads:
  assumes "payload_ok handle n data" and "length data + 1 < n" and "link_up client" and "\<not> sd_shutdown sd" and "fresh_msg buffer"
    and "q_ok (cx_mincap cx) (sd_feedback sd)" and "q_list (sd_feedback sd) = []" and "2 \<le> cx_mincap cx"
    and "\<not> buf_lock delivery" and "28 + n \<le> buf_max delivery" and "48 \<le> buf_max delivery"
  shows "\<exists>msg. SOS_sense_trigger client handle data (word_of_nat n) = Inr msg \<and> stream_of (in_one_piece msg) msg \<and>
    (\<forall>rs. stream_of rs msg \<longrightarrow>
      (\<exists>sd1 b reply. SOSD_listen_step cx server_uid other rs sd buffer = Inr (sd1, b, [], Some reply) \<and>
        SOSD_feedback_sync_step cx up resolves sd1 (delivery, rmsg) = Inl Out_Of_Bounds))"
proof -
  obtain msg where msg: "SOS_sense_trigger client handle data (word_of_nat n) = Inr msg" and one: "stream_of (in_one_piece msg) msg"
    using SOS_sense_trigger_ok [OF assms(1,3)] data_in_one_piece by blast
  have n: "length (data @ [0]) < n" "n \<le> MSG_LIMIT" using assms(1,2) by (auto simp: payload_ok_def MSG_LIMIT_def)
  note over = payload_msg_overreads [OF assms(9) n(1) assms(10,11) n(2)]
  show ?thesis
  proof (rule exI [of _ msg], rule conjI [OF msg], rule conjI [OF one], intro allI impI)
    fix rs
    assume "stream_of rs msg"
    from listen_trigger [OF assms(1) msg assms(3) this assms(4-6), where u = server_uid and other = other] assms(7,8)
    obtain q b reply where l: "SOSD_listen_step cx server_uid other rs sd buffer = Inr (sd\<lparr>sd_feedback := q\<rparr>, b, [], Some reply)"
        "q_ok (cx_mincap cx) q" "q_list q = [Feedback_Payload (trigger_payload handle n data)]"
      by auto
    obtain p where p: "pipe_pop_eager (cx_mincap cx) (Feedback_Payload \<lparr>pl_handle = None, pl_size = 0, pl_data = None\<rparr>) (qu_pipe q) 1 =
        Inr (p, [Feedback_Payload (trigger_payload handle n data)])"
      using queue_take_ok [OF l(2,3)] by blast
    have "SOSD_feedback_sync_step cx up resolves (sd\<lparr>sd_feedback := q\<rparr>) (delivery, rmsg) = Inl Out_Of_Bounds"
      using p over l(2) by (simp add: SOSD_feedback_sync_step_def Let_def q_ok_def)
    with l(1) show "\<exists>sd1 b reply. SOSD_listen_step cx server_uid other rs sd buffer = Inr (sd1, b, [], Some reply) \<and>
        SOSD_feedback_sync_step cx up resolves sd1 (delivery, rmsg) = Inl Out_Of_Bounds" by blast
  qed
qed

theorem trigger_length_overreads_witness:
  "\<exists>sd msg sd1 b reply. SOSD_init 5 4 0 = Inr sd \<and> SOS_sense_trigger example_ctx (str ''hot'') [7, 9] 9 = Inr msg \<and>
    SOSD_listen_step example_daemon_ctx 1 (\<lambda>_ _ _. Inl Undefined) (in_one_piece msg) sd SOS_buffer_init = Inr (sd1, b, [], Some reply) \<and>
    SOSD_feedback_sync_step example_daemon_ctx (\<lambda>_. True) (\<lambda>_ _. True) sd1 (SOS_buffer_init_sized_locking 1024 False, SOS_buffer_init) = Inl Out_Of_Bounds"
proof -
  obtain sd where sd: "SOSD_init 5 4 0 = Inr sd" "\<not> sd_shutdown sd" "q_ok (cx_mincap example_daemon_ctx) (sd_feedback sd)" "q_list (sd_feedback sd) = []"
      "2 \<le> cx_mincap example_daemon_ctx" by (rule example_feedback)
  let ?d = "SOS_buffer_init_sized_locking 1024 False"
  have n: "length [7 :: byte, 9] + 1 < 9" "28 + 9 \<le> buf_max ?d" "48 \<le> buf_max ?d" by (simp_all add: example_delivery)
  from trigger_length_overreads [where up = "\<lambda>_. True" and resolves = "\<lambda>_ _. True" and rmsg = SOS_buffer_init and server_uid = 1 and other = "\<lambda>_ _ _. Inl Undefined", OF example_payload(2) n(1) example_link sd(2) fresh_msg_init sd(3-5) example_delivery(1) n(2,3)]
  obtain msg where m: "SOS_sense_trigger example_ctx (str ''hot'') [7, 9] 9 = Inr msg" "stream_of (in_one_piece msg) msg" and
    d: "\<And>rs. stream_of rs msg \<Longrightarrow> \<exists>sd1 b reply. SOSD_listen_step example_daemon_ctx 1 (\<lambda>_ _ _. Inl Undefined) rs sd SOS_buffer_init = Inr (sd1, b, [], Some reply) \<and>
        SOSD_feedback_sync_step example_daemon_ctx (\<lambda>_. True) (\<lambda>_ _. True) sd1 (?d, SOS_buffer_init) = Inl Out_Of_Bounds"
    by auto
  from d [OF m(2)] show ?thesis using sd(1) m(1) by blast
qed

end
