(* ===== verification/SOS_Analysis.thy ===== *)
theory SOS_Analysis
  imports SOS_Feedback
begin

text \<open>
  What a program asks of a daemon for analysis (\<open>sosa.c\<close>, and the handlers in \<open>sosd.c\<close>): cached values
  (\<open>SOSA_cache_grab\<close>), queries of the database (\<open>SOSA_exec_query\<close>) and the manifest of publications
  (\<open>SOSA_request_pub_manifest\<close>). The answers to the first two come from the feedback thread of the daemon, as
  tables of \<open>SOS_Results\<close>. \<open>cache_grab_answered\<close> follows a request to the rows it was for; \<open>SOS_Manifest\<close>
  and \<open>SOS_Query\<close> have the other two.

  \<open>exchange\<close> is the exchange with the daemon that is asked, which need not be the own one; \<open>duration\<close> and
  \<open>elapsed\<close> are what the clock of the daemon says something took.
\<close>

section \<open>Asking\<close>

text \<open>Only a client has identifiers to give to a request. Each function returns the rest of the pool, the identifier of
  the request and the message that was sent.\<close>

definition next_request_guid :: "SOS_ctx \<Rightarrow> SOS_uid \<Rightarrow> (SOS_uid \<times> u64) res" where
  "next_request_guid cx pool =
     (if cx_role cx = SOS_ROLE_CLIENT
      then SOS_uid_next (cx_send cx) (cx_role cx) (cx_my_guid cx) (cx_offline_test_mode cx) pool
      else Inr (pool, word_of_int (- 99999)))"

definition SOSA_cache_grab ::
    "SOS_ctx \<Rightarrow> SOS_uid \<Rightarrow> i32 \<Rightarrow> cstring \<Rightarrow> cstring \<Rightarrow> i32 \<Rightarrow> i32 \<Rightarrow> (SOS_buffer \<Rightarrow> SOS_buffer \<Rightarrow> SOS_buffer res) \<Rightarrow>
     (SOS_uid \<times> u64 \<times> SOS_buffer) res" where
  "SOSA_cache_grab cx pool receives_port pub_filter val_filter frame_head frame_depth_limit exchange =
     bindR (next_request_guid cx pool) (\<lambda>(pool, request_guid).
     bindR (write_msg (msg_header_of SOS_MSG_TYPE_CACHE_GRAB (scast (cx_comm_rank cx)) 0) (\<lambda>bo.
       bindR (pack_fields ''s'' [ArgS (cx_node_id cx)] bo) (\<lambda>bo.
       bindR (pack_fields ''i'' [ArgI receives_port] bo) (\<lambda>bo.
       bindR (pack_fields ''s'' [ArgS pub_filter] bo) (\<lambda>bo.
       bindR (pack_fields ''s'' [ArgS val_filter] bo) (\<lambda>bo.
       bindR (pack_fields ''i'' [ArgI frame_head] bo) (\<lambda>bo.
       bindR (pack_fields ''i'' [ArgI frame_depth_limit] bo)
         (pack_fields ''g'' [ArgG request_guid]))))))) (SOS_buffer_init_sized_locking 4096 False)) (\<lambda>msg.
     bindR (exchange msg (SOS_buffer_init_sized_locking 2048 False)) (\<lambda>reply.
     bindR (SOS_buffer_destroy (Some msg)) (\<lambda>_.
     bindR (SOS_buffer_destroy (Some reply)) (\<lambda>_. Inr (pool, request_guid, msg))))))"

text \<open>
  A query looks at the number of bytes that each field took, and at each step of the exchange: the result of a failure is
  -99, and the message is lost. \<open>exchange\<close> is None when one of its steps fails.
\<close>

definition SOSA_exec_query ::
    "SOS_ctx \<Rightarrow> SOS_uid \<Rightarrow> i32 \<Rightarrow> cstring \<Rightarrow> (SOS_buffer \<Rightarrow> SOS_buffer \<Rightarrow> SOS_buffer option res) \<Rightarrow> (SOS_uid \<times> u64 \<times> SOS_buffer option) res" where
  "SOSA_exec_query cx pool receives_port query exchange =
     (let header = msg_header_of SOS_MSG_TYPE_QUERY (scast (cx_comm_rank cx)) 0
      in bindR (SOS_msg_zip (SOS_buffer_init_sized_locking 4096 False) header 0) (\<lambda>(msg, offset, _).
         bindR (next_request_guid cx pool) (\<lambda>(pool, query_guid).
         let failed = Inr (pool, word_of_int (- 99), None)
         in bindR (SOS_buffer_pack msg offset ''s'' [ArgS (cx_node_id cx)]) (\<lambda>(msg, offset, rc). if rc = 0 then failed else
            bindR (SOS_buffer_pack msg offset ''i'' [ArgI receives_port]) (\<lambda>(msg, offset, rc). if rc = 0 then failed else
            bindR (SOS_buffer_pack msg offset ''s'' [ArgS query]) (\<lambda>(msg, offset, rc). if rc = 0 then failed else
            bindR (SOS_buffer_pack msg offset ''g'' [ArgG query_guid]) (\<lambda>(msg, offset, rc). if rc = 0 then failed else
            bindR (SOS_msg_zip msg (header\<lparr>hd_msg_size := word_of_nat offset\<rparr>) 0) (\<lambda>(msg, _, _).
            bindR (exchange msg (SOS_buffer_init_sized_locking 2048 False)) (\<lambda>reply.
            case reply of
              None \<Rightarrow> failed
            | Some reply \<Rightarrow>
                bindR (SOS_buffer_destroy (Some msg)) (\<lambda>_.
                bindR (SOS_buffer_destroy (Some reply)) (\<lambda>_. Inr (pool, query_guid, Some msg))))))))))))"

text \<open>Reading back what was unpacked.\<close>

fun out_g :: "unpack_val list \<Rightarrow> u64 res" where
  "out_g [OutG x] = Inr x"
| "out_g _ = Inl Bad_Argument"

definition deref :: "'a option \<Rightarrow> 'a res" where
  "deref p = (case p of None \<Rightarrow> Inl Null_Deref | Some x \<Rightarrow> Inr x)"

lemma deref_simps [simp]: "deref (Some x) = Inr x" "deref None = Inl Null_Deref"
  by (simp_all add: deref_def)

text \<open>The manifest: the publications a daemon knows. The reply is read at once, into a table that is given.\<close>

definition manifest_columns :: "string list" where
  "manifest_columns = [''pub_guid'', ''pub_title'', ''pub_comm_rank'', ''pub_node_id'', ''pub_process_id'', ''pub_elem_count'', ''pub_frame'']"

definition manifest_row_from :: "nat \<Rightarrow> SOS_buffer \<times> nat \<times> SOSA_results \<Rightarrow> (SOS_buffer \<times> nat \<times> SOSA_results) res" where
  "manifest_row_from row = (\<lambda>(b, offset, r).
     bindR (unpack_fields ''g'' [DestG] (b, offset)) (\<lambda>(b, offset, gs).
     bindR (SOS_buffer_unpack_safestr b offset) (\<lambda>(b, offset, pub_title).
     bindR (unpack_fields ''i'' [DestI] (b, offset)) (\<lambda>(b, offset, rank).
     bindR (out_i rank) (\<lambda>pub_comm_rank.
     bindR (SOS_buffer_unpack_safestr b offset) (\<lambda>(b, offset, pub_node_id).
     bindR (unpack_fields ''iii'' [DestI, DestI, DestI] (b, offset)) (\<lambda>(b, offset, is).
     bindR (out_g gs) (\<lambda>pub_guid.
     case is of
       [OutI pub_process_id, OutI pub_elem_count, OutI pub_frame] \<Rightarrow>
         bindR (put_vals (int row)
                  [Some (in_128 (guid_str pub_guid)), map_option cstr pub_title, Some (in_128 (int_str (sint pub_comm_rank))),
                   map_option cstr pub_node_id, Some (in_128 (int_str (sint pub_process_id))), Some (in_128 (int_str (sint pub_elem_count))),
                   Some (in_128 (int_str (sint pub_frame)))] r) (\<lambda>r.
         Inr (b, offset, r\<lparr>rs_row_count := int row + 1\<rparr>))
     | _ \<Rightarrow> Inl Bad_Argument))))))))"

definition manifest_from_reply :: "SOS_buffer \<Rightarrow> SOSA_results \<Rightarrow> (SOS_buffer \<times> SOSA_results \<times> i32) res" where
  "manifest_from_reply reply manifest =
     bindR (SOS_msg_unzip reply 0) (\<lambda>(b, _, offset).
     bindR (unpack_fields ''idi'' [DestI, DestD, DestI] (b, offset)) (\<lambda>(b, offset, outs).
     case outs of
       [OutI matching_pubs, OutD time_to_execute, OutI max_frame_overall] \<Rightarrow>
         bindR (put_names (map str manifest_columns) (manifest\<lparr>rs_exec_duration := time_to_execute\<rparr>)) (\<lambda>manifest.
         bindR (foldR manifest_row_from [0..<nat (sint matching_pubs)] (b, offset, manifest)) (\<lambda>(b, offset, manifest).
         Inr (b, manifest, max_frame_overall)))
     | _ \<Rightarrow> Inl Bad_Argument))"

definition SOSA_refresh_pub_manifest ::
    "SOS_ctx \<Rightarrow> SOS_uid \<Rightarrow> i32 \<Rightarrow> SOSA_results \<Rightarrow> cstring \<Rightarrow> (SOS_buffer \<Rightarrow> SOS_buffer \<Rightarrow> SOS_buffer res) \<Rightarrow>
     (SOS_uid \<times> u64 \<times> SOSA_results \<times> i32) res" where
  "SOSA_refresh_pub_manifest cx pool receives_port manifest pub_title_filter exchange =
     bindR (SOSA_results_wipe manifest) (\<lambda>manifest.
     bindR (next_request_guid cx pool) (\<lambda>(pool, request_guid).
     bindR (write_msg (msg_header_of SOS_MSG_TYPE_MANIFEST (scast (cx_comm_rank cx)) 0) (\<lambda>bo.
       bindR (pack_fields ''s'' [ArgS (cx_node_id cx)] bo) (\<lambda>bo.
       bindR (pack_fields ''i'' [ArgI receives_port] bo) (\<lambda>bo.
       bindR (pack_fields ''s'' [ArgS pub_title_filter] bo)
         (pack_fields ''g'' [ArgG request_guid])))) (SOS_buffer_init_sized_locking 4096 False)) (\<lambda>msg.
     bindR (exchange msg (SOS_buffer_init_sized_locking 4096 False)) (\<lambda>reply.
     bindR (SOS_buffer_destroy (Some msg)) (\<lambda>_.
     bindR (manifest_from_reply reply manifest) (\<lambda>(reply, manifest, max_frame_overall).
     bindR (SOS_buffer_destroy (Some reply)) (\<lambda>_. Inr (pool, request_guid, manifest, max_frame_overall))))))))"

definition SOSA_request_pub_manifest ::
    "SOS_ctx \<Rightarrow> SOS_uid \<Rightarrow> i32 \<Rightarrow> cstring \<Rightarrow> (SOS_buffer \<Rightarrow> SOS_buffer \<Rightarrow> SOS_buffer res) \<Rightarrow> (SOS_uid \<times> u64 \<times> SOSA_results \<times> i32) res" where
  "SOSA_request_pub_manifest cx pool receives_port = SOSA_refresh_pub_manifest cx pool receives_port (SOSA_results_init_sized 512 7)"

section \<open>The daemon\<close>

definition pubs_listed :: "SOSD \<Rightarrow> SOS_pub list res" where
  "pubs_listed sd = foldR (\<lambda>a ps. bindR (pub_ref sd a) (\<lambda>p. Inr (ps @ [p]))) (sd_pub_list sd) []"

definition filters_str :: "cstring \<Rightarrow> cstring \<Rightarrow> cstring" where
  "filters_str pub_filter val_filter = take 2047 (str ''pub:'' @ [34] @ pub_filter @ [34] @ str '' val:'' @ [34] @ val_filter @ [34])"

definition SOSD_handle_cache_grab :: "SOS_ctx \<Rightarrow> c_double \<Rightarrow> SOSD \<Rightarrow> SOS_buffer \<Rightarrow> (SOSD \<times> SOS_buffer \<times> SOS_buffer) res" where
  "SOSD_handle_cache_grab cx duration sd msg =
     bindR (SOS_msg_unzip msg 0) (\<lambda>(msg, _, offset).
     bindR (SOS_buffer_unpack_safestr msg offset) (\<lambda>(msg, offset, reply_host).
     bindR (unpack_fields ''i'' [DestI] (msg, offset)) (\<lambda>(msg, offset, port).
     bindR (out_i port) (\<lambda>reply_port.
     bindR (SOS_buffer_unpack_safestr msg offset) (\<lambda>(msg, offset, pub_filter).
     bindR (SOS_buffer_unpack_safestr msg offset) (\<lambda>(msg, offset, val_filter).
     bindR (unpack_fields ''i'' [DestI] (msg, offset)) (\<lambda>(msg, offset, head).
     bindR (out_i head) (\<lambda>frame_head.
     bindR (unpack_fields ''i'' [DestI] (msg, offset)) (\<lambda>(msg, offset, limit).
     bindR (out_i limit) (\<lambda>frame_depth_limit.
     bindR (unpack_fields ''g'' [DestG] (msg, offset)) (\<lambda>(msg, offset, guid).
     bindR (out_g guid) (\<lambda>req_guid.
     bindR (deref pub_filter) (\<lambda>pf.
     bindR (deref val_filter) (\<lambda>vf.
         bindR (pubs_listed sd) (\<lambda>pubs.
         bindR (SOSA_cache_to_results duration (SOSA_results_label SOSA_results_init req_guid (Some (filters_str (cstr pf) (cstr vf))))
                  (cstr pf) (cstr vf) (sint frame_head) (sint frame_depth_limit) pubs) (\<lambda>results.
         bindR (queue_put (cx_mincap cx) (Feedback_Cache \<lparr>cg_pub_filter_regex = pub_filter, cg_val_filter_regex = val_filter,
                  cg_frame_head = frame_head, cg_frame_depth_limit = frame_depth_limit, cg_req_guid = req_guid,
                  cg_reply_host = reply_host, cg_reply_port = reply_port, cg_results = results\<rparr>) (sd_feedback sd)) (\<lambda>q.
         bindR (ack_reply SOS_DEFAULT_REPLY_LEN True) (\<lambda>reply. Inr (sd\<lparr>sd_feedback := q\<rparr>, msg, reply)))))))))))))))))))"

text \<open>A query waits for the database; without a database it is answered with an empty table.\<close>

definition new_query_handle :: "SOS_msg_header \<Rightarrow> byte list option \<Rightarrow> i32 \<Rightarrow> byte list option \<Rightarrow> u64 \<Rightarrow> SOSD_query_handle" where
  "new_query_handle header host port sql guid =
     \<lparr>qh_state = enum_code SOS_query_state_vals SOS_QUERY_STATE_INCOMING, qh_reply_to_guid = hd_msg_from header, qh_query_sql = sql,
      qh_query_guid = guid, qh_reply_host = host, qh_reply_port = port, qh_results = None\<rparr>"

definition SOSD_handle_query :: "SOS_ctx \<Rightarrow> bool \<Rightarrow> SOSD \<Rightarrow> SOS_buffer \<Rightarrow> (SOSD \<times> SOS_buffer \<times> SOS_buffer) res" where
  "SOSD_handle_query cx db_disabled sd buffer =
     bindR (SOS_msg_unzip buffer 0) (\<lambda>(buffer, header, offset).
     bindR (SOS_buffer_unpack_safestr buffer offset) (\<lambda>(buffer, offset, reply_host).
     bindR (unpack_fields ''i'' [DestI] (buffer, offset)) (\<lambda>(buffer, offset, port).
     bindR (out_i port) (\<lambda>reply_port.
     bindR (SOS_buffer_unpack_safestr buffer offset) (\<lambda>(buffer, offset, query_sql).
     bindR (unpack_fields ''g'' [DestG] (buffer, offset)) (\<lambda>(buffer, offset, guid).
     bindR (out_g guid) (\<lambda>query_guid.
         let handle = new_query_handle header reply_host reply_port query_sql query_guid
         in bindR (if db_disabled
              then let results = (SOSA_results_label SOSA_results_init query_guid (map_option cstr query_sql))
                     \<lparr>rs_col_count := 0, rs_row_count := 0, rs_exec_duration := Fin 0\<rparr>
                   in bindR (queue_put (cx_mincap cx) (Feedback_Query (handle\<lparr>qh_results := Some results\<rparr>)) (sd_feedback sd)) (\<lambda>q.
                      Inr (sd\<lparr>sd_feedback := q\<rparr>))
              else bindR (queue_put (cx_mincap cx) \<lparr>tk_type = enum_code SOS_msg_type_vals SOS_MSG_TYPE_QUERY, tk_ref = length (sd_queries sd)\<rparr> (sd_db sd)) (\<lambda>q.
                   Inr (sd\<lparr>sd_db := q, sd_queries := sd_queries sd @ [handle]\<rparr>))) (\<lambda>sd.
            bindR (ack_reply SOS_DEFAULT_REPLY_LEN True) (\<lambda>reply. Inr (sd, buffer, reply))))))))))"

text \<open>
  The manifest: the header and three numbers first, then the publications whose title contains the filter, from the
  newest to the oldest, then the numbers again, now that they are known. \<open>elapsed\<close> is what the clock says it took.
\<close>

abbreviation manifest_args :: "SOS_pub \<Rightarrow> pack_arg list" where
  "manifest_args pub \<equiv>
     [ArgG (pb_guid pub), ArgS (cstr (pb_title pub)), ArgI (pb_comm_rank pub), ArgS (cstr (pb_node_id pub)), ArgI (pb_process_id pub),
      ArgI (word_of_int (pb_elem_count pub)), ArgI (scast (pb_frame pub))]"

definition manifest_pub :: "byte list option \<Rightarrow> SOS_pub \<Rightarrow> (SOS_buffer \<times> nat) \<times> i32 \<times> i32 \<Rightarrow> ((SOS_buffer \<times> nat) \<times> i32 \<times> i32) res" where
  "manifest_pub pub_title_filter pub = (\<lambda>(bo, matching_pubs, max_frame_overall).
     bindR (array_str (pb_title pub)) (\<lambda>title.
     bindR (deref pub_title_filter) (\<lambda>f.
     if strstr title (cstr f)
     then bindR (array_str (pb_node_id pub)) (\<lambda>_.
          bindR (pack_fields ''gsisiii'' (manifest_args pub) bo) (\<lambda>bo.
          Inr (bo, matching_pubs + 1, if sint max_frame_overall < sint (pb_frame pub) then scast (pb_frame pub) else max_frame_overall)))
     else Inr (bo, matching_pubs, max_frame_overall))))"

definition SOSA_pub_manifest_to_buffer :: "i32 \<Rightarrow> c_double \<Rightarrow> SOS_buffer \<Rightarrow> SOS_pub list \<Rightarrow> (SOS_buffer \<times> SOS_buffer) res" where
  "SOSA_pub_manifest_to_buffer comm_rank elapsed request pubs =
     bindR (SOS_msg_unzip request 0) (\<lambda>(request, _, offset).
     bindR (SOS_buffer_unpack_safestr request offset) (\<lambda>(request, offset, _).
     bindR (unpack_fields ''i'' [DestI] (request, offset)) (\<lambda>(request, offset, _).
     bindR (SOS_buffer_unpack_safestr request offset) (\<lambda>(request, offset, pub_title_filter).
     bindR (unpack_fields ''g'' [DestG] (request, offset)) (\<lambda>(request, offset, guid).
     bindR (out_g guid) (\<lambda>request_guid.
         let header = msg_header_of SOS_MSG_TYPE_MANIFEST (scast comm_rank) request_guid
         in bindR (SOS_msg_zip (SOS_buffer_init_sized_locking 4096 False) header 0) (\<lambda>(reply, offset, _).
            bindR (pack_fields ''i'' [ArgI (- 1)] (reply, offset)) (\<lambda>bo.
            bindR (pack_fields ''d'' [ArgD (Fin 0)] bo) (\<lambda>bo.
            bindR (pack_fields ''i'' [ArgI (- 1)] bo) (\<lambda>bo.
            bindR (foldR (manifest_pub pub_title_filter) pubs (bo, 0, - 1)) (\<lambda>((reply, offset), matching_pubs, max_frame_overall).
            bindR (SOS_msg_zip reply (header\<lparr>hd_msg_size := word_of_nat offset\<rparr>) 0) (\<lambda>(reply, offset, _).
            bindR (pack_fields ''i'' [ArgI matching_pubs] (reply, offset)) (\<lambda>bo.
            bindR (pack_fields ''d'' [ArgD elapsed] bo) (\<lambda>bo.
            bindR (pack_fields ''i'' [ArgI max_frame_overall] bo) (\<lambda>(reply, _). Inr (request, reply))))))))))))))))"

definition SOSD_handle_manifest :: "SOS_ctx \<Rightarrow> c_double \<Rightarrow> SOSD \<Rightarrow> SOS_buffer \<Rightarrow> (SOS_buffer \<times> SOS_buffer) res" where
  "SOSD_handle_manifest cx elapsed sd buffer =
     bindR (pubs_listed sd) (\<lambda>pubs.
     bindR (SOSA_pub_manifest_to_buffer (cx_comm_rank cx) elapsed buffer pubs) (\<lambda>(buffer, reply).
     bindR (SOS_buffer_destroy (Some reply)) (\<lambda>_. Inr (buffer, reply))))"

text \<open>The listening loop with these handlers; what is left, the probe, stays open.\<close>

definition analysis_handlers :: "SOS_ctx \<Rightarrow> bool \<Rightarrow> c_double \<Rightarrow> other_handlers \<Rightarrow> other_handlers" where
  "analysis_handlers cx db_disabled duration other t sd msg =
     (if t = SOS_MSG_TYPE_CACHE_GRAB
      then bindR (SOSD_handle_cache_grab cx duration sd msg) (\<lambda>(sd, msg, reply). Inr (sd, msg, Some reply))
      else if t = SOS_MSG_TYPE_QUERY
      then bindR (SOSD_handle_query cx db_disabled sd msg) (\<lambda>(sd, msg, reply). Inr (sd, msg, Some reply))
      else if t = SOS_MSG_TYPE_MANIFEST
      then bindR (SOSD_handle_manifest cx duration sd msg) (\<lambda>(msg, reply). Inr (sd, msg, Some reply))
      else other t sd msg)"

section \<open>Messages\<close>

lemma listen_takes:
  assumes "is_msg header e sent" and "24 + length e \<le> MSG_LIMIT" and "stream_of rs sent" and "fresh_msg buffer"
    and "\<not> sd_shutdown sd" and "enum_decode SOS_msg_type_vals (hd_msg_type header) = Some t"
  shows "\<exists>b. is_msg header e b \<and>
    SOSD_listen_step cx u other rs sd buffer = bindR (SOSD_listen_dispatch cx u other (Some t) sd b) (\<lambda>(sd, b, reply). Inr (sd, b, [], reply))"
proof -
  obtain bs rs0 where rs: "stream_ok rs" "stream_bytes rs = take (buf_len sent) (buf_data sent)" "24 \<le> length bs" "rs = Recv bs # rs0"
    using assms(3) by (auto simp: stream_of_def)
  obtain r where r: "SOS_target_recv_msg False rs (Some (SOS_buffer_wipe buffer)) = Inr (Some r, [], int (buf_len sent))" "is_msg header e r"
    using recv_whole_msg [OF assms(1,2) rs fresh_msg_wiped [OF assms(4)]] by blast
  have n: "\<not> int (buf_len sent) < 24" using is_msg_len [OF assms(1)] by simp
  obtain b where b: "SOS_msg_unzip r 0 = Inr (b, header\<lparr>hd_msg_size := word_of_nat (24 + length e)\<rparr>, 24)" "is_msg header e b"
    using unzip_is_msg [OF r(2)] by blast
  then show ?thesis using r(1) n assms(5,6) by (intro exI [of _ b]) (simp add: SOSD_listen_step_def)
qed

lemma receives_query:
  assumes "is_msg header e sent" and "24 + length e \<le> MSG_LIMIT" and "stream_of rs sent" and "fresh_msg buffer"
    and "hd_msg_type header = enum_code SOS_feedback_type_vals SOS_FEEDBACK_TYPE_QUERY"
  shows "\<exists>b. SOS_receives_step False rs buffer = Inr (b, [], Some (Fb_Query b)) \<and> is_msg header e b"
proof -
  obtain bs rs0 where rs: "stream_ok rs" "stream_bytes rs = take (buf_len sent) (buf_data sent)" "24 \<le> length bs" "rs = Recv bs # rs0"
    using assms(3) by (auto simp: stream_of_def)
  obtain r where r: "SOS_target_recv_msg False rs (Some (SOS_buffer_wipe buffer)) = Inr (Some r, [], int (buf_len sent))" "is_msg header e r"
    using recv_whole_msg [OF assms(1,2) rs fresh_msg_wiped [OF assms(4)]] by blast
  have n: "\<not> (0 \<le> int (buf_len sent) \<and> int (buf_len sent) < 24)" using is_msg_len [OF assms(1)] by simp
  obtain b where b: "SOS_msg_unzip r 0 = Inr (b, header\<lparr>hd_msg_size := word_of_nat (24 + length e)\<rparr>, 24)" "is_msg header e b"
    using unzip_is_msg [OF r(2)] by blast
  have t: "hd_msg_type (header\<lparr>hd_msg_size := k\<rparr>) = enum_code SOS_feedback_type_vals SOS_FEEDBACK_TYPE_QUERY" for k using assms(5) by simp
  have "SOS_receives_step False rs buffer = Inr (b, [], Some (Fb_Query b))"
    unfolding SOS_receives_step_def r(1) bindR.simps prod.case option.case if_not_P [OF n] b(1) if_P [OF t] simp_thms if_False by (rule TrueI)
  with b(2) show ?thesis by blast
qed

lemma is_msg_in_one_piece: "is_msg header e b \<Longrightarrow> stream_of (in_one_piece b) b"
proof -
  assume a: "is_msg header e b"
  have "buf_len b \<le> length (buf_data b)" using a by (auto simp only: is_msg_def holding_def buffer_wf_def)
  then show ?thesis using is_msg_len [OF a] by (intro stream_of_one) simp_all
qed

section \<open>The request\<close>

definition grab_ok :: "SOS_ctx \<Rightarrow> cstring \<Rightarrow> cstring \<Rightarrow> bool" where
  "grab_ok cx pub_filter val_filter \<longleftrightarrow>
     cx_role cx = SOS_ROLE_CLIENT \<and> str_fits (cx_node_id cx) \<and> wf_cstring pub_filter \<and> wf_cstring val_filter \<and>
     length pub_filter + length val_filter \<le> 1900"

lemma grab_okD:
  assumes "grab_ok cx pf vf"
  shows "cx_role cx = SOS_ROLE_CLIENT" and "str_fits (cx_node_id cx)" and "str_fits pf" and "str_fits vf"
    and "cstr (pf @ [0]) = pf" and "cstr (vf @ [0]) = vf"
    and "wf_cstring (filters_str pf vf)" and "length (filters_str pf vf) \<le> 2000"
proof -
  show "cx_role cx = SOS_ROLE_CLIENT" "str_fits (cx_node_id cx)" "str_fits pf" "str_fits vf" "cstr (pf @ [0]) = pf" "cstr (vf @ [0]) = vf"
    using assms cstr_append_NUL [of _ "[]"] by (auto simp: grab_ok_def str_fits_def)
  have "0 \<notin> set (str ''pub:'')" "0 \<notin> set (str '' val:'')" "length (str ''pub:'') = 4" "length (str '' val:'') = 5" by code_simp+
  then show "wf_cstring (filters_str pf vf)" "length (filters_str pf vf) \<le> 2000"
    using assms by (auto simp: grab_ok_def filters_str_def wf_cstring_def dest: in_set_takeD)
qed

abbreviation grab_header :: "i32 \<Rightarrow> SOS_msg_header" where
  "grab_header rank \<equiv> msg_header_of SOS_MSG_TYPE_CACHE_GRAB (scast rank) 0"

definition grab_body :: "SOS_ctx \<Rightarrow> i32 \<Rightarrow> cstring \<Rightarrow> cstring \<Rightarrow> i32 \<Rightarrow> i32 \<Rightarrow> u64 \<Rightarrow> byte list" where
  "grab_body cx port pf vf head limit g =
     str_enc (cx_node_id cx) @ encode [ArgI port] @ str_enc pf @ str_enc vf @ encode [ArgI head] @ encode [ArgI limit] @ encode [ArgG g]"

lemma grab_body_fits: "grab_ok cx pf vf \<Longrightarrow> 24 + length (grab_body cx port pf vf head limit g) \<le> MSG_LIMIT"
  by (simp add: grab_body_def grab_ok_def str_fits_def MSG_LIMIT_def)

lemma fresh_msg_sized: "SOS_DEFAULT_BUFFER_MAX \<le> n \<Longrightarrow> n \<le> MSG_LIMIT \<Longrightarrow> fresh_msg (SOS_buffer_init_sized_locking n l)"
  by (simp add: fresh_msg_def building_def SOS_buffer_init_sized_locking_def buffer_wf_def packed_prefix_def MSG_LIMIT_def INT_MAX_def)

lemma SOSA_cache_grab_ok:
  assumes "grab_ok cx pf vf" and "\<forall>m r. \<not> buf_lock r \<longrightarrow> (\<exists>r'. exchange m r = Inr r' \<and> \<not> buf_lock r')"
    and "SOS_uid_next (cx_send cx) (cx_role cx) (cx_my_guid cx) (cx_offline_test_mode cx) pool = Inr (pool', g)"
  shows "\<exists>msg. SOSA_cache_grab cx pool port pf vf head limit exchange = Inr (pool', g, msg) \<and>
    is_msg (grab_header (cx_comm_rank cx)) (grab_body cx port pf vf head limit g) msg"
proof -
  let ?b = "SOS_buffer_init_sized_locking 4096 False"
  have I: "appends (pack_fields ''i'' [ArgI i]) (encode [ArgI i])" for i by (intro appends_fields) (auto simp: SOS_DEFAULT_BUFFER_MAX_def)
  have G: "appends (pack_fields ''g'' [ArgG g]) (encode [ArgG g])" by (intro appends_fields) (auto simp: SOS_DEFAULT_BUFFER_MAX_def)
  note s = grab_okD(2-4) [OF assms(1), THEN put_str_appends]
  have "appends (\<lambda>bo. bindR (pack_fields ''s'' [ArgS (cx_node_id cx)] bo) (\<lambda>bo.
       bindR (pack_fields ''i'' [ArgI port] bo) (\<lambda>bo.
       bindR (pack_fields ''s'' [ArgS pf] bo) (\<lambda>bo.
       bindR (pack_fields ''s'' [ArgS vf] bo) (\<lambda>bo.
       bindR (pack_fields ''i'' [ArgI head] bo) (\<lambda>bo.
       bindR (pack_fields ''i'' [ArgI limit] bo)
         (pack_fields ''g'' [ArgG g]))))))) (grab_body cx port pf vf head limit g)"
    unfolding grab_body_def by (intro appends_seq s I G)
  from write_msg_is_msg [OF fresh_msg_sized this grab_body_fits [OF assms(1)], of 4096 "grab_header (cx_comm_rank cx)" False]
  obtain msg where m: "write_msg (grab_header (cx_comm_rank cx)) (\<lambda>bo. bindR (pack_fields ''s'' [ArgS (cx_node_id cx)] bo) (\<lambda>bo.
       bindR (pack_fields ''i'' [ArgI port] bo) (\<lambda>bo.
       bindR (pack_fields ''s'' [ArgS pf] bo) (\<lambda>bo.
       bindR (pack_fields ''s'' [ArgS vf] bo) (\<lambda>bo.
       bindR (pack_fields ''i'' [ArgI head] bo) (\<lambda>bo.
       bindR (pack_fields ''i'' [ArgI limit] bo)
         (pack_fields ''g'' [ArgG g]))))))) ?b = Inr msg" "is_msg (grab_header (cx_comm_rank cx)) (grab_body cx port pf vf head limit g) msg"
    by (auto simp: SOS_DEFAULT_BUFFER_MAX_def MSG_LIMIT_def)
  have "\<not> buf_lock (SOS_buffer_init_sized_locking 2048 False)" by (simp add: SOS_buffer_init_sized_locking_def)
  then obtain r where r: "exchange msg (SOS_buffer_init_sized_locking 2048 False) = Inr r" "\<not> buf_lock r" using assms(2) by blast
  have "\<not> buf_lock msg" using m(2) by (simp add: is_msg_def)
  note d = SOS_buffer_destroy_free [OF this] SOS_buffer_destroy_free [OF r(2)]
  have "SOSA_cache_grab cx pool port pf vf head limit exchange = Inr (pool', g, msg)"
    unfolding SOSA_cache_grab_def next_request_guid_def if_P [OF grab_okD(1) [OF assms(1)]] assms(3) bindR.simps prod.case m(1) r(1) d by (rule refl)
  with m(2) show ?thesis by blast
qed

lemma SOSD_handle_cache_grab_ok:
  assumes "grab_ok client pf vf" and "is_msg (grab_header rank) (grab_body client port pf vf head limit g) b"
    and "pubs_listed sd = Inr pubs" and "\<forall>pub \<in> set pubs. 0 < sint (pb_cache_depth pub) \<longrightarrow> pub_readable (sint head) pub"
    and "q_ok (cx_mincap cx) (sd_feedback sd)" and "length (q_list (sd_feedback sd)) + 2 \<le> cx_mincap cx"
  shows "\<exists>q b' reply table. SOSD_handle_cache_grab cx duration sd b = Inr (sd\<lparr>sd_feedback := q\<rparr>, b', reply) \<and> q_ok (cx_mincap cx) q \<and>
    q_list q = q_list (sd_feedback sd) @ [Feedback_Cache \<lparr>cg_pub_filter_regex = Some (pf @ [0]), cg_val_filter_regex = Some (vf @ [0]),
      cg_frame_head = head, cg_frame_depth_limit = limit, cg_req_guid = g, cg_reply_host = Some (cx_node_id client @ [0]),
      cg_reply_port = port, cg_results = table\<rparr>] \<and>
    holds_rows table (grab_rows pf vf (sint head) (sint limit) pubs) \<and> (\<forall>j < 14. rs_name table j = Some (str (cache_columns ! j) @ [0])) \<and>
    rs_query_sql table = Some (filters_str pf vf @ [0]) \<and> rs_query_guid table = g \<and> rs_exec_duration table = duration"
proof -
  let ?n = "str_enc (cx_node_id client)" and ?p = "encode [ArgI port]" and ?pf = "str_enc pf" and ?vf = "str_enc vf"
  let ?h = "encode [ArgI head]" and ?l = "encode [ArgI limit]" and ?g = "encode [ArgG g]"
  obtain b1 h where u: "SOS_msg_unzip b 0 = Inr (b1, h, 24)"
      "is_msg (grab_header rank) (?n @ ?p @ ?pf @ ?vf @ ?h @ ?l @ ?g) b1"
    using unzip_is_msg [OF assms(2)] unfolding grab_body_def by blast
  note s = grab_okD(2-4) [OF assms(1), THEN safestr_reads]
  have I: "reads (unpack_fields ''i'' [DestI]) (encode [ArgI i]) [OutI i]" for i by (rule reads_fields) simp_all
  have G: "reads (unpack_fields ''g'' [DestG]) (encode [ArgG g]) [OutG g]" by (rule reads_fields) simp_all
  have at: "r (b1, 24 + length xs) = Inr (b1, 24 + length xs + length e, x)"
    if "?n @ ?p @ ?pf @ ?vf @ ?h @ ?l @ ?g = xs @ e @ zs" "reads r e x" for r :: "SOS_buffer \<times> nat \<Rightarrow> (SOS_buffer \<times> nat \<times> 'x) res" and xs e zs x
    using read_body [OF _ that(2)] u(2) unfolding that(1) by blast
  let ?o1 = "24 + length ?n" let ?o2 = "?o1 + length ?p" let ?o3 = "?o2 + length ?pf" let ?o4 = "?o3 + length ?vf"
  let ?o5 = "?o4 + length ?h" let ?o6 = "?o5 + length ?l" let ?o7 = "?o6 + length ?g"
  have 1: "SOS_buffer_unpack_safestr b1 24 = Inr (b1, ?o1, Some (cx_node_id client @ [0]))"
    using at [OF _ s(1), of "[]" "?p @ ?pf @ ?vf @ ?h @ ?l @ ?g"] by simp
  have 2: "unpack_fields ''i'' [DestI] (b1, ?o1) = Inr (b1, ?o2, [OutI port])"
    using at [OF _ I, of ?n port "?pf @ ?vf @ ?h @ ?l @ ?g"] by simp
  have 3: "SOS_buffer_unpack_safestr b1 ?o2 = Inr (b1, ?o3, Some (pf @ [0]))"
    using at [OF _ s(2), of "?n @ ?p" "?vf @ ?h @ ?l @ ?g"] by (simp add: add.assoc del: encode_simps enc_arg.simps)
  have 4: "SOS_buffer_unpack_safestr b1 ?o3 = Inr (b1, ?o4, Some (vf @ [0]))"
    using at [OF _ s(3), of "?n @ ?p @ ?pf" "?h @ ?l @ ?g"] by (simp add: add.assoc del: encode_simps enc_arg.simps)
  have 5: "unpack_fields ''i'' [DestI] (b1, ?o4) = Inr (b1, ?o5, [OutI head])"
    using at [OF _ I, of "?n @ ?p @ ?pf @ ?vf" head "?l @ ?g"] by (simp add: add.assoc del: encode_simps enc_arg.simps)
  have 6: "unpack_fields ''i'' [DestI] (b1, ?o5) = Inr (b1, ?o6, [OutI limit])"
    using at [OF _ I, of "?n @ ?p @ ?pf @ ?vf @ ?h" limit ?g] by (simp add: add.assoc del: encode_simps enc_arg.simps)
  have 7: "unpack_fields ''g'' [DestG] (b1, ?o6) = Inr (b1, ?o7, [OutG g])"
    using at [OF _ G, of "?n @ ?p @ ?pf @ ?vf @ ?h @ ?l" "[]"] by (simp add: add.assoc del: encode_simps enc_arg.simps)
  let ?r = "SOSA_results_label SOSA_results_init g (Some (filters_str pf vf))"
  have r: "results_ok ?r" "rs_row_count ?r = 0" "rs_col_count ?r = 0" "rs_query_sql ?r = Some (filters_str pf vf @ [0])" "rs_query_guid ?r = g"
    using results_init_ok [of SOSA_DEFAULT_RESULT_ROW_MAX SOSA_DEFAULT_RESULT_COL_MAX]
    by (simp_all add: SOSA_results_init_def SOSA_DEFAULT_RESULT_ROW_MAX_def SOSA_DEFAULT_RESULT_COL_MAX_def SOSA_results_label_def results_ok_def)
      (simp_all add: SOSA_results_init_sized_def)
  obtain table where t: "SOSA_cache_to_results duration ?r pf vf (sint head) (sint limit) pubs = Inr table"
      "holds_rows table (grab_rows pf vf (sint head) (sint limit) pubs)" "\<forall>j < 14. rs_name table j = Some (str (cache_columns ! j) @ [0])"
      "rs_query_sql table = Some (filters_str pf vf @ [0])" "rs_query_guid table = g" "rs_exec_duration table = duration"
    using cache_to_results_ok [OF r(1-3) assms(4), of duration pf vf "sint limit"] unfolding r(4,5) by blast
  let ?task = "Feedback_Cache \<lparr>cg_pub_filter_regex = Some (pf @ [0]), cg_val_filter_regex = Some (vf @ [0]),
      cg_frame_head = head, cg_frame_depth_limit = limit, cg_req_guid = g, cg_reply_host = Some (cx_node_id client @ [0]),
      cg_reply_port = port, cg_results = table\<rparr>"
  obtain q where q: "queue_put (cx_mincap cx) ?task (sd_feedback sd) = Inr q" "q_ok (cx_mincap cx) q" "q_list q = q_list (sd_feedback sd) @ [?task]"
    using queue_put_ok [OF assms(5,6)] by blast
  obtain reply where a: "ack_reply SOS_DEFAULT_REPLY_LEN True = Inr reply"
    using ack_reply_ok [of SOS_DEFAULT_REPLY_LEN True] by (auto simp: SOS_DEFAULT_REPLY_LEN_def)
  have "SOSD_handle_cache_grab cx duration sd b = Inr (sd\<lparr>sd_feedback := q\<rparr>, b1, reply)"
    unfolding SOSD_handle_cache_grab_def u(1) bindR.simps prod.case 1 2 3 4 5 6 7 out_i.simps out_g.simps deref_simps
      grab_okD(5,6) [OF assms(1)] assms(3) t(1) q(1) a by (rule refl)
  then show ?thesis using q(2,3) t(2-6) by blast
qed

section \<open>The table on its way\<close>

definition rows_fit :: "cstring list list \<Rightarrow> bool" where
  "rows_fit rows \<longleftrightarrow>
     length rows < 2 ^ 31 \<and> (\<forall>row \<in> set rows. \<forall>c \<in> set row. length c \<le> 2044) \<and>
     sum_list (map (\<lambda>row. sum_list (map (\<lambda>c. 4 + length c) row)) rows) \<le> MSG_LIMIT - 100000"

definition names_fit :: "cstring list \<Rightarrow> bool" where
  "names_fit names \<longleftrightarrow> (\<forall>s \<in> set names. wf_cstring s \<and> length s \<le> 2044) \<and> sum_list (map (\<lambda>c. 4 + length c) names) \<le> 90000"

text \<open>The columns in use, with their names, and the rows.\<close>

definition holds_table :: "SOSA_results \<Rightarrow> cstring list \<Rightarrow> cstring list list \<Rightarrow> bool" where
  "holds_table r names rows \<longleftrightarrow>
     results_ok r \<and> rs_row_count r = int (length rows) \<and> rs_col_count r = int (length names) \<and>
     (\<forall>j < length names. rs_name r j = Some (names ! j @ [0])) \<and>
     (\<forall>i < length rows. length (rows ! i) = length names \<and> (\<forall>j < length names. rs_cell r i j = Some (rows ! i ! j @ [0])))"

text \<open>The cells are C strings.\<close>

lemma wf_number [simp]: "wf_cstring (int_str i)" "wf_cstring (lf_str n d)" "wf_cstring (double_str d)" "wf_cstring s \<Longrightarrow> wf_cstring (in_128 s)"
proof -
  have "wf_cstring (str ''inf'')" "wf_cstring (str ''nan'')" by code_simp+
  then have l: "wf_cstring (lf_str n d)" for n
    using wf_dec_digits by (auto simp: lf_str_def wf_cstring_def Let_def split: c_double.split)
  then show "wf_cstring (lf_str n d)" "wf_cstring (double_str d)" by (simp_all add: double_str_def)
  show "wf_cstring (int_str i)" using wf_dec_digits by (simp add: int_str_def wf_cstring_def)
  show "wf_cstring s \<Longrightarrow> wf_cstring (in_128 s)" by (auto simp: in_128_def wf_cstring_def dest: in_set_takeD)
qed

lemma wf_snap_val:
  assumes "snap_val_str snap = Inr v"
  shows "wf_cstring v"
proof -
  have "wf_cstring (str ''(null)'')" "wf_cstring (str ''(bytes)'')" "wf_cstring (str ''(unknown type)'')" by code_simp+
  with assms show ?thesis
    by (auto simp: snap_val_str_def bindR_Inr_iff split: option.splits SOS_val_type.splits)
qed

lemma wf_snap_row:
  assumes "snap_readable pub snap" and "titled pub"
  shows "\<forall>c \<in> set (snap_row pub snap). wf_cstring c"
proof -
  obtain v where v: "snap_val_str snap = Inr v" using assms(1) by (cases "snap_val_str snap") (auto simp: snap_readable_def)
  show ?thesis
    using v wf_snap_val [OF v] assms(2) by (simp add: snap_row_def cache_row_def array_str_def titled_def snap_name_def)
qed

lemma wanted_among: "fr \<in> set (wanted_frames frame_head limit frames) \<Longrightarrow> fr \<in> set frames"
  by (auto simp: wanted_frames_def Let_def dest: set_takeWhileD in_set_takeD split: if_splits)

lemma wf_grab_rows:
  assumes "\<forall>pub \<in> set pubs. 0 < sint (pb_cache_depth pub) \<longrightarrow> pub_readable h pub"
  shows "\<forall>row \<in> set (grab_rows pf vf h limit pubs). \<forall>c \<in> set row. wf_cstring c"
proof
  fix row
  assume "row \<in> set (grab_rows pf vf h limit pubs)"
  then obtain pub where p: "pub \<in> set pubs" "0 < sint (pb_cache_depth pub)" "row \<in> set (pub_rows vf h limit pub)" by (auto simp: grab_rows_def)
  then obtain snap fr where s: "row = snap_row pub snap" "snap \<in> set fr" "fr \<in> set (wanted_frames h limit (map frame_snaps (cache_frames pub)))"
    by (auto simp: pub_rows_def)
  then obtain ch where "ch \<in> set (cache_frames pub)" "fr = frame_snaps ch" using wanted_among [OF s(3)] by auto
  then have "snap_readable pub snap" "titled pub" using p(1,2) s(2) assms by (auto simp: pub_readable_def)
  then show "\<forall>c \<in> set row. wf_cstring c" using wf_snap_row s(1) by simp
qed

lemma length_cells: "length (concat (map str_enc ss)) = sum_list (map (\<lambda>c. 4 + length c) ss)"
  by (induction ss) simp_all

lemma sum_list_cells: "sum_list (map f (concat rows)) = sum_list (map (\<lambda>row. sum_list (map f row)) rows)"
  by (induction rows) simp_all

lemma product_strs: "map f (List.product is js) = concat (map (\<lambda>i. map (\<lambda>j. f (i, j)) js) is)"
  by (induction "is") simp_all

lemma table_strs:
  assumes "holds_table t names rows" and "\<forall>row \<in> set rows. \<forall>c \<in> set row. wf_cstring c" and "\<forall>s \<in> set names. wf_cstring s"
  shows "name_strs t = names" and "cell_strs t = concat rows" and "used_rows t = length rows" and "used_cols t = length names"
    and "\<forall>j < length names. rs_name t j = Some (names ! j @ [0]) \<and> cstr (names ! j @ [0]) = names ! j"
    and "\<forall>i < length rows. \<forall>j < length names. rs_cell t i j = Some (rows ! i ! j @ [0]) \<and> cstr (rows ! i ! j @ [0]) = rows ! i ! j"
proof -
  show u: "used_rows t = length rows" "used_cols t = length names"
    using assms(1) by (auto simp: used_rows_def used_cols_def holds_table_def)
  have l: "length (rows ! i) = length names" if "i < length rows" for i using assms(1) that by (simp add: holds_table_def)
  then have "wf_cstring (rows ! i ! j)" if "i < length rows" "j < length names" for i j using assms(2) that by (metis nth_mem)
  then show c: "\<forall>i < length rows. \<forall>j < length names. rs_cell t i j = Some (rows ! i ! j @ [0]) \<and> cstr (rows ! i ! j @ [0]) = rows ! i ! j"
    using assms(1) cstr_append_NUL [of _ "[]"] by (simp add: holds_table_def)
  show n: "\<forall>j < length names. rs_name t j = Some (names ! j @ [0]) \<and> cstr (names ! j @ [0]) = names ! j"
    using assms(1,3) cstr_append_NUL [of _ "[]"] by (simp add: holds_table_def)
  then show "name_strs t = names" by (intro nth_equalityI) (simp_all add: name_strs_def u)
  have "map (\<lambda>j. cstr (the (rs_cell t i j))) [0..<length names] = rows ! i" if "i < length rows" for i
    using c l [OF that] that by (intro nth_equalityI) simp_all
  then have "map (\<lambda>i. map (\<lambda>j. cstr (the (rs_cell t i j))) [0..<length names]) [0..<length rows] = rows" by (intro nth_equalityI) simp_all
  then show "cell_strs t = concat rows" by (simp add: cell_strs_def used_places_def u product_strs)
qed

lemma table_sendable:
  assumes "holds_table t names rows" and "\<forall>row \<in> set rows. \<forall>c \<in> set row. wf_cstring c" and "rows_fit rows" and "names_fit names"
    and "rs_query_sql t = Some (label @ [0])" and "wf_cstring label" and "length label \<le> 2000" and "is_finite (rs_exec_duration t)"
  shows "results_sendable t"
proof -
  have wn: "\<forall>s \<in> set names. wf_cstring s" using assms(4) by (simp add: names_fit_def)
  note c = table_strs [OF assms(1,2) wn]
  have "length (str ''<none>'') = 6" by code_simp
  then have l: "length (label_str t) \<le> 2000" using assms(5-7) cstr_append_NUL [of label "[]"] by (simp add: label_str_def)
  have names: "length (concat (map str_enc (name_strs t))) \<le> 90000"
    using assms(4) by (simp only: length_cells c(1) names_fit_def)
  have "length (concat (map str_enc (cell_strs t))) \<le> MSG_LIMIT - 100000"
    using assms(3) by (simp only: length_cells c(2) rows_fit_def sum_list_cells)
  moreover obtain x where x: "rs_exec_duration t = Fin x" using assms(8) by (cases "rs_exec_duration t") (auto simp: is_finite_def)
  moreover obtain w where "SOS_buffer_pack754_64 (Fin x) = Inr w" using pack754_Fin by blast
  then have "length (encode [ArgS (label_str t), ArgG (rs_query_guid t), ArgD (rs_exec_duration t)]) \<le> 2100"
    using l x by simp
  ultimately have "24 + length (results_body t) \<le> MSG_LIMIT" using names by (simp add: results_body_def MSG_LIMIT_def)
  moreover have "length (rows ! i ! j) \<le> 2044" if "i < length rows" "j < length names" for i j
  proof -
    have "rows ! i ! j \<in> set (rows ! i)" using assms(1) that by (simp add: holds_table_def)
    then show ?thesis using assms(3) nth_mem [OF that(1)] by (auto simp: rows_fit_def)
  qed
  moreover have "length (names ! j) \<le> 2044" if "j < length names" for j using assms(4) nth_mem [OF that] by (auto simp: names_fit_def)
  moreover have "length names < 2 ^ 31"
  proof -
    have "4 * length names \<le> sum_list (map (\<lambda>c. 4 + length c) names)" by (induction names) simp_all
    then show ?thesis using assms(4) by (simp add: names_fit_def)
  qed
  then have "rs_col_count t < 2 ^ 31" using assms(1) by (simp add: holds_table_def)
  moreover have "results_ok t" "rs_row_count t < 2 ^ 31" using assms(1,3) by (auto simp: holds_table_def rows_fit_def)
  ultimately show ?thesis
    using assms(5,8) l c(3-6) by (auto simp: results_sendable_def)
qed

lemma table_received:
  assumes "holds_table t names rows" and "\<forall>row \<in> set rows. \<forall>c \<in> set row. wf_cstring c" and "\<forall>s \<in> set names. wf_cstring s"
    and "results_sendable t" and "is_msg header (results_body t) b" and "results_ok r0"
  shows "\<exists>b' t'. SOSA_results_from_buffer r0 b = Inr (b', t') \<and> holds_table t' names rows \<and> buf_is_locking b' = buf_is_locking b"
proof -
  note c = table_strs [OF assms(1-3)]
  obtain b' t' where r: "SOSA_results_from_buffer r0 b = Inr (b', t')" "results_ok t'" "rs_col_count t' = rs_col_count t" "rs_row_count t' = rs_row_count t"
      "\<forall>j < used_cols t. rs_name t' j = Some (cstr (the (rs_name t j)) @ [0])"
      "\<forall>i < used_rows t. \<forall>j < used_cols t. rs_cell t' i j = Some (cstr (the (rs_cell t i j)) @ [0])" "buf_is_locking b' = buf_is_locking b"
    using results_from_buffer_ok [OF assms(4,5,6)] by blast
  have "\<forall>i < length rows. \<forall>j < length names. rs_cell t' i j = Some (rows ! i ! j @ [0])" "\<forall>j < length names. rs_name t' j = Some (names ! j @ [0])"
    using r(5,6) c(3-6) by simp_all
  then have "holds_table t' names rows" using assms(1) r(2-4) by (simp add: holds_table_def)
  then show ?thesis using r(1,7) by blast
qed

text \<open>A table that was grabbed: without rows it has no columns.\<close>

definition grab_names :: "cstring list list \<Rightarrow> cstring list" where
  "grab_names rows = (if rows = [] then [] else map str cache_columns)"

lemma grabbed_table:
  assumes "holds_rows t rows" and "\<forall>j < 14. rs_name t j = Some (str (cache_columns ! j) @ [0])"
  shows "holds_table t (grab_names rows) rows"
proof -
  have "length cache_columns = 14" by (simp add: cache_columns_def)
  then show ?thesis using assms by (simp add: holds_table_def holds_rows_def filled_def grab_names_def)
qed

lemma grab_names_fit: "names_fit (grab_names rows)"
proof -
  have s: "\<forall>s \<in> set (map str cache_columns). wf_cstring s \<and> length s \<le> 20" by code_simp
  then have "sum_list (map (\<lambda>c. 4 + length c) (map str cache_columns)) \<le> sum_list (map (\<lambda>_. 24) (map str cache_columns))"
    by (intro sum_list_mono) auto
  also have "\<dots> \<le> 90000" by (simp add: sum_list_triv cache_columns_def)
  finally show ?thesis using s by (auto simp: names_fit_def grab_names_def)
qed

section \<open>Asked and answered\<close>

text \<open>The thread sends the table of the task that has waited longest, to the host and port in it.\<close>

fun task_answer :: "SOSD_feedback_task \<Rightarrow> (byte list option \<times> i32 \<times> SOSA_results) option" where
  "task_answer (Feedback_Cache c) = Some (cg_reply_host c, cg_reply_port c, cg_results c)"
| "task_answer (Feedback_Query q) = (case qh_results q of None \<Rightarrow> None | Some r \<Rightarrow> Some (qh_reply_host q, qh_reply_port q, r))"
| "task_answer (Feedback_Payload p) = None"

lemma feedback_answers:
  assumes "q_ok (cx_mincap cx) (sd_feedback sd)" and "q_list (sd_feedback sd) = task # tasks" and "task_answer task = Some (host, port, results)"
    and "resolves host port" and "results_sendable results" and "fresh_msg rmsg"
  shows "\<exists>q answer. SOSD_feedback_sync_step cx up resolves sd (delivery, rmsg) = Inr (sd\<lparr>sd_feedback := q\<rparr>, (delivery, answer), Sent_Results host port) \<and>
    q_ok (cx_mincap cx) q \<and> q_list q = tasks \<and> is_msg (results_header (cx_comm_rank cx)) (results_body results) answer"
proof -
  let ?q = "sd_feedback sd"
  obtain p where p: "pipe_pop_eager (cx_mincap cx) (Feedback_Payload \<lparr>pl_handle = None, pl_size = 0, pl_data = None\<rparr>) (qu_pipe ?q) 1 = Inr (p, [task])"
      "q_ok (cx_mincap cx) (?q\<lparr>qu_pipe := p, qu_elem_count := qu_elem_count ?q - 1\<rparr>)" "pipe_content p = tasks"
    using queue_take_ok [OF assms(1,2)] by blast
  obtain b sql where b: "SOSA_results_to_buffer (cx_comm_rank cx) (SOS_buffer_wipe rmsg) results = Inr (b, sql)"
      "is_msg (results_header (cx_comm_rank cx)) (results_body results) b"
    using results_to_buffer_ok [OF assms(5) fresh_msg_wiped [OF assms(6)]] by blast
  have s: "send_results cx resolves host port results rmsg = Inr (b, Sent_Results host port)"
    using assms(4) b(1) by (simp add: send_results_def)
  have "\<not> qu_sync_lock ?q" using assms(1) by (simp add: q_ok_def)
  then have "SOSD_feedback_sync_step cx up resolves sd (delivery, rmsg) =
      Inr (sd\<lparr>sd_feedback := ?q\<lparr>qu_pipe := p, qu_elem_count := qu_elem_count ?q - 1\<rparr>\<rparr>, (delivery, b), Sent_Results host port)"
    using p(1) s assms(3) by (cases task) (auto simp: SOSD_feedback_sync_step_def Let_def split: option.splits)
  then show ?thesis using p(2,3) b(2) by (intro exI [of _ "?q\<lparr>qu_pipe := p, qu_elem_count := qu_elem_count ?q - 1\<rparr>"] exI [of _ b]) simp
qed

text \<open>What the program reads from an answer, however the network cuts it and whatever table it reads it into.\<close>

definition answers_with :: "SOS_buffer \<Rightarrow> cstring list \<Rightarrow> cstring list list \<Rightarrow> bool" where
  "answers_with answer names rows \<longleftrightarrow>
     (\<forall>rs buffer r0. stream_of rs answer \<longrightarrow> fresh_msg buffer \<longrightarrow> results_ok r0 \<longrightarrow>
       (\<exists>b b' table. SOS_receives_step False rs buffer = Inr (b, [], Some (Fb_Query b)) \<and>
         SOSA_results_from_buffer r0 b = Inr (b', table) \<and> holds_table table names rows))"

lemma answers_withI:
  assumes "is_msg (results_header rank) (results_body t) answer" and "holds_table t names rows" and "results_sendable t"
    and "\<forall>row \<in> set rows. \<forall>c \<in> set row. wf_cstring c" and "\<forall>s \<in> set names. wf_cstring s"
  shows "answers_with answer names rows"
  unfolding answers_with_def
proof (intro allI impI)
  fix rs buffer r0
  assume i: "stream_of rs answer" "fresh_msg buffer" "results_ok r0"
  have fits: "24 + length (results_body t) \<le> MSG_LIMIT" using assms(3) by (simp add: results_sendable_def)
  have ty: "hd_msg_type (results_header rank) = enum_code SOS_feedback_type_vals SOS_FEEDBACK_TYPE_QUERY" by simp
  obtain b where b: "SOS_receives_step False rs buffer = Inr (b, [], Some (Fb_Query b))" "is_msg (results_header rank) (results_body t) b"
    using receives_query [OF assms(1) fits i(1,2) ty] by blast
  from table_received [OF assms(2,4,5,3) b(2) i(3)] b(1)
  show "\<exists>b b' table. SOS_receives_step False rs buffer = Inr (b, [], Some (Fb_Query b)) \<and>
      SOSA_results_from_buffer r0 b = Inr (b', table) \<and> holds_table table names rows" by blast
qed

text \<open>
  C19: a program that asks a daemon for cached values gets them. Its request, however the network cuts it, is taken by
  the listener, which looks into the caches; the feedback thread sends the table to the host and port of the request;
  and the thread of the program that receives, however that message is cut, hands it to the program, which reads from
  it exactly the rows that were asked for, with the names of the columns when there are any rows.
\<close>

theorem cache_grab_answered:
  assumes "grab_ok client pf vf" and "\<forall>m r. \<not> buf_lock r \<longrightarrow> (\<exists>r'. exchange m r = Inr r' \<and> \<not> buf_lock r')"
    and "SOS_uid_next (cx_send client) (cx_role client) (cx_my_guid client) (cx_offline_test_mode client) pool = Inr (pool', g)"
    and "\<not> sd_shutdown sd" and "fresh_msg buffer" and "q_ok (cx_mincap cx) (sd_feedback sd)" and "q_list (sd_feedback sd) = []" and "2 \<le> cx_mincap cx"
    and "pubs_listed sd = Inr pubs" and "\<forall>pub \<in> set pubs. 0 < sint (pb_cache_depth pub) \<longrightarrow> pub_readable (sint head) pub"
    and "rows_fit (grab_rows pf vf (sint head) (sint limit) pubs)" and "is_finite duration"
    and "resolves (Some (cx_node_id client @ [0])) port" and "fresh_msg rmsg"
  shows "\<exists>msg. SOSA_cache_grab client pool port pf vf head limit exchange = Inr (pool', g, msg) \<and> stream_of (in_one_piece msg) msg \<and>
    (\<forall>rs. stream_of rs msg \<longrightarrow>
      (\<exists>sd1 b reply sd2 answer.
        SOSD_listen_step cx server_uid (analysis_handlers cx dbd duration other) rs sd buffer = Inr (sd1, b, [], Some reply) \<and>
        SOSD_feedback_sync_step cx up resolves sd1 (delivery, rmsg) = Inr (sd2, (delivery, answer), Sent_Results (Some (cx_node_id client @ [0])) port) \<and>
        q_list (sd_feedback sd2) = [] \<and> stream_of (in_one_piece answer) answer \<and>
        answers_with answer (grab_names (grab_rows pf vf (sint head) (sint limit) pubs)) (grab_rows pf vf (sint head) (sint limit) pubs)))"
proof -
  let ?rows = "grab_rows pf vf (sint head) (sint limit) pubs" and ?e = "grab_body client port pf vf head limit g"
  obtain msg where m: "SOSA_cache_grab client pool port pf vf head limit exchange = Inr (pool', g, msg)" "is_msg (grab_header (cx_comm_rank client)) ?e msg"
    using SOSA_cache_grab_ok [OF assms(1-3)] by blast
  note wf = wf_grab_rows [OF assms(10)]
  have t: "enum_decode SOS_msg_type_vals (hd_msg_type (grab_header (cx_comm_rank client))) = Some SOS_MSG_TYPE_CACHE_GRAB"
    by (simp add: msg_header_of_def SOS_msg_type_enum.decode_code)
  have room: "length (q_list (sd_feedback sd)) + 2 \<le> cx_mincap cx" using assms(7,8) by simp
  show ?thesis
  proof (rule exI [of _ msg], rule conjI [OF m(1)], rule conjI [OF is_msg_in_one_piece [OF m(2)]], intro allI impI)
    fix rs
    assume rs: "stream_of rs msg"
    let ?other = "analysis_handlers cx dbd duration other"
    obtain b where b: "is_msg (grab_header (cx_comm_rank client)) ?e b" "SOSD_listen_step cx server_uid ?other rs sd buffer =
        bindR (SOSD_listen_dispatch cx server_uid ?other (Some SOS_MSG_TYPE_CACHE_GRAB) sd b) (\<lambda>(sd, b, reply). Inr (sd, b, [], reply))"
      using listen_takes [OF m(2) grab_body_fits [OF assms(1)] rs assms(5,4) t, where cx = cx and u = server_uid and other = ?other] by blast
    let ?task = "\<lambda>table. Feedback_Cache \<lparr>cg_pub_filter_regex = Some (pf @ [0]), cg_val_filter_regex = Some (vf @ [0]),
          cg_frame_head = head, cg_frame_depth_limit = limit, cg_req_guid = g, cg_reply_host = Some (cx_node_id client @ [0]),
          cg_reply_port = port, cg_results = table\<rparr>"
    obtain q b1 reply table where h: "SOSD_handle_cache_grab cx duration sd b = Inr (sd\<lparr>sd_feedback := q\<rparr>, b1, reply)" "q_ok (cx_mincap cx) q"
        "q_list q = q_list (sd_feedback sd) @ [?task table]"
        "holds_rows table ?rows" "\<forall>j < 14. rs_name table j = Some (str (cache_columns ! j) @ [0])"
        "rs_query_sql table = Some (filters_str pf vf @ [0])" "rs_exec_duration table = duration"
      using SOSD_handle_cache_grab_ok [OF assms(1) b(1) assms(9,10,6) room, of duration] by blast
    have l: "SOSD_listen_step cx server_uid ?other rs sd buffer = Inr (sd\<lparr>sd_feedback := q\<rparr>, b1, [], Some reply)"
      using b(2) h(1) by (simp add: SOSD_listen_dispatch_def analysis_handlers_def)
    note t = grabbed_table [OF h(4,5)]
    have fin: "is_finite (rs_exec_duration table)" using h(7) assms(12) by simp
    note s = table_sendable [OF t wf assms(11) grab_names_fit h(6) grab_okD(7,8) [OF assms(1)] fin]
    let ?sd1 = "sd\<lparr>sd_feedback := q\<rparr>"
    have q: "q_ok (cx_mincap cx) (sd_feedback ?sd1)" "q_list (sd_feedback ?sd1) = ?task table # []"
        "task_answer (?task table) = Some (Some (cx_node_id client @ [0]), port, table)"
      using h(2,3) assms(7) by simp_all
    obtain sd2 answer where a: "SOSD_feedback_sync_step cx up resolves ?sd1 (delivery, rmsg) = Inr (sd2, (delivery, answer), Sent_Results (Some (cx_node_id client @ [0])) port)"
        "q_list (sd_feedback sd2) = []" "is_msg (results_header (cx_comm_rank cx)) (results_body table) answer"
      using feedback_answers [where up = up and delivery = delivery and resolves = resolves, OF q assms(13) s assms(14)] by auto
    have "\<forall>c \<in> set (grab_names ?rows). wf_cstring c" using grab_names_fit by (simp add: names_fit_def)
    from answers_withI [OF a(3) t s wf this]
    show "\<exists>sd1 b reply sd2 answer. SOSD_listen_step cx server_uid ?other rs sd buffer = Inr (sd1, b, [], Some reply) \<and>
        SOSD_feedback_sync_step cx up resolves sd1 (delivery, rmsg) = Inr (sd2, (delivery, answer), Sent_Results (Some (cx_node_id client @ [0])) port) \<and>
        q_list (sd_feedback sd2) = [] \<and> stream_of (in_one_piece answer) answer \<and> answers_with answer (grab_names ?rows) ?rows"
      using l a(1,2) is_msg_in_one_piece [OF a(3)] by blast
  qed
qed

theorem cache_grab_answered_witness:
  "\<exists>sd g msg pool sd1 b reply sd2 answer. SOSD_init 5 4 0 = Inr sd \<and>
    SOSA_cache_grab example_ctx (SOSD_guid_range 4 0) 4000 [104] [] (- 1) (- 1) (\<lambda>_ r. Inr r) = Inr (pool, g, msg) \<and>
    SOSD_listen_step example_daemon_ctx 1 (analysis_handlers example_daemon_ctx False (Fin 0) (\<lambda>_ _ _. Inl Undefined)) (in_one_piece msg)
      (sd\<lparr>sd_pubs := [example_cached], sd_pub_list := [0]\<rparr>) SOS_buffer_init = Inr (sd1, b, [], Some reply) \<and>
    SOSD_feedback_sync_step example_daemon_ctx (\<lambda>_. False) (\<lambda>_ _. True) sd1 (SOS_buffer_init, SOS_buffer_init) =
      Inr (sd2, (SOS_buffer_init, answer), Sent_Results (Some (str ''node'' @ [0])) 4000) \<and>
    answers_with answer (map str cache_columns) [snap_row example_cached example_snap] \<and>
    snap_row example_cached example_snap ! 2 = [104, 111, 116]"
proof -
  obtain sd where sd: "SOSD_init 5 4 0 = Inr sd" "\<not> sd_shutdown sd" "q_ok (cx_mincap example_daemon_ctx) (sd_feedback sd)" "q_list (sd_feedback sd) = []"
      "2 \<le> cx_mincap example_daemon_ctx" by (rule example_feedback)
  let ?sd = "sd\<lparr>sd_pubs := [example_cached], sd_pub_list := [0]\<rparr>"
  note e = example_cached_rows
  let ?row = "snap_row example_cached example_snap"
  have node: "cx_node_id example_ctx = str ''node''" by (simp add: example_ctx_def)
  have asks: "grab_ok example_ctx [104] []"
    using example_node by (simp add: grab_ok_def node str_fits_def wf_cstring_def) (simp add: example_ctx_def)
  have link: "\<forall>m r. \<not> buf_lock r \<longrightarrow> (\<exists>r'. (\<lambda>_ r. Inr r) m r = Inr r' \<and> \<not> buf_lock r')" by simp
  obtain pool g where g: "SOS_uid_next (cx_send example_ctx) (cx_role example_ctx) (cx_my_guid example_ctx) (cx_offline_test_mode example_ctx) (SOSD_guid_range 4 0) = Inr (pool, g)"
    by (simp add: SOSD_guid_range_def SOS_uid_init_def SOS_uid_next_def SOS_DEFAULT_UID_MAX_def Let_def)
  have pubs: "pubs_listed ?sd = Inr [example_cached]" by (simp add: pubs_listed_def pub_ref_def)
  have s1: "sint (- 1 :: i32) = - 1" by simp
  have read: "\<forall>pub \<in> set [example_cached]. 0 < sint (pb_cache_depth pub) \<longrightarrow> pub_readable (sint (- 1 :: i32)) pub" using e(1) by simp
  have rows: "grab_rows [104] [] (sint (- 1 :: i32)) (sint (- 1 :: i32)) [example_cached] = [?row]" unfolding s1 by (rule e(3))
  have names: "grab_names [?row] = map str cache_columns" by (simp add: grab_names_def)
  have "sum_list (map (\<lambda>c. 4 + length c) ?row) \<le> sum_list (map (\<lambda>_. 260) ?row)" using e(6) by (intro sum_list_mono) auto
  then have fit: "rows_fit (grab_rows [104] [] (sint (- 1 :: i32)) (sint (- 1 :: i32)) [example_cached])"
    unfolding rows using e(5,6) by (auto simp: rows_fit_def sum_list_triv MSG_LIMIT_def)
  have q: "\<not> sd_shutdown ?sd" "q_ok (cx_mincap example_daemon_ctx) (sd_feedback ?sd)" "q_list (sd_feedback ?sd) = []" using sd(2-4) by simp_all
  have fin: "is_finite (Fin 0)" by (simp add: is_finite_def)
  have res: "(\<lambda>_ _. True) (Some (cx_node_id example_ctx @ [0])) (4000 :: i32)" by simp
  from cache_grab_answered [where up = "\<lambda>_. False" and server_uid = 1 and dbd = False and other = "\<lambda>_ _ _. Inl Undefined" and delivery = SOS_buffer_init
      and resolves = "\<lambda>_ _. True" and port = 4000, OF asks link g q(1) fresh_msg_init q(2,3) sd(5) pubs read fit fin res fresh_msg_init]
  obtain msg where m: "SOSA_cache_grab example_ctx (SOSD_guid_range 4 0) 4000 [104] [] (- 1) (- 1) (\<lambda>_ r. Inr r) = Inr (pool, g, msg)"
      "stream_of (in_one_piece msg) msg" and
    d: "\<forall>rs. stream_of rs msg \<longrightarrow> (\<exists>sd1 b reply sd2 answer.
        SOSD_listen_step example_daemon_ctx 1 (analysis_handlers example_daemon_ctx False (Fin 0) (\<lambda>_ _ _. Inl Undefined)) rs ?sd SOS_buffer_init = Inr (sd1, b, [], Some reply) \<and>
        SOSD_feedback_sync_step example_daemon_ctx (\<lambda>_. False) (\<lambda>_ _. True) sd1 (SOS_buffer_init, SOS_buffer_init) =
          Inr (sd2, (SOS_buffer_init, answer), Sent_Results (Some (str ''node'' @ [0])) 4000) \<and>
        q_list (sd_feedback sd2) = [] \<and> stream_of (in_one_piece answer) answer \<and> answers_with answer (map str cache_columns) [?row])"
    unfolding rows node names by (elim exE conjE) (rule that)
  from d [THEN spec, THEN mp, OF m(2)] show ?thesis using sd(1) m(1) e(4) by (elim exE conjE) (intro exI conjI)
qed

text \<open>The handlers leave the table of publications alone.\<close>

lemma cache_grab_changes: "SOSD_handle_cache_grab cx duration sd b = Inr (sd', b', r) \<Longrightarrow> \<exists>q. sd' = sd\<lparr>sd_feedback := q\<rparr>"
  by (auto simp: SOSD_handle_cache_grab_def bindR_Inr_iff)

lemma query_changes:
  "SOSD_handle_query cx dbd sd b = Inr (sd', b', r) \<Longrightarrow> (\<exists>q. sd' = sd\<lparr>sd_feedback := q\<rparr>) \<or> (\<exists>d qs. sd' = sd\<lparr>sd_db := d, sd_queries := qs\<rparr>)"
  by (auto simp: SOSD_handle_query_def Let_def bindR_Inr_iff split: if_split_asm)

lemma analysis_handlers_keep:
  assumes "others_keep other"
  shows "others_keep (analysis_handlers cx dbd duration other)"
  unfolding others_keep_def
proof (intro allI impI, elim conjE)
  fix t sd b sd' b' r
  assume h: "analysis_handlers cx dbd duration other t sd b = Inr (sd', b', r)" and ok: "pubs_ok sd"
  have same: "pubs_ok (sd\<lparr>sd_feedback := q\<rparr>) \<and> keeps_pubs sd (sd\<lparr>sd_feedback := q\<rparr>)" "pubs_ok sd \<and> keeps_pubs sd sd"
      "pubs_ok (sd\<lparr>sd_db := d, sd_queries := qs\<rparr>) \<and> keeps_pubs sd (sd\<lparr>sd_db := d, sd_queries := qs\<rparr>)" for q d qs
    using ok by (auto simp: keeps_pubs_def pub_find_def)
  consider r1 where "SOSD_handle_cache_grab cx duration sd b = Inr (sd', b', r1)" | r1 where "SOSD_handle_query cx dbd sd b = Inr (sd', b', r1)"
    | "sd' = sd" | "other t sd b = Inr (sd', b', r)"
    using h unfolding analysis_handlers_def by (auto simp: bindR_Inr_iff split: if_split_asm)
  then show "pubs_ok sd' \<and> keeps_pubs sd sd'"
  proof cases
    case 1
    then show ?thesis using cache_grab_changes same(1) by blast
  next
    case 2
    then show ?thesis using query_changes same(1,3) by blast
  next
    case 3
    then show ?thesis using same(2) by blast
  next
    case 4
    then show ?thesis using assms ok unfolding others_keep_def by blast
  qed
qed

end
