(* ===== verification/SOS_Manifest.thy ===== *)
theory SOS_Manifest
  imports SOS_Analysis
begin

text \<open>
  The manifest: what a program learns of the publications a daemon knows. \<open>manifest_answered\<close> joins the request of
  the program (\<open>SOSA_refresh_pub_manifest\<close>), the handler of the daemon (\<open>SOSA_pub_manifest_to_buffer\<close>), which
  writes the numbers in front of the list after the list, and the reading of the reply.
\<close>

section \<open>What the manifest is\<close>

definition manifest_matches :: "cstring \<Rightarrow> SOS_pub list \<Rightarrow> SOS_pub list" where
  "manifest_matches f pubs = filter (\<lambda>p. strstr (cstr (pb_title p)) f) pubs"

definition manifest_row :: "SOS_pub \<Rightarrow> cstring list" where
  "manifest_row pub =
     [in_128 (guid_str (pb_guid pub)), cstr (pb_title pub), in_128 (int_str (sint (pb_comm_rank pub))), cstr (pb_node_id pub),
      in_128 (int_str (sint (pb_process_id pub))), in_128 (int_str (pb_elem_count pub)), in_128 (int_str (sint (pb_frame pub)))]"

definition manifest_max :: "SOS_pub list \<Rightarrow> int" where
  "manifest_max pubs = fold (\<lambda>p m. max m (sint (pb_frame p))) pubs (- 1)"

definition listable :: "SOS_pub \<Rightarrow> bool" where
  "listable pub \<longleftrightarrow>
     0 \<in> set (pb_title pub) \<and> 0 \<in> set (pb_node_id pub) \<and> length (pb_title pub) \<le> SOS_DEFAULT_STRING_LEN \<and>
     length (pb_node_id pub) \<le> SOS_DEFAULT_STRING_LEN \<and> - (2 ^ 31) \<le> pb_elem_count pub \<and> pb_elem_count pub < 2 ^ 31 \<and>
     - (2 ^ 31) \<le> sint (pb_frame pub) \<and> sint (pb_frame pub) < 2 ^ 31"

abbreviation manifest_nums :: "i32 \<Rightarrow> c_double \<Rightarrow> i32 \<Rightarrow> byte list" where
  "manifest_nums n d m \<equiv> encode [ArgI n] @ encode [ArgD d] @ encode [ArgI m]"

definition pub_enc :: "SOS_pub \<Rightarrow> byte list" where
  "pub_enc pub = encode (manifest_args pub)"

definition manifest_body :: "c_double \<Rightarrow> SOS_pub list \<Rightarrow> byte list" where
  "manifest_body elapsed pubs =
     manifest_nums (word_of_nat (length pubs)) elapsed (word_of_int (manifest_max pubs)) @ concat (map pub_enc pubs)"

section \<open>Writing\<close>

text \<open>Fields that are written over fields of the same length.\<close>

lemma pack_over_same:
  assumes "building b n (xs @ ys @ zs)" and "length ys = length (encode args)" and "\<forall>a \<in> set args. arg_ok a" and "length xs \<le> SOS_DEFAULT_BUFFER_MAX div 2"
  shows "\<exists>b'. pack_fields (map fmt_of args) args (b, length xs) = Inr (b', length (xs @ encode args)) \<and> building b' n (xs @ encode args @ zs) \<and>
    buf_is_locking b' = buf_is_locking b \<and> buf_lock b' = buf_lock b"
proof -
  let ?m = "length (encode args)"
  have b: "length (buf_data b) = buf_max b" "buf_len b \<le> buf_max b" "buf_max b \<le> INT_MAX" "n = length xs + ?m + length zs"
      "take n (buf_data b) = xs @ ys @ zs" "buf_len b = n" "SOS_DEFAULT_BUFFER_MAX \<le> buf_max b" "buf_max b \<le> 3 * MSG_LIMIT + 3"
    using assms(1,2) by (auto simp: building_def buffer_wf_def packed_prefix_def)
  have half: "length xs \<le> buf_max b div 2" using assms(4) b(7) by linarith
  have room: "length xs + ?m \<le> buf_max b" using b(2,4,6) by linarith
  let ?d = "take (length xs) (buf_data b) @ encode args @ drop (length xs + ?m) (buf_data b)"
  have d: "buf_data b = xs @ ys @ zs @ drop n (buf_data b)" using b(5) append_take_drop_id [of n "buf_data b"] by simp
  have "take n ?d = xs @ encode args @ zs" using b(4) assms(2) by (subst (1 2) d) simp
  then have "building (b\<lparr>buf_data := ?d, buf_len := max (buf_len b) (length xs + ?m)\<rparr>) n (xs @ encode args @ zs)"
    using b room by (auto simp: building_def buffer_wf_def packed_prefix_def)
  then show ?thesis
    using SOS_buffer_pack_inplace [OF b(1) half assms(3) room] by (simp add: pack_fields_def)
qed

lemma manifest_pub_appends:
  assumes "listable pub"
  shows "appends (pack_fields ''gsisiii'' (manifest_args pub)) (pub_enc pub)" and "length (pub_enc pub) \<le> 600"
proof -
  have l: "length (cstr m) \<le> length m" for m by (simp add: cstr_def length_takeWhile_le)
  have "length (cstr (pb_title pub)) \<le> 256" "length (cstr (pb_node_id pub)) \<le> 256"
    using assms l [of "pb_title pub"] l [of "pb_node_id pub"] by (auto simp: listable_def SOS_DEFAULT_STRING_LEN_def)
  note short = this
  then show "length (pub_enc pub) \<le> 600" by (simp add: pub_enc_def)
  show "appends (pack_fields ''gsisiii'' (manifest_args pub)) (pub_enc pub)"
    unfolding pub_enc_def by (intro appends_fields) (use short in \<open>auto simp: INT_MAX_def SOS_DEFAULT_BUFFER_MAX_def\<close>)
qed

lemma manifest_max_step: "manifest_max (pubs @ [p]) = max (manifest_max pubs) (sint (pb_frame p))"
  by (simp add: manifest_max_def)

lemma manifest_max_range:
  assumes "\<forall>p \<in> set pubs. listable p"
  shows "- 1 \<le> manifest_max pubs \<and> manifest_max pubs < 2 ^ 31"
  using assms
proof (induction pubs rule: rev_induct)
  case (snoc p pubs)
  have "sint (pb_frame p) < 2 ^ 31" using snoc.prems by (simp add: listable_def)
  then show ?case using snoc unfolding manifest_max_step by auto
qed (simp add: manifest_max_def)

lemma sint_word_of_int_32: "- (2 ^ 31) \<le> i \<Longrightarrow> i < 2 ^ 31 \<Longrightarrow> sint (word_of_int i :: i32) = i"
  by (simp add: sint_sbintrunc' signed_take_bit_int_eq_self)

lemma scast_frame: "listable p \<Longrightarrow> (scast (pb_frame p) :: i32) = word_of_int (sint (pb_frame p))"
  by (rule scast_eq)

lemma manifest_pubs_append:
  assumes "\<forall>p \<in> set pubs. listable p" and "building b n bs" and "n + length (concat (map pub_enc (manifest_matches f pubs))) \<le> MSG_LIMIT"
    and "cstr fp = f"
  shows "\<exists>b'. foldR (manifest_pub (Some fp)) pubs ((b, n), 0, - 1) =
      Inr ((b', n + length (concat (map pub_enc (manifest_matches f pubs)))), word_of_nat (length (manifest_matches f pubs)),
        word_of_int (manifest_max (manifest_matches f pubs))) \<and>
    building b' (n + length (concat (map pub_enc (manifest_matches f pubs)))) (bs @ concat (map pub_enc (manifest_matches f pubs))) \<and>
    buf_is_locking b' = buf_is_locking b \<and> buf_lock b' = buf_lock b"
  using assms(1,3)
proof (induction pubs rule: rev_induct)
  case Nil
  show ?case using assms(2) by (simp add: manifest_matches_def manifest_max_def)
next
  case (snoc p pubs)
  let ?ms = "manifest_matches f pubs"
  let ?e = "concat (map pub_enc ?ms)"
  have l: "listable p" "\<forall>p \<in> set pubs. listable p" using snoc.prems(1) by auto
  have fits: "n + length ?e \<le> MSG_LIMIT" using snoc.prems(2) by (simp add: manifest_matches_def del: encode_simps split: if_splits)
  obtain b1 where b1: "foldR (manifest_pub (Some fp)) pubs ((b, n), 0, - 1) = Inr ((b1, n + length ?e), word_of_nat (length ?ms), word_of_int (manifest_max ?ms))"
      "building b1 (n + length ?e) (bs @ ?e)" "buf_is_locking b1 = buf_is_locking b" "buf_lock b1 = buf_lock b"
    using snoc.IH [OF l(2) fits] by blast
  have a: "array_str (pb_title p) = Inr (cstr (pb_title p))" "array_str (pb_node_id p) = Inr (cstr (pb_node_id p))"
    using l(1) by (auto simp: array_str_def listable_def)
  show ?case
  proof (cases "strstr (cstr (pb_title p)) f")
    case False
    then have "manifest_matches f (pubs @ [p]) = ?ms" by (simp add: manifest_matches_def)
    moreover have "manifest_pub (Some fp) p st = Inr st" for st using False a assms(4) by (simp add: manifest_pub_def split: prod.split)
    ultimately show ?thesis using b1 by (intro exI [of _ b1]) (simp add: foldR_append)
  next
    case True
    then have m: "manifest_matches f (pubs @ [p]) = ?ms @ [p]" by (simp add: manifest_matches_def)
    then have "n + length ?e + length (pub_enc p) \<le> MSG_LIMIT" using snoc.prems(2) by (simp del: encode_simps enc_arg.simps)
    with manifest_pub_appends(1) [OF l(1)] b1(2) obtain b2 where
      b2: "pack_fields ''gsisiii'' (manifest_args p) (b1, n + length ?e) = Inr (b2, n + length ?e + length (pub_enc p))"
        "building b2 (n + length ?e + length (pub_enc p)) ((bs @ ?e) @ pub_enc p)" "buf_is_locking b2 = buf_is_locking b1" "buf_lock b2 = buf_lock b1"
      unfolding appends_def by blast
    have "\<forall>q \<in> set ?ms. listable q" using l(2) by (simp add: manifest_matches_def)
    note r = manifest_max_range [OF this]
    have s: "sint (word_of_int (manifest_max ?ms) :: i32) = manifest_max ?ms" by (rule sint_word_of_int_32) (use r in auto)
    have "(if sint (word_of_int (manifest_max ?ms) :: i32) < sint (pb_frame p) then scast (pb_frame p) else word_of_int (manifest_max ?ms)) =
        (word_of_int (max (manifest_max ?ms) (sint (pb_frame p))) :: i32)"
      unfolding s scast_frame [OF l(1)] by (simp add: max_def)
    moreover have "(word_of_nat (length ?ms) :: i32) + 1 = word_of_nat (Suc (length ?ms))" by simp
    ultimately have "manifest_pub (Some fp) p ((b1, n + length ?e), word_of_nat (length ?ms), word_of_int (manifest_max ?ms)) =
        Inr ((b2, n + length ?e + length (pub_enc p)), word_of_nat (Suc (length ?ms)), word_of_int (max (manifest_max ?ms) (sint (pb_frame p))))"
      using True a b2(1) assms(4) by (simp only: manifest_pub_def prod.case bindR.simps deref_simps if_True)
    then have "foldR (manifest_pub (Some fp)) (pubs @ [p]) ((b, n), 0, - 1) =
        Inr ((b2, n + length ?e + length (pub_enc p)), word_of_nat (Suc (length ?ms)), word_of_int (max (manifest_max ?ms) (sint (pb_frame p))))"
      using b1(1) by (simp add: foldR_append del: of_nat_Suc)
    then show ?thesis
      using b1(3,4) b2(2-4) unfolding m manifest_max_step
      by (intro exI [of _ b2]) (simp add: add.assoc del: encode_simps enc_arg.simps of_nat_Suc)
  qed
qed

lemma manifest_args_ok:
  assumes "is_finite d"
  shows "\<forall>a \<in> set [ArgI i]. arg_ok a" and "\<forall>a \<in> set [ArgD d]. arg_ok a" and "length (encode [ArgI i]) = 4" and "length (encode [ArgD d]) = 8"
proof -
  obtain x where x: "d = Fin x" using assms by (cases d) (auto simp: is_finite_def)
  obtain w where "SOS_buffer_pack754_64 (Fin x) = Inr w" using pack754_Fin by blast
  then show "\<forall>a \<in> set [ArgI i]. arg_ok a" "\<forall>a \<in> set [ArgD d]. arg_ok a" "length (encode [ArgI i]) = 4" "length (encode [ArgD d]) = 8"
    using x by auto
qed

abbreviation manifest_request :: "SOS_ctx \<Rightarrow> i32 \<Rightarrow> cstring \<Rightarrow> u64 \<Rightarrow> byte list" where
  "manifest_request cx port f g \<equiv> str_enc (cx_node_id cx) @ encode [ArgI port] @ str_enc f @ encode [ArgG g]"

abbreviation manifest_header :: "i32 \<Rightarrow> u64 \<Rightarrow> SOS_msg_header" where
  "manifest_header rank g \<equiv> msg_header_of SOS_MSG_TYPE_MANIFEST (scast rank) g"

lemma fields_append:
  assumes "appends (pack_fields fmt args) e" and "building b n bs" and "n + length e \<le> MSG_LIMIT"
  obtains b' where "pack_fields fmt args (b, n) = Inr (b', n + length e)" and "building b' (n + length e) (bs @ e)"
    and "buf_is_locking b' = buf_is_locking b" and "buf_lock b' = buf_lock b"
  using assms unfolding appends_def by blast

lemma SOSA_pub_manifest_to_buffer_ok:
  assumes "is_msg (manifest_header rank' 0) (manifest_request client port f g) b" and "str_fits (cx_node_id client)" and "str_fits f"
    and "\<forall>p \<in> set pubs. listable p" and "is_finite elapsed"
    and "24 + length (manifest_body elapsed (manifest_matches f pubs)) \<le> MSG_LIMIT"
  shows "\<exists>b' reply. SOSA_pub_manifest_to_buffer rank elapsed b pubs = Inr (b', reply) \<and>
    is_msg (manifest_header rank g) (manifest_body elapsed (manifest_matches f pubs)) reply"
proof -
  let ?n = "str_enc (cx_node_id client)" and ?p = "encode [ArgI port]" and ?f = "str_enc f" and ?g = "encode [ArgG g]"
  let ?ms = "manifest_matches f pubs" and ?h = "manifest_header rank g"
  let ?e = "concat (map pub_enc ?ms)"
  obtain b1 h where u: "SOS_msg_unzip b 0 = Inr (b1, h, 24)" "is_msg (manifest_header rank' 0) (manifest_request client port f g) b1"
    using unzip_is_msg [OF assms(1)] by blast
  have at: "r (b1, 24 + length xs) = Inr (b1, 24 + length xs + length e, x)"
    if "manifest_request client port f g = xs @ e @ zs" "reads r e x" for r :: "SOS_buffer \<times> nat \<Rightarrow> (SOS_buffer \<times> nat \<times> 'x) res" and xs e zs x
    using read_body [OF _ that(2)] u(2) unfolding that(1) by blast
  let ?o1 = "24 + length ?n" let ?o2 = "?o1 + length ?p" let ?o3 = "?o2 + length ?f"
  have 1: "SOS_buffer_unpack_safestr b1 24 = Inr (b1, ?o1, Some (cx_node_id client @ [0]))"
    using at [OF _ safestr_reads [OF assms(2)], of "[]" "?p @ ?f @ ?g"] by simp
  have 2: "unpack_fields ''i'' [DestI] (b1, ?o1) = Inr (b1, ?o2, [OutI port])"
    by (rule at [of ?n ?p "?f @ ?g"]) (simp, rule reads_fields, simp_all)
  have 3: "SOS_buffer_unpack_safestr b1 ?o2 = Inr (b1, ?o3, Some (f @ [0]))"
    using at [OF _ safestr_reads [OF assms(3)], of "?n @ ?p" ?g] by (simp add: add.assoc del: encode_simps enc_arg.simps)
  have 4: "unpack_fields ''g'' [DestG] (b1, ?o3) = Inr (b1, ?o3 + length ?g, [OutG g])"
    using at [of "?n @ ?p @ ?f" ?g "[]" "unpack_fields ''g'' [DestG]" "[OutG g]"] reads_fields [of "''g''" "[ArgG g]" "[DestG]"]
    by (simp add: add.assoc)
  note ok = manifest_args_ok [OF assms(5)] and zero = manifest_args_ok [of "Fin 0"]
  have fin0: "is_finite (Fin 0)" by (simp add: is_finite_def)
  note z = zero [OF fin0]
  have I: "appends (pack_fields ''i'' [ArgI i]) (encode [ArgI i])" for i by (intro appends_fields) (auto simp: SOS_DEFAULT_BUFFER_MAX_def)
  have D: "appends (pack_fields ''d'' [ArgD (Fin 0)]) (encode [ArgD (Fin 0)])"
    using z(2,4) by (intro appends_fields) (auto simp: SOS_DEFAULT_BUFFER_MAX_def)
  have limit: "40 + length ?e \<le> MSG_LIMIT"
    using assms(6) ok(3,4) by (simp only: manifest_body_def length_append)
  let ?b0 = "SOS_buffer_init_sized_locking 4096 False"
  have "fresh_msg ?b0" by (rule fresh_msg_sized) (simp_all add: SOS_DEFAULT_BUFFER_MAX_def MSG_LIMIT_def)
  then obtain m1 where m1: "SOS_msg_zip ?b0 ?h 0 = Inr (m1, 24, 24)" "building m1 24 (encode (header_args ?h))" "\<not> buf_lock m1"
    using SOS_msg_zip_start [of ?b0 ?h] by (auto simp: fresh_msg_def)
  obtain m2 where m2: "pack_fields ''i'' [ArgI (- 1)] (m1, 24) = Inr (m2, 28)" "building m2 28 (encode (header_args ?h) @ encode [ArgI (- 1)])" "buf_lock m2 = buf_lock m1"
    using fields_append [OF I [of "- 1"] m1(2)] by (auto simp: MSG_LIMIT_def z(3))
  obtain m3 where m3: "pack_fields ''d'' [ArgD (Fin 0)] (m2, 28) = Inr (m3, 36)"
      "building m3 36 ((encode (header_args ?h) @ encode [ArgI (- 1)]) @ encode [ArgD (Fin 0)])" "buf_lock m3 = buf_lock m2"
    using fields_append [OF D m2(2)] unfolding z(4) by (auto simp: MSG_LIMIT_def)
  obtain m4 where m4: "pack_fields ''i'' [ArgI (- 1)] (m3, 36) = Inr (m4, 40)"
      "building m4 40 (((encode (header_args ?h) @ encode [ArgI (- 1)]) @ encode [ArgD (Fin 0)]) @ encode [ArgI (- 1)])" "buf_lock m4 = buf_lock m3"
    using fields_append [OF I [of "- 1"] m3(2)] by (auto simp: MSG_LIMIT_def z(3))
  have fp: "cstr (f @ [0]) = f" using assms(3) cstr_append_NUL [of f "[]"] by (simp add: str_fits_def)
  obtain m5 where m5: "foldR (manifest_pub (Some (f @ [0]))) pubs ((m4, 40), 0, - 1) =
      Inr ((m5, 40 + length ?e), word_of_nat (length ?ms), word_of_int (manifest_max ?ms))"
      "building m5 (40 + length ?e) (((encode (header_args ?h) @ encode [ArgI (- 1)]) @ encode [ArgD (Fin 0)]) @ encode [ArgI (- 1)] @ ?e)"
      "buf_lock m5 = buf_lock m4"
    using manifest_pubs_append [OF assms(4) m4(2) limit fp] by auto
  let ?H = "\<lambda>s. encode (header_args (?h\<lparr>hd_msg_size := s\<rparr>))" and ?k = "40 + length ?e"
  have H: "length (?H s) = 24" for s by simp
  obtain m6 where m6: "SOS_msg_zip m5 (?h\<lparr>hd_msg_size := word_of_nat ?k\<rparr>) 0 = Inr (m6, 24, 24)"
      "building m6 ?k (?H (word_of_nat ?k) @ (encode [ArgI (- 1)] @ encode [ArgD (Fin 0)] @ encode [ArgI (- 1)] @ ?e))" "\<not> buf_lock m6"
    using SOS_msg_zip_again [of m5 ?k ?h "encode [ArgI (- 1)] @ encode [ArgD (Fin 0)] @ encode [ArgI (- 1)] @ ?e"] m5(2,3) m1(3) m2(3) m3(3) m4(3)
    by (metis append.assoc)
  let ?H6 = "?H (word_of_nat ?k)" and ?N = "encode [ArgI (word_of_nat (length ?ms))]" and ?D = "encode [ArgD elapsed]"
  let ?M = "encode [ArgI (word_of_int (manifest_max ?ms))]"
  have half: "24 \<le> SOS_DEFAULT_BUFFER_MAX div 2" "28 \<le> SOS_DEFAULT_BUFFER_MAX div 2" "36 \<le> SOS_DEFAULT_BUFFER_MAX div 2"
    by (simp_all add: SOS_DEFAULT_BUFFER_MAX_def)
  have l: "length ?H6 = 24" "length (?H6 @ ?N) = 28" "length (?H6 @ ?N @ ?D) = 36" "length ((?H6 @ ?N) @ ?D) = 36" "length ((?H6 @ ?N @ ?D) @ ?M) = 40"
    using H ok(3,4) by (simp_all only: length_append)
  obtain m7 where m7: "pack_fields ''i'' [ArgI (word_of_nat (length ?ms))] (m6, 24) = Inr (m7, 28)"
      "building m7 ?k (?H6 @ ?N @ (encode [ArgD (Fin 0)] @ encode [ArgI (- 1)] @ ?e))" "buf_lock m7 = buf_lock m6"
    using pack_over_same [of m6 ?k ?H6 "encode [ArgI (- 1)]" _ "[ArgI (word_of_nat (length ?ms))]", OF m6(2)] half(1) ok(1,3) unfolding l by auto
  have b7: "building m7 ?k ((?H6 @ ?N) @ encode [ArgD (Fin 0)] @ (encode [ArgI (- 1)] @ ?e))" using m7(2) by (simp only: append_assoc)
  have l8: "length (encode [ArgD (Fin 0)]) = length (encode [ArgD elapsed])" using z(4) ok(4) by (simp only:)
  obtain m8 where m8: "pack_fields ''d'' [ArgD elapsed] (m7, 28) = Inr (m8, 36)"
      "building m8 ?k ((?H6 @ ?N) @ ?D @ (encode [ArgI (- 1)] @ ?e))" "buf_lock m8 = buf_lock m7"
    using pack_over_same [OF b7 l8 ok(2)] half(2) unfolding l by auto
  have b8: "building m8 ?k ((?H6 @ ?N @ ?D) @ encode [ArgI (- 1)] @ ?e)" using m8(2) by (simp only: append_assoc)
  have l9: "length (encode [ArgI (- 1)]) = length ?M" by (simp only: ok(3))
  obtain m9 where m9: "pack_fields ''i'' [ArgI (word_of_int (manifest_max ?ms))] (m8, 36) = Inr (m9, 40)"
      "building m9 ?k ((?H6 @ ?N @ ?D) @ ?M @ ?e)" "buf_lock m9 = buf_lock m8"
    using pack_over_same [OF b8 l9 ok(1)] half(3) unfolding l by auto
  have size: "24 + length (manifest_body elapsed ?ms) = ?k" using ok(3,4) by (simp only: manifest_body_def length_append)
  have "is_msg ?h (manifest_body elapsed ?ms) m9"
  proof (rule building_is_msg(1), unfold size)
    show "building m9 ?k (encode (header_args (?h\<lparr>hd_msg_size := word_of_nat ?k\<rparr>)) @ manifest_body elapsed ?ms)"
      using m9(2) by (simp only: manifest_body_def append.assoc)
    show "\<not> buf_lock m9" using m9(3) m8(3) m7(3) m6(3) by simp
  qed
  moreover have "SOSA_pub_manifest_to_buffer rank elapsed b pubs = Inr (b1, m9)"
    unfolding SOSA_pub_manifest_to_buffer_def Let_def u(1) bindR.simps prod.case 1 2 3 4 out_g.simps m1(1) m2(1) m3(1) m4(1) m5(1) m6(1) m7(1) m8(1) m9(1)
    by (rule refl)
  ultimately show ?thesis by blast
qed

section \<open>Reading\<close>

lemma pub_enc_split:
  "pub_enc pub = encode [ArgG (pb_guid pub)] @ str_enc (cstr (pb_title pub)) @ encode [ArgI (pb_comm_rank pub)] @ str_enc (cstr (pb_node_id pub)) @
     encode [ArgI (pb_process_id pub), ArgI (word_of_int (pb_elem_count pub)), ArgI (scast (pb_frame pub))]"
  by (simp add: pub_enc_def)

lemma manifest_row_read:
  assumes "listable pub" and "filled 7 r rows"
  shows "\<exists>r'. reads (\<lambda>bo. manifest_row_from (length rows) (fst bo, snd bo, r)) (pub_enc pub) r' \<and> filled 7 r' (rows @ [manifest_row pub]) \<and>
    rs_col_count r' = max (rs_col_count r) 7 \<and> rs_name r' = rs_name r \<and> rs_query_sql r' = rs_query_sql r \<and>
    rs_query_guid r' = rs_query_guid r \<and> rs_exec_duration r' = rs_exec_duration r"
proof -
  have l: "length (cstr m) \<le> length m" for m by (simp add: cstr_def length_takeWhile_le)
  have s: "str_fits (cstr (pb_title pub))" "str_fits (cstr (pb_node_id pub))"
    using assms(1) l [of "pb_title pub"] l [of "pb_node_id pub"] by (auto simp: listable_def str_fits_def SOS_DEFAULT_STRING_LEN_def)
  let ?t = "Some (cstr (pb_title pub) @ [0])" and ?n = "Some (cstr (pb_node_id pub) @ [0])"
  have c: "cstr (cstr m @ [0]) = cstr m" for m using cstr_append_NUL [of "cstr m" "[]"] by simp
  have i: "sint (word_of_int (pb_elem_count pub) :: i32) = pb_elem_count pub" "sint (scast (pb_frame pub) :: i32) = sint (pb_frame pub)"
    unfolding scast_frame [OF assms(1)] by (rule sint_word_of_int_32; use assms(1) in \<open>simp add: listable_def\<close>)+
  let ?vals = "[Some (in_128 (guid_str (pb_guid pub))), map_option cstr ?t, Some (in_128 (int_str (sint (pb_comm_rank pub)))), map_option cstr ?n,
      Some (in_128 (int_str (sint (pb_process_id pub)))), Some (in_128 (int_str (pb_elem_count pub))), Some (in_128 (int_str (sint (pb_frame pub))))]"
  have "map cell_str ?vals = manifest_row pub" by (simp add: cell_str_def manifest_row_def c)
  then have v: "put_vals (int (length rows)) ?vals r = put_row (int (length rows)) (manifest_row pub) r" for r by (simp only: put_vals_row)
  have "length (manifest_row pub) = 7" by (simp add: manifest_row_def)
  then obtain r' where r': "put_row (int (length rows)) (manifest_row pub) r = Inr r'" "filled 7 (r'\<lparr>rs_row_count := int (length rows) + 1\<rparr>) (rows @ [manifest_row pub])"
      "rs_col_count r' = max (rs_col_count r) 7" "rs_name r' = rs_name r" "rs_query_sql r' = rs_query_sql r" "rs_query_guid r' = rs_query_guid r"
      "rs_exec_duration r' = rs_exec_duration r"
    using put_row_filled [OF assms(2), of "manifest_row pub"] by auto
  have G: "reads (unpack_fields ''g'' [DestG]) (encode [ArgG (pb_guid pub)]) [OutG (pb_guid pub)]" by (rule reads_fields) simp_all
  have I: "reads (unpack_fields ''i'' [DestI]) (encode [ArgI (pb_comm_rank pub)]) [OutI (pb_comm_rank pub)]" by (rule reads_fields) simp_all
  have III: "reads (unpack_fields ''iii'' [DestI, DestI, DestI]) (encode [ArgI a, ArgI b, ArgI c]) [OutI a, OutI b, OutI c]" for a b c
    by (rule reads_fields) simp_all
  have "reads (\<lambda>bo. manifest_row_from (length rows) (fst bo, snd bo, r)) (pub_enc pub) (r'\<lparr>rs_row_count := int (length rows) + 1\<rparr>)"
    unfolding reads_def
  proof (intro allI impI)
    fix b n xs zs
    assume b: "holding b n (xs @ pub_enc pub @ zs)"
    let ?G = "encode [ArgG (pb_guid pub)]" and ?T = "str_enc (cstr (pb_title pub))" and ?I = "encode [ArgI (pb_comm_rank pub)]" and ?N = "str_enc (cstr (pb_node_id pub))"
    let ?R = "encode [ArgI (pb_process_id pub), ArgI (word_of_int (pb_elem_count pub)), ArgI (scast (pb_frame pub))]"
    have at: "f (b, length ys) = Inr (b, length (ys @ e), x)" if "xs @ pub_enc pub @ zs = ys @ e @ ws" "reads f e x"
      for f :: "SOS_buffer \<times> nat \<Rightarrow> (SOS_buffer \<times> nat \<times> 'x) res" and ys e ws x
      using readsD [OF that(2)] b unfolding that(1) by (simp only: length_append)
    note p = pub_enc_split [of pub] append_assoc
    have 1: "unpack_fields ''g'' [DestG] (b, length xs) = Inr (b, length (xs @ ?G), [OutG (pb_guid pub)])"
      by (rule at [OF _ G]) (simp only: p)
    have 2: "SOS_buffer_unpack_safestr b (length (xs @ ?G)) = Inr (b, length ((xs @ ?G) @ ?T), ?t)"
      using at [OF _ safestr_reads [OF s(1)], of "xs @ ?G"] by (simp only: p fst_conv snd_conv)
    have 3: "unpack_fields ''i'' [DestI] (b, length ((xs @ ?G) @ ?T)) = Inr (b, length (((xs @ ?G) @ ?T) @ ?I), [OutI (pb_comm_rank pub)])"
      by (rule at [OF _ I]) (simp only: p)
    have 4: "SOS_buffer_unpack_safestr b (length (((xs @ ?G) @ ?T) @ ?I)) = Inr (b, length ((((xs @ ?G) @ ?T) @ ?I) @ ?N), ?n)"
      using at [OF _ safestr_reads [OF s(2)], of "((xs @ ?G) @ ?T) @ ?I"] by (simp only: p fst_conv snd_conv)
    have 5: "unpack_fields ''iii'' [DestI, DestI, DestI] (b, length ((((xs @ ?G) @ ?T) @ ?I) @ ?N)) = Inr (b, length (((((xs @ ?G) @ ?T) @ ?I) @ ?N) @ ?R),
        [OutI (pb_process_id pub), OutI (word_of_int (pb_elem_count pub)), OutI (scast (pb_frame pub))])"
      by (rule at [OF _ III]) (simp only: p)
    have 6: "length (((((xs @ ?G) @ ?T) @ ?I) @ ?N) @ ?R) = length xs + length (pub_enc pub)" by (simp only: p length_append add.assoc)
    show "manifest_row_from (length rows) (fst (b, length xs), snd (b, length xs), r) =
        Inr (b, length xs + length (pub_enc pub), r'\<lparr>rs_row_count := int (length rows) + 1\<rparr>)"
      unfolding manifest_row_from_def fst_conv snd_conv prod.case 1 2 3 4 5 6 bindR.simps out_g.simps out_i.simps list.case unpack_val.case i v r'(1)
      by (rule refl)
  qed
  then show ?thesis using r'(2-7) by (intro exI [of _ "r'\<lparr>rs_row_count := int (length rows) + 1\<rparr>"]) simp
qed

lemma manifest_rows_read:
  assumes "\<forall>p \<in> set pubs. listable p" and "filled 7 r []"
  shows "\<exists>r'. reads (\<lambda>bo. foldR manifest_row_from [0..<length pubs] (fst bo, snd bo, r)) (concat (map pub_enc pubs)) r' \<and>
    filled 7 r' (map manifest_row pubs) \<and> rs_col_count r' = (if pubs = [] then rs_col_count r else max (rs_col_count r) 7) \<and> rs_name r' = rs_name r \<and>
    rs_query_sql r' = rs_query_sql r \<and> rs_query_guid r' = rs_query_guid r \<and> rs_exec_duration r' = rs_exec_duration r"
  using assms(1)
proof (induction pubs rule: rev_induct)
  case Nil
  show ?case using assms(2) by (intro exI [of _ r]) (simp add: reads_return)
next
  case (snoc p pubs)
  then obtain r1 where r1: "reads (\<lambda>bo. foldR manifest_row_from [0..<length pubs] (fst bo, snd bo, r)) (concat (map pub_enc pubs)) r1"
      "filled 7 r1 (map manifest_row pubs)" "rs_col_count r1 = (if pubs = [] then rs_col_count r else max (rs_col_count r) 7)" "rs_name r1 = rs_name r"
      "rs_query_sql r1 = rs_query_sql r" "rs_query_guid r1 = rs_query_guid r" "rs_exec_duration r1 = rs_exec_duration r"
    by (auto simp del: split_paired_Ex)
  have p: "listable p" using snoc.prems by simp
  from manifest_row_read [OF p r1(2)] obtain r2 where
    r2: "reads (\<lambda>bo. manifest_row_from (length pubs) (fst bo, snd bo, r1)) (pub_enc p) r2" "filled 7 r2 (map manifest_row pubs @ [manifest_row p])"
      "rs_col_count r2 = max (rs_col_count r1) 7" "rs_name r2 = rs_name r1" "rs_query_sql r2 = rs_query_sql r1"
      "rs_query_guid r2 = rs_query_guid r1" "rs_exec_duration r2 = rs_exec_duration r1"
    by auto
  have "reads (\<lambda>bo. foldR manifest_row_from [0..<length (pubs @ [p])] (fst bo, snd bo, r)) (concat (map pub_enc (pubs @ [p]))) r2"
  proof -
    have "reads (\<lambda>bo. bindR (foldR manifest_row_from [0..<length pubs] (fst bo, snd bo, r)) (\<lambda>(b, offset, r). manifest_row_from (length pubs) (b, offset, r)))
        (concat (map pub_enc pubs) @ pub_enc p) r2"
      by (rule reads_bind [OF r1(1)]) (rule r2(1))
    moreover have "bindR x (\<lambda>(b, offset, r). manifest_row_from (length pubs) (b, offset, r)) = bindR x (manifest_row_from (length pubs))" for x
      by (cases x) auto
    moreover have "foldR manifest_row_from [length pubs] x = manifest_row_from (length pubs) x" for x
      by (cases "manifest_row_from (length pubs) x") simp_all
    ultimately show ?thesis by (simp add: foldR_append fun_eq_iff cong: bindR_cong)
  qed
  then show ?case using r1(3-7) r2(2-7) by (intro exI [of _ r2]) (simp add: max_def)
qed

definition manifest_names :: "SOS_pub list \<Rightarrow> cstring list" where
  "manifest_names pubs = (if pubs = [] then [] else map str manifest_columns)"

lemma manifest_from_reply_ok:
  assumes "is_msg header (manifest_body elapsed ms) reply" and "\<forall>p \<in> set ms. listable p" and "is_finite elapsed" and "length ms < 2 ^ 31"
    and "results_ok r" and "rs_row_count r = 0" and "rs_col_count r = 0"
  shows "\<exists>reply' table. manifest_from_reply reply r = Inr (reply', table, word_of_int (manifest_max ms)) \<and> \<not> buf_lock reply' \<and>
    holds_table table (manifest_names ms) (map manifest_row ms) \<and> rs_exec_duration table = wire_double elapsed"
proof -
  let ?N = "ArgI (word_of_nat (length ms))" and ?D = "ArgD elapsed" and ?M = "ArgI (word_of_int (manifest_max ms))"
  let ?e = "encode [?N, ?D, ?M]" and ?ps = "concat (map pub_enc ms)"
  obtain x where x: "elapsed = Fin x" using assms(3) by (cases elapsed) (auto simp: is_finite_def)
  have body: "manifest_body elapsed ms = ?e @ ?ps" by (simp add: manifest_body_def)
  obtain b h where u: "SOS_msg_unzip reply 0 = Inr (b, h, 24)" "is_msg header (?e @ ?ps) b"
    using unzip_is_msg [OF assms(1)] unfolding body by blast
  have "reads (unpack_fields ''idi'' [DestI, DestD, DestI]) ?e
      [OutI (word_of_nat (length ms)), OutD (wire_double elapsed), OutI (word_of_int (manifest_max ms))]"
    by (rule reads_fields) (simp_all add: x)
  from read_body_start [OF u(2) this]
  have 1: "unpack_fields ''idi'' [DestI, DestD, DestI] (b, 24) = Inr (b, 24 + length ?e,
      [OutI (word_of_nat (length ms)), OutD (wire_double elapsed), OutI (word_of_int (manifest_max ms))])" .
  let ?r = "r\<lparr>rs_exec_duration := wire_double elapsed\<rparr>" and ?cols = "map str manifest_columns"
  have n: "length ?cols = 7" by (simp add: manifest_columns_def)
  have "results_ok ?r" using assms(5) by (simp add: results_ok_def)
  from put_names_ok [OF this, of ?cols] n obtain r1 where
    r1: "put_names ?cols ?r = Inr r1" "results_ok r1" "rs_name r1 = (\<lambda>j. if j < length ?cols then Some (?cols ! j @ [0]) else rs_name ?r j)"
      "rs_row_count r1 = 0" "rs_col_count r1 = 0" "rs_exec_duration r1 = wire_double elapsed"
    using assms(6,7) by auto
  have "filled 7 r1 []" using r1 by (simp add: filled_def)
  from manifest_rows_read [OF assms(2) this] obtain r2 where
    r2: "reads (\<lambda>bo. foldR manifest_row_from [0..<length ms] (fst bo, snd bo, r1)) ?ps r2" "filled 7 r2 (map manifest_row ms)"
      "rs_col_count r2 = (if ms = [] then 0 else 7)" "rs_name r2 = rs_name r1" "rs_exec_duration r2 = rs_exec_duration r1"
    unfolding r1(5) by auto
  have 2: "foldR manifest_row_from [0..<length ms] (b, 24 + length ?e, r1) = Inr (b, 24 + length ?e + length ?ps, r2)"
    using read_body [OF _ r2(1), of header ?e "[]" b] u(2) by (simp only: append_Nil2 fst_conv snd_conv)
  have k: "nat (sint (word_of_nat (length ms) :: i32)) = length ms" using assms(4) by (simp add: sint_word_of_nat_small)
  have "manifest_from_reply reply r = Inr (b, r2, word_of_int (manifest_max ms))"
    unfolding manifest_from_reply_def u(1) bindR.simps prod.case 1 list.case unpack_val.case r1(1) k 2 by (rule refl)
  moreover have "holds_table r2 (manifest_names ms) (map manifest_row ms)"
    using r2(2-4) r1(3) n by (auto simp: holds_table_def filled_def manifest_names_def)
  moreover have "\<not> buf_lock b" using u(2) by (simp add: is_msg_def)
  ultimately show ?thesis using r2(5) r1(6) by (intro exI [of _ b] exI [of _ r2]) simp
qed

section \<open>Asked and answered\<close>

text \<open>What the program receives into the buffer of the reply.\<close>

definition received :: "recv_result list \<Rightarrow> SOS_buffer \<Rightarrow> SOS_buffer res" where
  "received rs reply = bindR (SOS_target_recv_msg False rs (Some reply)) (\<lambda>(reply, _, _). deref reply)"

lemma received_msg:
  assumes "is_msg header e sent" and "24 + length e \<le> MSG_LIMIT" and "stream_of rs sent" and "fresh_msg reply"
  shows "\<exists>r. received rs reply = Inr r \<and> is_msg header e r"
proof -
  obtain bs rs0 where rs: "stream_ok rs" "stream_bytes rs = take (buf_len sent) (buf_data sent)" "24 \<le> length bs" "rs = Recv bs # rs0"
    using assms(3) by (auto simp: stream_of_def)
  from recv_whole_msg [OF assms(1,2) rs assms(4)] show ?thesis by (auto simp: received_def)
qed

lemma manifest_request_ok:
  assumes "str_fits (cx_node_id client)" and "str_fits f"
  shows "\<exists>msg. write_msg (manifest_header (cx_comm_rank client) 0) (\<lambda>bo.
       bindR (pack_fields ''s'' [ArgS (cx_node_id client)] bo) (\<lambda>bo.
       bindR (pack_fields ''i'' [ArgI port] bo) (\<lambda>bo.
       bindR (pack_fields ''s'' [ArgS f] bo)
         (pack_fields ''g'' [ArgG g])))) (SOS_buffer_init_sized_locking 4096 False) = Inr msg \<and>
    is_msg (manifest_header (cx_comm_rank client) 0) (manifest_request client port f g) msg"
proof -
  have I: "appends (pack_fields ''i'' [ArgI i]) (encode [ArgI i])" for i by (intro appends_fields) (auto simp: SOS_DEFAULT_BUFFER_MAX_def)
  have G: "appends (pack_fields ''g'' [ArgG g]) (encode [ArgG g])" by (intro appends_fields) (auto simp: SOS_DEFAULT_BUFFER_MAX_def)
  have a: "appends (\<lambda>bo. bindR (pack_fields ''s'' [ArgS (cx_node_id client)] bo) (\<lambda>bo.
       bindR (pack_fields ''i'' [ArgI port] bo) (\<lambda>bo.
       bindR (pack_fields ''s'' [ArgS f] bo)
         (pack_fields ''g'' [ArgG g])))) (manifest_request client port f g)"
    by (intro appends_seq I G put_str_appends assms)
  have "fresh_msg (SOS_buffer_init_sized_locking 4096 False)" by (rule fresh_msg_sized) (simp_all add: SOS_DEFAULT_BUFFER_MAX_def MSG_LIMIT_def)
  moreover have "24 + length (manifest_request client port f g) \<le> MSG_LIMIT" using assms by (simp add: str_fits_def MSG_LIMIT_def)
  ultimately show ?thesis using write_msg_is_msg [OF _ a] by blast
qed

lemma pub_encs_length: "length pubs \<le> length (concat (map pub_enc pubs))"
proof (induction pubs)
  case (Cons p pubs)
  have "1 \<le> length (pub_enc p)" by (simp add: pub_enc_def)
  then show ?case using Cons by simp
qed simp

text \<open>
  C20: a program that asks for the manifest learns it. The daemon answers with the publications whose title contains
  the filter, in the order of its list, one row for each, and with the latest frame among them, or -1 without any;
  into whatever table the program reads it, whatever the network does to the request and to the reply, the table then
  holds exactly these rows, and the daemon is unchanged.
\<close>

theorem manifest_answered:
  assumes "cx_role client = SOS_ROLE_CLIENT" and "str_fits (cx_node_id client)" and "str_fits f"
    and "SOS_uid_next (cx_send client) (cx_role client) (cx_my_guid client) (cx_offline_test_mode client) pool = Inr (pool', g)"
    and "\<not> sd_shutdown sd" and "fresh_msg buffer" and "pubs_listed sd = Inr pubs" and "\<forall>p \<in> set pubs. listable p" and "is_finite elapsed"
    and "24 + length (manifest_body elapsed (manifest_matches f pubs)) \<le> MSG_LIMIT" and "results_ok manifest"
  shows "\<exists>msg. stream_of (in_one_piece msg) msg \<and>
    (\<forall>rs. stream_of rs msg \<longrightarrow>
      (\<exists>b reply. SOSD_listen_step cx server_uid (analysis_handlers cx dbd elapsed other) rs sd buffer = Inr (sd, b, [], Some reply) \<and>
        stream_of (in_one_piece reply) reply \<and>
        (\<forall>rs' exchange. stream_of rs' reply \<longrightarrow> exchange msg = received rs' \<longrightarrow>
          (\<exists>table. SOSA_refresh_pub_manifest client pool port manifest f exchange =
              Inr (pool', g, table, word_of_int (manifest_max (manifest_matches f pubs))) \<and>
            holds_table table (manifest_names (manifest_matches f pubs)) (map manifest_row (manifest_matches f pubs))))))"
proof -
  let ?ms = "manifest_matches f pubs" and ?h = "manifest_header (cx_comm_rank client) 0" and ?e = "manifest_request client port f g"
  obtain msg where m: "write_msg ?h (\<lambda>bo. bindR (pack_fields ''s'' [ArgS (cx_node_id client)] bo) (\<lambda>bo. bindR (pack_fields ''i'' [ArgI port] bo) (\<lambda>bo.
       bindR (pack_fields ''s'' [ArgS f] bo) (pack_fields ''g'' [ArgG g])))) (SOS_buffer_init_sized_locking 4096 False) = Inr msg" "is_msg ?h ?e msg"
    using manifest_request_ok [OF assms(2,3)] by blast
  have e: "24 + length ?e \<le> MSG_LIMIT" using assms(2,3) by (simp add: str_fits_def MSG_LIMIT_def)
  have t: "enum_decode SOS_msg_type_vals (hd_msg_type ?h) = Some SOS_MSG_TYPE_MANIFEST" by (simp add: msg_header_of_def SOS_msg_type_enum.decode_code)
  have ms: "\<forall>p \<in> set ?ms. listable p" using assms(8) by (simp add: manifest_matches_def)
  have n: "length ?ms < 2 ^ 31" using assms(10) pub_encs_length [of ?ms] by (simp add: manifest_body_def MSG_LIMIT_def)
  obtain m0 where m0: "SOSA_results_wipe manifest = Inr m0" "results_ok m0" "rs_row_count m0 = 0" "rs_col_count m0 = 0"
    using results_wipe_ok [OF assms(11)] by (auto simp: SOSA_results_wipe_def bindR_Inr_iff)
  show ?thesis
  proof (rule exI [of _ msg], rule conjI [OF is_msg_in_one_piece [OF m(2)]], intro allI impI)
    fix rs
    assume rs: "stream_of rs msg"
    let ?other = "analysis_handlers cx dbd elapsed other"
    obtain b where b: "is_msg ?h ?e b" "SOSD_listen_step cx server_uid ?other rs sd buffer =
        bindR (SOSD_listen_dispatch cx server_uid ?other (Some SOS_MSG_TYPE_MANIFEST) sd b) (\<lambda>(sd, b, reply). Inr (sd, b, [], reply))"
      using listen_takes [OF m(2) e rs assms(6,5) t, where cx = cx and u = server_uid and other = ?other] by blast
    obtain b1 reply where r: "SOSA_pub_manifest_to_buffer (cx_comm_rank cx) elapsed b pubs = Inr (b1, reply)"
        "is_msg (manifest_header (cx_comm_rank cx) g) (manifest_body elapsed ?ms) reply"
      using SOSA_pub_manifest_to_buffer_ok [OF b(1) assms(2,3,8-10)] by blast
    have "\<not> buf_lock reply" using r(2) by (simp add: is_msg_def)
    then have "SOSD_handle_manifest cx elapsed sd b = Inr (b1, reply)"
      using assms(7) r(1) SOS_buffer_destroy_free by (simp add: SOSD_handle_manifest_def)
    then have l: "SOSD_listen_step cx server_uid ?other rs sd buffer = Inr (sd, b1, [], Some reply)"
      using b(2) by (simp add: SOSD_listen_dispatch_def analysis_handlers_def)
    have "\<exists>table. SOSA_refresh_pub_manifest client pool port manifest f exchange = Inr (pool', g, table, word_of_int (manifest_max ?ms)) \<and>
        holds_table table (manifest_names ?ms) (map manifest_row ?ms)"
      if x: "stream_of rs' reply" "exchange msg = received rs'" for rs' exchange
    proof -
      have "fresh_msg (SOS_buffer_init_sized_locking 4096 False)" by (rule fresh_msg_sized) (simp_all add: SOS_DEFAULT_BUFFER_MAX_def MSG_LIMIT_def)
      then obtain r' where r': "exchange msg (SOS_buffer_init_sized_locking 4096 False) = Inr r'"
          "is_msg (manifest_header (cx_comm_rank cx) g) (manifest_body elapsed ?ms) r'"
        using received_msg [OF r(2) assms(10) x(1)] unfolding x(2) by blast
      obtain r'' table where f: "manifest_from_reply r' m0 = Inr (r'', table, word_of_int (manifest_max ?ms))" "\<not> buf_lock r''"
          "holds_table table (manifest_names ?ms) (map manifest_row ?ms)"
        using manifest_from_reply_ok [OF r'(2) ms assms(9) n m0(2-4)] by blast
      have "\<not> buf_lock msg" using m(2) by (simp add: is_msg_def)
      note d = SOS_buffer_destroy_free [OF this] SOS_buffer_destroy_free [OF f(2)]
      have "SOSA_refresh_pub_manifest client pool port manifest f exchange = Inr (pool', g, table, word_of_int (manifest_max ?ms))"
        unfolding SOSA_refresh_pub_manifest_def next_request_guid_def if_P [OF assms(1)] m0(1) assms(4) bindR.simps prod.case m(1) r'(1) d f(1) by (rule refl)
      with f(3) show ?thesis by blast
    qed
    then show "\<exists>b reply. SOSD_listen_step cx server_uid ?other rs sd buffer = Inr (sd, b, [], Some reply) \<and> stream_of (in_one_piece reply) reply \<and>
        (\<forall>rs' exchange. stream_of rs' reply \<longrightarrow> exchange msg = received rs' \<longrightarrow>
          (\<exists>table. SOSA_refresh_pub_manifest client pool port manifest f exchange = Inr (pool', g, table, word_of_int (manifest_max ?ms)) \<and>
            holds_table table (manifest_names ?ms) (map manifest_row ?ms)))"
      using l is_msg_in_one_piece [OF r(2)] by blast
  qed
qed

theorem manifest_answered_witness:
  "\<exists>sd msg b reply pool g table. SOSD_init 5 4 0 = Inr sd \<and>
    SOSD_listen_step example_daemon_ctx 1 (analysis_handlers example_daemon_ctx False (Fin 0) (\<lambda>_ _ _. Inl Undefined)) (in_one_piece msg)
      (sd\<lparr>sd_pubs := [example_cached], sd_pub_list := [0]\<rparr>) SOS_buffer_init = Inr (sd\<lparr>sd_pubs := [example_cached], sd_pub_list := [0]\<rparr>, b, [], Some reply) \<and>
    SOSA_refresh_pub_manifest example_ctx (SOSD_guid_range 4 0) 4000 (SOSA_results_init_sized 512 7) [104] (\<lambda>_. received (in_one_piece reply)) =
      Inr (pool, g, table, word_of_int (manifest_max [example_cached])) \<and>
    rs_row_count table = 1 \<and> rs_cell table 0 1 = Some [104, 111, 116, 0]"
proof -
  obtain sd where sd: "SOSD_init 5 4 0 = Inr sd" "\<not> sd_shutdown sd" by (rule example_feedback)
  let ?sd = "sd\<lparr>sd_pubs := [example_cached], sd_pub_list := [0]\<rparr>" and ?p = example_cached
  have role: "cx_role example_ctx = SOS_ROLE_CLIENT" by (simp add: example_ctx_def)
  have node: "str_fits (cx_node_id example_ctx)" using example_node by (simp add: str_fits_def) (simp add: example_ctx_def)
  have f: "str_fits [104]" by (simp add: str_fits_def wf_cstring_def)
  obtain pool g where g: "SOS_uid_next (cx_send example_ctx) (cx_role example_ctx) (cx_my_guid example_ctx) (cx_offline_test_mode example_ctx) (SOSD_guid_range 4 0) = Inr (pool, g)"
    by (simp add: SOSD_guid_range_def SOS_uid_init_def SOS_uid_next_def SOS_DEFAULT_UID_MAX_def Let_def)
  have down: "\<not> sd_shutdown ?sd" using sd(2) by simp
  have pubs: "pubs_listed ?sd = Inr [?p]" by (simp add: pubs_listed_def pub_ref_def)
  have l: "listable ?p" by (simp add: listable_def example_cached_def example_source_def example_pub_def SOS_DEFAULT_STRING_LEN_def)
  then have ls: "\<forall>p \<in> set [?p]. listable p" by simp
  have title: "cstr (pb_title ?p) = [104, 111, 116]" by (simp add: example_cached_def cstr_def)
  have ms: "manifest_matches [104] [?p] = [?p]" by (simp add: manifest_matches_def title)
  have fin: "is_finite (Fin 0)" by (simp add: is_finite_def)
  have "length (pub_enc ?p) \<le> 600" by (rule manifest_pub_appends(2) [OF l])
  then have fits: "24 + length (manifest_body (Fin 0) (manifest_matches [104] [?p])) \<le> MSG_LIMIT"
    unfolding ms using manifest_args_ok(3,4) [OF fin] by (simp only: manifest_body_def length_append) (simp add: MSG_LIMIT_def)
  have r: "results_ok (SOSA_results_init_sized 512 7)" by (rule results_init_ok) simp_all
  from manifest_answered [where cx = example_daemon_ctx and server_uid = 1 and dbd = False and other = "\<lambda>_ _ _. Inl Undefined" and port = 4000,
      OF role node f g down fresh_msg_init pubs ls fin fits r]
  obtain msg where m: "stream_of (in_one_piece msg) msg" and
    d: "\<forall>rs. stream_of rs msg \<longrightarrow> (\<exists>b reply.
        SOSD_listen_step example_daemon_ctx 1 (analysis_handlers example_daemon_ctx False (Fin 0) (\<lambda>_ _ _. Inl Undefined)) rs ?sd SOS_buffer_init = Inr (?sd, b, [], Some reply) \<and>
        stream_of (in_one_piece reply) reply \<and>
        (\<forall>rs' exchange. stream_of rs' reply \<longrightarrow> exchange msg = received rs' \<longrightarrow>
          (\<exists>table. SOSA_refresh_pub_manifest example_ctx (SOSD_guid_range 4 0) 4000 (SOSA_results_init_sized 512 7) [104] exchange =
              Inr (pool, g, table, word_of_int (manifest_max [?p])) \<and> holds_table table (manifest_names [?p]) (map manifest_row [?p]))))"
    unfolding ms by (elim exE conjE) (rule that)
  from d [THEN spec, THEN mp, OF m] obtain b reply where
    b: "SOSD_listen_step example_daemon_ctx 1 (analysis_handlers example_daemon_ctx False (Fin 0) (\<lambda>_ _ _. Inl Undefined)) (in_one_piece msg) ?sd SOS_buffer_init = Inr (?sd, b, [], Some reply)"
      "stream_of (in_one_piece reply) reply" and
    x: "\<forall>rs' exchange. stream_of rs' reply \<longrightarrow> exchange msg = received rs' \<longrightarrow>
          (\<exists>table. SOSA_refresh_pub_manifest example_ctx (SOSD_guid_range 4 0) 4000 (SOSA_results_init_sized 512 7) [104] exchange =
              Inr (pool, g, table, word_of_int (manifest_max [?p])) \<and> holds_table table (manifest_names [?p]) (map manifest_row [?p]))"
    by (elim exE conjE) (rule that)
  from x [THEN spec [where x = "in_one_piece reply"], THEN spec [where x = "\<lambda>_. received (in_one_piece reply)"], THEN mp, OF b(2), THEN mp, OF refl] obtain table where
    t: "SOSA_refresh_pub_manifest example_ctx (SOSD_guid_range 4 0) 4000 (SOSA_results_init_sized 512 7) [104] (\<lambda>_. received (in_one_piece reply)) =
        Inr (pool, g, table, word_of_int (manifest_max [?p]))" "holds_table table (manifest_names [?p]) (map manifest_row [?p])"
    by auto
  have "rs_row_count table = 1" "rs_cell table 0 1 = Some [104, 111, 116, 0]"
    using t(2) by (simp_all add: holds_table_def manifest_names_def manifest_columns_def manifest_row_def title)
  with sd(1) b(1) t(1) show ?thesis by blast
qed

end
