(* ===== verification/SOS_Database.thy ===== *)
theory SOS_Database
  imports SOS_Analysis
begin

text \<open>
  The store of the daemon (\<open>sosd_db_sqlite.c\<close>) and its thread (\<open>SOSD_THREAD_db_sync\<close>).

  The three tables are lists of rows, in the order of insertion: a prepared INSERT appends a row of the bound values, a
  prepared UPDATE sets a column of the rows with a GUID. Enumerations are stored as numbers
  (\<open>SOS_CONFIG_DB_ENUM_STRINGS\<close> is not defined). What SQLite makes of the text of a query is the parameter
  \<open>sqlite\<close>: the names of the columns and the rows, or None when the text is not valid. A failing insert ends the
  daemon and is not modelled, nor is when a transaction reaches the disk, nor the table of enumerations.
\<close>

section \<open>State\<close>

record pubs_row =
  pr_guid :: u64
  pr_title :: cstring
  pr_process_id :: i32
  pr_thread_id :: i32
  pr_comm_rank :: i32
  pr_node_id :: cstring
  pr_prog_name :: cstring
  pr_prog_ver :: cstring
  pr_meta :: SOS_pub_meta
  pr_pragma :: "byte list"
  pr_latest_frame :: i32

record data_row =
  dr_pub_guid :: u64
  dr_guid :: u64
  dr_name :: cstring
  dr_val_type :: i32
  dr_freq :: i32
  dr_class :: i32
  dr_pattern :: i32
  dr_compare :: i32
  dr_latest_frame :: i32

record vals_row =
  vr_guid :: u64
  vr_val :: "byte list"
  vr_frame :: i32
  vr_semantic :: i32
  vr_relation_id :: u64
  vr_time_pack :: c_double
  vr_time_send :: c_double
  vr_time_recv :: c_double
  vr_time_pack_int :: u64

record SOS_tables =
  tb_pubs :: "pubs_row list"
  tb_data :: "data_row list"
  tb_vals :: "vals_row list"

text \<open>
  The notes of the latest frames: a table from the decimal GUID to a note and a list of all notes. A note lives at the
  position of its allocation.
\<close>

record SOSD_frame_note =
  nt_guid :: u64
  nt_pub_guid :: u64
  nt_frame :: i32
  nt_dirty :: bool

record frame_notes =
  fn_table :: "nat qhashtbl"
  fn_notes :: "SOSD_frame_note list"
  fn_list :: "nat list"

record SOSD_db =
  db_tables :: SOS_tables
  db_ready :: int
  db_lock :: bool
  db_pub_notes :: frame_notes
  db_val_notes :: frame_notes

definition new_notes :: "int \<Rightarrow> frame_notes res" where
  "new_notes slots =
     (case qhashtbl_new slots of None \<Rightarrow> Inl Null_Deref | Some t \<Rightarrow> Inr \<lparr>fn_table = t, fn_notes = [], fn_list = []\<rparr>)"

text \<open>A new database; the tables may be there already, in the file.\<close>

definition SOSD_db_init_database :: "SOS_role \<Rightarrow> SOS_tables \<Rightarrow> SOSD_db res" where
  "SOSD_db_init_database role tables =
     bindR (new_notes (if role = SOS_ROLE_LISTENER then 128 else 1280)) (\<lambda>pub_notes.
     bindR (new_notes (if role = SOS_ROLE_LISTENER then 4096 else 409600)) (\<lambda>val_notes.
     Inr \<lparr>db_tables = tables, db_ready = 1, db_lock = False, db_pub_notes = pub_notes, db_val_notes = val_notes\<rparr>))"

text \<open>A transaction holds the lock of the database.\<close>

definition SOSD_db_transaction_begin :: "SOSD_db \<Rightarrow> SOSD_db res" where
  "SOSD_db_transaction_begin db =
     (if db_ready db = - 1 then Inr db else checkR (\<not> db_lock db) Deadlock (Inr (db\<lparr>db_lock := True\<rparr>)))"

definition SOSD_db_transaction_commit :: "SOSD_db \<Rightarrow> SOSD_db" where
  "SOSD_db_transaction_commit db = db\<lparr>db_lock := False\<rparr>"

section \<open>Publications and their elements\<close>

definition pubs_row_of :: "SOS_pub \<Rightarrow> pubs_row res" where
  "pubs_row_of pub =
     bindR (array_str (pb_title pub)) (\<lambda>title.
     bindR (array_str (pb_node_id pub)) (\<lambda>node_id.
     bindR (array_str (pb_prog_name pub)) (\<lambda>prog_name.
     bindR (array_str (pb_prog_ver pub)) (\<lambda>prog_ver.
     bindR (if 0 < sint (pb_pragma_len pub) then mem_read 0 (nat (sint (pb_pragma_len pub))) (pb_pragma_msg pub) else Inr []) (\<lambda>pragma.
     Inr \<lparr>pr_guid = pb_guid pub, pr_title = title, pr_process_id = pb_process_id pub, pr_thread_id = pb_thread_id pub,
          pr_comm_rank = pb_comm_rank pub, pr_node_id = node_id, pr_prog_name = prog_name, pr_prog_ver = prog_ver,
          pr_meta = pb_meta pub, pr_pragma = pragma, pr_latest_frame = 0\<rparr>)))))"

definition SOSD_db_insert_pub :: "SOS_pub \<Rightarrow> SOSD_db \<Rightarrow> SOSD_db res" where
  "SOSD_db_insert_pub pub db =
     (if pb_announced pub = 1 then Inr db
      else checkR (\<not> pb_lock pub) Deadlock
        (bindR (pubs_row_of pub) (\<lambda>row. Inr (db\<lparr>db_tables := (db_tables db)\<lparr>tb_pubs := tb_pubs (db_tables db) @ [row]\<rparr>\<rparr>))))"

text \<open>
  Only elements that were announced anew are stored, and only those of four types; the others are passed over and stay
  as they are. The value of an element is put into a string, which nothing uses.
\<close>

definition data_type_stored :: "i32 \<Rightarrow> bool" where
  "data_type_stored type \<longleftrightarrow>
     enum_decode SOS_val_type_vals type \<in> {Some SOS_VAL_TYPE_INT, Some SOS_VAL_TYPE_LONG, Some SOS_VAL_TYPE_DOUBLE, Some SOS_VAL_TYPE_STRING}"

definition insert_elem :: "nat \<Rightarrow> SOS_pub \<times> SOSD_db \<Rightarrow> (SOS_pub \<times> SOSD_db) res" where
  "insert_elem i = (\<lambda>(pub, db).
     checkR (i < length (pb_data pub)) Out_Of_Bounds
       (let data = pb_data pub ! i
        in if dt_sync data \<noteq> enum_code SOS_val_sync_vals SOS_VAL_SYNC_RENEW then Inr (pub, db)
           else if \<not> data_type_stored (dt_type data) then Inr (pub, db)
           else bindR (array_str (dt_name data)) (\<lambda>name.
                let row = \<lparr>dr_pub_guid = pb_guid pub, dr_guid = dt_guid data, dr_name = name, dr_val_type = dt_type data,
                           dr_freq = vm_freq (dt_meta data), dr_class = vm_classifier (dt_meta data), dr_pattern = vm_pattern (dt_meta data),
                           dr_compare = vm_compare (dt_meta data), dr_latest_frame = 0\<rparr>
                in Inr (pub\<lparr>pb_data := (pb_data pub)[i := data\<lparr>dt_sync := enum_code SOS_val_sync_vals SOS_VAL_SYNC_LOCAL\<rparr>]\<rparr>,
                        db\<lparr>db_tables := (db_tables db)\<lparr>tb_data := tb_data (db_tables db) @ [row]\<rparr>\<rparr>))))"

definition SOSD_db_insert_data :: "SOS_pub \<Rightarrow> SOSD_db \<Rightarrow> (SOS_pub \<times> SOSD_db) res" where
  "SOSD_db_insert_data pub db =
     checkR (\<not> pb_lock pub) Deadlock
       (foldR insert_elem [0..<nat (pb_elem_count pub)] (pub\<lparr>pb_sync_pending := 0\<rparr>, db))"

section \<open>Values\<close>

text \<open>
  The text of a value: 17 decimals for a double, nothing for bytes and for unknown types, one zero byte for a string
  that is NULL. \<open>(unsigned long int) time_pack * 1000000\<close> casts before it multiplies.
\<close>

definition in_256 :: "cstring \<Rightarrow> cstring" where
  "in_256 s = take 255 s"

definition stored_val :: "SOS_val_snap \<Rightarrow> byte list res" where
  "stored_val snap =
     (case enum_decode SOS_val_type_vals (sn_type snap) of
        Some SOS_VAL_TYPE_INT \<Rightarrow> bindR (read_i_val (sn_val snap)) (\<lambda>i. Inr (in_256 (int_str (sint i))))
      | Some SOS_VAL_TYPE_LONG \<Rightarrow> bindR (read_l_val (sn_val snap)) (\<lambda>l. Inr (in_256 (int_str (sint l))))
      | Some SOS_VAL_TYPE_DOUBLE \<Rightarrow> bindR (read_d_val (sn_val snap)) (\<lambda>d. Inr (in_256 (lf_str 17 d)))
      | Some SOS_VAL_TYPE_STRING \<Rightarrow> bindR (read_c_val (sn_val snap)) (\<lambda>p. Inr (case p of Some blk \<Rightarrow> cstr blk | None \<Rightarrow> [0]))
      | _ \<Rightarrow> Inr [])"

definition cast_u64 :: "c_double \<Rightarrow> u64 res" where
  "cast_u64 d =
     (case d of
        Fin x \<Rightarrow> if - 1 < x \<and> x < 2 ^ 64 then Inr (if x < 0 then 0 else word_of_int \<lfloor>x\<rfloor>) else Inl Undefined
      | _ \<Rightarrow> Inl Undefined)"

definition vals_row_of :: "c_double \<Rightarrow> SOS_val_snap \<Rightarrow> vals_row res" where
  "vals_row_of now snap =
     bindR (cast_u64 (tm_pack (sn_time snap))) (\<lambda>seconds.
     bindR (stored_val snap) (\<lambda>val.
     Inr \<lparr>vr_guid = sn_guid snap, vr_val = val, vr_frame = scast (sn_frame snap), vr_semantic = sn_semantic snap,
          vr_relation_id = sn_relation_id snap, vr_time_pack = tm_pack (sn_time snap), vr_time_send = tm_send (sn_time snap),
          vr_time_recv = now, vr_time_pack_int = seconds * 1000000\<rparr>))"

text \<open>A note for a GUID is made or brought up to date.\<close>

definition note_at :: "frame_notes \<Rightarrow> u64 \<Rightarrow> nat option" where
  "note_at ns guid = qh_get (fn_table ns) (Some (guid_str guid))"

definition note_frame :: "u64 \<Rightarrow> SOS_val_snap \<Rightarrow> frame_notes \<Rightarrow> frame_notes res" where
  "note_frame guid snap ns =
     (case note_at ns guid of
        None \<Rightarrow>
          let a = length (fn_notes ns)
          in Inr (ns\<lparr>fn_notes := fn_notes ns @ [\<lparr>nt_guid = sn_guid snap, nt_pub_guid = sn_pub_guid snap, nt_frame = scast (sn_frame snap), nt_dirty = True\<rparr>],
                     fn_list := a # fn_list ns, fn_table := fst (qh_put (fn_table ns) (Some (guid_str guid)) (Some a))\<rparr>)
      | Some a \<Rightarrow>
          checkR (a < length (fn_notes ns)) Use_After_Free
            (Inr (ns\<lparr>fn_notes := (fn_notes ns)[a := (fn_notes ns ! a)\<lparr>nt_frame := scast (sn_frame snap), nt_dirty := True\<rparr>]\<rparr>)))"

definition insert_val :: "bool \<Rightarrow> (nat \<Rightarrow> c_double) \<Rightarrow> nat \<times> SOS_val_snap \<Rightarrow> SOSD_db \<Rightarrow> SOSD_db res" where
  "insert_val update_frame clock = (\<lambda>(i, snap) db.
     bindR (vals_row_of (clock i) snap) (\<lambda>row.
     let db = db\<lparr>db_tables := (db_tables db)\<lparr>tb_vals := tb_vals (db_tables db) @ [row]\<rparr>\<rparr>
     in if \<not> update_frame then Inr db
        else bindR (note_frame (sn_pub_guid snap) snap (db_pub_notes db)) (\<lambda>pub_notes.
             bindR (note_frame (sn_guid snap) snap (db_val_notes db)) (\<lambda>val_notes.
             Inr (db\<lparr>db_pub_notes := pub_notes, db_val_notes := val_notes\<rparr>)))))"

text \<open>The notes that changed are written to the tables.\<close>

definition flush_note :: "(SOSD_frame_note \<Rightarrow> 't \<Rightarrow> 't) \<Rightarrow> nat \<Rightarrow> frame_notes \<times> 't \<Rightarrow> (frame_notes \<times> 't) res" where
  "flush_note update a = (\<lambda>(ns, t).
     checkR (a < length (fn_notes ns)) Use_After_Free
       (let note = fn_notes ns ! a
        in Inr (if nt_dirty note then (ns\<lparr>fn_notes := (fn_notes ns)[a := note\<lparr>nt_dirty := False\<rparr>]\<rparr>, update note t) else (ns, t))))"

definition flush_notes :: "(SOSD_frame_note \<Rightarrow> 't \<Rightarrow> 't) \<Rightarrow> frame_notes \<Rightarrow> 't \<Rightarrow> (frame_notes \<times> 't) res" where
  "flush_notes update ns t = foldR (flush_note update) (fn_list ns) (ns, t)"

definition update_pub_frame :: "SOSD_frame_note \<Rightarrow> pubs_row list \<Rightarrow> pubs_row list" where
  "update_pub_frame note = map (\<lambda>row. if pr_guid row = nt_pub_guid note then row\<lparr>pr_latest_frame := nt_frame note\<rparr> else row)"

definition update_data_frame :: "SOSD_frame_note \<Rightarrow> data_row list \<Rightarrow> data_row list" where
  "update_data_frame note = map (\<lambda>row. if dr_guid row = nt_guid note then row\<lparr>dr_latest_frame := nt_frame note\<rparr> else row)"

definition update_frames :: "SOSD_db \<Rightarrow> SOSD_db res" where
  "update_frames db =
     bindR (flush_notes update_pub_frame (db_pub_notes db) (tb_pubs (db_tables db))) (\<lambda>(pub_notes, pubs).
     bindR (flush_notes update_data_frame (db_val_notes db) (tb_data (db_tables db))) (\<lambda>(val_notes, data).
     Inr (db\<lparr>db_pub_notes := pub_notes, db_val_notes := val_notes, db_tables := (db_tables db)\<lparr>tb_pubs := pubs, tb_data := data\<rparr>\<rparr>)))"

text \<open>All snapshots of the queue are stored and freed (no caller has a queue for them to go to). \<open>clock i\<close> is the time
  read for the \<open>i\<close>-th.\<close>

definition SOSD_db_insert_vals :: "nat \<Rightarrow> bool \<Rightarrow> (nat \<Rightarrow> c_double) \<Rightarrow> snap_pipe \<Rightarrow> SOSD_db \<Rightarrow> (snap_pipe \<times> SOSD_db) res" where
  "SOSD_db_insert_vals mincap update_frame clock q db =
     checkR (\<not> sq_sync_lock q) Deadlock
       (if sq_elem_count q < 1 then Inr (q, db)
        else
          bindR (pipe_pop_eager mincap zero_snap (sq_pipe q) (nat (sq_elem_count q))) (\<lambda>(p, snaps).
          let q = q\<lparr>sq_pipe := p, sq_elem_count := sq_elem_count q - int (length snaps)\<rparr>
          in bindR (foldR (insert_val update_frame clock) (zip [0..<length snaps] snaps) db) (\<lambda>db.
             bindR (if update_frame then update_frames db else Inr db) (\<lambda>db. Inr (q, db)))))"

section \<open>Queries\<close>

type_synonym sqlite = "SOS_tables \<Rightarrow> cstring \<Rightarrow> (cstring list \<times> cstring option list list) option"

definition query_row :: "nat \<Rightarrow> nat \<times> cstring option list \<Rightarrow> SOSA_results \<Rightarrow> SOSA_results res" where
  "query_row cols = (\<lambda>(row, vals) r.
     bindR (put_vals (int row) vals (SOSA_results_grow_to r (int cols) (int row))) (\<lambda>r. Inr (r\<lparr>rs_row_count := int row + 1\<rparr>)))"

definition query_results :: "sqlite \<Rightarrow> c_double \<Rightarrow> SOS_tables \<Rightarrow> byte list option \<Rightarrow> SOSA_results res" where
  "query_results sqlite duration tables query_sql =
     (case query_sql of
        None \<Rightarrow> Inr SOSA_results_init
      | Some sql \<Rightarrow>
          (case sqlite tables (cstr sql) of
             None \<Rightarrow> Inr SOSA_results_init
           | Some (names, rows) \<Rightarrow>
               let r = SOSA_results_init\<lparr>rs_col_count := int (length names)\<rparr>
               in bindR (put_names names (SOSA_results_grow_to r (int (length names)) (rs_row_max r))) (\<lambda>r.
                  bindR (foldR (query_row (length names)) (zip [0..<length rows] rows) r) (\<lambda>r.
                  Inr (r\<lparr>rs_exec_duration := duration\<rparr>)))))"

definition SOSD_db_handle_sosa_query ::
    "nat \<Rightarrow> sqlite \<Rightarrow> c_double \<Rightarrow> SOS_tables \<Rightarrow> SOSD_query_handle \<Rightarrow> SOSD_feedback_task SOS_queue \<Rightarrow> (SOSD_query_handle \<times> SOSD_feedback_task SOS_queue) res" where
  "SOSD_db_handle_sosa_query mincap sqlite duration tables query q =
     bindR (query_results sqlite duration tables (qh_query_sql query)) (\<lambda>r.
     let query = query\<lparr>qh_results := Some (SOSA_results_label r (qh_query_guid query) (map_option cstr (qh_query_sql query)))\<rparr>
     in bindR (queue_put mincap (Feedback_Query query) q) (\<lambda>q. Inr (query, q)))"

section \<open>The thread\<close>

definition db_task :: "nat \<Rightarrow> bool \<Rightarrow> (nat \<Rightarrow> nat \<Rightarrow> c_double) \<Rightarrow> sqlite \<Rightarrow> nat \<times> SOSD_db_task \<Rightarrow> SOSD \<times> SOSD_db \<Rightarrow> (SOSD \<times> SOSD_db) res" where
  "db_task mincap update_frame clock sqlite = (\<lambda>(k, task) (sd, db).
     case enum_decode SOS_msg_type_vals (tk_type task) of
       Some SOS_MSG_TYPE_ANNOUNCE \<Rightarrow>
         bindR (pub_ref sd (tk_ref task)) (\<lambda>pub. bindR (SOSD_db_insert_pub pub db) (\<lambda>db. Inr (sd, db)))
     | Some SOS_MSG_TYPE_PUBLISH \<Rightarrow>
         bindR (pub_ref sd (tk_ref task)) (\<lambda>pub. bindR (SOSD_db_insert_data pub db) (\<lambda>(pub, db). Inr (pub_store (tk_ref task) pub sd, db)))
     | Some SOS_MSG_TYPE_VAL_SNAPS \<Rightarrow>
         bindR (SOSD_db_insert_vals mincap update_frame (clock k) (sd_snap_queue sd) db) (\<lambda>(q, db). Inr (sd\<lparr>sd_snap_queue := q\<rparr>, db))
     | Some SOS_MSG_TYPE_QUERY \<Rightarrow>
         checkR (tk_ref task < length (sd_queries sd)) Use_After_Free
           (bindR (SOSD_db_handle_sosa_query mincap sqlite (clock k 0) (db_tables db) (sd_queries sd ! tk_ref task) (sd_feedback sd)) (\<lambda>(query, q).
            Inr (sd\<lparr>sd_feedback := q, sd_queries := (sd_queries sd)[tk_ref task := query]\<rparr>, db)))
     | _ \<Rightarrow> Inr (sd, db))"

text \<open>One round: a batch of tasks in one transaction.\<close>

definition SOSD_db_sync_step :: "nat \<Rightarrow> bool \<Rightarrow> (nat \<Rightarrow> nat \<Rightarrow> c_double) \<Rightarrow> sqlite \<Rightarrow> SOSD \<Rightarrow> SOSD_db \<Rightarrow> (SOSD \<times> SOSD_db) res" where
  "SOSD_db_sync_step mincap update_frame clock sqlite sd db =
     bindR (SOSD_db_sync_take mincap sd) (\<lambda>(sd, tasks).
     if tasks = [] then Inr (sd, db)
     else bindR (SOSD_db_transaction_begin db) (\<lambda>db.
          bindR (foldR (db_task mincap update_frame clock sqlite) (zip [0..<length tasks] tasks) (sd, db)) (\<lambda>(sd, db).
          Inr (sd, SOSD_db_transaction_commit db))))"

section \<open>Notes of the latest frames\<close>

text \<open>
  \<open>notes_ok\<close>: the table leads to the note of a key, every note is in the table, and the list holds every note once.
  \<open>dirty_frames\<close> are the frames that are not in the tables yet.
\<close>

definition notes_ok :: "(SOSD_frame_note \<Rightarrow> u64) \<Rightarrow> frame_notes \<Rightarrow> bool" where
  "notes_ok key ns \<longleftrightarrow>
     table_ok (fn_table ns) \<and> (\<forall>k v. qh_lookup (fn_table ns) k = Some v \<longrightarrow> v \<noteq> None) \<and>
     (\<forall>g a. note_at ns g = Some a \<longrightarrow> a < length (fn_notes ns) \<and> key (fn_notes ns ! a) = g) \<and>
     (\<forall>a < length (fn_notes ns). note_at ns (key (fn_notes ns ! a)) = Some a) \<and>
     distinct (fn_list ns) \<and> set (fn_list ns) = {..<length (fn_notes ns)}"

definition dirty_frames :: "frame_notes \<Rightarrow> u64 \<Rightarrow> i32 option" where
  "dirty_frames ns g =
     (case note_at ns g of
        None \<Rightarrow> None
      | Some a \<Rightarrow> if nt_dirty (fn_notes ns ! a) then Some (nt_frame (fn_notes ns ! a)) else None)"

lemma note_at_lookup: "note_at ns g = (case qh_lookup (fn_table ns) (guid_str g) of None \<Rightarrow> None | Some v \<Rightarrow> v)"
  by (simp add: note_at_def qh_get_def qhget_lookup)

lemma note_at_notes [simp]: "note_at (ns\<lparr>fn_notes := xs\<rparr>) g = note_at ns g"
  by (simp add: note_at_def)

lemma new_notes_ok:
  assumes "0 < slots"
  shows "\<exists>ns. new_notes slots = Inr ns \<and> notes_ok key ns \<and> dirty_frames ns = Map.empty"
proof -
  obtain t :: "nat qhashtbl" where n: "qhashtbl_new slots = Some t" using assms by (auto simp: qhashtbl_new_def)
  note t = n qhashtbl_new_ok [OF n]
  show ?thesis by (auto simp: new_notes_def t notes_ok_def note_at_lookup dirty_frames_def fun_eq_iff)
qed

definition with_latest :: "('t \<Rightarrow> u64) \<Rightarrow> (i32 \<Rightarrow> 't \<Rightarrow> 't) \<Rightarrow> (u64 \<Rightarrow> i32 option) \<Rightarrow> 't \<Rightarrow> 't" where
  "with_latest row_key set_latest frames row = (case frames (row_key row) of None \<Rightarrow> row | Some f \<Rightarrow> set_latest f row)"

text \<open>A column of latest frames: the key of its notes and how a note is written to the rows.\<close>

locale frame_column =
  fixes key :: "SOSD_frame_note \<Rightarrow> u64" and row_key :: "'t \<Rightarrow> u64" and set_latest :: "i32 \<Rightarrow> 't \<Rightarrow> 't"
    and update :: "SOSD_frame_note \<Rightarrow> 't list \<Rightarrow> 't list"
  assumes key_note: "key (n\<lparr>nt_frame := f\<rparr>) = key n" "key (n\<lparr>nt_dirty := d\<rparr>) = key n"
    and row_key_latest: "row_key (set_latest f row) = row_key row"
    and update: "update note = map (\<lambda>row. if row_key row = key note then set_latest (nt_frame note) row else row)"
begin

lemma row_key_with_latest: "row_key (with_latest row_key set_latest frames row) = row_key row"
  by (simp add: with_latest_def row_key_latest split: option.splits)

text \<open>Only one note has the key of a note.\<close>

lemma same_note:
  assumes "notes_ok key ns" and "a < length (fn_notes ns)"
  shows "note_at ns g = Some a \<longleftrightarrow> g = key (fn_notes ns ! a)"
  using assms by (auto simp: notes_ok_def)

lemma note_old_ok:
  assumes "notes_ok key ns" and "note_at ns g = Some a"
  shows "a < length (fn_notes ns)"
    and "notes_ok key (ns\<lparr>fn_notes := (fn_notes ns)[a := (fn_notes ns ! a)\<lparr>nt_frame := f, nt_dirty := d\<rparr>]\<rparr>)"
    and "dirty_frames (ns\<lparr>fn_notes := (fn_notes ns)[a := (fn_notes ns ! a)\<lparr>nt_frame := f, nt_dirty := True\<rparr>]\<rparr>) = (dirty_frames ns)(g \<mapsto> f)"
proof -
  let ?note = "(fn_notes ns ! a)\<lparr>nt_frame := f, nt_dirty := d\<rparr>"
  show a: "a < length (fn_notes ns)" using assms by (auto simp: notes_ok_def)
  have k: "key ((fn_notes ns)[a := ?note] ! b) = key (fn_notes ns ! b)" for b
    using a by (cases "b = a") (simp_all add: key_note)
  show "notes_ok key (ns\<lparr>fn_notes := (fn_notes ns)[a := ?note]\<rparr>)"
    using assms(1) k by (simp add: notes_ok_def)
  show "dirty_frames (ns\<lparr>fn_notes := (fn_notes ns)[a := (fn_notes ns ! a)\<lparr>nt_frame := f, nt_dirty := True\<rparr>]\<rparr>) = (dirty_frames ns)(g \<mapsto> f)"
  proof
    fix h
    show "dirty_frames (ns\<lparr>fn_notes := (fn_notes ns)[a := (fn_notes ns ! a)\<lparr>nt_frame := f, nt_dirty := True\<rparr>]\<rparr>) h = ((dirty_frames ns)(g \<mapsto> f)) h"
    proof (cases "h = g")
      case True
      then show ?thesis using assms(2) a by (simp add: dirty_frames_def)
    next
      case False
      then have "note_at ns h \<noteq> Some a" using assms(2) same_note [OF assms(1) a] by simp
      then show ?thesis using False by (auto simp: dirty_frames_def split: option.splits)
    qed
  qed
qed

lemma note_new_ok:
  assumes "notes_ok key ns" and "note_at ns (key note) = None" and "nt_dirty note"
  defines "ns' \<equiv> ns\<lparr>fn_notes := fn_notes ns @ [note], fn_list := length (fn_notes ns) # fn_list ns,
    fn_table := fst (qh_put (fn_table ns) (Some (guid_str (key note))) (Some (length (fn_notes ns))))\<rparr>"
  shows "notes_ok key ns'" and "dirty_frames ns' = (dirty_frames ns)(key note \<mapsto> nt_frame note)"
proof -
  let ?n = "length (fn_notes ns)"
  have t: "table_ok (fn_table ns)" and nn: "\<And>k v. qh_lookup (fn_table ns) k = Some v \<Longrightarrow> v \<noteq> None"
    using assms(1) by (auto simp: notes_ok_def)
  have none: "qh_lookup (fn_table ns) (guid_str (key note)) = None"
    using assms(2) nn by (auto simp: note_at_lookup split: option.splits)
  have look: "qh_lookup (fn_table ns') k = (if k = guid_str (key note) then Some (Some ?n) else qh_lookup (fn_table ns) k)" for k
    using qh_lookup_qhput [OF t] none by (simp add: ns'_def qh_put_def)
  have at: "note_at ns' h = (if h = key note then Some ?n else note_at ns h)" for h
    using look guid_str_inj [of h "key note"] by (auto simp: note_at_lookup)
  have tab: "table_ok (fn_table ns')" using qhput_table_ok [OF t] by (simp add: ns'_def qh_put_def)
  have ne: "key (fn_notes ns ! i) \<noteq> key note" if "i < ?n" for i
    using same_note [OF assms(1) that, of "key note"] assms(2) by auto
  have less: "a < ?n \<and> key (fn_notes ns ! a) = h" if "note_at ns h = Some a" for h a
    using assms(1) that by (auto simp: notes_ok_def)
  have nts: "fn_notes ns' = fn_notes ns @ [note]" "fn_list ns' = ?n # fn_list ns" by (simp_all add: ns'_def)
  have fwd: "\<forall>h a. note_at ns' h = Some a \<longrightarrow> a < length (fn_notes ns') \<and> key (fn_notes ns' ! a) = h"
    using less by (auto simp: at nts nth_append split: if_splits) fastforce+
  have bwd: "\<forall>a < length (fn_notes ns'). note_at ns' (key (fn_notes ns' ! a)) = Some a"
    using assms(1) ne by (auto simp: at nts nth_append less_Suc_eq notes_ok_def)
  have lst: "distinct (fn_list ns')" "set (fn_list ns') = {..<length (fn_notes ns')}"
    using assms(1) by (auto simp: nts notes_ok_def)
  have "\<forall>k v. qh_lookup (fn_table ns') k = Some v \<longrightarrow> v \<noteq> None" using look nn by (auto split: if_splits)
  then show "notes_ok key ns'" unfolding notes_ok_def using tab fwd bwd lst by blast
  show "dirty_frames ns' = (dirty_frames ns)(key note \<mapsto> nt_frame note)"
    using less assms(3) by (auto simp: fun_eq_iff dirty_frames_def at nts nth_append split: option.splits)
qed

lemma note_frame_ok:
  assumes "notes_ok key ns"
    and "key \<lparr>nt_guid = sn_guid snap, nt_pub_guid = sn_pub_guid snap, nt_frame = scast (sn_frame snap), nt_dirty = True\<rparr> = g"
  shows "\<exists>ns'. note_frame g snap ns = Inr ns' \<and> notes_ok key ns' \<and> dirty_frames ns' = (dirty_frames ns)(g \<mapsto> scast (sn_frame snap))"
proof (cases "note_at ns g")
  case None
  let ?note = "\<lparr>nt_guid = sn_guid snap, nt_pub_guid = sn_pub_guid snap, nt_frame = scast (sn_frame snap), nt_dirty = True\<rparr>"
  have "note_at ns (key ?note) = None" using None assms(2) by simp
  from note_new_ok [OF assms(1) this] show ?thesis using None assms(2) by (simp add: note_frame_def Let_def)
next
  case (Some a)
  then show ?thesis using note_old_ok [OF assms(1) Some] by (simp add: note_frame_def)
qed

text \<open>Flushing writes the dirty frames and leaves none.\<close>

lemma flush_prefix:
  assumes "notes_ok key ns" and "distinct as" and "set as \<subseteq> {..<length (fn_notes ns)}"
  shows "\<exists>nts. foldR (flush_note update) as (ns, t) =
      Inr (ns\<lparr>fn_notes := nts\<rparr>, map (with_latest row_key set_latest (\<lambda>g. case note_at ns g of None \<Rightarrow> None | Some a \<Rightarrow> if a \<in> set as then dirty_frames ns g else None)) t) \<and>
    length nts = length (fn_notes ns) \<and>
    (\<forall>a < length nts. nts ! a = (if a \<in> set as then (fn_notes ns ! a)\<lparr>nt_dirty := False\<rparr> else fn_notes ns ! a))"
    (is "\<exists>nts. ?P as nts")
  using assms(2,3)
proof (induction as rule: rev_induct)
  case Nil
  have "with_latest row_key set_latest (\<lambda>g. case note_at ns g of None \<Rightarrow> None | Some a \<Rightarrow> None) = id"
    by (auto simp: fun_eq_iff with_latest_def split: option.splits)
  then have "?P [] (fn_notes ns)" by (simp cong: option.case_cong)
  then show ?case by blast
next
  case (snoc a as)
  let ?from = "\<lambda>as g. case note_at ns g of None \<Rightarrow> None | Some a \<Rightarrow> if a \<in> set as then dirty_frames ns g else None"
  from snoc obtain nts where IH: "?P as nts" by auto
  have a: "a < length (fn_notes ns)" "a \<notin> set as" using snoc.prems by auto
  let ?note = "fn_notes ns ! a"
  have at: "nts ! a = ?note" "a < length nts" using IH a by simp_all
  have only: "note_at ns g = Some a \<longleftrightarrow> g = key ?note" for g by (rule same_note [OF assms(1) a(1)])
  have rest: "?from (as @ [a]) g = ?from as g" if "g \<noteq> key ?note" for g
    using only [of g] that by (auto split: option.splits)
  have old: "?from as (key ?note) = None" using only [of "key ?note"] a(2) by simp
  have new: "?from (as @ [a]) (key ?note) = (if nt_dirty ?note then Some (nt_frame ?note) else None)"
    using only [of "key ?note"] by (simp add: dirty_frames_def)
  have row: "with_latest row_key set_latest (?from (as @ [a])) r =
      (let r' = with_latest row_key set_latest (?from as) r in if nt_dirty ?note \<and> row_key r' = key ?note then set_latest (nt_frame ?note) r' else r')" for r
  proof (cases "row_key r = key ?note")
    case True
    have w: "with_latest row_key set_latest (?from as) r = r" unfolding with_latest_def True old by simp
    show ?thesis unfolding w Let_def unfolding with_latest_def True new by simp
  next
    case False
    then show ?thesis unfolding Let_def row_key_with_latest unfolding with_latest_def rest [OF False] by simp
  qed
  have "?P (as @ [a]) (if nt_dirty ?note then nts[a := ?note\<lparr>nt_dirty := False\<rparr>] else nts)"
  proof (cases "nt_dirty ?note")
    case True
    have "map (with_latest row_key set_latest (?from (as @ [a]))) t = update ?note (map (with_latest row_key set_latest (?from as)) t)"
      unfolding update using True by (simp add: row Let_def)
    then show ?thesis using IH at True a by (simp add: foldR_append flush_note_def Let_def nth_list_update del: map_map)
  next
    case False
    have "map (with_latest row_key set_latest (?from (as @ [a]))) t = map (with_latest row_key set_latest (?from as)) t" using False by (simp add: row)
    moreover have "?note = ?note\<lparr>nt_dirty := False\<rparr>" using False by simp
    ultimately show ?thesis using IH at False a by (auto simp: foldR_append flush_note_def Let_def)
  qed
  then show ?case by blast
qed

lemma flush_notes_ok:
  assumes "notes_ok key ns"
  shows "\<exists>ns'. flush_notes update ns t = Inr (ns', map (with_latest row_key set_latest (dirty_frames ns)) t) \<and> notes_ok key ns' \<and> dirty_frames ns' = Map.empty"
proof -
  have l: "distinct (fn_list ns)" "set (fn_list ns) = {..<length (fn_notes ns)}" using assms by (auto simp: notes_ok_def)
  obtain nts where n: "foldR (flush_note update) (fn_list ns) (ns, t) =
      Inr (ns\<lparr>fn_notes := nts\<rparr>, map (with_latest row_key set_latest (\<lambda>g. case note_at ns g of None \<Rightarrow> None | Some a \<Rightarrow> if a \<in> set (fn_list ns) then dirty_frames ns g else None)) t)"
      "length nts = length (fn_notes ns)" "\<And>a. a < length nts \<Longrightarrow> nts ! a = (fn_notes ns ! a)\<lparr>nt_dirty := False\<rparr>"
    using flush_prefix [OF assms l(1), of t] l(2) by auto
  have less: "a < length (fn_notes ns)" if "note_at ns g = Some a" for g a using assms that by (auto simp: notes_ok_def)
  have all: "(\<lambda>g. case note_at ns g of None \<Rightarrow> None | Some a \<Rightarrow> if a \<in> set (fn_list ns) then dirty_frames ns g else None) = dirty_frames ns"
    using less l(2) by (auto simp: fun_eq_iff dirty_frames_def split: option.splits)
  have k: "key (nts ! a) = key (fn_notes ns ! a)" if "a < length nts" for a using n(3) [OF that] by (simp add: key_note)
  have "notes_ok key (ns\<lparr>fn_notes := nts\<rparr>)" using assms k n(2) by (simp add: notes_ok_def)
  moreover have "dirty_frames (ns\<lparr>fn_notes := nts\<rparr>) = Map.empty"
    using less n(2,3) by (auto simp: fun_eq_iff dirty_frames_def split: option.splits)
  ultimately show ?thesis using n(1) unfolding all flush_notes_def by blast
qed

end

interpretation pub_col: frame_column nt_pub_guid pr_guid "\<lambda>f row. row\<lparr>pr_latest_frame := f\<rparr>" update_pub_frame
  by unfold_locales (simp_all add: update_pub_frame_def fun_eq_iff)

interpretation val_col: frame_column nt_guid dr_guid "\<lambda>f row. row\<lparr>dr_latest_frame := f\<rparr>" update_data_frame
  by unfold_locales (simp_all add: update_data_frame_def fun_eq_iff)

section \<open>Storing snapshots\<close>

definition storable :: "SOS_val_snap \<Rightarrow> bool" where
  "storable snap \<longleftrightarrow>
     (\<exists>x. tm_pack (sn_time snap) = Fin x \<and> 0 \<le> x \<and> x < 2 ^ 64) \<and>
     (enum_decode SOS_val_type_vals (sn_type snap) = Some SOS_VAL_TYPE_BYTES \<or> val_fits (sn_type snap) (sn_val snap))"

definition stored_as :: "c_double \<Rightarrow> SOS_val_snap \<Rightarrow> vals_row \<Rightarrow> bool" where
  "stored_as now snap row \<longleftrightarrow>
     vr_guid row = sn_guid snap \<and> vr_frame row = scast (sn_frame snap) \<and> vr_semantic row = sn_semantic snap \<and>
     vr_relation_id row = sn_relation_id snap \<and> vr_time_pack row = tm_pack (sn_time snap) \<and>
     vr_time_send row = tm_send (sn_time snap) \<and> vr_time_recv row = now \<and> stored_val snap = Inr (vr_val row)"

text \<open>The frame of the last snapshot with a key.\<close>

definition newest_frame :: "(SOS_val_snap \<Rightarrow> u64) \<Rightarrow> SOS_val_snap list \<Rightarrow> u64 \<Rightarrow> i32 option" where
  "newest_frame key snaps = map_of (rev (map (\<lambda>snap. (key snap, scast (sn_frame snap))) snaps))"

definition db_ok :: "SOSD_db \<Rightarrow> bool" where
  "db_ok db \<longleftrightarrow>
     notes_ok nt_pub_guid (db_pub_notes db) \<and> notes_ok nt_guid (db_val_notes db) \<and>
     dirty_frames (db_pub_notes db) = Map.empty \<and> dirty_frames (db_val_notes db) = Map.empty"

lemma stored_val_defined:
  assumes "enum_decode SOS_val_type_vals (sn_type snap) = Some SOS_VAL_TYPE_BYTES \<or> val_fits (sn_type snap) (sn_val snap)"
  shows "\<exists>val. stored_val snap = Inr val"
  using assms by (cases "sn_val snap") (auto simp: stored_val_def val_fits_def split: option.splits SOS_val_type.splits)

lemma vals_row_ok:
  assumes "storable snap"
  shows "\<exists>row. vals_row_of now snap = Inr row \<and> stored_as now snap row"
proof -
  obtain x where x: "tm_pack (sn_time snap) = Fin x" "0 \<le> x" "x < 2 ^ 64" using assms by (auto simp: storable_def)
  have c: "cast_u64 (tm_pack (sn_time snap)) = Inr (word_of_int \<lfloor>x\<rfloor>)" using x by (simp add: cast_u64_def)
  obtain val where "stored_val snap = Inr val" using stored_val_defined assms by (auto simp: storable_def)
  then show ?thesis by (simp add: vals_row_of_def c stored_as_def)
qed

lemma newest_frame_snoc: "m ++ newest_frame key (snaps @ [snap]) = (m ++ newest_frame key snaps)(key snap \<mapsto> scast (sn_frame snap))"
  by (simp add: newest_frame_def)

lemma insert_vals_rows:
  assumes "notes_ok nt_pub_guid (db_pub_notes db)" and "notes_ok nt_guid (db_val_notes db)" and "\<forall>x \<in> set xs. storable (snd x)"
  shows "\<exists>db' rows. foldR (insert_val update_frame clock) xs db = Inr db' \<and> list_all2 (\<lambda>x. stored_as (clock (fst x)) (snd x)) xs rows \<and>
    db_tables db' = (db_tables db)\<lparr>tb_vals := tb_vals (db_tables db) @ rows\<rparr> \<and> db_lock db' = db_lock db \<and> db_ready db' = db_ready db \<and>
    notes_ok nt_pub_guid (db_pub_notes db') \<and> notes_ok nt_guid (db_val_notes db') \<and>
    dirty_frames (db_pub_notes db') = dirty_frames (db_pub_notes db) ++ (if update_frame then newest_frame sn_pub_guid (map snd xs) else Map.empty) \<and>
    dirty_frames (db_val_notes db') = dirty_frames (db_val_notes db) ++ (if update_frame then newest_frame sn_guid (map snd xs) else Map.empty)"
  using assms(3)
proof (induction xs rule: rev_induct)
  case Nil
  then show ?case using assms(1,2) by (simp add: newest_frame_def)
next
  case (snoc x xs)
  obtain i snap where x: "x = (i, snap)" by (cases x)
  from snoc obtain db1 rows where IH: "foldR (insert_val update_frame clock) xs db = Inr db1"
      "list_all2 (\<lambda>x. stored_as (clock (fst x)) (snd x)) xs rows"
      "db_tables db1 = (db_tables db)\<lparr>tb_vals := tb_vals (db_tables db) @ rows\<rparr>" "db_lock db1 = db_lock db" "db_ready db1 = db_ready db"
      "notes_ok nt_pub_guid (db_pub_notes db1)" "notes_ok nt_guid (db_val_notes db1)"
      "dirty_frames (db_pub_notes db1) = dirty_frames (db_pub_notes db) ++ (if update_frame then newest_frame sn_pub_guid (map snd xs) else Map.empty)"
      "dirty_frames (db_val_notes db1) = dirty_frames (db_val_notes db) ++ (if update_frame then newest_frame sn_guid (map snd xs) else Map.empty)"
    by auto
  obtain row where row: "vals_row_of (clock i) snap = Inr row" "stored_as (clock i) snap row"
    using vals_row_ok snoc.prems x by fastforce
  obtain pn where pn: "note_frame (sn_pub_guid snap) snap (db_pub_notes db1) = Inr pn" "notes_ok nt_pub_guid pn"
      "dirty_frames pn = (dirty_frames (db_pub_notes db1))(sn_pub_guid snap \<mapsto> scast (sn_frame snap))"
    using pub_col.note_frame_ok [OF IH(6), of snap "sn_pub_guid snap"] by auto
  obtain vn where vn: "note_frame (sn_guid snap) snap (db_val_notes db1) = Inr vn" "notes_ok nt_guid vn"
      "dirty_frames vn = (dirty_frames (db_val_notes db1))(sn_guid snap \<mapsto> scast (sn_frame snap))"
    using val_col.note_frame_ok [OF IH(7), of snap "sn_guid snap"] by auto
  let ?db = "db1\<lparr>db_tables := (db_tables db1)\<lparr>tb_vals := tb_vals (db_tables db1) @ [row]\<rparr>\<rparr>"
  let ?db' = "if update_frame then ?db\<lparr>db_pub_notes := pn, db_val_notes := vn\<rparr> else ?db"
  have "foldR (insert_val update_frame clock) (xs @ [x]) db = Inr ?db'"
    using IH(1) row(1) pn(1) vn(1) by (simp add: foldR_append x insert_val_def Let_def)
  moreover have "list_all2 (\<lambda>x. stored_as (clock (fst x)) (snd x)) (xs @ [x]) (rows @ [row])"
    using IH(2) row(2) x by (simp add: list_all2_appendI)
  ultimately show ?case
    using IH(3-9) pn(2,3) vn(2,3) x
    by (intro exI [of _ ?db'] exI [of _ "rows @ [row]"]) (cases update_frame; simp add: newest_frame_snoc)
qed

lemma update_frames_ok:
  assumes "notes_ok nt_pub_guid (db_pub_notes db)" and "notes_ok nt_guid (db_val_notes db)"
  shows "\<exists>db'. update_frames db = Inr db' \<and> db_ok db' \<and> db_lock db' = db_lock db \<and> db_ready db' = db_ready db \<and>
    db_tables db' = (db_tables db)
      \<lparr>tb_pubs := map (with_latest pr_guid (\<lambda>f row. row\<lparr>pr_latest_frame := f\<rparr>) (dirty_frames (db_pub_notes db))) (tb_pubs (db_tables db)),
       tb_data := map (with_latest dr_guid (\<lambda>f row. row\<lparr>dr_latest_frame := f\<rparr>) (dirty_frames (db_val_notes db))) (tb_data (db_tables db))\<rparr>"
  using pub_col.flush_notes_ok [OF assms(1), of "tb_pubs (db_tables db)"] val_col.flush_notes_ok [OF assms(2), of "tb_data (db_tables db)"]
  by (auto simp: update_frames_def db_ok_def)

lemma with_latest_empty [simp]: "with_latest row_key set_latest Map.empty = id"
  by (auto simp: fun_eq_iff with_latest_def)

lemma SOSD_db_insert_vals_ok:
  assumes "queue_ok mincap q" and "db_ok db" and "\<forall>snap \<in> set (pipe_content (sq_pipe q)). storable snap"
  defines "snaps \<equiv> pipe_content (sq_pipe q)"
  shows "\<exists>q' db' rows. SOSD_db_insert_vals mincap update_frame clock q db = Inr (q', db') \<and> queue_ok mincap q' \<and> pipe_content (sq_pipe q') = [] \<and>
    db_ok db' \<and> db_lock db' = db_lock db \<and> db_ready db' = db_ready db \<and> length rows = length snaps \<and>
    (\<forall>i < length snaps. stored_as (clock i) (snaps ! i) (rows ! i)) \<and>
    db_tables db' = \<lparr>tb_pubs = map (with_latest pr_guid (\<lambda>f row. row\<lparr>pr_latest_frame := f\<rparr>)
        (if update_frame then newest_frame sn_pub_guid snaps else Map.empty)) (tb_pubs (db_tables db)),
      tb_data = map (with_latest dr_guid (\<lambda>f row. row\<lparr>dr_latest_frame := f\<rparr>)
        (if update_frame then newest_frame sn_guid snaps else Map.empty)) (tb_data (db_tables db)),
      tb_vals = tb_vals (db_tables db) @ rows\<rparr>"
proof (cases "snaps = []")
  case True
  have "sq_elem_count q = 0" using assms(1) True by (simp add: queue_ok_def snaps_def del: length_pipe_content)
  then have "SOSD_db_insert_vals mincap update_frame clock q db = Inr (q, db)"
    using assms(1) by (simp add: SOSD_db_insert_vals_def queue_ok_def)
  then show ?thesis using assms(1,2) True by (simp add: newest_frame_def snaps_def)
next
  case False
  have q: "ring_ok mincap (sq_pipe q)" "pp_elem_size (sq_pipe q) = 1" "\<not> sq_sync_lock q" "sq_elem_count q = int (length snaps)"
    using assms(1) by (auto simp: queue_ok_def snaps_def)
  have pos: "0 < length snaps" using False by simp
  obtain p where p: "pipe_pop_bytes mincap zero_snap (sq_pipe q) (length snaps) = Inr (p, snaps)" "ring_ok mincap p" "pipe_content p = []"
      "pp_elem_size p = 1"
    using pipe_pop_ok [OF q(1) False [unfolded snaps_def] pos, of zero_snap] q(2) by (auto simp: snaps_def)
  let ?q = "q\<lparr>sq_pipe := p, sq_elem_count := 0\<rparr>"
  have q': "queue_ok mincap ?q" using p q(3) by (simp add: queue_ok_def flip: length_pipe_content)
  have n: "notes_ok nt_pub_guid (db_pub_notes db)" "notes_ok nt_guid (db_val_notes db)"
      "dirty_frames (db_pub_notes db) = Map.empty" "dirty_frames (db_val_notes db) = Map.empty" using assms(2) by (auto simp: db_ok_def)
  let ?xs = "zip [0..<length snaps] snaps"
  have "\<forall>x \<in> set ?xs. storable (snd x)" using assms(3) by (auto simp: snaps_def dest: set_zip_rightD)
  from insert_vals_rows [OF n(1,2) this, of update_frame clock] obtain db1 rows where d: "foldR (insert_val update_frame clock) ?xs db = Inr db1"
      "list_all2 (\<lambda>x. stored_as (clock (fst x)) (snd x)) ?xs rows"
      "db_tables db1 = (db_tables db)\<lparr>tb_vals := tb_vals (db_tables db) @ rows\<rparr>" "db_lock db1 = db_lock db" "db_ready db1 = db_ready db"
      "notes_ok nt_pub_guid (db_pub_notes db1)" "notes_ok nt_guid (db_val_notes db1)"
      "dirty_frames (db_pub_notes db1) = (if update_frame then newest_frame sn_pub_guid snaps else Map.empty)"
      "dirty_frames (db_val_notes db1) = (if update_frame then newest_frame sn_guid snaps else Map.empty)"
    by (elim exE conjE) (simp add: n(3,4))
  have rows: "length rows = length snaps" "stored_as (clock i) (snaps ! i) (rows ! i)" if "i < length snaps" for i
    using list_all2_lengthD [OF d(2)] list_all2_nthD [OF d(2), of i] that by auto
  have len: "length rows = length snaps" using list_all2_lengthD [OF d(2)] by simp
  obtain db2 where u: "update_frames db1 = Inr db2" "db_ok db2" "db_lock db2 = db_lock db1" "db_ready db2 = db_ready db1"
      "db_tables db2 = (db_tables db1)
      \<lparr>tb_pubs := map (with_latest pr_guid (\<lambda>f row. row\<lparr>pr_latest_frame := f\<rparr>) (dirty_frames (db_pub_notes db1))) (tb_pubs (db_tables db1)),
       tb_data := map (with_latest dr_guid (\<lambda>f row. row\<lparr>dr_latest_frame := f\<rparr>) (dirty_frames (db_val_notes db1))) (tb_data (db_tables db1))\<rparr>"
    using update_frames_ok [OF d(6,7)] by auto
  let ?db = "if update_frame then db2 else db1"
  have run: "SOSD_db_insert_vals mincap update_frame clock q db = Inr (?q, ?db)"
    using q pos p(1) d(1) u(1) by (simp add: SOSD_db_insert_vals_def pipe_pop_eager_def Let_def)
  have ok: "db_ok ?db" using u(2) d(6-9) by (simp add: db_ok_def)
  have tabs: "db_tables ?db = \<lparr>tb_pubs = map (with_latest pr_guid (\<lambda>f row. row\<lparr>pr_latest_frame := f\<rparr>)
        (if update_frame then newest_frame sn_pub_guid snaps else Map.empty)) (tb_pubs (db_tables db)),
      tb_data = map (with_latest dr_guid (\<lambda>f row. row\<lparr>dr_latest_frame := f\<rparr>)
        (if update_frame then newest_frame sn_guid snaps else Map.empty)) (tb_data (db_tables db)),
      tb_vals = tb_vals (db_tables db) @ rows\<rparr>"
    using u(5) d(3,8,9) by simp
  show ?thesis using run q' p(3) ok d(4,5) u(3,4) len rows tabs by (intro exI [of _ ?q] exI [of _ ?db] exI [of _ rows]) simp
qed

text \<open>
  C21: Storing the queue of value snapshots. Every snapshot becomes one row, in the order of the queue and behind the rows
  that were there, with its GUID, frame, meaning, relation, times and the text of its value; the queue is empty afterwards.
  When latest frames are tracked, a publication (an element) gets the frame of its last snapshot in the queue; rows of the
  others stay as they are. No note stays behind, so the next round starts as this one did.
\<close>

theorem snapshots_stored:
  assumes "queue_ok mincap q" and "db_ok db" and "\<forall>snap \<in> set (pipe_content (sq_pipe q)). storable snap"
  shows "\<exists>q' db' rows. SOSD_db_insert_vals mincap update_frame clock q db = Inr (q', db') \<and> queue_ok mincap q' \<and> pipe_content (sq_pipe q') = [] \<and>
    db_ok db' \<and> length rows = length (pipe_content (sq_pipe q)) \<and>
    (\<forall>i < length (pipe_content (sq_pipe q)). stored_as (clock i) (pipe_content (sq_pipe q) ! i) (rows ! i)) \<and>
    tb_vals (db_tables db') = tb_vals (db_tables db) @ rows \<and>
    tb_pubs (db_tables db') = map (with_latest pr_guid (\<lambda>f row. row\<lparr>pr_latest_frame := f\<rparr>)
      (if update_frame then newest_frame sn_pub_guid (pipe_content (sq_pipe q)) else Map.empty)) (tb_pubs (db_tables db)) \<and>
    tb_data (db_tables db') = map (with_latest dr_guid (\<lambda>f row. row\<lparr>dr_latest_frame := f\<rparr>)
      (if update_frame then newest_frame sn_guid (pipe_content (sq_pipe q)) else Map.empty)) (tb_data (db_tables db))"
proof -
  note stored = SOSD_db_insert_vals_ok [OF assms, of update_frame clock]
  from stored obtain q' db' rows where "SOSD_db_insert_vals mincap update_frame clock q db = Inr (q', db')" "queue_ok mincap q'"
      "pipe_content (sq_pipe q') = []" "db_ok db'" "length rows = length (pipe_content (sq_pipe q))"
      "\<forall>i < length (pipe_content (sq_pipe q)). stored_as (clock i) (pipe_content (sq_pipe q) ! i) (rows ! i)"
      "db_tables db' = \<lparr>tb_pubs = map (with_latest pr_guid (\<lambda>f row. row\<lparr>pr_latest_frame := f\<rparr>)
        (if update_frame then newest_frame sn_pub_guid (pipe_content (sq_pipe q)) else Map.empty)) (tb_pubs (db_tables db)),
      tb_data = map (with_latest dr_guid (\<lambda>f row. row\<lparr>dr_latest_frame := f\<rparr>)
        (if update_frame then newest_frame sn_guid (pipe_content (sq_pipe q)) else Map.empty)) (tb_data (db_tables db)),
      tb_vals = tb_vals (db_tables db) @ rows\<rparr>" by (elim exE conjE) (rule that)
  then show ?thesis by (intro exI [of _ q'] exI [of _ db'] exI [of _ rows] conjI) (simp_all del: length_pipe_content)
qed

lemma SOSD_db_init_ok: "\<exists>db. SOSD_db_init_database role tables = Inr db \<and> db_ok db \<and> db_tables db = tables \<and> \<not> db_lock db \<and> db_ready db = 1"
proof -
  have pos: "0 < (if role = SOS_ROLE_LISTENER then 128 else 1280 :: int)" "0 < (if role = SOS_ROLE_LISTENER then 4096 else 409600 :: int)"
    by simp_all
  show ?thesis
    using new_notes_ok [OF pos(1), of nt_pub_guid] new_notes_ok [OF pos(2), of nt_guid]
    by (elim exE conjE) (simp add: SOSD_db_init_database_def db_ok_def)
qed

lemma example_storable: "storable example_snap"
  by (simp add: storable_def val_fits_def example_snap_def zero_snap_def zero_time_def SOS_val_type_enum.decode_code)

lemma example_stored: "stored_val example_snap = Inr [50, 49]"
proof -
  have "dec_digits 21 = [50, 49]" by (subst dec_digits.simps, simp, subst dec_digits.simps, simp)
  then show ?thesis by (simp add: stored_val_def example_snap_def SOS_val_type_enum.decode_code int_str_def in_256_def)
qed

definition example_row :: data_row where
  "example_row = \<lparr>dr_pub_guid = 7, dr_guid = 11, dr_name = [], dr_val_type = 0, dr_freq = 0, dr_class = 0, dr_pattern = 0, dr_compare = 0,
     dr_latest_frame = 5\<rparr>"

theorem snapshots_stored_witness:
  "\<exists>q db q' db' row. pipe_content (sq_pipe q) = [example_snap] \<and>
    SOSD_db_insert_vals 5 True (\<lambda>_. Fin 9) q db = Inr (q', db') \<and> tb_vals (db_tables db') = [row] \<and> vr_guid row = 11 \<and> vr_val row = [50, 49] \<and>
    tb_data (db_tables db) = [example_row] \<and> tb_data (db_tables db') = [example_row\<lparr>dr_latest_frame := 0\<rparr>]"
proof -
  obtain q q0 where q: "queue_ok 5 q" "pipe_content (sq_pipe q) = [example_snap]" by (rule example_queue)
  obtain db where db: "db_ok db" "db_tables db = \<lparr>tb_pubs = [], tb_data = [example_row], tb_vals = []\<rparr>"
    using SOSD_db_init_ok by blast
  have st: "\<forall>snap \<in> set (pipe_content (sq_pipe q)). storable snap" using example_storable by (simp add: q(2))
  obtain q' db' rows where r: "SOSD_db_insert_vals 5 True (\<lambda>_. Fin 9) q db = Inr (q', db')" "length rows = length [example_snap]"
      "\<forall>i < length [example_snap]. stored_as (Fin 9) ([example_snap] ! i) (rows ! i)"
      "tb_vals (db_tables db') = tb_vals (db_tables db) @ rows"
      "tb_data (db_tables db') = map (with_latest dr_guid (\<lambda>f row. row\<lparr>dr_latest_frame := f\<rparr>) (newest_frame sn_guid [example_snap])) (tb_data (db_tables db))"
    using snapshots_stored [OF q(1) db(1) st, of True "\<lambda>_. Fin 9", unfolded q(2) if_True] by (elim exE conjE) (rule that)
  then obtain row where row: "rows = [row]" by (cases rows) auto
  have "vr_guid row = 11" "vr_val row = [50, 49]" using r(3) row by (simp_all add: stored_as_def example_stored) (simp add: example_snap_def)
  moreover have "tb_data (db_tables db') = [example_row\<lparr>dr_latest_frame := 0\<rparr>]"
    using r(5) db(2) by (simp add: with_latest_def newest_frame_def example_snap_def zero_snap_def example_row_def)
  ultimately show ?thesis using q(2) r(1,4) row db(2)
    by (intro exI [of _ q] exI [of _ db] exI [of _ q'] exI [of _ db'] exI [of _ row]) simp
qed

text \<open>What the text of a value and its time lose.\<close>

lemma stored_whole_seconds:
  "vals_row_of now snap = Inr row \<Longrightarrow> tm_pack (sn_time snap) = Fin x \<Longrightarrow> 0 \<le> x \<Longrightarrow> vr_time_pack_int row = word_of_int \<lfloor>x\<rfloor> * 1000000"
  by (auto simp: vals_row_of_def cast_u64_def res_simps split: if_split_asm)

lemma length_dec_digits: "10 ^ k \<le> n \<Longrightarrow> k < length (dec_digits n)"
proof (induction k arbitrary: n)
  case 0
  then show ?case by (subst dec_digits.simps) simp
next
  case (Suc k)
  then have "10 ^ k \<le> n div 10" by (simp add: less_eq_div_iff_mult_less_eq mult.commute)
  moreover have "\<not> n < 10" using Suc.prems by (metis le_trans linorder_not_less one_le_power mult_le_cancel1 numeral_One one_le_numeral power_Suc mult_numeral_1_right)
  ultimately show ?case using Suc.IH [of "n div 10"] by (subst dec_digits.simps) simp
qed

lemma whole_digits:
  assumes "10 ^ k \<le> x"
  shows "k < length (dec_digits (nat (round_half_even (x * 10 ^ d)) div 10 ^ d))"
proof -
  let ?n = "nat (round_half_even (x * 10 ^ d))"
  have "(10 :: rat) ^ (k + d) \<le> x * 10 ^ d" using mult_right_mono [OF assms, of "10 ^ d"] by (simp add: power_add)
  then have f: "(10 :: int) ^ (k + d) \<le> \<lfloor>x * 10 ^ d\<rfloor>" by (simp add: le_floor_iff)
  have "\<lfloor>x * 10 ^ d\<rfloor> \<le> round_half_even (x * 10 ^ d)" by (simp add: round_half_even_def Let_def)
  with f have "(10 :: int) ^ (k + d) \<le> int ?n" by linarith
  then have "(10 :: nat) ^ (k + d) \<le> ?n" by (metis of_nat_le_iff of_nat_numeral of_nat_power)
  then have "(10 :: nat) ^ k \<le> ?n div 10 ^ d" by (simp add: less_eq_div_iff_mult_less_eq power_add)
  then show ?thesis by (rule length_dec_digits)
qed

lemma huge_double_cut:
  assumes "sn_type snap = val_type_code SOS_VAL_TYPE_DOUBLE" and "sn_val snap = Val_d (Fin x)" and "10 ^ k \<le> x" and "255 \<le> k"
  shows "stored_val snap = Inr (take 255 (dec_digits (nat (round_half_even (x * 10 ^ 17)) div 10 ^ 17)))"
proof -
  have "(0 :: rat) \<le> 10 ^ k" by simp
  then have "0 \<le> x" using assms(3) by linarith
  then show ?thesis
    using whole_digits [OF assms(3), of 17] assms(4)
    by (simp add: stored_val_def assms(1,2) SOS_val_type_enum.decode_code lf_str_def Let_def in_256_def del: power_numeral)
qed

section \<open>Storing elements\<close>

definition due :: "SOS_data \<Rightarrow> bool" where
  "due data \<longleftrightarrow> dt_sync data = enum_code SOS_val_sync_vals SOS_VAL_SYNC_RENEW \<and> data_type_stored (dt_type data)"

definition elem_row :: "u64 \<Rightarrow> SOS_data \<Rightarrow> data_row" where
  "elem_row guid data =
     \<lparr>dr_pub_guid = guid, dr_guid = dt_guid data, dr_name = cstr (dt_name data), dr_val_type = dt_type data,
      dr_freq = vm_freq (dt_meta data), dr_class = vm_classifier (dt_meta data), dr_pattern = vm_pattern (dt_meta data),
      dr_compare = vm_compare (dt_meta data), dr_latest_frame = 0\<rparr>"

definition stored_elem :: "SOS_data \<Rightarrow> SOS_data" where
  "stored_elem data = (if due data then data\<lparr>dt_sync := enum_code SOS_val_sync_vals SOS_VAL_SYNC_LOCAL\<rparr> else data)"

definition with_data_rows :: "SOSD_db \<Rightarrow> data_row list \<Rightarrow> SOSD_db" where
  "with_data_rows db rows = db\<lparr>db_tables := (db_tables db)\<lparr>tb_data := tb_data (db_tables db) @ rows\<rparr>\<rparr>"

lemma with_data_rows_simps: "with_data_rows db [] = db" "with_data_rows (with_data_rows db rows) rows' = with_data_rows db (rows @ rows')"
  by (simp_all add: with_data_rows_def)

lemma not_due_stored [simp]: "\<not> due (stored_elem data)" "stored_elem (stored_elem data) = stored_elem data" "dt_name (stored_elem data) = dt_name data"
  by (simp_all add: stored_elem_def due_def SOS_val_sync_enum.code_inject)

lemma insert_elem_ok:
  assumes "i < length (pb_data pub)" and "0 \<in> set (dt_name (pb_data pub ! i))"
  shows "insert_elem i (pub, db) =
    Inr (pub\<lparr>pb_data := (pb_data pub)[i := stored_elem (pb_data pub ! i)]\<rparr>,
         with_data_rows db (map (elem_row (pb_guid pub)) (filter due [pb_data pub ! i])))"
proof (cases "due (pb_data pub ! i)")
  case True
  then show ?thesis
    using assms by (simp add: insert_elem_def Let_def due_def array_str_def stored_elem_def elem_row_def with_data_rows_def)
next
  case False
  then show ?thesis using assms by (auto simp: insert_elem_def Let_def due_def stored_elem_def with_data_rows_def)
qed

lemma insert_elems_ok:
  assumes "k \<le> length (pb_data pub)" and "\<forall>data \<in> set (take k (pb_data pub)). 0 \<in> set (dt_name data)"
  shows "foldR insert_elem [0..<k] (pub, db) =
    Inr (pub\<lparr>pb_data := map stored_elem (take k (pb_data pub)) @ drop k (pb_data pub)\<rparr>,
         with_data_rows db (map (elem_row (pb_guid pub)) (filter due (take k (pb_data pub)))))"
  using assms
proof (induction k)
  case 0
  then show ?case by (simp add: with_data_rows_simps)
next
  case (Suc k)
  let ?d = "pb_data pub ! k"
  have k: "k < length (pb_data pub)" "take (Suc k) (pb_data pub) = take k (pb_data pub) @ [?d]"
      "drop k (pb_data pub) = ?d # drop (Suc k) (pb_data pub)"
    using Suc.prems(1) by (simp_all add: take_Suc_conv_app_nth Cons_nth_drop_Suc)
  have IH: "foldR insert_elem [0..<k] (pub, db) =
    Inr (pub\<lparr>pb_data := map stored_elem (take k (pb_data pub)) @ ?d # drop (Suc k) (pb_data pub)\<rparr>,
         with_data_rows db (map (elem_row (pb_guid pub)) (filter due (take k (pb_data pub)))))"
    using Suc k(2,3) by simp
  have n: "0 \<in> set (dt_name ?d)" using Suc.prems(2) k(2) by simp
  have e: "length (map stored_elem (take k (pb_data pub))) = k" using k(1) by simp
  show ?case
    using IH k(1) n e by (simp add: foldR_append insert_elem_ok nth_append list_update_append with_data_rows_simps k(2) del: filter.simps)
qed

lemma SOSD_db_insert_data_ok:
  assumes "\<not> pb_lock pub" and "nat (pb_elem_count pub) \<le> length (pb_data pub)" and "\<forall>data \<in> set (pub_used pub). 0 \<in> set (dt_name data)"
  shows "SOSD_db_insert_data pub db =
    Inr (pub\<lparr>pb_sync_pending := 0, pb_data := map stored_elem (pub_used pub) @ drop (nat (pb_elem_count pub)) (pb_data pub)\<rparr>,
         with_data_rows db (map (elem_row (pb_guid pub)) (filter due (pub_used pub))))"
  using assms insert_elems_ok [of "nat (pb_elem_count pub)" "pub\<lparr>pb_sync_pending := 0\<rparr>" db]
  by (simp add: SOSD_db_insert_data_def pub_used_def)

text \<open>
  C22: Storing the elements of a publication. The elements announced since the last time, of the four types that are
  stored, get a row each, in order, and are marked as stored; all others stay as they are. Storing the publication again
  adds no row and changes nothing.
\<close>

theorem elements_stored_once:
  assumes "\<not> pb_lock pub" and "nat (pb_elem_count pub) \<le> length (pb_data pub)" and "\<forall>data \<in> set (pub_used pub). 0 \<in> set (dt_name data)"
  shows "\<exists>pub' db'. SOSD_db_insert_data pub db = Inr (pub', db') \<and> pub_used pub' = map stored_elem (pub_used pub) \<and>
    db' = db\<lparr>db_tables := (db_tables db)\<lparr>tb_data := tb_data (db_tables db) @ map (elem_row (pb_guid pub)) (filter due (pub_used pub))\<rparr>\<rparr> \<and>
    SOSD_db_insert_data pub' db' = Inr (pub', db')"
proof -
  let ?n = "nat (pb_elem_count pub)"
  let ?pub = "pub\<lparr>pb_sync_pending := 0, pb_data := map stored_elem (pub_used pub) @ drop ?n (pb_data pub)\<rparr>"
  let ?db = "with_data_rows db (map (elem_row (pb_guid pub)) (filter due (pub_used pub)))"
  have u: "pub_used ?pub = map stored_elem (pub_used pub)" using assms(2) by (simp add: pub_used_def)
  have "filter due (map stored_elem (pub_used pub)) = []" by (simp add: filter_empty_conv)
  moreover have "drop ?n (map stored_elem (pub_used pub) @ drop ?n (pb_data pub)) = drop ?n (pb_data pub)" using assms(2) by (simp add: pub_used_def)
  ultimately have "SOSD_db_insert_data ?pub ?db = Inr (?pub, ?db)"
    using SOSD_db_insert_data_ok [of ?pub ?db] assms u by (simp add: with_data_rows_simps pub_used_def)
  then show ?thesis using SOSD_db_insert_data_ok [OF assms, of db] u by (auto simp: with_data_rows_def)
qed

theorem elements_stored_once_witness:
  "\<exists>pub' db db'. SOSD_db_insert_data (example_source\<lparr>pb_data := [example_elem\<lparr>dt_sync := enum_code SOS_val_sync_vals SOS_VAL_SYNC_RENEW\<rparr>]\<rparr>) db =
      Inr (pub', db') \<and> tb_data (db_tables db) = [] \<and> map dr_guid (tb_data (db_tables db')) = [11] \<and> SOSD_db_insert_data pub' db' = Inr (pub', db')"
proof -
  let ?elem = "example_elem\<lparr>dt_sync := enum_code SOS_val_sync_vals SOS_VAL_SYNC_RENEW\<rparr>"
  let ?pub = "example_source\<lparr>pb_data := [?elem]\<rparr>"
  obtain db :: SOSD_db where db: "db_tables db = \<lparr>tb_pubs = [], tb_data = [], tb_vals = []\<rparr>"
    using SOSD_db_init_ok [of SOS_ROLE_LISTENER "\<lparr>tb_pubs = [], tb_data = [], tb_vals = []\<rparr>"] by blast
  have u: "pub_used ?pub = [?elem]" by (simp add: pub_used_def example_source_def)
  have l: "\<not> pb_lock ?pub" "nat (pb_elem_count ?pub) \<le> length (pb_data ?pub)" by (simp_all add: example_source_def example_pub_def)
  have n: "\<forall>data \<in> set (pub_used ?pub). 0 \<in> set (dt_name data)"
    unfolding u using example_name(1) by (simp add: example_elem_def strncpy_array_def str_def SOS_DEFAULT_STRING_LEN_def)
  obtain pub' db' where r: "SOSD_db_insert_data ?pub db = Inr (pub', db')"
      "db' = db\<lparr>db_tables := (db_tables db)\<lparr>tb_data := tb_data (db_tables db) @ map (elem_row (pb_guid ?pub)) (filter due (pub_used ?pub))\<rparr>\<rparr>"
      "SOSD_db_insert_data pub' db' = Inr (pub', db')"
    using elements_stored_once [OF l n, of db] by (elim exE conjE) (rule that)
  have "due ?elem" by (simp add: due_def data_type_stored_def example_elem_def new_data_def SOS_val_type_enum.decode_code)
  then show ?thesis using r db u by (intro exI [of _ pub'] exI [of _ db] exI [of _ db']) (simp add: elem_row_def example_elem_def)
qed

lemma bytes_never_due: "dt_type data = val_type_code SOS_VAL_TYPE_BYTES \<Longrightarrow> \<not> due data"
  by (simp add: due_def data_type_stored_def SOS_val_type_enum.decode_code)

end
