(* ===== verification/SOS_Query.thy ===== *)
theory SOS_Query
  imports SOS_Database
begin

text \<open>
  A query on its way: from the program through the listener, the store and the feedback thread back to the program.
\<close>

section \<open>The request\<close>

definition query_ok :: "SOS_ctx \<Rightarrow> cstring \<Rightarrow> bool" where
  "query_ok cx sql \<longleftrightarrow> cx_role cx = SOS_ROLE_CLIENT \<and> str_fits (cx_node_id cx) \<and> wf_cstring sql \<and> length sql \<le> 2000"

lemma query_okD:
  assumes "query_ok cx sql"
  shows "cx_role cx = SOS_ROLE_CLIENT" and "str_fits (cx_node_id cx)" and "str_fits sql" and "cstr (sql @ [0]) = sql" and "wf_cstring sql"
  using assms cstr_append_NUL [of sql "[]"] by (auto simp: query_ok_def str_fits_def)

abbreviation query_header :: "i32 \<Rightarrow> SOS_msg_header" where
  "query_header rank \<equiv> msg_header_of SOS_MSG_TYPE_QUERY (scast rank) 0"

definition query_body :: "SOS_ctx \<Rightarrow> i32 \<Rightarrow> cstring \<Rightarrow> u64 \<Rightarrow> byte list" where
  "query_body cx port sql g = str_enc (cx_node_id cx) @ encode [ArgI port] @ str_enc sql @ encode [ArgG g]"

lemma query_body_fits: "query_ok cx sql \<Longrightarrow> 24 + length (query_body cx port sql g) \<le> MSG_LIMIT"
  by (simp add: query_body_def query_ok_def str_fits_def MSG_LIMIT_def)

text \<open>A field that is packed while a message is built takes some bytes.\<close>

lemma building_field:
  assumes "building b offset bs" and "\<not> buf_lock b" and "arg_ok a" and "fmt_of a = c" and "0 < length (encode [a])" and "length (encode [a]) \<le> 2048"
    and "offset \<le> 5000"
  shows "\<exists>b' rc. SOS_buffer_pack b offset [c] [a] = Inr (b', offset + length (encode [a]), rc) \<and> rc \<noteq> 0 \<and>
    building b' (offset + length (encode [a])) (bs @ encode [a]) \<and> \<not> buf_lock b'"
proof -
  have "length (encode [a]) \<le> SOS_DEFAULT_BUFFER_MAX div 2" "offset \<le> MSG_LIMIT" "\<forall>x \<in> set [a]. arg_ok x"
    using assms(3,6,7) by (simp_all add: SOS_DEFAULT_BUFFER_MAX_def MSG_LIMIT_def)
  then obtain b' where "SOS_buffer_pack b offset (map fmt_of [a]) [a] = Inr (b', offset + length (encode [a]), length (encode [a]))"
      "building b' (offset + length (encode [a])) (bs @ encode [a])" "buf_lock b' = buf_lock b"
    using building_pack [OF assms(1), of "[a]"] by metis
  then show ?thesis using assms(2,4,5) by (intro exI [of _ b'] exI [of _ "length (encode [a])"]) (simp del: encode_simps)
qed

lemma SOSA_exec_query_ok:
  assumes "query_ok cx sql" and "\<forall>m r. \<not> buf_lock r \<longrightarrow> (\<exists>r'. exchange m r = Inr (Some r') \<and> \<not> buf_lock r')"
    and "SOS_uid_next (cx_send cx) (cx_role cx) (cx_my_guid cx) (cx_offline_test_mode cx) pool = Inr (pool', g)"
  shows "\<exists>msg. SOSA_exec_query cx pool port sql exchange = Inr (pool', g, Some msg) \<and>
    is_msg (query_header (cx_comm_rank cx)) (query_body cx port sql g) msg"
proof -
  let ?h = "query_header (cx_comm_rank cx)" and ?b = "SOS_buffer_init_sized_locking 4096 False"
  let ?n = "encode [ArgS (cx_node_id cx)]" and ?p = "encode [ArgI port]" and ?q = "encode [ArgS sql]" and ?g = "encode [ArgG g]"
  have fit: "str_fits (cx_node_id cx)" "str_fits sql" using query_okD [OF assms(1)] by simp_all
  then have len: "0 < length ?n" "length ?n \<le> 2048" "length ?p = 4" "0 < length ?q" "length ?q \<le> 2048" "length ?g = 8"
    by (simp_all add: str_fits_def)
  have arg: "arg_ok (ArgS (cx_node_id cx))" "arg_ok (ArgI port)" "arg_ok (ArgS sql)" "arg_ok (ArgG g)"
    using fit by (simp_all add: str_fits_def INT_MAX_def)
  have fmt: "fmt_of (ArgS s) = CHR ''s''" "fmt_of (ArgI i) = CHR ''i''" "fmt_of (ArgG w) = CHR ''g''" for s i w by simp_all
  have pos: "0 < length ?p" "length ?p \<le> 2048" "0 < length ?g" "length ?g \<le> 2048" unfolding len by simp_all
  have off: "24 \<le> (5000 :: nat)" "24 + length ?n \<le> 5000" "24 + length ?n + length ?p \<le> 5000" "24 + length ?n + length ?p + length ?q \<le> 5000"
    using len(2,3,5) by (simp_all del: encode_simps)
  have b0: "building ?b 0 []" "\<not> buf_lock ?b"
    using fresh_msg_sized [of 4096 False] by (simp_all add: fresh_msg_def SOS_DEFAULT_BUFFER_MAX_def MSG_LIMIT_def)
  obtain m0 where 0: "SOS_msg_zip ?b ?h 0 = Inr (m0, 24, 24)" "building m0 24 (encode (header_args ?h))" "\<not> buf_lock m0"
    using SOS_msg_zip_start [OF b0] by metis
  obtain m1 rc1 where 1: "SOS_buffer_pack m0 24 ''s'' [ArgS (cx_node_id cx)] = Inr (m1, 24 + length ?n, rc1)" "rc1 \<noteq> 0"
      "building m1 (24 + length ?n) (encode (header_args ?h) @ ?n)" "\<not> buf_lock m1"
    using building_field [OF 0(2,3) arg(1) fmt(1) len(1,2) off(1)] by blast
  obtain m2 rc2 where 2: "SOS_buffer_pack m1 (24 + length ?n) ''i'' [ArgI port] = Inr (m2, 24 + length ?n + length ?p, rc2)" "rc2 \<noteq> 0"
      "building m2 (24 + length ?n + length ?p) ((encode (header_args ?h) @ ?n) @ ?p)" "\<not> buf_lock m2"
    using building_field [OF 1(3,4) arg(2) fmt(2) pos(1,2) off(2)] by blast
  obtain m3 rc3 where 3: "SOS_buffer_pack m2 (24 + length ?n + length ?p) ''s'' [ArgS sql] = Inr (m3, 24 + length ?n + length ?p + length ?q, rc3)" "rc3 \<noteq> 0"
      "building m3 (24 + length ?n + length ?p + length ?q) (((encode (header_args ?h) @ ?n) @ ?p) @ ?q)" "\<not> buf_lock m3"
    using building_field [OF 2(3,4) arg(3) fmt(1) len(4,5) off(3)] by blast
  obtain m4 rc4 where 4: "SOS_buffer_pack m3 (24 + length ?n + length ?p + length ?q) ''g'' [ArgG g] = Inr (m4, 24 + length ?n + length ?p + length ?q + length ?g, rc4)"
      "rc4 \<noteq> 0" "building m4 (24 + length ?n + length ?p + length ?q + length ?g) ((((encode (header_args ?h) @ ?n) @ ?p) @ ?q) @ ?g)" "\<not> buf_lock m4"
    using building_field [OF 3(3,4) arg(4) fmt(3) pos(3,4) off(4)] by blast
  let ?e = "query_body cx port sql g"
  have e: "24 + length ?n + length ?p + length ?q + length ?g = 24 + length ?e" by (simp add: query_body_def)
  have b4: "building m4 (24 + length ?e) (encode (header_args ?h) @ ?e)" using 4(3) unfolding e by (simp add: query_body_def)
  let ?h' = "?h\<lparr>hd_msg_size := word_of_nat (24 + length ?e)\<rparr>"
  obtain msg where 5: "SOS_msg_zip m4 ?h' 0 = Inr (msg, 24, 24)" "building msg (24 + length ?e) (encode (header_args ?h') @ ?e)" "\<not> buf_lock msg"
    using SOS_msg_zip_again [OF b4 4(4)] by metis
  have m: "is_msg ?h ?e msg" by (rule building_is_msg(1) [OF 5(2,3)])
  have "\<not> buf_lock (SOS_buffer_init_sized_locking 2048 False)" by (simp add: SOS_buffer_init_sized_locking_def)
  then obtain r where r: "exchange msg (SOS_buffer_init_sized_locking 2048 False) = Inr (Some r)" "\<not> buf_lock r" using assms(2) by blast
  note d = SOS_buffer_destroy_free [OF 5(3)] SOS_buffer_destroy_free [OF r(2)]
  have "SOSA_exec_query cx pool port sql exchange = Inr (pool', g, Some msg)"
    unfolding SOSA_exec_query_def next_request_guid_def if_P [OF query_okD(1) [OF assms(1)]] Let_def 0(1) assms(3) bindR.simps prod.case
      1(1) if_not_P [OF 1(2)] 2(1) if_not_P [OF 2(2)] 3(1) if_not_P [OF 3(2)] 4(1) if_not_P [OF 4(2)] e 5(1) r(1) option.case d
    by (rule refl)
  with m show ?thesis by blast
qed

section \<open>The listener\<close>

definition query_task :: "nat \<Rightarrow> SOSD_db_task" where
  "query_task ref = \<lparr>tk_type = enum_code SOS_msg_type_vals SOS_MSG_TYPE_QUERY, tk_ref = ref\<rparr>"

lemma SOSD_handle_query_ok:
  assumes "query_ok client sql" and "is_msg (query_header rank) (query_body client port sql g) b"
  shows "\<exists>h b'. hd_msg_from h = scast rank \<and> SOSD_handle_query cx dbd sd b =
    (let handle = new_query_handle h (Some (cx_node_id client @ [0])) port (Some (sql @ [0])) g
     in bindR (if dbd
              then let results = (SOSA_results_label SOSA_results_init g (Some sql))\<lparr>rs_col_count := 0, rs_row_count := 0, rs_exec_duration := Fin 0\<rparr>
                   in bindR (queue_put (cx_mincap cx) (Feedback_Query (handle\<lparr>qh_results := Some results\<rparr>)) (sd_feedback sd)) (\<lambda>q.
                      Inr (sd\<lparr>sd_feedback := q\<rparr>))
              else bindR (queue_put (cx_mincap cx) (query_task (length (sd_queries sd))) (sd_db sd)) (\<lambda>q.
                   Inr (sd\<lparr>sd_db := q, sd_queries := sd_queries sd @ [handle]\<rparr>))) (\<lambda>sd.
        bindR (ack_reply SOS_DEFAULT_REPLY_LEN True) (\<lambda>reply. Inr (sd, b', reply))))"
proof -
  let ?n = "str_enc (cx_node_id client)" and ?p = "encode [ArgI port]" and ?q = "str_enc sql" and ?g = "encode [ArgG g]"
  obtain b1 where u: "SOS_msg_unzip b 0 = Inr (b1, (query_header rank)\<lparr>hd_msg_size := word_of_nat (24 + length (query_body client port sql g))\<rparr>, 24)"
      "is_msg (query_header rank) (?n @ ?p @ ?q @ ?g) b1"
    using unzip_is_msg [OF assms(2)] unfolding query_body_def by blast
  note s = query_okD(2,3) [OF assms(1), THEN safestr_reads]
  have I: "reads (unpack_fields ''i'' [DestI]) (encode [ArgI i]) [OutI i]" for i by (rule reads_fields) simp_all
  have G: "reads (unpack_fields ''g'' [DestG]) (encode [ArgG g]) [OutG g]" by (rule reads_fields) simp_all
  have at: "r (b1, 24 + length xs) = Inr (b1, 24 + length xs + length e, x)"
    if "?n @ ?p @ ?q @ ?g = xs @ e @ zs" "reads r e x" for r :: "SOS_buffer \<times> nat \<Rightarrow> (SOS_buffer \<times> nat \<times> 'x) res" and xs e zs x
    using read_body [OF _ that(2)] u(2) unfolding that(1) by blast
  let ?o1 = "24 + length ?n" let ?o2 = "?o1 + length ?p" let ?o3 = "?o2 + length ?q" let ?o4 = "?o3 + length ?g"
  have 1: "SOS_buffer_unpack_safestr b1 24 = Inr (b1, ?o1, Some (cx_node_id client @ [0]))"
    using at [OF _ s(1), of "[]" "?p @ ?q @ ?g"] by simp
  have 2: "unpack_fields ''i'' [DestI] (b1, ?o1) = Inr (b1, ?o2, [OutI port])"
    using at [OF _ I, of ?n port "?q @ ?g"] by simp
  have 3: "SOS_buffer_unpack_safestr b1 ?o2 = Inr (b1, ?o3, Some (sql @ [0]))"
    using at [OF _ s(2), of "?n @ ?p" ?g] by (simp add: add.assoc del: encode_simps enc_arg.simps)
  have 4: "unpack_fields ''g'' [DestG] (b1, ?o3) = Inr (b1, ?o4, [OutG g])"
    using at [OF _ G, of "?n @ ?p @ ?q" "[]"] by (simp add: add.assoc del: encode_simps enc_arg.simps)
  let ?h = "(query_header rank)\<lparr>hd_msg_size := word_of_nat (24 + length (query_body client port sql g))\<rparr>"
  have sender: "hd_msg_from ?h = scast rank" by (simp add: msg_header_of_def)
  show ?thesis
    unfolding SOSD_handle_query_def u(1) bindR.simps prod.case 1 2 3 4 out_i.simps out_g.simps query_task_def Let_def option.map query_okD(4) [OF assms(1)]
    using sender by (intro exI [of _ ?h] exI [of _ b1]) simp
qed

section \<open>The store\<close>

definition answer_of :: "sqlite \<Rightarrow> SOS_tables \<Rightarrow> cstring \<Rightarrow> cstring list \<times> cstring list list" where
  "answer_of sqlite tables sql =
     (case sqlite tables sql of None \<Rightarrow> ([], []) | Some (names, rows) \<Rightarrow> (names, map (map cell_str) rows))"

text \<open>What SQLite documents: every row has a value for each column, and there is no row without columns.\<close>

definition sqlite_rows :: "sqlite \<Rightarrow> bool" where
  "sqlite_rows sqlite \<longleftrightarrow>
     (\<forall>tables sql names rows. sqlite tables sql = Some (names, rows) \<longrightarrow>
        (\<forall>row \<in> set rows. length row = length names) \<and> (rows \<noteq> [] \<longrightarrow> names \<noteq> []))"

lemma grow_to_count: "SOSA_results_grow_to (r\<lparr>rs_col_count := c\<rparr>) a b = (SOSA_results_grow_to r a b)\<lparr>rs_col_count := c\<rparr>"
  by (simp add: SOSA_results_grow_to_def Let_def)

lemma grow_to_monotone: "rs_col_max r \<le> rs_col_max (SOSA_results_grow_to r a b)"
  by (simp add: le_max_iff_disj SOSA_results_grow_to_def Let_def SOSA_DEFAULT_RESULT_COL_MAX_def)

lemma holds_table_irrelevant:
  "holds_table (r\<lparr>rs_exec_duration := duration\<rparr>) names rows = holds_table r names rows"
  "holds_table (SOSA_results_label r guid sql) names rows = holds_table r names rows"
  by (simp_all add: holds_table_def results_ok_def rs_name_def rs_cell_def SOSA_results_label_def)

text \<open>The table while rows are added to it.\<close>

definition query_table :: "nat \<Rightarrow> SOSA_results \<Rightarrow> cstring list \<Rightarrow> cstring list list \<Rightarrow> bool" where
  "query_table n r names rows \<longleftrightarrow>
     filled n r rows \<and> rs_col_count r = int n \<and> int n \<le> rs_col_max r \<and> length names = n \<and> (\<forall>j < n. rs_name r j = Some (names ! j @ [0]))"

lemma query_row_ok:
  assumes "query_table n r names rows" and "length vals = n" and "0 < n"
  shows "\<exists>r'. query_row n (length rows, vals) r = Inr r' \<and> query_table n r' names (rows @ [map cell_str vals])"
proof -
  let ?g = "SOSA_results_grow_to r (int n) (int (length rows))"
  have r: "results_ok r" using assms(1) by (simp add: query_table_def filled_def)
  note g = grow_to_ok [OF r, where c = "int n" and n = "int (length rows)"]
  have f: "filled n ?g rows" using assms(1) g(1-3,11) by (simp add: query_table_def filled_def)
  have m: "int n \<le> rs_col_max ?g" using g(4) .
  obtain r' where r': "put_row (int (length rows)) (map cell_str vals) ?g = Inr r'"
      "filled n (r'\<lparr>rs_row_count := int (length rows) + 1\<rparr>) (rows @ [map cell_str vals])"
      "rs_col_count r' = max (rs_col_count ?g) (int n)" "rs_name r' = rs_name ?g" "rs_col_max ?g \<le> rs_col_max r'"
    using put_row_filled [OF f _ assms(3), of "map cell_str vals"] m assms(2) by auto
  have "query_row n (length rows, vals) r = Inr (r'\<lparr>rs_row_count := int (length rows) + 1\<rparr>)"
    using r'(1) by (simp add: query_row_def put_vals_row)
  moreover have "query_table n (r'\<lparr>rs_row_count := int (length rows) + 1\<rparr>) names (rows @ [map cell_str vals])"
    using assms(1) r'(2-5) g(3,10) m by (auto simp: query_table_def rs_name_def)
  ultimately show ?thesis by blast
qed

lemma query_rows_ok:
  assumes "query_table n r names []" and "\<forall>vals \<in> set rows. length vals = n" and "rows \<noteq> [] \<longrightarrow> 0 < n"
  shows "\<exists>r'. foldR (query_row n) (zip [0..<length rows] rows) r = Inr r' \<and> query_table n r' names (map (map cell_str) rows)"
  using assms(2,3)
proof (induction rows rule: rev_induct)
  case Nil
  then show ?case using assms(1) by simp
next
  case (snoc vals rows)
  then obtain r1 where r1: "foldR (query_row n) (zip [0..<length rows] rows) r = Inr r1" "query_table n r1 names (map (map cell_str) rows)"
    by auto
  obtain r2 where "query_row n (length rows, vals) r1 = Inr r2" "query_table n r2 names (map (map cell_str) rows @ [map cell_str vals])"
    using query_row_ok [OF r1(2), of vals] snoc.prems by auto
  then show ?case using r1(1) by (simp add: foldR_append)
qed

lemma query_results_ok:
  assumes "sqlite_rows sqlite" and "wf_cstring sql" and "answer_of sqlite tables sql = (names, rows)" and "is_finite duration"
  shows "\<exists>r. query_results sqlite duration tables (Some (sql @ [0])) = Inr r \<and> holds_table r names rows \<and> is_finite (rs_exec_duration r)"
proof -
  have c: "cstr (sql @ [0]) = sql" using assms(2) cstr_append_NUL [of sql "[]"] by simp
  note i = results_init_empty
  have d0: "rs_exec_duration SOSA_results_init = Fin 0" by (simp add: SOSA_results_init_def SOSA_results_init_sized_def)
  show ?thesis
  proof (cases "sqlite tables sql")
    case None
    then have "holds_table SOSA_results_init names rows" using assms(3) i by (simp add: answer_of_def holds_table_def)
    then show ?thesis using None d0 by (simp add: query_results_def c is_finite_def)
  next
    case (Some res)
    obtain ns vs where s: "sqlite tables sql = Some (ns, vs)" using Some by (cases res) simp
    have n: "names = ns" "rows = map (map cell_str) vs" using assms(3) s by (simp_all add: answer_of_def)
    have w: "\<forall>v \<in> set vs. length v = length ns" "vs \<noteq> [] \<longrightarrow> 0 < length ns" using assms(1) s by (auto simp: sqlite_rows_def)
    let ?g = "SOSA_results_grow_to SOSA_results_init (int (length ns)) (rs_row_max SOSA_results_init)"
    let ?r = "?g\<lparr>rs_col_count := int (length ns)\<rparr>"
    note g = grow_to_ok [OF i(1), where c = "int (length ns)" and n = "rs_row_max SOSA_results_init"]
    have m: "int (length ns) \<le> rs_col_max ?r" using g(4) by simp
    have ok: "results_ok ?r" using g(1) m by (simp add: results_ok_def)
    obtain r1 where r1: "put_names ns ?r = Inr r1" "results_ok r1" "rs_name r1 = (\<lambda>j. if j < length ns then Some (ns ! j @ [0]) else rs_name ?r j)"
        "rs_row_count r1 = rs_row_count ?r" "rs_col_count r1 = rs_col_count ?r" "rs_col_max ?r \<le> rs_col_max r1"
      using put_names_ok [OF ok, of ns] m by auto
    have "query_table (length ns) r1 ns []" using r1 m g(11) i(2) by (auto simp: query_table_def filled_def)
    from query_rows_ok [OF this w] obtain r2 where r2: "foldR (query_row (length ns)) (zip [0..<length vs] vs) r1 = Inr r2"
        "query_table (length ns) r2 ns (map (map cell_str) vs)" by blast
    have "query_results sqlite duration tables (Some (sql @ [0])) = Inr (r2\<lparr>rs_exec_duration := duration\<rparr>)"
      using r1(1) r2(1) by (simp add: query_results_def c s Let_def grow_to_count)
    moreover have "holds_table r2 names rows" using r2(2) by (auto simp: n query_table_def filled_def holds_table_def)
    then have "holds_table (r2\<lparr>rs_exec_duration := duration\<rparr>) names rows" by (simp add: holds_table_irrelevant)
    ultimately show ?thesis using assms(4) by simp
  qed
qed

lemma take_tasks_ok:
  assumes "q_ok mincap (sd_db sd)" and "q_list (sd_db sd) \<noteq> []" and "length (q_list (sd_db sd)) \<le> 256"
  shows "\<exists>q. SOSD_db_sync_take mincap sd = Inr (sd\<lparr>sd_db := q\<rparr>, q_list (sd_db sd)) \<and> q_ok mincap q \<and> q_list q = []"
proof -
  let ?q = "sd_db sd" let ?ts = "q_list ?q"
  have q: "ring_ok mincap (qu_pipe ?q)" "pp_elem_size (qu_pipe ?q) = 1" "qu_elem_count ?q = int (length ?ts)" "\<not> qu_sync_lock ?q"
    using assms(1) by (auto simp: q_ok_def)
  have pos: "0 < length ?ts" using assms(2) by (simp del: length_pipe_content)
  obtain p where p: "pipe_pop_bytes mincap \<lparr>tk_type = 0, tk_ref = 0\<rparr> (qu_pipe ?q) (length ?ts) = Inr (p, ?ts)" "ring_ok mincap p"
      "pipe_content p = []" "pp_elem_size p = 1"
    using pipe_pop_ok [OF q(1) assms(2) pos, of "\<lparr>tk_type = 0, tk_ref = 0\<rparr>"] q(2) by auto
  let ?q' = "?q\<lparr>qu_pipe := p, qu_elem_count := 0, qu_sync_lock := False\<rparr>"
  have "q_ok mincap ?q'" using p(2-4) by (simp add: q_ok_def flip: length_pipe_content)
  moreover have depth: "(if qu_elem_count ?q < 256 then qu_elem_count ?q else 256) = int (length ?ts)"
    using assms(3) unfolding q(3) by simp
  moreover have "SOSD_db_sync_take mincap sd = Inr (sd\<lparr>sd_db := ?q'\<rparr>, ?ts)"
    unfolding SOSD_db_sync_take_def Let_def depth using q pos p(1) assms(2) by (simp add: pipe_pop_eager_def del: length_pipe_content)
  ultimately show ?thesis using p(3) by (intro exI [of _ ?q']) simp
qed

text \<open>Tasks that are not queries leave the queues alone.\<close>

definition not_query :: "SOSD_db_task \<Rightarrow> bool" where
  "not_query task \<longleftrightarrow> enum_decode SOS_msg_type_vals (tk_type task) \<noteq> Some SOS_MSG_TYPE_QUERY"

lemma db_task_elsewhere:
  assumes "not_query task" and "db_task mincap update_frame clock sqlite (k, task) (sd, db) = Inr (sd', db')"
  shows "db_task mincap update_frame clock sqlite (k, task) (sd\<lparr>sd_db := d, sd_queries := qs\<rparr>, db) = Inr (sd'\<lparr>sd_db := d, sd_queries := qs\<rparr>, db') \<and>
    sd_feedback sd' = sd_feedback sd"
proof -
  have p: "pub_ref (sd\<lparr>sd_db := d, sd_queries := qs\<rparr>) a = pub_ref sd a" for a by (simp add: pub_ref_def)
  let ?t = "enum_decode SOS_msg_type_vals (tk_type task)"
  consider "?t = Some SOS_MSG_TYPE_ANNOUNCE" | "?t = Some SOS_MSG_TYPE_PUBLISH" | "?t = Some SOS_MSG_TYPE_VAL_SNAPS"
    | "?t \<notin> Some ` {SOS_MSG_TYPE_ANNOUNCE, SOS_MSG_TYPE_PUBLISH, SOS_MSG_TYPE_VAL_SNAPS, SOS_MSG_TYPE_QUERY}"
    using assms(1) unfolding not_query_def by blast
  then show ?thesis
  proof cases
    case 1
    then obtain pub where "pub_ref sd (tk_ref task) = Inr pub" "SOSD_db_insert_pub pub db = Inr db'" "sd' = sd"
      using assms(2) by (auto simp: db_task_def bindR_Inr_iff)
    then show ?thesis using 1 by (simp add: db_task_def p)
  next
    case 2
    then obtain pub pub' where "pub_ref sd (tk_ref task) = Inr pub" "SOSD_db_insert_data pub db = Inr (pub', db')" "sd' = pub_store (tk_ref task) pub' sd"
      using assms(2) by (auto simp: db_task_def bindR_Inr_iff)
    then show ?thesis using 2 by (simp add: db_task_def p pub_store_def)
  next
    case 3
    then obtain q where "SOSD_db_insert_vals mincap update_frame (clock k) (sd_snap_queue sd) db = Inr (q, db')" "sd' = sd\<lparr>sd_snap_queue := q\<rparr>"
      using assms(2) by (auto simp: db_task_def bindR_Inr_iff)
    then show ?thesis using 3 by (simp add: db_task_def)
  next
    case 4
    then show ?thesis using assms(2) by (auto simp: db_task_def split: option.splits SOS_msg_type.splits)
  qed
qed

lemma db_tasks_elsewhere:
  assumes "\<forall>task \<in> set (map snd tasks). not_query task"
    and "foldR (db_task mincap update_frame clock sqlite) tasks (sd, db) = Inr (sd', db')"
  shows "foldR (db_task mincap update_frame clock sqlite) tasks (sd\<lparr>sd_db := d, sd_queries := qs\<rparr>, db) = Inr (sd'\<lparr>sd_db := d, sd_queries := qs\<rparr>, db') \<and>
    sd_feedback sd' = sd_feedback sd"
  using assms
proof (induction tasks arbitrary: sd db)
  case Nil
  then show ?case by simp
next
  case (Cons x tasks)
  obtain k task where x: "x = (k, task)" by (cases x)
  from Cons.prems(2) obtain sd1 db1 where 1: "db_task mincap update_frame clock sqlite (k, task) (sd, db) = Inr (sd1, db1)"
      "foldR (db_task mincap update_frame clock sqlite) tasks (sd1, db1) = Inr (sd', db')"
    by (auto simp: x bindR_Inr_iff)
  have "not_query task" using Cons.prems(1) x by simp
  from db_task_elsewhere [OF this 1(1), where d = d and qs = qs] Cons.IH [OF _ 1(2)] Cons.prems(1)
  show ?case by (simp add: x)
qed

lemma query_round_ok:
  assumes "sd_queries sd = qs @ [new_query_handle h (Some host) port (Some (sql @ [0])) g]"
    and "q_ok mincap (sd_feedback sd)" and "length (q_list (sd_feedback sd)) + 2 \<le> mincap"
    and "sqlite_rows sqlite" and "wf_cstring sql" and "answer_of sqlite (db_tables db) sql = (names, rows)" and "is_finite (clock k 0)"
  shows "\<exists>handle table q. db_task mincap update_frame clock sqlite (k, query_task (length qs)) (sd, db) = Inr (sd\<lparr>sd_feedback := q, sd_queries := qs @ [handle]\<rparr>, db) \<and>
    q_ok mincap q \<and> q_list q = q_list (sd_feedback sd) @ [Feedback_Query handle] \<and> task_answer (Feedback_Query handle) = Some (Some host, port, table) \<and>
    holds_table table names rows \<and> rs_query_sql table = Some (sql @ [0]) \<and> rs_query_guid table = g \<and> is_finite (rs_exec_duration table)"
proof -
  let ?h = "new_query_handle h (Some host) port (Some (sql @ [0])) g"
  have c: "cstr (sql @ [0]) = sql" using assms(5) cstr_append_NUL [of sql "[]"] by simp
  obtain r where r: "query_results sqlite (clock k 0) (db_tables db) (Some (sql @ [0])) = Inr r" "holds_table r names rows" "is_finite (rs_exec_duration r)"
    using query_results_ok [OF assms(4-7)] by blast
  let ?t = "SOSA_results_label r g (Some sql)"
  let ?h' = "?h\<lparr>qh_results := Some ?t\<rparr>"
  obtain q where q: "queue_put mincap (Feedback_Query ?h') (sd_feedback sd) = Inr q" "q_ok mincap q" "q_list q = q_list (sd_feedback sd) @ [Feedback_Query ?h']"
    using queue_put_ok [OF assms(2,3)] by blast
  have "SOSD_db_handle_sosa_query mincap sqlite (clock k 0) (db_tables db) ?h (sd_feedback sd) = Inr (?h', q)"
    using r(1) q(1) by (simp add: SOSD_db_handle_sosa_query_def new_query_handle_def c)
  then have "db_task mincap update_frame clock sqlite (k, query_task (length qs)) (sd, db) = Inr (sd\<lparr>sd_feedback := q, sd_queries := qs @ [?h']\<rparr>, db)"
    using assms(1) by (simp add: db_task_def query_task_def SOS_msg_type_enum.decode_code)
  moreover have "holds_table ?t names rows" using r(2) by (simp add: holds_table_irrelevant)
  moreover have "task_answer (Feedback_Query ?h') = Some (Some host, port, ?t)" by (simp add: new_query_handle_def)
  moreover have "rs_query_sql ?t = Some (sql @ [0])" "rs_query_guid ?t = g" "is_finite (rs_exec_duration ?t)"
    using r(3) by (simp_all add: SOSA_results_label_def)
  ultimately show ?thesis using q(2,3) by blast
qed

section \<open>The whole way\<close>


subsection \<open>Example\<close>

text \<open>A store that answers every query with the values it has; one snapshot waits to be stored before the query.\<close>

definition example_sqlite :: sqlite where
  "example_sqlite tables sql = Some ([str ''val''], map (\<lambda>row. [Some (vr_val row)]) (tb_vals tables))"

definition example_task :: SOSD_db_task where
  "example_task = \<lparr>tk_type = enum_code SOS_msg_type_vals SOS_MSG_TYPE_VAL_SNAPS, tk_ref = 0\<rparr>"

lemma example_waiting:
  obtains sd db db' sd' where "\<not> sd_shutdown sd" and "q_ok 5 (sd_feedback sd)" and "q_list (sd_feedback sd) = []" and "q_ok 5 (sd_db sd)"
    and "q_list (sd_db sd) = [example_task]" and "pipe_content (sq_pipe (sd_snap_queue sd)) = [example_snap]" and "db_ready db = 1" and "\<not> db_lock db"
    and "foldR (db_task 5 True (\<lambda>_ _. Fin 9) example_sqlite) (zip [0..<length [example_task]] [example_task]) (sd, db\<lparr>db_lock := True\<rparr>) = Inr (sd', db')"
    and "answer_of example_sqlite (db_tables db') [120] = ([str ''val''], [[[50, 49]]])" and "tb_vals (db_tables db) = []"
proof -
  obtain sd0 where sd0: "SOSD_init 5 4 0 = Inr sd0" "\<not> sd_shutdown sd0" "q_ok 5 (sd_feedback sd0)" "q_list (sd_feedback sd0) = []" "q_ok 5 (sd_db sd0)" "q_list (sd_db sd0) = []"
    using SOSD_init_ok [of 5 4 0] by (auto simp: daemon_ok_def)
  have "length (q_list (sd_db sd0)) + 2 \<le> 5" using sd0(6) by simp
  from queue_put_ok [OF sd0(5) this, of example_task] obtain d where d: "q_ok 5 d" "q_list d = [example_task]" using sd0(6) by auto
  obtain q q0 where q: "queue_ok 5 q" "pipe_content (sq_pipe q) = [example_snap]" by (rule example_queue)
  let ?sd = "sd0\<lparr>sd_db := d, sd_snap_queue := q\<rparr>"
  obtain db where db: "db_ok db" "db_tables db = \<lparr>tb_pubs = [], tb_data = [], tb_vals = []\<rparr>" "\<not> db_lock db" "db_ready db = 1"
    using SOSD_db_init_ok by blast
  have locked: "db_ok (db\<lparr>db_lock := True\<rparr>)" using db(1) by (simp add: db_ok_def)
  have st: "\<forall>snap \<in> set (pipe_content (sq_pipe q)). storable snap" using example_storable by (simp add: q(2))
  obtain q' db' rows where r: "SOSD_db_insert_vals 5 True (\<lambda>_. Fin 9) q (db\<lparr>db_lock := True\<rparr>) = Inr (q', db')" "length rows = length [example_snap]"
      "\<forall>i < length [example_snap]. stored_as (Fin 9) ([example_snap] ! i) (rows ! i)" "tb_vals (db_tables db') = rows"
  proof -
    from SOSD_db_insert_vals_ok [OF q(1) locked st, of True "\<lambda>_. Fin 9", unfolded q(2)] db(2) that show ?thesis by auto
  qed
  then obtain row where row: "rows = [row]" by (cases rows) auto
  have v: "vr_val row = [50, 49]" using r(3) row by (simp add: stored_as_def example_stored)
  have f: "foldR (db_task 5 True (\<lambda>_ _. Fin 9) example_sqlite) (zip [0..<length [example_task]] [example_task]) (?sd, db\<lparr>db_lock := True\<rparr>) = Inr (?sd\<lparr>sd_snap_queue := q'\<rparr>, db')"
    using r(1) by (simp add: db_task_def example_task_def SOS_msg_type_enum.decode_code)
  show ?thesis
    by (rule that [of ?sd db "?sd\<lparr>sd_snap_queue := q'\<rparr>" db'])
      (use sd0 d q(2) db f r(4) row v in \<open>simp_all add: answer_of_def example_sqlite_def cell_str_def\<close>)
qed


end
