(* ===== verification/SOS_Options.thy ===== *)
theory SOS_Options
  imports SOS_Daemon "HOL-Library.Multiset"
begin

text \<open>
  What a run is told from outside: the environment variables (\<open>sos_options.c\<close>), the command line of the daemon
  (\<open>main\<close> of \<open>sosd.c\<close>), and the helpers for strings of \<open>sos.c\<close> they are read with.

  The environment is a map from names to strings. \<open>getenv\<close> returns a pointer into it, and the tests for a switch turn the
  string to upper case in place, so reading a switch changes the environment: the operations return it.

  \<open>options_ignore_case\<close> shows what follows: the options do not depend on the case of the switches, are the same when they
  are read again, and a disabled database switches off what depends on it. \<open>daemon_arguments\<close> states what a command line
  means, in any order of its parts. \<open>uint64_to_str_one_digit\<close> is the helper for long numbers, which loses all digits but
  the first.
\<close>

section \<open>Strings\<close>

definition toupper :: "byte \<Rightarrow> byte" where
  "toupper c = (if 97 \<le> c \<and> c \<le> 122 then c - 32 else c)"

definition SOS_str_to_upper :: "cstring \<Rightarrow> cstring" where
  "SOS_str_to_upper s = map toupper s"

text \<open>Both tests return the string they were given, in upper case; without a string they say no.\<close>

definition SOS_str_opt_is_enabled :: "cstring option \<Rightarrow> bool \<times> cstring option" where
  "SOS_str_opt_is_enabled mutable_str =
     (case mutable_str of
        None \<Rightarrow> (False, None)
      | Some s \<Rightarrow>
          let opt_str = SOS_str_to_upper s
          in (opt_str \<in> set (map str [''1'', ''TRUE'', ''YES'', ''ENABLED'', ''VERBOSE'', ''ON'']), Some opt_str))"

definition SOS_str_opt_is_disabled :: "cstring option \<Rightarrow> bool \<times> cstring option" where
  "SOS_str_opt_is_disabled mutable_str =
     (case mutable_str of
        None \<Rightarrow> (False, None)
      | Some s \<Rightarrow>
          let opt_str = SOS_str_to_upper s
          in (opt_str \<in> set (map str [''0'', ''-1'', ''FALSE'', ''NO'', ''DISABLED'', ''OFF'']), Some opt_str))"

text \<open>A quote becomes an apostrophe, and what is not printable (\<open>char\<close> is signed) a hash.\<close>

definition SOS_str_strip_ext :: "cstring \<Rightarrow> cstring" where
  "SOS_str_strip_ext s = map (\<lambda>c. let c = (if c = 34 then 39 else c) in if sint c < 32 \<or> 126 < sint c then 35 else c) s"

text \<open>
  \<open>atoi\<close>: white space, a sign, digits; a number beyond \<open>long\<close> is cut to it, and the low 32 bits are the \<open>int\<close>.
\<close>

definition is_blank :: "byte \<Rightarrow> bool" where
  "is_blank c \<longleftrightarrow> c = 32 \<or> 9 \<le> c \<and> c \<le> 13"

fun digits_value :: "int \<Rightarrow> cstring \<Rightarrow> int" where
  "digits_value acc [] = acc"
| "digits_value acc (c # cs) = (if 48 \<le> c \<and> c \<le> 57 then digits_value (acc * 10 + (uint c - 48)) cs else acc)"

definition strtol :: "cstring \<Rightarrow> int" where
  "strtol s =
     (let s = dropWhile is_blank s;
          v = (case s of [] \<Rightarrow> 0
               | c # cs \<Rightarrow> if c = 45 then - digits_value 0 cs else if c = 43 then digits_value 0 cs else digits_value 0 s)
      in max (- (2 ^ 63)) (min (2 ^ 63 - 1) v))"

definition atoi :: "cstring \<Rightarrow> i32" where
  "atoi s = word_of_int (strtol s)"

text \<open>
  \<open>SOS_uint64_to_str\<close> writes a number with commas into \<open>result\<close>. The index \<open>i2\<close> of the place it writes to is computed
  from \<open>i\<close> while that is still zero. An index below zero is outside the array.
\<close>

definition put_char :: "int \<Rightarrow> byte \<Rightarrow> byte list \<Rightarrow> byte list res" where
  "put_char i c result = checkR (0 \<le> i \<and> i < int (length result)) Out_Of_Bounds (Inr (result[nat i := c]))"

fun comma_loop :: "nat \<Rightarrow> int \<Rightarrow> nat \<Rightarrow> byte list \<Rightarrow> byte list res" where
  "comma_loop 0 i2 c result = Inr result"
| "comma_loop (Suc i) i2 c result =
     bindR (put_char i2 (result ! Suc i) result) (\<lambda>result.
     if (c + 1) mod 3 = 0 then bindR (put_char (i2 - 1) 44 result) (\<lambda>result. comma_loop i (i2 - 2) (c + 1) result)
     else comma_loop i (i2 - 1) (c + 1) result)"

definition SOS_uint64_to_str :: "u64 \<Rightarrow> byte list \<Rightarrow> nat \<Rightarrow> byte list res" where
  "SOS_uint64_to_str val result result_len =
     (if result_len < 128
      then if result_len = 0 then Inr result else mem_write 0 (take (result_len - 1) (str ''ERROR: result buffer < 128'') @ [0]) result
      else
        bindR (mem_write 0 (guid_str val @ [0]) result) (\<lambda>result.
        let i = 0; i2 = i + i div 3
        in bindR (put_char (int i2 + 1) 0 result) (\<lambda>result.
           comma_loop (length (cstr result) - 1) (int i2) 0 result)))"

section \<open>Options from the environment\<close>

type_synonym environment = "string \<Rightarrow> cstring option"

definition env_enabled :: "string \<Rightarrow> environment \<Rightarrow> bool \<times> environment" where
  "env_enabled name env = (let (b, v) = SOS_str_opt_is_enabled (env name) in (b, env(name := v)))"

definition env_disabled :: "string \<Rightarrow> environment \<Rightarrow> bool \<times> environment" where
  "env_disabled name env = (let (b, v) = SOS_str_opt_is_disabled (env name) in (b, env(name := v)))"

record SOS_options =
  op_role :: SOS_role
  op_options_file :: "cstring option"
  op_options_class :: "cstring option"
  op_listener_port :: i32
  op_listener_count :: i32
  op_aggregator_count :: i32
  op_build_dir :: "cstring option"
  op_install_dir :: "cstring option"
  op_source_dir :: "cstring option"
  op_project_dir :: "cstring option"
  op_work_dir :: "cstring option"
  op_discovery_dir :: "cstring option"
  op_db_disabled :: bool
  op_db_in_memory_only :: bool
  op_db_export_at_exit :: bool
  op_db_export_verbose :: bool
  op_db_update_frame :: bool
  op_db_frame_limit :: i32
  op_pub_cache_depth :: i32
  op_batch_environment :: bool
  op_udp_enabled :: bool
  op_fwd_shutdown_to_agg :: bool
  op_system_monitor_enabled :: bool
  op_system_monitor_freq_usec :: i32

text \<open>
  The parts of \<open>SOS_options_load_evar\<close> that set more than a switch. The comparison with \<open>VERBOSE\<close> reads the variable that
  has just been found, in upper case.
\<close>

definition load_export :: "SOS_options \<Rightarrow> environment \<Rightarrow> SOS_options \<times> environment" where
  "load_export opt env =
     (let (b, env) = env_enabled ''SOS_EXPORT_DB_AT_EXIT'' env
      in (if b then opt\<lparr>op_db_export_at_exit := True, op_db_export_verbose := (env ''SOS_EXPORT_DB_AT_EXIT'' = Some (str ''VERBOSE''))\<rparr>
          else opt\<lparr>op_db_export_at_exit := False\<rparr>, env))"

definition load_db_disabled :: "SOS_options \<Rightarrow> environment \<Rightarrow> SOS_options \<times> environment" where
  "load_db_disabled opt env =
     (let (b, env) = env_enabled ''SOS_DB_DISABLED'' env
      in (if b then opt\<lparr>op_db_disabled := True, op_db_export_verbose := False, op_db_export_at_exit := False, op_db_in_memory_only := False,
                       op_db_update_frame := False\<rparr>
          else opt\<lparr>op_db_disabled := False\<rparr>, env))"

definition load_cache_depth :: "environment \<Rightarrow> i32" where
  "load_cache_depth env =
     (case env ''SOS_PUB_CACHE_DEPTH'' of None \<Rightarrow> 0 | Some v \<Rightarrow> if sint (atoi v) < 0 then 0 else atoi v)"

definition load_monitor :: "SOS_options \<Rightarrow> environment \<Rightarrow> SOS_options \<times> environment" where
  "load_monitor opt env =
     (let (b, env) = env_enabled ''SOS_SYSTEM_MONITOR_ENABLED'' env
      in (if b then opt\<lparr>op_system_monitor_enabled := True,
                       op_system_monitor_freq_usec := (case env ''SOS_SYSTEM_MONITOR_FREQ_USEC'' of None \<Rightarrow> 1000000 | Some v \<Rightarrow> atoi v)\<rparr>
          else opt\<lparr>op_system_monitor_enabled := False, op_system_monitor_freq_usec := - 1\<rparr>, env))"

definition SOS_options_load_evar :: "SOS_options \<Rightarrow> environment \<Rightarrow> SOS_options \<times> environment" where
  "SOS_options_load_evar opt env =
     (let (b, env) = env_enabled ''SOS_BATCH_ENVIRONMENT'' env;
          opt = opt\<lparr>op_batch_environment := b\<rparr>;
          (b, env) = env_enabled ''SOS_FWD_SHUTDOWN_TO_AGG'' env;
          opt = opt\<lparr>op_fwd_shutdown_to_agg := b\<rparr>;
          opt = opt\<lparr>op_discovery_dir := env ''SOS_DISCOVERY_DIR''\<rparr>;
          (b, env) = env_enabled ''SOS_IN_MEMORY_DATABASE'' env;
          opt = opt\<lparr>op_db_in_memory_only := b\<rparr>;
          (opt, env) = load_export opt env;
          (b, env) = env_disabled ''SOS_UPDATE_LATEST_FRAME'' env;
          opt = opt\<lparr>op_db_update_frame := \<not> b\<rparr>;
          (opt, env) = load_db_disabled opt env;
          opt = opt\<lparr>op_pub_cache_depth := load_cache_depth env\<rparr>;
          (b, env) = env_enabled ''SOS_UDP_ENABLED'' env;
          opt = opt\<lparr>op_udp_enabled := b\<rparr>
      in load_monitor opt env)"

text \<open>The file of options is looked for and not read, and the command line is not either.\<close>

definition SOS_options_load_file :: "SOS_options \<Rightarrow> SOS_options" where
  "SOS_options_load_file opt = opt"

definition SOS_options_load_argv :: "SOS_options \<Rightarrow> SOS_options" where
  "SOS_options_load_argv opt = opt"

definition SOS_options_init :: "SOS_role \<Rightarrow> cstring option \<Rightarrow> cstring option \<Rightarrow> environment \<Rightarrow> SOS_options \<times> environment" where
  "SOS_options_init role options_file options_class env =
     (let opt = \<lparr>op_role = role, op_options_file = options_file, op_options_class = options_class, op_listener_port = - 999,
           op_listener_count = - 999, op_aggregator_count = - 999, op_build_dir = None, op_install_dir = None, op_source_dir = None,
           op_project_dir = None, op_work_dir = None, op_discovery_dir = None, op_db_disabled = False, op_db_in_memory_only = False,
           op_db_export_at_exit = False, op_db_export_verbose = False, op_db_update_frame = True, op_db_frame_limit = 0,
           op_pub_cache_depth = 0, op_batch_environment = False, op_udp_enabled = False, op_fwd_shutdown_to_agg = False,
           op_system_monitor_enabled = False, op_system_monitor_freq_usec = - 1\<rparr>;
          opt = (case options_file of Some f \<Rightarrow> if 0 < length f then SOS_options_load_file opt else opt | None \<Rightarrow> opt);
          (opt, env) = SOS_options_load_evar opt env
      in (SOS_options_load_argv opt, env))"

section \<open>The command line of the daemon\<close>

text \<open>The part of the state that \<open>main\<close> sets from its arguments. The two counts are in static memory and start at zero.\<close>

record SOSD_args =
  ag_listener_count :: i32
  ag_aggregator_count :: i32
  ag_options_file :: "cstring option"
  ag_options_class :: "cstring option"
  ag_work_dir :: cstring
  ag_rank :: i32
  ag_role :: SOS_role

definition SOSD_set_role :: "cstring \<Rightarrow> SOSD_args \<Rightarrow> SOSD_args res" where
  "SOSD_set_role v a =
     (if v = str ''listener'' then Inr (a\<lparr>ag_role := SOS_ROLE_LISTENER\<rparr>)
      else if v = str ''aggregator'' then Inr (a\<lparr>ag_role := SOS_ROLE_AGGREGATOR\<rparr>)
      else Inl Exit_Failure)"

text \<open>One flag with its value. An unknown flag is named in a warning and skipped.\<close>

definition SOSD_set_arg :: "cstring \<Rightarrow> cstring \<Rightarrow> SOSD_args \<Rightarrow> SOSD_args res" where
  "SOSD_set_arg flag v a =
     (if flag = str ''--listeners'' \<or> flag = str ''-l'' then Inr (a\<lparr>ag_listener_count := atoi v\<rparr>)
      else if flag = str ''--aggregators'' \<or> flag = str ''-a'' then Inr (a\<lparr>ag_aggregator_count := atoi v\<rparr>)
      else if flag = str ''--options_file'' \<or> flag = str ''-o'' then Inr (a\<lparr>ag_options_file := Some v\<rparr>)
      else if flag = str ''--options_class'' \<or> flag = str ''-c'' then Inr (a\<lparr>ag_options_class := Some v\<rparr>)
      else if flag = str ''--work_dir'' \<or> flag = str ''-w'' then Inr (a\<lparr>ag_work_dir := v\<rparr>)
      else if flag = str ''--rank'' \<or> flag = str ''-k'' then Inr (a\<lparr>ag_rank := atoi v\<rparr>)
      else if flag = str ''--role'' \<or> flag = str ''-r'' then SOSD_set_role v a
      else Inr a)"

fun SOSD_arg_loop :: "cstring list \<Rightarrow> SOSD_args \<Rightarrow> SOSD_args res" where
  "SOSD_arg_loop [] a = Inr a"
| "SOSD_arg_loop [_] a = Inl Exit_Failure"
| "SOSD_arg_loop (flag # v # rest) a = bindR (SOSD_set_arg flag v a) (SOSD_arg_loop rest)"

text \<open>
  The port comes from the environment; its array has 32 places, and what fills them all has no end. With no aggregators
  the listeners become aggregators. \<open>args\<close> are the arguments behind the name of the program, \<open>cwd\<close> the directory it was
  started in.
\<close>

definition SOSD_port :: "environment \<Rightarrow> i32 res" where
  "SOSD_port env =
     (case env ''SOS_CMD_PORT'' of
        None \<Rightarrow> Inr (atoi (str ''22500''))
      | Some p \<Rightarrow> if length p < 2 then Inr (atoi (str ''22500'')) else checkR (length p < 32) Out_Of_Bounds (Inr (atoi p)))"

definition SOSD_main_args :: "environment \<Rightarrow> cstring \<Rightarrow> cstring list \<Rightarrow> (SOSD_args \<times> i32) res" where
  "SOSD_main_args env cwd args =
     bindR (SOSD_port env) (\<lambda>port.
     checkR (4 \<le> length args) Exit_Failure
       (bindR (SOSD_arg_loop args \<lparr>ag_listener_count = 0, ag_aggregator_count = 0, ag_options_file = env ''SOS_OPTIONS_FILE'',
            ag_options_class = env ''SOS_OPTIONS_CLASS'', ag_work_dir = cwd, ag_rank = - 1, ag_role = SOS_ROLE_UNASSIGNED\<rparr>) (\<lambda>a.
        checkR (\<not> (sint port < 1 \<and> ag_role a = SOS_ROLE_UNASSIGNED)) Exit_Failure
          (checkR (ag_role a \<noteq> SOS_ROLE_UNASSIGNED) Exit_Failure
             (checkR (0 \<le> sint (ag_rank a)) Exit_Failure
                (Inr (if 0 < sint (ag_listener_count a) \<and> ag_aggregator_count a = 0
                      then a\<lparr>ag_aggregator_count := ag_listener_count a, ag_listener_count := 0, ag_role := SOS_ROLE_AGGREGATOR\<rparr>
                      else a, port)))))))"

section \<open>Case does not matter\<close>

lemma toupper_cases: "97 \<le> c \<and> c \<le> 122 \<and> unat (toupper c) + 32 = unat c \<and> 65 \<le> unat (toupper c) \<and> unat (toupper c) \<le> 90 \<or> toupper c = c \<and> \<not> (97 \<le> c \<and> c \<le> 122)"
proof (cases "97 \<le> c \<and> c \<le> 122")
  case True
  then have "unat (c - 32) = unat c - 32" using unat_sub [of 32 c] by (simp add: word_le_nat_alt)
  then show ?thesis using True by (auto simp: toupper_def word_le_nat_alt)
qed (auto simp: toupper_def)

lemma toupper_toupper [simp]: "toupper (toupper c) = toupper c"
  using toupper_cases [of c] toupper_cases [of "toupper c"] by (auto simp: word_le_nat_alt)

lemma toupper_keeps:
  "is_blank (toupper c) = is_blank c" "toupper c = 45 \<longleftrightarrow> c = 45" "toupper c = 43 \<longleftrightarrow> c = 43"
  "48 \<le> toupper c \<and> toupper c \<le> 57 \<longleftrightarrow> 48 \<le> c \<and> c \<le> 57"
  using toupper_cases [of c] by (auto simp: is_blank_def word_le_nat_alt word_unat_eq_iff)

lemma toupper_digit: "48 \<le> c \<Longrightarrow> c \<le> 57 \<Longrightarrow> toupper c = c"
  using toupper_cases [of c] by (auto simp: word_le_nat_alt)

lemma digits_value_upper: "digits_value acc (map toupper s) = digits_value acc s"
  by (induction s arbitrary: acc) (auto simp: toupper_keeps toupper_digit)

lemma atoi_upper: "atoi (SOS_str_to_upper s) = atoi s"
proof -
  have d: "dropWhile is_blank (map toupper s) = map toupper (dropWhile is_blank s)"
    by (simp add: dropWhile_map comp_def toupper_keeps)
  have "(case map toupper t of [] \<Rightarrow> 0 | c # cs \<Rightarrow> if c = 45 then - digits_value 0 cs else if c = 43 then digits_value 0 cs else digits_value 0 (map toupper t)) =
      (case t of [] \<Rightarrow> 0 | c # cs \<Rightarrow> if c = 45 then - digits_value 0 cs else if c = 43 then digits_value 0 cs else digits_value 0 t)" for t
    using digits_value_upper [of 0 t] by (cases t) (simp_all add: toupper_keeps digits_value_upper del: digits_value.simps)
  then have "strtol (map toupper s) = strtol s" unfolding strtol_def d Let_def by simp
  then show ?thesis by (simp add: atoi_def SOS_str_to_upper_def)
qed

lemma upper_upper [simp]: "SOS_str_to_upper (SOS_str_to_upper s) = SOS_str_to_upper s"
  by (simp add: SOS_str_to_upper_def)

text \<open>What the switches mean, and what reading them leaves of the environment.\<close>

definition in_upper :: "environment \<Rightarrow> environment" where
  "in_upper env = (\<lambda>x. map_option SOS_str_to_upper (env x))"

definition switched_on :: "environment \<Rightarrow> string \<Rightarrow> bool" where
  "switched_on env x \<longleftrightarrow> in_upper env x \<in> (Some \<circ> str) ` {''1'', ''TRUE'', ''YES'', ''ENABLED'', ''VERBOSE'', ''ON''}"

definition switched_off :: "environment \<Rightarrow> string \<Rightarrow> bool" where
  "switched_off env x \<longleftrightarrow> in_upper env x \<in> (Some \<circ> str) ` {''0'', ''-1'', ''FALSE'', ''NO'', ''DISABLED'', ''OFF''}"

lemma env_enabled_eq: "env_enabled x env = (switched_on env x, env(x := in_upper env x))"
  by (cases "env x") (auto simp: env_enabled_def SOS_str_opt_is_enabled_def switched_on_def in_upper_def Let_def)

lemma env_disabled_eq: "env_disabled x env = (switched_off env x, env(x := in_upper env x))"
  by (cases "env x") (auto simp: env_disabled_def SOS_str_opt_is_disabled_def switched_off_def in_upper_def Let_def)

lemma in_upper_upd [simp]: "in_upper (env(x := in_upper env x)) = in_upper env"
  by (auto simp: in_upper_def option.map_comp comp_def)

lemma switched_upd [simp]:
  "switched_on (env(x := in_upper env x)) = switched_on env" "switched_off (env(x := in_upper env x)) = switched_off env"
  by (auto simp: switched_on_def switched_off_def)

text \<open>The options, written out.\<close>

definition options_of :: "environment \<Rightarrow> SOS_options \<Rightarrow> SOS_options" where
  "options_of env opt =
     (let on = switched_on env; db = \<not> on ''SOS_DB_DISABLED''; export = on ''SOS_EXPORT_DB_AT_EXIT''
      in opt\<lparr>op_discovery_dir := env ''SOS_DISCOVERY_DIR'', op_db_disabled := \<not> db,
           op_db_in_memory_only := db \<and> on ''SOS_IN_MEMORY_DATABASE'', op_db_export_at_exit := db \<and> export,
           op_db_export_verbose := db \<and> (if export then in_upper env ''SOS_EXPORT_DB_AT_EXIT'' = Some (str ''VERBOSE'') else op_db_export_verbose opt),
           op_db_update_frame := db \<and> \<not> switched_off env ''SOS_UPDATE_LATEST_FRAME'', op_pub_cache_depth := load_cache_depth env,
           op_batch_environment := on ''SOS_BATCH_ENVIRONMENT'', op_udp_enabled := on ''SOS_UDP_ENABLED'',
           op_fwd_shutdown_to_agg := on ''SOS_FWD_SHUTDOWN_TO_AGG'', op_system_monitor_enabled := on ''SOS_SYSTEM_MONITOR_ENABLED'',
           op_system_monitor_freq_usec :=
             (if on ''SOS_SYSTEM_MONITOR_ENABLED'' then case env ''SOS_SYSTEM_MONITOR_FREQ_USEC'' of None \<Rightarrow> 1000000 | Some v \<Rightarrow> atoi v else - 1)\<rparr>)"

definition switches :: "string set" where
  "switches = {''SOS_BATCH_ENVIRONMENT'', ''SOS_FWD_SHUTDOWN_TO_AGG'', ''SOS_IN_MEMORY_DATABASE'', ''SOS_EXPORT_DB_AT_EXIT'',
     ''SOS_UPDATE_LATEST_FRAME'', ''SOS_DB_DISABLED'', ''SOS_UDP_ENABLED'', ''SOS_SYSTEM_MONITOR_ENABLED''}"

lemma load_evar_eq:
  "SOS_options_load_evar opt env = (options_of env opt, \<lambda>x. if x \<in> switches then in_upper env x else env x)"
proof -
  have up: "in_upper (env(x := in_upper env x, y := in_upper env y)) = in_upper env" for x y by (auto simp: in_upper_def option.map_comp comp_def)
  show ?thesis
    unfolding SOS_options_load_evar_def load_export_def load_db_disabled_def load_monitor_def env_enabled_eq env_disabled_eq Let_def prod.case
      in_upper_upd switched_upd
    by (cases "switched_on env ''SOS_EXPORT_DB_AT_EXIT''"; cases "switched_on env ''SOS_DB_DISABLED''"; cases "switched_on env ''SOS_SYSTEM_MONITOR_ENABLED''")
      (simp_all add: options_of_def load_cache_depth_def switches_def fun_eq_iff Let_def)
qed


lemma options_init_eq:
  "\<exists>opt. op_db_export_verbose opt = False \<and>
     (\<forall>env. SOS_options_init role options_file options_class env =
        (options_of env opt, \<lambda>x. if x \<in> switches then in_upper env x else env x))"
  by (rule exI [of _ "\<lparr>op_role = role, op_options_file = options_file, op_options_class = options_class, op_listener_port = - 999,
           op_listener_count = - 999, op_aggregator_count = - 999, op_build_dir = None, op_install_dir = None, op_source_dir = None,
           op_project_dir = None, op_work_dir = None, op_discovery_dir = None, op_db_disabled = False, op_db_in_memory_only = False,
           op_db_export_at_exit = False, op_db_export_verbose = False, op_db_update_frame = True, op_db_frame_limit = 0,
           op_pub_cache_depth = 0, op_batch_environment = False, op_udp_enabled = False, op_fwd_shutdown_to_agg = False,
           op_system_monitor_enabled = False, op_system_monitor_freq_usec = - 1\<rparr>"])
    (simp add: SOS_options_init_def load_evar_eq SOS_options_load_file_def SOS_options_load_argv_def Let_def split: option.split)

lemma options_of_cong:
  assumes "in_upper env = in_upper env'" and "env ''SOS_DISCOVERY_DIR'' = env' ''SOS_DISCOVERY_DIR''"
  shows "options_of env = options_of env'"
proof -
  have on: "switched_on env = switched_on env'" "switched_off env = switched_off env'"
    using assms(1) by (simp_all add: switched_on_def switched_off_def fun_eq_iff)
  have num: "map_option atoi (env x) = map_option atoi (env' x)" for x
  proof -
    have "map_option atoi (in_upper env x) = map_option atoi (in_upper env' x)" by (simp add: assms(1))
    then show ?thesis by (simp add: in_upper_def option.map_comp comp_def atoi_upper)
  qed
  have cd: "load_cache_depth env = load_cache_depth env'"
    using num [of "''SOS_PUB_CACHE_DEPTH''"] unfolding load_cache_depth_def
    by (cases "env ''SOS_PUB_CACHE_DEPTH''"; cases "env' ''SOS_PUB_CACHE_DEPTH''") simp_all
  have fr: "(case env ''SOS_SYSTEM_MONITOR_FREQ_USEC'' of None \<Rightarrow> 1000000 | Some v \<Rightarrow> atoi v) =
      (case env' ''SOS_SYSTEM_MONITOR_FREQ_USEC'' of None \<Rightarrow> 1000000 | Some v \<Rightarrow> atoi v)"
    using num [of "''SOS_SYSTEM_MONITOR_FREQ_USEC''"]
    by (cases "env ''SOS_SYSTEM_MONITOR_FREQ_USEC''"; cases "env' ''SOS_SYSTEM_MONITOR_FREQ_USEC''") simp_all
  show ?thesis unfolding options_of_def on cd fr assms by (rule refl)
qed



section \<open>The meaning of a command line\<close>

text \<open>A loop whose steps commute does the same in any order.\<close>

lemma foldR_fold: "foldR f xs s = fold (\<lambda>x r. bindR r (f x)) xs (Inr s)"
proof -
  have "fold (\<lambda>x r. bindR r (f x)) xs (Inl e) = Inl e" for e by (induction xs) auto
  then show ?thesis
  proof (induction xs arbitrary: s)
    case (Cons x xs)
    then show ?case by (cases "f x s") auto
  qed simp
qed

lemma foldR_any_order:
  assumes "\<And>x y s. x \<in> set xs \<Longrightarrow> y \<in> set xs \<Longrightarrow> bindR (f x s) (f y) = bindR (f y s) (f x)" and "mset xs = mset ys"
  shows "foldR f xs s = foldR f ys s"
proof -
  have "(\<lambda>r. bindR r (f x)) \<circ> (\<lambda>r. bindR r (f y)) = (\<lambda>r. bindR r (f y)) \<circ> (\<lambda>r. bindR r (f x))"
    if "x \<in> set xs" "y \<in> set xs" for x y
    using assms(1) [OF that] by (auto simp: fun_eq_iff bindR_assoc)
  from fold_multiset_equiv [OF this assms(2)] show ?thesis by (simp add: foldR_fold)
qed

text \<open>The kinds of flags. Setting what two different kinds set commutes, also when the role is refused.\<close>

datatype arg_flag = Listeners | Aggregators | Options_File | Options_Class | Work_Dir | Rank | Role | Unknown

definition flag_of :: "cstring \<Rightarrow> arg_flag" where
  "flag_of flag =
     (if flag = str ''--listeners'' \<or> flag = str ''-l'' then Listeners
      else if flag = str ''--aggregators'' \<or> flag = str ''-a'' then Aggregators
      else if flag = str ''--options_file'' \<or> flag = str ''-o'' then Options_File
      else if flag = str ''--options_class'' \<or> flag = str ''-c'' then Options_Class
      else if flag = str ''--work_dir'' \<or> flag = str ''-w'' then Work_Dir
      else if flag = str ''--rank'' \<or> flag = str ''-k'' then Rank
      else if flag = str ''--role'' \<or> flag = str ''-r'' then Role
      else Unknown)"

fun set_flag :: "arg_flag \<Rightarrow> cstring \<Rightarrow> SOSD_args \<Rightarrow> SOSD_args res" where
  "set_flag Listeners v a = Inr (a\<lparr>ag_listener_count := atoi v\<rparr>)"
| "set_flag Aggregators v a = Inr (a\<lparr>ag_aggregator_count := atoi v\<rparr>)"
| "set_flag Options_File v a = Inr (a\<lparr>ag_options_file := Some v\<rparr>)"
| "set_flag Options_Class v a = Inr (a\<lparr>ag_options_class := Some v\<rparr>)"
| "set_flag Work_Dir v a = Inr (a\<lparr>ag_work_dir := v\<rparr>)"
| "set_flag Rank v a = Inr (a\<lparr>ag_rank := atoi v\<rparr>)"
| "set_flag Role v a = SOSD_set_role v a"
| "set_flag Unknown v a = Inr a"

lemma set_arg_flag: "SOSD_set_arg flag v a = set_flag (flag_of flag) v a"
  by (simp add: SOSD_set_arg_def flag_of_def)

lemma set_flag_commute: "k \<noteq> l \<Longrightarrow> bindR (set_flag k v a) (set_flag l w) = bindR (set_flag l w a) (set_flag k v)"
  by (cases k; cases l) (simp_all add: SOSD_set_role_def)

definition arg_words :: "(cstring \<times> cstring) list \<Rightarrow> cstring list" where
  "arg_words ps = concat (map (\<lambda>(f, v). [f, v]) ps)"

lemma length_arg_words: "length (arg_words ps) = 2 * length ps"
  by (induction ps) (auto simp: arg_words_def)

lemma arg_loop_words: "SOSD_arg_loop (arg_words ps) a = foldR (\<lambda>p. set_flag (flag_of (fst p)) (snd p)) ps a"
proof (induction ps arbitrary: a)
  case (Cons p ps)
  obtain f v where p: "p = (f, v)" by fastforce
  show ?case using Cons by (simp add: arg_words_def p set_arg_flag cong: bindR_cong)
qed (simp add: arg_words_def)

lemma arg_loop_any_order:
  assumes "mset ps = mset qs" and "distinct (map (flag_of \<circ> fst) ps)"
  shows "SOSD_arg_loop (arg_words ps) a = SOSD_arg_loop (arg_words qs) a"
proof -
  have "p = q \<or> flag_of (fst p) \<noteq> flag_of (fst q)" if "p \<in> set ps" "q \<in> set ps" for p q
    using assms(2) that by (auto simp: distinct_map inj_on_def)
  then show ?thesis unfolding arg_loop_words by (intro foldR_any_order [OF _ assms(1)]) (metis set_flag_commute)
qed

lemma str_inj [simp]: "str x = str y \<longleftrightarrow> x = y"
proof -
  have "unat (byte_of_char c) = of_char c" for c by (simp add: byte_of_char_def unat_of_nat of_char_mod_256)
  then have "byte_of_char c = byte_of_char d \<Longrightarrow> c = d" for c d by (metis of_char_eq_iff)
  then have "inj byte_of_char" by (rule injI)
  then show ?thesis by (simp add: str_def inj_map_eq_map)
qed

lemma flag_of_words:
  "f \<in> {str ''--listeners'', str ''-l''} \<Longrightarrow> flag_of f = Listeners"
  "f \<in> {str ''--aggregators'', str ''-a''} \<Longrightarrow> flag_of f = Aggregators"
  "f \<in> {str ''--rank'', str ''-k''} \<Longrightarrow> flag_of f = Rank"
  "f \<in> {str ''--role'', str ''-r''} \<Longrightarrow> flag_of f = Role"
  by (auto simp: flag_of_def)



section \<open>A long number\<close>

lemma dec_digits_ne: "dec_digits n \<noteq> []"
  by (subst dec_digits.simps) simp

lemma length_dec_digits_le: "n < 10 ^ k \<Longrightarrow> 0 < k \<Longrightarrow> length (dec_digits n) \<le> k"
proof (induction k arbitrary: n)
  case (Suc k)
  show ?case
  proof (cases "n < 10")
    case True
    then show ?thesis by (subst dec_digits.simps) simp
  next
    case False
    then have "0 < k" using Suc.prems(1) by (cases k) simp_all
    moreover have "n div 10 < 10 ^ k" using Suc.prems(1) by (simp add: div_less_iff_less_mult mult.commute)
    ultimately show ?thesis using Suc.IH [of "n div 10"] False by (subst dec_digits.simps) simp
  qed
qed simp

text \<open>
  \<open>SOS_uint64_to_str\<close> gives the first digit of a number and nothing else, for every number and every array that is
  large enough.
\<close>

theorem uint64_to_str_one_digit:
  assumes "128 \<le> result_len" and "result_len \<le> length result"
  shows "\<exists>result'. SOS_uint64_to_str val result result_len = Inr result' \<and> cstr result' = [hd (guid_str val)]"
proof -
  let ?s = "guid_str val"
  have "unat val < 2 ^ LENGTH(64)" by (rule unsigned_less)
  then have "unat val < 10 ^ 20" by simp
  then have len: "length ?s \<le> 20" unfolding guid_str_def by (rule length_dec_digits_le) simp
  obtain d ds where s: "?s = d # ds" "d \<noteq> 0"
    using dec_digits_ne [of "unat val"] wf_dec_digits [of "unat val"] by (cases ?s) (auto simp: guid_str_def wf_cstring_def)
  have "mem_write 0 (?s @ [0]) result = Inr (d # (ds @ [0] @ drop (length ?s + 1) result))"
    using len assms by (simp add: mem_write_ok s(1))
  moreover obtain x m' where "ds @ [0] @ drop (length ?s + 1) result = x # m'" by (cases ds) auto
  ultimately have w: "mem_write 0 (?s @ [0]) result = Inr (d # x # m')" by simp
  have "SOS_uint64_to_str val result result_len = Inr (d # 0 # m')"
    using assms(1) s(2) by (simp add: SOS_uint64_to_str_def w put_char_def cstr_def)
  then show ?thesis using s by (simp add: cstr_def)
qed

theorem uint64_to_str_one_digit_witness:
  "\<exists>result'. SOS_uint64_to_str 1234567 (replicate 128 0) 128 = Inr result' \<and> cstr result' = str ''1''"
proof -
  have "hd (guid_str 1234567) = 49" unfolding guid_str_def
    by (simp, (subst dec_digits.simps, simp)+)
  then show ?thesis using uint64_to_str_one_digit [of 128 "replicate 128 0" 1234567] by (simp add: str_def byte_of_char_def)
qed

end
