(* ===== verification/SOS_Simple.thy ===== *)
theory SOS_Simple
  imports SOS_Query SOS_Options
begin

text \<open>
  The wrapper for programs in other languages (\<open>ssos.c\<close>): one runtime, one publication and a pool of answers to
  queries, all of them global, behind calls that do nothing while the wrapper is not online.

  The pool is a linked list that grows and shrinks at its head, with a counter, a lock and a semaphore:
  \<open>ss_pool\<close> is the list, \<open>ss_ready\<close> the value of the semaphore. The thread that receives feedback puts a copy of
  each answer into the pool (\<open>SSOS_feedback_handler\<close>); the program claims them (\<open>SSOS_result_claim\<close>). A claim that would
  wait forever is the fault \<open>Blocks\<close>.

  \<open>pool_is_stack\<close> shows that the pool refines a stack of tables under every order of answers and claims, so answers are
  claimed newest first; \<open>query_exec_exits\<close> for which identifiers the call that sends a query ends the program although
  the query was sent.
\<close>

section \<open>State\<close>

record SSOS_result_pool_entry =
  en_buffer :: SOS_buffer
  en_query_guid :: u64
  en_row_incoming :: i32
  en_col_incoming :: i32

text \<open>\<open>ss_uids\<close> is the pool of identifiers of the runtime.\<close>

record SSOS =
  ss_is_online :: i32
  ss_pool_lock :: bool
  ss_pool_size :: int
  ss_pool :: "SSOS_result_pool_entry list"
  ss_ready :: nat
  ss_sos :: "SOS_ctx option"
  ss_uids :: SOS_uid
  ss_pub :: "SOS_pub option"

text \<open>Every call but a few first asks whether the wrapper is online, and uses the runtime and the publication unchecked.\<close>

definition when_online :: "SSOS \<Rightarrow> 'a \<Rightarrow> 'a res \<Rightarrow> 'a res" where
  "when_online s nothing action = (if ss_is_online s = 0 then Inr nothing else action)"

definition with_sos :: "SSOS \<Rightarrow> (SOS_ctx \<Rightarrow> 'a res) \<Rightarrow> 'a res" where
  "with_sos s f = (case ss_sos s of None \<Rightarrow> Inl Null_Deref | Some cx \<Rightarrow> f cx)"

definition with_pub :: "SSOS \<Rightarrow> (SOS_ctx \<Rightarrow> SOS_pub \<Rightarrow> 'a res) \<Rightarrow> 'a res" where
  "with_pub s f = with_sos s (\<lambda>cx. case ss_pub s of None \<Rightarrow> Inl Null_Deref | Some pub \<Rightarrow> f cx pub)"

section \<open>Answers\<close>

text \<open>
  An answer comes in the buffer of the thread that received it, so the handler copies it (\<open>msg_copy\<close>). Other feedback is
  refused: its payload is not in a buffer (\<open>None\<close>).
\<close>

definition entry_of_answer :: "SOS_buffer \<Rightarrow> SOS_buffer \<Rightarrow> (SOS_buffer \<times> SSOS_result_pool_entry) res" where
  "entry_of_answer incoming copy =
     bindR (SOS_msg_unzip incoming 0) (\<lambda>(incoming, _, offset).
     bindR (unpack_fields ''i'' [DestI] (incoming, offset)) (\<lambda>(incoming, offset, skip).
     bindR (out_i skip) (\<lambda>skip_length.
     checkR (0 \<le> int offset + sint skip_length) Out_Of_Bounds
       (bindR (unpack_fields ''g'' [DestG] (incoming, nat (int offset + sint skip_length))) (\<lambda>(incoming, offset, guid).
        bindR (unpack_fields ''d'' [DestD] (incoming, offset)) (\<lambda>(incoming, offset, _).
        bindR (unpack_fields ''ii'' [DestI, DestI] (incoming, offset)) (\<lambda>(incoming, _, counts).
        case (guid, counts) of
          ([OutG g], [OutI col, OutI row]) \<Rightarrow>
            Inr (incoming, \<lparr>en_buffer = copy, en_query_guid = g, en_row_incoming = row, en_col_incoming = col\<rparr>)
        | _ \<Rightarrow> Inl Bad_Argument)))))))"

definition pool_push :: "SSOS_result_pool_entry \<Rightarrow> SSOS \<Rightarrow> SSOS res" where
  "pool_push entry s =
     checkR (\<not> ss_pool_lock s) Deadlock
       (Inr (s\<lparr>ss_pool := entry # ss_pool s, ss_pool_size := ss_pool_size s + 1, ss_ready := ss_ready s + 1\<rparr>))"

definition SSOS_feedback_handler :: "i32 \<Rightarrow> i32 \<Rightarrow> SOS_buffer option \<Rightarrow> SSOS \<Rightarrow> (SOS_buffer option \<times> SSOS) res" where
  "SSOS_feedback_handler payload_type payload_size payload_data s =
     (if payload_type \<noteq> enum_code SOS_feedback_type_vals SOS_FEEDBACK_TYPE_QUERY then Inr (payload_data, s)
      else
        case payload_data of None \<Rightarrow> Inl Undefined | Some incoming \<Rightarrow>
        bindR (msg_copy payload_size incoming) (\<lambda>copy.
        bindR (entry_of_answer incoming copy) (\<lambda>(incoming, entry).
        bindR (pool_push entry s) (\<lambda>s. Inr (Some incoming, s)))))"

definition SSOS_result_pool_size :: "SSOS \<Rightarrow> int" where
  "SSOS_result_pool_size s = ss_pool_size s"

text \<open>
  A claim takes the head of the list. It initialises the object of the caller, or wipes and grows it. The semaphore starts
  at one, so a first claim may find nothing and waits again.
\<close>

definition entry_results :: "bool \<Rightarrow> SSOS_result_pool_entry \<Rightarrow> SOSA_results \<Rightarrow> SOSA_results res" where
  "entry_results initialize entry results =
     bindR (if initialize then Inr (SOSA_results_init_sized (sint (en_row_incoming entry)) (sint (en_col_incoming entry)))
            else bindR (SOSA_results_wipe results) (\<lambda>r.
                 Inr (SOSA_results_grow_to r (sint (en_col_incoming entry)) (sint (en_row_incoming entry))))) (\<lambda>results.
     bindR (SOSA_results_from_buffer results (en_buffer entry)) (\<lambda>(b, results).
     bindR (SOS_buffer_destroy (Some b)) (\<lambda>_. Inr results)))"

fun claim_wait :: "nat \<Rightarrow> bool \<Rightarrow> SOSA_results \<Rightarrow> SSOS \<Rightarrow> (SOSA_results \<times> SSOS) res" where
  "claim_wait 0 initialize results s = Inl Blocks"
| "claim_wait (Suc n) initialize results s =
     checkR (\<not> ss_pool_lock s) Deadlock
       (if ss_pool_size s < 1 then claim_wait n initialize results (s\<lparr>ss_ready := n\<rparr>)
        else case ss_pool s of
          [] \<Rightarrow> Inl Null_Deref
        | entry # rest \<Rightarrow>
            bindR (entry_results initialize entry results) (\<lambda>results.
            Inr (results, s\<lparr>ss_ready := n, ss_pool := rest, ss_pool_size := ss_pool_size s - 1\<rparr>)))"

definition SSOS_result_claim_initialized :: "bool \<Rightarrow> SOSA_results \<Rightarrow> SSOS \<Rightarrow> (SOSA_results \<times> SSOS) res" where
  "SSOS_result_claim_initialized initialize results s =
     when_online s (results, s) (claim_wait (ss_ready s) initialize results s)"

definition SSOS_result_claim :: "SOSA_results \<Rightarrow> SSOS \<Rightarrow> (SOSA_results \<times> SSOS) res" where
  "SSOS_result_claim results s = when_online s (results, s) (SSOS_result_claim_initialized True results s)"

text \<open>Destroying a table reads the cells that are in use, all its rows and all its names.\<close>

definition SSOS_result_destroy :: "SOSA_results \<Rightarrow> SSOS \<Rightarrow> unit res" where
  "SSOS_result_destroy results s =
     when_online s ()
       (bindR (wipe_rows (nat (rs_row_count results)) (rs_col_count results) (rs_data results)) (\<lambda>_.
        checkR (rs_row_max results \<le> int (length (rs_data results)) \<and> rs_col_max results \<le> int (length (rs_col_names results))) Out_Of_Bounds
          (Inr ())))"

section \<open>The calls that forward\<close>

definition SSOS_get_guid :: "SSOS \<Rightarrow> (SSOS \<times> u64 option) res" where
  "SSOS_get_guid s =
     when_online s (s, None) (with_sos s (\<lambda>cx.
       bindR (SOS_uid_next (cx_send cx) (cx_role cx) (cx_my_guid cx) (cx_offline_test_mode cx) (ss_uids s)) (\<lambda>(pool, g).
       Inr (s\<lparr>ss_uids := pool\<rparr>, Some g))))"

text \<open>For the requests: \<open>exchange\<close> is the exchange with the daemon that is asked, \<open>port\<close> the port of the thread that receives.\<close>

definition SSOS_cache_grab ::
    "cstring \<Rightarrow> cstring \<Rightarrow> i32 \<Rightarrow> i32 \<Rightarrow> i32 \<Rightarrow> (SOS_buffer \<Rightarrow> SOS_buffer \<Rightarrow> SOS_buffer res) \<Rightarrow> SSOS \<Rightarrow> (SSOS \<times> SOS_buffer option) res" where
  "SSOS_cache_grab pub_filter val_filter frame_head frame_depth_limit port exchange s =
     when_online s (s, None) (with_sos s (\<lambda>cx.
       bindR (SOSA_cache_grab cx (ss_uids s) port pub_filter val_filter frame_head frame_depth_limit exchange) (\<lambda>(pool, _, msg).
       Inr (s\<lparr>ss_uids := pool\<rparr>, Some msg))))"

definition SSOS_refresh_pub_manifest ::
    "SOSA_results \<Rightarrow> cstring \<Rightarrow> i32 \<Rightarrow> (SOS_buffer \<Rightarrow> SOS_buffer \<Rightarrow> SOS_buffer res) \<Rightarrow> SSOS \<Rightarrow> (SSOS \<times> (SOSA_results \<times> i32) option) res" where
  "SSOS_refresh_pub_manifest manifest pub_title_filter port exchange s =
     when_online s (s, None) (with_sos s (\<lambda>cx.
       bindR (SOSA_refresh_pub_manifest cx (ss_uids s) port manifest pub_title_filter exchange) (\<lambda>(pool, _, manifest, max_frame).
       Inr (s\<lparr>ss_uids := pool\<rparr>, Some (manifest, max_frame)))))"

definition SSOS_request_pub_manifest ::
    "cstring \<Rightarrow> i32 \<Rightarrow> (SOS_buffer \<Rightarrow> SOS_buffer \<Rightarrow> SOS_buffer res) \<Rightarrow> SSOS \<Rightarrow> (SSOS \<times> (SOSA_results \<times> i32) option) res" where
  "SSOS_request_pub_manifest pub_title_filter port exchange s =
     when_online s (s, None) (with_sos s (\<lambda>cx.
       bindR (SOSA_request_pub_manifest cx (ss_uids s) port pub_title_filter exchange) (\<lambda>(pool, _, manifest, max_frame).
       Inr (s\<lparr>ss_uids := pool\<rparr>, Some (manifest, max_frame)))))"

text \<open>The identifier of a query is stored in an \<open>int\<close>, and a negative one is taken for a lost connection.\<close>

definition SSOS_query_exec ::
    "cstring \<Rightarrow> i32 \<Rightarrow> (SOS_buffer \<Rightarrow> SOS_buffer \<Rightarrow> SOS_buffer option res) \<Rightarrow> SSOS \<Rightarrow> (SSOS \<times> SOS_buffer option) res" where
  "SSOS_query_exec sql port exchange s =
     when_online s (s, None) (with_sos s (\<lambda>cx.
       bindR (SOSA_exec_query cx (ss_uids s) port sql exchange) (\<lambda>(pool, guid, msg).
       if sint (ucast guid :: i32) < 0 \<and> ss_is_online s \<noteq> 0 then Inl Exit_Failure
       else Inr (s\<lparr>ss_uids := pool\<rparr>, msg))))"

definition SSOS_TYPE_INT :: i32 where "SSOS_TYPE_INT = 1"
definition SSOS_TYPE_LONG :: i32 where "SSOS_TYPE_LONG = 2"
definition SSOS_TYPE_DOUBLE :: i32 where "SSOS_TYPE_DOUBLE = 3"
definition SSOS_TYPE_STRING :: i32 where "SSOS_TYPE_STRING = 4"

definition pack_type_of :: "i32 \<Rightarrow> SOS_val_type option" where
  "pack_type_of pack_type =
     (if pack_type = SSOS_TYPE_INT then Some SOS_VAL_TYPE_INT
      else if pack_type = SSOS_TYPE_LONG then Some SOS_VAL_TYPE_LONG
      else if pack_type = SSOS_TYPE_DOUBLE then Some SOS_VAL_TYPE_DOUBLE
      else if pack_type = SSOS_TYPE_STRING then Some SOS_VAL_TYPE_STRING
      else None)"

definition SSOS_pack :: "c_double \<Rightarrow> cstring \<Rightarrow> i32 \<Rightarrow> pack_arg \<Rightarrow> SSOS \<Rightarrow> SSOS res" where
  "SSOS_pack now name pack_type pack_val s =
     when_online s s
       (case pack_type_of pack_type of
          None \<Rightarrow> Inr s
        | Some is_a \<Rightarrow> with_pub s (\<lambda>cx pub.
            bindR (SOS_pack cx now (ss_uids s) pub name is_a pack_val) (\<lambda>(pool, pub, _).
            Inr (s\<lparr>ss_uids := pool, ss_pub := Some pub\<rparr>))))"

definition SSOS_announce :: "SSOS \<Rightarrow> (SSOS \<times> SOS_buffer list) res" where
  "SSOS_announce s =
     when_online s (s, []) (with_pub s (\<lambda>cx pub.
       bindR (SOS_announce cx pub) (\<lambda>(pub, sent). Inr (s\<lparr>ss_pub := Some pub\<rparr>, sent))))"

definition SSOS_publish :: "i32 \<Rightarrow> (nat \<Rightarrow> c_double) \<Rightarrow> SSOS \<Rightarrow> (SSOS \<times> SOS_buffer list) res" where
  "SSOS_publish hi clock s =
     when_online s (s, []) (with_pub s (\<lambda>cx pub.
       bindR (SOS_publish cx hi clock pub) (\<lambda>(pub, sent). Inr (s\<lparr>ss_pub := Some pub\<rparr>, sent))))"

definition SSOS_sense_trigger :: "cstring \<Rightarrow> i32 \<Rightarrow> cstring \<Rightarrow> SSOS \<Rightarrow> SOS_buffer option res" where
  "SSOS_sense_trigger sense_handle payload_size payload_data s =
     when_online s None (with_sos s (\<lambda>cx.
       bindR (SOS_sense_trigger cx sense_handle payload_data payload_size) (\<lambda>msg. Inr (Some msg))))"

section \<open>Start, options and end\<close>

definition ssos_globals :: SSOS where
  "ssos_globals = \<lparr>ss_is_online = 0, ss_pool_lock = False, ss_pool_size = 0, ss_pool = [], ss_ready = 0, ss_sos = None,
     ss_uids = SOS_uid_init 0 0, ss_pub = None\<rparr>"

text \<open>\<open>runtime\<close> is what \<open>SOS_init\<close> leaves: \<open>None\<close> when it found no daemon, or the runtime and its identifiers.\<close>

definition SSOS_init :: "cstring \<Rightarrow> (SOS_ctx \<times> SOS_uid) option \<Rightarrow> SSOS \<Rightarrow> SSOS res" where
  "SSOS_init prog_name runtime s =
     (case runtime of
        None \<Rightarrow> Inr (s\<lparr>ss_is_online := 0, ss_ready := 1, ss_sos := None\<rparr>)
      | Some (cx, pool) \<Rightarrow>
          bindR (SOS_pub_init cx pool (str ''ssos.client'') SOS_NATURE_DEFAULT) (\<lambda>(pool, pub).
          Inr \<lparr>ss_is_online = 1, ss_pool_lock = False, ss_pool_size = 0, ss_pool = [], ss_ready = 1, ss_sos = Some cx, ss_uids = pool,
                ss_pub = Some (pub\<lparr>pb_prog_name := strncpy_array SOS_DEFAULT_STRING_LEN prog_name\<rparr>)\<rparr>))"

definition SSOS_is_online :: "SSOS \<Rightarrow> i32" where
  "SSOS_is_online s = ss_is_online s"

definition SSOS_OPT_PROG_VERSION :: i32 where "SSOS_OPT_PROG_VERSION = 1"
definition SSOS_OPT_COMM_RANK :: i32 where "SSOS_OPT_COMM_RANK = 2"

definition SSOS_set_option :: "i32 \<Rightarrow> cstring \<Rightarrow> SSOS \<Rightarrow> SSOS res" where
  "SSOS_set_option option_key option_value s =
     when_online s s
       (if option_key = SSOS_OPT_PROG_VERSION
        then with_pub s (\<lambda>_ pub. Inr (s\<lparr>ss_pub := Some (pub\<lparr>pb_prog_ver := strncpy_array SOS_DEFAULT_STRING_LEN option_value\<rparr>)\<rparr>))
        else if option_key = SSOS_OPT_COMM_RANK
        then with_pub s (\<lambda>cx pub.
               let rank = atoi option_value
               in Inr (s\<lparr>ss_pub := Some (pub\<lparr>pb_comm_rank := rank\<rparr>), ss_sos := Some (cx\<lparr>cx_comm_rank := rank\<rparr>)\<rparr>))
        else Inr s)"

text \<open>
  The lock is taken, never released, and destroyed while it is held. POSIX leaves that open; the C library refuses it, so
  the lock stays held. The semaphore is destroyed.
\<close>

definition SSOS_finalize :: "SSOS \<Rightarrow> SSOS res" where
  "SSOS_finalize s =
     when_online s s
       (checkR (\<not> ss_pool_lock s) Deadlock
          (bindR (foldR (\<lambda>entry _. SOS_buffer_destroy (Some (en_buffer entry))) (ss_pool s) ()) (\<lambda>_.
           Inr (s\<lparr>ss_is_online := 0, ss_pool_lock := True, ss_pool_size := 0, ss_pool := [], ss_ready := 0\<rparr>))))"

section \<open>A stack with blocking claims\<close>

text \<open>
  The contract of the pool: \<open>holds s xs\<close> says that the pool holds the contents \<open>xs\<close>, the newest first. Any run of deposits
  and claims is then the run of a stack.
\<close>

datatype ('d, 'c) pool_op = Deposit 'd | Take 'c

fun stack_run :: "('x, 'c) pool_op list \<Rightarrow> 'x list \<Rightarrow> ('x list \<times> 'x list) option" where
  "stack_run [] xs = Some ([], xs)"
| "stack_run (Deposit x # ops) xs = stack_run ops (x # xs)"
| "stack_run (Take c # ops) [] = None"
| "stack_run (Take c # ops) (x # xs) = map_option (\<lambda>(outs, xs). (x # outs, xs)) (stack_run ops xs)"

fun pool_run :: "('d \<Rightarrow> 's \<Rightarrow> 's res) \<Rightarrow> ('c \<Rightarrow> 's \<Rightarrow> ('r \<times> 's) res) \<Rightarrow> ('d, 'c) pool_op list \<Rightarrow> 's \<Rightarrow> ('r list \<times> 's) res" where
  "pool_run deposit claim [] s = Inr ([], s)"
| "pool_run deposit claim (Deposit d # ops) s = bindR (deposit d s) (pool_run deposit claim ops)"
| "pool_run deposit claim (Take c # ops) s =
     bindR (claim c s) (\<lambda>(r, s). bindR (pool_run deposit claim ops s) (\<lambda>(rs, s). Inr (r # rs, s)))"

definition same_op :: "('d \<Rightarrow> 'x \<Rightarrow> bool) \<Rightarrow> ('c \<Rightarrow> bool) \<Rightarrow> ('d, 'c) pool_op \<Rightarrow> ('x, 'c) pool_op \<Rightarrow> bool" where
  "same_op carries fits op op' \<longleftrightarrow>
     (case op of Deposit d \<Rightarrow> (\<exists>x. op' = Deposit x \<and> carries d x) | Take c \<Rightarrow> op' = Take c \<and> fits c)"

locale blocking_stack =
  fixes deposit :: "'d \<Rightarrow> 's \<Rightarrow> 's res" and claim :: "'c \<Rightarrow> 's \<Rightarrow> ('r \<times> 's) res"
    and carries :: "'d \<Rightarrow> 'x \<Rightarrow> bool" and fits :: "'c \<Rightarrow> bool" and gives :: "'r \<Rightarrow> 'x \<Rightarrow> bool"
    and holds :: "'s \<Rightarrow> 'x list \<Rightarrow> bool"
  assumes deposit_ok: "holds s xs \<Longrightarrow> carries d x \<Longrightarrow> \<exists>s'. deposit d s = Inr s' \<and> holds s' (x # xs)"
    and claim_ok: "holds s (x # xs) \<Longrightarrow> fits c \<Longrightarrow> \<exists>r s'. claim c s = Inr (r, s') \<and> gives r x \<and> holds s' xs"
    and claim_blocks: "holds s [] \<Longrightarrow> claim c s = Inl Blocks"
begin

lemma run_ok:
  assumes "holds s xs" and "list_all2 (same_op carries fits) ops ops'"
  shows "case stack_run ops' xs of
      None \<Rightarrow> pool_run deposit claim ops s = Inl Blocks
    | Some (outs, xs') \<Rightarrow> \<exists>rs s'. pool_run deposit claim ops s = Inr (rs, s') \<and> list_all2 gives rs outs \<and> holds s' xs'"
  using assms(2,1)
proof (induction ops ops' arbitrary: s xs rule: list_all2_induct)
  case Nil
  then show ?case by simp
next
  case (Cons op ops op' ops')
  show ?case
  proof (cases op)
    case (Deposit d)
    then obtain x where x: "op' = Deposit x" "carries d x" using Cons.hyps(1) by (auto simp: same_op_def)
    from deposit_ok [OF Cons.prems x(2)] obtain s1 where s1: "deposit d s = Inr s1" "holds s1 (x # xs)" by blast
    from Cons.IH [OF s1(2)] show ?thesis by (auto simp: Deposit x(1) s1(1) split: option.splits)
  next
    case (Take c)
    then have c: "op' = Take c" "fits c" using Cons.hyps(1) by (auto simp: same_op_def)
    show ?thesis
    proof (cases xs)
      case Nil
      then show ?thesis using claim_blocks [of s c] Cons.prems by (simp add: Take c(1))
    next
      case (Cons x ys)
      with claim_ok [of s x ys c] Cons.prems c(2) obtain r s1 where s1: "claim c s = Inr (r, s1)" "gives r x" "holds s1 ys" by blast
      from Cons.IH [OF s1(3)] show ?thesis
        using s1(1,2) by (auto simp: Take c(1) Cons split: option.splits)
    qed
  qed
qed

end

section \<open>The pool is such a stack\<close>

text \<open>
  What the thread that receives (\<open>SOS_receives_step\<close>) hands to the handler: the type and the size from the header, and the
  buffer, or a payload.
\<close>

definition SSOS_receive :: "SOS_buffer \<times> recv_result list \<Rightarrow> SSOS \<Rightarrow> SSOS res" where
  "SSOS_receive = (\<lambda>(buffer, recvs) s.
     bindR (SOS_receives_step False recvs buffer) (\<lambda>(_, _, feedback).
     case feedback of
       None \<Rightarrow> Inr s
     | Some (Fb_Payload n data) \<Rightarrow>
         bindR (SSOS_feedback_handler (enum_code SOS_feedback_type_vals SOS_FEEDBACK_TYPE_PAYLOAD) n None s) (\<lambda>(_, s). Inr s)
     | Some (Fb_Query b) \<Rightarrow>
         bindR (SOS_msg_unzip b 0) (\<lambda>(b, header, _).
         bindR (SSOS_feedback_handler (hd_msg_type header) (hd_msg_size header) (Some b) s) (\<lambda>(_, s). Inr s))))"

text \<open>A table on its way, in the network and in the pool.\<close>

type_synonym table = "cstring list \<times> cstring list list"

definition table_of :: "SOSA_results \<Rightarrow> table \<Rightarrow> bool" where
  "table_of t x \<longleftrightarrow>
     results_sendable t \<and> holds_table t (fst x) (snd x) \<and> (\<forall>row \<in> set (snd x). \<forall>c \<in> set row. wf_cstring c) \<and> (\<forall>s \<in> set (fst x). wf_cstring s)"

definition answer_carries :: "SOS_buffer \<times> recv_result list \<Rightarrow> table \<Rightarrow> bool" where
  "answer_carries a x \<longleftrightarrow>
     fresh_msg (fst a) \<and> (\<exists>rank t msg. table_of t x \<and> is_msg (results_header rank) (results_body t) msg \<and> stream_of (snd a) msg)"

definition entry_carries :: "SSOS_result_pool_entry \<Rightarrow> table \<Rightarrow> bool" where
  "entry_carries e x \<longleftrightarrow>
     \<not> buf_is_locking (en_buffer e) \<and>
     (\<exists>rank t. table_of t x \<and> is_msg (results_header rank) (results_body t) (en_buffer e) \<and>
        en_row_incoming e = word_of_int (rs_row_count t) \<and> en_col_incoming e = word_of_int (rs_col_count t))"

definition pool_holds :: "SSOS \<Rightarrow> table list \<Rightarrow> bool" where
  "pool_holds s xs \<longleftrightarrow>
     ss_is_online s \<noteq> 0 \<and> \<not> ss_pool_lock s \<and> ss_pool_size s = int (length (ss_pool s)) \<and> length (ss_pool s) \<le> ss_ready s \<and>
     list_all2 entry_carries (ss_pool s) xs"

definition claim_fits :: "bool \<times> SOSA_results \<Rightarrow> bool" where
  "claim_fits c \<longleftrightarrow> fst c \<or> results_ok (snd c)"

definition reads_as :: "SOSA_results \<Rightarrow> table \<Rightarrow> bool" where
  "reads_as r x \<longleftrightarrow> holds_table r (fst x) (snd x)"

definition claim_op :: "bool \<times> SOSA_results \<Rightarrow> SSOS \<Rightarrow> (SOSA_results \<times> SSOS) res" where
  "claim_op c = SSOS_result_claim_initialized (fst c) (snd c)"

lemma claim_wait_blocks: "\<not> ss_pool_lock s \<Longrightarrow> ss_pool_size s < 1 \<Longrightarrow> claim_wait n i r s = Inl Blocks"
  by (induction n arbitrary: s) simp_all

lemma sint_count: "0 \<le> n \<Longrightarrow> n < 2 ^ 31 \<Longrightarrow> sint (word_of_int n :: i32) = n"
  by (simp add: sint_sbintrunc' signed_take_bit_int_eq_self)

lemma entry_results_ok:
  assumes "entry_carries e x" and "i \<or> results_ok r"
  shows "\<exists>r'. entry_results i e r = Inr r' \<and> reads_as r' x"
proof -
  obtain rank t where t: "table_of t x" "is_msg (results_header rank) (results_body t) (en_buffer e)" "\<not> buf_is_locking (en_buffer e)"
      "en_row_incoming e = word_of_int (rs_row_count t)" "en_col_incoming e = word_of_int (rs_col_count t)"
    using assms(1) by (auto simp: entry_carries_def)
  have n: "sint (en_row_incoming e) = rs_row_count t" "sint (en_col_incoming e) = rs_col_count t" "0 \<le> rs_row_count t" "0 \<le> rs_col_count t"
    using t(1,4,5) by (auto simp: table_of_def results_sendable_def results_ok_def intro!: sint_count)
  obtain r0 where r0: "(if i then Inr (SOSA_results_init_sized (rs_row_count t) (rs_col_count t))
      else bindR (SOSA_results_wipe r) (\<lambda>r. Inr (SOSA_results_grow_to r (rs_col_count t) (rs_row_count t)))) = Inr r0" "results_ok r0"
  proof (cases i)
    case True
    then show ?thesis using that results_init_ok [OF n(3,4)] by simp
  next
    case False
    then obtain r' where "SOSA_results_wipe r = Inr r'" "results_ok r'" using results_wipe_ok assms(2) by blast
    then show ?thesis using that False grow_to_ok(1) by simp
  qed
  have "\<exists>b' t'. SOSA_results_from_buffer r0 (en_buffer e) = Inr (b', t') \<and> holds_table t' (fst x) (snd x) \<and> buf_is_locking b' = buf_is_locking (en_buffer e)"
    by (rule table_received [OF _ _ _ _ t(2) r0(2)]) (use t(1) in \<open>simp_all add: table_of_def\<close>)
  then show ?thesis using r0(1) t(3) n(1,2) by (auto simp: entry_results_def reads_as_def SOS_buffer_destroy_def)
qed

lemma pool_claim_ok:
  assumes "pool_holds s (x # xs)" and "claim_fits c"
  shows "\<exists>r s'. claim_op c s = Inr (r, s') \<and> reads_as r x \<and> pool_holds s' xs"
proof -
  obtain e es n where e: "ss_pool s = e # es" "entry_carries e x" "list_all2 entry_carries es xs" "ss_ready s = Suc n"
    using assms(1) by (cases "ss_ready s") (auto simp: pool_holds_def list_all2_Cons2)
  obtain r where r: "entry_results (fst c) e (snd c) = Inr r" "reads_as r x"
    using entry_results_ok [OF e(2)] assms(2) by (auto simp: claim_fits_def)
  then show ?thesis
    using assms(1) e by (auto simp: pool_holds_def claim_op_def SSOS_result_claim_initialized_def when_online_def)
qed

lemma pool_claim_blocks: "pool_holds s [] \<Longrightarrow> claim_op c s = Inl Blocks"
  by (simp add: pool_holds_def claim_op_def SSOS_result_claim_initialized_def when_online_def claim_wait_blocks)

text \<open>What the handler reads of the message.\<close>

lemma entry_of_answer_ok:
  assumes "results_sendable t" and "is_msg header (results_body t) b"
  shows "\<exists>b'. entry_of_answer b c = Inr (b', \<lparr>en_buffer = c, en_query_guid = rs_query_guid t, en_row_incoming = word_of_int (rs_row_count t),
      en_col_incoming = word_of_int (rs_col_count t)\<rparr>)"
proof -
  let ?l = "label_str t" and ?g = "encode [ArgG (rs_query_guid t)]" and ?d = "encode [ArgD (rs_exec_duration t)]"
  let ?i = "encode [ArgI (word_of_nat (length (label_str t)))]"
  let ?n = "encode [ArgI (word_of_int (rs_col_count t)), ArgI (word_of_int (rs_row_count t))]"
  let ?cells = "concat (map str_enc (name_strs t)) @ concat (map str_enc (cell_strs t))"
  have B: "results_body t = ?i @ ?l @ ?g @ ?d @ ?n @ ?cells" by (simp add: results_body_def)
  obtain y where y: "rs_exec_duration t = Fin y" using assms(1) by (cases "rs_exec_duration t") (auto simp: results_sendable_def is_finite_def)
  obtain b1 h where u: "SOS_msg_unzip b 0 = Inr (b1, h, 24)" "is_msg header (?i @ ?l @ ?g @ ?d @ ?n @ ?cells) b1"
    using unzip_is_msg [OF assms(2)] unfolding B by blast
  have at: "unpack_fields format dests (b1, 24 + length xs) = Inr (b1, 24 + length xs + length e, outs)"
    if "?i @ ?l @ ?g @ ?d @ ?n @ ?cells = xs @ e @ zs" "reads (unpack_fields format dests) e outs" for format dests xs e zs outs
    using read_body [OF _ that(2)] u(2) unfolding that(1) by blast
  have i: "length ?i = 4" by simp
  have l: "length ?l \<le> 2000" using assms(1) by (simp add: results_sendable_def)
  then have skip: "sint (word_of_nat (length ?l) :: i32) = int (length ?l)"
    using sint_count [of "int (length ?l)"] by simp
  let ?o1 = "24 + length (?i @ ?l)" let ?o2 = "?o1 + length ?g" let ?o3 = "?o2 + length ?d"
  have 1: "unpack_fields ''i'' [DestI] (b1, 24) = Inr (b1, 28, [OutI (word_of_nat (length ?l))])"
    using at [of "[]" ?i, OF _ reads_fields] i by simp
  have o: "0 \<le> int 28 + int (length ?l)" "nat (int 28 + int (length ?l)) = ?o1" using i by simp_all
  have 2: "unpack_fields ''g'' [DestG] (b1, ?o1) = Inr (b1, ?o2, [OutG (rs_query_guid t)])"
    by (rule at [of "?i @ ?l" ?g]) (simp, rule reads_fields, simp_all)
  have 3: "unpack_fields ''d'' [DestD] (b1, ?o2) = Inr (b1, ?o3, [OutD (wire_double (rs_exec_duration t))])"
    using at [of "?i @ ?l @ ?g" ?d "?n @ ?cells" "''d''" "[DestD]"] reads_fields [of "''d''" "[ArgD (rs_exec_duration t)]" "[DestD]"] y by (simp add: add.assoc)
  have 4: "unpack_fields ''ii'' [DestI, DestI] (b1, ?o3) =
      Inr (b1, ?o3 + length ?n, [OutI (word_of_int (rs_col_count t)), OutI (word_of_int (rs_row_count t))])"
    using at [of "?i @ ?l @ ?g @ ?d" ?n ?cells "''ii''" "[DestI, DestI]"]
      reads_fields [of "''ii''" "[ArgI (word_of_int (rs_col_count t)), ArgI (word_of_int (rs_row_count t))]" "[DestI, DestI]"] by (simp add: add.assoc)
  show ?thesis
    unfolding entry_of_answer_def u(1) bindR.simps prod.case 1 out_i.simps skip checkR_True [OF o(1)] o(2) 2 3 4 by simp
qed

lemma pool_deposit_ok:
  assumes "pool_holds s xs" and "answer_carries a x"
  shows "\<exists>s'. SSOS_receive a s = Inr s' \<and> pool_holds s' (x # xs)"
proof -
  obtain buffer rs where a: "a = (buffer, rs)" by (cases a)
  obtain rank t msg where m: "fresh_msg buffer" "table_of t x" "is_msg (results_header rank) (results_body t) msg" "stream_of rs msg"
    using assms(2) a by (auto simp: answer_carries_def)
  let ?h = "results_header rank" and ?e = "results_body t"
  have t: "results_sendable t" using m(2) by (simp add: table_of_def)
  then have fits: "24 + length ?e \<le> MSG_LIMIT" by (simp add: results_sendable_def)
  have ty: "hd_msg_type ?h = enum_code SOS_feedback_type_vals SOS_FEEDBACK_TYPE_QUERY" by simp
  obtain b where b: "SOS_receives_step False rs buffer = Inr (b, [], Some (Fb_Query b))" "is_msg ?h ?e b"
    using receives_query [OF m(3) fits m(4,1) ty] by blast
  obtain b1 where b1: "SOS_msg_unzip b 0 = Inr (b1, ?h\<lparr>hd_msg_size := word_of_nat (24 + length ?e)\<rparr>, 24)" "is_msg ?h ?e b1"
    using unzip_is_msg [OF b(2)] by blast
  obtain c where c: "msg_copy (word_of_nat (24 + length ?e)) b1 = Inr c" "is_msg ?h ?e c" "\<not> buf_is_locking c"
    using msg_copy_ok [OF b1(2) fits] by blast
  let ?entry = "\<lparr>en_buffer = c, en_query_guid = rs_query_guid t, en_row_incoming = word_of_int (rs_row_count t), en_col_incoming = word_of_int (rs_col_count t)\<rparr>"
  obtain b2 where b2: "entry_of_answer b1 c = Inr (b2, ?entry)" using entry_of_answer_ok [OF t b1(2)] by blast
  have "\<not> ss_pool_lock s" using assms(1) by (simp add: pool_holds_def)
  then have "SSOS_receive a s = Inr (s\<lparr>ss_pool := ?entry # ss_pool s, ss_pool_size := ss_pool_size s + 1, ss_ready := ss_ready s + 1\<rparr>)"
    using b(1) b1(1) c(1) b2 ty by (simp add: SSOS_receive_def a SSOS_feedback_handler_def pool_push_def)
  moreover have "entry_carries ?entry x" using m(2) c(2,3) by (auto simp: entry_carries_def)
  ultimately show ?thesis using assms(1) by (simp add: pool_holds_def)
qed

interpretation answer_pool: blocking_stack SSOS_receive claim_op answer_carries claim_fits reads_as pool_holds
  by unfold_locales (fact pool_deposit_ok pool_claim_ok pool_claim_blocks)+

lemma SSOS_init_holds: "SSOS_init prog_name (Some runtime) s0 = Inr s \<Longrightarrow> pool_holds s []"
  by (auto simp: SSOS_init_def bindR_Inr_iff pool_holds_def split: prod.splits)


text \<open>An answer with one row.\<close>

definition row_results :: "byte \<Rightarrow> SOSA_results" where
  "row_results c = example_results\<lparr>rs_data := [[Some [c, 0], None]]\<rparr>"

lemma row_table:
  assumes "c \<noteq> 0"
  shows "table_of (row_results c) ([[110]], [[[c]]])"
proof -
  have c: "cstr [113, 0] = [113]" "cstr [110, 0] = [110]" "cstr [c, 0] = [c]" using assms by (simp_all add: cstr_def)
  have u: "used_cols (row_results c) = 1" "used_rows (row_results c) = 1" by (simp_all add: used_cols_def used_rows_def row_results_def example_results_def)
  have n: "rs_name (row_results c) 0 = Some [110, 0]" "rs_cell (row_results c) 0 0 = Some [c, 0]"
    by (simp_all add: rs_name_def rs_cell_def lookup_def row_results_def example_results_def)
  have l: "label_str (row_results c) = [113]" by (simp add: label_str_def row_results_def example_results_def c)
  have f: "results_ok (row_results c)" "rs_query_sql (row_results c) = Some [113, 0]" "rs_exec_duration (row_results c) = Fin 1"
      "rs_col_count (row_results c) = 1" "rs_row_count (row_results c) = 1"
    by (simp_all add: results_ok_def row_results_def example_results_def)
  then have h: "holds_table (row_results c) [[110]] [[[c]]]" by (simp add: holds_table_def n)
  have wf: "wf_cstring [c]" "wf_cstring [110]" using assms by (simp_all add: wf_cstring_def)
  have "results_sendable (row_results c)"
    by (rule table_sendable [OF h, of "[113]"]) (use wf f in \<open>simp_all add: rows_fit_def names_fit_def MSG_LIMIT_def wf_cstring_def is_finite_def\<close>)
  then show ?thesis using h wf by (simp add: table_of_def)
qed

lemma row_answer:
  assumes "c \<noteq> 0"
  obtains rs where "answer_carries (SOS_buffer_init, rs) ([[110]], [[[c]]])"
proof -
  note t = row_table [OF assms]
  then have "results_sendable (row_results c)" by (simp add: table_of_def)
  from results_to_buffer_ok [OF this fresh_msg_init] obtain b where "is_msg (results_header 0) (results_body (row_results c)) b" by blast
  with t is_msg_in_one_piece have "answer_carries (SOS_buffer_init, in_one_piece b) ([[110]], [[[c]]])"
    unfolding answer_carries_def fst_conv snd_conv using fresh_msg_init by blast
  then show thesis by (rule that)
qed

lemma example_start:
  obtains s where "SSOS_init [120] (Some (example_ctx, SOS_uid_init 1 100)) ssos_globals = Inr s"
proof -
  have "pool_ready (Suc 0) (SOS_uid_init 1 100)" by (simp add: pool_ready_def SOS_uid_init_def SOS_DEFAULT_UID_MAX_def)
  moreover have "cx_role example_ctx = SOS_ROLE_CLIENT" "cx_mincap example_ctx = 5" by (simp_all add: example_ctx_def)
  ultimately obtain pool pub where "SOS_pub_init example_ctx (SOS_uid_init 1 100) (str ''ssos.client'') SOS_NATURE_DEFAULT = Inr (pool, pub)"
    using SOS_pub_init_ok [of 0 "SOS_uid_init 1 100" example_ctx "str ''ssos.client''" SOS_NATURE_DEFAULT] by auto
  then show thesis using that by (simp add: SSOS_init_def)
qed


text \<open>A sent query whose identifier has bit 31 set ends the program.\<close>

lemma guid_as_int_negative: "sint (ucast (g :: u64) :: i32) < 0 \<longleftrightarrow> bit g 31"
  using bit_last_iff [of "ucast g :: i32"] by (simp add: bit_simps)

text \<open>
  C37: a program that sends a query through the wrapper is ended by exactly the identifiers with bit 31 set, with the
  message that the connection is lost, although the query was sent; with any other identifier the call returns.
\<close>

theorem query_exec_exits:
  assumes "query_ok cx sql" and "\<forall>m r. \<not> buf_lock r \<longrightarrow> (\<exists>r'. exchange m r = Inr (Some r') \<and> \<not> buf_lock r')"
    and "SOS_uid_next (cx_send cx) (cx_role cx) (cx_my_guid cx) (cx_offline_test_mode cx) (ss_uids s) = Inr (pool, g)"
    and "ss_is_online s \<noteq> 0" and "ss_sos s = Some cx"
  shows "\<exists>msg. SOSA_exec_query cx (ss_uids s) port sql exchange = Inr (pool, g, Some msg) \<and>
    SSOS_query_exec sql port exchange s = (if bit g 31 then Inl Exit_Failure else Inr (s\<lparr>ss_uids := pool\<rparr>, Some msg))"
proof -
  obtain msg where "SOSA_exec_query cx (ss_uids s) port sql exchange = Inr (pool, g, Some msg)"
    using SOSA_exec_query_ok [OF assms(1-3)] by blast
  then show ?thesis
    using assms(4,5) by (simp add: SSOS_query_exec_def when_online_def with_sos_def guid_as_int_negative)
qed

theorem query_exec_exits_witness:
  "\<exists>s pool msg. ss_is_online s \<noteq> 0 \<and>
    SOSA_exec_query example_ctx (ss_uids s) 4000 [120] (\<lambda>_ r. Inr (Some r)) = Inr (pool, 2147483648, Some msg) \<and>
    SSOS_query_exec [120] 4000 (\<lambda>_ r. Inr (Some r)) s = Inl Exit_Failure"
proof -
  let ?s = "ssos_globals\<lparr>ss_is_online := 1, ss_sos := Some example_ctx, ss_uids := SOS_uid_init 2147483648 4294967296\<rparr>"
  have node: "cx_node_id example_ctx = str ''node''" by (simp add: example_ctx_def)
  have asks: "query_ok example_ctx [120]"
    using example_node by (simp add: query_ok_def node str_fits_def wf_cstring_def) (simp add: example_ctx_def)
  have link: "\<forall>m r. \<not> buf_lock r \<longrightarrow> (\<exists>r'. (\<lambda>_ r. Inr (Some r)) m r = Inr (Some r') \<and> \<not> buf_lock r')" by simp
  obtain pool where g: "SOS_uid_next (cx_send example_ctx) (cx_role example_ctx) (cx_my_guid example_ctx) (cx_offline_test_mode example_ctx) (ss_uids ?s) = Inr (pool, 2147483648)"
    by (simp add: SOS_uid_init_def SOS_uid_next_def SOS_DEFAULT_UID_MAX_def Let_def)
  have s: "ss_is_online ?s \<noteq> 0" "ss_sos ?s = Some example_ctx" by simp_all
  have "bit (2147483648 :: u64) 31" by code_simp
  with query_exec_exits [OF asks link g s, of 4000] s(1) show ?thesis by (intro exI [of _ ?s]) auto
qed

section \<open>At the edges\<close>

text \<open>Whatever is called before the start, or after a start that found no daemon, nothing happens.\<close>

lemma offline_does_nothing: "ss_is_online s = 0 \<Longrightarrow> when_online s nothing action = Inr nothing"
  by (simp add: when_online_def)

lemma failed_start_is_offline: "SSOS_init prog_name None s = Inr s' \<Longrightarrow> SSOS_is_online s' = 0"
  by (auto simp: SSOS_init_def SSOS_is_online_def)

text \<open>The end leaves the lock of the pool held: a handler that still runs then never gets it.\<close>

lemma finalize_keeps_lock:
  assumes "pool_holds s xs" and "SSOS_finalize s = Inr s'"
  shows "ss_pool_lock s'" and "SSOS_is_online s' = 0" and "ss_pool s' = []" and "pool_push entry s' = Inl Deadlock"
  using assms by (auto simp: pool_holds_def SSOS_finalize_def when_online_def bindR_Inr_iff SSOS_is_online_def pool_push_def)

text \<open>A table that was claimed can be destroyed.\<close>

lemma claimed_can_be_destroyed:
  assumes "reads_as r x"
  shows "SSOS_result_destroy r s = Inr ()"
proof -
  have r: "results_ok r" using assms by (simp add: reads_as_def holds_table_def)
  from results_wipe_ok [OF this] obtain d where "wipe_rows (nat (rs_row_count r)) (rs_col_count r) (rs_data r) = Inr d"
    by (auto simp: SOSA_results_wipe_def bindR_Inr_iff)
  then show ?thesis using r by (simp add: SSOS_result_destroy_def when_online_def results_ok_def)
qed

text \<open>\<open>SSOS_pack\<close> knows four of the types.\<close>

lemma pack_unknown_type: "pack_type_of t = None \<Longrightarrow> SSOS_pack now name t val s = Inr s"
  by (simp add: SSOS_pack_def when_online_def)

text \<open>The rank is read back from its decimal digits.\<close>

lemma dec_digits_first: obtains c cs where "dec_digits n = c # cs" and "48 \<le> c"
proof -
  have "\<exists>c cs. dec_digits n = c # cs \<and> 48 \<le> c"
  proof (induction n rule: dec_digits.induct)
    case (1 n)
    show ?case
    proof (cases "n < 10")
      case True
      then have "(48 :: byte) \<le> word_of_nat (48 + n)"
        by (simp add: word_le_nat_alt unat_of_nat take_bit_nat_eq_self del: of_nat_add)
      then show ?thesis using True by (simp add: dec_digits.simps [of n])
    next
      case False
      from "1.IH" [OF False] show ?thesis using False by (auto simp: dec_digits.simps [of n])
    qed
  qed
  then show thesis using that by blast
qed

lemma digits_value_append: "digits_value acc (dec_digits n @ cs) = digits_value (acc * 10 ^ length (dec_digits n) + int n) cs"
proof (induction n arbitrary: acc cs rule: dec_digits.induct)
  case (1 n)
  have d: "(48 :: byte) \<le> word_of_nat (48 + m)" "(word_of_nat (48 + m) :: byte) \<le> 57" "uint (word_of_nat (48 + m) :: byte) = 48 + int m" if "m < 10" for m
    using that by (simp_all add: word_le_nat_alt unat_of_nat uint_nat take_bit_nat_eq_self del: of_nat_add)
  show ?case
  proof (cases "n < 10")
    case True
    then show ?thesis using d [OF True] by (simp add: dec_digits.simps [of n])
  next
    case False
    have m: "n mod 10 < 10" by simp
    have "int n = int (n div 10) * 10 + int (n mod 10)" by presburger
    then show ?thesis
      using "1.IH" [OF False, of acc "word_of_nat (48 + n mod 10) # cs"] False d [OF m] by (simp add: dec_digits.simps [of n] algebra_simps)
  qed
qed

lemma atoi_dec_digits:
  assumes "n < 2 ^ 63"
  shows "atoi (dec_digits n) = word_of_nat n"
proof -
  have v: "digits_value 0 (dec_digits n) = int n" using digits_value_append [of 0 n "[]"] by simp
  obtain c cs where c: "dec_digits n = c # cs" "48 \<le> c" by (rule dec_digits_first)
  have "\<not> c \<le> 13"
  proof
    assume "c \<le> 13"
    from order_trans [OF c(2) this] show False by simp
  qed
  then have "\<not> is_blank c" "c \<noteq> 45" "c \<noteq> 43" using c(2) by (auto simp: is_blank_def)
  moreover have "int n \<le> 2 ^ 63 - 1" using assms by simp
  ultimately show ?thesis using v by (simp add: atoi_def strtol_def c(1))
qed

lemma rank_option:
  assumes "ss_is_online s \<noteq> 0" and "ss_sos s = Some cx" and "ss_pub s = Some pub" and "n < 2 ^ 31"
  shows "SSOS_set_option SSOS_OPT_COMM_RANK (dec_digits n) s =
    Inr (s\<lparr>ss_pub := Some (pub\<lparr>pb_comm_rank := word_of_nat n\<rparr>), ss_sos := Some (cx\<lparr>cx_comm_rank := word_of_nat n\<rparr>)\<rparr>)"
  using assms atoi_dec_digits [of n]
  by (simp add: SSOS_set_option_def when_online_def with_pub_def with_sos_def SSOS_OPT_COMM_RANK_def SSOS_OPT_PROG_VERSION_def Let_def)

end
