(* ===== verification/SOS_Cloud.thy ===== *)
theory SOS_Cloud
  imports SOS_Feedback
begin

text \<open>
  From one daemon to the next (\<open>sosd.c\<close>, \<open>sosd_cloud_socket.c\<close>): the thread of a listener that sends the messages it has
  handled to its aggregator, and the thread of the aggregator that receives them, puts announcements, publications and
  snapshots into the queue of its local thread, and handles the rest.

  \<open>publication_reaches_aggregator\<close> goes the whole way of a publication, from the call of the client through both daemons.

  The results of the socket calls are parameters: \<open>net k\<close> says for the \<open>k\<close>-th message of a round whether the connection
  comes up, what its calls of \<open>send\<close> return, and what arrives in reply.
\<close>

section \<open>Sending\<close>

text \<open>Whether the connection came up is not asked. Without a buffer for the reply a small one is used.\<close>

definition SOSD_cloud_send ::
    "bool \<Rightarrow> bool \<times> send_result list \<times> recv_result list \<Rightarrow> SOS_socket \<Rightarrow> SOS_buffer \<Rightarrow> SOS_buffer option \<Rightarrow>
     (SOS_socket \<times> byte list \<times> SOS_buffer option) res" where
  "SOSD_cloud_send shutdown = (\<lambda>(connects, sends, recvs) target buffer reply.
     let reply_ptr = (case reply of None \<Rightarrow> SOS_buffer_init_sized_locking 128 False | Some r \<Rightarrow> r)
     in bindR (SOS_target_connect connects target) (\<lambda>(target, _).
        bindR (SOS_target_send_msg shutdown False target buffer sends) (\<lambda>(target, out, _, _).
        bindR (SOS_target_recv_msg shutdown recvs (Some reply_ptr)) (\<lambda>(reply_ptr, _, _).
        let target = SOS_target_disconnect target
        in case reply of
             None \<Rightarrow> bindR (SOS_buffer_destroy reply_ptr) (\<lambda>_. Inr (target, out, None))
           | Some _ \<Rightarrow> Inr (target, out, reply_ptr)))))"

definition cloud_send_one ::
    "bool \<Rightarrow> (nat \<Rightarrow> bool \<times> send_result list \<times> recv_result list) \<Rightarrow> nat \<times> SOS_buffer \<Rightarrow>
     SOS_socket \<times> SOS_buffer \<times> byte list list \<Rightarrow> (SOS_socket \<times> SOS_buffer \<times> byte list list) res" where
  "cloud_send_one shutdown net = (\<lambda>(k, msg) (target, reply, outs).
     bindR (SOSD_cloud_send shutdown (net k) target msg (Some reply)) (\<lambda>(target, out, reply).
     case reply of None \<Rightarrow> Inl Null_Deref | Some reply \<Rightarrow>
     bindR (SOS_buffer_destroy (Some msg)) (\<lambda>_. Inr (target, reply, outs @ [out]))))"

text \<open>
  One round of the thread: everything that waits is taken and sent in turn, each message is acknowledged into the same
  buffer. \<open>False\<close>: the queue was closed and the thread ends, with the lock of the queue held. Also what went over the wire.
\<close>

definition SOSD_cloud_sync_step ::
    "nat \<Rightarrow> (nat \<Rightarrow> bool \<times> send_result list \<times> recv_result list) \<Rightarrow> SOSD \<times> SOS_socket \<times> SOS_buffer \<Rightarrow>
     ((SOSD \<times> SOS_socket \<times> SOS_buffer) \<times> byte list list \<times> bool) res" where
  "SOSD_cloud_sync_step mincap net = (\<lambda>(sd, target, reply).
     let q = sd_cloud_send sd
     in checkR (\<not> qu_sync_lock q) Deadlock
          (if qu_elem_count q \<le> 0 then Inr ((sd, target, reply), [], True)
           else
             bindR (pipe_pop_eager mincap SOS_buffer_init (qu_pipe q) (nat (qu_elem_count q))) (\<lambda>(p, msgs).
             if msgs = [] then Inr ((sd\<lparr>sd_cloud_send := q\<lparr>qu_pipe := p, qu_sync_lock := True\<rparr>\<rparr>, target, reply), [], False)
             else
               bindR (foldR (cloud_send_one (sd_shutdown sd) net) (zip [0..<length msgs] msgs) (target, reply, [])) (\<lambda>(target, reply, outs).
               Inr ((sd\<lparr>sd_cloud_send := q\<lparr>qu_pipe := p, qu_elem_count := qu_elem_count q - int (length msgs)\<rparr>\<rparr>, target, reply), outs, True)))))"

text \<open>
  The other way into the queue has no caller. It passes the size of a pointer where \<open>pipe_push\<close> takes a number of elements.
\<close>

definition SOSD_cloud_enqueue :: "nat \<Rightarrow> bool \<Rightarrow> SOS_buffer \<Rightarrow> SOSD \<Rightarrow> SOSD res" where
  "SOSD_cloud_enqueue mincap shutdown_underway buffer sd =
     (if shutdown_underway \<or> buf_len buffer = 0 then Inr sd
      else
        bindR (SOS_buffer_unpack buffer 0 ''iigg'' [DestI, DestI, DestG, DestG]) (\<lambda>(buffer, _, _, _).
        let q = sd_cloud_send sd
        in checkR (\<not> qu_sync_lock q) Deadlock
             (bindR (pipe_push mincap buffer (qu_pipe q) [buffer] 8) (\<lambda>p.
              Inr (sd\<lparr>sd_cloud_send := q\<lparr>qu_pipe := p, qu_elem_count := qu_elem_count q + 1\<rparr>\<rparr>)))))"

section \<open>Receiving\<close>

text \<open>
  A daemon that registers: its rank only draws a warning when it is out of range, and is the index of its target. The
  answer, which is sent to that target, is packed without a lock. Returns the target and the answer.
\<close>

definition SOSD_socket_register_connection :: "SOS_ctx \<Rightarrow> SOSD \<Rightarrow> SOS_buffer \<Rightarrow> (SOSD \<times> nat \<times> SOS_buffer) res" where
  "SOSD_socket_register_connection cx sd msg =
     bindR (SOS_buffer_unpack msg 0 ''iigg'' [DestI, DestI, DestG, DestG]) (\<lambda>(msg, offset, _, outs).
     case outs of
       [_, _, OutG msg_from, _] \<Rightarrow>
         bindR (SOS_buffer_unpack_safestr msg offset) (\<lambda>(msg, offset, remote_host).
         bindR (SOS_buffer_unpack msg offset ''i'' [DestI]) (\<lambda>(_, _, _, port).
         bindR (out_i port) (\<lambda>remote_port.
         checkR (unat msg_from < length (sd_cloud_targets sd)) Out_Of_Bounds
           (bindR (SOS_buffer_pack (SOS_buffer_init_sized_locking 128 False) 0 ''iigg''
              [ArgI (- 1), ArgI (enum_code SOS_msg_type_vals SOS_MSG_TYPE_ACK), ArgG (scast (cx_comm_rank cx)), ArgG 0]) (\<lambda>(reply, offset, _).
            bindR (SOS_buffer_pack reply 0 ''i'' [ArgI (word_of_nat offset)]) (\<lambda>(reply, _, _).
            Inr (sd\<lparr>sd_cloud_targets := (sd_cloud_targets sd)[unat msg_from := True]\<rparr>, unat msg_from, reply)))))))
     | _ \<Rightarrow> Inl Bad_Argument)"

text \<open>
  Sorting a message, of which a copy is made first. A shutdown also has the daemon connect to itself, to end the wait of
  its listener. Returns the messages that go out to other daemons.
\<close>

definition SOSD_cloud_process_buffer :: "SOS_ctx \<Rightarrow> SOSD \<Rightarrow> SOS_buffer \<Rightarrow> (SOSD \<times> SOS_buffer \<times> (nat \<times> SOS_buffer) list) res" where
  "SOSD_cloud_process_buffer cx sd buffer =
     bindR (SOS_msg_unzip buffer 0) (\<lambda>(buffer, header, _).
     bindR (msg_copy (hd_msg_size header) buffer) (\<lambda>msg.
     let queue_local = bindR (queue_put (cx_mincap cx) msg (sd_local sd)) (\<lambda>q. Inr (sd\<lparr>sd_local := q\<rparr>, buffer, []))
     in case enum_decode SOS_msg_type_vals (hd_msg_type header) of
          Some SOS_MSG_TYPE_ANNOUNCE \<Rightarrow> queue_local
        | Some SOS_MSG_TYPE_PUBLISH \<Rightarrow> queue_local
        | Some SOS_MSG_TYPE_VAL_SNAPS \<Rightarrow> queue_local
        | Some SOS_MSG_TYPE_REGISTER \<Rightarrow> bindR (SOSD_socket_register_connection cx sd msg) (\<lambda>(sd, rank, reply). Inr (sd, buffer, [(rank, reply)]))
        | Some SOS_MSG_TYPE_SHUTDOWN \<Rightarrow> Inr (sd\<lparr>sd_running := False, sd_shutdown := True\<rparr>, buffer, [])
        | Some SOS_MSG_TYPE_TRIGGERPULL \<Rightarrow> bindR (SOSD_cloud_handle_triggerpull cx sd msg) (\<lambda>(sd, _, notices). Inr (sd, buffer, notices))
        | Some SOS_MSG_TYPE_ACK \<Rightarrow> Inr (sd, buffer, [])
        | _ \<Rightarrow> bindR (SOSD_handle_unknown (cx_role cx) msg) (\<lambda>_. Inr (sd, buffer, []))))"

text \<open>One round of the receiving thread. The acknowledgement goes out before the message is looked at, also when nothing came.\<close>

definition SOSD_cloud_listen_step ::
    "SOS_ctx \<Rightarrow> recv_result list \<Rightarrow> SOSD \<Rightarrow> SOS_buffer \<Rightarrow> (SOSD \<times> SOS_buffer \<times> SOS_buffer \<times> (nat \<times> SOS_buffer) list) res" where
  "SOSD_cloud_listen_step cx recvs sd msg =
     bindR (SOSD_PACK_ACK (SOS_buffer_init_sized_locking 2048 False)) (\<lambda>ack.
     bindR (SOS_target_recv_msg (sd_shutdown sd) recvs (Some (SOS_buffer_wipe msg))) (\<lambda>(msg, _, _).
     case msg of None \<Rightarrow> Inl Null_Deref | Some msg \<Rightarrow>
     bindR (SOSD_cloud_process_buffer cx sd msg) (\<lambda>(sd, msg, out). Inr (sd, msg, ack, out))))"

section \<open>A round of sending\<close>

text \<open>The bytes of a message, a message of any kind, and a socket stream that carries given bytes.\<close>

definition msg_bytes :: "SOS_buffer \<Rightarrow> byte list" where
  "msg_bytes b = take (buf_len b) (buf_data b)"

definition whole :: "SOS_buffer \<Rightarrow> bool" where
  "whole b \<longleftrightarrow> (\<exists>h e. is_msg h e b \<and> 24 + length e \<le> MSG_LIMIT)"

definition carries :: "recv_result list \<Rightarrow> byte list \<Rightarrow> bool" where
  "carries rs bs \<longleftrightarrow> stream_ok rs \<and> stream_bytes rs = bs \<and> (\<exists>xs rs0. rs = Recv xs # rs0 \<and> 24 \<le> length xs)"

lemma stream_of_carries: "stream_of rs b = carries rs (msg_bytes b)"
  by (simp add: stream_of_def carries_def msg_bytes_def)

text \<open>A link that works: the connection comes up, fewer than eight attempts to send fail, and something whole comes back.\<close>

definition link_works :: "bool \<times> send_result list \<times> recv_result list \<Rightarrow> SOS_buffer \<Rightarrow> bool" where
  "link_works = (\<lambda>(connects, sends, recvs) msg.
     connects \<and> (\<exists>f < 8. sends = replicate f Send_Error @ [Sent (buf_len msg)]) \<and> (\<exists>ack. whole ack \<and> stream_of recvs ack))"

definition link_works_for :: "(nat \<Rightarrow> bool \<times> send_result list \<times> recv_result list) \<Rightarrow> SOS_buffer list \<Rightarrow> bool" where
  "link_works_for net msgs \<longleftrightarrow> (\<forall>k < length msgs. link_works (net k) (msgs ! k))"

lemma whole_len: "whole b \<Longrightarrow> 0 < buf_len b \<and> buf_len b \<le> length (buf_data b) \<and> \<not> buf_lock b"
  by (auto simp: whole_def is_msg_def holding_def packed_prefix_def buffer_wf_def)

lemma cloud_send_ok:
  assumes "whole msg" and "link_works link msg" and "\<not> tg_send_lock target" and "usable reply"
  shows "\<exists>target' reply'. SOSD_cloud_send False link target msg (Some reply) = Inr (target', msg_bytes msg, Some reply') \<and>
    \<not> tg_send_lock target' \<and> usable reply'"
proof -
  obtain f rs ack where l: "link = (True, replicate f Send_Error @ [Sent (buf_len msg)], rs)" "f < 8" "whole ack" "stream_of rs ack"
    using assms(2) by (auto simp: link_works_def split: prod.splits)
  obtain h e where a: "is_msg h e ack" "24 + length e \<le> MSG_LIMIT" using l(3) by (auto simp: whole_def)
  obtain xs rs0 where rs: "stream_ok rs" "stream_bytes rs = take (buf_len ack) (buf_data ack)" "24 \<le> length xs" "rs = Recv xs # rs0"
    using l(4) by (auto simp: stream_of_def)
  obtain reply' where r: "SOS_target_recv_msg False rs (Some reply) = Inr (Some reply', [], int (buf_len ack))" "usable reply'"
    using recv_usable [OF a rs assms(4)] by blast
  note w = whole_len [OF assms(1)]
  have "send_loop msg 0 0 [] (replicate f Send_Error @ [Sent (buf_len msg)]) = Inr (msg_bytes msg, [], int (buf_len msg), True)"
    using send_loop_ok [of msg 0 f "[]"] w l(2) by (simp add: msg_bytes_def)
  then show ?thesis
    using r assms(3) by (simp add: SOSD_cloud_send_def l(1) SOS_target_connect_def SOS_target_send_msg_def SOS_target_disconnect_def)
qed

lemma cloud_send_all:
  assumes "\<forall>m \<in> set msgs. whole m" and "\<forall>k < length msgs. link_works (net (i + k)) (msgs ! k)" and "\<not> tg_send_lock target" and "usable reply"
  shows "\<exists>target' reply'. foldR (cloud_send_one False net) (zip [i..<i + length msgs] msgs) (target, reply, outs) =
      Inr (target', reply', outs @ map msg_bytes msgs) \<and> \<not> tg_send_lock target' \<and> usable reply'"
  using assms
proof (induction msgs arbitrary: i target reply outs)
  case Nil
  then show ?case by simp
next
  case (Cons m msgs)
  have 1: "whole m" "link_works (net i) m" using Cons.prems(1,2) by auto
  obtain t r where s: "SOSD_cloud_send False (net i) target m (Some reply) = Inr (t, msg_bytes m, Some r)" "\<not> tg_send_lock t" "usable r"
    using cloud_send_ok [OF 1 Cons.prems(3,4)] by blast
  have "\<forall>k < length msgs. link_works (net (Suc i + k)) (msgs ! k)" using Cons.prems(2) by fastforce
  with Cons.IH [of "Suc i" t r "outs @ [msg_bytes m]"] Cons.prems(1) s(2,3) obtain t' r' where
    f: "foldR (cloud_send_one False net) (zip [Suc i..<Suc i + length msgs] msgs) (t, r, outs @ [msg_bytes m]) =
      Inr (t', r', outs @ [msg_bytes m] @ map msg_bytes msgs)" "\<not> tg_send_lock t'" "usable r'" by auto
  have z: "[i..<i + length (m # msgs)] = i # [Suc i..<Suc i + length msgs]" by (simp add: upt_rec)
  show ?case
    unfolding z using f s(1) SOS_buffer_destroy_free [of m] whole_len [OF 1(1)] by (simp add: cloud_send_one_def)
qed

lemma queue_take_all:
  assumes "q_ok mincap q" and "q_list q \<noteq> []"
  shows "\<exists>p. pipe_pop_eager mincap junk (qu_pipe q) (nat (qu_elem_count q)) = Inr (p, q_list q) \<and>
    q_ok mincap (q\<lparr>qu_pipe := p, qu_elem_count := qu_elem_count q - int (length (q_list q))\<rparr>) \<and> pipe_content p = []"
proof -
  let ?ts = "q_list q"
  have q: "ring_ok mincap (qu_pipe q)" "pp_elem_size (qu_pipe q) = 1" "qu_elem_count q = int (length ?ts)" "\<not> qu_sync_lock q"
    using assms(1) by (auto simp: q_ok_def)
  have pos: "0 < length ?ts" using assms(2) by (simp del: length_pipe_content)
  obtain p where p: "pipe_pop_bytes mincap junk (qu_pipe q) (length ?ts) = Inr (p, ?ts)" "ring_ok mincap p" "pipe_content p = []" "pp_elem_size p = 1"
    using pipe_pop_ok [OF q(1) assms(2) pos, of junk] q(2) by auto
  have "pipe_pop_eager mincap junk (qu_pipe q) (nat (qu_elem_count q)) = Inr (p, ?ts)"
    unfolding pipe_pop_eager_def q(3) nat_int q(2) using p(1) by (simp del: length_pipe_content)
  moreover have "q_ok mincap (q\<lparr>qu_pipe := p, qu_elem_count := qu_elem_count q - int (length ?ts)\<rparr>)"
    using p(2-4) q(3,4) by (simp add: q_ok_def flip: length_pipe_content)
  ultimately show ?thesis using p(3) by blast
qed

lemma cloud_round_ok:
  assumes "q_ok mincap (sd_cloud_send sd)" and "\<forall>m \<in> set (q_list (sd_cloud_send sd)). whole m" and "link_works_for net (q_list (sd_cloud_send sd))"
    and "\<not> sd_shutdown sd" and "\<not> tg_send_lock target" and "usable reply"
  shows "\<exists>q target' reply'. SOSD_cloud_sync_step mincap net (sd, target, reply) =
      Inr ((sd\<lparr>sd_cloud_send := q\<rparr>, target', reply'), map msg_bytes (q_list (sd_cloud_send sd)), True) \<and>
    q_ok mincap q \<and> q_list q = [] \<and> \<not> tg_send_lock target' \<and> usable reply'"
proof (cases "q_list (sd_cloud_send sd) = []")
  case True
  then have "qu_elem_count (sd_cloud_send sd) = 0" "\<not> qu_sync_lock (sd_cloud_send sd)" using assms(1) by (auto simp: q_ok_def simp del: length_pipe_content)
  then show ?thesis
    using True assms by (intro exI [of _ "sd_cloud_send sd"] exI [of _ target] exI [of _ reply]) (simp add: SOSD_cloud_sync_step_def Let_def)
next
  case False
  let ?q = "sd_cloud_send sd" let ?ms = "q_list ?q"
  obtain p where p: "pipe_pop_eager mincap SOS_buffer_init (qu_pipe ?q) (nat (qu_elem_count ?q)) = Inr (p, ?ms)"
      "q_ok mincap (?q\<lparr>qu_pipe := p, qu_elem_count := qu_elem_count ?q - int (length ?ms)\<rparr>)" "pipe_content p = []"
    using queue_take_all [OF assms(1) False] by blast
  obtain t r where f: "foldR (cloud_send_one False net) (zip [0..<length ?ms] ?ms) (target, reply, []) = Inr (t, r, map msg_bytes ?ms)"
      "\<not> tg_send_lock t" "usable r"
    using cloud_send_all [of ?ms net 0 target reply "[]"] assms(2,3,5,6) by (auto simp: link_works_for_def simp del: length_pipe_content)
  have n: "\<not> qu_elem_count ?q \<le> 0" "\<not> qu_sync_lock ?q" using assms(1) False by (auto simp: q_ok_def simp del: length_pipe_content)
  have sh: "sd_shutdown sd = False" using assms(4) by simp
  have "SOSD_cloud_sync_step mincap net (sd, target, reply) =
      Inr ((sd\<lparr>sd_cloud_send := ?q\<lparr>qu_pipe := p, qu_elem_count := qu_elem_count ?q - int (length ?ms)\<rparr>\<rparr>, t, r), map msg_bytes ?ms, True)"
    unfolding SOSD_cloud_sync_step_def Let_def prod.case checkR_True [OF n(2)] if_not_P [OF n(1)] p(1) bindR.simps if_not_P [OF False] sh f(1)
    by (rule refl)
  then show ?thesis using p(2,3) f(2,3) by (intro exI conjI) (assumption, assumption, simp_all del: length_pipe_content)
qed

section \<open>A run of receiving\<close>

definition SOSD_cloud_listen_all :: "SOS_ctx \<Rightarrow> recv_result list list \<Rightarrow> SOSD \<times> SOS_buffer \<Rightarrow> (SOSD \<times> SOS_buffer) res" where
  "SOSD_cloud_listen_all cx streams s =
     foldR (\<lambda>rs (sd, msg). bindR (SOSD_cloud_listen_step cx rs sd msg) (\<lambda>(sd, msg, _, _). Inr (sd, msg))) streams s"

lemma cloud_ack: "\<exists>ack. SOSD_PACK_ACK (SOS_buffer_init_sized_locking 2048 False) = Inr ack"
  using ack_reply_ok [of 2048 False] by (auto simp: ack_reply_def bindR_Inr_iff)

lemma unzip_usable:
  assumes "is_msg h e b" and "usable b"
  shows "\<exists>b'. SOS_msg_unzip b 0 = Inr (b', h\<lparr>hd_msg_size := word_of_nat (24 + length e)\<rparr>, 24) \<and> is_msg h e b' \<and> usable b'"
proof -
  have "holding b (24 + length e) (encode (header_args (h\<lparr>hd_msg_size := word_of_nat (24 + length e)\<rparr>)) @ e)" using assms(1) by (simp add: is_msg_def)
  note u = SOS_msg_unzip_held [OF this]
  have "usable (msg_unlock (b\<lparr>buf_is_zipped := False\<rparr>))" using assms(2) by (simp add: usable_def roomy_def buffer_wf_def msg_unlock_def)
  then show ?thesis using unzip_is_msg [OF assms(1)] u by auto
qed

lemma cloud_listen_queues:
  assumes "for_local sent" and "carries rs (msg_bytes sent)" and "usable msg" and "\<not> sd_shutdown sd" and "q_ok (cx_mincap cx) (sd_local sd)"
    and "length (q_list (sd_local sd)) + 2 \<le> cx_mincap cx"
  shows "\<exists>q b msg' ack. SOSD_cloud_listen_step cx rs sd msg = Inr (sd\<lparr>sd_local := q\<rparr>, msg', ack, []) \<and>
    q_ok (cx_mincap cx) q \<and> q_list q = q_list (sd_local sd) @ [b] \<and> same_msg sent b \<and> usable msg'"
proof -
  obtain t fr ref e where m: "is_msg (msg_header_of t fr ref) e sent" "24 + length e \<le> MSG_LIMIT"
      "t \<in> {SOS_MSG_TYPE_ANNOUNCE, SOS_MSG_TYPE_PUBLISH, SOS_MSG_TYPE_VAL_SNAPS}"
    using assms(1) unfolding for_local_def by blast
  let ?h = "msg_header_of t fr ref"
  obtain xs rs0 where rs: "stream_ok rs" "stream_bytes rs = take (buf_len sent) (buf_data sent)" "24 \<le> length xs" "rs = Recv xs # rs0"
    using assms(2) by (auto simp: carries_def msg_bytes_def)
  obtain r where r: "SOS_target_recv_msg False rs (Some (SOS_buffer_wipe msg)) = Inr (Some r, [], int (buf_len sent))" "is_msg ?h e r" "usable r"
    using recv_usable [OF m(1,2) rs fresh_msg_usable [OF usable_wiped [OF assms(3)]]] by blast
  obtain b where b: "SOS_msg_unzip r 0 = Inr (b, ?h\<lparr>hd_msg_size := word_of_nat (24 + length e)\<rparr>, 24)" "is_msg ?h e b" "usable b"
    using unzip_usable [OF r(2,3)] by blast
  obtain c where c: "msg_copy (word_of_nat (24 + length e)) b = Inr c" "is_msg ?h e c" using msg_copy_ok [OF b(2) m(2)] by blast
  obtain q where q: "queue_put (cx_mincap cx) c (sd_local sd) = Inr q" "q_ok (cx_mincap cx) q" "q_list q = q_list (sd_local sd) @ [c]"
    using queue_put_ok [OF assms(5,6)] by blast
  obtain ack where ack: "SOSD_PACK_ACK (SOS_buffer_init_sized_locking 2048 False) = Inr ack" using cloud_ack by blast
  have "SOSD_cloud_process_buffer cx sd r = Inr (sd\<lparr>sd_local := q\<rparr>, b, [])"
    using m(3) b(1) c(1) q(1) by (auto simp: SOSD_cloud_process_buffer_def msg_header_of_def SOS_msg_type_enum.decode_code)
  then have "SOSD_cloud_listen_step cx rs sd msg = Inr (sd\<lparr>sd_local := q\<rparr>, b, ack, [])"
    using ack r(1) assms(4) by (simp add: SOSD_cloud_listen_step_def)
  then show ?thesis using q(2,3) same_msgI [OF m(1) c(2)] b(3) by blast
qed

lemma cloud_listen_all_queues:
  assumes "list_all2 carries streams (map msg_bytes msgs)" and "\<forall>b \<in> set msgs. for_local b" and "usable msg" and "\<not> sd_shutdown sd"
    and "q_ok (cx_mincap cx) (sd_local sd)" and "length (q_list (sd_local sd)) + length msgs + 1 \<le> cx_mincap cx"
  shows "\<exists>q bs msg'. SOSD_cloud_listen_all cx streams (sd, msg) = Inr (sd\<lparr>sd_local := q\<rparr>, msg') \<and>
    q_ok (cx_mincap cx) q \<and> q_list q = q_list (sd_local sd) @ bs \<and> list_all2 same_msg msgs bs \<and> usable msg'"
  using assms
proof (induction msgs arbitrary: streams sd msg)
  case Nil
  then show ?case by (intro exI [of _ "sd_local sd"] exI [of _ "[]"] exI [of _ msg]) (simp add: SOSD_cloud_listen_all_def)
next
  case (Cons m msgs)
  obtain rs streams' where st: "streams = rs # streams'" "carries rs (msg_bytes m)" "list_all2 carries streams' (map msg_bytes msgs)"
    using Cons.prems(1) by (auto simp: list_all2_Cons2)
  have fm: "for_local m" and room: "length (q_list (sd_local sd)) + 2 \<le> cx_mincap cx" using Cons.prems(2,6) by simp_all
  obtain q b msg1 ack where l: "SOSD_cloud_listen_step cx rs sd msg = Inr (sd\<lparr>sd_local := q\<rparr>, msg1, ack, [])"
      "q_ok (cx_mincap cx) q" "q_list q = q_list (sd_local sd) @ [b]" "same_msg m b" "usable msg1"
    using cloud_listen_queues [OF fm st(2) Cons.prems(3,4,5) room] by blast
  have len: "length (q_list q) = length (q_list (sd_local sd)) + 1" by (simp only: l(3) length_append) simp
  have "\<exists>q' bs msg'. SOSD_cloud_listen_all cx streams' (sd\<lparr>sd_local := q\<rparr>, msg1) = Inr ((sd\<lparr>sd_local := q\<rparr>)\<lparr>sd_local := q'\<rparr>, msg') \<and>
    q_ok (cx_mincap cx) q' \<and> q_list q' = q_list (sd_local (sd\<lparr>sd_local := q\<rparr>)) @ bs \<and> list_all2 same_msg msgs bs \<and> usable msg'"
    using Cons.IH [of streams' msg1 "sd\<lparr>sd_local := q\<rparr>"] Cons.prems st(3) l(2,5) len by (simp del: length_pipe_content)
  then obtain q' bs msg' where r: "SOSD_cloud_listen_all cx streams' (sd\<lparr>sd_local := q\<rparr>, msg1) = Inr (sd\<lparr>sd_local := q'\<rparr>, msg')"
      "q_ok (cx_mincap cx) q'" "q_list q' = q_list q @ bs" "list_all2 same_msg msgs bs" "usable msg'"
    by auto
  then show ?case
    using l(1,3,4) st(1) by (intro exI [of _ q'] exI [of _ "b # bs"] exI [of _ msg']) (simp add: SOSD_cloud_listen_all_def)
qed

section \<open>The whole way\<close>

lemma same_msg_for_local: "same_msg a b \<Longrightarrow> for_local a \<Longrightarrow> for_local b"
  unfolding same_msg_def for_local_def by blast

lemma same_msg_same_bytes: "for_local a \<Longrightarrow> same_msg a b \<Longrightarrow> msg_bytes b = msg_bytes a"
proof -
  assume a: "for_local a" "same_msg a b"
  then obtain h e where m: "is_msg h e a" unfolding for_local_def by blast
  show ?thesis unfolding msg_bytes_def is_msg_bytes [OF m] is_msg_bytes [OF same_msg_is [OF a(2) m]] by (rule refl)
qed

lemma same_msgs_same_bytes:
  "list_all2 same_msg as bs \<Longrightarrow> \<forall>a \<in> set as. for_local a \<Longrightarrow> map msg_bytes bs = map msg_bytes as \<and> (\<forall>b \<in> set bs. for_local b)"
  by (induction rule: list_all2_induct) (auto simp: same_msg_same_bytes intro: same_msg_for_local)

lemma same_msgs_trans: "list_all2 same_msg as bs \<Longrightarrow> list_all2 same_msg bs cs \<Longrightarrow> list_all2 same_msg as cs"
  by (rule list_all2_trans [where ?P1.0 = same_msg and ?P2.0 = same_msg]) (auto intro: same_msg_trans)

lemma for_local_whole: "for_local b \<Longrightarrow> whole b"
  by (auto simp: for_local_def whole_def)

text \<open>What a daemon has once a publication was handled: the values, the tasks for its database, the snapshots in order.\<close>

definition delivered :: "nat \<Rightarrow> (nat \<Rightarrow> c_double) \<Rightarrow> SOS_pub \<Rightarrow> SOSD \<Rightarrow> SOSD \<Rightarrow> nat \<Rightarrow> bool" where
  "delivered mincap clock pub sd sd' a \<longleftrightarrow>
     daemon_ok mincap sd' \<and> pub_find sd' (pb_guid pub) = Some a \<and> holds (clock 0) pub (sd_pubs sd' ! a) \<and> q_list (sd_local sd') = [] \<and>
     q_list (sd_db sd') = q_list (sd_db sd) @ map (\<lambda>t. \<lparr>tk_type = enum_code SOS_msg_type_vals t, tk_ref = a\<rparr>)
       ([SOS_MSG_TYPE_ANNOUNCE, SOS_MSG_TYPE_PUBLISH] @ (if queued pub = [] then [] else [SOS_MSG_TYPE_VAL_SNAPS])) \<and>
     pipe_content (sq_pipe (sd_snap_queue sd')) = pipe_content (sq_pipe (sd_snap_queue sd)) @
       map (snap_received (\<lambda>i. clock (Suc i)) (pb_guid pub)) (zip [0..<length (queued pub)] (queued pub))"

text \<open>A daemon that can take the first publication of a client.\<close>

definition awaits :: "nat \<Rightarrow> SOS_pub \<Rightarrow> SOSD \<Rightarrow> bool" where
  "awaits mincap pub sd \<longleftrightarrow>
     daemon_ok mincap sd \<and> \<not> sd_shutdown sd \<and> pub_find sd (pb_guid pub) = None \<and> q_list (sd_local sd) = [] \<and> q_list (sd_cloud_send sd) = [] \<and>
     pool_ready 1 (sd_guid sd) \<and> room mincap 3 sd \<and> length (pipe_content (sq_pipe (sd_snap_queue sd))) + length (queued pub) + 1 \<le> mincap"

text \<open>
  C2: the values of a client reach the aggregator. The client publishes a publication for the first time; the listener of
  its node receives the messages, however the network cuts them, and its local thread handles them; the thread that sends
  to the aggregator empties its queue, with each message sent whole; the aggregator receives them, however they are cut,
  and its local thread handles them. In the end both daemons have the publication with the values of the client, a task
  for their database for each message, and the snapshots in order, and no message waits in any queue.
\<close>

theorem publication_reaches_aggregator:
  assumes "well_defined pub" and "typed_elems (pub_used pub)" and "24 + length (announce_body pub) \<le> MSG_LIMIT" and "sendable clock hi pub"
    and "\<not> pb_lock pub" and "pb_announced pub = 0" and "link_up cx" and "pb_snap_queue pub = Some q" and "queue_ok (cx_mincap cx) q"
    and "cx_role lcx = SOS_ROLE_LISTENER" and "awaits (cx_mincap lcx) pub ld" and "fresh_msg lbuf"
    and "\<not> tg_send_lock target" and "usable reply"
    and "cx_role acx = SOS_ROLE_AGGREGATOR" and "awaits (cx_mincap acx) pub ad" and "usable abuf"
  shows "\<exists>pub' sent. SOS_publish cx hi clock pub = Inr (pub', sent) \<and>
    (\<forall>streams. list_all2 stream_of streams sent \<longrightarrow>
      (\<exists>ld1 lbuf' ld2 a. SOSD_listen_all lcx server_uid other streams (ld, lbuf) = Inr (ld1, lbuf') \<and>
        SOSD_local_rounds lcx False lclock (length sent) ld1 = Inr ld2 \<and> delivered (cx_mincap lcx) clock pub ld ld2 a \<and>
        (\<forall>net. link_works_for net (q_list (sd_cloud_send ld2)) \<longrightarrow>
          (\<exists>ld3 target' reply' wire. SOSD_cloud_sync_step (cx_mincap lcx) net (ld2, target, reply) = Inr ((ld3, target', reply'), wire, True) \<and>
            q_list (sd_cloud_send ld3) = [] \<and> wire = map msg_bytes sent \<and>
            (\<forall>streams'. list_all2 carries streams' wire \<longrightarrow>
              (\<exists>ad1 abuf' ad2 b. SOSD_cloud_listen_all acx streams' (ad, abuf) = Inr (ad1, abuf') \<and>
                SOSD_local_rounds acx False aclock (length sent) ad1 = Inr ad2 \<and> delivered (cx_mincap acx) clock pub ad ad2 b \<and>
                q_list (sd_cloud_send ad2) = []))))))"
proof -
  have an: "announceable pub" using assms(1) by (simp add: well_defined_def)
  obtain pub' ann sent where p: "SOS_publish cx hi clock pub = Inr (pub', ann # sent)"
      "is_msg (msg_header_of SOS_MSG_TYPE_ANNOUNCE (cx_my_guid cx) (pb_guid pub)) (announce_body pub) ann" "publish_msgs cx hi clock pub sent"
    using SOS_publish_first [OF an assms(3,5,7,4,8,9,6)] by blast
  have "for_local ann" using assms(3) p(2) unfolding for_local_def by blast
  then have fl: "\<forall>b \<in> set (ann # sent). for_local b" using publish_msgs_for_local [OF p(3) assms(4)] by simp
  have l: "daemon_ok (cx_mincap lcx) ld" "\<not> sd_shutdown ld" "pub_find ld (pb_guid pub) = None" "q_list (sd_local ld) = []" "q_list (sd_cloud_send ld) = []"
      "cx_role lcx \<noteq> SOS_ROLE_CLIENT" "pool_ready 1 (sd_guid ld)" "room (cx_mincap lcx) 3 ld"
      "length (pipe_content (sq_pipe (sd_snap_queue ld))) + length (queued pub) + 1 \<le> cx_mincap lcx"
    using assms(10,11) by (simp_all add: awaits_def)
  have g: "daemon_ok (cx_mincap acx) ad" "\<not> sd_shutdown ad" "pub_find ad (pb_guid pub) = None" "q_list (sd_local ad) = []" "q_list (sd_cloud_send ad) = []"
      "cx_role acx \<noteq> SOS_ROLE_CLIENT" "cx_role acx \<noteq> SOS_ROLE_LISTENER" "pool_ready 1 (sd_guid ad)" "room (cx_mincap acx) 3 ad"
      "length (pipe_content (sq_pipe (sd_snap_queue ad))) + length (queued pub) + 1 \<le> cx_mincap acx"
    using assms(15,16) by (simp_all add: awaits_def)
  show ?thesis
  proof (rule exI [of _ pub'], rule exI [of _ "ann # sent"], rule conjI [OF p(1)], intro allI impI)
    fix streams
    assume "list_all2 stream_of streams (ann # sent)"
    from delivery [OF assms(1-4) p(2,3) l(1-4,6-9) this assms(12), of server_uid other lclock, unfolded if_P [OF assms(10)] l(5) append_Nil]
    obtain ld1 lbuf' ld2 a fwd where d0: "SOSD_listen_all lcx server_uid other streams (ld, lbuf) = Inr (ld1, lbuf')"
        "SOSD_local_rounds lcx False lclock (length (ann # sent)) ld1 = Inr ld2" "daemon_ok (cx_mincap lcx) ld2"
        "pub_find ld2 (pb_guid pub) = Some a" "holds (clock 0) pub (sd_pubs ld2 ! a)" "q_list (sd_local ld2) = []"
        "q_list (sd_db ld2) = q_list (sd_db ld) @ map (\<lambda>t. \<lparr>tk_type = enum_code SOS_msg_type_vals t, tk_ref = a\<rparr>)
          ([SOS_MSG_TYPE_ANNOUNCE, SOS_MSG_TYPE_PUBLISH] @ (if queued pub = [] then [] else [SOS_MSG_TYPE_VAL_SNAPS]))"
        "pipe_content (sq_pipe (sd_snap_queue ld2)) = pipe_content (sq_pipe (sd_snap_queue ld)) @
          map (snap_received (\<lambda>i. clock (Suc i)) (pb_guid pub)) (zip [0..<length (queued pub)] (queued pub))"
        "q_list (sd_cloud_send ld2) = fwd" "list_all2 same_msg (ann # sent) fwd" "sd_shutdown ld2 = sd_shutdown ld"
      by (elim exE conjE) (rule that)
    have dl: "delivered (cx_mincap lcx) clock pub ld ld2 a" unfolding delivered_def using d0(3-8) by (intro conjI)
    have d: "SOSD_listen_all lcx server_uid other streams (ld, lbuf) = Inr (ld1, lbuf')"
        "SOSD_local_rounds lcx False lclock (length (ann # sent)) ld1 = Inr ld2" "delivered (cx_mincap lcx) clock pub ld ld2 a"
        "q_list (sd_cloud_send ld2) = fwd" "list_all2 same_msg (ann # sent) fwd" "\<not> sd_shutdown ld2"
      using d0(1,2,9-11) dl l(2) by (simp_all only: simp_thms)
    note fwd = same_msgs_same_bytes [OF d(5) fl]
    have q2: "q_ok (cx_mincap lcx) (sd_cloud_send ld2)" using d(3) by (simp add: delivered_def daemon_ok_def)
    have w: "\<forall>m \<in> set (q_list (sd_cloud_send ld2)). whole m" using fwd for_local_whole unfolding d(4) by blast
    have n: "length (q_list (sd_local ad)) + length fwd + 1 \<le> cx_mincap acx"
      using g(4,9) publish_msgs_count [OF p(3)] list_all2_lengthD [OF d(5)] by (simp add: room_def del: length_pipe_content)
    have qa: "q_ok (cx_mincap acx) (sd_local ad)" using g(1) by (simp add: daemon_ok_def)
    show "\<exists>ld1 lbuf' ld2 a. SOSD_listen_all lcx server_uid other streams (ld, lbuf) = Inr (ld1, lbuf') \<and>
        SOSD_local_rounds lcx False lclock (length (ann # sent)) ld1 = Inr ld2 \<and> delivered (cx_mincap lcx) clock pub ld ld2 a \<and>
        (\<forall>net. link_works_for net (q_list (sd_cloud_send ld2)) \<longrightarrow>
          (\<exists>ld3 target' reply' wire. SOSD_cloud_sync_step (cx_mincap lcx) net (ld2, target, reply) = Inr ((ld3, target', reply'), wire, True) \<and>
            q_list (sd_cloud_send ld3) = [] \<and> wire = map msg_bytes (ann # sent) \<and>
            (\<forall>streams'. list_all2 carries streams' wire \<longrightarrow>
              (\<exists>ad1 abuf' ad2 b. SOSD_cloud_listen_all acx streams' (ad, abuf) = Inr (ad1, abuf') \<and>
                SOSD_local_rounds acx False aclock (length (ann # sent)) ad1 = Inr ad2 \<and> delivered (cx_mincap acx) clock pub ad ad2 b \<and>
                q_list (sd_cloud_send ad2) = []))))"
    proof (rule exI [of _ ld1], rule exI [of _ lbuf'], rule exI [of _ ld2], rule exI [of _ a], intro conjI allI impI d(1-3))
      fix net
      assume "link_works_for net (q_list (sd_cloud_send ld2))"
      from cloud_round_ok [OF q2 w this d(6) assms(13,14)] obtain q3 t3 r3 where
        c: "SOSD_cloud_sync_step (cx_mincap lcx) net (ld2, target, reply) = Inr ((ld2\<lparr>sd_cloud_send := q3\<rparr>, t3, r3), map msg_bytes (ann # sent), True)"
          "q_list q3 = []"
        unfolding d(4) fwd [THEN conjunct1] by blast
      have "\<exists>ad1 abuf' ad2 b. SOSD_cloud_listen_all acx streams' (ad, abuf) = Inr (ad1, abuf') \<and>
          SOSD_local_rounds acx False aclock (length (ann # sent)) ad1 = Inr ad2 \<and> delivered (cx_mincap acx) clock pub ad ad2 b \<and>
          q_list (sd_cloud_send ad2) = []" if "list_all2 carries streams' (map msg_bytes (ann # sent))" for streams'
      proof -
        from that have st: "list_all2 carries streams' (map msg_bytes fwd)" unfolding fwd [THEN conjunct1] .
        obtain qn bs abuf' where r: "SOSD_cloud_listen_all acx streams' (ad, abuf) = Inr (ad\<lparr>sd_local := qn\<rparr>, abuf')"
            "q_ok (cx_mincap acx) qn" "q_list qn = bs" "list_all2 same_msg fwd bs"
          using cloud_listen_all_queues [OF st fwd [THEN conjunct2] assms(17) g(2) qa n] unfolding g(4) append_Nil by blast
        let ?s = "ad\<lparr>sd_local := qn\<rparr>"
        have s: "daemon_ok (cx_mincap acx) ?s" "pub_find ?s (pb_guid pub) = None" "q_list (sd_local ?s) = bs" "pool_ready 1 (sd_guid ?s)"
            "room (cx_mincap acx) 3 ?s" "length (pipe_content (sq_pipe (sd_snap_queue ?s))) + length (queued pub) + 1 \<le> cx_mincap acx"
          using g(1,3,8-10) r(2,3) by (simp_all add: daemon_ok_def)
        from delivery_rounds [OF assms(1-4) p(2,3) s(1-3) same_msgs_trans [OF d(5) r(4)] g(6) s(4-6), of aclock]
        show ?thesis unfolding delivered_def if_not_P [OF g(7)] using r(1) g(5) by auto
      qed
      then show "\<exists>ld3 target' reply' wire. SOSD_cloud_sync_step (cx_mincap lcx) net (ld2, target, reply) = Inr ((ld3, target', reply'), wire, True) \<and>
          q_list (sd_cloud_send ld3) = [] \<and> wire = map msg_bytes (ann # sent) \<and>
          (\<forall>streams'. list_all2 carries streams' wire \<longrightarrow>
            (\<exists>ad1 abuf' ad2 b. SOSD_cloud_listen_all acx streams' (ad, abuf) = Inr (ad1, abuf') \<and>
              SOSD_local_rounds acx False aclock (length (ann # sent)) ad1 = Inr ad2 \<and> delivered (cx_mincap acx) clock pub ad ad2 b \<and>
              q_list (sd_cloud_send ad2) = []))"
        using c by (intro exI [of _ "ld2\<lparr>sd_cloud_send := q3\<rparr>"] exI [of _ t3] exI [of _ r3] exI [of _ "map msg_bytes (ann # sent)"]) simp
    qed
  qed
qed

lemma publish_sends_for_local:
  assumes "well_defined pub" and "24 + length (announce_body pub) \<le> MSG_LIMIT" and "\<not> pb_lock pub" and "link_up cx" and "sendable clock hi pub"
    and "pb_snap_queue pub = Some q" and "queue_ok (cx_mincap cx) q" and "pb_announced pub = 0" and "SOS_publish cx hi clock pub = Inr (pub', sent)"
  shows "\<forall>b \<in> set sent. for_local b"
proof -
  have an: "announceable pub" using assms(1) by (simp add: well_defined_def)
  obtain pub'' ann sent' where s: "SOS_publish cx hi clock pub = Inr (pub'', ann # sent')"
      "is_msg (msg_header_of SOS_MSG_TYPE_ANNOUNCE (cx_my_guid cx) (pb_guid pub)) (announce_body pub) ann" "publish_msgs cx hi clock pub sent'"
    using SOS_publish_first [OF an assms(2-8)] by blast
  have "for_local ann" using s(2) assms(2) unfolding for_local_def by blast
  then show ?thesis using publish_msgs_for_local [OF s(3) assms(5)] s(1) assms(9) by auto
qed

lemma one_piece_carries: "for_local b \<Longrightarrow> carries [Recv (msg_bytes b)] (msg_bytes b)"
  using streams_exist [of "[b]"] by (simp add: stream_of_carries msg_bytes_def)

lemma example_hop: obtains net where "link_works_for net msgs"
proof -
  obtain b h e where m: "is_msg h e b" "24 + length e \<le> MSG_LIMIT" "buf_len b = 24 + length e" by (rule example_msg)
  have "whole b" using m by (auto simp: whole_def)
  moreover have "stream_of [Recv (take (buf_len b) (buf_data b))] b" by (rule stream_of_whole [OF m(1)])
  ultimately have "link_works_for (\<lambda>k. (True, [Sent (buf_len (msgs ! k))], [Recv (take (buf_len b) (buf_data b))])) msgs"
    by (auto simp: link_works_for_def link_works_def intro!: exI [of _ "0 :: nat"])
  then show thesis by (rule that)
qed

definition example_aggregator_ctx :: SOS_ctx where
  "example_aggregator_ctx = example_ctx\<lparr>cx_role := SOS_ROLE_AGGREGATOR\<rparr>"

lemma example_awaits:
  assumes "queued pub = [x]"
  obtains sd where "SOSD_init 5 1 0 = Inr sd" and "awaits 5 pub sd" and "pipe_content (sq_pipe (sd_snap_queue sd)) = []"
proof -
  obtain sd where sd: "SOSD_init 5 1 0 = Inr sd \<and> daemon_ok 5 sd \<and> sd_pubs sd = [] \<and> (\<forall>g. pub_find sd g = None) \<and>
    q_list (sd_local sd) = [] \<and> q_list (sd_cloud_send sd) = [] \<and> q_list (sd_db sd) = [] \<and>
    pipe_content (sq_pipe (sd_snap_queue sd)) = [] \<and> sd_guid sd = SOSD_guid_range 1 0 \<and> \<not> sd_shutdown sd \<and> sd_running sd"
    using SOSD_init_ok [of 5 1 0] by auto
  moreover have "pool_ready 1 (SOSD_guid_range 1 0)"
    by (simp add: pool_ready_def SOSD_guid_range_def SOS_uid_init_def Let_def SOS_DEFAULT_UID_MAX_def)
  ultimately show ?thesis using that assms by (simp add: awaits_def room_def flip: length_pipe_content)
qed

theorem publication_reaches_aggregator_witness:
  "\<exists>pub pub' sent ld ld1 lbuf' ld2 net target' reply' ld3 wire ad ad1 abuf' ad2 b. SOSD_init 5 1 0 = Inr ld \<and> SOSD_init 5 1 0 = Inr ad \<and>
    SOS_publish example_ctx 0 (\<lambda>_. Fin 0) pub = Inr (pub', sent) \<and>
    SOSD_listen_all example_daemon_ctx 1 (\<lambda>_ sd b. Inr (sd, b, None)) (map (\<lambda>b. [Recv (msg_bytes b)]) sent) (ld, SOS_buffer_init) = Inr (ld1, lbuf') \<and>
    SOSD_local_rounds example_daemon_ctx False (\<lambda>_. Fin 0) (length sent) ld1 = Inr ld2 \<and>
    SOSD_cloud_sync_step 5 net (ld2, SOS_target_init, SOS_buffer_init) = Inr ((ld3, target', reply'), wire, True) \<and>
    SOSD_cloud_listen_all example_aggregator_ctx (map (\<lambda>bs. [Recv bs]) wire) (ad, SOS_buffer_init) = Inr (ad1, abuf') \<and>
    SOSD_local_rounds example_aggregator_ctx False (\<lambda>_. Fin 0) (length sent) ad1 = Inr ad2 \<and>
    pub_find ad2 (pb_guid pub) = Some b \<and> dt_val (pb_data (sd_pubs ad2 ! b) ! 0) = Val_i 21 \<and>
    map sn_val (pipe_content (sq_pipe (sd_snap_queue ad2))) = [Val_i 21]"
proof -
  obtain q pub where c: "pub = example_source\<lparr>pb_snap_queue := Some q\<rparr>" "queue_ok 5 q" "queued pub = [example_snap]" "well_defined pub"
      "typed_elems (pub_used pub)" "24 + length (announce_body pub) \<le> MSG_LIMIT" "sendable (\<lambda>_. Fin 0) 0 pub" "pub_used pub = [example_elem]"
      "\<not> pb_lock pub" "pb_announced pub = 0"
    by (rule example_client) blast
  obtain sd where d: "SOSD_init 5 1 0 = Inr sd" "awaits 5 pub sd" "pipe_content (sq_pipe (sd_snap_queue sd)) = []" by (rule example_awaits [OF c(3)])
  have m: "cx_mincap example_ctx = 5" "cx_mincap example_daemon_ctx = 5" "cx_mincap example_aggregator_ctx = 5" "cx_role example_daemon_ctx = SOS_ROLE_LISTENER"
      "cx_role example_aggregator_ctx = SOS_ROLE_AGGREGATOR" "link_up example_ctx"
    by (simp_all add: example_ctx_def example_daemon_ctx_def example_aggregator_ctx_def link_up_def)
  have sq: "pb_snap_queue pub = Some q" by (simp add: c(1))
  have t: "\<not> tg_send_lock SOS_target_init" "usable SOS_buffer_init" by (simp_all add: SOS_target_init_def fresh_msg_usable)
  from publication_reaches_aggregator [of pub "\<lambda>_. Fin 0" 0 example_ctx q example_daemon_ctx sd SOS_buffer_init SOS_target_init SOS_buffer_init
      example_aggregator_ctx sd SOS_buffer_init 1 "\<lambda>_ sd b. Inr (sd, b, None)" "\<lambda>_. Fin 0" "\<lambda>_. Fin 0", unfolded m(1-3),
      OF c(4-7,9,10) m(6) sq c(2) m(4) d(2) fresh_msg_init t m(5) d(2) t(2)]
  obtain pub' sent where p: "SOS_publish example_ctx 0 (\<lambda>_. Fin 0) pub = Inr (pub', sent)" and
    del: "\<forall>streams. list_all2 stream_of streams sent \<longrightarrow>
      (\<exists>ld1 lbuf' ld2 a. SOSD_listen_all example_daemon_ctx 1 (\<lambda>_ sd b. Inr (sd, b, None)) streams (sd, SOS_buffer_init) = Inr (ld1, lbuf') \<and>
        SOSD_local_rounds example_daemon_ctx False (\<lambda>_. Fin 0) (length sent) ld1 = Inr ld2 \<and> delivered 5 (\<lambda>_. Fin 0) pub sd ld2 a \<and>
        (\<forall>net. link_works_for net (q_list (sd_cloud_send ld2)) \<longrightarrow>
          (\<exists>ld3 target' reply' wire. SOSD_cloud_sync_step 5 net (ld2, SOS_target_init, SOS_buffer_init) = Inr ((ld3, target', reply'), wire, True) \<and>
            q_list (sd_cloud_send ld3) = [] \<and> wire = map msg_bytes sent \<and>
            (\<forall>streams'. list_all2 carries streams' wire \<longrightarrow>
              (\<exists>ad1 abuf' ad2 b. SOSD_cloud_listen_all example_aggregator_ctx streams' (sd, SOS_buffer_init) = Inr (ad1, abuf') \<and>
                SOSD_local_rounds example_aggregator_ctx False (\<lambda>_. Fin 0) (length sent) ad1 = Inr ad2 \<and> delivered 5 (\<lambda>_. Fin 0) pub sd ad2 b \<and>
                q_list (sd_cloud_send ad2) = [])))))"
    by (elim exE conjE) (rule that)
  have fl: "\<forall>b \<in> set sent. for_local b"
    using publish_sends_for_local [OF c(4,6,9) m(6) c(7) sq _ c(10) p] c(2) m(1) by simp
  have st: "list_all2 stream_of (map (\<lambda>b. [Recv (msg_bytes b)]) sent) sent" using streams_exist [OF fl] by (simp add: msg_bytes_def)
  obtain ld1 lbuf' ld2 where l: "SOSD_listen_all example_daemon_ctx 1 (\<lambda>_ sd b. Inr (sd, b, None)) (map (\<lambda>b. [Recv (msg_bytes b)]) sent) (sd, SOS_buffer_init) = Inr (ld1, lbuf')"
      "SOSD_local_rounds example_daemon_ctx False (\<lambda>_. Fin 0) (length sent) ld1 = Inr ld2"
    and next_hop: "\<forall>net. link_works_for net (q_list (sd_cloud_send ld2)) \<longrightarrow>
          (\<exists>ld3 target' reply' wire. SOSD_cloud_sync_step 5 net (ld2, SOS_target_init, SOS_buffer_init) = Inr ((ld3, target', reply'), wire, True) \<and>
            q_list (sd_cloud_send ld3) = [] \<and> wire = map msg_bytes sent \<and>
            (\<forall>streams'. list_all2 carries streams' wire \<longrightarrow>
              (\<exists>ad1 abuf' ad2 b. SOSD_cloud_listen_all example_aggregator_ctx streams' (sd, SOS_buffer_init) = Inr (ad1, abuf') \<and>
                SOSD_local_rounds example_aggregator_ctx False (\<lambda>_. Fin 0) (length sent) ad1 = Inr ad2 \<and> delivered 5 (\<lambda>_. Fin 0) pub sd ad2 b \<and>
                q_list (sd_cloud_send ad2) = [])))"
    using del [THEN spec, THEN mp, OF st] by (elim exE conjE) (rule that)
  obtain net where net: "link_works_for net (q_list (sd_cloud_send ld2))" by (rule example_hop)
  obtain ld3 target' reply' wire where w: "SOSD_cloud_sync_step 5 net (ld2, SOS_target_init, SOS_buffer_init) = Inr ((ld3, target', reply'), wire, True)"
      "wire = map msg_bytes sent"
    and last_hop: "\<forall>streams'. list_all2 carries streams' wire \<longrightarrow>
              (\<exists>ad1 abuf' ad2 b. SOSD_cloud_listen_all example_aggregator_ctx streams' (sd, SOS_buffer_init) = Inr (ad1, abuf') \<and>
                SOSD_local_rounds example_aggregator_ctx False (\<lambda>_. Fin 0) (length sent) ad1 = Inr ad2 \<and> delivered 5 (\<lambda>_. Fin 0) pub sd ad2 b \<and>
                q_list (sd_cloud_send ad2) = [])"
    using next_hop [THEN spec, THEN mp, OF net] by (elim exE conjE) (rule that)
  have sw: "list_all2 carries (map (\<lambda>bs. [Recv bs]) wire) wire"
    using fl one_piece_carries by (auto simp: w(2) list_all2_conv_all_nth)
  obtain ad1 abuf' ad2 b where a: "SOSD_cloud_listen_all example_aggregator_ctx (map (\<lambda>bs. [Recv bs]) wire) (sd, SOS_buffer_init) = Inr (ad1, abuf')"
      "SOSD_local_rounds example_aggregator_ctx False (\<lambda>_. Fin 0) (length sent) ad1 = Inr ad2" "delivered 5 (\<lambda>_. Fin 0) pub sd ad2 b"
    using last_hop [THEN spec, THEN mp, OF sw] by (elim exE conjE) (rule that)
  have h: "pub_find ad2 (pb_guid pub) = Some b" "holds (Fin 0) pub (sd_pubs ad2 ! b)"
      "pipe_content (sq_pipe (sd_snap_queue ad2)) = map (snap_received (\<lambda>i. Fin 0) (pb_guid pub)) (zip [0..<length (queued pub)] (queued pub))"
    using a(3) d(3) by (simp_all add: delivered_def)
  have "dt_val (pb_data (sd_pubs ad2 ! b) ! 0) = Val_i 21"
    using h(2) c(8) by (simp add: holds_def example_elem_enc received_elem_def) (simp add: example_elem_def)
  moreover have "map sn_val (pipe_content (sq_pipe (sd_snap_queue ad2))) = [Val_i 21]"
    unfolding h(3) by (simp add: c(3) snap_received_def example_snap_def)
  ultimately have r: "SOSD_init 5 1 0 = Inr sd \<and> SOSD_init 5 1 0 = Inr sd \<and>
    SOS_publish example_ctx 0 (\<lambda>_. Fin 0) pub = Inr (pub', sent) \<and>
    SOSD_listen_all example_daemon_ctx 1 (\<lambda>_ sd b. Inr (sd, b, None)) (map (\<lambda>b. [Recv (msg_bytes b)]) sent) (sd, SOS_buffer_init) = Inr (ld1, lbuf') \<and>
    SOSD_local_rounds example_daemon_ctx False (\<lambda>_. Fin 0) (length sent) ld1 = Inr ld2 \<and>
    SOSD_cloud_sync_step 5 net (ld2, SOS_target_init, SOS_buffer_init) = Inr ((ld3, target', reply'), wire, True) \<and>
    SOSD_cloud_listen_all example_aggregator_ctx (map (\<lambda>bs. [Recv bs]) wire) (sd, SOS_buffer_init) = Inr (ad1, abuf') \<and>
    SOSD_local_rounds example_aggregator_ctx False (\<lambda>_. Fin 0) (length sent) ad1 = Inr ad2 \<and>
    pub_find ad2 (pb_guid pub) = Some b \<and> dt_val (pb_data (sd_pubs ad2 ! b) ! 0) = Val_i 21 \<and>
    map sn_val (pipe_content (sq_pipe (sd_snap_queue ad2))) = [Val_i 21]"
    using d(1) p l w(1) a(1,2) h(1) by simp
  show ?thesis by (intro exI) (rule r)
qed

section \<open>At the edges\<close>

text \<open>The unused way into the queue reads seven pointers behind the one it was given.\<close>

lemma enqueue_overreads:
  assumes "is_msg h e b" and "\<not> qu_sync_lock (sd_cloud_send sd)" and "pp_elem_size (qu_pipe (sd_cloud_send sd)) = 1"
  shows "SOSD_cloud_enqueue mincap False b sd = Inl Out_Of_Bounds"
proof -
  have "holding b (24 + length e) ([] @ encode (header_args (h\<lparr>hd_msg_size := word_of_nat (24 + length e)\<rparr>)) @ e)" "buf_len b \<noteq> 0"
    using assms(1) by (auto simp: is_msg_def)
  from holding_unpack [OF this(1), of "[DestI, DestI, DestG, DestG]"] this(2) assms(2,3) show ?thesis
    by (simp add: SOSD_cloud_enqueue_def header_args_def pipe_push_def mem_read_def)
qed

text \<open>A daemon that registers with a rank that does not exist writes outside the table of targets.\<close>

lemma register_beyond_targets:
  assumes "SOS_buffer_unpack msg 0 ''iigg'' [DestI, DestI, DestG, DestG] = Inr (msg', offset, n, [a, b, OutG msg_from, c])"
    and "SOSD_socket_register_connection cx sd msg = Inr (sd', rank, reply)"
  shows "rank = unat msg_from" and "rank < length (sd_cloud_targets sd)" and "sd_cloud_targets sd' = (sd_cloud_targets sd)[rank := True]"
  using assms(2) unfolding SOSD_socket_register_connection_def assms(1) by (auto simp: bindR_Inr_iff checkR_Inr_iff)

end
