(* ===== verification/SOS_Output.thy ===== *)
theory SOS_Output
  imports SOS_Analysis
begin

text \<open>
  Printing a table of results (\<open>SOSA_results_output_to\<close> of \<open>sosa.c\<close>), as comma separated values or as JSON. The
  definitions return the text that is printed; the tables are those of \<open>SOS_Results\<close>.

  \<open>csv_roundtrip\<close> shows that a reader of such text gets back the title, the names and the numbered rows, as long as no
  quote is in them; nothing is escaped, so with quotes different tables print the same text (\<open>quotes_collide\<close>).
\<close>

section \<open>Printing\<close>

text \<open>\<open>%s\<close> of a pointer.\<close>

definition pointer_str :: "byte list option \<Rightarrow> cstring" where
  "pointer_str p = (case p of None \<Rightarrow> str ''(null)'' | Some blk \<Rightarrow> cstr blk)"

definition quoted :: "cstring \<Rightarrow> cstring" where
  "quoted s = [34] @ s @ [34]"

text \<open>The cells or names of a row: a comma behind each, or the end of the line behind the last.\<close>

definition csv_line :: "nat \<Rightarrow> byte list option list \<Rightarrow> cstring res" where
  "csv_line cols xs =
     checkR (cols \<le> length xs) Out_Of_Bounds
       (Inr (concat (map (\<lambda>col. quoted (pointer_str (xs ! col)) @ (if col = cols - 1 then [10] else [44])) [0..<cols])))"

definition csv_row :: "SOSA_results \<Rightarrow> nat \<Rightarrow> cstring \<Rightarrow> cstring res" where
  "csv_row results row out =
     (if rs_col_count results \<le> 0 then Inr (out @ quoted (int_str (int row)) @ [44])
      else checkR (row < length (rs_data results)) Out_Of_Bounds
             (bindR (csv_line (nat (rs_col_count results)) (rs_data results ! row)) (\<lambda>line.
              Inr (out @ quoted (int_str (int row)) @ [44] @ line))))"

definition csv_text :: "SOSA_results \<Rightarrow> cstring \<Rightarrow> bool \<Rightarrow> cstring res" where
  "csv_text results title header =
     bindR (if header
            then bindR (csv_line (nat (rs_col_count results)) (rs_col_names results)) (\<lambda>line. Inr (quoted title @ [44] @ line))
            else Inr []) (\<lambda>head. foldR (csv_row results) [0..<nat (rs_row_count results)] head)"

definition json_field :: "SOSA_results \<Rightarrow> nat \<Rightarrow> nat \<Rightarrow> cstring \<Rightarrow> cstring res" where
  "json_field results row col out =
     checkR (col < length (rs_col_names results) \<and> row < length (rs_data results) \<and> col < length (rs_data results ! row)) Out_Of_Bounds
       (Inr (out @ [9, 9] @ quoted (pointer_str (rs_col_names results ! col)) @ [58, 32] @ quoted (pointer_str (rs_data results ! row ! col)) @
          (if int col < rs_col_count results - 1 then [44, 10] else [10])))"

definition json_row :: "SOSA_results \<Rightarrow> nat \<Rightarrow> cstring \<Rightarrow> cstring res" where
  "json_row results row out =
     bindR (foldR (json_field results row) [0..<nat (rs_col_count results)]
        (out @ [9, 123, 10] @ [9, 9] @ quoted (str ''result_row'') @ [58, 32] @ quoted (int_str (int row)) @ [44, 10])) (\<lambda>out.
     Inr (out @ [9, 125] @ (if int row < rs_row_count results - 1 then [44, 10] else [10])))"

definition json_text :: "SOSA_results \<Rightarrow> cstring \<Rightarrow> c_double \<Rightarrow> cstring res" where
  "json_text results title time_now =
     (let entry = \<lambda>key gap val. [32] @ quoted (str key) @ str gap @ quoted val @ [44, 10]
      in bindR (foldR (json_row results) [0..<nat (rs_row_count results)]
           ([123, 10] @ entry ''title'' ''      : '' title @ entry ''time_stamp'' '' : '' (lf_str 6 time_now) @
            entry ''exec_duration'' '' : '' (lf_str 12 (rs_exec_duration results)) @
            entry ''col_count'' ''  : '' (int_str (rs_col_count results)) @ entry ''row_count'' ''  : '' (int_str (rs_row_count results)) @
            [32] @ quoted (str ''data'') @ str ''       :'' @ [10] @ str '' ['' @ [10])) (\<lambda>out.
         Inr (out @ [32, 93, 10] @ [125, 10, 10, 10])))"

text \<open>
  \<open>options\<close>: bit 0 asks for JSON, bit 1 for the header of the values. Without a file or a title the program ends.
\<close>

definition SOSA_results_output_to :: "bool \<Rightarrow> SOSA_results \<Rightarrow> cstring option \<Rightarrow> i32 \<Rightarrow> c_double \<Rightarrow> cstring res" where
  "SOSA_results_output_to fptr results title options time_now =
     checkR fptr Exit_Failure
       (case title of
          None \<Rightarrow> Inl Exit_Failure
        | Some title \<Rightarrow> if bit options 0 then json_text results title time_now else csv_text results title (bit options 1))"

section \<open>Reading it back\<close>

lemma no_quote_dec_digits: "34 \<notin> set (dec_digits n)"
proof (induction n rule: dec_digits.induct)
  case (1 n)
  have "(word_of_nat (48 + m) :: byte) \<noteq> 34" if "m < 10" for m
    using that by (auto simp: word_unat_eq_iff unat_of_nat take_bit_nat_eq_self simp del: of_nat_add)
  then show ?case using 1 by (subst dec_digits.simps) (auto simp del: of_nat_add)
qed

text \<open>A reader of comma separated values: what is between two quotes is a field, a line end ends a row.\<close>

fun csv_read :: "cstring option \<Rightarrow> cstring list \<Rightarrow> cstring \<Rightarrow> cstring list list" where
  "csv_read None row [] = (if row = [] then [] else [row])"
| "csv_read None row (c # s) =
     (if c = 34 then csv_read (Some []) row s else if c = 10 then row # csv_read None [] s else csv_read None row s)"
| "csv_read (Some field) row [] = [row @ [field]]"
| "csv_read (Some field) row (c # s) = (if c = 34 then csv_read None (row @ [field]) s else csv_read (Some (field @ [c])) row s)"

lemma csv_read_in_field: "34 \<notin> set f \<Longrightarrow> csv_read (Some g) row (f @ 34 # s) = csv_read None (row @ [g @ f]) s"
  by (induction f arbitrary: g) auto

lemma csv_read_quoted [simp]: "34 \<notin> set f \<Longrightarrow> csv_read None row (quoted f @ s) = csv_read None (row @ [f]) s"
  by (simp add: quoted_def csv_read_in_field)

text \<open>The fields of a line without its end.\<close>

definition csv_fields :: "cstring list \<Rightarrow> cstring" where
  "csv_fields fs = concat (map (\<lambda>col. quoted (fs ! col) @ (if col = length fs - 1 then [10] else [44])) [0..<length fs])"

lemma csv_fields_Cons: "csv_fields (f # fs) = quoted f @ (if fs = [] then [10] else 44 # csv_fields fs)"
proof -
  have "[0..<length (f # fs)] = 0 # map Suc [0..<length fs]" by (simp add: map_Suc_upt upt_conv_Cons del: upt_Suc)
  moreover have "Suc col = length fs \<longleftrightarrow> col = length fs - 1" if "col < length fs" for col using that by auto
  ultimately show ?thesis by (auto simp: csv_fields_def comp_def simp del: upt_Suc intro!: arg_cong [where f = concat] map_cong)
qed

lemma csv_read_fields:
  "fs \<noteq> [] \<Longrightarrow> \<forall>f \<in> set fs. 34 \<notin> set f \<Longrightarrow> csv_read None row (csv_fields fs @ s) = (row @ fs) # csv_read None [] s"
  by (induction fs arbitrary: row) (auto simp: csv_fields_Cons)

lemma csv_line_fields:
  assumes "cols \<le> length xs" and "map (\<lambda>j. pointer_str (xs ! j)) [0..<cols] = fs"
  shows "csv_line cols xs = Inr (csv_fields fs)"
proof -
  have "length fs = cols" "\<And>j. j < cols \<Longrightarrow> fs ! j = pointer_str (xs ! j)" using assms(2) by auto
  then show ?thesis using assms(1) by (auto simp: csv_line_def csv_fields_def intro!: arg_cong [where f = concat] map_cong)
qed

text \<open>The text of a table whose fields are given.\<close>

definition csv_of :: "cstring list list \<Rightarrow> cstring" where
  "csv_of rows = concat (map csv_fields rows)"

lemma csv_read_of:
  "\<forall>row \<in> set rows. row \<noteq> [] \<and> (\<forall>f \<in> set row. 34 \<notin> set f) \<Longrightarrow> csv_read None [] (csv_of rows) = rows"
  by (induction rows) (auto simp: csv_of_def csv_read_fields)

definition numbered :: "cstring list list \<Rightarrow> cstring list list" where
  "numbered rows = map (\<lambda>(i, row). int_str (int i) # row) (zip [0..<length rows] rows)"

lemma csv_text_of:
  assumes "holds_table r names rows" and "names \<noteq> []" and "\<forall>row \<in> set rows. \<forall>c \<in> set row. wf_cstring c" and "\<forall>s \<in> set names. wf_cstring s"
  shows "csv_text r title header = Inr (csv_of ((if header then [title # names] else []) @ numbered rows))"
proof -
  let ?n = "length names"
  have r: "results_ok r" "rs_row_count r = int (length rows)" "rs_col_count r = int ?n" using assms(1) by (simp_all add: holds_table_def)
  have ptr: "wf_cstring s \<Longrightarrow> pointer_str (Some (s @ [0])) = s" for s
    by (auto simp: pointer_str_def cstr_def wf_cstring_def takeWhile_append)
  have nm: "csv_line ?n (rs_col_names r) = Inr (csv_fields names)"
  proof (rule csv_line_fields)
    show le: "?n \<le> length (rs_col_names r)" using r by (simp add: results_ok_def)
    have "rs_col_names r ! j = Some (names ! j @ [0])" if "j < ?n" for j
      using assms(1) that le by (simp add: holds_table_def rs_name_def lookup_def)
    then show "map (\<lambda>j. pointer_str (rs_col_names r ! j)) [0..<?n] = names" using assms(4) ptr by (auto intro!: nth_equalityI)
  qed
  have row: "csv_row r i out = Inr (out @ csv_fields (int_str (int i) # rows ! i))" if i: "i < length rows" for i out
  proof -
    have d: "i < length (rs_data r)" using r i by (simp add: results_ok_def)
    have "csv_line ?n (rs_data r ! i) = Inr (csv_fields (rows ! i))"
    proof (rule csv_line_fields)
      show le: "?n \<le> length (rs_data r ! i)" using r d by (metis results_ok_def nat_int_comparison(3))
      have c: "length (rows ! i) = ?n" "rs_data r ! i ! j = Some (rows ! i ! j @ [0])" if "j < ?n" for j
      proof -
        have "length (rows ! i) = ?n" "rs_cell r i j = Some (rows ! i ! j @ [0])" using assms(1) that i by (simp_all add: holds_table_def)
        then show "length (rows ! i) = ?n" "rs_data r ! i ! j = Some (rows ! i ! j @ [0])" using le that d by (simp_all add: rs_cell_def lookup_def)
      qed
      show "map (\<lambda>j. pointer_str (rs_data r ! i ! j)) [0..<?n] = rows ! i"
      proof (rule nth_equalityI)
        show "length (map (\<lambda>j. pointer_str (rs_data r ! i ! j)) [0..<?n]) = length (rows ! i)" using assms(1) i by (simp add: holds_table_def)
        fix j assume "j < length (map (\<lambda>j. pointer_str (rs_data r ! i ! j)) [0..<?n])"
        then have j: "j < ?n" by simp
        then have "wf_cstring (rows ! i ! j)" using assms(3) i c(1) [OF j] nth_mem by metis
        then show "map (\<lambda>j. pointer_str (rs_data r ! i ! j)) [0..<?n] ! j = rows ! i ! j" using j c(2) [OF j] ptr by simp
      qed
    qed
    moreover have "rows ! i \<noteq> []" using assms(1,2) i by (auto simp: holds_table_def)
    ultimately show ?thesis using r(3) assms(2) d by (simp add: csv_row_def csv_fields_Cons)
  qed
  have rows: "foldR (csv_row r) [0..<k] out = Inr (out @ csv_of (map (\<lambda>i. int_str (int i) # rows ! i) [0..<k]))" if "k \<le> length rows" for k out
    using that by (induction k) (simp_all add: foldR_append row csv_of_def)
  have n: "numbered rows = map (\<lambda>i. int_str (int i) # rows ! i) [0..<length rows]"
    by (auto simp: numbered_def intro!: nth_equalityI)
  show ?thesis
    using assms(2) by (simp add: csv_text_def r nm rows n csv_of_def csv_fields_Cons)
qed

text \<open>
  C27: a table that is printed as comma separated values with a header is read back: first the title and the names of the
  columns, then the rows with their numbers in front, in order, provided that no title, name or cell has a quote in it.
\<close>

theorem csv_roundtrip:
  assumes "holds_table r names rows" and "names \<noteq> []" and "options = 2"
    and "\<forall>row \<in> set rows. \<forall>c \<in> set row. wf_cstring c \<and> 34 \<notin> set c" and "\<forall>s \<in> set names. wf_cstring s \<and> 34 \<notin> set s" and "34 \<notin> set title"
  shows "\<exists>text_out. SOSA_results_output_to True r (Some title) options now = Inr text_out \<and>
    csv_read None [] text_out = (title # names) # numbered rows"
proof -
  let ?t = "(title # names) # numbered rows"
  have q: "34 \<notin> set (int_str (int i))" for i
    by (simp add: int_str_def no_quote_dec_digits)
  have "SOSA_results_output_to True r (Some title) options now = Inr (csv_of ?t)"
    using csv_text_of [OF assms(1,2), of title True] assms(3-5) by (simp add: SOSA_results_output_to_def)
  moreover have "csv_read None [] (csv_of ?t) = ?t"
    using assms(4-6) q by (intro csv_read_of) (auto simp: numbered_def dest: set_zip_rightD)
  ultimately show ?thesis by blast
qed

theorem csv_roundtrip_witness:
  "\<exists>text_out. SOSA_results_output_to True example_results (Some (str ''hot'')) 2 (Fin 0) = Inr text_out \<and>
     csv_read None [] text_out = [[str ''hot'', [110]], [[48], [55]]]"
proof -
  have "holds_table example_results [[110]] [[[55]]]"
    using example_results_sendable by (simp add: holds_table_def results_sendable_def example_results_def rs_name_def rs_cell_def lookup_def)
  moreover have "(34 :: byte) \<notin> set (str ''hot'')" by (simp add: str_def byte_of_char_def)
  moreover have "numbered [[[55]]] = [[[48], [55]]]" by (simp add: numbered_def int_str_def dec_digits.simps)
  ultimately show ?thesis
    using csv_roundtrip [of example_results "[[110]]" "[[[55]]]" 2 "str ''hot''" "Fin 0"] by (simp add: wf_cstring_def)
qed

text \<open>Nothing is escaped: the rows \<open>a","b | c\<close> and \<open>a | b","c\<close> are printed alike.\<close>

lemma quotes_collide:
  assumes "holds_table r names [[[97, 34, 44, 34, 98], [99]]]" and "holds_table r' names [[[97], [98, 34, 44, 34, 99]]]"
    and "\<forall>s \<in> set names. wf_cstring s"
  shows "SOSA_results_output_to True r (Some title) 0 now = SOSA_results_output_to True r' (Some title) 0 now"
proof -
  have n: "names \<noteq> []" using assms(1) by (auto simp: holds_table_def)
  have "csv_text r title False = csv_text r' title False"
    by (subst csv_text_of [OF assms(1) n _ assms(3)], simp add: wf_cstring_def, subst csv_text_of [OF assms(2) n _ assms(3)], simp add: wf_cstring_def)
      (simp add: csv_of_def numbered_def csv_fields_Cons quoted_def)
  then show ?thesis by (simp add: SOSA_results_output_to_def)
qed

end
