(* ===== verification/SOS_Probe.thy ===== *)
theory SOS_Probe
  imports SOS_Analysis SOS_Options
begin

text \<open>
  Looking into a running daemon: the handler of probes (\<open>SOSD_handle_probe\<close> of \<open>sosd.c\<close>) and the tool that sends one and
  prints what comes back (\<open>sosd_probe.c\<close>). With it every message of the listening loop has its handler.

  The handler packs its reply behind the place of the header and never writes the header. A header of zeros says that the
  message is empty, so the receiver waits for nothing behind the first piece: \<open>probe_answered\<close> shows that the tool reads
  exactly the numbers of the daemon that come in the first piece, and zeros for those that come later.
\<close>

section \<open>The daemon\<close>

text \<open>The counters of the daemon; where they are counted is left open.\<close>

record SOSD_counts =
  ct_thread_local_wakeup :: u64
  ct_thread_cloud_wakeup :: u64
  ct_thread_db_wakeup :: u64
  ct_thread_feedback_wakeup :: u64
  ct_feedback_checkin_messages :: u64
  ct_socket_messages :: u64
  ct_socket_bytes_recv :: u64
  ct_socket_bytes_sent :: u64
  ct_mpi_sends :: u64
  ct_mpi_bytes :: u64
  ct_db_transactions :: u64
  ct_db_insert_announce :: u64
  ct_db_insert_announce_nop :: u64
  ct_db_insert_publish :: u64
  ct_db_insert_publish_nop :: u64
  ct_db_insert_val_snaps :: u64
  ct_db_insert_val_snaps_nop :: u64
  ct_buffer_creates :: u64
  ct_buffer_bytes_on_heap :: u64
  ct_buffer_destroys :: u64
  ct_pipe_creates :: u64
  ct_pub_handles :: u64

definition counts_list :: "SOSD_counts \<Rightarrow> u64 list" where
  "counts_list c =
     [ct_thread_local_wakeup c, ct_thread_cloud_wakeup c, ct_thread_db_wakeup c, ct_feedback_checkin_messages c, ct_socket_messages c,
      ct_socket_bytes_recv c, ct_socket_bytes_sent c, ct_mpi_sends c, ct_mpi_bytes c, ct_db_transactions c, ct_db_insert_announce c,
      ct_db_insert_announce_nop c, ct_db_insert_publish c, ct_db_insert_publish_nop c, ct_db_insert_val_snaps c,
      ct_db_insert_val_snaps_nop c, ct_buffer_creates c, ct_buffer_bytes_on_heap c, ct_buffer_destroys c, ct_pipe_creates c, ct_pub_handles c]"

text \<open>\<open>sscanf\<close> of a label and a number: white space, a sign, digits; a number that is too long is the largest one.\<close>

definition scan_value :: "cstring \<Rightarrow> cstring \<Rightarrow> u64 option" where
  "scan_value label line =
     (if take (length label) line \<noteq> label then None
      else
        let s = dropWhile is_blank (drop (length label) line);
            (neg, s) = (case s of [] \<Rightarrow> (False, []) | c # cs \<Rightarrow> if c = 45 then (True, cs) else if c = 43 then (False, cs) else (False, s))
        in case s of
             [] \<Rightarrow> None
           | c # _ \<Rightarrow>
               if 48 \<le> c \<and> c \<le> 57
               then let v = digits_value 0 s in Some (if 2 ^ 64 \<le> v then - 1 else if neg then - word_of_int v else word_of_int v)
               else None)"

text \<open>The lines of the status of the process, until both values are found.\<close>

definition scan_line :: "string \<Rightarrow> cstring \<Rightarrow> u64 \<Rightarrow> u64" where
  "scan_line label line v =
     (if take 6 line = str label then (case scan_value (str label @ [58]) line of Some x \<Rightarrow> x | None \<Rightarrow> v) else v)"

fun scan_status :: "cstring list \<Rightarrow> u64 \<times> u64 \<Rightarrow> u64 \<times> u64" where
  "scan_status [] v = v"
| "scan_status (line # lines) (vm_peak, vm_size) =
     (let vm_peak = scan_line ''VmPeak'' line vm_peak; vm_size = scan_line ''VmSize'' line vm_size
      in if 0 < vm_peak \<and> 0 < vm_size then (vm_peak, vm_size) else scan_status lines (vm_peak, vm_size))"

definition queue_depths :: "SOS_role \<Rightarrow> bool \<Rightarrow> SOSD \<Rightarrow> u64 list" where
  "queue_depths role db_disabled sd =
     [word_of_int (qu_elem_count (sd_local sd)), if role = SOS_ROLE_LISTENER then word_of_int (qu_elem_count (sd_cloud_send sd)) else 0,
      if db_disabled then 0 else word_of_int (qu_elem_count (sd_db sd)), if db_disabled then 0 else word_of_int (sq_elem_count (sd_snap_queue sd))]"

text \<open>
  The reply begins behind the header of the request. \<open>status\<close> are the lines of \<open>/proc\<close>; when the file could not be opened,
  it is closed all the same.
\<close>

definition SOSD_handle_probe ::
    "SOS_role \<Rightarrow> bool \<Rightarrow> SOSD_counts \<Rightarrow> cstring list option \<Rightarrow> SOSD \<Rightarrow> SOS_buffer \<Rightarrow> (SOS_buffer \<times> SOS_buffer) res" where
  "SOSD_handle_probe role db_disabled current status sd buffer =
     bindR (SOS_msg_unzip buffer 0) (\<lambda>(buffer, _, offset).
     bindR (pack_fields ''gggg'' (map ArgG (queue_depths role db_disabled sd)) (SOS_buffer_init_sized_locking SOS_DEFAULT_BUFFER_MAX False, offset)) (\<lambda>bo.
     bindR (pack_fields ''ggggggggggggggggggggg'' (map ArgG (counts_list current)) bo) (\<lambda>bo.
     case status of None \<Rightarrow> Inl Null_Deref | Some lines \<Rightarrow>
     let (vm_peak, vm_size) = scan_status lines (0, 0)
     in bindR (pack_fields ''gg'' [ArgG vm_peak, ArgG vm_size] bo) (\<lambda>(reply, _). Inr (buffer, reply)))))"

text \<open>The listening loop with this handler.\<close>

definition probe_handlers :: "SOS_role \<Rightarrow> bool \<Rightarrow> SOSD_counts \<Rightarrow> cstring list option \<Rightarrow> other_handlers" where
  "probe_handlers role db_disabled current status t sd msg =
     (if t = SOS_MSG_TYPE_PROBE then bindR (SOSD_handle_probe role db_disabled current status sd msg) (\<lambda>(msg, reply). Inr (sd, msg, Some reply))
      else Inl Undefined)"

section \<open>The tool\<close>

definition probe_request :: "u64 \<Rightarrow> SOS_buffer res" where
  "probe_request my_guid =
     write_msg (msg_header_of SOS_MSG_TYPE_PROBE my_guid 0) Inr (SOS_buffer_init_sized_locking SOS_DEFAULT_BUFFER_MAX False)"

text \<open>What the tool takes from a reply: the sender, the depths of the queues, the counters, and the memory.\<close>

record probe_answer =
  pr_from :: u64
  pr_depths :: "u64 list"
  pr_counts :: "u64 list"
  pr_memory :: "u64 list"

definition outs_guid :: "unpack_val list \<Rightarrow> u64 list res" where
  "outs_guid outs = foldR (\<lambda>v gs. case v of OutG g \<Rightarrow> Inr (gs @ [g]) | _ \<Rightarrow> Inl Bad_Argument) outs []"

definition probe_read :: "SOS_buffer \<Rightarrow> probe_answer option res" where
  "probe_read reply =
     (if buf_len reply < 24 then Inr None
      else
        bindR (SOS_msg_unzip reply 0) (\<lambda>(reply, header, offset).
        bindR (unpack_fields ''gggg'' (replicate 4 DestG) (reply, offset)) (\<lambda>(reply, offset, depths).
        bindR (unpack_fields ''ggggggggggggggggggggg'' (replicate 21 DestG) (reply, offset)) (\<lambda>(reply, offset, counts).
        bindR (unpack_fields ''gg'' (replicate 2 DestG) (reply, offset)) (\<lambda>(_, _, memory).
        bindR (outs_guid depths) (\<lambda>depths.
        bindR (outs_guid counts) (\<lambda>counts.
        bindR (outs_guid memory) (\<lambda>memory.
        Inr (Some \<lparr>pr_from = hd_msg_from header, pr_depths = depths, pr_counts = counts, pr_memory = memory\<rparr>)))))))))"

text \<open>The line that is printed; the depths are padded to twelve places.\<close>

definition pad_12 :: "cstring \<Rightarrow> cstring" where
  "pad_12 s = replicate (12 - length s) 32 @ s"

definition probe_csv :: "c_double \<Rightarrow> c_double \<Rightarrow> probe_answer \<Rightarrow> cstring" where
  "probe_csv time_now rtt a =
     (let fields = [lf_str 6 time_now, lf_str 6 rtt, guid_str (pr_from a)] @ map (pad_12 \<circ> guid_str) (pr_depths a) @
            map guid_str (pr_counts a) @ map guid_str (pr_memory a)
      in concat (map (\<lambda>f. f @ [44]) (butlast fields)) @ last fields @ [10])"

text \<open>
  One round of the tool: it sends, receives into a buffer that was wiped, and reads. The connection comes up and the request
  goes out at once.
\<close>

definition probe_round :: "SOS_buffer \<Rightarrow> recv_result list \<Rightarrow> SOS_socket \<Rightarrow> SOS_buffer \<Rightarrow> (byte list \<times> probe_answer option) res" where
  "probe_round request rs daemon reply =
     bindR (SOS_send_to_daemon True False False [Sent (buf_len request)] rs daemon request (Some (SOS_buffer_wipe reply))) (\<lambda>(_, out, reply).
     case reply of None \<Rightarrow> Inl Null_Deref | Some reply \<Rightarrow> bindR (probe_read reply) (\<lambda>a. Inr (out, a)))"

section \<open>A list of numbers\<close>

lemma encode_guids: "length (encode (map ArgG gs)) = 8 * length gs"
  by (induction gs) (simp_all add: SOS_buffer_packguid_def)

lemma encode_zeros: "encode (map ArgG (replicate n 0)) = replicate (8 * n) 0"
proof (induction n)
  case (Suc n)
  have "SOS_buffer_packguid 0 = replicate 8 0" by (simp add: SOS_buffer_packguid_def numeral_eq_Suc)
  then show ?case using Suc by (simp add: replicate_add)
qed simp

lemma guid_format: "map fmt_of (map ArgG gs) = replicate (length gs) CHR ''g''"
  by (induction gs) auto

lemma guid_formats:
  "''gggg'' = replicate 4 CHR ''g''" "''ggggggggggggggggggggg'' = replicate 21 CHR ''g''" "''gg'' = replicate 2 CHR ''g''"
  by (simp_all add: numeral_eq_Suc)

lemma pack_guids:
  assumes "data_is b bs rest" and "format = replicate (length gs) CHR ''g''" and "8 * length gs \<le> length rest" and "length bs \<le> length rest"
  shows "\<exists>b'. pack_fields format (map ArgG gs) (b, length bs) = Inr (b', length bs + 8 * length gs) \<and>
    data_is b' (bs @ encode (map ArgG gs)) (drop (8 * length gs) rest) \<and> buf_len b' = max (buf_len b) (length bs + 8 * length gs)"
  using pack_over [OF assms(1), of "map ArgG gs"] assms(3,4) unfolding guid_format encode_guids assms(2) pack_fields_def by auto

lemma unpack_guids:
  assumes "buffer_wf b" and "mem_at p (encode (map ArgG gs)) (buf_data b)" and "gs \<noteq> []" and "n = length gs" and "format = replicate n CHR ''g''"
  shows "unpack_fields format (replicate n DestG) (b, p) = Inr (b, p + 8 * n, map OutG gs)"
proof -
  have "outs_of (map ArgG gs) (replicate (length gs) DestG) = Some (map OutG gs)" by (induction gs) auto
  from SOS_buffer_unpack_encode [OF assms(1) _ _ assms(2) this] assms(3) show ?thesis
    unfolding guid_format encode_guids by (simp add: unpack_fields_def assms(4,5))
qed

lemma outs_guid_map: "outs_guid (map OutG gs) = Inr gs"
proof -
  have "foldR (\<lambda>v gs. case v of OutG g \<Rightarrow> Inr (gs @ [g]) | _ \<Rightarrow> Inl Bad_Argument) (map OutG gs) hs = Inr (hs @ gs)" for hs
    by (induction gs arbitrary: hs) auto
  then show ?thesis by (simp add: outs_guid_def)
qed

section \<open>The probe\<close>

definition probe_values :: "SOS_role \<Rightarrow> bool \<Rightarrow> SOSD_counts \<Rightarrow> cstring list \<Rightarrow> SOSD \<Rightarrow> u64 list" where
  "probe_values role db_disabled current lines sd =
     queue_depths role db_disabled sd @ counts_list current @ (case scan_status lines (0, 0) of (vm_peak, vm_size) \<Rightarrow> [vm_peak, vm_size])"

lemma probe_lengths: "length (queue_depths role db sd) = 4" "length (counts_list current) = 21" "length (probe_values role db current lines sd) = 27"
  by (simp_all add: queue_depths_def counts_list_def probe_values_def split: prod.split)

text \<open>The reply is 24 zeros and the values.\<close>

lemma handle_probe_ok:
  assumes "SOS_msg_unzip buffer 0 = Inr (buffer', header, 24)"
  shows "\<exists>reply rest. SOSD_handle_probe role db current (Some lines) sd buffer = Inr (buffer', reply) \<and>
    data_is reply (replicate 24 0 @ encode (map ArgG (probe_values role db current lines sd))) rest \<and> buf_len reply = 240"
proof -
  let ?b = "SOS_buffer_init_sized_locking SOS_DEFAULT_BUFFER_MAX False" and ?z = "replicate 24 0 :: byte list"
  obtain vp vs where st: "scan_status lines (0, 0) = (vp, vs)" by fastforce
  obtain k where k: "SOS_DEFAULT_BUFFER_MAX = 24 + (1000 + k)" by (rule that [of "SOS_DEFAULT_BUFFER_MAX - 1024"]) (simp add: SOS_DEFAULT_BUFFER_MAX_def)
  have b0: "data_is ?b ?z (replicate (1000 + k) 0)" "buf_len ?b = 0"
    by (simp_all add: data_is_def SOS_buffer_init_sized_locking_def k flip: replicate_add)
  obtain b1 where b1: "pack_fields ''gggg'' (map ArgG (queue_depths role db sd)) (?b, 24) = Inr (b1, 56)"
      "data_is b1 (?z @ encode (map ArgG (queue_depths role db sd))) (replicate (968 + k) 0)" "buf_len b1 = 56"
    using pack_guids [OF b0(1), of "''gggg''" "queue_depths role db sd"] b0(2) by (auto simp: probe_lengths encode_guids numeral_eq_Suc)
  obtain b2 where b2: "pack_fields ''ggggggggggggggggggggg'' (map ArgG (counts_list current)) (b1, 56) = Inr (b2, 224)"
      "data_is b2 ((?z @ encode (map ArgG (queue_depths role db sd))) @ encode (map ArgG (counts_list current))) (replicate (800 + k) 0)" "buf_len b2 = 224"
    using pack_guids [OF b1(2), of "''ggggggggggggggggggggg''" "counts_list current"] b1(3) by (auto simp: probe_lengths encode_guids numeral_eq_Suc)
  obtain b3 where b3: "pack_fields ''gg'' [ArgG vp, ArgG vs] (b2, 224) = Inr (b3, 240)"
      "data_is b3 (((?z @ encode (map ArgG (queue_depths role db sd))) @ encode (map ArgG (counts_list current))) @ encode [ArgG vp, ArgG vs])
         (replicate (784 + k) 0)" "buf_len b3 = 240"
    using pack_guids [OF b2(2), of "''gg''" "[vp, vs]"] b2(3) by (auto simp: probe_lengths encode_guids numeral_eq_Suc)
  have "SOSD_handle_probe role db current (Some lines) sd buffer = Inr (buffer', b3)"
    by (simp add: SOSD_handle_probe_def assms b1(1) b2(1) b3(1) st)
  moreover have "data_is b3 (?z @ encode (map ArgG (probe_values role db current lines sd))) (replicate (784 + k) 0)"
    using b3(2) by (simp add: probe_values_def st)
  ultimately show ?thesis using b3(3) by blast
qed

lemma mem_at_middle: "m = xs @ ys @ zs \<Longrightarrow> mem_at (length xs) ys m"
  by (simp add: mem_at_def)

definition zero_header :: SOS_msg_header where
  "zero_header = \<lparr>hd_msg_size = 0, hd_msg_type = 0, hd_msg_from = 0, hd_ref_guid = 0\<rparr>"

lemma zero_header_encode: "encode (header_args zero_header) = replicate 24 0" "hd_msg_size zero_header = 0" "hd_msg_from zero_header = 0"
  by (simp_all add: zero_header_def header_args_def SOS_buffer_packi32_def SOS_buffer_packguid_def numeral_eq_Suc)

text \<open>What the tool finds in a buffer of zeros that has received the place of the header and some of the values.\<close>

lemma probe_read_ok:
  assumes "buf_data b = replicate 24 0 @ encode (map ArgG vs) @ replicate k 0" and "buffer_wf b" and "length vs \<le> 27"
    and "8 * (27 - length vs) \<le> k" and "24 \<le> buf_len b"
  shows "\<exists>a. probe_read b = Inr (Some a) \<and> pr_from a = 0 \<and> length (pr_depths a) = 4 \<and> length (pr_counts a) = 21 \<and>
    pr_depths a @ pr_counts a @ pr_memory a = vs @ replicate (27 - length vs) 0"
proof -
  let ?ws = "vs @ replicate (27 - length vs) 0"
  let ?ds = "take 4 ?ws" and ?cs = "take 21 (drop 4 ?ws)" and ?ms = "drop 25 ?ws"
  have lw: "length ?ws = 27" using assms(3) by simp
  have "drop 25 ?ws = drop 21 (drop 4 ?ws)" by (simp only: drop_drop) simp
  then have split: "?ws = ?ds @ ?cs @ ?ms" by (simp only: append_take_drop_id)
  have len: "length ?ds = 4" "length ?cs = 21" "length ?ms = 2" using lw by (simp_all del: append_assoc)
  have zero: "encode (map ArgG (replicate j 0)) @ replicate (k - 8 * j) 0 = replicate k 0" if "8 * j \<le> k" for j
    unfolding encode_zeros using that by (simp flip: replicate_add)
  have data: "buf_data b = replicate 24 0 @ encode (map ArgG ?ws) @ replicate (k - 8 * (27 - length vs)) 0"
    using zero [OF assms(4)] assms(1) by simp
  define b' where "b' = msg_unlock (b\<lparr>buf_is_zipped := False\<rparr>)"
  have "holding b 24 (encode (header_args zero_header) @ [])"
    using assms(2) by (simp add: holding_def packed_prefix_def data zero_header_encode)
  from SOS_msg_unzip_held [OF this] have u: "SOS_msg_unzip b 0 = Inr (b', zero_header, 24)" by (simp add: b'_def)
  have b': "buffer_wf b'" "buf_data b' = buf_data b" using assms(2) by (simp_all add: b'_def msg_unlock_def buffer_wf_def)
  have parts: "buf_data b' = replicate 24 0 @ encode (map ArgG ?ds) @ encode (map ArgG ?cs) @ encode (map ArgG ?ms) @ replicate (k - 8 * (27 - length vs)) 0"
    unfolding b'(2) data by (subst split) simp
  have l: "length (encode (map ArgG ?ds)) = 32" "length (encode (map ArgG ?cs)) = 168" using len by (simp_all only: encode_guids)
  have m: "mem_at 24 (encode (map ArgG ?ds)) (buf_data b')" "mem_at 56 (encode (map ArgG ?cs)) (buf_data b')" "mem_at 224 (encode (map ArgG ?ms)) (buf_data b')"
    using mem_at_middle [OF parts] mem_at_middle [of "buf_data b'" "replicate 24 0 @ encode (map ArgG ?ds)" "encode (map ArgG ?cs)"]
      mem_at_middle [of "buf_data b'" "replicate 24 0 @ encode (map ArgG ?ds) @ encode (map ArgG ?cs)" "encode (map ArgG ?ms)"]
    by (simp_all only: parts append_assoc length_append length_replicate l numeral_plus_numeral arith_simps)
  have ne: "?ds \<noteq> []" "?cs \<noteq> []" "?ms \<noteq> []" using len by (metis list.size(3) zero_neq_numeral)+
  have r: "unpack_fields ''gggg'' (replicate 4 DestG) (b', 24) = Inr (b', 56, map OutG ?ds)"
      "unpack_fields ''ggggggggggggggggggggg'' (replicate 21 DestG) (b', 56) = Inr (b', 224, map OutG ?cs)"
      "unpack_fields ''gg'' (replicate 2 DestG) (b', 224) = Inr (b', 240, map OutG ?ms)"
    using unpack_guids [OF b'(1) m(1) ne(1) len(1) [symmetric] guid_formats(1)] unpack_guids [OF b'(1) m(2) ne(2) len(2) [symmetric] guid_formats(2)]
      unpack_guids [OF b'(1) m(3) ne(3) len(3) [symmetric] guid_formats(3)] by (simp_all only: numeral_plus_numeral numeral_times_numeral arith_simps)
  have "probe_read b = Inr (Some \<lparr>pr_from = 0, pr_depths = ?ds, pr_counts = ?cs, pr_memory = ?ms\<rparr>)"
    unfolding probe_read_def u bindR.simps prod.case r outs_guid_map using assms(5) by (simp add: zero_header_encode)
  then show ?thesis using len split by (intro exI conjI) (assumption, simp_all only: probe_answer.simps)
qed

lemma take_encode_guids: "take (8 * j) (encode (map ArgG gs)) = encode (map ArgG (take j gs))"
proof (induction gs arbitrary: j)
  case (Cons g gs)
  have "length (SOS_buffer_packguid g) = 8" by (simp add: SOS_buffer_packguid_def)
  with Cons show ?case by (cases j) simp_all
qed simp

lemma tool_reads:
  assumes "is_msg h [] request" and "\<not> tg_send_lock daemon" and "buffer_wf reply" and "buf_max reply = SOS_DEFAULT_BUFFER_MAX" and "j \<le> 27"
    and "data_is answer (replicate 24 0 @ encode (map ArgG (probe_values role dbd current lines sd))) rest0"
  shows "\<exists>a. probe_round request (Recv (take (24 + 8 * j) (buf_data answer)) # rest) daemon reply =
      Inr (take (buf_len request) (buf_data request), Some a) \<and> pr_from a = 0 \<and> length (pr_depths a) = 4 \<and> length (pr_counts a) = 21 \<and>
    pr_depths a @ pr_counts a @ pr_memory a = take j (probe_values role dbd current lines sd) @ replicate (27 - j) 0"
proof -
  let ?vs = "probe_values role dbd current lines sd"
  let ?bs = "replicate 24 0 @ encode (map ArgG (take j ?vs))" and ?w = "SOS_buffer_wipe reply"
  have bs: "take (24 + 8 * j) (buf_data answer) = ?bs"
    using assms(5,6) by (simp add: data_is_def take_encode_guids encode_guids probe_lengths)
  have lb: "length ?bs = 24 + 8 * j" using assms(5) by (simp only: length_append encode_guids length_take probe_lengths length_replicate)
  have room: "24 + 8 * j \<le> SOS_DEFAULT_BUFFER_MAX" "8 * 27 + 24 \<le> SOS_DEFAULT_BUFFER_MAX" using assms(5) by (simp_all add: SOS_DEFAULT_BUFFER_MAX_def)
  have wf: "buffer_wf ?w" "buf_max ?w = SOS_DEFAULT_BUFFER_MAX" using assms(3,4) by (simp_all add: buffer_wf_def SOS_buffer_wipe_def)
  from recv_first_piece [of ?bs zero_header _ ?w rest] obtain r where
    r: "SOS_target_recv_msg False (Recv ?bs # rest) (Some ?w) = Inr (Some r, rest, int (length ?bs))"
      "buf_data r = ?bs @ drop (length ?bs) (buf_data ?w)" "buf_len r = length ?bs" "buf_max r = buf_max ?w"
    using wf lb room by (auto simp: zero_header_encode)
  have "buf_data r = replicate 24 0 @ encode (map ArgG (take j ?vs)) @ replicate (SOS_DEFAULT_BUFFER_MAX - (24 + 8 * j)) 0"
    unfolding r(2) lb using assms(4) by (simp add: SOS_buffer_wipe_def)
  moreover have "8 * (27 - length (take j ?vs)) \<le> SOS_DEFAULT_BUFFER_MAX - (24 + 8 * j)"
    using assms(5) room(2) by (simp add: probe_lengths diff_mult_distrib2)
  moreover have "24 \<le> buf_len r" "length (take j ?vs) \<le> 27" using r(3) lb assms(5) by (simp_all add: probe_lengths del: length_append)
  moreover have "buffer_wf r" using r(3,4) wf room lb by (simp add: buffer_wf_def r(2) SOS_buffer_wipe_def)
  ultimately obtain a where a: "probe_read r = Inr (Some a)" "pr_from a = 0" "length (pr_depths a) = 4" "length (pr_counts a) = 21"
      "pr_depths a @ pr_counts a @ pr_memory a = take j ?vs @ replicate (27 - length (take j ?vs)) 0"
    using probe_read_ok by blast
  have m: "0 < buf_len request" "buf_len request \<le> length (buf_data request)" using assms(1) by (auto simp: is_msg_def holding_def buffer_wf_def)
  have "send_loop request 0 0 [] [Sent (buf_len request)] = Inr (take (buf_len request) (buf_data request), [], int (buf_len request), True)"
    using send_loop_ok [OF m, of 0 0 "[]"] by simp
  then have "probe_round request (Recv ?bs # rest) daemon reply = Inr (take (buf_len request) (buf_data request), Some a)"
    using assms(2) m r(1) a(1)
    by (simp add: probe_round_def SOS_send_to_daemon_def SOS_target_connect_def SOS_target_send_msg_def SOS_target_disconnect_def)
  then show ?thesis using a(2-5) assms(5) by (intro exI [of _ a]) (simp add: bs probe_lengths)
qed

lemma probe_request_ok: "\<exists>request. probe_request my_guid = Inr request \<and> is_msg (msg_header_of SOS_MSG_TYPE_PROBE my_guid 0) [] request"
  using write_msg_is_msg [OF fresh_msg_sized appends_skip, of SOS_DEFAULT_BUFFER_MAX "msg_header_of SOS_MSG_TYPE_PROBE my_guid 0" False]
  by (auto simp: probe_request_def MSG_LIMIT_def SOS_DEFAULT_BUFFER_MAX_def)

lemma listen_probe:
  assumes "is_msg (msg_header_of SOS_MSG_TYPE_PROBE my_guid 0) [] request" and "stream_of rs request" and "fresh_msg buffer" and "\<not> sd_shutdown sd"
  shows "\<exists>b answer rest. SOSD_listen_step cx uid (analysis_handlers cx dbd duration (probe_handlers (cx_role cx) dbd current (Some lines))) rs sd buffer =
      Inr (sd, b, [], Some answer) \<and>
    data_is answer (replicate 24 0 @ encode (map ArgG (probe_values (cx_role cx) dbd current lines sd))) rest \<and> buf_len answer = 240"
proof -
  let ?other = "analysis_handlers cx dbd duration (probe_handlers (cx_role cx) dbd current (Some lines))" and ?h = "msg_header_of SOS_MSG_TYPE_PROBE my_guid 0"
  have t: "enum_decode SOS_msg_type_vals (hd_msg_type ?h) = Some SOS_MSG_TYPE_PROBE" by (simp add: msg_header_of_def SOS_msg_type_enum.decode_code)
  have "24 + length ([] :: byte list) \<le> MSG_LIMIT" by (simp add: MSG_LIMIT_def)
  from listen_takes [OF assms(1) this assms(2-4) t, of cx uid ?other] obtain b where b: "is_msg ?h [] b"
      "SOSD_listen_step cx uid ?other rs sd buffer =
        bindR (SOSD_listen_dispatch cx uid ?other (Some SOS_MSG_TYPE_PROBE) sd b) (\<lambda>(sd, b, reply). Inr (sd, b, [], reply))" by blast
  obtain b' h where u: "SOS_msg_unzip b 0 = Inr (b', h, 24)" using unzip_is_msg [OF b(1)] by blast
  obtain answer rest where p: "SOSD_handle_probe (cx_role cx) dbd current (Some lines) sd b = Inr (b', answer)"
      "data_is answer (replicate 24 0 @ encode (map ArgG (probe_values (cx_role cx) dbd current lines sd))) rest" "buf_len answer = 240"
    using handle_probe_ok [OF u] by blast
  then have "SOSD_listen_step cx uid ?other rs sd buffer = Inr (sd, b', [], Some answer)"
    by (simp add: b(2) SOSD_listen_dispatch_def analysis_handlers_def probe_handlers_def)
  then show ?thesis using p(2,3) by blast
qed


definition example_counts :: SOSD_counts where
  "example_counts =
     \<lparr>ct_thread_local_wakeup = 3, ct_thread_cloud_wakeup = 0, ct_thread_db_wakeup = 2, ct_thread_feedback_wakeup = 1,
      ct_feedback_checkin_messages = 0, ct_socket_messages = 7, ct_socket_bytes_recv = 900, ct_socket_bytes_sent = 480, ct_mpi_sends = 0,
      ct_mpi_bytes = 0, ct_db_transactions = 1, ct_db_insert_announce = 1, ct_db_insert_announce_nop = 0, ct_db_insert_publish = 1,
      ct_db_insert_publish_nop = 0, ct_db_insert_val_snaps = 1, ct_db_insert_val_snaps_nop = 0, ct_buffer_creates = 12,
      ct_buffer_bytes_on_heap = 0, ct_buffer_destroys = 4, ct_pipe_creates = 5, ct_pub_handles = 1\<rparr>"


end
