(* ===== verification/SOS_Regex.thy ===== *)
theory SOS_Regex
  imports SOS_Types
begin

text \<open>
  The small regular expressions of \<open>sos_re.c\<close>: compiling a pattern into an array of symbols and
  matching it by backtracking.

  The array and the buffer of the character classes are static: they are the state, which every
  compilation overwrites in place. The union of a symbol remembers whether its character or its
  class was set last. A pattern is the block it is stored in, a text the bytes before its \<open>NUL\<close>;
  \<open>char\<close> is signed.
\<close>

section \<open>Symbols\<close>

datatype re_union = Re_ch byte | Re_ccl nat

record SOS_regex_t =
  re_type :: SOS_regex_rule
  re_u :: re_union

record SOS_re_state =
  re_compiled :: "SOS_regex_t list"
  re_ccl_buf :: "byte list"

definition MAX_REGEXP_OBJECTS :: nat where
  "MAX_REGEXP_OBJECTS = 30"

definition MAX_CHAR_CLASS_LEN :: nat where
  "MAX_CHAR_CLASS_LEN = 40"

definition SOS_re_static :: SOS_re_state where
  "SOS_re_static = \<lparr>re_compiled = replicate MAX_REGEXP_OBJECTS \<lparr>re_type = SOS_REGEX_UNUSED, re_u = Re_ch 0\<rparr>,
     re_ccl_buf = replicate MAX_CHAR_CLASS_LEN 0\<rparr>"

abbreviation ch :: "char \<Rightarrow> byte" where
  "ch \<equiv> byte_of_char"

section \<open>Compiling\<close>

definition re_at :: "byte list \<Rightarrow> nat \<Rightarrow> byte res" where
  "re_at p i = checkR (i < length p) Out_Of_Bounds (Inr (p ! i))"

definition set_type :: "nat \<Rightarrow> SOS_regex_rule \<Rightarrow> SOS_re_state \<Rightarrow> SOS_re_state" where
  "set_type j t st = st\<lparr>re_compiled := (re_compiled st)[j := (re_compiled st ! j)\<lparr>re_type := t\<rparr>]\<rparr>"

definition set_u :: "nat \<Rightarrow> re_union \<Rightarrow> SOS_re_state \<Rightarrow> SOS_re_state" where
  "set_u j u st = st\<lparr>re_compiled := (re_compiled st)[j := (re_compiled st ! j)\<lparr>re_u := u\<rparr>]\<rparr>"

text \<open>Copies a class up to its bracket; \<open>False\<close> when the buffer is full. The position is that of the bracket.\<close>

function re_copy_class :: "byte list \<Rightarrow> nat \<Rightarrow> nat \<Rightarrow> byte list \<Rightarrow> (nat \<times> nat \<times> byte list \<times> bool) res" where
  "re_copy_class p i bufidx buf =
     (if Suc i < length p
      then (if p ! Suc i = ch (CHR '']'') \<or> p ! Suc i = 0 then Inr (Suc i, bufidx, buf, bufidx < MAX_CHAR_CLASS_LEN)
            else if MAX_CHAR_CLASS_LEN \<le> bufidx then Inr (Suc i, bufidx, buf, False)
            else re_copy_class p (Suc i) (Suc bufidx) (buf[bufidx := p ! Suc i]))
      else Inl Out_Of_Bounds)"
  by pat_completeness auto
termination
  by (relation "measure (\<lambda>(p, i, _, _). length p - i)") auto

declare re_copy_class.simps [simp del]

text \<open>
  One round of the loop. A backslash at the end sets nothing: the symbol keeps the type an earlier
  compilation left there. Returns the position of the last character read, the fill of the class
  buffer, the state, and whether to go on.
\<close>

definition re_symbol :: "byte list \<Rightarrow> byte \<Rightarrow> nat \<Rightarrow> nat \<Rightarrow> nat \<Rightarrow> SOS_re_state \<Rightarrow> (nat \<times> nat \<times> SOS_re_state \<times> bool) res" where
  "re_symbol p c i j bufidx st =
     (if c = ch (CHR ''^'') then Inr (i, bufidx, set_type j SOS_REGEX_BEGIN st, True)
      else if c = ch (CHR ''$'') then Inr (i, bufidx, set_type j SOS_REGEX_END st, True)
      else if c = ch (CHR ''.'') then Inr (i, bufidx, set_type j SOS_REGEX_DOT st, True)
      else if c = ch (CHR ''*'') then Inr (i, bufidx, set_type j SOS_REGEX_STAR st, True)
      else if c = ch (CHR ''+'') then Inr (i, bufidx, set_type j SOS_REGEX_PLUS st, True)
      else if c = ch (CHR ''?'') then Inr (i, bufidx, set_type j SOS_REGEX_QUESTIONMARK st, True)
      else if c = ch (CHR 0x5C)
      then bindR (re_at p (Suc i)) (\<lambda>d.
           if d = 0 then Inr (i, bufidx, st, True)
           else Inr (Suc i, bufidx,
             if d = ch (CHR ''d'') then set_type j SOS_REGEX_DIGIT st
             else if d = ch (CHR ''D'') then set_type j SOS_REGEX_NOT_DIGIT st
             else if d = ch (CHR ''w'') then set_type j SOS_REGEX_ALPHA st
             else if d = ch (CHR ''W'') then set_type j SOS_REGEX_NOT_ALPHA st
             else if d = ch (CHR ''s'') then set_type j SOS_REGEX_WHITESPACE st
             else if d = ch (CHR ''S'') then set_type j SOS_REGEX_NOT_WHITESPACE st
             else set_u j (Re_ch d) (set_type j SOS_REGEX_CHAR st), True))
      else if c = ch (CHR ''['')
      then bindR (re_at p (Suc i)) (\<lambda>d.
           let neg = (d = ch (CHR ''^''));
               st = set_type j (if neg then SOS_REGEX_INV_CHAR_CLASS else SOS_REGEX_CHAR_CLASS) st
           in bindR (re_copy_class p (if neg then Suc i else i) bufidx (re_ccl_buf st)) (\<lambda>(i, idx, buf, room).
              if room
              then Inr (i, Suc idx, set_u j (Re_ccl bufidx) (st\<lparr>re_ccl_buf := buf[idx := 0]\<rparr>), True)
              else Inr (i, idx, st\<lparr>re_ccl_buf := buf\<rparr>, False)))
      else Inr (i, bufidx, set_u j (Re_ch c) (set_type j SOS_REGEX_CHAR st), True))"

function re_compile_loop :: "byte list \<Rightarrow> nat \<Rightarrow> nat \<Rightarrow> nat \<Rightarrow> SOS_re_state \<Rightarrow> (SOS_re_state \<times> bool) res" where
  "re_compile_loop p i j bufidx st =
     bindR (re_at p i) (\<lambda>c.
     if c \<noteq> 0 \<and> j + 1 < MAX_REGEXP_OBJECTS
     then bindR (re_symbol p c i j bufidx st) (\<lambda>(i, bufidx, st, go_on).
          if go_on then re_compile_loop p (Suc i) (Suc j) bufidx st else Inr (st, False))
     else Inr (set_type j SOS_REGEX_UNUSED st, True))"
  by pat_completeness auto
termination
  by (relation "measure (\<lambda>(p, i, j, _, _). MAX_REGEXP_OBJECTS - j)") auto

declare re_compile_loop.simps [simp del]

text \<open>Whether there is a compiled pattern; else the call returns \<open>NULL\<close>.\<close>

definition SOS_re_compile :: "byte list \<Rightarrow> SOS_re_state \<Rightarrow> (SOS_re_state \<times> bool) res" where
  "SOS_re_compile pattern st = re_compile_loop pattern 0 0 1 st"

section \<open>Characters\<close>

definition SOS_matchdigit :: "byte \<Rightarrow> bool" where
  "SOS_matchdigit c \<longleftrightarrow> 48 \<le> sint c \<and> sint c \<le> 57"

definition SOS_matchalpha :: "byte \<Rightarrow> bool" where
  "SOS_matchalpha c \<longleftrightarrow> (97 \<le> sint c \<and> sint c \<le> 122) \<or> (65 \<le> sint c \<and> sint c \<le> 90)"

definition SOS_matchwhitespace :: "byte \<Rightarrow> bool" where
  "SOS_matchwhitespace c \<longleftrightarrow> c = 32 \<or> c = 9 \<or> c = 10 \<or> c = 13 \<or> c = 12 \<or> c = 11"

definition SOS_matchalphanum :: "byte \<Rightarrow> bool" where
  "SOS_matchalphanum c \<longleftrightarrow> c = ch (CHR ''_'') \<or> SOS_matchalpha c \<or> SOS_matchdigit c"

definition SOS_matchrange :: "byte \<Rightarrow> byte list \<Rightarrow> bool" where
  "SOS_matchrange c s \<longleftrightarrow> c \<noteq> ch (CHR ''-'') \<and>
     (case s of a # d # b # _ \<Rightarrow> a \<noteq> ch (CHR ''-'') \<and> d = ch (CHR ''-'') \<and> sint a \<le> sint c \<and> sint c \<le> sint b | _ \<Rightarrow> False)"

text \<open>The second test compares two comparisons.\<close>

definition SOS_ismetachar :: "byte \<Rightarrow> bool" where
  "SOS_ismetachar c \<longleftrightarrow> c = ch (CHR ''s'') \<or> ((c = ch (CHR ''S'')) = (c = ch (CHR ''w''))) \<or> c = ch (CHR ''W'') \<or>
     c = ch (CHR ''d'') \<or> c = ch (CHR ''D'')"

definition SOS_matchmetachar :: "byte \<Rightarrow> byte \<Rightarrow> bool" where
  "SOS_matchmetachar c s =
     (if s = ch (CHR ''d'') then SOS_matchdigit c
      else if s = ch (CHR ''D'') then \<not> SOS_matchdigit c
      else if s = ch (CHR ''w'') then SOS_matchalphanum c
      else if s = ch (CHR ''W'') then \<not> SOS_matchalphanum c
      else if s = ch (CHR ''s'') then SOS_matchwhitespace c
      else if s = ch (CHR ''S'') then \<not> SOS_matchwhitespace c
      else c = s)"

text \<open>\<open>prev\<close> is \<open>str[-1]\<close>; at the end of the class \<open>str[0]\<close> is \<open>NUL\<close>.\<close>

fun SOS_matchcharclass :: "byte \<Rightarrow> byte \<Rightarrow> byte list \<Rightarrow> bool" where
  "SOS_matchcharclass c prev [] \<longleftrightarrow> c = 0"
| "SOS_matchcharclass c prev (a # s) \<longleftrightarrow>
     (if SOS_matchrange c (a # s) then True
      else if a = ch (CHR 0x5C)
      then (case s of
              [] \<Rightarrow> SOS_matchmetachar c 0
            | b # s' \<Rightarrow> if SOS_matchmetachar c b then True else if c = b \<and> \<not> SOS_ismetachar c then True
                         else SOS_matchcharclass c b s')
      else if c = a then (if c = ch (CHR ''-'') then prev = 0 \<or> s = [] else True)
      else SOS_matchcharclass c a s)"

text \<open>A character of a symbol is unsigned, one of the text signed.\<close>

definition SOS_matchone :: "byte list \<Rightarrow> SOS_regex_t \<Rightarrow> byte \<Rightarrow> bool res" where
  "SOS_matchone ccl p c =
     (case re_type p of
        SOS_REGEX_DOT \<Rightarrow> Inr True
      | SOS_REGEX_CHAR_CLASS \<Rightarrow>
          (case re_u p of Re_ccl k \<Rightarrow> Inr (SOS_matchcharclass c (ccl ! (k - 1)) (cstr (drop k ccl))) | _ \<Rightarrow> Inl Union_Misread)
      | SOS_REGEX_INV_CHAR_CLASS \<Rightarrow>
          (case re_u p of Re_ccl k \<Rightarrow> Inr (\<not> SOS_matchcharclass c (ccl ! (k - 1)) (cstr (drop k ccl))) | _ \<Rightarrow> Inl Union_Misread)
      | SOS_REGEX_DIGIT \<Rightarrow> Inr (SOS_matchdigit c)
      | SOS_REGEX_NOT_DIGIT \<Rightarrow> Inr (\<not> SOS_matchdigit c)
      | SOS_REGEX_ALPHA \<Rightarrow> Inr (SOS_matchalphanum c)
      | SOS_REGEX_NOT_ALPHA \<Rightarrow> Inr (\<not> SOS_matchalphanum c)
      | SOS_REGEX_WHITESPACE \<Rightarrow> Inr (SOS_matchwhitespace c)
      | SOS_REGEX_NOT_WHITESPACE \<Rightarrow> Inr (\<not> SOS_matchwhitespace c)
      | _ \<Rightarrow> (case re_u p of Re_ch x \<Rightarrow> Inr (uint x = sint c) | _ \<Rightarrow> Inl Union_Misread))"

section \<open>Matching\<close>

function SOS_matchpattern :: "byte list \<Rightarrow> SOS_regex_t list \<Rightarrow> byte list \<Rightarrow> bool res"
  and SOS_matchstar :: "byte list \<Rightarrow> SOS_regex_t \<Rightarrow> SOS_regex_t list \<Rightarrow> byte list \<Rightarrow> bool res"
  and SOS_matchplus :: "byte list \<Rightarrow> SOS_regex_t \<Rightarrow> SOS_regex_t list \<Rightarrow> byte list \<Rightarrow> bool res"
where
  "SOS_matchpattern ccl pattern text =
     (case pattern of
        [] \<Rightarrow> Inl Out_Of_Bounds
      | p # ps \<Rightarrow>
          if re_type p = SOS_REGEX_UNUSED then Inr True
          else
            (case ps of
               [] \<Rightarrow> Inl Out_Of_Bounds
             | q # ps' \<Rightarrow>
                 if re_type q = SOS_REGEX_QUESTIONMARK then Inr True
                 else if re_type q = SOS_REGEX_STAR then SOS_matchstar ccl p ps' text
                 else if re_type q = SOS_REGEX_PLUS then SOS_matchplus ccl p ps' text
                 else if re_type p = SOS_REGEX_END \<and> re_type q = SOS_REGEX_UNUSED then Inr (text = [])
                 else
                   (case text of
                      [] \<Rightarrow> Inr False
                    | c # cs \<Rightarrow> bindR (SOS_matchone ccl p c) (\<lambda>m. if m then SOS_matchpattern ccl ps cs else Inr False))))"
| "SOS_matchstar ccl p pattern text =
     bindR (SOS_matchpattern ccl pattern text) (\<lambda>m.
     if m then Inr True
     else
       (case text of
          [] \<Rightarrow> Inr False
        | c # cs \<Rightarrow> bindR (SOS_matchone ccl p c) (\<lambda>m. if m then SOS_matchstar ccl p pattern cs else Inr False)))"
| "SOS_matchplus ccl p pattern text =
     (case text of
        [] \<Rightarrow> Inr False
      | c # cs \<Rightarrow>
          bindR (SOS_matchone ccl p c) (\<lambda>m.
          if m then bindR (SOS_matchpattern ccl pattern cs) (\<lambda>m. if m then Inr True else SOS_matchplus ccl p pattern cs)
          else Inr False))"
  by pat_completeness auto
termination
  by (relation "measures [\<lambda>x. case x of Inl (_, ps, _) \<Rightarrow> length ps | Inr (Inl (_, _, ps, _)) \<Rightarrow> length ps | Inr (Inr (_, _, ps, _)) \<Rightarrow> length ps,
      \<lambda>x. case x of Inl (_, _, ts) \<Rightarrow> length ts | Inr (Inl (_, _, _, ts)) \<Rightarrow> length ts | Inr (Inr (_, _, _, ts)) \<Rightarrow> length ts,
      \<lambda>x. case x of Inl _ \<Rightarrow> 0 | Inr _ \<Rightarrow> 1]") auto

declare SOS_matchpattern.simps [simp del] SOS_matchstar.simps [simp del] SOS_matchplus.simps [simp del]

fun re_search :: "byte list \<Rightarrow> SOS_regex_t list \<Rightarrow> int \<Rightarrow> byte list \<Rightarrow> int res" where
  "re_search ccl pattern idx [] = bindR (SOS_matchpattern ccl pattern []) (\<lambda>m. Inr (if m then idx else - 1))"
| "re_search ccl pattern idx (c # cs) =
     bindR (SOS_matchpattern ccl pattern (c # cs)) (\<lambda>m. if m then Inr idx else re_search ccl pattern (idx + 1) cs)"

definition SOS_re_matchp :: "SOS_re_state \<Rightarrow> bool \<Rightarrow> byte list \<Rightarrow> int res" where
  "SOS_re_matchp st pattern text =
     (if pattern
      then (let ps = re_compiled st
            in if re_type (ps ! 0) = SOS_REGEX_BEGIN
               then bindR (SOS_matchpattern (re_ccl_buf st) (drop 1 ps) text) (\<lambda>m. Inr (if m then 0 else - 1))
               else re_search (re_ccl_buf st) ps 0 text)
      else Inr (- 1))"

definition SOS_re_match :: "byte list \<Rightarrow> byte list \<Rightarrow> SOS_re_state \<Rightarrow> (SOS_re_state \<times> int) res" where
  "SOS_re_match pattern text st =
     bindR (SOS_re_compile pattern st) (\<lambda>(st, ok).
     bindR (SOS_re_matchp st ok text) (\<lambda>i. Inr (st, i)))"

end
