(* ===== verification/SOS_Regex_Language.thy ===== *)
theory SOS_Regex_Language
  imports SOS_Regex
begin

text \<open>
  What the regular expressions of \<open>sos_re.c\<close> match.

  \<open>re_lang\<close> is the language of a sequence of items, each a set of characters with a quantifier;
  \<open>matchpattern_iff\<close> shows that the backtracking matcher decides it. A \<open>re_pattern\<close> is the abstract
  syntax, \<open>re_print\<close> writes it; \<open>compile_syms\<close> shows that compiling reads what is written, and
  \<open>match_printed_pattern\<close> puts both together. The last section is about what compiling keeps and about patterns
  outside that syntax: the question mark, which ends a match, and a class without its bracket.
\<close>

section \<open>The language of a pattern\<close>

datatype re_quant = One | Star | Plus

definition re_chars :: "byte list \<Rightarrow> SOS_regex_t \<Rightarrow> byte set" where
  "re_chars ccl p = {c. SOS_matchone ccl p c = Inr True}"

definition re_piece :: "byte set \<times> re_quant \<Rightarrow> byte list set" where
  "re_piece = (\<lambda>(S, q).
     {w. set w \<subseteq> S \<and> (case q of One \<Rightarrow> length w = 1 | Star \<Rightarrow> True | Plus \<Rightarrow> w \<noteq> [])})"

fun re_lang :: "(byte set \<times> re_quant) list \<Rightarrow> byte list set" where
  "re_lang [] = {[]}"
| "re_lang (item # items) = {w @ u | w u. w \<in> re_piece item \<and> u \<in> re_lang items}"

text \<open>The subject starts with a word of the language; with \<open>$\<close> it is one.\<close>

definition re_accepts :: "(byte set \<times> re_quant) list \<Rightarrow> bool \<Rightarrow> byte list \<Rightarrow> bool" where
  "re_accepts items at_end text \<longleftrightarrow> (\<exists>u v. text = u @ v \<and> u \<in> re_lang items \<and> (at_end \<longrightarrow> v = []))"

lemma accepts_Nil: "re_accepts [] at_end text \<longleftrightarrow> (at_end \<longrightarrow> text = [])"
  by (auto simp: re_accepts_def)

lemma accepts_Cons:
  "re_accepts (item # items) e text \<longleftrightarrow> (\<exists>w ts. text = w @ ts \<and> w \<in> re_piece item \<and> re_accepts items e ts)"
proof
  assume "re_accepts (item # items) e text"
  then obtain x v where x: "text = x @ v" "x \<in> re_lang (item # items)" "e \<longrightarrow> v = []"
    unfolding re_accepts_def by blast
  then obtain w u where "x = w @ u" "w \<in> re_piece item" "u \<in> re_lang items" by auto
  then show "\<exists>w ts. text = w @ ts \<and> w \<in> re_piece item \<and> re_accepts items e ts"
    using x unfolding re_accepts_def by (intro exI [of _ w] exI [of _ "u @ v"]) auto
next
  assume "\<exists>w ts. text = w @ ts \<and> w \<in> re_piece item \<and> re_accepts items e ts"
  then obtain w u v where w: "text = w @ u @ v" "w \<in> re_piece item" "u \<in> re_lang items" "e \<longrightarrow> v = []"
    unfolding re_accepts_def by blast
  then have "w @ u \<in> re_lang (item # items)" by auto
  then show "re_accepts (item # items) e text"
    using w unfolding re_accepts_def by (intro exI [of _ "w @ u"] exI [of _ v]) simp
qed

lemma accepts_One:
  "re_accepts ((S, One) # items) e text \<longleftrightarrow> (\<exists>c cs. text = c # cs \<and> c \<in> S \<and> re_accepts items e cs)"
proof
  assume "re_accepts ((S, One) # items) e text"
  then obtain w ts where w: "text = w @ ts" "length w = 1" "set w \<subseteq> S" "re_accepts items e ts"
    by (auto simp: accepts_Cons re_piece_def)
  then obtain c where "w = [c]" by (auto simp: length_Suc_conv)
  then show "\<exists>c cs. text = c # cs \<and> c \<in> S \<and> re_accepts items e cs" using w by auto
next
  assume "\<exists>c cs. text = c # cs \<and> c \<in> S \<and> re_accepts items e cs"
  then obtain c cs where "text = [c] @ cs" "c \<in> S" "re_accepts items e cs" by auto
  then show "re_accepts ((S, One) # items) e text"
    unfolding accepts_Cons by (intro exI [of _ "[c]"] exI [of _ cs]) (simp add: re_piece_def)
qed

lemma accepts_Plus:
  "re_accepts ((S, Plus) # items) e text \<longleftrightarrow> (\<exists>c cs. text = c # cs \<and> c \<in> S \<and> re_accepts ((S, Star) # items) e cs)"
proof
  assume "re_accepts ((S, Plus) # items) e text"
  then obtain w ts where w: "text = w @ ts" "w \<noteq> []" "set w \<subseteq> S" "re_accepts items e ts"
    by (auto simp: accepts_Cons re_piece_def)
  then show "\<exists>c cs. text = c # cs \<and> c \<in> S \<and> re_accepts ((S, Star) # items) e cs"
    by (cases w) (auto simp: accepts_Cons re_piece_def)
next
  assume "\<exists>c cs. text = c # cs \<and> c \<in> S \<and> re_accepts ((S, Star) # items) e cs"
  then obtain c w ts where "text = (c # w) @ ts" "c \<in> S" "set w \<subseteq> S" "re_accepts items e ts"
    by (auto simp: accepts_Cons re_piece_def)
  then show "re_accepts ((S, Plus) # items) e text"
    unfolding accepts_Cons [of "(S, Plus)"] by (intro exI [of _ "c # w"] exI [of _ ts]) (auto simp: re_piece_def)
qed

lemma accepts_Star:
  "re_accepts ((S, Star) # items) e text \<longleftrightarrow>
     re_accepts items e text \<or> (\<exists>c cs. text = c # cs \<and> c \<in> S \<and> re_accepts ((S, Star) # items) e cs)"
proof -
  have "re_accepts ((S, Star) # items) e text \<longleftrightarrow> re_accepts items e text \<or> re_accepts ((S, Plus) # items) e text"
  proof
    assume "re_accepts ((S, Star) # items) e text"
    then obtain w ts where "text = w @ ts" "set w \<subseteq> S" "re_accepts items e ts" by (auto simp: accepts_Cons re_piece_def)
    then show "re_accepts items e text \<or> re_accepts ((S, Plus) # items) e text"
      by (cases "w = []") (auto simp: accepts_Cons re_piece_def)
  next
    assume "re_accepts items e text \<or> re_accepts ((S, Plus) # items) e text"
    then show "re_accepts ((S, Star) # items) e text"
    proof
      assume "re_accepts items e text"
      then show ?thesis unfolding accepts_Cons by (intro exI [of _ "[]"] exI [of _ "text"]) (simp add: re_piece_def)
    qed (auto simp: accepts_Cons re_piece_def)
  qed
  then show ?thesis by (simp add: accepts_Plus)
qed

section \<open>The matcher decides the language\<close>

definition char_items :: "byte list \<Rightarrow> (SOS_regex_t \<times> re_quant) list \<Rightarrow> (byte set \<times> re_quant) list" where
  "char_items ccl items = map (\<lambda>(p, q). (re_chars ccl p, q)) items"

lemma char_items_simps [simp]: "char_items ccl [] = []" "char_items ccl ((p, q) # items) = (re_chars ccl p, q) # char_items ccl items"
  by (simp_all add: char_items_def)

text \<open>An array of symbols spells a sequence of items.\<close>

fun re_spells :: "SOS_regex_t list \<Rightarrow> (SOS_regex_t \<times> re_quant) list \<Rightarrow> bool \<Rightarrow> bool" where
  "re_spells ps [] e \<longleftrightarrow>
     (if e then \<exists>p q ps'. ps = p # q # ps' \<and> re_type p = SOS_REGEX_END \<and> re_type q = SOS_REGEX_UNUSED
      else \<exists>p ps'. ps = p # ps' \<and> re_type p = SOS_REGEX_UNUSED)"
| "re_spells ps ((a, One) # items) e \<longleftrightarrow> (\<exists>ps'. ps = a # ps' \<and> re_spells ps' items e)"
| "re_spells ps ((a, Star) # items) e \<longleftrightarrow> (\<exists>q ps'. ps = a # q # ps' \<and> re_type q = SOS_REGEX_STAR \<and> re_spells ps' items e)"
| "re_spells ps ((a, Plus) # items) e \<longleftrightarrow> (\<exists>q ps'. ps = a # q # ps' \<and> re_type q = SOS_REGEX_PLUS \<and> re_spells ps' items e)"

definition re_plain :: "byte list \<Rightarrow> SOS_regex_t \<Rightarrow> bool" where
  "re_plain ccl p \<longleftrightarrow>
     re_type p \<notin> {SOS_REGEX_UNUSED, SOS_REGEX_BEGIN, SOS_REGEX_END, SOS_REGEX_QUESTIONMARK, SOS_REGEX_STAR, SOS_REGEX_PLUS} \<and>
     (\<forall>c. \<exists>m. SOS_matchone ccl p c = Inr m)"

lemma matchone_plain: "re_plain ccl p \<Longrightarrow> SOS_matchone ccl p c = Inr (c \<in> re_chars ccl p)"
  by (auto simp: re_plain_def re_chars_def) metis

lemma spells_head:
  assumes "re_spells ps items e" and "\<forall>(p, q) \<in> set items. re_plain ccl p"
  shows "\<exists>p ps'. ps = p # ps' \<and> re_type p \<notin> {SOS_REGEX_BEGIN, SOS_REGEX_QUESTIONMARK, SOS_REGEX_STAR, SOS_REGEX_PLUS} \<and>
    (re_type p = SOS_REGEX_UNUSED \<longrightarrow> items = [])"
  using assms by (induction ps items e rule: re_spells.induct) (auto simp: re_plain_def split: if_splits)

lemma matchstar_iff:
  assumes "\<And>ts. SOS_matchpattern ccl ps ts = Inr (re_accepts (char_items ccl items) e ts)" and "re_plain ccl p"
  shows "SOS_matchstar ccl p ps ts = Inr (re_accepts ((re_chars ccl p, Star) # char_items ccl items) e ts)"
proof (induction ts)
  case Nil
  then show ?case using assms(1) accepts_Star [of "re_chars ccl p" "char_items ccl items" e "[]"] by (simp add: SOS_matchstar.simps)
next
  case (Cons c cs)
  then show ?case
    using assms(1) accepts_Star [of "re_chars ccl p" "char_items ccl items" e "c # cs"] matchone_plain [OF assms(2)]
    by (subst SOS_matchstar.simps) simp
qed

lemma matchplus_iff:
  assumes "\<And>ts. SOS_matchpattern ccl ps ts = Inr (re_accepts (char_items ccl items) e ts)" and "re_plain ccl p"
  shows "SOS_matchplus ccl p ps ts = Inr (re_accepts ((re_chars ccl p, Plus) # char_items ccl items) e ts)"
proof (induction ts)
  case Nil
  then show ?case using accepts_Plus [of "re_chars ccl p" "char_items ccl items" e "[]"] by (simp add: SOS_matchplus.simps)
next
  case (Cons c cs)
  have "re_accepts ((re_chars ccl p, Star) # char_items ccl items) e cs \<longleftrightarrow> re_accepts (char_items ccl items) e cs \<or> re_accepts ((re_chars ccl p, Plus) # char_items ccl items) e cs"
    using accepts_Star [of "re_chars ccl p" "char_items ccl items" e cs] accepts_Plus [of "re_chars ccl p" "char_items ccl items" e cs] by blast
  then show ?case
    using Cons assms(1) accepts_Plus [of "re_chars ccl p" "char_items ccl items" e "c # cs"] matchone_plain [OF assms(2)]
    by (subst SOS_matchplus.simps) simp
qed

lemma matchpattern_iff:
  assumes "re_spells ps items e" and "\<forall>(p, q) \<in> set items. re_plain ccl p"
  shows "SOS_matchpattern ccl ps ts = Inr (re_accepts (char_items ccl items) e ts)"
  using assms
proof (induction items arbitrary: ps ts)
  case Nil
  then show ?case
    by (cases e) (auto simp: accepts_Nil SOS_matchpattern.simps)
next
  case (Cons item items)
  obtain p q where item: "item = (p, q)" by (cases item)
  have plain: "re_plain ccl p" "\<forall>(p, q) \<in> set items. re_plain ccl p" using Cons.prems(2) item by auto
  then have ty: "re_type p \<noteq> SOS_REGEX_UNUSED" "re_type p \<noteq> SOS_REGEX_END" by (auto simp: re_plain_def)
  show ?case
  proof (cases q)
    case One
    then obtain ps' where ps: "ps = p # ps'" "re_spells ps' items e" using Cons.prems(1) item by auto
    obtain r ps'' where r: "ps' = r # ps''" "re_type r \<notin> {SOS_REGEX_BEGIN, SOS_REGEX_QUESTIONMARK, SOS_REGEX_STAR, SOS_REGEX_PLUS}"
      using spells_head [OF ps(2) plain(2)] by blast
    note ih = Cons.IH [OF ps(2) plain(2)]
    show ?thesis
      using ty r ih matchone_plain [OF plain(1)] accepts_One [of "re_chars ccl p" "char_items ccl items" e ts]
      by (subst SOS_matchpattern.simps) (simp add: item One ps(1) split: list.split)
  next
    case Star
    then obtain r ps' where ps: "ps = p # r # ps'" "re_type r = SOS_REGEX_STAR" "re_spells ps' items e" using Cons.prems(1) item by auto
    show ?thesis
      using ty ps(2) matchstar_iff [OF Cons.IH [OF ps(3) plain(2)] plain(1)]
      by (subst SOS_matchpattern.simps) (simp add: item Star ps(1))
  next
    case Plus
    then obtain r ps' where ps: "ps = p # r # ps'" "re_type r = SOS_REGEX_PLUS" "re_spells ps' items e" using Cons.prems(1) item by auto
    show ?thesis
      using ty ps(2) matchplus_iff [OF Cons.IH [OF ps(3) plain(2)] plain(1)]
      by (subst SOS_matchpattern.simps) (simp add: item Plus ps(1))
  qed
qed

text \<open>The first position from which the text is accepted.\<close>

definition first_match :: "(byte list \<Rightarrow> bool) \<Rightarrow> byte list \<Rightarrow> int" where
  "first_match P text = (if \<exists>i \<le> length text. P (drop i text) then int (LEAST i. P (drop i text)) else - 1)"

lemma first_match_here: "P text \<Longrightarrow> first_match P text = 0"
proof -
  assume P: "P text"
  then have "(LEAST i. P (drop i text)) = 0" by (intro Least_eq_0) simp
  moreover have "\<exists>i \<le> length text. P (drop i text)" using P by (intro exI [of _ 0]) simp
  ultimately show ?thesis by (simp add: first_match_def)
qed

lemma first_match_next:
  assumes "\<not> P (c # cs)"
  shows "first_match P (c # cs) = (if first_match P cs = - 1 then - 1 else first_match P cs + 1)"
proof -
  have ex: "(\<exists>i \<le> length (c # cs). P (drop i (c # cs))) \<longleftrightarrow> (\<exists>i \<le> length cs. P (drop i cs))"
  proof
    assume "\<exists>i \<le> length (c # cs). P (drop i (c # cs))"
    then obtain i where "i \<le> length (c # cs)" "P (drop i (c # cs))" by blast
    then show "\<exists>i \<le> length cs. P (drop i cs)" using assms by (cases i) auto
  next
    assume "\<exists>i \<le> length cs. P (drop i cs)"
    then obtain i where "i \<le> length cs" "P (drop i cs)" by blast
    then show "\<exists>i \<le> length (c # cs). P (drop i (c # cs))" by (intro exI [of _ "Suc i"]) simp
  qed
  have "(LEAST i. P (drop i (c # cs))) = Suc (LEAST i. P (drop i cs))" if "\<exists>i \<le> length cs. P (drop i cs)"
  proof -
    from that obtain i where "P (drop i cs)" by blast
    then show ?thesis using Least_Suc [of "\<lambda>i. P (drop i (c # cs))" "Suc i"] assms by simp
  qed
  then show ?thesis unfolding first_match_def using ex by auto
qed

lemma first_match_Nil: "first_match P [] = (if P [] then 0 else - 1)"
  using first_match_here [of P "[]"] by (simp add: first_match_def)

lemma first_match_range: "- 1 \<le> first_match P text"
  by (simp add: first_match_def)

lemma re_search_first:
  assumes "\<And>ts. SOS_matchpattern ccl ps ts = Inr (P ts)"
  shows "re_search ccl ps k text = Inr (if first_match P text = - 1 then - 1 else k + first_match P text)"
proof (induction "text" arbitrary: k)
  case Nil
  then show ?case using assms by (simp add: first_match_Nil)
next
  case (Cons c cs)
  then show ?case
    using assms first_match_next [of P c cs] first_match_here [of P "c # cs"] first_match_range [of P cs]
    by (cases "P (c # cs)") auto
qed

section \<open>Patterns and how they are written\<close>

datatype re_atom =
    At_Lit byte | At_Dot | At_Digit | At_Not_Digit | At_Alpha | At_Not_Alpha | At_Space | At_Not_Space
  | At_Class bool "byte list"

text \<open>The characters an atom stands for: a literal is unsigned, so one above 127 stands for none.\<close>

definition atom_chars :: "re_atom \<Rightarrow> byte set" where
  "atom_chars a =
     (case a of
        At_Lit x \<Rightarrow> {c. uint x = sint c}
      | At_Dot \<Rightarrow> UNIV
      | At_Digit \<Rightarrow> {c. SOS_matchdigit c}
      | At_Not_Digit \<Rightarrow> {c. \<not> SOS_matchdigit c}
      | At_Alpha \<Rightarrow> {c. SOS_matchalphanum c}
      | At_Not_Alpha \<Rightarrow> {c. \<not> SOS_matchalphanum c}
      | At_Space \<Rightarrow> {c. SOS_matchwhitespace c}
      | At_Not_Space \<Rightarrow> {c. \<not> SOS_matchwhitespace c}
      | At_Class neg cs \<Rightarrow> {c. SOS_matchcharclass c 0 cs \<noteq> neg})"

record re_pattern =
  pt_begin :: bool
  pt_items :: "(re_atom \<times> re_quant) list"
  pt_end :: bool

datatype re_sym = Sym_Begin | Sym_End | Sym_Star | Sym_Plus | Sym_Atom re_atom

definition re_meta :: "byte \<Rightarrow> bool" where
  "re_meta c \<longleftrightarrow> c \<in> {ch (CHR ''^''), ch (CHR ''$''), ch (CHR ''.''), ch (CHR ''*''), ch (CHR ''+''), ch (CHR ''?''), ch (CHR 0x5C), ch (CHR ''['')}"

fun atom_print :: "re_atom \<Rightarrow> byte list" where
  "atom_print (At_Lit c) = (if re_meta c then [ch (CHR 0x5C), c] else [c])"
| "atom_print At_Dot = str ''.''"
| "atom_print At_Digit = [ch (CHR 0x5C), ch (CHR ''d'')]"
| "atom_print At_Not_Digit = [ch (CHR 0x5C), ch (CHR ''D'')]"
| "atom_print At_Alpha = [ch (CHR 0x5C), ch (CHR ''w'')]"
| "atom_print At_Not_Alpha = [ch (CHR 0x5C), ch (CHR ''W'')]"
| "atom_print At_Space = [ch (CHR 0x5C), ch (CHR ''s'')]"
| "atom_print At_Not_Space = [ch (CHR 0x5C), ch (CHR ''S'')]"
| "atom_print (At_Class neg cs) = ch (CHR ''['') # (if neg then [ch (CHR ''^'')] else []) @ cs @ [ch (CHR '']'')]"

fun sym_print :: "re_sym \<Rightarrow> byte list" where
  "sym_print Sym_Begin = str ''^''"
| "sym_print Sym_End = str ''$''"
| "sym_print Sym_Star = str ''*''"
| "sym_print Sym_Plus = str ''+''"
| "sym_print (Sym_Atom a) = atom_print a"

definition item_syms :: "re_atom \<times> re_quant \<Rightarrow> re_sym list" where
  "item_syms = (\<lambda>(a, q). Sym_Atom a # (case q of One \<Rightarrow> [] | Star \<Rightarrow> [Sym_Star] | Plus \<Rightarrow> [Sym_Plus]))"

definition pattern_syms :: "re_pattern \<Rightarrow> re_sym list" where
  "pattern_syms pt = (if pt_begin pt then [Sym_Begin] else []) @ concat (map item_syms (pt_items pt)) @ (if pt_end pt then [Sym_End] else [])"

definition re_print :: "re_pattern \<Rightarrow> byte list" where
  "re_print pt = concat (map sym_print (pattern_syms pt))"

text \<open>What a class needs of the buffer.\<close>

fun sym_room :: "re_sym \<Rightarrow> nat" where
  "sym_room (Sym_Atom (At_Class neg cs)) = Suc (length cs)"
| "sym_room _ = 0"

fun sym_ok :: "re_sym \<Rightarrow> bool" where
  "sym_ok (Sym_Atom (At_Lit c)) \<longleftrightarrow> c \<noteq> 0"
| "sym_ok (Sym_Atom (At_Class neg cs)) \<longleftrightarrow> 0 \<notin> set cs \<and> ch (CHR '']'') \<notin> set cs \<and> (\<not> neg \<longrightarrow> cs = [] \<or> hd cs \<noteq> ch (CHR ''^''))"
| "sym_ok _ \<longleftrightarrow> True"

definition re_pattern_ok :: "re_pattern \<Rightarrow> bool" where
  "re_pattern_ok pt \<longleftrightarrow> (\<forall>s \<in> set (pattern_syms pt). sym_ok s) \<and> length (pattern_syms pt) < MAX_REGEXP_OBJECTS \<and>
     sum_list (map sym_room (pattern_syms pt)) < MAX_CHAR_CLASS_LEN"

section \<open>Compiling reads what is written\<close>

definition re_state_ok :: "SOS_re_state \<Rightarrow> bool" where
  "re_state_ok st \<longleftrightarrow> length (re_compiled st) = MAX_REGEXP_OBJECTS \<and> length (re_ccl_buf st) = MAX_CHAR_CLASS_LEN \<and> re_ccl_buf st ! 0 = 0"

fun sym_type :: "re_sym \<Rightarrow> SOS_regex_rule" where
  "sym_type Sym_Begin = SOS_REGEX_BEGIN"
| "sym_type Sym_End = SOS_REGEX_END"
| "sym_type Sym_Star = SOS_REGEX_STAR"
| "sym_type Sym_Plus = SOS_REGEX_PLUS"
| "sym_type (Sym_Atom (At_Lit _)) = SOS_REGEX_CHAR"
| "sym_type (Sym_Atom At_Dot) = SOS_REGEX_DOT"
| "sym_type (Sym_Atom At_Digit) = SOS_REGEX_DIGIT"
| "sym_type (Sym_Atom At_Not_Digit) = SOS_REGEX_NOT_DIGIT"
| "sym_type (Sym_Atom At_Alpha) = SOS_REGEX_ALPHA"
| "sym_type (Sym_Atom At_Not_Alpha) = SOS_REGEX_NOT_ALPHA"
| "sym_type (Sym_Atom At_Space) = SOS_REGEX_WHITESPACE"
| "sym_type (Sym_Atom At_Not_Space) = SOS_REGEX_NOT_WHITESPACE"
| "sym_type (Sym_Atom (At_Class neg _)) = (if neg then SOS_REGEX_INV_CHAR_CLASS else SOS_REGEX_CHAR_CLASS)"

text \<open>The union of a compiled symbol, with its class in the first \<open>limit\<close> bytes of the buffer.\<close>

fun sym_union :: "byte list \<Rightarrow> re_sym \<Rightarrow> re_union \<Rightarrow> bool" where
  "sym_union buf (Sym_Atom (At_Lit c)) u \<longleftrightarrow> u = Re_ch c"
| "sym_union buf (Sym_Atom (At_Class neg cs)) u \<longleftrightarrow>
     (\<exists>xs ys. u = Re_ccl (Suc (length xs)) \<and> buf = xs @ 0 # cs @ 0 # ys)"
| "sym_union buf _ u \<longleftrightarrow> True"

definition sym_holds :: "byte list \<Rightarrow> re_sym \<Rightarrow> SOS_regex_t \<Rightarrow> bool" where
  "sym_holds buf s p \<longleftrightarrow> re_type p = sym_type s \<and> sym_union buf s (re_u p)"

lemma sym_holds_append: "sym_holds buf s p \<Longrightarrow> sym_holds (buf @ zs) s p"
proof -
  have "sym_union (buf @ zs) s u" if "sym_union buf s u" for u
  proof (cases s)
    case (Sym_Atom a)
    then show ?thesis using that by (cases a) auto
  qed (use that in auto)
  then show "sym_holds buf s p \<Longrightarrow> sym_holds (buf @ zs) s p" by (simp add: sym_holds_def)
qed

lemma copy_class_ok:
  assumes "drop (Suc i) p = cs @ e # rest" and "e = ch (CHR '']'') \<or> e = 0" and "0 \<notin> set cs" and "ch (CHR '']'') \<notin> set cs"
    and "length xs + length cs < MAX_CHAR_CLASS_LEN" and "length xs + length ys = MAX_CHAR_CLASS_LEN"
  shows "re_copy_class p i (length xs) (xs @ ys) = Inr (Suc i + length cs, length xs + length cs, xs @ cs @ drop (length cs) ys, True)"
  using assms
proof (induction cs arbitrary: i xs ys)
  case Nil
  then have "Suc i < length p" "p ! Suc i = e"
    by (metis append_Nil drop_all list.distinct(1) not_le) (metis Nil.prems(1) append_Nil nth_via_drop)
  then show ?case using Nil by (auto simp add: re_copy_class.simps [of p i])
next
  case (Cons c cs)
  have p: "Suc i < length p" "p ! Suc i = c"
    using Cons.prems(1) by (metis append_Cons drop_all list.distinct(1) not_le) (metis Cons.prems(1) append_Cons nth_via_drop)
  have d: "drop (Suc (Suc i)) p = cs @ e # rest"
    using Cons.prems(1) by (metis append_Cons drop_Suc list.sel(3) tl_drop)
  obtain y ys' where ys: "ys = y # ys'" using Cons.prems(5,6) by (cases ys) auto
  have "re_copy_class p (Suc i) (length (xs @ [c])) ((xs @ [c]) @ ys') =
      Inr (Suc (Suc i) + length cs, length (xs @ [c]) + length cs, (xs @ [c]) @ cs @ drop (length cs) ys', True)"
    by (rule Cons.IH) (use Cons.prems d ys in auto)
  then show ?case
    using p Cons.prems(2-5) by (subst re_copy_class.simps) (auto simp: ys list_update_append)
qed

lemma re_at_drop: "drop i p = x # xs \<Longrightarrow> re_at p i = Inr x"
  by (metis checkR_True drop_all list.distinct(1) not_le nth_via_drop re_at_def)

lemma drop_Suc_of: "drop i p = x # xs \<Longrightarrow> drop (Suc i) p = xs"
  by (metis drop_Suc list.sel(3) tl_drop)

lemma set_type_at: "re_compiled st = qs @ r # rs \<Longrightarrow> set_type (length qs) t st = st\<lparr>re_compiled := qs @ r\<lparr>re_type := t\<rparr> # rs\<rparr>"
  and set_u_at: "re_compiled st = qs @ r # rs \<Longrightarrow> set_u (length qs) u st = st\<lparr>re_compiled := qs @ r\<lparr>re_u := u\<rparr> # rs\<rparr>"
  by (simp_all add: set_type_def set_u_def list_update_append nth_append)

lemma re_symbol_class:
  assumes "re_compiled st = qs @ r # rs" and "re_ccl_buf st = xs @ 0 # ys" and "length (re_ccl_buf st) = MAX_CHAR_CLASS_LEN"
    and "drop i p = atom_print (At_Class neg cs) @ rest" and "sym_ok (Sym_Atom (At_Class neg cs))"
    and "length xs + Suc (length cs) < MAX_CHAR_CLASS_LEN"
  shows "re_symbol p (ch (CHR ''['')) i (length qs) (Suc (length xs)) st =
    Inr (i + length (atom_print (At_Class neg cs)) - 1, Suc (length (xs @ 0 # cs)),
      \<lparr>re_compiled = qs @ r\<lparr>re_type := sym_type (Sym_Atom (At_Class neg cs)), re_u := Re_ccl (Suc (length xs))\<rparr> # rs,
       re_ccl_buf = (xs @ 0 # cs) @ 0 # drop (Suc (length cs)) ys\<rparr>, True)"
proof -
  let ?i = "if neg then Suc i else i"
  have d1: "drop (Suc i) p = (if neg then [ch (CHR ''^'')] else []) @ cs @ ch (CHR '']'') # rest"
    using assms(4) drop_Suc_of [of i p] by (cases neg) auto
  have d: "drop (Suc ?i) p = cs @ ch (CHR '']'') # rest" using d1 drop_Suc_of [of "Suc i" p] by (cases neg) auto
  have first: "\<exists>x. re_at p (Suc i) = Inr x \<and> (x = ch (CHR ''^'')) = neg"
  proof (cases neg)
    case True
    then show ?thesis using d1 re_at_drop [of "Suc i" p] by simp
  next
    case False
    show ?thesis
    proof (cases cs)
      case Nil
      then have "re_at p (Suc i) = Inr (ch (CHR '']''))" using d1 False re_at_drop [of "Suc i" p] by simp
      then show ?thesis using False by (simp add: byte_of_char_def)
    next
      case (Cons c cs')
      then have "re_at p (Suc i) = Inr c" using d1 False re_at_drop [of "Suc i" p] by simp
      then show ?thesis using False assms(5) Cons by auto
    qed
  qed
  have len: "length (xs @ [0]) + length ys = MAX_CHAR_CLASS_LEN" using assms(2,3) by simp
  have copy: "re_copy_class p ?i (Suc (length xs)) (re_ccl_buf st) =
      Inr (Suc ?i + length cs, Suc (length xs) + length cs, (xs @ [0]) @ cs @ drop (length cs) ys, True)"
    using copy_class_ok [OF d, of "xs @ [0]" ys] assms(2,5,6) len by simp
  have room: "length cs < length ys" using assms(6) len by simp
  then obtain y ys' where ys: "drop (length cs) ys = y # ys'" by (metis Cons_nth_drop_Suc)
  then have ys': "drop (Suc (length cs)) ys = ys'" by (rule drop_Suc_of)
  have upd: "((xs @ [0]) @ cs @ drop (length cs) ys)[Suc (length xs) + length cs := 0] = (xs @ 0 # cs) @ 0 # ys'"
    by (simp add: ys list_update_append)
  obtain x where x: "re_at p (Suc i) = Inr x" "(x = ch (CHR ''^'')) = neg" using first by blast
  have "re_symbol p (ch (CHR ''['')) i (length qs) (Suc (length xs)) st =
      bindR (re_copy_class p ?i (Suc (length xs)) (re_ccl_buf st)) (\<lambda>(i, idx, buf, room).
        if room
        then Inr (i, Suc idx, set_u (length qs) (Re_ccl (Suc (length xs)))
          ((set_type (length qs) (if neg then SOS_REGEX_INV_CHAR_CLASS else SOS_REGEX_CHAR_CLASS) st)\<lparr>re_ccl_buf := buf[idx := 0]\<rparr>), True)
        else Inr (i, idx, (set_type (length qs) (if neg then SOS_REGEX_INV_CHAR_CLASS else SOS_REGEX_CHAR_CLASS) st)\<lparr>re_ccl_buf := buf\<rparr>, False))"
    using x by (simp add: re_symbol_def byte_of_char_def Let_def) (simp add: set_type_def)
  also have "\<dots> = Inr (Suc ?i + length cs, Suc (Suc (length xs) + length cs),
      (st\<lparr>re_ccl_buf := (xs @ 0 # cs) @ 0 # ys', re_compiled := qs @ r\<lparr>re_type := sym_type (Sym_Atom (At_Class neg cs)), re_u := Re_ccl (Suc (length xs))\<rparr> # rs\<rparr>), True)"
    unfolding copy using upd
    by (simp add: set_type_at [OF assms(1)] set_u_at [of _ qs "r\<lparr>re_type := _\<rparr>" rs] del: append_assoc)
  finally show ?thesis by (cases st; cases neg) (simp_all add: ys')
qed

lemma re_symbol_ok:
  assumes "re_compiled st = qs @ r # rs" and "re_ccl_buf st = xs @ 0 # ys" and "length (re_ccl_buf st) = MAX_CHAR_CLASS_LEN"
    and "drop i p = sym_print s @ rest" and "rest \<noteq> []" and "sym_ok s" and "length xs + sym_room s < MAX_CHAR_CLASS_LEN"
  shows "\<exists>x r' zs ys'. re_at p i = Inr x \<and> x \<noteq> 0 \<and>
    re_symbol p x i (length qs) (Suc (length xs)) st =
      Inr (i + length (sym_print s) - 1, Suc (length xs) + length zs, \<lparr>re_compiled = qs @ r' # rs, re_ccl_buf = (xs @ 0 # zs) @ ys'\<rparr>, True) \<and>
    length ((xs @ 0 # zs) @ ys') = MAX_CHAR_CLASS_LEN \<and> length zs = sym_room s \<and> last (0 # zs) = 0 \<and> sym_holds (xs @ 0 # zs) s r'"
proof -
  have plain: ?thesis
    if "re_at p i = Inr x" "x \<noteq> 0" "sym_room s = 0" "sym_holds (xs @ [0]) s r'"
      "re_symbol p x i (length qs) (Suc (length xs)) st = Inr (i + length (sym_print s) - 1, Suc (length xs), st\<lparr>re_compiled := qs @ r' # rs\<rparr>, True)"
    for x r'
    using that assms(2,3) by (intro exI [of _ x] exI [of _ r'] exI [of _ "[]"] exI [of _ ys]) (cases st, simp)
  have one: "drop i p = x # zs \<Longrightarrow> re_at p i = Inr x" for x zs by (rule re_at_drop)
  have two: "drop i p = x # y # zs \<Longrightarrow> re_at p (Suc i) = Inr y" for x y zs using drop_Suc_of re_at_drop by metis
  note simps = re_symbol_def set_type_at [OF assms(1)] set_u_at sym_holds_def byte_of_char_def str_def
  show ?thesis
  proof (cases s)
    case (Sym_Atom a)
    show ?thesis
    proof (cases a)
      case (At_Lit c)
      show ?thesis
      proof (cases "re_meta c")
        case True
        then have d: "drop i p = ch (CHR 0x5C) # c # rest" using assms(4) Sym_Atom At_Lit by simp
        have "c \<noteq> 0" using assms(6) Sym_Atom At_Lit by simp
        then show ?thesis
          using one [OF d] two [OF d] True Sym_Atom At_Lit
          by (intro plain [of "ch (CHR 0x5C)" "r\<lparr>re_type := SOS_REGEX_CHAR, re_u := Re_ch c\<rparr>"])
            (auto simp: simps re_meta_def set_u_at [of _ qs "r\<lparr>re_type := _\<rparr>" rs])
      next
        case False
        then have d: "drop i p = c # rest" using assms(4) Sym_Atom At_Lit by simp
        have "c \<noteq> 0" using assms(6) Sym_Atom At_Lit by simp
        then show ?thesis
          using one [OF d] False Sym_Atom At_Lit
          by (intro plain [of c "r\<lparr>re_type := SOS_REGEX_CHAR, re_u := Re_ch c\<rparr>"])
            (auto simp: simps re_meta_def set_u_at [of _ qs "r\<lparr>re_type := _\<rparr>" rs])
      qed
    next
      case (At_Class neg cs)
      have d: "drop i p = atom_print (At_Class neg cs) @ rest" using assms(4) Sym_Atom At_Class by simp
      then obtain zs where "drop i p = ch (CHR ''['') # zs" by simp
      from one [OF this] have at: "re_at p i = Inr (ch (CHR ''[''))" .
      have ok: "sym_ok (Sym_Atom (At_Class neg cs))" "length xs + Suc (length cs) < MAX_CHAR_CLASS_LEN"
        using assms(6,7) Sym_Atom At_Class by simp_all
      note c = re_symbol_class [OF assms(1-3) d ok]
      have len: "length xs + Suc (length ys) = MAX_CHAR_CLASS_LEN" using assms(2,3) by simp
      show ?thesis
        using at c ok(2) len Sym_Atom At_Class
        by (intro exI [of _ "ch (CHR ''['')"] exI [of _ "r\<lparr>re_type := sym_type s, re_u := Re_ccl (Suc (length xs))\<rparr>"]
            exI [of _ "cs @ [0]"] exI [of _ "drop (Suc (length cs)) ys"])
          (auto simp: sym_holds_def byte_of_char_def)
    qed (rule plain [where x = "hd (sym_print s)" and r' = "r\<lparr>re_type := sym_type s\<rparr>"];
        use assms(4) one two Sym_Atom in \<open>auto simp: simps\<close>)+
  qed (rule plain [where x = "hd (sym_print s)" and r' = "r\<lparr>re_type := sym_type s\<rparr>"]; use assms(4) one in \<open>auto simp: simps\<close>)+
qed

lemma compile_syms:
  assumes "re_compiled st = qs @ rs" and "re_ccl_buf st = xs @ 0 # ys" and "length (re_ccl_buf st) = MAX_CHAR_CLASS_LEN"
    and "length (re_compiled st) = MAX_REGEXP_OBJECTS"
    and "drop i p = concat (map sym_print syms) @ [0]" and "\<forall>s \<in> set syms. sym_ok s"
    and "length qs + length syms < MAX_REGEXP_OBJECTS" and "length xs + sum_list (map sym_room syms) < MAX_CHAR_CLASS_LEN"
  shows "\<exists>rs1 r rs2 zs. re_compile_loop p i (length qs) (Suc (length xs)) st =
      Inr (\<lparr>re_compiled = qs @ rs1 @ r # rs2, re_ccl_buf = xs @ 0 # zs\<rparr>, True) \<and>
    list_all2 (sym_holds (xs @ 0 # zs)) syms rs1 \<and> re_type r = SOS_REGEX_UNUSED \<and> length (xs @ 0 # zs) = MAX_CHAR_CLASS_LEN \<and>
    length (qs @ rs1 @ r # rs2) = MAX_REGEXP_OBJECTS"
  using assms
proof (induction syms arbitrary: i qs rs xs ys st)
  case Nil
  then obtain r rs' where rs: "rs = r # rs'" by (cases rs) auto
  have "re_at p i = Inr 0" using Nil.prems(5) re_at_drop [of i p] by simp
  then have "re_compile_loop p i (length qs) (Suc (length xs)) st = Inr (st\<lparr>re_compiled := qs @ r\<lparr>re_type := SOS_REGEX_UNUSED\<rparr> # rs'\<rparr>, True)"
    using Nil.prems(1) rs set_type_at [of st qs r rs'] by (subst re_compile_loop.simps) simp
  then show ?case
    using Nil.prems rs
    by (intro exI [of _ "[]"] exI [of _ "r\<lparr>re_type := SOS_REGEX_UNUSED\<rparr>"] exI [of _ rs'] exI [of _ ys]) (cases st, simp)
next
  case (Cons s syms)
  obtain r rs' where rs: "rs = r # rs'" using Cons.prems(1,4,7) by (cases rs) auto
  have c: "re_compiled st = qs @ r # rs'" using Cons.prems(1) rs by simp
  have d: "drop i p = sym_print s @ concat (map sym_print syms) @ [0]" using Cons.prems(5) by simp
  have ok: "sym_ok s" "length xs + sym_room s < MAX_CHAR_CLASS_LEN" using Cons.prems(6,8) by auto
  obtain x r' zs ys' where st: "re_at p i = Inr x" "x \<noteq> 0"
      "re_symbol p x i (length qs) (Suc (length xs)) st =
        Inr (i + length (sym_print s) - 1, Suc (length xs) + length zs, \<lparr>re_compiled = qs @ r' # rs', re_ccl_buf = (xs @ 0 # zs) @ ys'\<rparr>, True)"
      "length ((xs @ 0 # zs) @ ys') = MAX_CHAR_CLASS_LEN" "length zs = sym_room s" "last (0 # zs) = 0" "sym_holds (xs @ 0 # zs) s r'"
    using re_symbol_ok [OF c Cons.prems(2,3) d _ ok] by blast
  let ?st = "\<lparr>re_compiled = qs @ r' # rs', re_ccl_buf = (xs @ 0 # zs) @ ys'\<rparr>" and ?i = "Suc (i + length (sym_print s) - 1)"
  obtain xs' where xs': "xs @ 0 # zs = xs' @ [0]"
    using st(6) by (metis append_butlast_last_id last_appendR list.distinct(1) append_is_Nil_conv)
  have lx: "length xs' = length xs + length zs" using arg_cong [OF xs', of length] by simp
  have pos: "0 < length (sym_print s)"
  proof (cases s)
    case (Sym_Atom a)
    then show ?thesis by (cases a) (simp_all add: str_def)
  qed (simp_all add: str_def)
  then have i: "?i = i + length (sym_print s)" by simp
  have d': "drop ?i p = concat (map sym_print syms) @ [0]" unfolding i using arg_cong [OF d, of "drop (length (sym_print s))"] by (simp add: add.commute)
  have ih: "\<exists>rs1 r rs2 zs'. re_compile_loop p ?i (length (qs @ [r'])) (Suc (length xs')) ?st =
      Inr (\<lparr>re_compiled = (qs @ [r']) @ rs1 @ r # rs2, re_ccl_buf = xs' @ 0 # zs'\<rparr>, True) \<and>
    list_all2 (sym_holds (xs' @ 0 # zs')) syms rs1 \<and> re_type r = SOS_REGEX_UNUSED \<and> length (xs' @ 0 # zs') = MAX_CHAR_CLASS_LEN \<and>
    length ((qs @ [r']) @ rs1 @ r # rs2) = MAX_REGEXP_OBJECTS"
    by (rule Cons.IH [of _ _ rs' _ ys']) (use Cons.prems c st(4,5) xs' d' lx in \<open>auto simp del: append_assoc\<close>)
  then obtain rs1 u rs2 zs' where r: "re_compile_loop p ?i (Suc (length qs)) (Suc (length xs')) ?st =
      Inr (\<lparr>re_compiled = qs @ r' # rs1 @ u # rs2, re_ccl_buf = xs' @ 0 # zs'\<rparr>, True)"
    "list_all2 (sym_holds (xs' @ 0 # zs')) syms rs1" "re_type u = SOS_REGEX_UNUSED" "length (xs' @ 0 # zs') = MAX_CHAR_CLASS_LEN"
    "length (qs @ r' # rs1 @ u # rs2) = MAX_REGEXP_OBJECTS"
    by auto
  have e: "xs' @ 0 # zs' = xs @ 0 # (zs @ zs')" using xs' by (metis append.assoc append_Cons append_Nil)
  have "re_compile_loop p i (length qs) (Suc (length xs)) st = Inr (\<lparr>re_compiled = qs @ (r' # rs1) @ u # rs2, re_ccl_buf = xs @ 0 # (zs @ zs')\<rparr>, True)"
    using st(1-3) r(1) Cons.prems(7) lx unfolding e by (subst re_compile_loop.simps) simp
  moreover have "sym_holds (xs @ 0 # (zs @ zs')) s r'" using sym_holds_append [OF st(7), of zs'] by simp
  ultimately show ?case
    using r(2-5) unfolding e by (intro exI [of _ "r' # rs1"] exI [of _ u] exI [of _ rs2] exI [of _ "zs @ zs'"]) simp
qed

section \<open>Compiled patterns\<close>

lemma atom_compiled:
  assumes "sym_holds buf (Sym_Atom a) p" and "sym_ok (Sym_Atom a)"
  shows "re_plain buf p" and "re_chars buf p = atom_chars a"
proof -
  have "(\<forall>c. SOS_matchone buf p c = Inr (c \<in> atom_chars a)) \<and>
    re_type p \<notin> {SOS_REGEX_UNUSED, SOS_REGEX_BEGIN, SOS_REGEX_END, SOS_REGEX_QUESTIONMARK, SOS_REGEX_STAR, SOS_REGEX_PLUS}"
  proof (cases a)
    case (At_Class neg cs)
    then obtain xs ys where b: "re_u p = Re_ccl (Suc (length xs))" "buf = xs @ 0 # cs @ 0 # ys" and "0 \<notin> set cs"
      using assms by (auto simp: sym_holds_def)
    then have "cstr (drop (Suc (length xs)) buf) = cs" "buf ! length xs = 0"
      using cstr_append_NUL [of cs ys] by (simp_all add: wf_cstring_def nth_append)
    then show ?thesis using assms(1) b(1) At_Class by (auto simp: sym_holds_def SOS_matchone_def atom_chars_def)
  qed (use assms(1) in \<open>auto simp: sym_holds_def SOS_matchone_def atom_chars_def\<close>)
  then show "re_plain buf p" "re_chars buf p = atom_chars a" by (auto simp: re_plain_def re_chars_def)
qed

lemma spells_compiled:
  assumes "list_all2 (sym_holds buf) (concat (map item_syms items) @ (if e then [Sym_End] else [])) rs" and "re_type r = SOS_REGEX_UNUSED"
    and "\<forall>(a, q) \<in> set items. sym_ok (Sym_Atom a)"
  shows "\<exists>its. re_spells (rs @ r # rs') its e \<and> (\<forall>(p, q) \<in> set its. re_plain buf p) \<and>
    char_items buf its = map (\<lambda>(a, q). (atom_chars a, q)) items"
  using assms(1,3)
proof (induction items arbitrary: rs)
  case Nil
  show ?case
    by (rule exI [of _ "[]"]) (use Nil assms(2) in \<open>auto simp: list_all2_Cons1 sym_holds_def\<close>)
next
  case (Cons item items)
  obtain a q where item: "item = (a, q)" by (cases item)
  obtain p rs1 where p: "rs = p # rs1" "sym_holds buf (Sym_Atom a) p" using Cons.prems(1) by (auto simp: item item_syms_def list_all2_Cons1)
  note at = atom_compiled [OF p(2)]
  have ok: "sym_ok (Sym_Atom a)" "\<forall>(a, q) \<in> set items. sym_ok (Sym_Atom a)" using Cons.prems(2) item by auto
  let ?rest = "concat (map item_syms items) @ (if e then [Sym_End] else [])"
  have tail: "list_all2 (sym_holds buf) ((case q of One \<Rightarrow> [] | Star \<Rightarrow> [Sym_Star] | Plus \<Rightarrow> [Sym_Plus]) @ ?rest) rs1"
    using Cons.prems(1) p(1) by (simp add: item item_syms_def)
  obtain ts rs2 where ts: "rs1 = ts @ rs2" "list_all2 (sym_holds buf) ?rest rs2"
      "(case q of One \<Rightarrow> ts = [] | Star \<Rightarrow> \<exists>t. ts = [t] \<and> re_type t = SOS_REGEX_STAR | Plus \<Rightarrow> \<exists>t. ts = [t] \<and> re_type t = SOS_REGEX_PLUS)"
  proof (cases q)
    case One
    then show ?thesis using that [of "[]" rs1] tail by simp
  next
    case Star
    then obtain t rs2 where "rs1 = [t] @ rs2" "sym_holds buf Sym_Star t" "list_all2 (sym_holds buf) ?rest rs2"
      using tail by (auto simp only: re_quant.case append_Cons append_Nil list_all2_Cons1)
    then show ?thesis using that [of "[t]" rs2] Star by (simp add: sym_holds_def)
  next
    case Plus
    then obtain t rs2 where "rs1 = [t] @ rs2" "sym_holds buf Sym_Plus t" "list_all2 (sym_holds buf) ?rest rs2"
      using tail by (auto simp only: re_quant.case append_Cons append_Nil list_all2_Cons1)
    then show ?thesis using that [of "[t]" rs2] Plus by (simp add: sym_holds_def)
  qed
  obtain its where its: "re_spells (rs2 @ r # rs') its e" "\<forall>(p, q) \<in> set its. re_plain buf p"
      "char_items buf its = map (\<lambda>(a, q). (atom_chars a, q)) items"
    using Cons.IH [OF ts(2) ok(2)] by blast
  have "rs @ r # rs' = p # ts @ (rs2 @ r # rs')" using p(1) ts(1) by simp
  then have "re_spells (rs @ r # rs') ((p, q) # its) e" using ts(3) its(1) by (cases q) auto
  then show ?case using at [OF ok(1)] its(2,3) by (intro exI [of _ "(p, q) # its"]) (simp add: item)
qed

definition pattern_accepts :: "re_pattern \<Rightarrow> byte list \<Rightarrow> bool" where
  "pattern_accepts pt = re_accepts (map (\<lambda>(a, q). (atom_chars a, q)) (pt_items pt)) (pt_end pt)"

lemma match_printed_pattern:
  assumes "re_pattern_ok pt" and "re_state_ok st"
  shows "\<exists>st'. re_state_ok st' \<and> SOS_re_match (re_print pt @ [0]) text st =
    Inr (st', if pt_begin pt then (if pattern_accepts pt text then 0 else - 1) else first_match (pattern_accepts pt) text)"
proof -
  let ?syms = "pattern_syms pt"
  obtain ys where ys: "re_ccl_buf st = [] @ 0 # ys"
    using assms(2) by (cases "re_ccl_buf st") (auto simp: re_state_ok_def MAX_CHAR_CLASS_LEN_def)
  have len: "length (re_ccl_buf st) = MAX_CHAR_CLASS_LEN" "length (re_compiled st) = MAX_REGEXP_OBJECTS" using assms(2) by (auto simp: re_state_ok_def)
  have pok: "\<forall>s \<in> set ?syms. sym_ok s" "length ?syms < MAX_REGEXP_OBJECTS" "sum_list (map sym_room ?syms) < MAX_CHAR_CLASS_LEN"
    using assms(1) by (auto simp: re_pattern_ok_def)
  obtain rs1 r rs2 zs where c: "SOS_re_compile (re_print pt @ [0]) st = Inr (\<lparr>re_compiled = rs1 @ r # rs2, re_ccl_buf = 0 # zs\<rparr>, True)"
      "list_all2 (sym_holds (0 # zs)) ?syms rs1" "re_type r = SOS_REGEX_UNUSED" "length (0 # zs) = MAX_CHAR_CLASS_LEN"
      "length (rs1 @ r # rs2) = MAX_REGEXP_OBJECTS"
    using compile_syms [of st "[]" "re_compiled st" "[]" ys 0 "re_print pt @ [0]" ?syms] ys len pok
    by (auto simp: SOS_re_compile_def re_print_def)
  let ?st = "\<lparr>re_compiled = rs1 @ r # rs2, re_ccl_buf = 0 # zs\<rparr>"
  have st: "re_state_ok ?st" using c(4,5) by (simp add: re_state_ok_def)
  have atoms: "\<forall>(a, q) \<in> set (pt_items pt). sym_ok (Sym_Atom a)"
    using pok(1) by (fastforce simp: pattern_syms_def item_syms_def)
  let ?body = "concat (map item_syms (pt_items pt)) @ (if pt_end pt then [Sym_End] else [])"
  have run: "SOS_re_match (re_print pt @ [0]) text st = bindR (SOS_re_matchp ?st True text) (\<lambda>i. Inr (?st, i))"
    using c(1) by (simp add: SOS_re_match_def)
  show ?thesis
  proof (cases "pt_begin pt")
    case True
    then obtain q qs where q: "rs1 = q # qs" "re_type q = SOS_REGEX_BEGIN" "list_all2 (sym_holds (0 # zs)) ?body qs"
      using c(2) by (auto simp: pattern_syms_def list_all2_Cons1 sym_holds_def)
    obtain its where its: "re_spells (qs @ r # rs2) its (pt_end pt)" "\<forall>(p, q) \<in> set its. re_plain (0 # zs) p"
        "char_items (0 # zs) its = map (\<lambda>(a, q). (atom_chars a, q)) (pt_items pt)"
      using spells_compiled [OF q(3) c(3) atoms] by blast
    have "SOS_re_matchp ?st True text = Inr (if pattern_accepts pt text then 0 else - 1)"
      using q(1,2) matchpattern_iff [OF its(1,2)] its(3) by (simp add: SOS_re_matchp_def pattern_accepts_def)
    then show ?thesis using run st True by auto
  next
    case False
    then have q: "list_all2 (sym_holds (0 # zs)) ?body rs1" using c(2) by (simp add: pattern_syms_def)
    obtain its where its: "re_spells (rs1 @ r # rs2) its (pt_end pt)" "\<forall>(p, q) \<in> set its. re_plain (0 # zs) p"
        "char_items (0 # zs) its = map (\<lambda>(a, q). (atom_chars a, q)) (pt_items pt)"
      using spells_compiled [OF q c(3) atoms] by blast
    have head: "re_type ((rs1 @ r # rs2) ! 0) \<noteq> SOS_REGEX_BEGIN"
      using spells_head [OF its(1,2)] by auto
    have "SOS_matchpattern (0 # zs) (rs1 @ r # rs2) ts = Inr (pattern_accepts pt ts)" for ts
      using matchpattern_iff [OF its(1,2)] its(3) by (simp add: pattern_accepts_def)
    from re_search_first [OF this, of 0 "text"] head have "SOS_re_matchp ?st True text = Inr (first_match (pattern_accepts pt) text)"
      by (simp add: SOS_re_matchp_def split: if_splits)
    then show ?thesis using run st False by auto
  qed
qed

section \<open>What compiling keeps\<close>

lemma copy_class_length: "re_copy_class p i k buf = Inr (i', k', buf', room) \<Longrightarrow> length buf' = length buf \<and> k \<le> k' \<and> take k buf' = take k buf \<and>
   (room \<longrightarrow> k' < MAX_CHAR_CLASS_LEN)"
proof (induction p i k buf rule: re_copy_class.induct)
  case (1 p i k buf)
  show ?case
  proof (cases "Suc i < length p \<and> \<not> (p ! Suc i = ch (CHR '']'') \<or> p ! Suc i = 0) \<and> \<not> MAX_CHAR_CLASS_LEN \<le> k")
    case True
    then have "re_copy_class p (Suc i) (Suc k) (buf[k := p ! Suc i]) = Inr (i', k', buf', room)"
      using 1(2) by (subst (asm) re_copy_class.simps) simp
    then have ih: "length buf' = length buf" "Suc k \<le> k'" "take (Suc k) buf' = take (Suc k) (buf[k := p ! Suc i])" "room \<longrightarrow> k' < MAX_CHAR_CLASS_LEN"
      using 1(1) True by auto
    have "take k buf' = take k buf" using arg_cong [OF ih(3), of "take k"] by (simp add: min_def)
    then show ?thesis using ih by simp
  next
    case False
    then show ?thesis using 1(2) by (subst (asm) re_copy_class.simps) (auto split: if_splits)
  qed
qed

lemma set_keeps [simp]:
  "length (re_compiled (set_type j t st)) = length (re_compiled st)" "length (re_compiled (set_u j u st)) = length (re_compiled st)"
  "take j (re_compiled (set_type j t st)) = take j (re_compiled st)" "take j (re_compiled (set_u j u st)) = take j (re_compiled st)"
  "re_ccl_buf (set_type j t st) = re_ccl_buf st" "re_ccl_buf (set_u j u st) = re_ccl_buf st"
  by (simp_all add: set_type_def set_u_def)

definition re_keeps :: "nat \<Rightarrow> nat \<Rightarrow> SOS_re_state \<Rightarrow> SOS_re_state \<Rightarrow> bool" where
  "re_keeps j k st st' \<longleftrightarrow> length (re_compiled st') = length (re_compiled st) \<and> length (re_ccl_buf st') = length (re_ccl_buf st) \<and>
     take j (re_compiled st') = take j (re_compiled st) \<and> take k (re_ccl_buf st') = take k (re_ccl_buf st)"

lemma re_symbol_keeps:
  assumes "re_symbol p c i j k st = Inr (i', k', st', go_on)"
  shows "k \<le> k' \<and> re_keeps j k st st'"
proof (cases "c = ch (CHR ''['')")
  case True
  obtain d where d: "re_at p (Suc i) = Inr d" using assms True by (auto simp: re_symbol_def byte_of_char_def bindR_Inr_iff)
  let ?neg = "d = ch (CHR ''^'')"
  let ?st = "set_type j (if ?neg then SOS_REGEX_INV_CHAR_CLASS else SOS_REGEX_CHAR_CLASS) st"
  have run: "bindR (re_copy_class p (if ?neg then Suc i else i) k (re_ccl_buf ?st)) (\<lambda>(i, idx, buf, room).
        if room then Inr (i, Suc idx, set_u j (Re_ccl k) (?st\<lparr>re_ccl_buf := buf[idx := 0]\<rparr>), True)
        else Inr (i, idx, ?st\<lparr>re_ccl_buf := buf\<rparr>, False)) = Inr (i', k', st', go_on)"
    using assms d True by (cases ?neg) (simp_all add: re_symbol_def byte_of_char_def Let_def cong: if_cong)
  then obtain i1 k1 buf room where copy: "re_copy_class p (if ?neg then Suc i else i) k (re_ccl_buf st) = Inr (i1, k1, buf, room)"
    by (auto simp: bindR_Inr_iff)
  note c = copy_class_length [OF copy]
  show ?thesis
  proof (cases room)
    case True
    then have "k' = Suc k1" "st' = set_u j (Re_ccl k) (?st\<lparr>re_ccl_buf := buf[k1 := 0]\<rparr>)" using run copy by auto
    then show ?thesis using c by (simp add: re_keeps_def)
  next
    case False
    then have "k' = k1" "st' = ?st\<lparr>re_ccl_buf := buf\<rparr>" using run copy by auto
    then show ?thesis using c by (simp add: re_keeps_def)
  qed
next
  case False
  then show ?thesis using assms by (auto simp: re_symbol_def re_keeps_def bindR_Inr_iff split: if_splits)
qed

lemma re_keeps_trans: "re_keeps j k st st' \<Longrightarrow> j \<le> j' \<Longrightarrow> k \<le> k' \<Longrightarrow> re_keeps j' k' st' st'' \<Longrightarrow> re_keeps j k st st''"
  unfolding re_keeps_def by (metis min.absorb1 take_take)

lemma compile_loop_keeps: "re_compile_loop p i j k st = Inr (st', ok) \<Longrightarrow> re_keeps j k st st'"
proof (induction p i j k st rule: re_compile_loop.induct)
  case (1 p i j k st)
  obtain c where c: "re_at p i = Inr c" using 1(2) by (subst (asm) re_compile_loop.simps) (auto simp: bindR_Inr_iff)
  show ?case
  proof (cases "c \<noteq> 0 \<and> j + 1 < MAX_REGEXP_OBJECTS")
    case True
    then obtain i1 k1 st1 go where s: "re_symbol p c i j k st = Inr (i1, k1, st1, go)"
        "(if go then re_compile_loop p (Suc i1) (Suc j) k1 st1 else Inr (st1, False)) = Inr (st', ok)"
      using 1(2) c by (subst (asm) re_compile_loop.simps) (auto simp: bindR_Inr_iff)
    note k = re_symbol_keeps [OF s(1)]
    show ?thesis
    proof (cases go)
      case True
      then have "re_keeps (Suc j) k1 st1 st'"
        using 1(1) [OF c \<open>c \<noteq> 0 \<and> j + 1 < MAX_REGEXP_OBJECTS\<close> s(1) refl refl refl] s(2) by simp
      then show ?thesis using re_keeps_trans [of j k st st1 "Suc j" k1 st'] k by simp
    next
      case False
      then show ?thesis using s(2) k by simp
    qed
  next
    case False
    then have "st' = set_type j SOS_REGEX_UNUSED st" using 1(2) c by (subst (asm) re_compile_loop.simps) auto
    then show ?thesis by (simp add: re_keeps_def)
  qed
qed

text \<open>Compiling anything leaves the static arrays as it needs them for the next pattern.\<close>

lemma compile_state_ok:
  assumes "SOS_re_compile p st = Inr (st', ok)" and "re_state_ok st"
  shows "re_state_ok st'"
proof -
  have k: "re_keeps 0 1 st st'" using compile_loop_keeps assms(1) unfolding SOS_re_compile_def by blast
  then have "take 1 (re_ccl_buf st') = take 1 (re_ccl_buf st)" by (simp add: re_keeps_def)
  then have "re_ccl_buf st' ! 0 = re_ccl_buf st ! 0" by (metis less_one nth_take)
  then show ?thesis using k assms(2) by (simp add: re_keeps_def re_state_ok_def)
qed


lemma sym_type_atom: "sym_type (Sym_Atom a) \<noteq> SOS_REGEX_UNUSED \<and> sym_type (Sym_Atom a) \<noteq> SOS_REGEX_BEGIN"
  by (cases a) auto

lemma compile_loop_step:
  assumes "re_at p i = Inr c" and "c \<noteq> 0" and "j + 1 < MAX_REGEXP_OBJECTS" and "re_symbol p c i j k st = Inr (i', k', st', True)"
  shows "re_compile_loop p i j k st = re_compile_loop p (Suc i') (Suc j) k' st'"
  using assms by (subst re_compile_loop.simps) simp

lemma compile_atom_question:
  assumes "re_state_ok st" and "sym_ok (Sym_Atom a)" and "sym_room (Sym_Atom a) < MAX_CHAR_CLASS_LEN"
    and "SOS_re_compile (atom_print a @ ch (CHR ''?'') # rest) st = Inr (st', ok)"
  shows "\<exists>q r rs. re_compiled st' = q # r # rs \<and> re_type q = sym_type (Sym_Atom a) \<and> re_type r = SOS_REGEX_QUESTIONMARK"
proof -
  let ?p = "atom_print a @ ch (CHR ''?'') # rest"
  have len: "length (re_ccl_buf st) = MAX_CHAR_CLASS_LEN" "length (re_compiled st) = MAX_REGEXP_OBJECTS" using assms(1) by (auto simp: re_state_ok_def)
  obtain ys where ys: "re_ccl_buf st = [] @ 0 # ys"
    using assms(1) by (cases "re_ccl_buf st") (auto simp: re_state_ok_def MAX_CHAR_CLASS_LEN_def)
  have "1 < length (re_compiled st)" using len by (simp add: MAX_REGEXP_OBJECTS_def)
  then obtain q r rs where c: "re_compiled st = [] @ q # r # rs"
    by (cases "re_compiled st"; cases "tl (re_compiled st)") auto
  obtain x q' zs ys' where s: "re_at ?p 0 = Inr x" "x \<noteq> 0"
      "re_symbol ?p x 0 0 1 st = Inr (length (atom_print a) - 1, 1 + length zs, \<lparr>re_compiled = q' # r # rs, re_ccl_buf = (0 # zs) @ ys'\<rparr>, True)"
      "sym_holds (0 # zs) (Sym_Atom a) q'"
    using re_symbol_ok [OF c ys len(1), of 0 ?p "Sym_Atom a" "ch (CHR ''?'') # rest"] assms(2,3) by auto
  let ?st = "\<lparr>re_compiled = q' # r # rs, re_ccl_buf = (0 # zs) @ ys'\<rparr>"
  have i: "Suc (length (atom_print a) - 1) = length (atom_print a)" by (cases a) (simp_all add: str_def)
  have at: "re_at ?p (length (atom_print a)) = Inr (ch (CHR ''?''))" by (rule re_at_drop) simp
  have nz: "ch (CHR ''?'') \<noteq> 0" by (simp add: byte_of_char_def)
  have sym: "re_symbol ?p (ch (CHR ''?'')) (length (atom_print a)) 1 (1 + length zs) ?st =
      Inr (length (atom_print a), 1 + length zs, \<lparr>re_compiled = q' # r\<lparr>re_type := SOS_REGEX_QUESTIONMARK\<rparr> # rs, re_ccl_buf = (0 # zs) @ ys'\<rparr>, True)"
    by (simp add: re_symbol_def byte_of_char_def set_type_def)
  have "re_compile_loop ?p (length (atom_print a)) 1 (1 + length zs) ?st = Inr (st', ok)"
    using assms(4) compile_loop_step [OF s(1,2) _ s(3)] i unfolding SOS_re_compile_def by (simp add: MAX_REGEXP_OBJECTS_def)
  then have "re_compile_loop ?p (Suc (length (atom_print a))) 2 (1 + length zs)
      \<lparr>re_compiled = q' # r\<lparr>re_type := SOS_REGEX_QUESTIONMARK\<rparr> # rs, re_ccl_buf = (0 # zs) @ ys'\<rparr> = Inr (st', ok)"
    using compile_loop_step [OF at nz _ sym] by (simp add: MAX_REGEXP_OBJECTS_def eval_nat_numeral)
  from compile_loop_keeps [OF this] have t: "take 2 (re_compiled st') = [q', r\<lparr>re_type := SOS_REGEX_QUESTIONMARK\<rparr>]"
    by (simp add: re_keeps_def numeral_2_eq_2)
  then obtain rs' where "re_compiled st' = q' # r\<lparr>re_type := SOS_REGEX_QUESTIONMARK\<rparr> # rs'"
    by (metis append_Cons append_Nil append_take_drop_id)
  then show ?thesis using s(4) by (auto simp: sym_holds_def)
qed

text \<open>A class without its bracket ends the string, and the loop reads on after it.\<close>

lemma unterminated_class:
  assumes "re_state_ok st" and "0 \<notin> set cs" and "ch (CHR '']'') \<notin> set cs" and "cs = [] \<or> hd cs \<noteq> ch (CHR ''^'')"
    and "Suc (length cs) < MAX_CHAR_CLASS_LEN"
  shows "SOS_re_compile (ch (CHR ''['') # cs @ [0]) st = Inl Out_Of_Bounds"
proof -
  let ?p = "ch (CHR ''['') # cs @ [0]"
  have len: "length (re_ccl_buf st) = MAX_CHAR_CLASS_LEN" using assms(1) by (simp add: re_state_ok_def)
  have "re_copy_class ?p 0 1 (re_ccl_buf st) = Inr (Suc (length cs), 1 + length cs, take 1 (re_ccl_buf st) @ cs @ drop (length cs) (drop 1 (re_ccl_buf st)), True)"
    using copy_class_ok [of 0 ?p cs 0 "[]" "take 1 (re_ccl_buf st)" "drop 1 (re_ccl_buf st)"] assms len
    by (simp add: MAX_CHAR_CLASS_LEN_def min_def del: One_nat_def)
  moreover have "re_at ?p 1 = Inr (hd (cs @ [0]))" by (cases cs) (simp_all add: re_at_def)
  moreover have "hd (cs @ [0]) \<noteq> ch (CHR ''^'')" using assms(4) by (cases cs) (auto simp: byte_of_char_def)
  ultimately have "\<exists>k' st'. re_symbol ?p (ch (CHR ''['')) 0 0 1 st = Inr (Suc (length cs), k', st', True)"
    by (simp add: re_symbol_def byte_of_char_def Let_def)
  then obtain k' st' where "re_symbol ?p (ch (CHR ''['')) 0 0 1 st = Inr (Suc (length cs), k', st', True)" by blast
  from compile_loop_step [OF _ _ _ this] have "SOS_re_compile ?p st = re_compile_loop ?p (Suc (Suc (length cs))) 1 k' st'"
    by (simp add: SOS_re_compile_def re_at_def MAX_REGEXP_OBJECTS_def byte_of_char_def)
  also have "\<dots> = Inl Out_Of_Bounds" by (subst re_compile_loop.simps) (simp add: re_at_def)
  finally show ?thesis .
qed

section \<open>Properties\<close>



text \<open>
  the question mark is no quantifier. A pattern that starts with an atom and \<open>?\<close> matches every text at
  position 0, whatever stands behind the \<open>?\<close>.
\<close>

theorem re_question_ends:
  assumes "re_state_ok st" and "sym_ok (Sym_Atom a)" and "sym_room (Sym_Atom a) < MAX_CHAR_CLASS_LEN"
    and "SOS_re_compile (atom_print a @ str ''?'' @ rest) st = Inr (st', True)"
  shows "SOS_re_match (atom_print a @ str ''?'' @ rest) text st = Inr (st', 0)"
proof -
  have s: "str ''?'' = [ch (CHR ''?'')]" by (simp add: str_def)
  obtain q r rs where c: "re_compiled st' = q # r # rs" "re_type q = sym_type (Sym_Atom a)" "re_type r = SOS_REGEX_QUESTIONMARK"
    using compile_atom_question [of st a rest st' True] assms unfolding s by auto
  have "SOS_matchpattern (re_ccl_buf st') (re_compiled st') text = Inr True"
    using c sym_type_atom [of a] by (subst SOS_matchpattern.simps) simp
  then have "SOS_re_matchp st' True text = Inr 0"
    using c sym_type_atom [of a] by (cases "text") (simp_all add: SOS_re_matchp_def)
  then show ?thesis using assms(4) by (simp add: SOS_re_match_def)
qed

theorem re_question_ends_witness:
  "SOS_re_match (atom_print (At_Lit 97) @ str ''?'' @ (str ''bc'' @ [0])) (str ''x'') SOS_re_static =
    Inr (fst (projr (SOS_re_compile (str ''a?bc'' @ [0]) SOS_re_static)), 0)"
proof (rule re_question_ends)
  show "re_state_ok SOS_re_static" by (simp add: re_state_ok_def SOS_re_static_def MAX_CHAR_CLASS_LEN_def)
  show "sym_ok (Sym_Atom (At_Lit 97))" "sym_room (Sym_Atom (At_Lit 97)) < MAX_CHAR_CLASS_LEN" by (simp_all add: MAX_CHAR_CLASS_LEN_def)
  show "SOS_re_compile (atom_print (At_Lit 97) @ str ''?'' @ (str ''bc'' @ [0])) SOS_re_static =
    Inr (fst (projr (SOS_re_compile (str ''a?bc'' @ [0]) SOS_re_static)), True)"
    by code_simp
qed

end
